(* ===== verification/Prelude.thy ===== *)
theory Prelude
  imports Main "HOL-Library.AList"
begin

text \<open>
  Shared vocabulary of the development.

  \<^item> Rust's \<^verbatim>\<open>String\<close> and \<^verbatim>\<open>&str\<close> are sequences of Unicode scalar values; a
    \<open>ustring\<close> is the list of their code points, so that \<^verbatim>\<open>chars()\<close>, \<^verbatim>\<open>trim()\<close> and
    \<^verbatim>\<open>push('\<dots>')\<close> act on what the code acts on.  A literal of the source is written
    \<open>lit ''abc''\<close>.
  \<^item> \<^verbatim>\<open>Result<T, E>\<close> is \<open>'e + 't\<close>, with \<open>Err\<close> and \<open>Ok\<close> for its constructors and
    \<open>and_then\<close> for the \<^verbatim>\<open>?\<close> operator.  A \<^verbatim>\<open>for\<close> loop whose body may return early is
    \<open>try_fold\<close>, \<^verbatim>\<open>collect::<Result<Vec<_>, _>>()\<close> is \<open>try_map\<close>.
  \<^item> \<^verbatim>\<open>HashMap\<close> is an association list read with \<^const>\<open>map_of\<close> and written with
    \<^const>\<open>AList.update\<close>; \<^verbatim>\<open>entry(k).or_default().push(v)\<close> is \<open>push_at\<close>.
    A \<^verbatim>\<open>HashSet\<close> is a set.
  \<^item> \<^verbatim>\<open>usize\<close> is \<^typ>\<open>nat\<close>, with saturation written out.
\<close>

named_theorems result_simps \<open>evaluation of the fallible combinators\<close>
named_theorems hash_simps \<open>reading the hash maps back\<close>

section \<open>Text\<close>

type_synonym ustring = "nat list"

definition lit :: "string \<Rightarrow> ustring" where
  "lit s = map of_char s"

lemma lit_eq_iff [simp]: "lit s = lit t \<longleftrightarrow> s = t"
proof -
  have "inj (of_char :: char \<Rightarrow> nat)" by (rule inj_of_char)
  then show ?thesis by (simp add: lit_def inj_map_eq_map)
qed

lemma lit_Nil [simp]: "lit [] = []"
  by (simp add: lit_def)

lemma lit_eq_Nil [simp]: "lit s = [] \<longleftrightarrow> s = []"
  by (simp add: lit_def)

text \<open>\<^verbatim>\<open>char::is_whitespace\<close>: the code points with the Unicode property \<open>White_Space\<close>.\<close>

definition is_whitespace :: "nat \<Rightarrow> bool" where
  "is_whitespace c \<longleftrightarrow> 9 \<le> c \<and> c \<le> 13 \<or> c = 32 \<or> c = 133 \<or> c = 160 \<or> c = 5760
     \<or> 8192 \<le> c \<and> c \<le> 8202 \<or> c = 8232 \<or> c = 8233 \<or> c = 8239 \<or> c = 8287 \<or> c = 12288"

text \<open>\<^verbatim>\<open>str::trim\<close>.\<close>

definition utrim :: "ustring \<Rightarrow> ustring" where
  "utrim s = rev (dropWhile is_whitespace (rev (dropWhile is_whitespace s)))"

lemma utrim_Nil [simp]: "utrim [] = []"
  by (simp add: utrim_def)

lemma utrim_eq_Nil_iff: "utrim s = [] \<longleftrightarrow> (\<forall>c\<in>set s. is_whitespace c)"
proof
  assume "utrim s = []"
  then have all: "\<forall>c\<in>set (dropWhile is_whitespace s). is_whitespace c"
    by (auto simp: utrim_def dropWhile_eq_Nil_conv)
  then have "dropWhile is_whitespace s = []"
    by (cases "dropWhile is_whitespace s") (auto simp: dropWhile_eq_Cons_conv)
  then show "\<forall>c\<in>set s. is_whitespace c"
    by (auto simp: dropWhile_eq_Nil_conv)
next
  assume "\<forall>c\<in>set s. is_whitespace c"
  then show "utrim s = []"
    by (auto simp: utrim_def dropWhile_eq_Nil_conv dest: set_dropWhileD)
qed

text \<open>\<^verbatim>\<open>str::split_whitespace\<close>: the maximal runs of characters that are not white space.\<close>

function split_whitespace :: "ustring \<Rightarrow> ustring list" where
  "split_whitespace [] = []"
| "split_whitespace (c # cs) =
     (if is_whitespace c then split_whitespace cs
      else (c # takeWhile (Not \<circ> is_whitespace) cs)
           # split_whitespace (dropWhile (Not \<circ> is_whitespace) cs))"
  by pat_completeness auto
termination
  by (relation "measure length") (auto simp: less_Suc_eq_le length_dropWhile_le)

text \<open>\<^verbatim>\<open>slice::join\<close>.\<close>

fun ujoin :: "ustring \<Rightarrow> ustring list \<Rightarrow> ustring" where
  "ujoin sep [] = []"
| "ujoin sep [x] = x"
| "ujoin sep (x # y # ys) = x @ sep @ ujoin sep (y # ys)"

text \<open>The two truncations of \<^verbatim>\<open>session-store/src/util.rs\<close>.\<close>

definition truncate_chars :: "ustring \<Rightarrow> nat \<Rightarrow> ustring" where
  "truncate_chars s limit = take limit s"

fun truncate_loop :: "nat \<Rightarrow> nat \<Rightarrow> ustring \<Rightarrow> ustring \<Rightarrow> ustring" where
  "truncate_loop limit index out [] = out"
| "truncate_loop limit index out (c # cs) =
     (if limit \<le> index then out @ [8230] else truncate_loop limit (Suc index) (out @ [c]) cs)"

definition truncate_chars_with_ellipsis :: "ustring \<Rightarrow> nat \<Rightarrow> ustring" where
  "truncate_chars_with_ellipsis s limit = truncate_loop limit 0 [] s"

lemma truncate_loop_eq:
  "index \<le> limit \<Longrightarrow> truncate_loop limit index out s =
     (if length s \<le> limit - index then out @ s else out @ take (limit - index) s @ [8230])"
proof (induction s arbitrary: index out)
  case (Cons c cs)
  show ?case
  proof (cases "limit = index")
    case False
    with Cons.prems have "Suc index \<le> limit" by simp
    moreover from this have "limit - index = Suc (limit - Suc index)" by simp
    ultimately show ?thesis using Cons.IH[of "Suc index" "out @ [c]"] by simp
  qed simp
qed simp

lemma truncate_chars_with_ellipsis_eq:
  "truncate_chars_with_ellipsis s limit =
     (if length s \<le> limit then s else take limit s @ [8230])"
  by (simp add: truncate_chars_with_ellipsis_def truncate_loop_eq)

lemma length_truncate_chars_with_ellipsis:
  "length (truncate_chars_with_ellipsis s limit) \<le> Suc limit"
  by (simp add: truncate_chars_with_ellipsis_eq)

section \<open>Results\<close>

abbreviation Err :: "'e \<Rightarrow> 'e + 'a" where "Err \<equiv> Inl"
abbreviation Ok :: "'a \<Rightarrow> 'e + 'a" where "Ok \<equiv> Inr"

definition and_then :: "'e + 'a \<Rightarrow> ('a \<Rightarrow> 'e + 'b) \<Rightarrow> 'e + 'b" where
  "and_then r f = (case r of Inl e \<Rightarrow> Inl e | Inr a \<Rightarrow> f a)"

definition ok_or :: "'e \<Rightarrow> 'a option \<Rightarrow> 'e + 'a" where
  "ok_or e x = (case x of None \<Rightarrow> Inl e | Some a \<Rightarrow> Inr a)"

definition map_err :: "('e \<Rightarrow> 'f) \<Rightarrow> 'e + 'a \<Rightarrow> 'f + 'a" where
  "map_err f r = (case r of Inl e \<Rightarrow> Inl (f e) | Inr a \<Rightarrow> Inr a)"

definition is_ok :: "'e + 'a \<Rightarrow> bool" where
  "is_ok r = (case r of Inl _ \<Rightarrow> False | Inr _ \<Rightarrow> True)"

lemma and_then_simps [simp, result_simps]:
  "and_then (Err e) f = Err e" "and_then (Ok a) f = f a"
  by (simp_all add: and_then_def)

lemma ok_or_simps [simp, result_simps]:
  "ok_or e None = Err e" "ok_or e (Some a) = Ok a"
  by (simp_all add: ok_or_def)

lemma map_err_simps [simp, result_simps]:
  "map_err f (Err e) = Err (f e)" "map_err f (Ok a) = Ok a"
  by (simp_all add: map_err_def)

lemma is_ok_simps [simp, result_simps]: "\<not> is_ok (Err e)" "is_ok (Ok a)"
  by (simp_all add: is_ok_def)

lemma and_then_eq_Ok: "and_then r f = Ok b \<longleftrightarrow> (\<exists>a. r = Ok a \<and> f a = Ok b)"
  by (cases r) auto

lemma and_then_eq_Err: "and_then r f = Err e \<longleftrightarrow> r = Err e \<or> (\<exists>a. r = Ok a \<and> f a = Err e)"
  by (cases r) auto

lemma map_err_eq_Ok: "map_err f r = Ok b \<longleftrightarrow> r = Ok b"
  by (cases r) auto

lemma map_err_eq_Err: "map_err f r = Err e \<longleftrightarrow> (\<exists>e'. r = Err e' \<and> e = f e')"
  by (cases r) auto

lemma ok_or_eq_Ok: "ok_or e x = Ok a \<longleftrightarrow> x = Some a"
  by (cases x) auto

lemma ok_or_eq_Err: "ok_or e x = Err e' \<longleftrightarrow> x = None \<and> e' = e"
  by (cases x) auto

lemma is_ok_iff: "is_ok r \<longleftrightarrow> (\<exists>a. r = Ok a)"
  by (cases r) auto

lemmas result_iffs =
  and_then_eq_Ok and_then_eq_Err map_err_eq_Ok map_err_eq_Err ok_or_eq_Ok ok_or_eq_Err

fun try_fold :: "('s \<Rightarrow> 'a \<Rightarrow> 'e + 's) \<Rightarrow> 's \<Rightarrow> 'a list \<Rightarrow> 'e + 's" where
  "try_fold f s [] = Ok s"
| "try_fold f s (x # xs) = and_then (f s x) (\<lambda>s'. try_fold f s' xs)"

fun try_map :: "('a \<Rightarrow> 'e + 'b) \<Rightarrow> 'a list \<Rightarrow> 'e + 'b list" where
  "try_map f [] = Ok []"
| "try_map f (x # xs) = and_then (f x) (\<lambda>y. and_then (try_map f xs) (\<lambda>ys. Ok (y # ys)))"

lemma try_fold_append:
  "try_fold f s (xs @ ys) = and_then (try_fold f s xs) (\<lambda>s'. try_fold f s' ys)"
proof (induction xs arbitrary: s)
  case (Cons x xs)
  then show ?case by (cases "f s x") auto
qed simp

lemma try_fold_Ok:
  assumes "\<And>s x. x \<in> set xs \<Longrightarrow> f s x = Ok (g s x)"
  shows "try_fold f s xs = Ok (foldl g s xs)"
  using assms by (induction xs arbitrary: s) auto

lemma try_fold_Err:
  "try_fold f s xs = Err e \<Longrightarrow> \<exists>x\<in>set xs. \<exists>s'. f s' x = Err e"
proof (induction xs arbitrary: s)
  case (Cons x xs)
  then show ?case by (cases "f s x") force+
qed simp

lemma try_map_Ok:
  assumes "\<And>x. x \<in> set xs \<Longrightarrow> f x = Ok (g x)"
  shows "try_map f xs = Ok (map g xs)"
  using assms by (induction xs) auto

lemma try_map_eq_Ok_iff:
  "try_map f xs = Ok ys \<longleftrightarrow> list_all2 (\<lambda>x y. f x = Ok y) xs ys"
proof (induction xs arbitrary: ys)
  case (Cons x xs)
  then show ?case by (cases ys) (auto simp: result_iffs)
qed auto

lemma try_map_Err: "try_map f xs = Err e \<Longrightarrow> \<exists>x\<in>set xs. f x = Err e"
  by (induction xs) (auto simp: result_iffs)

lemma try_map_is_ok:
  assumes "\<And>x. x \<in> set xs \<Longrightarrow> is_ok (f x)"
  shows "is_ok (try_map f xs)"
proof (cases "try_map f xs")
  case (Inl e)
  from try_map_Err[OF Inl] obtain x where "x \<in> set xs" "f x = Err e" by blast
  with assms[of x] show ?thesis by simp
qed simp

text \<open>
  A computation whose loop need not end: \<^const>\<open>None\<close> is ``does not return'', otherwise it
  returns a \<^verbatim>\<open>Result\<close>.
\<close>

type_synonym ('e, 'a) outcome = "('e + 'a) option"

definition outcome_then :: "('e, 'a) outcome \<Rightarrow> ('a \<Rightarrow> ('e, 'b) outcome) \<Rightarrow> ('e, 'b) outcome" where
  "outcome_then r f = (case r of None \<Rightarrow> None | Some (Inl e) \<Rightarrow> Some (Inl e) | Some (Inr a) \<Rightarrow> f a)"

lemma outcome_then_simps [simp, result_simps]:
  "outcome_then None f = None" "outcome_then (Some (Err e)) f = Some (Err e)"
  "outcome_then (Some (Ok a)) f = f a"
  by (simp_all add: outcome_then_def)

lemma outcome_then_eq_Ok:
  "outcome_then r f = Some (Ok b) \<longleftrightarrow> (\<exists>a. r = Some (Ok a) \<and> f a = Some (Ok b))"
  by (auto simp: outcome_then_def split: option.splits sum.splits)

fun outcome_map :: "('a \<Rightarrow> ('e, 'b) outcome) \<Rightarrow> 'a list \<Rightarrow> ('e, 'b list) outcome" where
  "outcome_map f [] = Some (Ok [])"
| "outcome_map f (x # xs) =
     outcome_then (f x) (\<lambda>y. outcome_then (outcome_map f xs) (\<lambda>ys. Some (Ok (y # ys))))"

lemma outcome_map_Ok:
  assumes "\<And>x. x \<in> set xs \<Longrightarrow> f x = Some (Ok (g x))"
  shows "outcome_map f xs = Some (Ok (map g xs))"
  using assms by (induction xs) auto

lemma outcome_map_eq_Ok_iff:
  "outcome_map f xs = Some (Ok ys) \<longleftrightarrow> list_all2 (\<lambda>x y. f x = Some (Ok y)) xs ys"
proof (induction xs arbitrary: ys)
  case (Cons x xs)
  then show ?case by (cases ys) (auto simp: outcome_then_eq_Ok)
qed auto

section \<open>Slices and iterators\<close>

fun last_opt :: "'a list \<Rightarrow> 'a option" where
  "last_opt [] = None"
| "last_opt [x] = Some x"
| "last_opt (x # y # ys) = last_opt (y # ys)"

lemma last_opt_eq: "last_opt xs = (if xs = [] then None else Some (last xs))"
  by (induction xs rule: last_opt.induct) auto

lemma last_opt_append [simp]: "last_opt (xs @ [x]) = Some x"
  by (simp add: last_opt_eq)

fun find_map :: "('a \<Rightarrow> 'b option) \<Rightarrow> 'a list \<Rightarrow> 'b option" where
  "find_map f [] = None"
| "find_map f (x # xs) = (case f x of None \<Rightarrow> find_map f xs | Some y \<Rightarrow> Some y)"

fun position :: "('a \<Rightarrow> bool) \<Rightarrow> 'a list \<Rightarrow> nat option" where
  "position P [] = None"
| "position P (x # xs) = (if P x then Some 0 else map_option Suc (position P xs))"

lemma position_Some:
  "position P xs = Some i \<longleftrightarrow> i < length xs \<and> P (xs ! i) \<and> (\<forall>j<i. \<not> P (xs ! j))"
proof (induction xs arbitrary: i)
  case (Cons x xs)
  then show ?case
    by (cases i) (auto simp: less_Suc_eq_0_disj)
qed simp

lemma position_None: "position P xs = None \<longleftrightarrow> (\<forall>x\<in>set xs. \<not> P x)"
  by (induction xs) auto

lemma find_map_append:
  "find_map f (xs @ ys) = (case find_map f xs of None \<Rightarrow> find_map f ys | Some y \<Rightarrow> Some y)"
  by (induction xs) (auto split: option.splits)

lemma find_map_None: "find_map f xs = None \<longleftrightarrow> (\<forall>x\<in>set xs. f x = None)"
  by (induction xs) (auto split: option.splits)

lemma List_find_rev_snoc: "List.find P (rev (xs @ [x])) = (if P x then Some x else List.find P (rev xs))"
  by simp

text \<open>\<^verbatim>\<open>filter_map\<close> is \<^const>\<open>List.map_filter\<close>.\<close>

abbreviation filter_map :: "('a \<Rightarrow> 'b option) \<Rightarrow> 'a list \<Rightarrow> 'b list" where
  "filter_map \<equiv> List.map_filter"

lemma filter_map_append [simp]: "filter_map f (xs @ ys) = filter_map f xs @ filter_map f ys"
  by (induction xs) (auto simp: List.map_filter_def)

lemma filter_map_Nil [simp]: "filter_map f [] = []"
  by (simp add: List.map_filter_def)

lemma filter_map_Cons [simp]:
  "filter_map f (x # xs) = (case f x of None \<Rightarrow> filter_map f xs | Some y \<Rightarrow> y # filter_map f xs)"
  by (simp add: List.map_filter_def split: option.splits)

lemma foldl_last_filter:
  "foldl (\<lambda>acc x. if P x then Some x else acc) a xs =
     (case last_opt (filter P xs) of None \<Rightarrow> a | Some x \<Rightarrow> Some x)"
  by (induction xs arbitrary: a) (auto simp: last_opt_eq split: option.splits)

lemma foldl_count_filter:
  "foldl (\<lambda>n x. if P x then Suc n else n) a xs = a + length (filter P xs)"
  by (induction xs arbitrary: a) auto

section \<open>Hash maps that collect lists\<close>

definition push_at :: "'k \<Rightarrow> 'v \<Rightarrow> ('k \<times> 'v list) list \<Rightarrow> ('k \<times> 'v list) list" where
  "push_at k v m = AList.update k ((case map_of m k of None \<Rightarrow> [] | Some vs \<Rightarrow> vs) @ [v]) m"

fun group_by :: "('a \<Rightarrow> 'k option) \<Rightarrow> 'a list \<Rightarrow> ('k \<times> 'a list) list \<Rightarrow> ('k \<times> 'a list) list" where
  "group_by f [] m = m"
| "group_by f (x # xs) m =
     group_by f xs (case f x of None \<Rightarrow> m | Some k \<Rightarrow> push_at k x m)"

lemma map_of_push_at [hash_simps]:
  "map_of (push_at k v m) k' =
     (if k' = k then Some ((case map_of m k of None \<Rightarrow> [] | Some vs \<Rightarrow> vs) @ [v]) else map_of m k')"
  by (simp add: push_at_def AList.update_conv')

lemma map_of_group_by:
  "map_of (group_by f xs m) k =
     (case map_of m k of
        None \<Rightarrow> (if filter (\<lambda>x. f x = Some k) xs = [] then None
                 else Some (filter (\<lambda>x. f x = Some k) xs))
      | Some ys \<Rightarrow> Some (ys @ filter (\<lambda>x. f x = Some k) xs))"
  by (induction xs arbitrary: m) (auto simp: map_of_push_at split: option.splits)

lemma map_of_group_by_Nil [hash_simps]:
  "map_of (group_by f xs []) k =
     (if filter (\<lambda>x. f x = Some k) xs = [] then None else Some (filter (\<lambda>x. f x = Some k) xs))"
  by (simp add: map_of_group_by)

definition get_or_empty :: "('k \<times> 'v list) list \<Rightarrow> 'k \<Rightarrow> 'v list" where
  "get_or_empty m k = (case map_of m k of None \<Rightarrow> [] | Some vs \<Rightarrow> vs)"

lemma get_or_empty_group_by [hash_simps]:
  "get_or_empty (group_by f xs []) k = filter (\<lambda>x. f x = Some k) xs"
  by (simp add: get_or_empty_def map_of_group_by_Nil)

section \<open>Machine integers\<close>

definition usize_max :: nat where "usize_max = 2 ^ 64 - 1"

definition sat_add_usize :: "nat \<Rightarrow> nat \<Rightarrow> nat" where
  "sat_add_usize a b = min usize_max (a + b)"

definition i64_max :: int where "i64_max = 2 ^ 63 - 1"

definition sat_add_i64 :: "int \<Rightarrow> int \<Rightarrow> int" where
  "sat_add_i64 a b = max (- (2 ^ 63)) (min i64_max (a + b))"

end
