(* ===== verification/Protocol.thy ===== *)
theory Protocol
  imports Prelude
begin

text \<open>
  The provider-neutral conversation protocol, crate \<^verbatim>\<open>provider-protocol\<close>
  (\<^verbatim>\<open>src/message/mod.rs\<close>, \<^verbatim>\<open>src/tool/mod.rs\<close>): roles, content blocks, conversation items,
  the projections to visible text, to summary text and to tool calls, and the semantic
  validation that every store runs before it appends an item.
\<close>

section \<open>Data\<close>

datatype role = System | User | Assistant

datatype image_detail = Auto | Low | High | Original

record tool_call =
  call_id :: ustring
  tool_name :: ustring
  arguments :: ustring

datatype content_block =
    Text ustring
  | Image (image_data: ustring) (image_mime: ustring) (image_uri: "ustring option")
      (image_detail: "image_detail option")
  | Audio (audio_data: ustring) (audio_mime: ustring) (audio_uri: "ustring option")
  | Document (doc_data: ustring) (doc_mime: ustring) (doc_filename: "ustring option")
      (doc_uri: "ustring option")
  | ResourceLink (link_name: ustring) (link_uri: ustring) (link_mime: "ustring option")
      (link_size: "nat option")
  | ResourceText (rtext_uri: ustring) (rtext_mime: "ustring option") (rtext_text: ustring)
  | ToolCallBlock tool_call

datatype conversation_item =
    Message role "content_block list"
  | ToolResult ustring "content_block list" bool
  | Reasoning ustring "ustring option" "ustring option"

datatype item_validation_error = ToolCallOutsideAssistant role | ToolCallInToolResult

section \<open>Projections\<close>

fun as_tool_call :: "content_block \<Rightarrow> tool_call option" where
  "as_tool_call (ToolCallBlock call) = Some call"
| "as_tool_call _ = None"

fun visible_text_of :: "content_block \<Rightarrow> ustring option" where
  "visible_text_of (Text t) = Some t"
| "visible_text_of (ResourceText _ _ t) = Some t"
| "visible_text_of _ = None"

definition visible_text_from_blocks :: "content_block list \<Rightarrow> ustring" where
  "visible_text_from_blocks blocks = concat (filter_map visible_text_of blocks)"

definition ends_with_newline :: "ustring \<Rightarrow> bool" where
  "ends_with_newline s \<longleftrightarrow> last_opt s = Some 10"

definition append_summary_segment :: "ustring \<Rightarrow> ustring \<Rightarrow> ustring" where
  "append_summary_segment output segment =
     (if output \<noteq> [] \<and> \<not> ends_with_newline output then output @ [10] else output) @ segment"

definition attachment_summary :: "ustring \<Rightarrow> ustring \<Rightarrow> ustring option \<Rightarrow> ustring" where
  "attachment_summary kind mime label =
     (case (case label of Some l \<Rightarrow> if utrim l \<noteq> [] then Some l else None | None \<Rightarrow> None) of
        Some l \<Rightarrow> lit ''[Attached '' @ kind @ lit '': '' @ mime @ lit '' '' @ l @ lit '']''
      | None \<Rightarrow> lit ''[Attached '' @ kind @ lit '': '' @ mime @ lit '']'')"

definition or_else :: "'a option \<Rightarrow> 'a option \<Rightarrow> 'a option" where
  "or_else a b = (case a of Some x \<Rightarrow> Some x | None \<Rightarrow> b)"

text \<open>The label of a block that is not text; the loop of \<^verbatim>\<open>summary_text_from_blocks\<close> below.\<close>

fun summary_step :: "ustring \<times> bool \<Rightarrow> content_block \<Rightarrow> ustring \<times> bool" where
  "summary_step (summary, prev) (Text t) =
     ((if prev \<and> summary \<noteq> [] \<and> \<not> ends_with_newline summary then summary @ [10] else summary) @ t,
      False)"
| "summary_step (summary, prev) (ResourceText _ _ t) =
     ((if prev \<and> summary \<noteq> [] \<and> \<not> ends_with_newline summary then summary @ [10] else summary) @ t,
      False)"
| "summary_step (summary, prev) (Image _ mime uri _) =
     (append_summary_segment summary (attachment_summary (lit ''image'') mime uri), True)"
| "summary_step (summary, prev) (Audio _ mime uri) =
     (append_summary_segment summary (attachment_summary (lit ''audio'') mime uri), True)"
| "summary_step (summary, prev) (Document _ mime filename uri) =
     (append_summary_segment summary
        (attachment_summary (lit ''document'') mime (or_else filename uri)), True)"
| "summary_step (summary, prev) (ResourceLink name uri mime _) =
     (append_summary_segment summary
        (case mime of
           Some m \<Rightarrow> lit ''[Attached resource: '' @ name @ lit '' '' @ m @ lit '' '' @ uri @ lit '']''
         | None \<Rightarrow> lit ''[Attached resource: '' @ name @ lit '' '' @ uri @ lit '']''), True)"
| "summary_step (summary, prev) (ToolCallBlock _) = (summary, prev)"

definition summary_text_from_blocks :: "content_block list \<Rightarrow> ustring" where
  "summary_text_from_blocks blocks = fst (foldl summary_step ([], False) blocks)"

fun text_content :: "conversation_item \<Rightarrow> ustring" where
  "text_content (Message _ content) = visible_text_from_blocks content"
| "text_content (ToolResult _ content _) = visible_text_from_blocks content"
| "text_content (Reasoning _ _ _) = []"

fun summary_text_content :: "conversation_item \<Rightarrow> ustring" where
  "summary_text_content (Message _ content) = summary_text_from_blocks content"
| "summary_text_content (ToolResult _ content _) = summary_text_from_blocks content"
| "summary_text_content (Reasoning content _ _) = content"

fun tool_calls :: "conversation_item \<Rightarrow> tool_call list" where
  "tool_calls (Message Assistant content) = filter_map as_tool_call content"
| "tool_calls _ = []"

fun item_role :: "conversation_item \<Rightarrow> role option" where
  "item_role (Message r _) = Some r"
| "item_role _ = None"

definition item_system :: "content_block list \<Rightarrow> conversation_item" where
  "item_system content = Message System content"

definition item_text :: "role \<Rightarrow> ustring \<Rightarrow> conversation_item" where
  "item_text r t = Message r (if t = [] then [] else [Text t])"

definition assistant_with_parts :: "content_block list \<Rightarrow> tool_call list \<Rightarrow> conversation_item" where
  "assistant_with_parts content calls = Message Assistant (content @ map ToolCallBlock calls)"

definition assistant_with_tool_calls :: "ustring \<Rightarrow> tool_call list \<Rightarrow> conversation_item" where
  "assistant_with_tool_calls t calls = assistant_with_parts (if t = [] then [] else [Text t]) calls"

section \<open>Validation\<close>

definition has_tool_call :: "content_block list \<Rightarrow> bool" where
  "has_tool_call content \<longleftrightarrow> (\<exists>block\<in>set content. as_tool_call block \<noteq> None)"

fun validate_item :: "conversation_item \<Rightarrow> item_validation_error + unit" where
  "validate_item (Message r content) =
     (if r \<noteq> Assistant \<and> has_tool_call content then Err (ToolCallOutsideAssistant r) else Ok ())"
| "validate_item (ToolResult _ content _) =
     (if has_tool_call content then Err ToolCallInToolResult else Ok ())"
| "validate_item (Reasoning _ _ _) = Ok ()"

section \<open>What the projections see\<close>

fun item_blocks :: "conversation_item \<Rightarrow> content_block list" where
  "item_blocks (Message _ content) = content"
| "item_blocks (ToolResult _ content _) = content"
| "item_blocks (Reasoning _ _ _) = []"

lemma filter_map_as_tool_call_Nil:
  "\<not> has_tool_call content \<Longrightarrow> filter_map as_tool_call content = []"
  by (induction content) (auto simp: has_tool_call_def split: option.splits)

lemma validated_item_tool_calls:
  assumes "validate_item item = Ok ()"
  shows "tool_calls item = filter_map as_tool_call (item_blocks item)"
proof (cases item)
  case (Message r content)
  with assms show ?thesis
    by (cases r) (auto simp: filter_map_as_tool_call_Nil split: if_splits)
next
  case (ToolResult c content e)
  with assms show ?thesis by (auto simp: filter_map_as_tool_call_Nil split: if_splits)
qed simp

lemma validate_item_assistant_with_parts [simp]:
  "validate_item (assistant_with_parts content calls) = Ok ()"
  by (simp add: assistant_with_parts_def)

lemma filter_map_ToolCallBlock [simp]: "filter_map as_tool_call (map ToolCallBlock calls) = calls"
  by (induction calls) auto

lemma tool_calls_assistant_with_tool_calls:
  "tool_calls (assistant_with_tool_calls t calls) = calls"
  by (simp add: assistant_with_tool_calls_def assistant_with_parts_def)

definition is_attachment :: "content_block \<Rightarrow> bool" where
  "is_attachment b \<longleftrightarrow> as_tool_call b = None \<and> visible_text_of b = None"

lemma summary_step_text:
  "\<not> is_attachment b \<Longrightarrow> summary_step (s, False) b =
     (s @ (case visible_text_of b of None \<Rightarrow> [] | Some t \<Rightarrow> t), False)"
  by (cases b) (auto simp: is_attachment_def)

lemma summary_fold_text:
  "\<forall>b\<in>set blocks. \<not> is_attachment b \<Longrightarrow>
     foldl summary_step (s, False) blocks = (s @ visible_text_from_blocks blocks, False)"
  by (induction blocks arbitrary: s)
     (auto simp: summary_step_text visible_text_from_blocks_def split: option.splits)

lemma summary_eq_visible:
  "\<forall>b\<in>set blocks. \<not> is_attachment b \<Longrightarrow>
     summary_text_from_blocks blocks = visible_text_from_blocks blocks"
  by (simp add: summary_text_from_blocks_def summary_fold_text)

definition opening_bracket :: nat where "opening_bracket = 91"

lemma opening_bracket_in_lit: "opening_bracket \<in> set (lit ''[Attached '')"
    "opening_bracket \<in> set (lit ''[Attached resource: '')"
  by (simp_all add: opening_bracket_def lit_def)

lemma attachment_summary_bracket: "opening_bracket \<in> set (attachment_summary k m l)"
  using opening_bracket_in_lit by (auto simp: attachment_summary_def split: option.splits)

lemma summary_step_keeps: "set s \<subseteq> set (fst (summary_step (s, p) b))"
  by (cases b) (auto simp: append_summary_segment_def)

lemma summary_fold_keeps: "set (fst sp) \<subseteq> set (fst (foldl summary_step sp blocks))"
proof (induction blocks arbitrary: sp)
  case (Cons b blocks)
  obtain s p where sp: "sp = (s, p)" by (cases sp)
  from summary_step_keeps[of s p b] Cons.IH[of "summary_step (s, p) b"]
  show ?case by (auto simp: sp)
qed simp

lemma summary_step_attachment:
  "is_attachment b \<Longrightarrow> opening_bracket \<in> set (fst (summary_step (s, p) b))"
  using attachment_summary_bracket opening_bracket_in_lit
  by (cases b) (auto simp: is_attachment_def append_summary_segment_def split: option.splits)

lemma summary_fold_attachment:
  "b \<in> set blocks \<Longrightarrow> is_attachment b \<Longrightarrow>
     opening_bracket \<in> set (fst (foldl summary_step sp blocks))"
proof (induction blocks arbitrary: sp)
  case (Cons b' blocks)
  obtain s p where sp: "sp = (s, p)" by (cases sp)
  show ?case
  proof (cases "b = b'")
    case True
    with Cons.prems have "opening_bracket \<in> set (fst (summary_step (s, p) b'))"
      by (auto intro: summary_step_attachment)
    then show ?thesis using summary_fold_keeps sp by (auto simp: subset_iff)
  qed (use Cons in auto)
qed simp

lemma summary_attachment_not_blank:
  assumes "b \<in> set blocks" "is_attachment b"
  shows "utrim (summary_text_from_blocks blocks) \<noteq> []"
proof -
  from summary_fold_attachment[OF assms]
  have "opening_bracket \<in> set (summary_text_from_blocks blocks)"
    by (simp add: summary_text_from_blocks_def)
  moreover have "\<not> is_whitespace opening_bracket"
    by (simp add: opening_bracket_def is_whitespace_def)
  ultimately show ?thesis by (auto simp: utrim_eq_Nil_iff)
qed

end
