(* ===== verification/Domain.thy ===== *)
theory Domain
  imports Protocol
begin

text \<open>
  The data the session store persists besides conversation items, crate \<^verbatim>\<open>runtime-domain\<close>:
  tool activities and terminal snapshots (\<^verbatim>\<open>session/activity.rs\<close>), transcript replay items
  (\<^verbatim>\<open>session/transcript_replay.rs\<close>), prompt preludes (\<^verbatim>\<open>prompt_assembly/types.rs\<close>) and dynamic
  environment observations (\<^verbatim>\<open>dynamic_environment.rs\<close>).  \<^verbatim>\<open>serde_json\<close> is a library: its
  public \<^verbatim>\<open>Value\<close> enum is the datatype \<open>json_value\<close>, its parser and printers are the
  fields of a \<open>json_api\<close> argument.
\<close>

section \<open>JSON values\<close>

datatype json_value =
    JNull
  | JBool bool
  | JNumber ustring
  | JString ustring
  | JArray "json_value list"
  | JObject "(ustring \<times> json_value) list"

record json_api =
  json_parse :: "ustring \<Rightarrow> json_value option"
  json_pretty :: "json_value \<Rightarrow> ustring option"
  json_compact :: "json_value \<Rightarrow> ustring"

fun json_get :: "json_value \<Rightarrow> ustring \<Rightarrow> json_value option" where
  "json_get (JObject m) k = map_of m k"
| "json_get _ k = None"

fun json_as_str :: "json_value \<Rightarrow> ustring option" where
  "json_as_str (JString s) = Some s"
| "json_as_str _ = None"

definition json_get_str :: "json_value \<Rightarrow> ustring \<Rightarrow> ustring option" where
  "json_get_str v k = Option.bind (json_get v k) json_as_str"

section \<open>Tool activities\<close>

datatype tool_kind = Read | Write | Edit | Delete | Move | Search | Execute | Think | Fetch
  | SwitchMode | Other

datatype activity_status = Pending | InProgress | Completed | Failed

record activity_location =
  loc_path :: ustring
  loc_line :: "nat option"

datatype activity_content =
    ActText ustring
  | ActImage ustring "ustring option"
  | ActAudio ustring
  | ActResourceLink (act_uri: ustring) (act_name: ustring) (act_title: "ustring option")
  | ActResource ustring "ustring option" "ustring option"
  | ActDiff (diff_path: ustring) (diff_old: "ustring option") (diff_new: ustring) (diff_trunc: bool)
  | ActTerminal ustring
  | ActUnknown ustring

record tool_activity =
  activity_id :: ustring
  activity_title :: ustring
  activity_kind :: tool_kind
  activity_status :: activity_status
  activity_content :: "activity_content list"
  locations :: "activity_location list"
  raw_input :: "json_value option"
  raw_output :: "json_value option"

record terminal_exit_status =
  exit_code :: "nat option"
  exit_signal :: "ustring option"

record terminal_snapshot =
  terminal_id :: ustring
  term_command :: "ustring option"
  term_cwd :: "ustring option"
  term_output :: ustring
  term_truncated :: bool
  exit_status :: "terminal_exit_status option"
  term_released :: bool

subsection \<open>The raw value of an activity\<close>

text \<open>A raw value may carry the marker of a wrapped tool result.\<close>

definition is_tool_result_raw_value :: "json_value \<Rightarrow> bool" where
  "is_tool_result_raw_value v \<longleftrightarrow>
     json_get_str v (lit ''__hunea_tool_result'') = Some (lit ''v1'')"

definition tool_result_content :: "json_value \<Rightarrow> ustring option" where
  "tool_result_content v =
     (if \<not> is_tool_result_raw_value v then None else json_get_str v (lit ''content''))"

definition tool_result_display_content :: "json_value \<Rightarrow> ustring option" where
  "tool_result_display_content v =
     (if \<not> is_tool_result_raw_value v then None else json_get_str v (lit ''display_content''))"

definition tool_result_details :: "json_value \<Rightarrow> json_value option" where
  "tool_result_details v =
     (if \<not> is_tool_result_raw_value v then None else json_get v (lit ''details''))"

definition non_empty :: "ustring \<Rightarrow> ustring option" where
  "non_empty s = (if s = [] then None else Some s)"

definition display_text :: "json_api \<Rightarrow> json_value \<Rightarrow> ustring option" where
  "display_text J v =
     (case tool_result_display_content v of
        Some content \<Rightarrow> non_empty content
      | None \<Rightarrow>
          (case tool_result_content v of
             Some content \<Rightarrow> non_empty content
           | None \<Rightarrow>
               (case v of
                  JNull \<Rightarrow> None
                | JString s \<Rightarrow> non_empty s
                | _ \<Rightarrow> Some (case json_pretty J v of Some s \<Rightarrow> s | None \<Rightarrow> json_compact J v))))"

definition tool_result_raw_value ::
  "ustring \<Rightarrow> ustring option \<Rightarrow> json_value option \<Rightarrow> json_value" where
  "tool_result_raw_value content display details =
     JObject ([(lit ''__hunea_tool_result'', JString (lit ''v1'')), (lit ''content'', JString content)]
       @ (case display of None \<Rightarrow> [] | Some d \<Rightarrow> [(lit ''display_content'', JString d)])
       @ (case details of None \<Rightarrow> [] | Some d \<Rightarrow> [(lit ''details'', d)]))"

text \<open>Wrapping and unwrapping agree: the display content wins over the model-visible content.\<close>

lemma tool_result_raw_value_marker [simp]:
  "is_tool_result_raw_value (tool_result_raw_value c d x)"
  by (simp add: is_tool_result_raw_value_def tool_result_raw_value_def json_get_str_def)

lemma tool_result_raw_value_content [simp]:
  "tool_result_content (tool_result_raw_value c d x) = Some c"
  by (simp add: tool_result_content_def)
     (simp add: tool_result_raw_value_def json_get_str_def)

lemma tool_result_raw_value_display [simp]:
  "tool_result_display_content (tool_result_raw_value c d x) =
     (case d of None \<Rightarrow> None | Some s \<Rightarrow> Some s)"
  by (simp add: tool_result_display_content_def)
     (simp add: tool_result_raw_value_def json_get_str_def split: option.splits)

lemma tool_result_raw_value_details [simp]:
  "tool_result_details (tool_result_raw_value c d x) = x"
  by (simp add: tool_result_details_def)
     (simp add: tool_result_raw_value_def split: option.splits)

lemma display_text_tool_result:
  "display_text J (tool_result_raw_value c d x) =
     non_empty (case d of None \<Rightarrow> c | Some s \<Rightarrow> s)"
  by (simp add: display_text_def split: option.splits)

section \<open>Prompt preludes and the dynamic environment\<close>

datatype prompt_source_kind = CoreSystemPrompt | InstructionsFile | ExtraPrompt | SkillDiscovery
  | LongLivedSkill | ToolGuidelines | DynamicEnvironmentBaseline | DynamicEnvironmentChanges

datatype prompt_source_origin = OriginBuiltin | OriginGlobal | OriginProject

record prompt_prelude_section =
  section_reference_id :: ustring
  section_kind :: prompt_source_kind
  section_title :: ustring
  section_origin :: "prompt_source_origin option"
  section_body :: ustring

record prompt_prelude =
  sections :: "prompt_prelude_section list"

definition effective_system_prompt :: "prompt_prelude \<Rightarrow> ustring option" where
  "effective_system_prompt p =
     (let bodies = filter (\<lambda>b. b \<noteq> []) (map (\<lambda>s. utrim (section_body s)) (sections p))
      in if bodies = [] then None else Some (ujoin [10, 10] bodies))"

datatype denv_source_kind = GitReference | GitWorkingTree | Date | Workdir

datatype denv_snapshot_kind = Baseline | Changes

record denv_source_selection =
  sel_snapshot_kind :: denv_snapshot_kind
  sel_source_kind :: denv_source_kind
  sel_enabled :: bool

record denv_observation =
  obs_source_kind :: denv_source_kind
  obs_fingerprint :: ustring
  obs_summary :: ustring
  obs_details :: "ustring option"

record denv_session_config =
  baseline_enabled :: bool
  changes_enabled :: bool
  source_selections :: "denv_source_selection list"
  static_baseline_observations :: "denv_observation list"

section \<open>Transcript replay items\<close>

datatype replay_role = ReplayUser | ReplayAssistant

record skill_binding =
  skill_name :: ustring
  skill_origin :: prompt_source_origin
  skill_path :: ustring
  skill_start_char :: nat
  skill_end_char :: nat

record custom_prompt_binding =
  prompt_reference_id :: ustring
  prompt_origin :: prompt_source_origin
  prompt_start_char :: nat
  prompt_end_char :: nat

datatype user_attachment =
  AttachedImage ustring ustring "ustring option" "image_detail option"

record transcript_user_message =
  message_content :: ustring
  attachments :: "user_attachment list"
  skill_bindings :: "skill_binding list"
  custom_prompt_bindings :: "custom_prompt_binding list"

datatype replay_item =
    ReplayMessage replay_role ustring
  | ReplayBoundUserMessage transcript_user_message
  | ReplayReasoning ustring
  | ReplayToolActivity tool_activity
  | ReplayTerminalSnapshot terminal_snapshot
  | ReplayToolResult ustring
  | ReplaySystem ustring

fun to_content_block :: "user_attachment \<Rightarrow> content_block" where
  "to_content_block (AttachedImage d m u detail) = Image d m u detail"

definition provider_content :: "transcript_user_message \<Rightarrow> content_block list" where
  "provider_content m =
     (if message_content m = [] then [] else [Text (message_content m)])
     @ map to_content_block (attachments m)"

definition provider_message :: "transcript_user_message \<Rightarrow> conversation_item" where
  "provider_message m = Message User (provider_content m)"

lemma validate_provider_message [simp]: "validate_item (provider_message m) = Ok ()"
proof -
  have "as_tool_call (to_content_block a) = None" for a by (cases a) simp
  then show ?thesis
    by (auto simp: provider_message_def provider_content_def has_tool_call_def)
qed

end
