(* ===== verification/Session_Entry.thy ===== *)
theory Session_Entry
  imports Domain "HOL-Library.Word"
begin

text \<open>
  The persisted session entry and its identifiers, \<^verbatim>\<open>session-store/src/lib.rs\<close>: session ids
  (UUIDv7, a 128-bit word), entry kinds, entries, the error values of tree resolution and of
  the store, and the generation of entry ids from a stream of UUIDs.  The text form of a UUID
  is a library function, an argument of the definitions that print one.
\<close>

section \<open>Session ids\<close>

type_synonym uuid = "128 word"

type_synonym session_id = uuid

text \<open>UUIDv7 carries the Unix time in milliseconds in its highest 48 bits.\<close>

definition timestamp_millis :: "session_id \<Rightarrow> 64 word" where
  "timestamp_millis s = ucast (drop_bit 80 s)"

lemma timestamp_millis_bound: "unat (timestamp_millis s) < 2 ^ 48"
proof -
  have "unat (drop_bit 80 s) = unat s div 2 ^ 80"
    by (simp only: unat_drop_bit_eq) (rule drop_bit_eq_div)
  also have "\<dots> < 2 ^ 48"
  proof (rule less_mult_imp_div_less)
    have "unat s < 2 ^ LENGTH(128)" by (rule unsigned_less)
    then show "unat s < 2 ^ 48 * 2 ^ 80" by simp
  qed
  finally have "unat (drop_bit 80 s) < 2 ^ 48" .
  moreover have "unat (timestamp_millis s) \<le> unat (drop_bit 80 s)"
    unfolding timestamp_millis_def unsigned_ucast_eq by (rule take_bit_nat_less_eq_self)
  ultimately show ?thesis by (rule le_less_trans[rotated])
qed

section \<open>Headers, configurations, entries\<close>

record session_header =
  header_session_id :: session_id
  work_dir :: ustring
  session_name :: "ustring option"
  initial_model :: ustring
  header_git_head :: "ustring option"
  cli_version :: "ustring option"

record config_snapshot =
  provider_id :: ustring
  config_model :: ustring
  system_prompt :: "ustring option"
  prompt_prelude_snapshot :: "prompt_prelude option"
  denv_config :: "denv_session_config option"
  denv_observations :: "denv_observation list"

datatype entry_kind =
    Header session_header
  | Item conversation_item
  | Compaction (compaction_summary: ustring) (first_kept_entry_id: ustring) (tokens_before: nat)
  | BranchSummary ustring ustring
  | ConfigChange config_snapshot
  | TranscriptReplay replay_item
  | Leaf "ustring option"

record session_entry =
  entry_id :: ustring
  parent_id :: "ustring option"
  timestamp :: int
  kind :: entry_kind

record resolved_item =
  resolved_entry_id :: ustring
  resolved_value :: conversation_item

record resolved_state =
  items :: "resolved_item list"
  transcript :: "replay_item list"
  latest_config :: "config_snapshot option"

definition is_leaf_kind :: "entry_kind \<Rightarrow> bool" where
  "is_leaf_kind k = (case k of Leaf _ \<Rightarrow> True | _ \<Rightarrow> False)"

lemma is_leaf_kind_simps [simp]:
  "is_leaf_kind (Leaf t)" "\<not> is_leaf_kind (Header h)" "\<not> is_leaf_kind (Item i)"
  "\<not> is_leaf_kind (Compaction s f n)" "\<not> is_leaf_kind (BranchSummary f s)"
  "\<not> is_leaf_kind (ConfigChange c)" "\<not> is_leaf_kind (TranscriptReplay r)"
  by (simp_all add: is_leaf_kind_def)

section \<open>Errors\<close>

datatype resolve_error =
    LeafNotFound ustring
  | DuplicateId ustring
  | DanglingParent ustring
  | CycleDetected
  | InvalidCompactionTarget ustring
  | InvalidTreeRow ustring

datatype store_error =
    IoError
  | SerializeEntry ustring
  | StoreDanglingParent ustring
  | StoreDuplicateId ustring
  | InvalidConversationItem item_validation_error
  | SessionNotFound session_id
  | ConfigurationError
  | CorruptIndex
  | MissingHeader
  | SqliteError
  | ChannelClosed
  | QueueFull
  | ResolveFailed resolve_error

section \<open>Entry ids\<close>

text \<open>\<^verbatim>\<open>format!("{:08x}", uuid as u32)\<close>: the low 32 bits as eight lower-case hex digits.\<close>

definition hex_digit :: "nat \<Rightarrow> nat" where
  "hex_digit d = (if d < 10 then 48 + d else 87 + d)"

definition short_entry_id :: "uuid \<Rightarrow> ustring" where
  "short_entry_id u =
     map (\<lambda>i. hex_digit (unat (ucast u :: 32 word) div 16 ^ i mod 16)) (rev [0..<8])"

text \<open>
  A source of fresh UUIDs is a stream \<open>next_uuid\<close> with a position; every call of
  \<^verbatim>\<open>next_uuid()\<close> advances it.  The bounded search for a short id is structural; the search for
  a full UUID afterwards is an unbounded loop of the code, so it is a partial function.
\<close>

fun short_id_loop :: "(nat \<Rightarrow> uuid) \<Rightarrow> ustring set \<Rightarrow> nat \<Rightarrow> nat \<Rightarrow> ustring option \<times> nat" where
  "short_id_loop next_uuid existing 0 pos = (None, pos)"
| "short_id_loop next_uuid existing (Suc tries) pos =
     (let candidate = short_entry_id (next_uuid pos)
      in if candidate \<notin> existing then (Some candidate, Suc pos)
         else short_id_loop next_uuid existing tries (Suc pos))"

partial_function (option) long_id_loop ::
  "(nat \<Rightarrow> uuid) \<Rightarrow> (uuid \<Rightarrow> ustring) \<Rightarrow> ustring set \<Rightarrow> nat \<Rightarrow> (ustring \<times> nat) option" where
  "long_id_loop next_uuid show_uuid existing pos =
     (let candidate = show_uuid (next_uuid pos)
      in if candidate \<notin> existing then Some (candidate, Suc pos)
         else long_id_loop next_uuid show_uuid existing (Suc pos))"

definition entry_id_retry_limit :: nat where "entry_id_retry_limit = 100"

definition generate_entry_id_with ::
  "(nat \<Rightarrow> uuid) \<Rightarrow> (uuid \<Rightarrow> ustring) \<Rightarrow> ustring set \<Rightarrow> nat \<Rightarrow> (ustring \<times> nat) option" where
  "generate_entry_id_with next_uuid show_uuid existing pos =
     (case short_id_loop next_uuid existing entry_id_retry_limit pos of
        (Some candidate, pos') \<Rightarrow> Some (candidate, pos')
      | (None, pos') \<Rightarrow> long_id_loop next_uuid show_uuid existing pos')"

subsection \<open>Freshness and termination of the search\<close>

lemma hex_digit_inj: "a < 16 \<Longrightarrow> b < 16 \<Longrightarrow> hex_digit a = hex_digit b \<longleftrightarrow> a = b"
  by (auto simp: hex_digit_def)

lemma length_short_entry_id [simp]: "length (short_entry_id u) = 8"
  by (simp add: short_entry_id_def)

lemma hex_digits_mod:
  fixes a b :: nat
  assumes "\<And>i. i < k \<Longrightarrow> a div 16 ^ i mod 16 = b div 16 ^ i mod 16"
  shows "a mod 16 ^ k = b mod 16 ^ k"
  using assms
proof (induction k)
  case (Suc k)
  have split: "n mod 16 ^ Suc k = 16 ^ k * (n div 16 ^ k mod 16) + n mod 16 ^ k" for n :: nat
    by (simp only: power_Suc2 mod_mult2_eq)
  from Suc.IH Suc.prems have "a mod 16 ^ k = b mod 16 ^ k" by simp
  moreover from Suc.prems[of k] have "a div 16 ^ k mod 16 = b div 16 ^ k mod 16" by simp
  ultimately show ?case by (simp only: split)
qed simp

lemma short_entry_id_eq_iff:
  "short_entry_id u = short_entry_id v \<longleftrightarrow> (ucast u :: 32 word) = ucast v"
proof
  define a b where "a = unat (ucast u :: 32 word)" and "b = unat (ucast v :: 32 word)"
  assume eq: "short_entry_id u = short_entry_id v"
  have "a div 16 ^ i mod 16 = b div 16 ^ i mod 16" if "i < 8" for i
  proof -
    from eq have "\<forall>i\<in>set (rev [0..<8]). hex_digit (a div 16 ^ i mod 16) = hex_digit (b div 16 ^ i mod 16)"
      by (simp only: short_entry_id_def map_eq_conv a_def b_def)
    with that have "hex_digit (a div 16 ^ i mod 16) = hex_digit (b div 16 ^ i mod 16)" by simp
    then show ?thesis by (subst (asm) hex_digit_inj) simp_all
  qed
  then have "a mod 16 ^ 8 = b mod 16 ^ 8" by (rule hex_digits_mod)
  moreover have "a < 16 ^ 8" "b < 16 ^ 8"
    unfolding a_def b_def
    using unsigned_less[of "ucast u :: 32 word"] unsigned_less[of "ucast v :: 32 word"] by simp_all
  ultimately have "a = b" by simp
  then show "(ucast u :: 32 word) = ucast v" unfolding a_def b_def by (simp add: word_unat_eq_iff)
qed (simp add: short_entry_id_def)

lemma short_id_loop_Some:
  "short_id_loop next_uuid existing tries pos = (Some c, pos') \<Longrightarrow>
     c \<notin> existing \<and> pos < pos' \<and> pos' \<le> pos + tries"
  by (induction tries arbitrary: pos) (fastforce simp: Let_def split: if_splits)+

lemma short_id_loop_None:
  "short_id_loop next_uuid existing tries pos = (None, pos') \<Longrightarrow>
     pos' = pos + tries \<and> (\<forall>i<tries. short_entry_id (next_uuid (pos + i)) \<in> existing)"
proof (induction tries arbitrary: pos)
  case (Suc tries)
  from Suc.prems have here: "short_entry_id (next_uuid pos) \<in> existing"
    and rest: "short_id_loop next_uuid existing tries (Suc pos) = (None, pos')"
    by (auto simp: Let_def split: if_splits)
  from Suc.IH[OF rest] here show ?case
    by (auto simp: less_Suc_eq_0_disj)
qed simp

lemma long_id_loop_Some:
  assumes "long_id_loop next_uuid show_uuid existing pos = Some (c, pos')"
  shows "c \<notin> existing \<and> pos < pos'"
proof -
  have "fst (c, pos') \<notin> existing \<and> pos < snd (c, pos')"
  proof (rule long_id_loop.raw_induct
      [where P = "\<lambda>_ _ existing pos r. fst r \<notin> existing \<and> pos < snd r", OF _ assms])
    fix f and next_uuid :: "nat \<Rightarrow> uuid" and show_uuid and existing :: "ustring set"
      and pos :: nat and r :: "ustring \<times> nat"
    assume IH: "\<And>n s e p r. f n s e p = Some r \<Longrightarrow> fst r \<notin> e \<and> p < snd r"
      and eq: "(let candidate = show_uuid (next_uuid pos)
            in if candidate \<notin> existing then Some (candidate, Suc pos)
               else f next_uuid show_uuid existing (Suc pos)) = Some r"
    show "fst r \<notin> existing \<and> pos < snd r"
    proof (cases "show_uuid (next_uuid pos) \<in> existing")
      case True
      with eq have "f next_uuid show_uuid existing (Suc pos) = Some r" by simp
      from IH[OF this] show ?thesis by simp
    qed (use eq in \<open>auto simp: Let_def\<close>)
  qed
  then show ?thesis by simp
qed

lemma long_id_loop_returns:
  assumes "show_uuid (next_uuid (pos + k)) \<notin> existing"
  shows "\<exists>r. long_id_loop next_uuid show_uuid existing pos = Some r"
  using assms
proof (induction k arbitrary: pos)
  case 0
  then show ?case by (subst long_id_loop.simps) (simp add: Let_def)
next
  case (Suc k)
  from Suc.IH[of "Suc pos"] Suc.prems show ?case
    by (subst long_id_loop.simps) (auto simp: Let_def)
qed

lemma generate_entry_id_fresh:
  "generate_entry_id_with next_uuid show_uuid existing pos = Some (c, pos') \<Longrightarrow> c \<notin> existing"
  by (auto simp: generate_entry_id_with_def split: prod.splits option.splits
      dest: short_id_loop_Some long_id_loop_Some)

lemma generate_entry_id_returns:
  assumes "entry_id_retry_limit \<le> k" "show_uuid (next_uuid (pos + k)) \<notin> existing"
  shows "\<exists>r. generate_entry_id_with next_uuid show_uuid existing pos = Some r"
proof (cases "short_id_loop next_uuid existing entry_id_retry_limit pos")
  case (Pair c pos')
  show ?thesis
  proof (cases c)
    case None
    with Pair have "pos' = pos + entry_id_retry_limit" by (auto dest: short_id_loop_None)
    with assms have "show_uuid (next_uuid (pos' + (k - entry_id_retry_limit))) \<notin> existing" by simp
    from long_id_loop_returns[of show_uuid next_uuid pos', OF this] None Pair
    show ?thesis by (simp add: generate_entry_id_with_def)
  qed (simp add: generate_entry_id_with_def Pair)
qed

end
