(* ===== verification/Topology.thy ===== *)
theory Topology
  imports Session_Entry
begin

text \<open>
  The entry graph, \<^verbatim>\<open>session-store/src/session_tree/topology.rs\<close>: the index of the entries by
  id, the walk from a leaf to its root, subtree membership, and the searches built on them.
  The walks of the code that carry a set of visited ids are total functions here; the one that
  does not, \<^verbatim>\<open>nearest_visible_parent_id\<close>, is a partial function.  The lemmas relate the walks
  to the parent relation of the index.
\<close>

section \<open>The index\<close>

type_synonym entry_index = "(ustring \<times> session_entry) list"

fun build_index_loop :: "session_entry list \<Rightarrow> entry_index \<Rightarrow> resolve_error + entry_index" where
  "build_index_loop [] by_id = Ok by_id"
| "build_index_loop (e # es) by_id =
     (if map_of by_id (entry_id e) \<noteq> None then Err (DuplicateId (entry_id e))
      else build_index_loop es (AList.update (entry_id e) e by_id))"

definition build_entry_index :: "session_entry list \<Rightarrow> resolve_error + entry_index" where
  "build_entry_index entries = build_index_loop entries []"

fun validate_entry_parents :: "session_entry list \<Rightarrow> entry_index \<Rightarrow> resolve_error + unit" where
  "validate_entry_parents [] by_id = Ok ()"
| "validate_entry_parents (e # es) by_id =
     (case parent_id e of
        None \<Rightarrow> validate_entry_parents es by_id
      | Some p \<Rightarrow> if map_of by_id p = None then Err (DanglingParent p)
                  else validate_entry_parents es by_id)"

definition build_children_by_parent ::
  "session_entry list \<Rightarrow> (ustring \<times> session_entry list) list" where
  "build_children_by_parent entries = group_by parent_id entries []"

section \<open>Walks\<close>

definition effective_leaf_id :: "entry_index \<Rightarrow> ustring \<Rightarrow> ustring" where
  "effective_leaf_id by_id requested =
     (case map_option kind (map_of by_id requested) of
        Some (Leaf (Some target)) \<Rightarrow> target
      | _ \<Rightarrow> requested)"

function path_loop ::
  "entry_index \<Rightarrow> ustring set \<Rightarrow> session_entry \<Rightarrow> session_entry list
     \<Rightarrow> resolve_error + session_entry list" where
  "path_loop by_id visited current path =
     (if entry_id current \<in> visited then Err CycleDetected
      else (case parent_id current of
              None \<Rightarrow> Ok (path @ [current])
            | Some p \<Rightarrow>
                (case map_of by_id p of
                   None \<Rightarrow> Err (DanglingParent p)
                 | Some parent \<Rightarrow>
                     path_loop by_id (insert (entry_id current) visited) parent (path @ [current]))))"
  by pat_completeness auto
termination
proof (relation "measure (\<lambda>(by_id, visited, current, path).
      card (insert (entry_id current) (entry_id ` snd ` set by_id) - visited))", goal_cases)
  case (2 by_id visited current path p parent)
  then have "entry_id parent \<in> entry_id ` snd ` set by_id"
    by (force dest: map_of_SomeD)
  with 2 have "insert (entry_id parent) (entry_id ` snd ` set by_id) - insert (entry_id current) visited
      \<subset> insert (entry_id current) (entry_id ` snd ` set by_id) - visited" by blast
  then show ?case by (simp add: psubset_card_mono)
qed simp

declare path_loop.simps [simp del]

definition resolve_path :: "entry_index \<Rightarrow> ustring \<Rightarrow> resolve_error + session_entry list" where
  "resolve_path by_id leaf_id =
     (let leaf = effective_leaf_id by_id leaf_id
      in and_then (ok_or (LeafNotFound leaf) (map_of by_id leaf))
           (\<lambda>current. and_then (path_loop by_id {} current []) (\<lambda>path. Ok (rev path))))"

partial_function (option) nearest_visible_loop ::
  "entry_index \<Rightarrow> ustring set \<Rightarrow> ustring option \<Rightarrow> (resolve_error, ustring option) outcome" where
  "nearest_visible_loop by_id visible current =
     (case current of
        None \<Rightarrow> Some (Ok None)
      | Some p \<Rightarrow>
          if p \<in> visible then Some (Ok (Some p))
          else (case map_of by_id p of
                  None \<Rightarrow> Some (Err (DanglingParent p))
                | Some parent \<Rightarrow> nearest_visible_loop by_id visible (parent_id parent)))"

definition nearest_visible_parent_id ::
  "session_entry \<Rightarrow> entry_index \<Rightarrow> ustring set \<Rightarrow> (resolve_error, ustring option) outcome" where
  "nearest_visible_parent_id entry by_id visible =
     nearest_visible_loop by_id visible (parent_id entry)"

function subtree_loop ::
  "entry_index \<Rightarrow> ustring \<Rightarrow> ustring set \<Rightarrow> ustring option \<Rightarrow> resolve_error + bool" where
  "subtree_loop by_id root visited None = Ok False"
| "subtree_loop by_id root visited (Some p) =
     (if p = root then Ok True
      else if p \<in> visited then Err CycleDetected
      else (case map_of by_id p of
              None \<Rightarrow> Err (DanglingParent p)
            | Some parent \<Rightarrow> subtree_loop by_id root (insert p visited) (parent_id parent)))"
  by pat_completeness auto
termination
proof (relation "measure (\<lambda>(by_id, root, visited, current). card (fst ` set by_id - visited))",
    goal_cases)
  case (2 by_id root visited p parent)
  then have "p \<in> fst ` set by_id - visited" by (force dest: map_of_SomeD)
  then have "fst ` set by_id - insert p visited \<subset> fst ` set by_id - visited" by blast
  then show ?case by (simp add: psubset_card_mono)
qed simp

definition entry_is_in_subtree ::
  "session_entry \<Rightarrow> ustring \<Rightarrow> entry_index \<Rightarrow> resolve_error + bool" where
  "entry_is_in_subtree candidate root by_id =
     (if entry_id candidate = root then Ok True
      else subtree_loop by_id root {} (parent_id candidate))"

definition latest_in_subtree ::
  "session_entry list \<Rightarrow> ustring \<Rightarrow> entry_index \<Rightarrow> resolve_error + session_entry option" where
  "latest_in_subtree candidates root by_id =
     try_fold (\<lambda>latest e. and_then (entry_is_in_subtree e root by_id)
                 (\<lambda>inside. Ok (if inside then Some e else latest))) None candidates"

definition latest_visible_descendant ::
  "session_entry list \<Rightarrow> entry_index \<Rightarrow> ustring \<Rightarrow> ustring set \<Rightarrow> resolve_error + session_entry" where
  "latest_visible_descendant entries by_id root visible =
     and_then (latest_in_subtree (filter (\<lambda>e. entry_id e \<in> visible) entries) root by_id)
       (ok_or (LeafNotFound root))"

definition latest_non_leaf_descendant ::
  "session_entry list \<Rightarrow> entry_index \<Rightarrow> ustring \<Rightarrow> resolve_error + session_entry" where
  "latest_non_leaf_descendant entries by_id root =
     and_then (latest_in_subtree (filter (\<lambda>e. \<not> is_leaf_kind (kind e)) entries) root by_id)
       (ok_or (LeafNotFound root))"

section \<open>What the index holds\<close>

definition index_of :: "session_entry list \<Rightarrow> entry_index" where
  "index_of entries = map (\<lambda>e. (entry_id e, e)) entries"

lemma update_new: "map_of m k = None \<Longrightarrow> AList.update k v m = m @ [(k, v)]"
  by (induction m) (auto split: if_splits)

lemma build_index_loop_eq:
  "build_index_loop es m =
     (if distinct (map entry_id es) \<and> (\<forall>e\<in>set es. map_of m (entry_id e) = None)
      then Ok (m @ index_of es) else build_index_loop es m)"
proof (induction es arbitrary: m)
  case (Cons e es)
  show ?case
  proof (cases "distinct (map entry_id (e # es)) \<and> (\<forall>e\<in>set (e # es). map_of m (entry_id e) = None)")
    case True
    then have new: "map_of m (entry_id e) = None" by simp
    from True have "\<forall>x\<in>set es. map_of (m @ [(entry_id e, e)]) (entry_id x) = None"
      by (auto simp: map_add_def image_iff)
    with True Cons.IH[of "m @ [(entry_id e, e)]"]
    show ?thesis by (simp add: new update_new index_of_def)
  qed (simp only: if_False)
qed (simp add: index_of_def)

lemma build_index_loop_Ok:
  "build_index_loop es m = Ok r \<Longrightarrow>
     distinct (map entry_id es) \<and> (\<forall>e\<in>set es. map_of m (entry_id e) = None)"
proof (induction es arbitrary: m)
  case (Cons e es)
  then have new: "map_of m (entry_id e) = None"
    and rest: "build_index_loop es (m @ [(entry_id e, e)]) = Ok r"
    by (auto simp: update_new split: if_splits)
  from Cons.IH[OF rest] new show ?case
    by (auto simp: map_add_def split: if_splits option.splits)
qed simp

lemma build_entry_index_Ok_iff:
  "build_entry_index entries = Ok by_id \<longleftrightarrow>
     distinct (map entry_id entries) \<and> by_id = index_of entries"
proof
  assume ok: "build_entry_index entries = Ok by_id"
  then have "distinct (map entry_id entries)"
    unfolding build_entry_index_def by (rule build_index_loop_Ok[THEN conjunct1])
  with ok build_index_loop_eq[of entries "[]"] show "distinct (map entry_id entries) \<and> by_id = index_of entries"
    by (simp add: build_entry_index_def)
qed (simp add: build_entry_index_def build_index_loop_eq[of entries "[]"])

lemma build_index_loop_Err_first:
  "build_index_loop es m = Err err \<Longrightarrow> \<exists>xs e ys. es = xs @ e # ys \<and> err = DuplicateId (entry_id e) \<and>
     (entry_id e \<in> entry_id ` set xs \<or> map_of m (entry_id e) \<noteq> None)
     \<and> distinct (map entry_id xs) \<and> (\<forall>x\<in>set xs. map_of m (entry_id x) = None)"
proof (induction es arbitrary: m)
  case (Cons e es)
  show ?case
  proof (cases "map_of m (entry_id e) = None")
    case True
    with Cons.prems have "build_index_loop es (m @ [(entry_id e, e)]) = Err err"
      by (simp add: update_new)
    from Cons.IH[OF this] obtain xs x ys where split: "es = xs @ x # ys" "err = DuplicateId (entry_id x)"
      and seen: "entry_id x \<in> entry_id ` set xs \<or> map_of (m @ [(entry_id e, e)]) (entry_id x) \<noteq> None"
      and dist: "distinct (map entry_id xs)"
      and fresh: "\<forall>y\<in>set xs. map_of (m @ [(entry_id e, e)]) (entry_id y) = None"
      by blast
    from fresh have old: "\<forall>y\<in>set xs. map_of m (entry_id y) = None \<and> entry_id y \<noteq> entry_id e"
      by (auto simp: map_add_def split: option.splits if_splits)
    with dist have "distinct (map entry_id (e # xs))" by (auto simp: image_iff)
    moreover from seen have "entry_id x \<in> entry_id ` set (e # xs) \<or> map_of m (entry_id x) \<noteq> None"
      by (auto simp: map_add_def split: if_splits option.splits)
    ultimately show ?thesis using split old True
      by (intro exI[of _ "e # xs"] exI[of _ x] exI[of _ ys]) simp
  next
    case False
    with Cons.prems show ?thesis by (intro exI[of _ "[]"] exI[of _ e] exI[of _ es]) auto
  qed
qed simp

lemma map_of_index_of:
  "distinct (map entry_id entries) \<Longrightarrow>
     map_of (index_of entries) i = Some e \<longleftrightarrow> e \<in> set entries \<and> entry_id e = i"
  by (induction entries) (auto simp: index_of_def image_iff)

lemma map_of_index_of_None: "map_of (index_of entries) i = None \<longleftrightarrow> i \<notin> entry_id ` set entries"
  by (induction entries) (auto simp: index_of_def)

lemma validate_entry_parents_Ok_iff:
  "validate_entry_parents es by_id = Ok () \<longleftrightarrow>
     (\<forall>e\<in>set es. \<forall>p. parent_id e = Some p \<longrightarrow> map_of by_id p \<noteq> None)"
  by (induction es) (auto split: option.splits)

lemma children_of [hash_simps]:
  "get_or_empty (build_children_by_parent entries) p = filter (\<lambda>e. parent_id e = Some p) entries"
  by (simp add: build_children_by_parent_def hash_simps)

section \<open>The parent relation\<close>

definition parent_rel :: "entry_index \<Rightarrow> (ustring \<times> ustring) set" where
  "parent_rel by_id = {(a, b). \<exists>e. map_of by_id a = Some e \<and> parent_id e = Some b}"

definition keyed :: "entry_index \<Rightarrow> bool" where
  "keyed by_id \<longleftrightarrow> (\<forall>i e. map_of by_id i = Some e \<longrightarrow> entry_id e = i)"

lemma keyed_index_of [intro]: "distinct (map entry_id entries) \<Longrightarrow> keyed (index_of entries)"
  by (simp add: keyed_def map_of_index_of)

lemma keyedD: "keyed by_id \<Longrightarrow> map_of by_id i = Some e \<Longrightarrow> entry_id e = i"
  by (simp add: keyed_def)

lemma parent_rel_single_valued: "single_valued (parent_rel by_id)"
  by (auto simp: single_valued_def parent_rel_def)

lemma parent_relI: "map_of by_id a = Some e \<Longrightarrow> parent_id e = Some b \<Longrightarrow> (a, b) \<in> parent_rel by_id"
  by (auto simp: parent_rel_def)

text \<open>
  In a deterministic relation, a walk that ends never enters a cycle.
\<close>

lemma cycle_successor:
  assumes sv: "single_valued R" and cyc: "(i, i) \<in> R\<^sup>+" and step: "(i, j) \<in> R"
  shows "(j, j) \<in> R\<^sup>+"
proof -
  from cyc obtain k where "(i, k) \<in> R" "(k, i) \<in> R\<^sup>*" by (auto dest: tranclD)
  moreover from this(1) step sv have "k = j" by (auto dest: single_valuedD)
  ultimately show ?thesis using step by (auto intro: rtrancl_into_trancl1)
qed

lemma end_excludes_cycle:
  assumes sv: "single_valued R" and "(x, z) \<in> R\<^sup>*" "z \<notin> Domain R" "(x, i) \<in> R\<^sup>*"
  shows "(i, i) \<notin> R\<^sup>+"
proof
  assume cyc: "(i, i) \<in> R\<^sup>+"
  from single_valued_confluent[OF sv assms(2,4)] assms(3) have "(i, z) \<in> R\<^sup>*"
    by (auto elim: converse_rtranclE)
  then have "(z, z) \<in> R\<^sup>+"
    by (induction rule: rtrancl_induct) (use cyc sv in \<open>auto intro: cycle_successor\<close>)
  with assms(3) show False by (auto dest: tranclD)
qed

text \<open>A root path lists an entry's ancestors from the root down to the entry itself.\<close>

inductive root_path :: "entry_index \<Rightarrow> session_entry \<Rightarrow> session_entry list \<Rightarrow> bool"
  for by_id where
  root: "parent_id e = None \<Longrightarrow> root_path by_id e [e]"
| below: "parent_id e = Some p \<Longrightarrow> map_of by_id p = Some q \<Longrightarrow> root_path by_id q qs
     \<Longrightarrow> root_path by_id e (qs @ [e])"

inductive_cases root_path_rootE: "root_path by_id e [x]"
inductive_simps root_path_snoc: "root_path by_id e (qs @ [x])"

lemma root_path_last: "root_path by_id e path \<Longrightarrow> path \<noteq> [] \<and> last path = e"
  by (induction rule: root_path.induct) auto

lemma root_path_hd: "root_path by_id e path \<Longrightarrow> parent_id (hd path) = None"
  by (induction rule: root_path.induct) (auto dest: root_path_last)

lemma root_path_unique: "root_path by_id e p \<Longrightarrow> root_path by_id e q \<Longrightarrow> p = q"
proof (induction arbitrary: q rule: root_path.induct)
  case (root e)
  from root.prems show ?case by (cases rule: root_path.cases) (use root.hyps in auto)
next
  case (below e p a as)
  from below.prems show ?case
  proof (cases rule: root_path.cases)
    case (below p' b bs)
    with \<open>parent_id e = Some p\<close> \<open>map_of by_id p = Some a\<close> have "b = a" by simp
    with below.IH[of bs] below show ?thesis by simp
  qed (simp add: below.hyps)
qed

lemma root_path_prefix:
  "root_path by_id e path \<Longrightarrow> path = xs @ x # ys \<Longrightarrow> root_path by_id x (xs @ [x])"
proof (induction arbitrary: ys rule: root_path.induct)
  case (root e)
  then show ?case by (auto simp: Cons_eq_append_conv intro: root_path.root)
next
  case (below e p q qs)
  show ?case
  proof (cases ys rule: rev_cases)
    case Nil
    with below.prems below.hyps show ?thesis by (auto intro: root_path.below)
  next
    case (snoc zs z)
    with below.prems have "qs = xs @ x # zs" by simp
    from below.IH[OF this] show ?thesis .
  qed
qed

lemma root_path_in_index:
  "root_path by_id e path \<Longrightarrow> x \<in> set path \<Longrightarrow> x = e \<or> (\<exists>i. map_of by_id i = Some x)"
  by (induction rule: root_path.induct) auto

lemma root_path_distinct_entries:
  assumes "root_path by_id e path"
  shows "distinct path"
proof (rule ccontr)
  assume "\<not> distinct path"
  then obtain xs ys zs x where path: "path = xs @ [x] @ ys @ [x] @ zs"
    using not_distinct_decomp by blast
  from assms have "root_path by_id x (xs @ [x])" by (rule root_path_prefix) (simp add: path)
  moreover from assms have "root_path by_id x ((xs @ x # ys) @ [x])"
    by (rule root_path_prefix) (simp add: path)
  ultimately have "xs @ [x] = (xs @ x # ys) @ [x]" by (rule root_path_unique)
  then show False by simp
qed

lemma root_path_distinct_ids:
  assumes "keyed by_id" "map_of by_id i = Some e" "root_path by_id e path"
  shows "distinct (map entry_id path)"
proof -
  have "inj_on entry_id (set path)"
  proof (rule inj_onI)
    fix x y assume "x \<in> set path" "y \<in> set path" and eq: "entry_id x = entry_id y"
    with root_path_in_index[OF assms(3)] assms(2) obtain a b
      where "map_of by_id a = Some x" "map_of by_id b = Some y" by blast
    with eq assms(1) show "x = y" by (metis keyed_def option.inject)
  qed
  with root_path_distinct_entries[OF assms(3)] show ?thesis by (simp add: distinct_map)
qed

text \<open>Every entry of a root path is an ancestor of the entry it belongs to.\<close>

lemma root_path_ancestors:
  "root_path by_id e path \<Longrightarrow> keyed by_id \<Longrightarrow> map_of by_id (entry_id e) = Some e \<Longrightarrow>
     x \<in> set path \<Longrightarrow> (entry_id e, entry_id x) \<in> (parent_rel by_id)\<^sup>*"
proof (induction rule: root_path.induct)
  case (below e p q qs)
  then have "entry_id q = p" by (blast dest: keyedD)
  with below have "(entry_id e, entry_id q) \<in> parent_rel by_id" by (auto intro: parent_relI)
  with below \<open>entry_id q = p\<close> show ?case by (auto intro: converse_rtrancl_into_rtrancl)
qed auto

lemma ancestor_in_root_path:
  assumes "(i, j) \<in> (parent_rel by_id)\<^sup>*" "map_of by_id i = Some e" "root_path by_id e path"
  shows "\<exists>x. map_of by_id j = Some x \<and> x \<in> set path"
  using assms
proof (induction arbitrary: e path rule: converse_rtrancl_induct)
  case base
  then show ?case using root_path_last by (metis last_in_set)
next
  case (step i k)
  from step.hyps(1) step.prems(1) have "parent_id e = Some k" by (auto simp: parent_rel_def)
  from step.prems(2) this obtain q qs
    where "map_of by_id k = Some q" "root_path by_id q qs" "path = qs @ [e]"
    by (cases rule: root_path.cases) auto
  with step.IH[of q qs] show ?case by auto
qed

section \<open>The walks, characterised\<close>

lemma path_loop_sound:
  "path_loop by_id visited current path = Ok r \<Longrightarrow>
     \<exists>up. r = path @ rev up \<and> root_path by_id current up"
proof (induction by_id visited current path rule: path_loop.induct)
  case (1 by_id visited current path)
  show ?case
  proof (cases "parent_id current")
    case None
    with "1.prems" have "r = path @ rev [current]"
      by (auto simp: path_loop.simps[of by_id visited current path] split: if_splits)
    with None show ?thesis by (blast intro: root_path.root)
  next
    case (Some p)
    with "1.prems" obtain q where q: "entry_id current \<notin> visited" "map_of by_id p = Some q"
      and rest: "path_loop by_id (insert (entry_id current) visited) q (path @ [current]) = Ok r"
      by (auto simp: path_loop.simps[of by_id visited current path] split: if_splits option.splits)
    from "1.IH"[OF q(1) Some q(2) rest] obtain up
      where "r = (path @ [current]) @ rev up" "root_path by_id q up" by blast
    with Some q show ?thesis
      by (intro exI[of _ "up @ [current]"]) (auto intro: root_path.below)
  qed
qed

lemma path_loop_complete:
  "root_path by_id current up \<Longrightarrow> distinct (map entry_id up) \<Longrightarrow>
     entry_id ` set up \<inter> visited = {} \<Longrightarrow>
     path_loop by_id visited current path = Ok (path @ rev up)"
proof (induction arbitrary: visited path rule: root_path.induct)
  case (root e)
  then show ?case by (simp add: path_loop.simps[of by_id visited e])
next
  case (below e p q qs)
  then have "path_loop by_id (insert (entry_id e) visited) q (path @ [e]) = Ok ((path @ [e]) @ rev qs)"
    by (intro below.IH) (auto simp: image_iff)
  with below show ?case by (auto simp: path_loop.simps[of by_id visited e])
qed

lemma path_loop_Err:
  "path_loop by_id visited current path = Err err \<Longrightarrow> keyed by_id \<Longrightarrow>
     map_of by_id (entry_id current) = Some current \<Longrightarrow>
     \<forall>v\<in>visited. (v, entry_id current) \<in> (parent_rel by_id)\<^sup>+ \<Longrightarrow>
     (err = CycleDetected \<and> (\<exists>i. (entry_id current, i) \<in> (parent_rel by_id)\<^sup>* \<and> (i, i) \<in> (parent_rel by_id)\<^sup>+)) \<or>
     (\<exists>p. err = DanglingParent p \<and> (entry_id current, p) \<in> (parent_rel by_id)\<^sup>+ \<and> map_of by_id p = None)"
proof (induction by_id visited current path rule: path_loop.induct)
  case (1 by_id visited current path)
  show ?case
  proof (cases "entry_id current \<in> visited")
    case True
    with "1.prems" show ?thesis by (auto simp: path_loop.simps[of by_id visited current path])
  next
    case False
    with "1.prems"(1) obtain p where p: "parent_id current = Some p"
      by (auto simp: path_loop.simps[of by_id visited current path] split: option.splits)
    have edge: "(entry_id current, p) \<in> parent_rel by_id" using "1.prems"(3) p by (rule parent_relI)
    show ?thesis
    proof (cases "map_of by_id p")
      case None
      with "1.prems"(1) False p edge show ?thesis
        by (auto simp: path_loop.simps[of by_id visited current path])
    next
      case (Some q)
      with "1.prems"(2) have q: "entry_id q = p" by (rule keyedD)
      from "1.prems"(1) False p Some
      have rest: "path_loop by_id (insert (entry_id current) visited) q (path @ [current]) = Err err"
        by (simp add: path_loop.simps[of by_id visited current path])
      have "\<forall>v\<in>insert (entry_id current) visited. (v, entry_id q) \<in> (parent_rel by_id)\<^sup>+"
        using "1.prems"(4) edge q by (auto intro: trancl_into_trancl)
      from "1.IH"[OF False p Some rest "1.prems"(2) _ this] Some q edge show ?thesis
        by (auto intro: converse_rtrancl_into_rtrancl trancl_into_trancl2)
    qed
  qed
qed

lemma path_loop_Ok_iff:
  assumes "keyed by_id" "map_of by_id (entry_id current) = Some current"
  shows "path_loop by_id {} current [] = Ok r \<longleftrightarrow> root_path by_id current (rev r)"
proof
  assume "root_path by_id current (rev r)"
  moreover from root_path_distinct_ids[OF assms this] have "distinct (map entry_id (rev r))" .
  ultimately show "path_loop by_id {} current [] = Ok r"
    by (subst path_loop_complete) auto
qed (auto dest: path_loop_sound)

lemma resolve_path_Ok_iff:
  assumes "keyed by_id"
  shows "resolve_path by_id leaf_id = Ok path \<longleftrightarrow>
     (\<exists>e. map_of by_id (effective_leaf_id by_id leaf_id) = Some e \<and> root_path by_id e path)"
proof -
  have "map_of by_id (entry_id e) = Some e" if "map_of by_id (effective_leaf_id by_id leaf_id) = Some e" for e
    using that assms by (auto simp: keyed_def)
  then show ?thesis
    by (auto simp: resolve_path_def Let_def result_iffs path_loop_Ok_iff[OF assms])
      (metis path_loop_Ok_iff[OF assms] rev_rev_ident)
qed

lemma walk_trichotomy:
  assumes "keyed by_id" "map_of by_id (entry_id e) = Some e"
  obtains (ends) r where "path_loop by_id {} e [] = Ok r" "root_path by_id e (rev r)"
  | (cycle) i where "path_loop by_id {} e [] = Err CycleDetected"
      "(entry_id e, i) \<in> (parent_rel by_id)\<^sup>*" "(i, i) \<in> (parent_rel by_id)\<^sup>+"
  | (dangles) p where "path_loop by_id {} e [] = Err (DanglingParent p)"
      "(entry_id e, p) \<in> (parent_rel by_id)\<^sup>+" "map_of by_id p = None"
proof (cases "path_loop by_id {} e []")
  case (Inl err)
  from path_loop_Err[OF this assms] cycle dangles Inl show ?thesis by auto
next
  case (Inr r)
  with ends path_loop_Ok_iff[OF assms, of r] show ?thesis by blast
qed

lemma root_path_end:
  assumes "keyed by_id" "map_of by_id (entry_id e) = Some e" "root_path by_id e path"
  shows "\<exists>z. (entry_id e, z) \<in> (parent_rel by_id)\<^sup>* \<and> z \<notin> Domain (parent_rel by_id)"
proof -
  from root_path_last[OF assms(3)] have "hd path \<in> set path" by simp
  then have "(entry_id e, entry_id (hd path)) \<in> (parent_rel by_id)\<^sup>*"
    using root_path_ancestors[OF assms(3,1,2)] by blast
  moreover from \<open>hd path \<in> set path\<close> root_path_in_index[OF assms(3)] assms(2)
  obtain i where "map_of by_id i = Some (hd path)" by metis
  with assms(1) root_path_hd[OF assms(3)] have "entry_id (hd path) \<notin> Domain (parent_rel by_id)"
    by (auto simp: parent_rel_def keyed_def)
  ultimately show ?thesis by blast
qed

lemma path_loop_cycle_iff:
  assumes "keyed by_id" "map_of by_id (entry_id e) = Some e"
  shows "path_loop by_id {} e [] = Err CycleDetected \<longleftrightarrow>
     (\<exists>i. (entry_id e, i) \<in> (parent_rel by_id)\<^sup>* \<and> (i, i) \<in> (parent_rel by_id)\<^sup>+)"
proof (cases rule: walk_trichotomy[OF assms])
  case (1 r)
  from root_path_end[OF assms 1(2)] 1(1) show ?thesis
    using end_excludes_cycle[OF parent_rel_single_valued] by auto
next
  case (2 i)
  then show ?thesis by auto
next
  case (3 p)
  then have "p \<notin> Domain (parent_rel by_id)" by (auto simp: parent_rel_def)
  with 3 show ?thesis
    using end_excludes_cycle[OF parent_rel_single_valued trancl_into_rtrancl] by auto
qed

text \<open>
  The unguarded search does not return when it enters a set of hidden entries that is closed
  under taking parents.
\<close>

lemma nearest_visible_loop_diverges:
  assumes closed: "\<forall>q\<in>S. q \<notin> visible \<and> (\<exists>d r. map_of by_id q = Some d \<and> parent_id d = Some r \<and> r \<in> S)"
    and "p \<in> S"
  shows "nearest_visible_loop by_id visible (Some p) = None"
proof (rule ccontr)
  assume "nearest_visible_loop by_id visible (Some p) \<noteq> None"
  then obtain r where "nearest_visible_loop by_id visible (Some p) = Some r" by blast
  then have "by_id = by_id \<longrightarrow> visible = visible \<longrightarrow> (\<forall>q. Some p = Some q \<longrightarrow> q \<notin> S)"
  proof (rule nearest_visible_loop.raw_induct
      [where P = "\<lambda>m v c r. m = by_id \<longrightarrow> v = visible \<longrightarrow> (\<forall>q. c = Some q \<longrightarrow> q \<notin> S)", rotated])
    fix f and m :: entry_index and v and c :: "ustring option" and r
    assume IH: "\<And>m v c r. f m v c = Some r \<Longrightarrow> m = by_id \<longrightarrow> v = visible \<longrightarrow> (\<forall>q. c = Some q \<longrightarrow> q \<notin> S)"
      and eq: "(case c of
        None \<Rightarrow> Some (Ok None)
      | Some p \<Rightarrow>
          if p \<in> v then Some (Ok (Some p))
          else (case map_of m p of
                  None \<Rightarrow> Some (Err (DanglingParent p))
                | Some parent \<Rightarrow> f m v (parent_id parent))) = Some r"
    show "m = by_id \<longrightarrow> v = visible \<longrightarrow> (\<forall>q. c = Some q \<longrightarrow> q \<notin> S)"
    proof (intro impI allI notI)
      fix q assume q: "m = by_id" "v = visible" "c = Some q" "q \<in> S"
      from closed q(4) obtain d r' where d: "q \<notin> visible" "map_of by_id q = Some d"
        "parent_id d = Some r'" "r' \<in> S" by blast
      with eq q have "f by_id visible (Some r') = Some r" by simp
      from IH[OF this] d(4) show False by simp
    qed
  qed
  with assms(2) show False by simp
qed

end
