(* ===== verification/Entry_Log.thy ===== *)
theory Entry_Log
  imports Topology
begin

text \<open>
  Well-formed entry logs.  A store only ever appends entries with a fresh id below an entry
  that is already there, so in a log the parent and the leaf target of an entry precede it
  (\<open>log_wf\<close>).  Such a log is grounded: every entry has a root path, hence no walk of the tree
  code fails or runs forever on it.  The interface \<open>entry_log\<close> states what a session's
  owner must provide for the tree code to be total.
\<close>

section \<open>Grounded indexes\<close>

definition grounded :: "entry_index \<Rightarrow> bool" where
  "grounded by_id \<longleftrightarrow>
     keyed by_id \<and> (\<forall>i e. map_of by_id i = Some e \<longrightarrow> (\<exists>path. root_path by_id e path))"

definition ancestry :: "entry_index \<Rightarrow> session_entry \<Rightarrow> session_entry list" where
  "ancestry by_id e = (case path_loop by_id {} e [] of Inl _ \<Rightarrow> [] | Inr r \<Rightarrow> rev r)"

lemma groundedD:
  assumes "grounded by_id" "map_of by_id i = Some e"
  shows "entry_id e = i" "root_path by_id e (ancestry by_id e)"
    "distinct (map entry_id (ancestry by_id e))"
proof -
  from assms have keyed: "keyed by_id" by (simp add: grounded_def)
  from keyed assms(2) show i: "entry_id e = i" by (rule keyedD)
  from assms obtain path where path: "root_path by_id e path" by (auto simp: grounded_def)
  with path_loop_Ok_iff[OF keyed, of e "rev path"] assms(2) i
  have "ancestry by_id e = path" by (simp add: ancestry_def)
  with path show "root_path by_id e (ancestry by_id e)" by simp
  from root_path_distinct_ids[OF keyed assms(2) this]
  show "distinct (map entry_id (ancestry by_id e))" .
qed

lemma resolve_path_grounded:
  assumes "grounded by_id" "map_of by_id (effective_leaf_id by_id leaf) = Some e"
  shows "resolve_path by_id leaf = Ok (ancestry by_id e)"
  using assms groundedD(2) by (auto simp: resolve_path_Ok_iff grounded_def)

text \<open>The two walks without a result list stop at the nearest hit on the root path.\<close>

lemma nearest_visible_loop_root_path:
  assumes "keyed by_id" "root_path by_id e path"
  shows "nearest_visible_loop by_id visible (parent_id e) =
     Some (Ok (last_opt (filter (\<lambda>i. i \<in> visible) (map entry_id (butlast path)))))"
  using assms(2)
proof (induction rule: root_path.induct)
  case (root e)
  then show ?case by (subst nearest_visible_loop.simps) simp
next
  case (below e p q qs)
  from assms(1) below.hyps(2) have q: "entry_id q = p" by (rule keyedD)
  from root_path_last[OF below.hyps(3)] obtain zs where qs: "qs = zs @ [q]"
    by (metis append_butlast_last_id)
  show ?case
    unfolding butlast_snoc by (subst nearest_visible_loop.simps) (use below q qs in simp)
qed

lemma subtree_loop_root_path:
  assumes "keyed by_id" "root_path by_id e path" "distinct (map entry_id path)"
    "entry_id ` set (butlast path) \<inter> visited = {}"
  shows "subtree_loop by_id root_id visited (parent_id e) =
     Ok (root_id \<in> entry_id ` set (butlast path))"
  using assms(2-)
proof (induction arbitrary: visited rule: root_path.induct)
  case (below e p q qs)
  from assms(1) below.hyps(2) have q: "entry_id q = p" by (rule keyedD)
  from root_path_last[OF below.hyps(3)] obtain zs where qs: "qs = zs @ [q]"
    by (metis append_butlast_last_id)
  from below.prems[unfolded butlast_snoc]
  have "distinct (map entry_id qs)" "entry_id ` set (butlast qs) \<inter> insert p visited = {}"
    by (auto simp: qs q)
  from below.IH[OF this] below.hyps below.prems[unfolded butlast_snoc] qs q show ?case
    unfolding butlast_snoc by auto
qed simp

lemma nearest_visible_grounded:
  assumes "grounded by_id" "map_of by_id (entry_id e) = Some e"
  shows "nearest_visible_parent_id e by_id visible =
     Some (Ok (last_opt (filter (\<lambda>i. i \<in> visible) (map entry_id (butlast (ancestry by_id e))))))"
  using assms groundedD(2)[OF assms] nearest_visible_loop_root_path
  by (auto simp: nearest_visible_parent_id_def grounded_def)

lemma entry_is_in_subtree_grounded:
  assumes "grounded by_id" "map_of by_id (entry_id e) = Some e"
  shows "entry_is_in_subtree e root_id by_id = Ok (root_id \<in> entry_id ` set (ancestry by_id e))"
proof -
  from groundedD[OF assms] have path: "root_path by_id e (ancestry by_id e)"
    and "distinct (map entry_id (ancestry by_id e))" by auto
  moreover from root_path_last[OF path] obtain zs where "ancestry by_id e = zs @ [e]"
    by (metis append_butlast_last_id)
  moreover from assms(1) have "keyed by_id" by (simp add: grounded_def)
  ultimately show ?thesis
    by (auto simp: entry_is_in_subtree_def subtree_loop_root_path)
qed

definition in_subtree :: "entry_index \<Rightarrow> ustring \<Rightarrow> session_entry \<Rightarrow> bool" where
  "in_subtree by_id root_id e \<longleftrightarrow> root_id \<in> entry_id ` set (ancestry by_id e)"

lemma in_subtree_iff:
  assumes "grounded by_id" "map_of by_id (entry_id e) = Some e"
  shows "in_subtree by_id root_id e \<longleftrightarrow>
     (entry_id e, root_id) \<in> (parent_rel by_id)\<^sup>* \<and> map_of by_id root_id \<noteq> None"
proof -
  note path = groundedD(2)[OF assms]
  from assms(1) have keyed: "keyed by_id" by (simp add: grounded_def)
  show ?thesis
  proof
    assume "in_subtree by_id root_id e"
    then obtain x where x: "x \<in> set (ancestry by_id e)" "root_id = entry_id x"
      by (auto simp: in_subtree_def)
    from root_path_in_index[OF path x(1)] assms(2) obtain i where "map_of by_id i = Some x" by metis
    with x keyedD[OF keyed this] root_path_ancestors[OF path keyed assms(2) x(1)]
    show "(entry_id e, root_id) \<in> (parent_rel by_id)\<^sup>* \<and> map_of by_id root_id \<noteq> None" by auto
  next
    assume "(entry_id e, root_id) \<in> (parent_rel by_id)\<^sup>* \<and> map_of by_id root_id \<noteq> None"
    with ancestor_in_root_path[OF _ assms(2) path] obtain x
      where "map_of by_id root_id = Some x" "x \<in> set (ancestry by_id e)" by blast
    with keyedD[OF keyed] show "in_subtree by_id root_id e" by (force simp: in_subtree_def)
  qed
qed

lemma latest_in_subtree_grounded:
  assumes "grounded by_id" "\<And>e. e \<in> set es \<Longrightarrow> map_of by_id (entry_id e) = Some e"
  shows "latest_in_subtree es root_id by_id = Ok (last_opt (filter (in_subtree by_id root_id) es))"
proof -
  have "latest_in_subtree es root_id by_id =
      Ok (foldl (\<lambda>latest e. if in_subtree by_id root_id e then Some e else latest) None es)"
    unfolding latest_in_subtree_def
    by (rule try_fold_Ok) (simp add: entry_is_in_subtree_grounded assms in_subtree_def)
  then show ?thesis by (simp add: foldl_last_filter split: option.splits)
qed

section \<open>Logs\<close>

fun log_wf :: "ustring set \<Rightarrow> session_entry list \<Rightarrow> bool" where
  "log_wf seen [] = True"
| "log_wf seen (e # es) =
     (entry_id e \<notin> seen
      \<and> (case parent_id e of None \<Rightarrow> True | Some p \<Rightarrow> p \<in> seen)
      \<and> (case kind e of Leaf (Some target) \<Rightarrow> target \<in> seen | _ \<Rightarrow> True)
      \<and> log_wf (insert (entry_id e) seen) es)"

lemma log_wf_append:
  "log_wf seen (xs @ ys) \<longleftrightarrow> log_wf seen xs \<and> log_wf (seen \<union> entry_id ` set xs) ys"
  by (induction xs arbitrary: seen) auto

lemma log_wf_distinct: "log_wf seen es \<Longrightarrow> distinct (map entry_id es) \<and> seen \<inter> entry_id ` set es = {}"
  by (induction es arbitrary: seen) auto

lemma log_wf_parent:
  "log_wf seen es \<Longrightarrow> e \<in> set es \<Longrightarrow> parent_id e = Some p \<Longrightarrow> p \<in> seen \<union> entry_id ` set es"
  by (induction es arbitrary: seen) auto

lemma log_wf_target:
  "log_wf seen es \<Longrightarrow> e \<in> set es \<Longrightarrow> kind e = Leaf (Some t) \<Longrightarrow> t \<in> seen \<union> entry_id ` set es"
  by (induction es arbitrary: seen) auto

lemma log_wf_snoc:
  "log_wf {} (es @ [e]) \<longleftrightarrow>
     log_wf {} es \<and> entry_id e \<notin> entry_id ` set es
     \<and> (case parent_id e of None \<Rightarrow> True | Some p \<Rightarrow> p \<in> entry_id ` set es)
     \<and> (case kind e of Leaf (Some t) \<Rightarrow> t \<in> entry_id ` set es | _ \<Rightarrow> True)"
  by (auto simp: log_wf_append)

lemma root_path_mono:
  assumes "\<And>i e. map_of m i = Some e \<Longrightarrow> map_of m' i = Some e"
  shows "root_path m e path \<Longrightarrow> root_path m' e path"
  by (induction rule: root_path.induct) (auto intro: root_path.intros assms)

lemma log_wf_root_path:
  "log_wf {} es \<Longrightarrow> e \<in> set es \<Longrightarrow> \<exists>path. root_path (index_of es) e path"
proof (induction es arbitrary: e rule: rev_induct)
  case (snoc x es)
  from snoc.prems(1) have wf: "log_wf {} es" and dist: "distinct (map entry_id (es @ [x]))"
    by (auto simp: log_wf_append dest: log_wf_distinct)
  then have sub: "map_of (index_of es) i = Some y \<Longrightarrow> map_of (index_of (es @ [x])) i = Some y" for i y
    by (simp add: map_of_index_of)
  have old: "\<exists>path. root_path (index_of (es @ [x])) y path" if "y \<in> set es" for y
    using snoc.IH[OF wf that] root_path_mono[OF sub] by blast
  show ?case
  proof (cases "e \<in> set es")
    case False
    with snoc.prems(2) have e: "e = x" by simp
    show ?thesis
    proof (cases "parent_id x")
      case None
      with e show ?thesis by (blast intro: root_path.root)
    next
      case (Some p)
      with snoc.prems(1) obtain q where q: "q \<in> set es" "entry_id q = p"
        by (auto simp: log_wf_snoc)
      with dist have "map_of (index_of (es @ [x])) p = Some q" by (simp add: map_of_index_of)
      with Some e old[OF q(1)] show ?thesis by (blast intro: root_path.below)
    qed
  qed (rule old)
qed simp

lemma log_wf_grounded: "log_wf {} es \<Longrightarrow> grounded (index_of es)"
  using log_wf_root_path log_wf_distinct[of "{}" es] keyed_index_of[of es]
  by (auto simp: grounded_def map_of_index_of)

lemma log_wf_index: "log_wf {} es \<Longrightarrow> build_entry_index es = Ok (index_of es)"
  by (auto simp: build_entry_index_Ok_iff dest: log_wf_distinct)

lemma log_wf_lookup: "log_wf {} es \<Longrightarrow> e \<in> set es \<Longrightarrow> map_of (index_of es) (entry_id e) = Some e"
  by (auto simp: map_of_index_of dest: log_wf_distinct)

lemma log_wf_validate: "log_wf {} es \<Longrightarrow> validate_entry_parents es (index_of es) = Ok ()"
  by (auto simp: validate_entry_parents_Ok_iff map_of_index_of_None dest: log_wf_parent)

lemma effective_leaf_in_log:
  assumes "log_wf {} es" "i \<in> entry_id ` set es"
  shows "effective_leaf_id (index_of es) i \<in> entry_id ` set es"
proof -
  from assms obtain e where e: "e \<in> set es" "i = entry_id e" by auto
  with log_wf_lookup[OF assms(1) e(1)] log_wf_target[OF assms(1) e(1)] assms(2)
  show ?thesis by (auto simp: effective_leaf_id_def split: entry_kind.splits option.splits)
qed

section \<open>The interface of a session's owner\<close>

text \<open>
  Whatever holds a session (an entry list, the mock store, the handle of the local store) has
  an invariant under which its entries form a log.  The tree code is then total on them.
\<close>

locale entry_log =
  fixes invar :: "'s \<Rightarrow> bool" and entries_of :: "'s \<Rightarrow> session_entry list"
  assumes invar_log: "invar s \<Longrightarrow> log_wf {} (entries_of s)"
begin

lemma index_total: "invar s \<Longrightarrow> build_entry_index (entries_of s) = Ok (index_of (entries_of s))"
  by (rule log_wf_index[OF invar_log])

lemma validate_total: "invar s \<Longrightarrow> validate_entry_parents (entries_of s) (index_of (entries_of s)) = Ok ()"
  by (rule log_wf_validate[OF invar_log])

lemma path_total:
  assumes "invar s" "leaf \<in> entry_id ` set (entries_of s)"
  shows "\<exists>e\<in>set (entries_of s).
     resolve_path (index_of (entries_of s)) leaf = Ok (ancestry (index_of (entries_of s)) e)"
proof -
  from effective_leaf_in_log[OF invar_log[OF assms(1)] assms(2)] obtain e
    where e: "e \<in> set (entries_of s)" "effective_leaf_id (index_of (entries_of s)) leaf = entry_id e"
    by auto
  from log_wf_lookup[OF invar_log[OF assms(1)] e(1)]
  have "map_of (index_of (entries_of s)) (effective_leaf_id (index_of (entries_of s)) leaf) = Some e"
    by (simp add: e(2))
  from resolve_path_grounded[OF log_wf_grounded[OF invar_log[OF assms(1)]] this] e(1)
  show ?thesis by blast
qed

lemma nearest_returns:
  assumes "invar s" "e \<in> set (entries_of s)"
  shows "\<exists>i. nearest_visible_parent_id e (index_of (entries_of s)) visible = Some (Ok i)"
  using nearest_visible_grounded[OF log_wf_grounded[OF invar_log[OF assms(1)]]
      log_wf_lookup[OF invar_log[OF assms(1)] assms(2)]] by blast

lemma subtree_decided:
  assumes "invar s" "e \<in> set (entries_of s)"
  shows "entry_is_in_subtree e root_id (index_of (entries_of s)) =
     Ok (in_subtree (index_of (entries_of s)) root_id e)"
  unfolding in_subtree_def
  by (rule entry_is_in_subtree_grounded[OF log_wf_grounded[OF invar_log[OF assms(1)]]
      log_wf_lookup[OF invar_log[OF assms(1)] assms(2)]])

end

text \<open>The raw entry list is its own owner.\<close>

interpretation raw_log: entry_log "log_wf {}" "\<lambda>es. es"
  by unfold_locales

end
