(* ===== verification/Resolve.thy ===== *)
theory Resolve
  imports Entry_Log
begin

text \<open>
  From a leaf to the provider-visible history: \<^verbatim>\<open>session_tree/resolve.rs\<close> and the transcript
  snapshots of \<^verbatim>\<open>session_tree/replay.rs\<close>.  The lemmas say that the transcript keeps one
  snapshot per activity and per terminal, the latest one, and which entries of the path the
  resolved state carries, with and without a compaction.
\<close>

section \<open>Transcript snapshots\<close>

fun same_snapshot :: "replay_item \<Rightarrow> replay_item \<Rightarrow> bool" where
  "same_snapshot (ReplayToolActivity a) (ReplayToolActivity b) = (activity_id a = activity_id b)"
| "same_snapshot (ReplayTerminalSnapshot a) (ReplayTerminalSnapshot b) = (terminal_id a = terminal_id b)"
| "same_snapshot _ _ = False"

text \<open>\<^verbatim>\<open>iter_mut().find(..)\<close> followed by an assignment through the reference.\<close>

fun replace_first :: "('a \<Rightarrow> bool) \<Rightarrow> 'a \<Rightarrow> 'a list \<Rightarrow> 'a list option" where
  "replace_first P y [] = None"
| "replace_first P y (x # xs) =
     (if P x then Some (y # xs) else map_option ((#) x) (replace_first P y xs))"

definition push_transcript_replay_snapshot :: "replay_item list \<Rightarrow> replay_item \<Rightarrow> replay_item list" where
  "push_transcript_replay_snapshot ts item =
     (case replace_first (\<lambda>existing. same_snapshot existing item) item ts of
        Some ts' \<Rightarrow> ts'
      | None \<Rightarrow> ts @ [item])"

definition push_entry_replay :: "replay_item list \<Rightarrow> session_entry \<Rightarrow> replay_item list" where
  "push_entry_replay ts e =
     (case kind e of TranscriptReplay item \<Rightarrow> push_transcript_replay_snapshot ts item | _ \<Rightarrow> ts)"

definition explicit_transcript_from_path :: "session_entry list \<Rightarrow> replay_item list" where
  "explicit_transcript_from_path path = foldl push_entry_replay [] path"

section \<open>Resolution\<close>

definition item_of :: "session_entry \<Rightarrow> conversation_item option" where
  "item_of e = (case kind e of Item item \<Rightarrow> Some item | _ \<Rightarrow> None)"

definition item_entry_position :: "session_entry list \<Rightarrow> ustring \<Rightarrow> nat option" where
  "item_entry_position path target = position (\<lambda>e. entry_id e = target \<and> item_of e \<noteq> None) path"

definition compaction_of :: "session_entry \<Rightarrow> (ustring \<times> ustring \<times> ustring) option" where
  "compaction_of e =
     (case kind e of Compaction summary first_kept _ \<Rightarrow> Some (entry_id e, summary, first_kept)
      | _ \<Rightarrow> None)"

definition latest_compaction :: "session_entry list \<Rightarrow> (ustring \<times> ustring \<times> ustring) option" where
  "latest_compaction path = find_map compaction_of (rev path)"

definition latest_config_step :: "config_snapshot option \<Rightarrow> session_entry \<Rightarrow> config_snapshot option" where
  "latest_config_step acc e = (case kind e of ConfigChange snapshot \<Rightarrow> Some snapshot | _ \<Rightarrow> acc)"

definition resolved_item_of :: "session_entry \<Rightarrow> resolved_item option" where
  "resolved_item_of e = map_option (\<lambda>i. \<lparr>resolved_entry_id = entry_id e, resolved_value = i\<rparr>) (item_of e)"

definition assemble_state ::
  "session_entry list \<Rightarrow> resolved_item list \<Rightarrow> ustring option \<Rightarrow> nat \<Rightarrow> resolved_state" where
  "assemble_state path lead summary start =
     (let ts = explicit_transcript_from_path (drop start path)
      in \<lparr>items = lead @ filter_map resolved_item_of (drop start path),
          transcript = (case summary of
              Some s \<Rightarrow> if ts \<noteq> [] then ReplaySystem s # ts else ts
            | None \<Rightarrow> ts),
          latest_config = foldl latest_config_step None path\<rparr>)"

definition resolve_state_from_path :: "session_entry list \<Rightarrow> resolve_error + resolved_state" where
  "resolve_state_from_path path =
     (case latest_compaction path of
        Some (cid, summary, first_kept) \<Rightarrow>
          and_then (ok_or (InvalidCompactionTarget first_kept) (item_entry_position path first_kept))
            (\<lambda>start. Ok (assemble_state path
                [\<lparr>resolved_entry_id = cid, resolved_value = item_system [Text summary]\<rparr>]
                (Some summary) start))
      | None \<Rightarrow> Ok (assemble_state path [] None 0))"

definition resolve_state :: "session_entry list \<Rightarrow> ustring \<Rightarrow> resolve_error + resolved_state" where
  "resolve_state entries leaf_id =
     and_then (build_entry_index entries) (\<lambda>by_id.
     and_then (resolve_path by_id leaf_id) resolve_state_from_path)"

definition resolve :: "session_entry list \<Rightarrow> ustring \<Rightarrow> resolve_error + conversation_item list" where
  "resolve entries leaf_id =
     and_then (resolve_state entries leaf_id) (\<lambda>st. Ok (map resolved_value (items st)))"

section \<open>One snapshot per activity and terminal\<close>

fun snapshot_key :: "replay_item \<Rightarrow> (bool \<times> ustring) option" where
  "snapshot_key (ReplayToolActivity a) = Some (True, activity_id a)"
| "snapshot_key (ReplayTerminalSnapshot s) = Some (False, terminal_id s)"
| "snapshot_key _ = None"

lemma same_snapshot_iff:
  "same_snapshot a b \<longleftrightarrow> snapshot_key a \<noteq> None \<and> snapshot_key a = snapshot_key b"
  by (cases a; cases b) auto

lemma replace_first_None: "replace_first P y xs = None \<longleftrightarrow> (\<forall>x\<in>set xs. \<not> P x)"
  by (induction xs) auto

lemma replace_first_Some:
  "replace_first P y xs = Some ys \<Longrightarrow>
     \<exists>as x bs. xs = as @ x # bs \<and> ys = as @ y # bs \<and> P x \<and> (\<forall>a\<in>set as. \<not> P a)"
proof (induction xs arbitrary: ys)
  case (Cons x xs)
  show ?case
  proof (cases "P x")
    case True
    with Cons.prems show ?thesis by (intro exI[of _ "[]"]) auto
  next
    case False
    with Cons.prems obtain zs where zs: "replace_first P y xs = Some zs" "ys = x # zs" by auto
    from Cons.IH[OF zs(1)] obtain as x' bs
      where "xs = as @ x' # bs" "zs = as @ y # bs" "P x'" "\<forall>a\<in>set as. \<not> P a" by blast
    with zs(2) False show ?thesis by (intro exI[of _ "x # as"]) auto
  qed
qed simp

lemma push_snapshot_cases:
  obtains (fresh) "push_transcript_replay_snapshot ts item = ts @ [item]"
      "\<forall>x\<in>set ts. snapshot_key x \<noteq> None \<longrightarrow> snapshot_key x \<noteq> snapshot_key item"
  | (replaced) as x bs where "ts = as @ x # bs"
      "push_transcript_replay_snapshot ts item = as @ item # bs"
      "snapshot_key x = snapshot_key item" "snapshot_key item \<noteq> None"
proof (cases "replace_first (\<lambda>existing. same_snapshot existing item) item ts")
  case None
  then have "\<forall>x\<in>set ts. snapshot_key x \<noteq> None \<longrightarrow> snapshot_key x \<noteq> snapshot_key item"
    unfolding replace_first_None same_snapshot_iff by blast
  with None fresh show ?thesis by (simp add: push_transcript_replay_snapshot_def)
next
  case (Some ts')
  from replace_first_Some[OF this] obtain as x bs where
    "ts = as @ x # bs" "ts' = as @ item # bs" "same_snapshot x item" by blast
  moreover from this(3) have "snapshot_key x = snapshot_key item" "snapshot_key item \<noteq> None"
    unfolding same_snapshot_iff by metis+
  moreover from Some have "push_transcript_replay_snapshot ts item = ts'"
    by (simp add: push_transcript_replay_snapshot_def)
  ultimately show ?thesis using replaced[of as x bs] by simp
qed

abbreviation snapshot_keys :: "replay_item list \<Rightarrow> (bool \<times> ustring) list" where
  "snapshot_keys ts \<equiv> filter_map snapshot_key ts"

lemma snapshot_keys_set: "k \<in> set (snapshot_keys ts) \<longleftrightarrow> (\<exists>x\<in>set ts. snapshot_key x = Some k)"
  by (induction ts) (auto split: option.splits)

lemma push_snapshot_distinct:
  "distinct (snapshot_keys ts) \<Longrightarrow> distinct (snapshot_keys (push_transcript_replay_snapshot ts item))"
  by (cases rule: push_snapshot_cases[of ts item])
    (fastforce simp: snapshot_keys_set split: option.splits)+

lemma push_snapshot_find:
  assumes "distinct (snapshot_keys ts)"
  shows "filter (\<lambda>x. snapshot_key x = Some k) (push_transcript_replay_snapshot ts item) =
     (if snapshot_key item = Some k then [item] else filter (\<lambda>x. snapshot_key x = Some k) ts)"
proof (cases rule: push_snapshot_cases[of ts item])
  case fresh
  then show ?thesis by (auto simp: filter_empty_conv)
next
  case (replaced as x bs)
  with assms have "\<forall>y\<in>set as \<union> set bs. snapshot_key y \<noteq> snapshot_key item"
    by (fastforce simp: snapshot_keys_set split: option.splits)
  with replaced show ?thesis by (auto simp: filter_empty_conv)
qed

lemma push_snapshot_unkeyed:
  "filter (\<lambda>x. snapshot_key x = None) (push_transcript_replay_snapshot ts item) =
     filter (\<lambda>x. snapshot_key x = None) (ts @ (if snapshot_key item = None then [item] else []))"
  by (cases rule: push_snapshot_cases[of ts item]) auto

text \<open>The replay items of a path, in order, and the transcript made of them.\<close>

definition replay_of :: "session_entry \<Rightarrow> replay_item option" where
  "replay_of e = (case kind e of TranscriptReplay item \<Rightarrow> Some item | _ \<Rightarrow> None)"

lemma push_entry_replay_eq:
  "push_entry_replay ts e =
     (case replay_of e of None \<Rightarrow> ts | Some item \<Rightarrow> push_transcript_replay_snapshot ts item)"
  by (auto simp: push_entry_replay_def replay_of_def split: entry_kind.splits)

lemma explicit_transcript_snoc:
  "explicit_transcript_from_path (path @ [e]) = push_entry_replay (explicit_transcript_from_path path) e"
  by (simp add: explicit_transcript_from_path_def)

lemma explicit_transcript_distinct: "distinct (snapshot_keys (explicit_transcript_from_path path))"
proof (induction path rule: rev_induct)
  case Nil
  then show ?case by (simp add: explicit_transcript_from_path_def)
next
  case (snoc e path)
  then show ?case
    by (auto simp: explicit_transcript_snoc push_entry_replay_eq push_snapshot_distinct split: option.splits)
qed

lemma explicit_transcript_keyed:
  "filter (\<lambda>x. snapshot_key x = Some k) (explicit_transcript_from_path path) =
     (case last_opt (filter (\<lambda>x. snapshot_key x = Some k) (filter_map replay_of path)) of
        None \<Rightarrow> [] | Some item \<Rightarrow> [item])"
proof (induction path rule: rev_induct)
  case Nil
  then show ?case by (simp add: explicit_transcript_from_path_def)
next
  case (snoc e path)
  show ?case
  proof (cases "replay_of e")
    case None
    with snoc show ?thesis by (simp add: explicit_transcript_snoc push_entry_replay_eq)
  next
    case (Some item)
    with snoc push_snapshot_find[OF explicit_transcript_distinct, of k path item] show ?thesis
      by (simp add: explicit_transcript_snoc push_entry_replay_eq)
  qed
qed

lemma explicit_transcript_unkeyed:
  "filter (\<lambda>x. snapshot_key x = None) (explicit_transcript_from_path path) =
     filter (\<lambda>x. snapshot_key x = None) (filter_map replay_of path)"
proof (induction path rule: rev_induct)
  case Nil
  then show ?case by (simp add: explicit_transcript_from_path_def)
next
  case (snoc e path)
  then show ?case
    by (cases "replay_of e")
      (auto simp: explicit_transcript_snoc push_entry_replay_eq push_snapshot_unkeyed)
qed

section \<open>Which entries the state carries\<close>

lemma latest_compaction_snoc:
  "latest_compaction (path @ [e]) =
     (case compaction_of e of Some c \<Rightarrow> Some c | None \<Rightarrow> latest_compaction path)"
  by (simp add: latest_compaction_def split: option.splits)

lemma latest_compaction_None: "latest_compaction path = None \<longleftrightarrow> (\<forall>e\<in>set path. compaction_of e = None)"
  by (simp add: latest_compaction_def find_map_None)

lemma latest_compaction_append_None:
  "\<forall>e\<in>set post. compaction_of e = None \<Longrightarrow> latest_compaction (pre @ post) = latest_compaction pre"
  by (induction post rule: rev_induct)
     (auto simp: latest_compaction_snoc simp flip: append_assoc)

lemma latest_compaction_split:
  "kind c = Compaction summary f n \<Longrightarrow> \<forall>e\<in>set post. compaction_of e = None \<Longrightarrow>
     latest_compaction (pre @ c # post) = Some (entry_id c, summary, f)"
  using latest_compaction_append_None[of post "pre @ [c]"]
  by (simp add: latest_compaction_snoc compaction_of_def)

lemma item_entry_position_split:
  assumes "path = as @ k # bs" "entry_id k = f" "item_of k \<noteq> None"
    "\<forall>a\<in>set as. \<not> (entry_id a = f \<and> item_of a \<noteq> None)"
  shows "item_entry_position path f = Some (length as)"
  using assms by (auto simp: item_entry_position_def position_Some nth_append)

lemma resolve_state_plain:
  "\<forall>e\<in>set path. compaction_of e = None \<Longrightarrow>
     resolve_state_from_path path = Ok (assemble_state path [] None 0)"
  by (simp add: resolve_state_from_path_def latest_compaction_None[THEN iffD2])

lemma resolve_state_compacted:
  assumes "path = pre @ c # post" "kind c = Compaction summary f n"
    "\<forall>e\<in>set post. compaction_of e = None"
    "path = as @ k # bs" "entry_id k = f" "item_of k \<noteq> None"
    "\<forall>a\<in>set as. \<not> (entry_id a = f \<and> item_of a \<noteq> None)"
  shows "resolve_state_from_path path = Ok (assemble_state path
     [\<lparr>resolved_entry_id = entry_id c, resolved_value = item_system [Text summary]\<rparr>]
     (Some summary) (length as))"
  using latest_compaction_split[OF assms(2,3), of pre] item_entry_position_split[OF assms(4-7)] assms(1)
  by (simp add: resolve_state_from_path_def)

lemma resolve_state_from_path_Err:
  assumes "resolve_state_from_path path = Err err"
  shows "\<exists>f. err = InvalidCompactionTarget f \<and>
     (\<forall>e\<in>set path. \<not> (entry_id e = f \<and> item_of e \<noteq> None))"
  using assms
  by (auto simp: resolve_state_from_path_def result_iffs item_entry_position_def position_None
      split: option.splits prod.splits)

lemma latest_config_last:
  "foldl latest_config_step a path =
     (case last_opt (filter_map (\<lambda>e. case kind e of ConfigChange s \<Rightarrow> Some s | _ \<Rightarrow> None) path) of
        None \<Rightarrow> a | Some s \<Rightarrow> Some s)"
  by (induction path rule: rev_induct)
     (auto simp: latest_config_step_def split: entry_kind.splits option.splits)

context entry_log begin

lemma resolve_state_on_path:
  assumes "invar s" "leaf \<in> entry_id ` set (entries_of s)"
  shows "\<exists>e\<in>set (entries_of s). resolve_state (entries_of s) leaf =
     resolve_state_from_path (ancestry (index_of (entries_of s)) e)"
  using path_total[OF assms] by (auto simp: resolve_state_def index_total[OF assms(1)])

lemma resolve_only_compaction_fails:
  assumes "invar s" "leaf \<in> entry_id ` set (entries_of s)" "resolve_state (entries_of s) leaf = Err err"
  shows "\<exists>f. err = InvalidCompactionTarget f"
  using resolve_state_on_path[OF assms(1,2)] assms(3) resolve_state_from_path_Err by fastforce

end

end
