(* ===== verification/Preview.thy ===== *)
theory Preview
  imports Resolve
begin

text \<open>
  Rows of the session tree and their preview text, \<^verbatim>\<open>session_tree/preview.rs\<close>.  An entry is a
  row of the tree when it holds a user, assistant, tool-result or reasoning item; everything
  else is hidden.  A row's preview is taken from the replay snapshots hidden below it, with
  a fallback made from the item.  The search below a row keeps a stack and a visited set, as
  the code does; the stack's top is the head of the list.
\<close>

section \<open>Rows\<close>

datatype row_kind = RowUser | RowAssistant | RowTool | RowReasoning

definition item_row_kind :: "conversation_item \<Rightarrow> row_kind option" where
  "item_row_kind item =
     (case item_role item of
        Some User \<Rightarrow> Some RowUser
      | Some Assistant \<Rightarrow> Some RowAssistant
      | Some System \<Rightarrow> None
      | None \<Rightarrow> (case item of
            ToolResult _ _ _ \<Rightarrow> Some RowTool
          | Reasoning _ _ _ \<Rightarrow> Some RowReasoning
          | Message _ _ \<Rightarrow> None))"

definition session_tree_row_kind :: "session_entry \<Rightarrow> row_kind option" where
  "session_tree_row_kind e = (case kind e of Item item \<Rightarrow> item_row_kind item | _ \<Rightarrow> None)"

definition visible_descendant_row_kind :: "session_entry \<Rightarrow> resolve_error + row_kind" where
  "visible_descendant_row_kind e = ok_or (InvalidTreeRow (entry_id e)) (session_tree_row_kind e)"

abbreviation is_row :: "session_entry \<Rightarrow> bool" where
  "is_row e \<equiv> session_tree_row_kind e \<noteq> None"

definition visible_ids :: "session_entry list \<Rightarrow> ustring set" where
  "visible_ids entries = entry_id ` set (filter is_row entries)"

lemma row_has_item: "session_tree_row_kind e = Some k \<Longrightarrow> \<exists>item. item_of e = Some item \<and> kind e = Item item"
  by (auto simp: session_tree_row_kind_def item_of_def split: entry_kind.splits)

lemma row_not_leaf: "is_row e \<Longrightarrow> \<not> is_leaf_kind (kind e)"
  by (auto dest: row_has_item)

lemma visible_ids_iff:
  "distinct (map entry_id entries) \<Longrightarrow> e \<in> set entries \<Longrightarrow> entry_id e \<in> visible_ids entries \<longleftrightarrow> is_row e"
  by (auto simp: visible_ids_def distinct_map dest: inj_onD)

lemma visible_ids_subset: "visible_ids entries \<subseteq> entry_id ` set entries"
  by (auto simp: visible_ids_def)

section \<open>The replay snapshots hidden below a row\<close>

type_synonym children_map = "(ustring \<times> session_entry list) list"

definition child_ids :: "children_map \<Rightarrow> ustring set" where
  "child_ids m = entry_id ` (\<Union>cs\<in>snd ` set m. set cs)"

lemma finite_child_ids [simp]: "finite (child_ids m)"
  by (simp add: child_ids_def)

lemma child_ids_get: "c \<in> set (get_or_empty m k) \<Longrightarrow> entry_id c \<in> child_ids m"
proof -
  assume c: "c \<in> set (get_or_empty m k)"
  then obtain cs where "map_of m k = Some cs" "c \<in> set cs"
    by (cases "map_of m k") (auto simp: get_or_empty_def)
  then have "cs \<in> snd ` set m" "c \<in> set cs" by (force dest: map_of_SomeD)+
  then show ?thesis by (auto simp: child_ids_def)
qed

lemma child_ids_lookup: "map_of m k = Some cs \<Longrightarrow> c \<in> set cs \<Longrightarrow> entry_id c \<in> child_ids m"
  using child_ids_get[of c m k] by (simp add: get_or_empty_def)

function replay_dfs ::
  "children_map \<Rightarrow> session_entry list \<Rightarrow> ustring set \<Rightarrow> replay_item list \<Rightarrow> replay_item list" where
  "replay_dfs children [] visited acc = acc"
| "replay_dfs children (child # stack) visited acc =
     (if entry_id child \<in> visited then replay_dfs children stack visited acc
      else if is_row child then replay_dfs children stack (insert (entry_id child) visited) acc
      else replay_dfs children (get_or_empty children (entry_id child) @ stack)
             (insert (entry_id child) visited) (push_entry_replay acc child))"
  by pat_completeness auto
termination
proof (relation "measures [\<lambda>(m, stack, visited, acc). card (child_ids m \<union> entry_id ` set stack - visited),
      \<lambda>(m, stack, visited, acc). length stack]", goal_cases)
  case (2 m child stack visited acc)
  then have "child_ids m \<union> entry_id ` set stack - visited
      = child_ids m \<union> entry_id ` set (child # stack) - visited" by auto
  then show ?case by simp
next
  case (3 m child stack visited acc)
  then have "child_ids m \<union> entry_id ` set stack - insert (entry_id child) visited
      \<subset> child_ids m \<union> entry_id ` set (child # stack) - visited" by auto
  then show ?case by (simp add: psubset_card_mono)
next
  case (4 m child stack visited acc)
  then have "child_ids m \<union> entry_id ` set (get_or_empty m (entry_id child) @ stack)
        - insert (entry_id child) visited
      \<subset> child_ids m \<union> entry_id ` set (child # stack) - visited" by (auto dest: child_ids_get)
  then show ?case by (simp add: psubset_card_mono)
qed simp

definition transcript_replay_descendants :: "session_entry \<Rightarrow> children_map \<Rightarrow> replay_item list" where
  "transcript_replay_descendants e children =
     replay_dfs children (get_or_empty children (entry_id e)) {} []"

section \<open>Preview text\<close>

definition non_empty_preview_content :: "ustring \<Rightarrow> ustring option" where
  "non_empty_preview_content s = (if utrim s \<noteq> [] then Some s else None)"

fun activity_content_preview_text :: "activity_content \<Rightarrow> ustring option" where
  "activity_content_preview_text (ActText t) = non_empty_preview_content t"
| "activity_content_preview_text (ActUnknown t) = non_empty_preview_content t"
| "activity_content_preview_text (ActResource _ _ (Some t)) = non_empty_preview_content t"
| "activity_content_preview_text (ActResourceLink uri name title) =
     or_else (or_else (Option.bind title non_empty_preview_content) (non_empty_preview_content name))
       (non_empty_preview_content uri)"
| "activity_content_preview_text (ActDiff path _ new_text _) =
     non_empty_preview_content (path @ [10] @ new_text)"
| "activity_content_preview_text (ActTerminal tid) = non_empty_preview_content tid"
| "activity_content_preview_text (ActImage mime uri) =
     non_empty_preview_content
       (case (case uri of Some u \<Rightarrow> if utrim u \<noteq> [] then Some u else None | None \<Rightarrow> None) of
          Some u \<Rightarrow> lit ''[Attached image: '' @ mime @ lit '' '' @ u @ lit '']''
        | None \<Rightarrow> lit ''[Attached image: '' @ mime @ lit '']'')"
| "activity_content_preview_text (ActAudio mime) =
     non_empty_preview_content (lit ''[Attached audio: '' @ mime @ lit '']'')"
| "activity_content_preview_text (ActResource _ _ None) = None"

definition tool_activity_preview_content :: "json_api \<Rightarrow> tool_activity \<Rightarrow> ustring option" where
  "tool_activity_preview_content J a =
     (case Option.bind (Option.bind (raw_output a) (display_text J)) non_empty_preview_content of
        Some content \<Rightarrow> Some content
      | None \<Rightarrow>
          or_else (non_empty_preview_content
                     (ujoin [10] (filter_map activity_content_preview_text (activity_content a))))
                  (non_empty_preview_content (activity_title a)))"

fun replay_item_preview_content :: "json_api \<Rightarrow> replay_item \<Rightarrow> row_kind \<Rightarrow> ustring option" where
  "replay_item_preview_content J (ReplayMessage ReplayUser content) RowUser =
     non_empty_preview_content content"
| "replay_item_preview_content J (ReplayMessage ReplayAssistant content) RowAssistant =
     non_empty_preview_content content"
| "replay_item_preview_content J (ReplayReasoning content) RowReasoning =
     non_empty_preview_content content"
| "replay_item_preview_content J (ReplayToolResult content) RowTool =
     non_empty_preview_content content"
| "replay_item_preview_content J (ReplayToolActivity a) RowTool = tool_activity_preview_content J a"
| "replay_item_preview_content J _ _ = None"

definition transcript_replay_preview_content ::
  "json_api \<Rightarrow> session_entry \<Rightarrow> row_kind \<Rightarrow> children_map \<Rightarrow> ustring option" where
  "transcript_replay_preview_content J e k children =
     foldl (\<lambda>preview item. or_else (replay_item_preview_content J item k) preview) None
       (transcript_replay_descendants e children)"

definition assistant_tool_call_summary :: "conversation_item \<Rightarrow> ustring" where
  "assistant_tool_call_summary item =
     (let names = map tool_name (tool_calls item)
      in if names = [] then lit ''assistant message''
         else lit ''tool call: '' @ ujoin (lit '', '') names)"

definition fallback_preview_content :: "session_entry \<Rightarrow> row_kind \<Rightarrow> ustring" where
  "fallback_preview_content e k =
     (case kind e of
        Item item \<Rightarrow>
          (case item of
             Reasoning content _ _ \<Rightarrow> content
           | Message Assistant _ \<Rightarrow>
               if utrim (text_content item) = [] then assistant_tool_call_summary item
               else summary_text_content item
           | ToolResult cid _ _ \<Rightarrow>
               if utrim (summary_text_content item) = [] then lit ''tool result '' @ cid
               else summary_text_content item
           | _ \<Rightarrow> summary_text_content item)
      | _ \<Rightarrow> (case k of
            RowUser \<Rightarrow> lit ''user message''
          | RowAssistant \<Rightarrow> lit ''assistant message''
          | RowTool \<Rightarrow> lit ''tool result''
          | RowReasoning \<Rightarrow> lit ''reasoning''))"

definition row_preview_content ::
  "json_api \<Rightarrow> session_entry \<Rightarrow> row_kind \<Rightarrow> children_map \<Rightarrow> ustring" where
  "row_preview_content J e k children =
     (case transcript_replay_preview_content J e k children of
        Some content \<Rightarrow> content
      | None \<Rightarrow> fallback_preview_content e k)"

definition pretty_tool_call_arguments :: "json_api \<Rightarrow> ustring \<Rightarrow> ustring" where
  "pretty_tool_call_arguments J args0 =
     (let args = (if utrim args0 = [] then lit ''{}'' else args0)
      in case Option.bind (json_parse J args) (json_pretty J) of Some s \<Rightarrow> s | None \<Rightarrow> args)"

definition tool_call_debug_section :: "json_api \<Rightarrow> tool_call \<Rightarrow> ustring" where
  "tool_call_debug_section J call =
     lit ''Tool call `'' @ tool_name call @ lit ''` ('' @ call_id call @ lit '')'' @ [10]
     @ lit ''```json'' @ [10] @ pretty_tool_call_arguments J (arguments call) @ [10] @ lit ''```''"

definition assistant_debug_preview_content :: "json_api \<Rightarrow> conversation_item \<Rightarrow> ustring \<Rightarrow> ustring" where
  "assistant_debug_preview_content J item visible_content =
     ujoin [10, 10] ((if utrim visible_content \<noteq> [] then [visible_content] else [])
       @ map (tool_call_debug_section J) (tool_calls item))"

definition assistant_preview_replay_items ::
  "json_api \<Rightarrow> session_entry \<Rightarrow> ustring \<Rightarrow> replay_item list" where
  "assistant_preview_replay_items J e visible_content =
     (case non_empty_preview_content
         (case item_of e of
            None \<Rightarrow> visible_content
          | Some item \<Rightarrow> assistant_debug_preview_content J item visible_content) of
        None \<Rightarrow> []
      | Some content \<Rightarrow> [ReplayMessage ReplayAssistant content])"

fun is_tool_replay :: "replay_item \<Rightarrow> bool" where
  "is_tool_replay (ReplayToolActivity _) = True"
| "is_tool_replay (ReplayTerminalSnapshot _) = True"
| "is_tool_replay (ReplayToolResult _) = True"
| "is_tool_replay _ = False"

definition row_preview_replay_items ::
  "json_api \<Rightarrow> session_entry \<Rightarrow> row_kind \<Rightarrow> children_map \<Rightarrow> replay_item list" where
  "row_preview_replay_items J e k children =
     (case k of
        RowAssistant \<Rightarrow> assistant_preview_replay_items J e (row_preview_content J e k children)
      | RowTool \<Rightarrow>
          (let replays = filter is_tool_replay (transcript_replay_descendants e children)
           in if replays = [] then [ReplayToolResult (fallback_preview_content e k)] else replays)
      | RowUser \<Rightarrow> [ReplayMessage ReplayUser (row_preview_content J e k children)]
      | RowReasoning \<Rightarrow> [ReplayReasoning (row_preview_content J e k children)])"

definition single_line_display_text :: "ustring \<Rightarrow> ustring" where
  "single_line_display_text s = ujoin [32] (split_whitespace s)"

section \<open>What the previews guarantee\<close>

text \<open>A display line holds no line break and no other control white space.\<close>

lemma split_whitespace_no_ws: "w \<in> set (split_whitespace s) \<Longrightarrow> \<forall>c\<in>set w. \<not> is_whitespace c"
proof (induction s rule: split_whitespace.induct)
  case (2 c cs)
  show ?case
  proof (cases "is_whitespace c")
    case True
    with "2.prems" have "w \<in> set (split_whitespace cs)" by simp
    with "2.IH"(1) True show ?thesis by blast
  next
    case False
    with "2.prems" consider "w = c # takeWhile (Not \<circ> is_whitespace) cs"
      | "w \<in> set (split_whitespace (dropWhile (Not \<circ> is_whitespace) cs))" by auto
    then show ?thesis
    proof cases
      case 1
      with False show ?thesis using set_takeWhileD[of _ "Not \<circ> is_whitespace" cs] by auto
    next
      case 2
      with "2.IH"(2) False show ?thesis by blast
    qed
  qed
qed simp

lemma set_ujoin: "set (ujoin sep xs) \<subseteq> set sep \<union> (\<Union>x\<in>set xs. set x)"
  by (induction sep xs rule: ujoin.induct) auto

lemma single_line_display_text_chars:
  "c \<in> set (single_line_display_text s) \<Longrightarrow> is_whitespace c \<Longrightarrow> c = 32"
proof -
  assume c: "c \<in> set (single_line_display_text s)" and ws: "is_whitespace c"
  from c have "c \<in> set (ujoin [32] (split_whitespace s))"
    unfolding single_line_display_text_def .
  with set_ujoin[of "[32]" "split_whitespace s"]
  have "c \<in> set [32] \<union> (\<Union>w\<in>set (split_whitespace s). set w)" by (rule subsetD)
  then show "c = 32"
  proof
    assume "c \<in> (\<Union>w\<in>set (split_whitespace s). set w)"
    then obtain w where "w \<in> set (split_whitespace s)" "c \<in> set w" by blast
    from split_whitespace_no_ws[OF this(1)] this(2) ws show ?thesis by blast
  qed simp
qed

text \<open>The replay search collects only snapshots of hidden entries below the row.\<close>

inductive hidden_below :: "children_map \<Rightarrow> ustring \<Rightarrow> session_entry \<Rightarrow> bool" for children where
  child: "c \<in> set (get_or_empty children i) \<Longrightarrow> \<not> is_row c \<Longrightarrow> hidden_below children i c"
| deeper: "hidden_below children i c \<Longrightarrow> d \<in> set (get_or_empty children (entry_id c)) \<Longrightarrow>
     \<not> is_row d \<Longrightarrow> hidden_below children i d"

lemma push_snapshot_set: "set (push_transcript_replay_snapshot ts item) \<subseteq> insert item (set ts)"
  by (cases rule: push_snapshot_cases[of ts item]) auto

lemma replay_dfs_sound:
  assumes "x \<in> set (replay_dfs children stack visited acc)"
    "\<And>y. y \<in> set acc \<Longrightarrow> \<exists>c. hidden_below children i c \<and> kind c = TranscriptReplay y"
    "\<And>c. c \<in> set stack \<Longrightarrow> \<not> is_row c \<Longrightarrow> hidden_below children i c"
  shows "\<exists>c. hidden_below children i c \<and> kind c = TranscriptReplay x"
  using assms
proof (induction children stack visited acc rule: replay_dfs.induct)
  case (2 children child stack visited acc)
  consider "entry_id child \<in> visited" | "entry_id child \<notin> visited" "is_row child"
    | "entry_id child \<notin> visited" "\<not> is_row child" by blast
  then show ?case
  proof cases
    case 3
    then have hidden: "hidden_below children i child" using "2.prems"(3) by simp
    show ?thesis
    proof (rule "2.IH"(3))
      show "x \<in> set (replay_dfs children (get_or_empty children (entry_id child) @ stack)
          (insert (entry_id child) visited) (push_entry_replay acc child))"
        using "2.prems"(1) 3 by simp
      show "\<exists>c. hidden_below children i c \<and> kind c = TranscriptReplay y"
        if "y \<in> set (push_entry_replay acc child)" for y
        using that "2.prems"(2) hidden push_snapshot_set
        by (fastforce simp: push_entry_replay_def split: entry_kind.splits)
      show "hidden_below children i c"
        if "c \<in> set (get_or_empty children (entry_id child) @ stack)" "\<not> is_row c" for c
        using that "2.prems"(3) hidden by (auto intro: hidden_below.deeper)
    qed (use 3 in auto)
  qed (use 2 in auto)
qed auto

lemma transcript_replay_descendants_sound:
  "x \<in> set (transcript_replay_descendants e children) \<Longrightarrow>
     \<exists>c. hidden_below children (entry_id e) c \<and> kind c = TranscriptReplay x"
  unfolding transcript_replay_descendants_def
  by (rule replay_dfs_sound) (auto intro: hidden_below.child)

lemma non_empty_preview_content_not_blank:
  "non_empty_preview_content s = Some t \<Longrightarrow> utrim t \<noteq> []"
  by (auto simp: non_empty_preview_content_def split: if_splits)

end
