(* ===== verification/Rewind.thy ===== *)
theory Rewind
  imports Preview Entry_Log
begin

text \<open>
  Where a rewind from a tree row lands, \<^verbatim>\<open>session_tree/rewind.rs\<close>.  A row that belongs to a batch of
  tool calls can only be rewound to once every call of the batch has its result; otherwise
  the target is the row itself or the last hidden entry that restores the session's state at
  the row.  \<open>unanswered\<close> states the batch condition on the items of a path alone.
\<close>

section \<open>The code\<close>

type_synonym target_map = "(ustring \<times> ustring) list"
type_synonym batch_map = "(ustring \<times> ustring option) list"

definition rewind_target_before_user_row :: "session_entry \<Rightarrow> ustring" where
  "rewind_target_before_user_row e = (case parent_id e of None \<Rightarrow> lit ''header'' | Some p \<Rightarrow> p)"

definition default_rewind_target_for_visible_row :: "session_entry \<Rightarrow> target_map \<Rightarrow> ustring" where
  "default_rewind_target_for_visible_row e targets =
     (case map_of targets (entry_id e) of None \<Rightarrow> entry_id e | Some t \<Rightarrow> t)"

definition tool_call_ids :: "conversation_item \<Rightarrow> ustring set" where
  "tool_call_ids item = set (map call_id (tool_calls item))"

definition open_batch :: "batch_map \<Rightarrow> session_entry \<Rightarrow> conversation_item \<Rightarrow> batch_map \<times> ustring set option" where
  "open_batch batch e item =
     (if tool_call_ids item = {} then (batch, None)
      else (AList.update (entry_id e) None batch, Some (tool_call_ids item)))"

definition batch_step ::
  "target_map \<Rightarrow> batch_map \<times> ustring set option \<Rightarrow> session_entry \<Rightarrow> batch_map \<times> ustring set option" where
  "batch_step targets state e =
     (case state of (batch, pending) \<Rightarrow>
      (case item_of e of
         None \<Rightarrow> (batch, pending)
       | Some item \<Rightarrow>
          (case pending of
             None \<Rightarrow> open_batch batch e item
           | Some ids \<Rightarrow>
              (case item of
                 ToolResult cid _ _ \<Rightarrow>
                   (let rest = ids - {cid};
                        target = (if rest = {} then Some (default_rewind_target_for_visible_row e targets)
                                  else None)
                    in (AList.update (entry_id e) target batch,
                        if target \<noteq> None then None else Some rest))
               | _ \<Rightarrow> open_batch batch e item))))"

definition tool_call_batch_rewind_targets_for_path ::
  "session_entry list \<Rightarrow> target_map \<Rightarrow> batch_map" where
  "tool_call_batch_rewind_targets_for_path path targets =
     fst (foldl (batch_step targets) ([], None) path)"

definition assistant_or_tool_rewind_target ::
  "session_entry \<Rightarrow> target_map \<Rightarrow> batch_map \<Rightarrow> ustring option" where
  "assistant_or_tool_rewind_target e targets batch =
     (case map_of batch (entry_id e) of
        Some target \<Rightarrow> target
      | None \<Rightarrow> Some (default_rewind_target_for_visible_row e targets))"

definition is_recoverable_hidden_tree_entry :: "session_entry \<Rightarrow> bool" where
  "is_recoverable_hidden_tree_entry e =
     (case kind e of
        Compaction _ _ _ \<Rightarrow> True
      | BranchSummary _ _ \<Rightarrow> True
      | ConfigChange _ \<Rightarrow> True
      | TranscriptReplay _ \<Rightarrow> True
      | _ \<Rightarrow> False)"

function owning_assistant_loop ::
  "ustring set \<Rightarrow> children_map \<Rightarrow> target_map \<Rightarrow> batch_map \<Rightarrow> ustring set \<Rightarrow> session_entry
     \<Rightarrow> ustring option" where
  "owning_assistant_loop visible children targets batch visited current =
     (if entry_id current \<in> visited then None
      else (case filter (\<lambda>c. entry_id c \<in> visible \<or> is_recoverable_hidden_tree_entry c)
                   (get_or_empty children (entry_id current)) of
              [nxt] \<Rightarrow>
                if entry_id nxt \<in> visible
                then (if session_tree_row_kind nxt = Some RowAssistant
                      then assistant_or_tool_rewind_target nxt targets batch else None)
                else owning_assistant_loop visible children targets batch
                       (insert (entry_id current) visited) nxt
            | _ \<Rightarrow> None))"
  by pat_completeness auto

definition owning_assistant_for_reasoning ::
  "session_entry \<Rightarrow> ustring set \<Rightarrow> children_map \<Rightarrow> target_map \<Rightarrow> batch_map \<Rightarrow> ustring option" where
  "owning_assistant_for_reasoning reasoning visible children targets batch =
     owning_assistant_loop visible children targets batch {} reasoning"

definition next_hidden ::
  "ustring set \<Rightarrow> children_map \<Rightarrow> ustring set \<Rightarrow> ustring \<Rightarrow> session_entry option" where
  "next_hidden visible children active i =
     (case map_of children i of
        None \<Rightarrow> None
      | Some cs \<Rightarrow>
          (let hidden = filter is_recoverable_hidden_tree_entry (filter (\<lambda>c. entry_id c \<notin> visible) cs)
           in or_else (List.find (\<lambda>c. entry_id c \<in> active) hidden) (last_opt hidden)))"

lemma next_hidden_Some:
  "next_hidden visible children active i = Some c \<Longrightarrow>
     c \<in> set (get_or_empty children i) \<and> entry_id c \<notin> visible \<and> is_recoverable_hidden_tree_entry c"
proof -
  assume "next_hidden visible children active i = Some c"
  then obtain cs where cs: "map_of children i = Some cs"
    and "or_else (List.find (\<lambda>c. entry_id c \<in> active)
           (filter is_recoverable_hidden_tree_entry (filter (\<lambda>c. entry_id c \<notin> visible) cs)))
         (last_opt (filter is_recoverable_hidden_tree_entry (filter (\<lambda>c. entry_id c \<notin> visible) cs))) = Some c"
    by (auto simp: next_hidden_def Let_def split: option.splits)
  then have "c \<in> set (filter is_recoverable_hidden_tree_entry (filter (\<lambda>c. entry_id c \<notin> visible) cs))"
    by (auto simp: or_else_def last_opt_eq find_Some_iff simp del: set_filter
        split: option.splits if_splits dest: last_in_set)
  with cs show ?thesis by (simp add: get_or_empty_def)
qed

function restore_target_loop ::
  "ustring set \<Rightarrow> children_map \<Rightarrow> ustring set \<Rightarrow> ustring set \<Rightarrow> session_entry \<Rightarrow> session_entry" where
  "restore_target_loop visible children active visited target =
     (if entry_id target \<in> visited then target
      else (case next_hidden visible children active (entry_id target) of
              None \<Rightarrow> target
            | Some nxt \<Rightarrow> restore_target_loop visible children active (insert (entry_id target) visited) nxt))"
  by pat_completeness auto

definition restore_target_for_visible_row ::
  "session_entry \<Rightarrow> ustring set \<Rightarrow> children_map \<Rightarrow> ustring set \<Rightarrow> ustring" where
  "restore_target_for_visible_row e visible children active =
     entry_id (restore_target_loop visible children active {} e)"

definition rewind_target_for_tree_row ::
  "session_entry \<Rightarrow> row_kind \<Rightarrow> ustring set \<Rightarrow> target_map \<Rightarrow> batch_map \<Rightarrow> children_map \<Rightarrow> ustring option" where
  "rewind_target_for_tree_row e k visible targets batch children =
     (case k of
        RowUser \<Rightarrow> Some (rewind_target_before_user_row e)
      | RowReasoning \<Rightarrow> owning_assistant_for_reasoning e visible children targets batch
      | _ \<Rightarrow> assistant_or_tool_rewind_target e targets batch)"

section \<open>Termination of the two walks down\<close>

lemma fresh_child_decreases:
  assumes "entry_id current \<notin> visited" "entry_id nxt \<in> child_ids children"
  shows "card (insert (entry_id nxt) (child_ids children) - insert (entry_id current) visited)
       < card (insert (entry_id current) (child_ids children) - visited)"
  using assms by (intro psubset_card_mono) auto

termination owning_assistant_loop
proof (relation "measure (\<lambda>(visible, children, targets, batch, visited, current).
      card (insert (entry_id current) (child_ids children) - visited))", goal_cases)
  case (2 visible children targets batch visited current nxt rest)
  then have "nxt \<in> set (filter (\<lambda>c. entry_id c \<in> visible \<or> is_recoverable_hidden_tree_entry c)
      (get_or_empty children (entry_id current)))" by simp
  then have "entry_id nxt \<in> child_ids children" by (auto dest: child_ids_get)
  with 2 fresh_child_decreases show ?case by simp
qed simp

termination restore_target_loop
proof (relation "measure (\<lambda>(visible, children, active, visited, target).
      card (insert (entry_id target) (child_ids children) - visited))", goal_cases)
  case (2 visible children active visited target nxt)
  then have "entry_id nxt \<in> child_ids children" by (auto dest!: next_hidden_Some child_ids_get)
  with 2 fresh_child_decreases show ?case by simp
qed simp

declare owning_assistant_loop.simps [simp del] restore_target_loop.simps [simp del]

section \<open>The batch condition on items\<close>

text \<open>
  The calls left open at the end of a conversation: those of the last item that is not a tool
  result, less the results that follow it.
\<close>

definition result_call_id :: "conversation_item \<Rightarrow> ustring option" where
  "result_call_id item = (case item of ToolResult cid _ _ \<Rightarrow> Some cid | _ \<Rightarrow> None)"

definition unanswered :: "conversation_item list \<Rightarrow> ustring set" where
  "unanswered its =
     (case dropWhile (\<lambda>i. result_call_id i \<noteq> None) (rev its) of
        [] \<Rightarrow> {}
      | opener # _ \<Rightarrow> tool_call_ids opener -
          set (filter_map result_call_id (takeWhile (\<lambda>i. result_call_id i \<noteq> None) (rev its))))"

lemma unanswered_Nil [simp]: "unanswered [] = {}"
  by (simp add: unanswered_def)

lemma unanswered_of_rev:
  assumes "result_call_id item = Some cid"
  shows "(case dropWhile (\<lambda>i. result_call_id i \<noteq> None) (item # r) of
        [] \<Rightarrow> {}
      | opener # _ \<Rightarrow> tool_call_ids opener -
          set (filter_map result_call_id (takeWhile (\<lambda>i. result_call_id i \<noteq> None) (item # r))))
    = (case dropWhile (\<lambda>i. result_call_id i \<noteq> None) r of
        [] \<Rightarrow> {}
      | opener # _ \<Rightarrow> tool_call_ids opener -
          set (filter_map result_call_id (takeWhile (\<lambda>i. result_call_id i \<noteq> None) r))) - {cid}"
proof (cases "dropWhile (\<lambda>i. result_call_id i \<noteq> None) r")
  case Nil
  show ?thesis using assms by (simp add: Nil del: not_None_eq)
next
  case (Cons opener rest)
  show ?thesis using assms by (simp add: Cons del: not_None_eq) blast
qed

lemma unanswered_result:
  "result_call_id item = Some cid \<Longrightarrow> unanswered (its @ [item]) = unanswered its - {cid}"
  unfolding unanswered_def rev_append rev.simps append.simps by (rule unanswered_of_rev)

lemma unanswered_opener:
  "result_call_id item = None \<Longrightarrow> unanswered (its @ [item]) = tool_call_ids item"
  by (simp add: unanswered_def)

lemma tool_call_ids_result: "result_call_id item \<noteq> None \<Longrightarrow> tool_call_ids item = {}"
  by (cases item) (auto simp: result_call_id_def tool_call_ids_def)

definition path_items :: "session_entry list \<Rightarrow> conversation_item list" where
  "path_items path = filter_map item_of path"

lemma path_items_snoc:
  "path_items (path @ [e]) = path_items path @ (case item_of e of None \<Rightarrow> [] | Some i \<Rightarrow> [i])"
  by (simp add: path_items_def split: option.splits)

definition pending_of :: "conversation_item list \<Rightarrow> ustring set option" where
  "pending_of its = (if unanswered its = {} then None else Some (unanswered its))"

text \<open>One step of the scan, stated over the calls left open before and after the entry.\<close>

lemma batch_step_item:
  assumes "item_of e = Some item"
  shows "batch_step targets (batch, pending_of its) e =
     ((if unanswered (its @ [item]) \<noteq> {} then AList.update (entry_id e) None batch
       else if unanswered its \<noteq> {} \<and> result_call_id item \<noteq> None
       then AList.update (entry_id e) (Some (default_rewind_target_for_visible_row e targets)) batch
       else batch),
      pending_of (its @ [item]))"
proof (cases "result_call_id item")
  case None
  then have "\<And>cid b s. item \<noteq> ToolResult cid b s" by (auto simp: result_call_id_def)
  with None assms show ?thesis
    by (auto simp: batch_step_def pending_of_def unanswered_opener open_batch_def
        split: conversation_item.splits)
next
  case (Some cid)
  then obtain b s where item: "item = ToolResult cid b s"
    by (auto simp: result_call_id_def split: conversation_item.splits)
  from tool_call_ids_result[of item] Some have "tool_call_ids item = {}" by simp
  moreover note unanswered_result[OF Some, of its]
  ultimately show ?thesis using assms Some
    by (cases "unanswered its = {}"; cases "unanswered its - {cid} = {}")
      (simp_all add: item batch_step_def pending_of_def open_batch_def Let_def del: Diff_eq_empty_iff)
qed

definition scan :: "target_map \<Rightarrow> session_entry list \<Rightarrow> batch_map \<times> ustring set option" where
  "scan targets path = foldl (batch_step targets) ([], None) path"

lemma scan_snoc: "scan targets (path @ [e]) = batch_step targets (scan targets path) e"
  by (simp add: scan_def)

lemma scan_pending: "snd (scan targets path) = pending_of (path_items path)"
proof (induction path rule: rev_induct)
  case Nil
  then show ?case by (simp add: scan_def path_items_def pending_of_def)
next
  case (snoc e path)
  then obtain batch where scan: "scan targets path = (batch, pending_of (path_items path))"
    by (metis prod.collapse)
  show ?case
  proof (cases "item_of e")
    case None
    then show ?thesis by (simp add: scan_snoc scan path_items_snoc batch_step_def)
  next
    case (Some item)
    then show ?thesis by (simp add: scan_snoc scan path_items_snoc batch_step_item)
  qed
qed

lemma scan_snoc_batch:
  "map_of (fst (scan targets (path @ [e]))) i =
     (case item_of e of
        None \<Rightarrow> map_of (fst (scan targets path)) i
      | Some item \<Rightarrow>
          if i = entry_id e \<and> unanswered (path_items path @ [item]) \<noteq> {} then Some None
          else if i = entry_id e \<and> unanswered (path_items path) \<noteq> {} \<and> result_call_id item \<noteq> None
          then Some (Some (default_rewind_target_for_visible_row e targets))
          else map_of (fst (scan targets path)) i)"
proof -
  obtain batch where scan: "scan targets path = (batch, pending_of (path_items path))"
    using scan_pending[of targets path] by (metis prod.collapse)
  show ?thesis
  proof (cases "item_of e")
    case None
    then show ?thesis by (simp add: scan_snoc scan batch_step_def)
  next
    case (Some item)
    then show ?thesis unfolding scan_snoc scan batch_step_item[OF Some] by (auto simp: AList.update_conv')
  qed
qed

lemma scan_other: "i \<notin> entry_id ` set path \<Longrightarrow> map_of (fst (scan targets path)) i = None"
proof (induction path rule: rev_induct)
  case Nil
  then show ?case by (simp add: scan_def)
qed (auto simp: scan_snoc_batch split: option.splits)

lemma scan_later:
  "i \<notin> entry_id ` set post \<Longrightarrow>
     map_of (fst (scan targets (pre @ post))) i = map_of (fst (scan targets pre)) i"
proof (induction post rule: rev_induct)
  case (snoc e post)
  then show ?case
    by (auto simp: scan_snoc_batch simp flip: append_assoc split: option.splits)
qed simp

lemma assistant_or_tool_target_on_path:
  assumes "distinct (map entry_id path)" "path = pre @ e # post" "item_of e = Some item"
  shows "assistant_or_tool_rewind_target e targets (tool_call_batch_rewind_targets_for_path path targets) =
     (if unanswered (path_items (pre @ [e])) = {}
      then Some (default_rewind_target_for_visible_row e targets) else None)"
proof -
  from assms have "entry_id e \<notin> entry_id ` set pre" "entry_id e \<notin> entry_id ` set post" by auto
  then have "map_of (fst (scan targets path)) (entry_id e) =
      (if unanswered (path_items pre @ [item]) \<noteq> {} then Some None
       else if unanswered (path_items pre) \<noteq> {} \<and> result_call_id item \<noteq> None
       then Some (Some (default_rewind_target_for_visible_row e targets)) else None)"
    using scan_later[of "entry_id e" post targets "pre @ [e]"] scan_other[of "entry_id e" pre] assms(2,3)
    by (simp add: scan_snoc_batch)
  with assms(3) show ?thesis
    by (simp add: assistant_or_tool_rewind_target_def tool_call_batch_rewind_targets_for_path_def
        path_items_snoc flip: scan_def)
qed

section \<open>The walk down to the restore target\<close>

lemma recoverable_no_item: "is_recoverable_hidden_tree_entry e \<Longrightarrow> item_of e = None"
  by (auto simp: is_recoverable_hidden_tree_entry_def item_of_def split: entry_kind.splits)

lemma ancestry_child:
  assumes "log_wf {} entries" "c \<in> set entries" "q \<in> set entries" "parent_id c = Some (entry_id q)"
  shows "ancestry (index_of entries) c = ancestry (index_of entries) q @ [c]"
proof -
  note lookup = log_wf_lookup[OF assms(1)]
  note g = log_wf_grounded[OF assms(1)]
  have "root_path (index_of entries) c (ancestry (index_of entries) q @ [c])"
    using groundedD(2)[OF g lookup[OF assms(3)]] assms(4) lookup[OF assms(3)]
    by (rule root_path.below[rotated 2])
  with groundedD(2)[OF g lookup[OF assms(2)]] show ?thesis by (rule root_path_unique)
qed

lemma ancestry_self_last:
  assumes "log_wf {} entries" "e \<in> set entries"
  shows "last_opt (ancestry (index_of entries) e) = Some e"
  using root_path_last[OF groundedD(2)[OF log_wf_grounded[OF assms(1)] log_wf_lookup[OF assms]]]
  by (simp add: last_opt_eq)

lemma ancestry_prefix:
  assumes "log_wf {} entries" "l \<in> set entries" "ancestry (index_of entries) l = pre @ e # post"
  shows "e \<in> set entries" "ancestry (index_of entries) e = pre @ [e]"
proof -
  note path = groundedD(2)[OF log_wf_grounded[OF assms(1)] log_wf_lookup[OF assms(1,2)]]
  from root_path_in_index[OF path, of e] assms(3) log_wf_lookup[OF assms(1,2)]
  obtain i where "map_of (index_of entries) i = Some e" by auto
  then show e: "e \<in> set entries" using log_wf_distinct[OF assms(1)] by (simp add: map_of_index_of)
  from root_path_prefix[OF path assms(3)]
    groundedD(2)[OF log_wf_grounded[OF assms(1)] log_wf_lookup[OF assms(1) e]]
  show "ancestry (index_of entries) e = pre @ [e]" by (blast dest: root_path_unique)
qed

lemma restore_target_chain:
  assumes "log_wf {} entries" "e \<in> set entries"
  shows "restore_target_loop visible (build_children_by_parent entries) active visited e \<in> set entries
    \<and> (\<exists>hs. ancestry (index_of entries)
          (restore_target_loop visible (build_children_by_parent entries) active visited e)
          = ancestry (index_of entries) e @ hs
        \<and> (\<forall>h\<in>set hs. is_recoverable_hidden_tree_entry h \<and> entry_id h \<notin> visible))"
  using assms(2)
proof (induction visible "build_children_by_parent entries" active visited e
    rule: restore_target_loop.induct)
  case (1 visible active visited target)
  let ?m = "build_children_by_parent entries"
  show ?case
  proof (cases "entry_id target \<in> visited \<or> next_hidden visible ?m active (entry_id target) = None")
    case True
    then have "restore_target_loop visible ?m active visited target = target"
      by (subst restore_target_loop.simps) auto
    with "1.prems" show ?thesis by simp
  next
    case False
    then obtain nxt where nxt: "next_hidden visible ?m active (entry_id target) = Some nxt" by auto
    from next_hidden_Some[OF nxt] have in_log: "nxt \<in> set entries"
      and parent: "parent_id nxt = Some (entry_id target)"
      and hidden: "entry_id nxt \<notin> visible" "is_recoverable_hidden_tree_entry nxt"
      by (auto simp: hash_simps)
    from False nxt have step: "restore_target_loop visible ?m active visited target =
        restore_target_loop visible ?m active (insert (entry_id target) visited) nxt"
      by (subst restore_target_loop.simps) simp
    from False nxt "1.hyps"[of nxt] in_log ancestry_child[OF assms(1) in_log "1.prems" parent] hidden
    show ?thesis unfolding step by auto
  qed
qed

lemma path_items_hidden:
  "\<forall>h\<in>set hs. is_recoverable_hidden_tree_entry h \<Longrightarrow> path_items (path @ hs) = path_items path"
proof (induction hs rule: rev_induct)
  case (snoc h hs)
  then show ?case
    using recoverable_no_item[of h] by (simp add: path_items_snoc flip: append_assoc)
qed simp

text \<open>The map from rows to restore targets that the projection builds.\<close>

definition restore_targets ::
  "session_entry list \<Rightarrow> ustring set \<Rightarrow> children_map \<Rightarrow> ustring set \<Rightarrow> target_map" where
  "restore_targets entries visible children active =
     map (\<lambda>e. (entry_id e, restore_target_for_visible_row e visible children active))
       (filter (\<lambda>e. entry_id e \<in> visible) entries)"

lemma map_of_keyed_filter:
  "distinct (map entry_id entries) \<Longrightarrow> e \<in> set entries \<Longrightarrow> P e \<Longrightarrow>
     map_of (map (\<lambda>e. (entry_id e, f e)) (filter P entries)) (entry_id e) = Some (f e)"
  by (induction entries) (auto simp: image_iff)

lemma restore_target_default:
  assumes "log_wf {} entries" "e \<in> set entries" "entry_id e \<in> visible"
  shows "default_rewind_target_for_visible_row e (restore_targets entries visible children active)
     = restore_target_for_visible_row e visible children active"
  using map_of_keyed_filter[OF log_wf_distinct[OF assms(1), THEN conjunct1] assms(2),
      of "\<lambda>e. entry_id e \<in> visible"
         "\<lambda>e. restore_target_for_visible_row e visible children active"] assms(3)
  by (simp add: default_rewind_target_for_visible_row_def restore_targets_def)

lemma restore_target_items:
  assumes "log_wf {} entries" "e \<in> set entries"
  shows "\<exists>t\<in>set entries.
      restore_target_for_visible_row e visible (build_children_by_parent entries) active = entry_id t
      \<and> path_items (ancestry (index_of entries) t) = path_items (ancestry (index_of entries) e)"
  using restore_target_chain[OF assms, of visible active "{}"] path_items_hidden
  unfolding restore_target_for_visible_row_def by metis

text \<open>
  Rewinding to an assistant or tool row of the active path keeps the row's conversation and
  never leaves a tool call unanswered.
\<close>

lemma rewind_target_safe:
  assumes "log_wf {} entries" "leaf \<in> set entries"
    "e \<in> set (ancestry (index_of entries) leaf)" "k = RowAssistant \<or> k = RowTool"
    "session_tree_row_kind e = Some k"
    "targets = restore_targets entries (visible_ids entries) (build_children_by_parent entries) active"
    "rewind_target_for_tree_row e k (visible_ids entries) targets
       (tool_call_batch_rewind_targets_for_path (ancestry (index_of entries) leaf) targets)
       (build_children_by_parent entries) = Some t"
  shows "\<exists>te\<in>set entries. entry_id te = t
     \<and> path_items (ancestry (index_of entries) te) = path_items (ancestry (index_of entries) e)
     \<and> unanswered (path_items (ancestry (index_of entries) te)) = {}"
proof -
  from assms(3) obtain pre post where split: "ancestry (index_of entries) leaf = pre @ e # post"
    by (auto dest: split_list)
  note e = ancestry_prefix[OF assms(1,2) split]
  from row_has_item[OF assms(5)] obtain item where item: "item_of e = Some item" by blast
  note dist = groundedD(3)[OF log_wf_grounded[OF assms(1)] log_wf_lookup[OF assms(1,2)]]
  have "rewind_target_for_tree_row e k (visible_ids entries) targets
       (tool_call_batch_rewind_targets_for_path (ancestry (index_of entries) leaf) targets)
       (build_children_by_parent entries)
     = (if unanswered (path_items (pre @ [e])) = {}
        then Some (default_rewind_target_for_visible_row e targets) else None)"
    using assms(4) unfolding assistant_or_tool_target_on_path[OF dist split item, symmetric]
    by (auto simp: rewind_target_for_tree_row_def)
  with assms(7) have open_: "unanswered (path_items (ancestry (index_of entries) e)) = {}"
    and t: "default_rewind_target_for_visible_row e targets = t"
    by (simp_all add: e(2) split: if_splits)
  have "entry_id e \<in> visible_ids entries"
    using log_wf_distinct[OF assms(1)] e(1) assms(5) by (simp add: visible_ids_iff)
  from restore_target_default[OF assms(1) e(1) this] t assms(6)
  have "restore_target_for_visible_row e (visible_ids entries) (build_children_by_parent entries) active = t"
    by simp
  with restore_target_items[OF assms(1) e(1), of "visible_ids entries" active] open_
  show ?thesis by auto
qed

end
