(* ===== verification/Branch.thy ===== *)
theory Branch
  imports Rewind
begin

text \<open>
  The branches of a session, \<^verbatim>\<open>session_tree/branch.rs\<close>, with the records of
  \<^verbatim>\<open>runtime-domain/src/session/tree.rs\<close> and \<^verbatim>\<open>session_tree/types.rs\<close>.  A branch starts at a row
  that has no visible parent or that has visible siblings.  The hash maps from parents to
  their visible children are association lists in the order of first insertion; Rust leaves
  the order of the iteration open, and on a well-formed log no result depends on it.
\<close>

section \<open>Data\<close>

record branch_summary =
  branch_row_id :: ustring
  subtree_leaf_id :: ustring
  latest_row_id :: ustring
  branch_kind :: row_kind
  display_summary :: ustring
  branch_preview :: ustring
  is_current :: bool
  message_count :: nat
  branch_created_at_ms :: int
  latest_updated_at_ms :: int

record branch_choice =
  choice_branch :: branch_summary

record branch_node =
  parent_branch_row_id :: "ustring option"
  node_branch :: branch_summary

record branch_tree_snapshot =
  nodes :: "branch_node list"
  current_branch_row_id :: "ustring option"
  total_message_count :: nat

definition session_tree_summary_char_limit :: nat where
  "session_tree_summary_char_limit = 120"

section \<open>The code\<close>

definition session_branch_summary ::
  "session_entry \<Rightarrow> session_entry \<Rightarrow> session_entry \<Rightarrow> row_kind \<Rightarrow> ustring \<Rightarrow> bool \<Rightarrow> nat \<Rightarrow> branch_summary" where
  "session_branch_summary branch_root subtree_leaf latest_visible k preview current count =
     \<lparr>branch_row_id = entry_id branch_root,
      subtree_leaf_id = entry_id subtree_leaf,
      latest_row_id = entry_id latest_visible,
      branch_kind = k,
      display_summary =
        truncate_chars_with_ellipsis (single_line_display_text preview) session_tree_summary_char_limit,
      branch_preview = preview,
      is_current = current,
      message_count = count,
      branch_created_at_ms = timestamp branch_root,
      latest_updated_at_ms = timestamp latest_visible\<rparr>"

definition visible_subtree_message_count ::
  "session_entry list \<Rightarrow> entry_index \<Rightarrow> ustring \<Rightarrow> ustring set \<Rightarrow> resolve_error + nat" where
  "visible_subtree_message_count entries by_id root visible =
     try_fold (\<lambda>count e.
        if is_row e
        then and_then (entry_is_in_subtree e root by_id)
               (\<lambda>inside. Ok (if inside then Suc count else count))
        else Ok count) 0 (filter (\<lambda>e. entry_id e \<in> visible) entries)"

text \<open>What both views compute for one branch root.\<close>

definition summarise_branch ::
  "json_api \<Rightarrow> session_entry list \<Rightarrow> entry_index \<Rightarrow> ustring set \<Rightarrow> children_map \<Rightarrow> (session_entry \<Rightarrow> bool)
     \<Rightarrow> session_entry \<Rightarrow> resolve_error + branch_summary" where
  "summarise_branch J entries by_id visible children current branch_root =
     and_then (latest_visible_descendant entries by_id (entry_id branch_root) visible) (\<lambda>latest_visible.
     and_then (latest_non_leaf_descendant entries by_id (entry_id branch_root)) (\<lambda>subtree_leaf.
     and_then (visible_subtree_message_count entries by_id (entry_id branch_root) visible) (\<lambda>count.
     and_then (visible_descendant_row_kind latest_visible) (\<lambda>k.
     Ok (session_branch_summary branch_root subtree_leaf latest_visible k
           (row_preview_content J latest_visible k children) (current branch_root) count)))))"

text \<open>A loop that groups entries by a key which may fail or not return.\<close>

fun outcome_group_by ::
  "('a \<Rightarrow> ('e, 'k option) outcome) \<Rightarrow> 'a list \<Rightarrow> ('k \<times> 'a list) list \<Rightarrow> ('e, ('k \<times> 'a list) list) outcome" where
  "outcome_group_by f [] m = Some (Ok m)"
| "outcome_group_by f (x # xs) m =
     outcome_then (f x) (\<lambda>key. outcome_group_by f xs
        (case key of None \<Rightarrow> m | Some k \<Rightarrow> push_at k x m))"

definition branch_choices_of ::
  "json_api \<Rightarrow> session_entry list \<Rightarrow> entry_index \<Rightarrow> ustring set \<Rightarrow> ustring set \<Rightarrow> children_map
     \<Rightarrow> ustring \<times> session_entry list \<Rightarrow> resolve_error + (ustring \<times> branch_choice list) option" where
  "branch_choices_of J entries by_id visible active children sibs =
     (case sibs of (p, branch_roots) \<Rightarrow>
        if length branch_roots < 2 then Ok None
        else and_then (try_map (summarise_branch J entries by_id visible children
                                  (\<lambda>b. entry_id b \<in> active)) branch_roots)
               (\<lambda>branches. Ok (Some (p, map (\<lambda>b. \<lparr>choice_branch = b\<rparr>) branches))))"

definition session_tree_branch_choices_by_parent ::
  "json_api \<Rightarrow> session_entry list \<Rightarrow> entry_index \<Rightarrow> ustring set \<Rightarrow> ustring set \<Rightarrow> children_map
     \<Rightarrow> (resolve_error, (ustring \<times> branch_choice list) list) outcome" where
  "session_tree_branch_choices_by_parent J entries by_id visible active children =
     outcome_then
       (outcome_group_by (\<lambda>e. nearest_visible_parent_id e by_id visible)
          (filter (\<lambda>e. entry_id e \<in> visible) entries) [])
       (\<lambda>groups. Some (and_then
          (try_map (branch_choices_of J entries by_id visible active children) groups)
          (\<lambda>choices. Ok (filter_map (\<lambda>c. c) choices))))"

definition grouped_roots :: "(ustring option \<times> session_entry list) list \<Rightarrow> ustring set" where
  "grouped_roots groups =
     entry_id ` set (get_or_empty groups None)
     \<union> entry_id ` (\<Union>(p, branch_roots)\<in>set groups.
          if p \<noteq> None \<and> 2 \<le> length branch_roots then set branch_roots else {})"

definition branch_tree_root_ids ::
  "session_entry list \<Rightarrow> entry_index \<Rightarrow> ustring set \<Rightarrow> (resolve_error, ustring list) outcome" where
  "branch_tree_root_ids entries by_id visible =
     outcome_then
       (outcome_group_by
          (\<lambda>e. outcome_then (nearest_visible_parent_id e by_id visible) (\<lambda>p. Some (Ok (Some p))))
          (filter (\<lambda>e. entry_id e \<in> visible) entries) [])
       (\<lambda>groups. Some (Ok (filter (\<lambda>i. i \<in> grouped_roots groups) (map entry_id entries))))"

function branch_parent_loop ::
  "entry_index \<Rightarrow> ustring set \<Rightarrow> ustring set \<Rightarrow> ustring option \<Rightarrow> resolve_error + ustring option" where
  "branch_parent_loop by_id roots visited None = Ok None"
| "branch_parent_loop by_id roots visited (Some p) =
     (if p \<in> roots then Ok (Some p)
      else if p \<in> visited then Err CycleDetected
      else (case map_of by_id p of
              None \<Rightarrow> Err (DanglingParent p)
            | Some parent \<Rightarrow> branch_parent_loop by_id roots (insert p visited) (parent_id parent)))"
  by pat_completeness auto
termination
proof (relation "measure (\<lambda>(by_id, roots, visited, current). card (fst ` set by_id - visited))",
    goal_cases)
  case (2 by_id roots visited p parent)
  then have "p \<in> fst ` set by_id - visited" by (force dest: map_of_SomeD)
  then have "fst ` set by_id - insert p visited \<subset> fst ` set by_id - visited" by blast
  then show ?case by (simp add: psubset_card_mono)
qed simp

definition nearest_branch_tree_parent_id ::
  "session_entry \<Rightarrow> entry_index \<Rightarrow> ustring set \<Rightarrow> resolve_error + ustring option" where
  "nearest_branch_tree_parent_id e by_id roots = branch_parent_loop by_id roots {} (parent_id e)"

definition branch_node_of ::
  "json_api \<Rightarrow> session_entry list \<Rightarrow> entry_index \<Rightarrow> ustring set \<Rightarrow> children_map \<Rightarrow> ustring set
     \<Rightarrow> ustring option \<Rightarrow> session_entry \<Rightarrow> resolve_error + branch_node" where
  "branch_node_of J entries by_id visible children roots current branch_root =
     and_then (summarise_branch J entries by_id visible children
                 (\<lambda>b. current = Some (entry_id b)) branch_root) (\<lambda>summary.
     and_then (nearest_branch_tree_parent_id branch_root by_id roots) (\<lambda>p.
     Ok \<lparr>parent_branch_row_id = p, node_branch = summary\<rparr>))"

definition session_branch_tree_snapshot_for_requested_leaf ::
  "json_api \<Rightarrow> session_entry list \<Rightarrow> ustring option \<Rightarrow> (resolve_error, branch_tree_snapshot) outcome" where
  "session_branch_tree_snapshot_for_requested_leaf J entries requested =
     outcome_then (Some (build_entry_index entries)) (\<lambda>by_id.
     outcome_then (Some (validate_entry_parents entries by_id)) (\<lambda>_.
     let children = build_children_by_parent entries in
     outcome_then (Some (case requested of Some leaf \<Rightarrow> resolve_path by_id leaf | None \<Rightarrow> Ok []))
       (\<lambda>active_path.
     let visible = visible_ids entries in
     outcome_then (branch_tree_root_ids entries by_id visible) (\<lambda>root_list.
     let roots = set root_list;
         current = last_opt (map entry_id (filter (\<lambda>e. entry_id e \<in> roots) active_path)) in
     outcome_then (Some (try_map (branch_node_of J entries by_id visible children roots current)
                           (filter (\<lambda>e. entry_id e \<in> roots) entries))) (\<lambda>ns.
     Some (Ok \<lparr>nodes = ns, current_branch_row_id = current,
               total_message_count = card visible\<rparr>))))))"

definition session_branch_tree_snapshot ::
  "json_api \<Rightarrow> session_entry list \<Rightarrow> (resolve_error, branch_tree_snapshot) outcome" where
  "session_branch_tree_snapshot J entries =
     session_branch_tree_snapshot_for_requested_leaf J entries (map_option entry_id (last_opt entries))"

section \<open>Grouping\<close>

lemma outcome_group_by_Ok:
  assumes "\<And>x. x \<in> set xs \<Longrightarrow> f x = Some (Ok (g x))"
  shows "outcome_group_by f xs m = Some (Ok (group_by g xs m))"
  using assms by (induction xs arbitrary: m) auto

lemma distinct_push_at: "distinct (map fst m) \<Longrightarrow> distinct (map fst (push_at k v m))"
  by (simp add: push_at_def distinct_update)

lemma distinct_group_by: "distinct (map fst m) \<Longrightarrow> distinct (map fst (group_by f xs m))"
  by (induction xs arbitrary: m) (auto simp: distinct_push_at split: option.splits)

lemma group_by_member:
  "(k, ys) \<in> set (group_by f xs []) \<longleftrightarrow> ys \<noteq> [] \<and> ys = filter (\<lambda>x. f x = Some k) xs"
proof -
  have "(k, ys) \<in> set (group_by f xs []) \<longleftrightarrow> map_of (group_by f xs []) k = Some ys"
    using distinct_group_by[of "[]" f xs] by (simp add: map_of_eq_Some_iff)
  then show ?thesis unfolding map_of_group_by_Nil by auto
qed

section \<open>The searches on a well-formed log\<close>

definition visible_parent :: "session_entry list \<Rightarrow> session_entry \<Rightarrow> ustring option" where
  "visible_parent entries e =
     last_opt (filter (\<lambda>i. i \<in> visible_ids entries) (map entry_id (butlast (ancestry (index_of entries) e))))"

lemma nearest_visible_in_log:
  "log_wf {} entries \<Longrightarrow> e \<in> set entries \<Longrightarrow>
     nearest_visible_parent_id e (index_of entries) (visible_ids entries) = Some (Ok (visible_parent entries e))"
  unfolding visible_parent_def
  by (rule nearest_visible_grounded[OF log_wf_grounded log_wf_lookup])

lemma ancestry_snoc:
  assumes "log_wf {} entries" "e \<in> set entries"
  obtains zs where "ancestry (index_of entries) e = zs @ [e]"
  using root_path_last[OF groundedD(2)[OF log_wf_grounded[OF assms(1)] log_wf_lookup[OF assms]]]
  by (metis append_butlast_last_id)

lemma in_own_subtree:
  assumes "log_wf {} entries" "e \<in> set entries"
  shows "in_subtree (index_of entries) (entry_id e) e"
  using ancestry_snoc[OF assms] by (metis in_subtree_def imageI in_set_conv_decomp)

lemma latest_visible_in_log:
  assumes "log_wf {} entries"
  shows "latest_in_subtree (filter P entries) root (index_of entries) =
     Ok (last_opt (filter (in_subtree (index_of entries) root) (filter P entries)))"
  by (rule latest_in_subtree_grounded[OF log_wf_grounded[OF assms]]) (auto intro: log_wf_lookup[OF assms])

definition subtree_rows :: "session_entry list \<Rightarrow> ustring \<Rightarrow> session_entry list" where
  "subtree_rows entries root =
     filter (\<lambda>e. is_row e \<and> in_subtree (index_of entries) root e) entries"

lemma filter_visible_eq:
  assumes "log_wf {} entries"
  shows "filter (\<lambda>e. entry_id e \<in> visible_ids entries) entries = filter is_row entries"
  using log_wf_distinct[OF assms] visible_ids_iff by (intro filter_cong) auto

lemma visible_subtree_message_count_log:
  assumes "log_wf {} entries"
  shows "visible_subtree_message_count entries (index_of entries) root (visible_ids entries)
     = Ok (length (subtree_rows entries root))"
proof -
  have "try_fold (\<lambda>count e. if is_row e
        then and_then (entry_is_in_subtree e root (index_of entries))
               (\<lambda>inside. Ok (if inside then Suc count else count))
        else Ok count) 0 (filter is_row entries)
    = Ok (foldl (\<lambda>n e. if in_subtree (index_of entries) root e then Suc n else n) 0 (filter is_row entries))"
  proof (rule try_fold_Ok)
    fix n e assume "e \<in> set (filter is_row entries)"
    then have "e \<in> set entries" "is_row e" by auto
    then show "(if is_row e then and_then (entry_is_in_subtree e root (index_of entries))
               (\<lambda>inside. Ok (if inside then Suc n else n)) else Ok n)
      = Ok (if in_subtree (index_of entries) root e then Suc n else n)"
      using raw_log.subtree_decided[OF assms] by simp
  qed
  then show ?thesis
    unfolding visible_subtree_message_count_def filter_visible_eq[OF assms]
    by (simp add: foldl_count_filter subtree_rows_def conj_commute)
qed

definition branch_summary_spec ::
  "json_api \<Rightarrow> session_entry list \<Rightarrow> (session_entry \<Rightarrow> bool) \<Rightarrow> session_entry \<Rightarrow> branch_summary" where
  "branch_summary_spec J entries current b =
     (let rows = subtree_rows entries (entry_id b);
          latest = last rows;
          k = the (session_tree_row_kind latest);
          leaf = last (filter (\<lambda>e. \<not> is_leaf_kind (kind e) \<and> in_subtree (index_of entries) (entry_id b) e) entries)
      in session_branch_summary b leaf latest k
           (row_preview_content J latest k (build_children_by_parent entries)) (current b) (length rows))"

lemma summarise_branch_log:
  assumes "log_wf {} entries" "b \<in> set entries" "is_row b"
  shows "summarise_branch J entries (index_of entries) (visible_ids entries)
      (build_children_by_parent entries) current b = Ok (branch_summary_spec J entries current b)"
proof -
  from in_own_subtree[OF assms(1,2)] assms(2,3) have rows: "b \<in> set (subtree_rows entries (entry_id b))"
    by (simp add: subtree_rows_def)
  then have ne: "subtree_rows entries (entry_id b) \<noteq> []" by auto
  then have last_row: "is_row (last (subtree_rows entries (entry_id b)))"
    using last_in_set[OF ne] by (auto simp: subtree_rows_def)
  have "b \<in> set (filter (\<lambda>e. \<not> is_leaf_kind (kind e) \<and> in_subtree (index_of entries) (entry_id b) e) entries)"
    using in_own_subtree[OF assms(1,2)] assms(2) row_not_leaf[OF assms(3)] by simp
  then have ne': "filter (\<lambda>e. \<not> is_leaf_kind (kind e) \<and> in_subtree (index_of entries) (entry_id b) e) entries \<noteq> []"
    by (metis list.distinct(1) list.set_cases)
  have "latest_visible_descendant entries (index_of entries) (entry_id b) (visible_ids entries)
      = Ok (last (subtree_rows entries (entry_id b)))"
    unfolding latest_visible_descendant_def filter_visible_eq[OF assms(1)] latest_visible_in_log[OF assms(1)]
    using ne by (simp add: last_opt_eq subtree_rows_def conj_commute)
  moreover have "latest_non_leaf_descendant entries (index_of entries) (entry_id b) =
      Ok (last (filter (\<lambda>e. \<not> is_leaf_kind (kind e) \<and> in_subtree (index_of entries) (entry_id b) e) entries))"
    unfolding latest_non_leaf_descendant_def latest_visible_in_log[OF assms(1)]
    using ne' by (simp add: last_opt_eq conj_commute)
  ultimately show ?thesis using last_row
    by (auto simp: summarise_branch_def visible_subtree_message_count_log[OF assms(1)]
        visible_descendant_row_kind_def branch_summary_spec_def Let_def)
qed

section \<open>Branch roots\<close>

definition is_branch_root :: "session_entry list \<Rightarrow> session_entry \<Rightarrow> bool" where
  "is_branch_root entries e \<longleftrightarrow> is_row e \<and>
     (visible_parent entries e = None
      \<or> 2 \<le> length (filter (\<lambda>d. is_row d \<and> visible_parent entries d = visible_parent entries e) entries))"

lemma grouped_roots_iff:
  "i \<in> grouped_roots (group_by (\<lambda>e. Some (f e)) rows []) \<longleftrightarrow>
     (\<exists>e\<in>set rows. entry_id e = i \<and> (f e = None \<or> 2 \<le> length (filter (\<lambda>d. f d = f e) rows)))"
  (is "?l \<longleftrightarrow> ?r")
proof
  assume ?l
  then consider "i \<in> entry_id ` set (get_or_empty (group_by (\<lambda>e. Some (f e)) rows []) None)"
    | p roots where "(p, roots) \<in> set (group_by (\<lambda>e. Some (f e)) rows [])" "2 \<le> length roots"
        "i \<in> entry_id ` set roots"
    by (auto simp: grouped_roots_def split: if_splits)
  then show ?r
  proof cases
    case 1
    then show ?thesis by (auto simp: hash_simps)
  next
    case 2
    then have "roots = filter (\<lambda>d. f d = p) rows" unfolding group_by_member by simp
    with 2 show ?thesis by auto
  qed
next
  assume ?r
  then obtain e where e: "e \<in> set rows" "entry_id e = i"
    and cond: "f e = None \<or> 2 \<le> length (filter (\<lambda>d. f d = f e) rows)" by blast
  show ?l
  proof (cases "f e = None")
    case True
    with e have "e \<in> set (get_or_empty (group_by (\<lambda>e. Some (f e)) rows []) None)"
      by (simp add: hash_simps)
    with e show ?thesis unfolding grouped_roots_def by blast
  next
    case False
    have "(f e, filter (\<lambda>d. f d = f e) rows) \<in> set (group_by (\<lambda>e. Some (f e)) rows [])"
      using e(1) unfolding group_by_member by (auto simp: filter_empty_conv)
    moreover have "i \<in> entry_id ` set (filter (\<lambda>d. f d = f e) rows)" using e by auto
    ultimately show ?thesis using False cond unfolding grouped_roots_def by fastforce
  qed
qed

lemma branch_tree_root_ids_log:
  assumes "log_wf {} entries"
  shows "branch_tree_root_ids entries (index_of entries) (visible_ids entries) =
     Some (Ok (map entry_id (filter (is_branch_root entries) entries)))"
proof -
  let ?g = "group_by (\<lambda>e. Some (visible_parent entries e)) (filter is_row entries) []"
  have "outcome_group_by (\<lambda>e. outcome_then
        (nearest_visible_parent_id e (index_of entries) (visible_ids entries)) (\<lambda>p. Some (Ok (Some p))))
      (filter is_row entries) [] = Some (Ok ?g)"
    by (rule outcome_group_by_Ok) (simp add: nearest_visible_in_log[OF assms])
  moreover have "filter (\<lambda>i. i \<in> grouped_roots ?g) (map entry_id entries)
      = map entry_id (filter (is_branch_root entries) entries)"
  proof -
    have "entry_id e \<in> grouped_roots ?g \<longleftrightarrow> is_branch_root entries e" if "e \<in> set entries" for e
    proof -
      have "d = e" if "d \<in> set entries" "entry_id d = entry_id e" for d
        using that \<open>e \<in> set entries\<close> log_wf_distinct[OF assms] by (auto simp: distinct_map dest: inj_onD)
      with that show ?thesis unfolding grouped_roots_iff is_branch_root_def filter_filter
        by (auto simp: conj_commute)
    qed
    then show ?thesis by (simp add: filter_map comp_def cong: filter_cong)
  qed
  ultimately show ?thesis
    unfolding branch_tree_root_ids_def filter_visible_eq[OF assms] by simp
qed

lemma branch_parent_loop_root_path:
  assumes "keyed by_id" "root_path by_id e path" "distinct (map entry_id path)"
    "entry_id ` set (butlast path) \<inter> visited = {}"
  shows "branch_parent_loop by_id roots visited (parent_id e) =
     Ok (last_opt (filter (\<lambda>i. i \<in> roots) (map entry_id (butlast path))))"
  using assms(2-)
proof (induction arbitrary: visited rule: root_path.induct)
  case (below e p q qs)
  from assms(1) below.hyps(2) have q: "entry_id q = p" by (rule keyedD)
  from root_path_last[OF below.hyps(3)] obtain zs where qs: "qs = zs @ [q]"
    by (metis append_butlast_last_id)
  from below.prems[unfolded butlast_snoc]
  have "distinct (map entry_id qs)" "entry_id ` set (butlast qs) \<inter> insert p visited = {}"
    by (auto simp: qs q)
  from below.IH[OF this] below.hyps below.prems[unfolded butlast_snoc] qs q show ?case
    unfolding butlast_snoc by auto
qed simp

definition branch_parent :: "session_entry list \<Rightarrow> session_entry \<Rightarrow> ustring option" where
  "branch_parent entries e =
     map_option entry_id (last_opt (filter (is_branch_root entries) (butlast (ancestry (index_of entries) e))))"

lemma last_opt_map: "last_opt (map f xs) = map_option f (last_opt xs)"
  by (simp add: last_opt_eq last_map)

lemma ancestry_in_log:
  assumes "log_wf {} entries" "e \<in> set entries" "x \<in> set (ancestry (index_of entries) e)"
  shows "x \<in> set entries"
  using assms ancestry_prefix(1) by (metis split_list)

lemma root_ids_iff:
  assumes "log_wf {} entries" "e \<in> set entries"
  shows "entry_id e \<in> entry_id ` set (filter (is_branch_root entries) entries) \<longleftrightarrow> is_branch_root entries e"
  using assms(2) log_wf_distinct[OF assms(1)] by (auto simp: distinct_map dest: inj_onD)

lemma nearest_branch_tree_parent_log:
  assumes "log_wf {} entries" "e \<in> set entries"
  shows "nearest_branch_tree_parent_id e (index_of entries)
      (entry_id ` set (filter (is_branch_root entries) entries)) = Ok (branch_parent entries e)"
proof -
  note g = log_wf_grounded[OF assms(1)] and look = log_wf_lookup[OF assms]
  have "filter (\<lambda>i. i \<in> entry_id ` set (filter (is_branch_root entries) entries))
        (map entry_id (butlast (ancestry (index_of entries) e)))
      = map entry_id (filter (is_branch_root entries) (butlast (ancestry (index_of entries) e)))"
    unfolding filter_map comp_def
    by (rule arg_cong[where f = "map entry_id"], rule filter_cong[OF refl], rule root_ids_iff[OF assms(1)])
       (blast dest: in_set_butlastD intro: ancestry_in_log[OF assms])
  moreover from g have "keyed (index_of entries)" by (simp add: grounded_def)
  ultimately show ?thesis
    using branch_parent_loop_root_path[OF _ groundedD(2,3)[OF g look], of "{}"]
    by (simp add: nearest_branch_tree_parent_id_def branch_parent_def last_opt_map)
qed

section \<open>The whole branch tree\<close>

definition branch_node_spec ::
  "json_api \<Rightarrow> session_entry list \<Rightarrow> ustring option \<Rightarrow> session_entry \<Rightarrow> branch_node" where
  "branch_node_spec J entries current b =
     \<lparr>parent_branch_row_id = branch_parent entries b,
      node_branch = branch_summary_spec J entries (\<lambda>b. current = Some (entry_id b)) b\<rparr>"

definition current_branch :: "session_entry list \<Rightarrow> session_entry list \<Rightarrow> ustring option" where
  "current_branch entries path = map_option entry_id (last_opt (filter (is_branch_root entries) path))"

lemma filter_root_ids:
  assumes "log_wf {} entries" "set xs \<subseteq> set entries"
  shows "filter (\<lambda>e. entry_id e \<in> entry_id ` set (filter (is_branch_root entries) entries)) xs
    = filter (is_branch_root entries) xs"
  using assms root_ids_iff[OF assms(1)] by (intro filter_cong) auto

lemma branch_nodes_log:
  assumes "log_wf {} entries"
  shows "try_map (branch_node_of J entries (index_of entries) (visible_ids entries)
        (build_children_by_parent entries) (entry_id ` set (filter (is_branch_root entries) entries)) current)
      (filter (is_branch_root entries) entries)
    = Ok (map (branch_node_spec J entries current) (filter (is_branch_root entries) entries))"
proof (rule try_map_Ok)
  fix b assume "b \<in> set (filter (is_branch_root entries) entries)"
  then have b: "b \<in> set entries" "is_row b" by (auto simp: is_branch_root_def)
  show "branch_node_of J entries (index_of entries) (visible_ids entries)
        (build_children_by_parent entries) (entry_id ` set (filter (is_branch_root entries) entries)) current b
      = Ok (branch_node_spec J entries current b)"
    unfolding branch_node_of_def summarise_branch_log[OF assms b] nearest_branch_tree_parent_log[OF assms b(1)]
    by (simp add: branch_node_spec_def)
qed

lemma session_branch_tree_snapshot_log:
  assumes "log_wf {} entries" "leaf \<in> set entries"
    "resolve_path (index_of entries) requested = Ok (ancestry (index_of entries) leaf)"
  shows "session_branch_tree_snapshot_for_requested_leaf J entries (Some requested) = Some (Ok
     (let current = current_branch entries (ancestry (index_of entries) leaf)
      in \<lparr>nodes = map (branch_node_spec J entries current) (filter (is_branch_root entries) entries),
          current_branch_row_id = current,
          total_message_count = length (filter is_row entries)\<rparr>))"
proof -
  let ?path = "ancestry (index_of entries) leaf"
  have "set ?path \<subseteq> set entries" using ancestry_in_log[OF assms(1,2)] by blast
  then have cur: "last_opt (map entry_id (filter (\<lambda>e. entry_id e \<in> entry_id ` set (filter (is_branch_root entries) entries)) ?path))
      = current_branch entries ?path"
    by (simp only: filter_root_ids[OF assms(1)] current_branch_def last_opt_map)
  have "distinct (map entry_id (filter is_row entries))"
    using log_wf_distinct[OF assms(1)] by (simp add: distinct_map_filter)
  from distinct_card[OF this] have "card (visible_ids entries) = length (filter is_row entries)"
    by (simp add: visible_ids_def)
  with assms(3) show ?thesis
    unfolding session_branch_tree_snapshot_for_requested_leaf_def Let_def log_wf_index[OF assms(1)]
      log_wf_validate[OF assms(1)] outcome_then_simps option.case
      branch_tree_root_ids_log[OF assms(1)] set_map
    by (simp only: outcome_then_simps cur filter_root_ids[OF assms(1)] branch_nodes_log[OF assms(1)] order_refl)
qed

section \<open>The top-level branches partition the messages\<close>

definition top_row :: "session_entry list \<Rightarrow> session_entry \<Rightarrow> session_entry" where
  "top_row entries r = hd (filter is_row (ancestry (index_of entries) r))"

lemma visible_parent_rows:
  assumes "log_wf {} entries" "e \<in> set entries"
  shows "visible_parent entries e = map_option entry_id
     (last_opt (filter is_row (butlast (ancestry (index_of entries) e))))"
proof -
  have "filter (\<lambda>i. i \<in> visible_ids entries) (map entry_id (butlast (ancestry (index_of entries) e)))
      = map entry_id (filter is_row (butlast (ancestry (index_of entries) e)))"
    unfolding filter_map comp_def
    by (rule arg_cong[where f = "map entry_id"], rule filter_cong[OF refl], rule visible_ids_iff)
       (use log_wf_distinct[OF assms(1)] in \<open>auto dest: in_set_butlastD ancestry_in_log[OF assms]\<close>)
  then show ?thesis by (simp add: visible_parent_def last_opt_map)
qed

lemma visible_parent_None:
  assumes "log_wf {} entries" "e \<in> set entries"
  shows "visible_parent entries e = None \<longleftrightarrow>
     (\<forall>d\<in>set (butlast (ancestry (index_of entries) e)). \<not> is_row d)"
  unfolding visible_parent_rows[OF assms] by (auto simp: last_opt_eq filter_empty_conv)

lemma split_at_first_row:
  "filter P xs = y # ys \<Longrightarrow> \<exists>as bs. xs = as @ y # bs \<and> (\<forall>a\<in>set as. \<not> P a) \<and> P y"
  by (auto simp: filter_eq_Cons_iff)

lemma first_row_unique:
  "as @ y # bs = as' @ y' # bs' \<Longrightarrow> \<forall>a\<in>set as. \<not> P a \<Longrightarrow> \<forall>a\<in>set as'. \<not> P a \<Longrightarrow> P y \<Longrightarrow> P y' \<Longrightarrow> y = y'"
  by (induction as arbitrary: as') (auto simp: Cons_eq_append_conv append_eq_Cons_conv)

text \<open>The first row on an entry's path is a branch root without a parent branch.\<close>

lemma top_row_facts:
  assumes "log_wf {} entries" "e \<in> set entries" "d \<in> set (ancestry (index_of entries) e)" "is_row d"
  obtains as bs where "ancestry (index_of entries) e = as @ top_row entries e # bs"
    "top_row entries e \<in> set entries" "is_row (top_row entries e)"
    "\<forall>a\<in>set as. \<not> is_row a" "visible_parent entries (top_row entries e) = None"
proof -
  from assms(3,4) obtain y ys where first_row: "filter is_row (ancestry (index_of entries) e) = y # ys"
    by (cases "filter is_row (ancestry (index_of entries) e)") (auto simp: filter_empty_conv)
  then have y: "top_row entries e = y" by (simp add: top_row_def)
  from split_at_first_row[OF first_row] obtain as bs
    where split: "ancestry (index_of entries) e = as @ y # bs"
      and first: "\<forall>a\<in>set as. \<not> is_row a" and row: "is_row y" by (elim exE conjE)
  note mem = ancestry_prefix[OF assms(1,2) split]
  have "visible_parent entries y = None"
    unfolding visible_parent_None[OF assms(1) mem(1)] mem(2) butlast_snoc by (rule first)
  with split first row mem(1) y show ?thesis by (intro that[of as bs]) simp_all
qed

lemma subtree_rows_top:
  assumes "log_wf {} entries" "b \<in> set entries" "is_row b" "visible_parent entries b = None"
  shows "subtree_rows entries (entry_id b) = filter (\<lambda>r. is_row r \<and> top_row entries r = b) entries"
  unfolding subtree_rows_def
proof (rule filter_cong[OF refl])
  fix r assume r: "r \<in> set entries"
  have "in_subtree (index_of entries) (entry_id b) r \<longleftrightarrow> top_row entries r = b" if row_r: "is_row r"
  proof -
    from ancestry_snoc[OF assms(1) r] have self: "r \<in> set (ancestry (index_of entries) r)"
      by (metis in_set_conv_decomp)
    obtain as bs where top: "ancestry (index_of entries) r = as @ top_row entries r # bs"
        "top_row entries r \<in> set entries" "is_row (top_row entries r)" "\<forall>a\<in>set as. \<not> is_row a"
        "visible_parent entries (top_row entries r) = None"
      by (rule top_row_facts[OF assms(1) r self row_r])
    show ?thesis
    proof
      assume "in_subtree (index_of entries) (entry_id b) r"
      then obtain x where x: "x \<in> set (ancestry (index_of entries) r)" "entry_id x = entry_id b"
        by (auto simp: in_subtree_def)
      from ancestry_in_log[OF assms(1) r x(1)] x(2) assms(2) log_wf_distinct[OF assms(1)]
      have "x = b" by (auto simp: distinct_map dest: inj_onD)
      with x(1) obtain cs ds where b_split: "ancestry (index_of entries) r = cs @ b # ds"
        by (auto dest: split_list)
      from assms(4) have "\<forall>c\<in>set cs. \<not> is_row c"
        unfolding visible_parent_None[OF assms(1,2)] ancestry_prefix(2)[OF assms(1) r b_split] butlast_snoc .
      with first_row_unique[of as _ bs cs b ds is_row] top b_split assms(3)
      show "top_row entries r = b" by simp
    next
      assume "top_row entries r = b"
      with top(1) show "in_subtree (index_of entries) (entry_id b) r" by (auto simp: in_subtree_def)
    qed
  qed
  then show "(is_row r \<and> in_subtree (index_of entries) (entry_id b) r) = (is_row r \<and> top_row entries r = b)"
    by blast
qed

lemma sum_fibres:
  assumes "distinct bs" "f ` set xs \<subseteq> set bs"
  shows "sum_list (map (\<lambda>b. length (filter (\<lambda>x. f x = b) xs)) bs) = length xs"
  using assms(2)
proof (induction xs)
  case (Cons x xs)
  have "sum_list (map (\<lambda>b. length (filter (\<lambda>y. f y = b) (x # xs))) bs)
      = sum_list (map (\<lambda>b. (if f x = b then 1 else 0) + length (filter (\<lambda>y. f y = b) xs)) bs)"
    by (intro arg_cong[where f = sum_list] map_cong) auto
  also have "\<dots> = sum_list (map (\<lambda>b. if f x = b then 1 else 0) bs) + length xs"
    using Cons by (simp add: sum_list_addf)
  also have "sum_list (map (\<lambda>b. if f x = b then 1 else 0) bs) = (1::nat)"
    using assms(1) Cons.prems by (simp add: sum_list_distinct_conv_sum_set)
  finally show ?case by simp
qed simp

lemma top_branch_iff:
  assumes "log_wf {} entries" "b \<in> set entries"
  shows "is_branch_root entries b \<and> branch_parent entries b = None \<longleftrightarrow>
     is_row b \<and> visible_parent entries b = None"
proof
  assume l: "is_branch_root entries b \<and> branch_parent entries b = None"
  then have row: "is_row b" by (simp add: is_branch_root_def)
  have "\<not> is_row d" if "d \<in> set (butlast (ancestry (index_of entries) b))" for d
  proof
    assume "is_row d"
    from that have "d \<in> set (ancestry (index_of entries) b)" by (rule in_set_butlastD)
    obtain as bs where top: "ancestry (index_of entries) b = as @ top_row entries b # bs"
        "top_row entries b \<in> set entries" "is_row (top_row entries b)" "\<forall>a\<in>set as. \<not> is_row a"
        "visible_parent entries (top_row entries b) = None"
      by (rule top_row_facts[OF assms \<open>d \<in> set (ancestry (index_of entries) b)\<close> \<open>is_row d\<close>])
    then have root: "is_branch_root entries (top_row entries b)" by (simp add: is_branch_root_def)
    have "top_row entries b \<in> set (butlast (ancestry (index_of entries) b))"
    proof (cases bs rule: rev_cases)
      case Nil
      with that top \<open>is_row d\<close> show ?thesis by (auto simp: butlast_append)
    qed (simp add: top(1) butlast_append)
    with l root show False by (auto simp: branch_parent_def last_opt_eq filter_empty_conv split: if_splits)
  qed
  with row visible_parent_None[OF assms] show "is_row b \<and> visible_parent entries b = None" by blast
next
  assume r: "is_row b \<and> visible_parent entries b = None"
  then have "\<forall>d\<in>set (butlast (ancestry (index_of entries) b)). \<not> is_branch_root entries d"
    using visible_parent_None[OF assms] by (auto simp: is_branch_root_def)
  with r show "is_branch_root entries b \<and> branch_parent entries b = None"
    by (simp add: is_branch_root_def branch_parent_def last_opt_eq filter_empty_conv)
qed

lemma top_branches_partition:
  assumes "log_wf {} entries"
  shows "sum_list (map (\<lambda>n. message_count (node_branch n))
       (filter (\<lambda>n. parent_branch_row_id n = None)
          (map (branch_node_spec J entries current) (filter (is_branch_root entries) entries))))
     = length (filter is_row entries)"
proof -
  let ?tops = "filter (\<lambda>b. is_row b \<and> visible_parent entries b = None) entries"
  have "filter (\<lambda>b. branch_parent entries b = None) (filter (is_branch_root entries) entries) = ?tops"
    unfolding filter_filter
    using top_branch_iff[OF assms] by (intro filter_cong) auto
  then have "sum_list (map (\<lambda>n. message_count (node_branch n))
       (filter (\<lambda>n. parent_branch_row_id n = None)
          (map (branch_node_spec J entries current) (filter (is_branch_root entries) entries))))
     = sum_list (map (\<lambda>b. length (subtree_rows entries (entry_id b))) ?tops)"
    by (simp add: filter_map comp_def branch_node_spec_def branch_summary_spec_def Let_def session_branch_summary_def)
  also have "\<dots> = sum_list (map (\<lambda>b. length (filter (\<lambda>r. top_row entries r = b) (filter is_row entries))) ?tops)"
    by (intro arg_cong[where f = sum_list] map_cong refl)
       (simp add: subtree_rows_top[OF assms] filter_filter conj_commute)
  also have "\<dots> = length (filter is_row entries)"
  proof (rule sum_fibres)
    show "distinct ?tops" using log_wf_distinct[OF assms] by (simp add: distinct_map)
    show "top_row entries ` set (filter is_row entries) \<subseteq> set ?tops"
    proof
      fix t assume "t \<in> top_row entries ` set (filter is_row entries)"
      then obtain r where r: "r \<in> set entries" "is_row r" "t = top_row entries r" by auto
      from ancestry_snoc[OF assms r(1)] have self: "r \<in> set (ancestry (index_of entries) r)"
        by (metis in_set_conv_decomp)
      show "t \<in> set ?tops" by (rule top_row_facts[OF assms r(1) self r(2)]) (simp add: r(3))
    qed
  qed
  finally show ?thesis .
qed

end
