(* ===== verification/Projection.thy ===== *)
theory Projection
  imports Branch
begin

text \<open>
  The rows shown by \<^verbatim>\<open>/tree\<close>, \<^verbatim>\<open>session_tree/projection.rs\<close> and \<^verbatim>\<open>session_tree/types.rs\<close>.  The indent
  of a row counts the forks above it; the code computes all indents with a stack and no
  visited set, so that search is a partial function here and its termination a theorem.
\<close>

section \<open>Data\<close>

record snapshot_row =
  row_id :: ustring
  row_parent_id :: "ustring option"
  display_depth :: nat
  row_kind_of :: row_kind
  row_display_text :: ustring
  row_summary :: ustring
  preview_content :: ustring
  preview_replay_items :: "replay_item list"
  rewind_target_id :: "ustring option"
  rewind_prefill :: "ustring option"
  branch_choices :: "branch_choice list"

record tree_snapshot =
  rows :: "snapshot_row list"
  current_row_id :: "ustring option"
  active_row_ids :: "ustring set"

section \<open>Indents\<close>

type_synonym depth_map = "(ustring \<times> nat) list"

definition display_children ::
  "session_entry list \<Rightarrow> (ustring option \<times> session_entry list) list" where
  "display_children entries =
     group_by (\<lambda>e. Some (parent_id e)) (filter (\<lambda>e. \<not> is_leaf_kind (kind e)) entries) []"

definition child_depth :: "session_entry list \<Rightarrow> nat \<Rightarrow> nat" where
  "child_depth children depth = (if 1 < length children then sat_add_usize depth 1 else depth)"

partial_function (option) depth_loop ::
  "(ustring option \<times> session_entry list) list \<Rightarrow> ustring set \<Rightarrow> (session_entry \<times> nat) list
     \<Rightarrow> depth_map \<Rightarrow> depth_map option" where
  "depth_loop children visible stack depths =
     (case stack of
        [] \<Rightarrow> Some depths
      | (e, depth) # rest \<Rightarrow>
          depth_loop children visible
            (map (\<lambda>c. (c, child_depth (get_or_empty children (Some (entry_id e))) depth))
               (get_or_empty children (Some (entry_id e))) @ rest)
            (if entry_id e \<in> visible then AList.update (entry_id e) depth depths else depths))"

definition visible_display_depths :: "session_entry list \<Rightarrow> ustring set \<Rightarrow> depth_map option" where
  "visible_display_depths entries visible =
     depth_loop (display_children entries) visible
       (map (\<lambda>e. (e, 0)) (get_or_empty (display_children entries) None)) []"

section \<open>Rows\<close>

definition session_tree_snapshot_row ::
  "json_api \<Rightarrow> session_entry \<Rightarrow> entry_index \<Rightarrow> ustring set \<Rightarrow> target_map \<Rightarrow> batch_map \<Rightarrow> children_map
     \<Rightarrow> branch_choice list \<Rightarrow> (resolve_error, snapshot_row option) outcome" where
  "session_tree_snapshot_row J e by_id visible targets batch children choices =
     (case session_tree_row_kind e of
        None \<Rightarrow> Some (Ok None)
      | Some k \<Rightarrow>
          (let content = row_preview_content J e k children;
               text = single_line_display_text content
           in outcome_then (nearest_visible_parent_id e by_id visible) (\<lambda>p.
              Some (Ok (Some
                \<lparr>row_id = entry_id e, row_parent_id = p, display_depth = 0, row_kind_of = k,
                 row_display_text = text,
                 row_summary = truncate_chars_with_ellipsis text session_tree_summary_char_limit,
                 preview_content = content,
                 preview_replay_items = row_preview_replay_items J e k children,
                 rewind_target_id = rewind_target_for_tree_row e k visible targets batch children,
                 rewind_prefill = (if k = RowUser then Some content else None),
                 branch_choices = choices\<rparr>)))))"

definition start_index :: "ustring option \<Rightarrow> session_entry list \<Rightarrow> ustring set \<Rightarrow> nat" where
  "start_index start path visible =
     (case Option.bind start (\<lambda>s. position (\<lambda>e. entry_id e = s \<and> s \<in> visible) path) of
        None \<Rightarrow> 0 | Some i \<Rightarrow> i)"

definition depth_or_zero :: "depth_map \<Rightarrow> ustring \<Rightarrow> nat" where
  "depth_or_zero depths i = (case map_of depths i of None \<Rightarrow> 0 | Some d \<Rightarrow> d)"

definition indent_rows :: "ustring option \<Rightarrow> depth_map \<Rightarrow> snapshot_row list \<Rightarrow> snapshot_row list" where
  "indent_rows start depths rs =
     (let base = (if start \<noteq> None
                  then (case rs of [] \<Rightarrow> 0 | r # _ \<Rightarrow> depth_or_zero depths (row_id r)) else 0)
      in map (\<lambda>r. r\<lparr>display_depth := depth_or_zero depths (row_id r) - base\<rparr>) rs)"

definition snapshot_from_start ::
  "json_api \<Rightarrow> session_entry list \<Rightarrow> ustring option \<Rightarrow> ustring option
     \<Rightarrow> (resolve_error, tree_snapshot) outcome" where
  "snapshot_from_start J entries requested start =
     outcome_then (Some (build_entry_index entries)) (\<lambda>by_id.
     outcome_then (Some (validate_entry_parents entries by_id)) (\<lambda>_.
     let children = build_children_by_parent entries in
     outcome_then (Some (case requested of Some leaf \<Rightarrow> resolve_path by_id leaf | None \<Rightarrow> Ok []))
       (\<lambda>active_path.
     let active = entry_id ` set active_path;
         visible = visible_ids entries;
         path_visible = entry_id ` set (filter (\<lambda>e. entry_id e \<in> visible) active_path);
         visible_path = filter (\<lambda>e. entry_id e \<in> path_visible)
                          (drop (start_index start active_path visible) active_path);
         targets = restore_targets entries visible children active;
         batch = tool_call_batch_rewind_targets_for_path active_path targets
     in outcome_then (session_tree_branch_choices_by_parent J entries by_id visible active children)
          (\<lambda>choices.
        outcome_then (outcome_map (\<lambda>e. session_tree_snapshot_row J e by_id visible targets batch children
                         (get_or_empty choices (entry_id e))) visible_path) (\<lambda>rs.
        (case visible_display_depths entries visible of
           None \<Rightarrow> None
         | Some depths \<Rightarrow>
             Some (Ok \<lparr>rows = indent_rows start depths (filter_map (\<lambda>r. r) rs),
                       current_row_id = last_opt (map entry_id visible_path),
                       active_row_ids = entry_id ` set visible_path\<rparr>)))))))"

definition session_tree_snapshot ::
  "json_api \<Rightarrow> session_entry list \<Rightarrow> (resolve_error, tree_snapshot) outcome" where
  "session_tree_snapshot J entries =
     snapshot_from_start J entries (map_option entry_id (last_opt entries)) None"

definition session_tree_snapshot_for_leaf ::
  "json_api \<Rightarrow> session_entry list \<Rightarrow> ustring \<Rightarrow> (resolve_error, tree_snapshot) outcome" where
  "session_tree_snapshot_for_leaf J entries leaf_id = snapshot_from_start J entries (Some leaf_id) None"

definition session_branch_preview_snapshot ::
  "json_api \<Rightarrow> session_entry list \<Rightarrow> ustring \<Rightarrow> (resolve_error, tree_snapshot) outcome" where
  "session_branch_preview_snapshot J entries branch_row =
     outcome_then (Some (build_entry_index entries)) (\<lambda>by_id.
     outcome_then (Some (validate_entry_parents entries by_id)) (\<lambda>_.
     let visible = visible_ids entries in
     outcome_then (Some (ok_or (LeafNotFound branch_row)
        (case map_of by_id branch_row of
           Some e \<Rightarrow> if entry_id e \<in> visible then Some e else None
         | None \<Rightarrow> None))) (\<lambda>branch_root.
     outcome_then (Some (latest_non_leaf_descendant entries by_id (entry_id branch_root))) (\<lambda>subtree_leaf.
     outcome_then (nearest_visible_parent_id branch_root by_id visible) (\<lambda>p.
     let start_row = (case p of Some i \<Rightarrow> i | None \<Rightarrow> entry_id branch_root)
     in snapshot_from_start J entries (Some (entry_id subtree_leaf)) (Some start_row))))))"

section \<open>The indents are computed, and are the fork counts\<close>

lemma display_children_get:
  "get_or_empty (display_children entries) k =
     filter (\<lambda>e. parent_id e = k \<and> \<not> is_leaf_kind (kind e)) entries"
  by (simp add: display_children_def hash_simps filter_filter conj_commute)

definition forks :: "session_entry list \<Rightarrow> session_entry \<Rightarrow> bool" where
  "forks entries e \<longleftrightarrow>
     1 < length (filter (\<lambda>c. parent_id c = Some (entry_id e) \<and> \<not> is_leaf_kind (kind c)) entries)"

definition fork_depth :: "session_entry list \<Rightarrow> session_entry list \<Rightarrow> nat" where
  "fork_depth entries path = min usize_max (length (filter (forks entries) (butlast path)))"

lemma fork_depth_child:
  assumes "path \<noteq> []" "last path = e"
  shows "child_depth (get_or_empty (display_children entries) (Some (entry_id e))) (fork_depth entries path)
    = fork_depth entries (path @ [c])"
proof -
  from assms obtain zs where path: "path = zs @ [e]" by (metis append_butlast_last_id)
  have "forks entries e \<longleftrightarrow> 1 < length (get_or_empty (display_children entries) (Some (entry_id e)))"
    by (simp add: forks_def display_children_get)
  then show ?thesis
    unfolding child_depth_def fork_depth_def path butlast_snoc
    by (auto simp: sat_add_usize_def min_def)
qed

definition all_shown :: "session_entry list \<Rightarrow> bool" where
  "all_shown path \<longleftrightarrow> (\<forall>e\<in>set path. \<not> is_leaf_kind (kind e))"

abbreviation store_depths :: "(ustring \<times> nat) list \<Rightarrow> depth_map \<Rightarrow> depth_map" where
  "store_depths ws acc \<equiv> foldl (\<lambda>m w. AList.update (fst w) (snd w) m) acc ws"

definition depths_below ::
  "session_entry list \<Rightarrow> ustring set \<Rightarrow> session_entry list \<Rightarrow> (ustring \<times> nat) set" where
  "depths_below entries visible path =
     {(entry_id x, fork_depth entries (path @ r)) | x r.
        x \<in> set entries \<and> root_path (index_of entries) x (path @ r) \<and> all_shown (path @ r) \<and> entry_id x \<in> visible}"

lemma depth_loop_list:
  assumes "\<And>c. c \<in> set cs \<Longrightarrow> \<exists>ws. set ws = S c \<and>
      (\<forall>stack acc. depth_loop ch visible ((c, d) # stack) acc = depth_loop ch visible stack (store_depths ws acc))"
  shows "\<exists>ws. set ws = (\<Union>c\<in>set cs. S c) \<and>
      (\<forall>stack acc. depth_loop ch visible (map (\<lambda>c. (c, d)) cs @ stack) acc
         = depth_loop ch visible stack (store_depths ws acc))"
  using assms
proof (induction cs)
  case (Cons c cs)
  from Cons.prems[of c] obtain w where w: "set w = S c"
    "\<And>stack acc. depth_loop ch visible ((c, d) # stack) acc = depth_loop ch visible stack (store_depths w acc)"
    by auto
  from Cons obtain ws where ws: "set ws = (\<Union>c\<in>set cs. S c)"
    "\<And>stack acc. depth_loop ch visible (map (\<lambda>c. (c, d)) cs @ stack) acc
       = depth_loop ch visible stack (store_depths ws acc)" by auto
  show ?case by (rule exI[of _ "w @ ws"]) (simp add: w ws)
qed simp

lemma root_path_extend:
  assumes "distinct (map entry_id entries)" "root_path (index_of entries) e path" "x \<in> set entries"
  shows "root_path (index_of entries) x (path @ r) \<longleftrightarrow>
    (r = [] \<and> x = e) \<or> (\<exists>c s. r = c # s \<and> c \<in> set entries \<and> parent_id c = Some (entry_id e)
        \<and> root_path (index_of entries) x ((path @ [c]) @ s))"
proof (cases r)
  case Nil
  have "root_path (index_of entries) x path \<longleftrightarrow> x = e"
    using root_path_last[of _ x path] root_path_last[OF assms(2)] assms(2) by auto
  with Nil show ?thesis by simp
next
  case (Cons c s)
  have "c \<in> set entries \<and> parent_id c = Some (entry_id e)" if l: "root_path (index_of entries) x (path @ r)"
  proof
    have "root_path (index_of entries) c (path @ [c])"
      by (rule root_path_prefix[OF l]) (simp add: Cons)
    then obtain p q where q: "parent_id c = Some p" "map_of (index_of entries) p = Some q"
        "root_path (index_of entries) q path"
      by (cases rule: root_path.cases) (use root_path_last[OF assms(2)] in auto)
    from root_path_last[OF q(3)] root_path_last[OF assms(2)] have "q = e" by simp
    with q(1,2) assms(1) show "parent_id c = Some (entry_id e)" by (simp add: map_of_index_of)
    from root_path_in_index[OF l, of c] Cons consider "c = x" | i where "map_of (index_of entries) i = Some c"
      by auto
    then show "c \<in> set entries"
      by cases (use assms(1,3) in \<open>auto simp: map_of_index_of\<close>)
  qed
  with Cons show ?thesis by auto
qed

lemma root_path_bounded:
  assumes "distinct (map entry_id entries)" "e \<in> set entries" "root_path (index_of entries) e path"
  shows "length path \<le> length entries"
proof -
  have "set path \<subseteq> set entries"
    using root_path_in_index[OF assms(3)] assms(1,2) by (auto simp: map_of_index_of)
  then have "card (set path) \<le> card (set entries)" by (simp add: card_mono)
  with root_path_distinct_entries[OF assms(3)] assms(1) show ?thesis
    by (simp add: distinct_card distinct_map)
qed

lemma depths_below_step:
  assumes "distinct (map entry_id entries)" "e \<in> set entries" "root_path (index_of entries) e path"
    "all_shown path"
  shows "depths_below entries visible path =
    (if entry_id e \<in> visible then {(entry_id e, fork_depth entries path)} else {})
    \<union> (\<Union>c\<in>set (get_or_empty (display_children entries) (Some (entry_id e))).
          depths_below entries visible (path @ [c]))" (is "?l = ?here \<union> ?below")
proof (intro subset_antisym subsetI)
  fix w assume "w \<in> ?l"
  then obtain x r where w: "w = (entry_id x, fork_depth entries (path @ r))" "x \<in> set entries"
    "root_path (index_of entries) x (path @ r)" "all_shown (path @ r)" "entry_id x \<in> visible"
    by (auto simp: depths_below_def)
  from w(3)[unfolded root_path_extend[OF assms(1,3) w(2)]]
  consider "r = []" "x = e" | c s where "r = c # s" "c \<in> set entries" "parent_id c = Some (entry_id e)"
      "root_path (index_of entries) x ((path @ [c]) @ s)" by blast
  then show "w \<in> ?here \<union> ?below"
  proof cases
    case 2
    with w have "w \<in> depths_below entries visible (path @ [c])"
      unfolding depths_below_def by (intro CollectI exI[of _ x] exI[of _ s]) simp
    moreover from 2 w(4) have "c \<in> set (get_or_empty (display_children entries) (Some (entry_id e)))"
      by (simp add: display_children_get all_shown_def)
    ultimately show ?thesis by blast
  qed (use w in simp)
next
  fix w assume "w \<in> ?here \<union> ?below"
  then consider "w = (entry_id e, fork_depth entries path)" "entry_id e \<in> visible"
    | c where "c \<in> set (get_or_empty (display_children entries) (Some (entry_id e)))"
        "w \<in> depths_below entries visible (path @ [c])" by (auto split: if_splits)
  then show "w \<in> ?l"
  proof cases
    case 1
    then show ?thesis unfolding depths_below_def
      by (intro CollectI exI[of _ e] exI[of _ "[]"]) (simp add: assms)
  next
    case 2
    then obtain x s where "w = (entry_id x, fork_depth entries ((path @ [c]) @ s))" "x \<in> set entries"
      "root_path (index_of entries) x ((path @ [c]) @ s)" "all_shown ((path @ [c]) @ s)" "entry_id x \<in> visible"
      by (auto simp: depths_below_def)
    then show ?thesis unfolding depths_below_def
      by (intro CollectI exI[of _ x] exI[of _ "c # s"]) simp
  qed
qed

lemma depth_loop_entry:
  assumes "distinct (map entry_id entries)" "e \<in> set entries" "root_path (index_of entries) e path"
    "all_shown path"
  shows "\<exists>ws. set ws = depths_below entries visible path \<and>
    (\<forall>stack acc. depth_loop (display_children entries) visible ((e, fork_depth entries path) # stack) acc
       = depth_loop (display_children entries) visible stack (store_depths ws acc))"
  using assms(2-)
proof (induction "length entries - length path" arbitrary: e path rule: less_induct)
  case less
  let ?cs = "get_or_empty (display_children entries) (Some (entry_id e))"
  let ?d = "child_depth ?cs (fork_depth entries path)"
  from root_path_last[OF less.prems(2)] have d: "?d = fork_depth entries (path @ [c])" for c
    using fork_depth_child by blast
  have child: "\<exists>ws. set ws = depths_below entries visible (path @ [c]) \<and>
      (\<forall>stack acc. depth_loop (display_children entries) visible ((c, ?d) # stack) acc
        = depth_loop (display_children entries) visible stack (store_depths ws acc))" if c: "c \<in> set ?cs" for c
  proof -
    from c have c': "c \<in> set entries" "parent_id c = Some (entry_id e)" "\<not> is_leaf_kind (kind c)"
      by (auto simp: display_children_get)
    have "map_of (index_of entries) (entry_id e) = Some e"
      using assms(1) less.prems(1) by (simp add: map_of_index_of)
    with c'(2) less.prems(2) have path: "root_path (index_of entries) c (path @ [c])"
      by (blast intro: root_path.below)
    from root_path_bounded[OF assms(1) c'(1) path] have "length path < length entries" by simp
    then have "length entries - length (path @ [c]) < length entries - length path" by simp
    from less.hyps[OF this c'(1) path] less.prems(3) c'(3) d[of c] show ?thesis
      by (simp add: all_shown_def)
  qed
  from depth_loop_list[of ?cs "\<lambda>c. depths_below entries visible (path @ [c])", OF child] obtain ws
    where ws: "set ws = (\<Union>c\<in>set ?cs. depths_below entries visible (path @ [c]))"
      "\<And>stack acc. depth_loop (display_children entries) visible (map (\<lambda>c. (c, ?d)) ?cs @ stack) acc
        = depth_loop (display_children entries) visible stack (store_depths ws acc)" by blast
  let ?here = "if entry_id e \<in> visible then [(entry_id e, fork_depth entries path)] else []"
  show ?case
  proof (intro exI[of _ "?here @ ws"] conjI allI)
    show "set (?here @ ws) = depths_below entries visible path"
      unfolding depths_below_step[OF assms(1) less.prems] set_append ws(1) by simp
    show "depth_loop (display_children entries) visible ((e, fork_depth entries path) # stack) acc
       = depth_loop (display_children entries) visible stack (store_depths (?here @ ws) acc)" for stack acc
      by (subst depth_loop.simps) (simp add: ws(2))
  qed
qed

lemma map_of_store_depths:
  assumes "\<And>k k'. (i, k) \<in> set ws \<Longrightarrow> (i, k') \<in> set ws \<Longrightarrow> k = k'"
  shows "map_of (store_depths ws acc) i =
    (if \<exists>k. (i, k) \<in> set ws then Some (THE k. (i, k) \<in> set ws) else map_of acc i)"
  using assms
proof (induction ws rule: rev_induct)
  case (snoc w ws)
  show ?case
  proof (cases "fst w = i")
    case True
    then have w: "(i, snd w) \<in> set (ws @ [w])" by auto
    with snoc.prems have "(THE k. (i, k) \<in> set (ws @ [w])) = snd w" by (intro the_equality) blast+
    with True w show ?thesis by (auto simp: AList.update_conv')
  next
    case False
    then have "(i, k) \<in> set (ws @ [w]) \<longleftrightarrow> (i, k) \<in> set ws" for k by auto
    with snoc False show ?thesis by (simp add: AList.update_conv')
  qed
qed simp

text \<open>
  For every entry list with unique ids the search returns, also when parents dangle or form
  cycles, and the indent of a row is the number of forks above it.
\<close>

lemma visible_display_depths_returns:
  assumes dist: "distinct (map entry_id entries)"
  obtains depths where "visible_display_depths entries visible = Some depths"
    "\<And>x path. x \<in> set entries \<Longrightarrow> root_path (index_of entries) x path \<Longrightarrow> all_shown path \<Longrightarrow>
       entry_id x \<in> visible \<Longrightarrow> map_of depths (entry_id x) = Some (fork_depth entries path)"
proof -
  let ?roots = "get_or_empty (display_children entries) None"
  let ?S = "\<Union>c\<in>set ?roots. depths_below entries visible [c]"
  have "fork_depth entries [c] = 0" for c by (simp add: fork_depth_def)
  then have "\<exists>ws. set ws = depths_below entries visible [c] \<and>
      (\<forall>stack acc. depth_loop (display_children entries) visible ((c, 0) # stack) acc
        = depth_loop (display_children entries) visible stack (store_depths ws acc))"
    if "c \<in> set ?roots" for c
    using depth_loop_entry[OF dist, of c "[c]"] that
    by (simp add: display_children_get all_shown_def root_path.root)
  from depth_loop_list[of ?roots "\<lambda>c. depths_below entries visible [c]", OF this] obtain ws
    where ws: "set ws = ?S"
      "\<And>stack acc. depth_loop (display_children entries) visible (map (\<lambda>c. (c, 0)) ?roots @ stack) acc
        = depth_loop (display_children entries) visible stack (store_depths ws acc)" by blast
  have returns: "visible_display_depths entries visible = Some (store_depths ws [])"
    using ws(2)[of "[]" "[]"] unfolding visible_display_depths_def
    by (simp add: depth_loop.simps[of _ _ "[]"])
  have unique: "(entry_id x, k) \<in> set ws \<longleftrightarrow> k = fork_depth entries path"
    if x: "x \<in> set entries" "root_path (index_of entries) x path" "all_shown path" "entry_id x \<in> visible"
    for x path k
  proof
    assume "(entry_id x, k) \<in> set ws"
    then obtain y q where "entry_id y = entry_id x" "k = fork_depth entries q" "y \<in> set entries"
      "root_path (index_of entries) y q" unfolding ws(1) by (auto simp: depths_below_def)
    moreover from this dist x(1) have "y = x" by (auto simp: distinct_map dest: inj_onD)
    ultimately show "k = fork_depth entries path" using root_path_unique x(2) by blast
  next
    assume k: "k = fork_depth entries path"
    from root_path_last[OF x(2)] obtain c r where path: "path = c # r" by (cases path) auto
    from root_path_in_index[OF x(2), of c] path x(1) dist have "c \<in> set entries"
      by (auto simp: map_of_index_of)
    with root_path_hd[OF x(2)] path x(3) have "c \<in> set ?roots"
      by (simp add: display_children_get all_shown_def)
    moreover have "(entry_id x, k) \<in> depths_below entries visible [c]"
      unfolding depths_below_def
      by (intro CollectI exI[of _ x] exI[of _ r]) (use x k path in simp)
    ultimately show "(entry_id x, k) \<in> set ws" unfolding ws(1) by blast
  qed
  show ?thesis
  proof (rule that[OF returns])
    fix x path assume "x \<in> set entries" "root_path (index_of entries) x path" "all_shown path"
      "entry_id x \<in> visible"
    from unique[OF this] show "map_of (store_depths ws []) (entry_id x) = Some (fork_depth entries path)"
      by (subst map_of_store_depths) auto
  qed
qed

section \<open>The snapshot of a well-formed log\<close>

lemma branch_choices_log:
  assumes "log_wf {} entries"
  shows "\<exists>choices. session_tree_branch_choices_by_parent J entries (index_of entries) (visible_ids entries)
      active (build_children_by_parent entries) = Some (Ok choices)
    \<and> (\<forall>i. get_or_empty choices i =
        (let sibs = filter (\<lambda>e. visible_parent entries e = Some i) (filter is_row entries)
         in if length sibs < 2 then []
            else map (\<lambda>b. \<lparr>choice_branch = branch_summary_spec J entries (\<lambda>b. entry_id b \<in> active) b\<rparr>) sibs))"
proof -
  let ?groups = "group_by (visible_parent entries) (filter is_row entries) []"
  let ?choice = "\<lambda>b. \<lparr>choice_branch = branch_summary_spec J entries (\<lambda>b. entry_id b \<in> active) b\<rparr>"
  let ?of = "\<lambda>(p :: ustring, sibs). if length sibs < 2 then None else Some (p, map ?choice sibs)"
  have groups: "outcome_group_by (\<lambda>e. nearest_visible_parent_id e (index_of entries) (visible_ids entries))
      (filter is_row entries) [] = Some (Ok ?groups)"
    by (rule outcome_group_by_Ok) (simp add: nearest_visible_in_log[OF assms])
  have "try_map (branch_choices_of J entries (index_of entries) (visible_ids entries) active
      (build_children_by_parent entries)) ?groups = Ok (map ?of ?groups)"
  proof (rule try_map_Ok)
    fix g assume mem: "g \<in> set ?groups"
    obtain p sibs where pair: "g = (p, sibs)" by (rule prod.exhaust)
    from mem[unfolded pair group_by_member]
    have g: "g = (p, filter (\<lambda>e. visible_parent entries e = Some p) (filter is_row entries))"
      by (simp add: pair)
    have "try_map (summarise_branch J entries (index_of entries) (visible_ids entries)
          (build_children_by_parent entries) (\<lambda>b. entry_id b \<in> active)) (snd g)
      = Ok (map (branch_summary_spec J entries (\<lambda>b. entry_id b \<in> active)) (snd g))"
      by (rule try_map_Ok, rule summarise_branch_log[OF assms]) (auto simp: g)
    then show "branch_choices_of J entries (index_of entries) (visible_ids entries) active
      (build_children_by_parent entries) g = Ok (?of g)"
      by (simp add: branch_choices_of_def g comp_def)
  qed
  moreover have "map_of (filter_map (\<lambda>c. c) (map ?of m)) i =
      (case map_of m i of None \<Rightarrow> None
       | Some sibs \<Rightarrow> if length sibs < 2 then None else Some (map ?choice sibs))"
    if "distinct (map fst m)" for i and m
    using that
  proof (induction m)
    case (Cons g m)
    obtain p sibs where g: "g = (p, sibs)" by (cases g)
    with Cons have "map_of m p = None" by (simp add: map_of_eq_None_iff)
    with Cons g show ?case by auto
  qed simp
  from this[OF distinct_group_by]
  have "map_of (filter_map (\<lambda>c. c) (map ?of ?groups)) i =
      (case map_of ?groups i of None \<Rightarrow> None
       | Some sibs \<Rightarrow> if length sibs < 2 then None else Some (map ?choice sibs))" for i by simp
  then have "get_or_empty (filter_map (\<lambda>c. c) (map ?of ?groups)) i =
        (let sibs = filter (\<lambda>e. visible_parent entries e = Some i) (filter is_row entries)
         in if length sibs < 2 then [] else map ?choice sibs)" for i
    unfolding get_or_empty_def map_of_group_by_Nil by (auto simp: Let_def)
  ultimately show ?thesis
    unfolding session_tree_branch_choices_by_parent_def filter_visible_eq[OF assms] groups by simp
qed

definition row_spec ::
  "json_api \<Rightarrow> session_entry list \<Rightarrow> session_entry list \<Rightarrow> session_entry \<Rightarrow> snapshot_row" where
  "row_spec J entries path e =
     (let k = the (session_tree_row_kind e);
          children = build_children_by_parent entries;
          active = entry_id ` set path;
          visible = visible_ids entries;
          targets = restore_targets entries visible children active;
          batch = tool_call_batch_rewind_targets_for_path path targets;
          content = row_preview_content J e k children;
          sibs = filter (\<lambda>d. visible_parent entries d = Some (entry_id e)) (filter is_row entries)
      in \<lparr>row_id = entry_id e, row_parent_id = visible_parent entries e, display_depth = 0, row_kind_of = k,
          row_display_text = single_line_display_text content,
          row_summary = truncate_chars_with_ellipsis (single_line_display_text content)
             session_tree_summary_char_limit,
          preview_content = content,
          preview_replay_items = row_preview_replay_items J e k children,
          rewind_target_id = rewind_target_for_tree_row e k visible targets batch children,
          rewind_prefill = (if k = RowUser then Some content else None),
          branch_choices = (if length sibs < 2 then []
            else map (\<lambda>b. \<lparr>choice_branch = branch_summary_spec J entries (\<lambda>b. entry_id b \<in> active) b\<rparr>) sibs)\<rparr>)"

lemma snapshot_row_log:
  assumes "log_wf {} entries" "e \<in> set entries" "is_row e"
  shows "session_tree_snapshot_row J e (index_of entries) (visible_ids entries)
      (restore_targets entries (visible_ids entries) (build_children_by_parent entries) (entry_id ` set path))
      (tool_call_batch_rewind_targets_for_path path
         (restore_targets entries (visible_ids entries) (build_children_by_parent entries) (entry_id ` set path)))
      (build_children_by_parent entries)
      (let sibs = filter (\<lambda>d. visible_parent entries d = Some (entry_id e)) (filter is_row entries)
       in if length sibs < 2 then []
          else map (\<lambda>b. \<lparr>choice_branch = branch_summary_spec J entries (\<lambda>b. entry_id b \<in> entry_id ` set path) b\<rparr>) sibs)
    = Some (Ok (Some (row_spec J entries path e)))"
proof -
  from assms(3) obtain k where k: "session_tree_row_kind e = Some k" by auto
  show ?thesis
    unfolding session_tree_snapshot_row_def k option.case Let_def nearest_visible_in_log[OF assms(1,2)]
      outcome_then_simps row_spec_def option.sel ..
qed

lemma filter_map_Some: "filter_map (\<lambda>r. r) (map (\<lambda>x. Some (f x)) xs) = map f xs"
  by (induction xs) auto

lemma snapshot_from_start_log:
  assumes "log_wf {} entries" "leaf \<in> set entries"
    "resolve_path (index_of entries) requested = Ok (ancestry (index_of entries) leaf)"
    "path = ancestry (index_of entries) leaf" "i = start_index start path (visible_ids entries)"
  shows "\<exists>depths. visible_display_depths entries (visible_ids entries) = Some depths
    \<and> snapshot_from_start J entries (Some requested) start = Some (Ok
       \<lparr>rows = indent_rows start depths (map (row_spec J entries path) (filter is_row (drop i path))),
        current_row_id = last_opt (map entry_id (filter is_row (drop i path))),
        active_row_ids = entry_id ` set (filter is_row (drop i path))\<rparr>)"
proof -
  from log_wf_distinct[OF assms(1)] have dist: "distinct (map entry_id entries)" by simp
  obtain depths where depths: "visible_display_depths entries (visible_ids entries) = Some depths"
    using visible_display_depths_returns[OF dist] by metis
  have sub: "set path \<subseteq> set entries" using ancestry_in_log[OF assms(1,2)] assms(4) by blast
  have vis: "entry_id e \<in> visible_ids entries \<longleftrightarrow> is_row e" if "e \<in> set path" for e
    using visible_ids_iff[OF dist] that sub by blast
  have shown: "filter (\<lambda>e. entry_id e \<in> entry_id ` set (filter (\<lambda>e. entry_id e \<in> visible_ids entries) path))
      (drop i path) = filter is_row (drop i path)"
  proof (rule filter_cong[OF refl])
    fix e assume e: "e \<in> set (drop i path)"
    then have "e \<in> set path" by (rule in_set_dropD)
    then show "entry_id e \<in> entry_id ` set (filter (\<lambda>e. entry_id e \<in> visible_ids entries) path) \<longleftrightarrow> is_row e"
      using vis by (auto simp: image_iff) metis
  qed
  obtain choices where choices: "session_tree_branch_choices_by_parent J entries (index_of entries)
      (visible_ids entries) (entry_id ` set path) (build_children_by_parent entries) = Some (Ok choices)"
    "\<And>i. get_or_empty choices i =
        (let sibs = filter (\<lambda>e. visible_parent entries e = Some i) (filter is_row entries)
         in if length sibs < 2 then []
            else map (\<lambda>b. \<lparr>choice_branch =
              branch_summary_spec J entries (\<lambda>b. entry_id b \<in> entry_id ` set path) b\<rparr>) sibs)"
    using branch_choices_log[OF assms(1), of J "entry_id ` set path"] by (elim exE conjE) blast
  have rs: "outcome_map (\<lambda>e. session_tree_snapshot_row J e (index_of entries) (visible_ids entries)
      (restore_targets entries (visible_ids entries) (build_children_by_parent entries) (entry_id ` set path))
      (tool_call_batch_rewind_targets_for_path path
         (restore_targets entries (visible_ids entries) (build_children_by_parent entries) (entry_id ` set path)))
      (build_children_by_parent entries) (get_or_empty choices (entry_id e))) (filter is_row (drop i path))
    = Some (Ok (map (\<lambda>e. Some (row_spec J entries path e)) (filter is_row (drop i path))))"
    unfolding choices(2)
    by (rule outcome_map_Ok, rule snapshot_row_log[OF assms(1)]) (use sub in \<open>auto dest: in_set_dropD\<close>)
  show ?thesis
    unfolding snapshot_from_start_def log_wf_index[OF assms(1)] log_wf_validate[OF assms(1)]
      outcome_then_simps option.case assms(3) Let_def assms(4)[symmetric] assms(5)[symmetric]
      shown choices(1) rs depths filter_map_Some by blast
qed

section \<open>Chains of rows and the branch preview\<close>

lemma split_at_kept: "filter P zs = xs @ y # ys \<Longrightarrow> \<exists>as bs. zs = as @ y # bs \<and> filter P as = xs"
proof (induction zs arbitrary: xs)
  case (Cons z zs)
  consider "P z" "xs = []" | x xs' where "P z" "xs = x # xs'" | "\<not> P z" by (cases xs) auto
  then show ?case
  proof cases
    case 1
    with Cons.prems show ?thesis by (intro exI[of _ "[]"] exI[of _ zs]) auto
  next
    case 2
    with Cons.prems Cons.IH[of xs'] obtain as bs where "zs = as @ y # bs" "filter P as = xs'" "x = z" by auto
    with 2 show ?thesis by (intro exI[of _ "z # as"] exI[of _ bs]) auto
  next
    case 3
    with Cons.prems Cons.IH[of xs] obtain as bs where "zs = as @ y # bs" "filter P as = xs" by auto
    with 3 show ?thesis by (intro exI[of _ "z # as"] exI[of _ bs]) auto
  qed
qed simp

text \<open>The parent of a row in the snapshot is the row above it.\<close>

lemma row_parent_is_previous:
  assumes "log_wf {} entries" "leaf \<in> set entries"
    "filter is_row (ancestry (index_of entries) leaf) = xs @ r # ys"
  shows "visible_parent entries r = map_option entry_id (last_opt xs)"
proof -
  from split_at_kept[OF assms(3)] obtain as bs
    where split: "ancestry (index_of entries) leaf = as @ r # bs" and before: "filter is_row as = xs"
    by (elim exE conjE)
  note mem = ancestry_prefix[OF assms(1,2) split]
  show ?thesis
    unfolding visible_parent_rows[OF assms(1) mem(1)] mem(2) butlast_snoc before ..
qed

lemma position_drop:
  "position P xs = Some i \<Longrightarrow> drop i xs = dropWhile (\<lambda>x. \<not> P x) xs"
  by (induction xs arbitrary: i) (auto split: if_splits)

lemma filter_dropWhile:
  "\<forall>x\<in>set xs. Q x \<longrightarrow> P x \<Longrightarrow> filter P (dropWhile (\<lambda>x. \<not> Q x) xs) = dropWhile (\<lambda>x. \<not> Q x) (filter P xs)"
  by (induction xs) auto

lemma rows_from_start:
  assumes "distinct (map entry_id entries)" "set path \<subseteq> set entries" "b \<in> set path" "is_row b"
  shows "filter is_row (drop (start_index (Some (entry_id b)) path (visible_ids entries)) path)
    = dropWhile (\<lambda>e. entry_id e \<noteq> entry_id b) (filter is_row path)"
proof -
  from assms visible_ids_iff[OF assms(1)] have vis: "entry_id b \<in> visible_ids entries" by blast
  obtain i where i: "position (\<lambda>e. entry_id e = entry_id b) path = Some i"
    using assms(3) position_None[of "\<lambda>e. entry_id e = entry_id b" path] by auto
  with vis have "start_index (Some (entry_id b)) path (visible_ids entries) = i"
    by (simp add: start_index_def)
  moreover have "e = b" if "e \<in> set path" "entry_id e = entry_id b" for e
    using that assms(1,2,3) by (auto simp: distinct_map dest: inj_onD)
  then have "\<forall>e\<in>set path. entry_id e = entry_id b \<longrightarrow> is_row e" using assms(4) by blast
  ultimately show ?thesis by (simp only: position_drop[OF i] filter_dropWhile)
qed

definition newest_below :: "session_entry list \<Rightarrow> session_entry \<Rightarrow> session_entry" where
  "newest_below entries b =
     last (filter (\<lambda>e. \<not> is_leaf_kind (kind e) \<and> in_subtree (index_of entries) (entry_id b) e) entries)"

lemma newest_below_facts:
  assumes "log_wf {} entries" "b \<in> set entries" "is_row b"
  shows "newest_below entries b \<in> set entries" "\<not> is_leaf_kind (kind (newest_below entries b))"
    "b \<in> set (ancestry (index_of entries) (newest_below entries b))"
    "latest_non_leaf_descendant entries (index_of entries) (entry_id b) = Ok (newest_below entries b)"
proof -
  let ?below = "filter (\<lambda>e. \<not> is_leaf_kind (kind e) \<and> in_subtree (index_of entries) (entry_id b) e) entries"
  have "b \<in> set ?below"
    using in_own_subtree[OF assms(1,2)] assms(2) row_not_leaf[OF assms(3)] by simp
  then have ne: "?below \<noteq> []" by (metis list.distinct(1) list.set_cases)
  then have mem: "newest_below entries b \<in> set ?below" unfolding newest_below_def by (rule last_in_set)
  then show new: "newest_below entries b \<in> set entries" "\<not> is_leaf_kind (kind (newest_below entries b))" by auto
  from mem obtain x where x: "x \<in> set (ancestry (index_of entries) (newest_below entries b))"
    "entry_id x = entry_id b" by (auto simp: in_subtree_def)
  from ancestry_in_log[OF assms(1) new(1) x(1)] x(2) assms(2) log_wf_distinct[OF assms(1)] have "x = b"
    by (auto simp: distinct_map dest: inj_onD)
  with x(1) show "b \<in> set (ancestry (index_of entries) (newest_below entries b))" by simp
  show "latest_non_leaf_descendant entries (index_of entries) (entry_id b) = Ok (newest_below entries b)"
    unfolding latest_non_leaf_descendant_def latest_visible_in_log[OF assms(1)]
    using ne by (simp add: last_opt_eq conj_commute newest_below_def)
qed

lemma resolve_path_non_leaf:
  assumes "log_wf {} entries" "e \<in> set entries" "\<not> is_leaf_kind (kind e)"
  shows "resolve_path (index_of entries) (entry_id e) = Ok (ancestry (index_of entries) e)"
proof (rule resolve_path_grounded[OF log_wf_grounded[OF assms(1)]])
  from assms(3) have "effective_leaf_id (index_of entries) (entry_id e) = entry_id e"
    by (simp add: effective_leaf_id_def log_wf_lookup[OF assms(1,2)] is_leaf_kind_def split: entry_kind.splits)
  then show "map_of (index_of entries) (effective_leaf_id (index_of entries) (entry_id e)) = Some e"
    by (simp add: log_wf_lookup[OF assms(1,2)])
qed

lemma visible_parent_entry:
  assumes "log_wf {} entries" "e \<in> set entries" "visible_parent entries e = Some i"
  shows "\<exists>p\<in>set (ancestry (index_of entries) e). is_row p \<and> entry_id p = i"
proof -
  from assms(3) have ne: "filter is_row (butlast (ancestry (index_of entries) e)) \<noteq> []"
    and i: "i = entry_id (last (filter is_row (butlast (ancestry (index_of entries) e))))"
    unfolding visible_parent_rows[OF assms(1,2)] by (auto simp: last_opt_eq split: if_splits)
  from last_in_set[OF ne] i show ?thesis by (auto dest: in_set_butlastD)
qed

lemma branch_preview_log:
  assumes "log_wf {} entries" "b \<in> set entries" "is_row b"
    "start = (case visible_parent entries b of Some i \<Rightarrow> i | None \<Rightarrow> entry_id b)"
    "path = ancestry (index_of entries) (newest_below entries b)"
  shows "\<exists>snap. session_branch_preview_snapshot J entries (entry_id b) = Some (Ok snap)
    \<and> map row_id (rows snap) = map entry_id (dropWhile (\<lambda>e. entry_id e \<noteq> start) (filter is_row path))"
proof -
  note new = newest_below_facts[OF assms(1-3)]
  from log_wf_distinct[OF assms(1)] have dist: "distinct (map entry_id entries)" by simp
  have vis: "entry_id b \<in> visible_ids entries" using visible_ids_iff[OF dist assms(2)] assms(3) by simp
  have sub: "set path \<subseteq> set entries" using ancestry_in_log[OF assms(1) new(1)] assms(5) by blast
  obtain s where s: "s \<in> set path" "is_row s" "entry_id s = start"
  proof (cases "visible_parent entries b")
    case None
    with assms new(3) show ?thesis by (intro that[of b]) auto
  next
    case (Some i)
    from visible_parent_entry[OF assms(1,2) Some] obtain p
      where p: "p \<in> set (ancestry (index_of entries) b)" "is_row p" "entry_id p = i" by blast
    from new(3) obtain us vs where split: "ancestry (index_of entries) (newest_below entries b) = us @ b # vs"
      by (auto dest: split_list)
    from p(1) ancestry_prefix(2)[OF assms(1) new(1) split] split have "p \<in> set path"
      by (auto simp: assms(5))
    with p Some show ?thesis by (intro that[of p]) (auto simp: assms(4))
  qed
  from snapshot_from_start_log[OF assms(1) new(1) resolve_path_non_leaf[OF assms(1) new(1,2)] assms(5) refl,
      where start = "Some start" and J = J] obtain depths
    where snap: "snapshot_from_start J entries (Some (entry_id (newest_below entries b))) (Some start) = Some (Ok
       \<lparr>rows = indent_rows (Some start) depths (map (row_spec J entries path)
           (filter is_row (drop (start_index (Some start) path (visible_ids entries)) path))),
        current_row_id = last_opt (map entry_id
           (filter is_row (drop (start_index (Some start) path (visible_ids entries)) path))),
        active_row_ids = entry_id ` set
           (filter is_row (drop (start_index (Some start) path (visible_ids entries)) path))\<rparr>)"
    by (elim exE conjE)
  have ids: "map row_id (indent_rows st depths (map (row_spec J entries path) xs)) = map entry_id xs" for st xs
    by (simp add: indent_rows_def Let_def row_spec_def)
  have "session_branch_preview_snapshot J entries (entry_id b)
      = snapshot_from_start J entries (Some (entry_id (newest_below entries b))) (Some start)"
    unfolding session_branch_preview_snapshot_def log_wf_index[OF assms(1)] log_wf_validate[OF assms(1)]
      outcome_then_simps Let_def log_wf_lookup[OF assms(1,2)] option.case if_P[OF vis] ok_or_simps
      new(4) nearest_visible_in_log[OF assms(1,2)] assms(4) ..
  then show ?thesis
    unfolding snap using rows_from_start[OF dist sub s(1,2)] ids by (simp add: s(3))
qed

end
