(* ===== verification/Meta_Derive.thy ===== *)
theory Meta_Derive
  imports Session_Entry
begin

text \<open>
  The session metadata of the catalogue, derived from the entries by one pass,
  \<^verbatim>\<open>session-store/src/meta_derive.rs\<close> with \<^verbatim>\<open>SessionMeta\<close> of \<^verbatim>\<open>lib.rs\<close>.  Paths are their text;
  canonicalising a path asks the file system, so it is an argument, as is the text of a UUID.
  The lemmas say that the pass computes first and last values of the entries.
\<close>

record session_meta =
  meta_session_id :: session_id
  meta_project_dir :: ustring
  meta_title :: ustring
  meta_preview :: "ustring option"
  meta_first_user :: "ustring option"
  meta_last_assistant :: "ustring option"
  meta_total_tokens :: nat
  meta_model :: "ustring option"
  meta_created_at :: int
  meta_updated_at :: int
  meta_git_head :: "ustring option"
  meta_jsonl_path :: ustring
  meta_size_bytes :: "nat option"

record meta_deriver =
  header_entry :: "(session_header \<times> int) option"
  first_user_message :: "ustring option"
  latest_user_message :: "ustring option"
  latest_assistant_message :: "ustring option"
  latest_model :: "ustring option"
  last_updated_at :: "int option"

definition empty_deriver :: meta_deriver where
  "empty_deriver = \<lparr>header_entry = None, first_user_message = None, latest_user_message = None,
     latest_assistant_message = None, latest_model = None, last_updated_at = None\<rparr>"

definition session_title_fallback_char_limit :: nat where "session_title_fallback_char_limit = 50"
definition session_message_preview_char_limit :: nat where "session_message_preview_char_limit = 256"

definition observe :: "meta_deriver \<Rightarrow> session_entry \<Rightarrow> meta_deriver" where
  "observe d e =
     (let d = d\<lparr>last_updated_at := Some (timestamp e)\<rparr>
      in case kind e of
           Header h \<Rightarrow> if header_entry d = None then d\<lparr>header_entry := Some (h, timestamp e)\<rparr> else d
         | Item item \<Rightarrow>
             if item_role item = Some User
             then (let s = summary_text_content item;
                       d = (if first_user_message d = None then d\<lparr>first_user_message := Some s\<rparr> else d)
                   in d\<lparr>latest_user_message := Some s\<rparr>)
             else if item_role item = Some Assistant
             then d\<lparr>latest_assistant_message := Some (summary_text_content item)\<rparr>
             else d
         | ConfigChange snapshot \<Rightarrow> d\<lparr>latest_model := Some (config_model snapshot)\<rparr>
         | _ \<Rightarrow> d)"

definition not_empty :: "ustring option \<Rightarrow> ustring option" where
  "not_empty s = (case s of Some t \<Rightarrow> if t = [] then None else Some t | None \<Rightarrow> None)"

definition preview_of :: "ustring option \<Rightarrow> ustring option" where
  "preview_of s = not_empty (map_option (\<lambda>t. truncate_chars t session_message_preview_char_limit) s)"

definition title_of :: "(uuid \<Rightarrow> ustring) \<Rightarrow> session_header \<Rightarrow> ustring option \<Rightarrow> ustring" where
  "title_of show_uuid h first_user =
     (case not_empty (or_else (not_empty (map_option utrim (session_name h)))
              (map_option (\<lambda>t. truncate_chars t session_title_fallback_char_limit) first_user)) of
        Some t \<Rightarrow> t
      | None \<Rightarrow> show_uuid (header_session_id h))"

definition finish_meta ::
  "(uuid \<Rightarrow> ustring) \<Rightarrow> (ustring \<Rightarrow> ustring) \<Rightarrow> meta_deriver \<Rightarrow> ustring \<Rightarrow> nat option
     \<Rightarrow> store_error + session_meta" where
  "finish_meta show_uuid canonicalize d path bytes =
     and_then (ok_or MissingHeader (header_entry d)) (\<lambda>(h, created).
       Ok \<lparr>meta_session_id = header_session_id h,
           meta_project_dir = canonicalize (work_dir h),
           meta_title = title_of show_uuid h (first_user_message d),
           meta_preview = preview_of (latest_user_message d),
           meta_first_user = preview_of (first_user_message d),
           meta_last_assistant = preview_of (latest_assistant_message d),
           meta_total_tokens = 0,
           meta_model = or_else (latest_model d) (Some (initial_model h)),
           meta_created_at = created,
           meta_updated_at = (case last_updated_at d of Some t \<Rightarrow> t | None \<Rightarrow> created),
           meta_git_head = header_git_head h,
           meta_jsonl_path = path,
           meta_size_bytes = bytes\<rparr>)"

definition derive_session_meta ::
  "(uuid \<Rightarrow> ustring) \<Rightarrow> (ustring \<Rightarrow> ustring) \<Rightarrow> session_entry list \<Rightarrow> ustring \<Rightarrow> nat option
     \<Rightarrow> store_error + session_meta" where
  "derive_session_meta show_uuid canonicalize entries path bytes =
     finish_meta show_uuid canonicalize (foldl observe empty_deriver entries) path bytes"

section \<open>What the pass computes\<close>

definition role_text :: "role \<Rightarrow> session_entry \<Rightarrow> ustring option" where
  "role_text r e =
     (case kind e of
        Item item \<Rightarrow> if item_role item = Some r then Some (summary_text_content item) else None
      | _ \<Rightarrow> None)"

definition header_of :: "session_entry \<Rightarrow> (session_header \<times> int) option" where
  "header_of e = (case kind e of Header h \<Rightarrow> Some (h, timestamp e) | _ \<Rightarrow> None)"

definition model_of :: "session_entry \<Rightarrow> ustring option" where
  "model_of e = (case kind e of ConfigChange s \<Rightarrow> Some (config_model s) | _ \<Rightarrow> None)"

definition first_opt :: "'a list \<Rightarrow> 'a option" where
  "first_opt xs = (case xs of [] \<Rightarrow> None | x # _ \<Rightarrow> Some x)"

definition deriver_of :: "session_entry list \<Rightarrow> meta_deriver" where
  "deriver_of entries =
     \<lparr>header_entry = first_opt (filter_map header_of entries),
      first_user_message = first_opt (filter_map (role_text User) entries),
      latest_user_message = last_opt (filter_map (role_text User) entries),
      latest_assistant_message = last_opt (filter_map (role_text Assistant) entries),
      latest_model = last_opt (filter_map model_of entries),
      last_updated_at = map_option timestamp (last_opt entries)\<rparr>"

lemma first_opt_snoc: "first_opt (xs @ [x]) = or_else (first_opt xs) (Some x)"
  by (cases xs) (simp_all add: first_opt_def or_else_def)

lemma observe_eq:
  "observe d e =
     \<lparr>header_entry = or_else (header_entry d) (header_of e),
      first_user_message = or_else (first_user_message d) (role_text User e),
      latest_user_message = or_else (role_text User e) (latest_user_message d),
      latest_assistant_message = or_else (role_text Assistant e) (latest_assistant_message d),
      latest_model = or_else (model_of e) (latest_model d),
      last_updated_at = Some (timestamp e)\<rparr>"
  by (cases d)
     (auto simp: observe_def header_of_def role_text_def model_of_def or_else_def Let_def
        split: entry_kind.splits option.splits)

lemma filter_map_snoc:
  "first_opt (filter_map f (xs @ [x])) = or_else (first_opt (filter_map f xs)) (f x)"
  "last_opt (filter_map f (xs @ [x])) = or_else (f x) (last_opt (filter_map f xs))"
  by (auto simp: first_opt_snoc or_else_def split: option.splits)

lemma observe_all: "foldl observe empty_deriver entries = deriver_of entries"
proof (induction entries rule: rev_induct)
  case Nil
  then show ?case by (simp add: empty_deriver_def deriver_of_def first_opt_def)
next
  case (snoc e entries)
  have "deriver_of (entries @ [e]) = observe (deriver_of entries) e"
    unfolding deriver_of_def observe_eq filter_map_snoc by simp
  with snoc show ?case by simp
qed

lemma derive_session_meta_eq:
  "derive_session_meta show_uuid canonicalize entries path bytes =
     finish_meta show_uuid canonicalize (deriver_of entries) path bytes"
  by (simp add: derive_session_meta_def observe_all)

lemma derive_meta_total:
  assumes "entries = e # rest" "kind e = Header h"
  shows "\<exists>m. derive_session_meta show_uuid canonicalize entries path bytes = Ok m"
  using assms
  by (simp add: derive_session_meta_eq finish_meta_def deriver_of_def first_opt_def header_of_def)

lemma title_not_empty:
  assumes "show_uuid (header_session_id h) \<noteq> []"
  shows "title_of show_uuid h first_user \<noteq> []"
  using assms by (auto simp: title_of_def not_empty_def or_else_def split: option.splits if_splits)

lemma preview_bounds:
  "preview_of s = Some t \<Longrightarrow> t \<noteq> [] \<and> length t \<le> session_message_preview_char_limit"
  by (auto simp: preview_of_def not_empty_def truncate_chars_def split: option.splits if_splits)

end
