(* ===== verification/Session_Files.thy ===== *)
theory Session_Files
  imports Session_Entry "HOL-Library.Signed_Division"
begin

text \<open>
  Names of session files and directories, \<^verbatim>\<open>session-store/src/lib.rs\<close>: the time stamp in a
  file name, its calendar arithmetic, and the directory name made from a project's path.
  The division of Rust's \<^verbatim>\<open>i64\<close> truncates towards zero, which is \<open>sdiv\<close>.  No
  intermediate value leaves the 64-bit range, since the time stamp has at most 48 bits
  (\<open>timestamp_millis_bound\<close>), so \<^typ>\<open>int\<close> is exact here.
\<close>

section \<open>The code\<close>

definition civil_from_days :: "int \<Rightarrow> int \<times> int \<times> int" where
  "civil_from_days days_since_epoch =
     (let shifted_days = days_since_epoch + 719468;
          era = (if 0 \<le> shifted_days then shifted_days sdiv 146097
                 else (shifted_days - 146096) sdiv 146097);
          day_of_era = shifted_days - era * 146097;
          year_of_era = (day_of_era - day_of_era sdiv 1460 + day_of_era sdiv 36524
                          - day_of_era sdiv 146096) sdiv 365;
          year = year_of_era + era * 400;
          day_of_year = day_of_era - (365 * year_of_era + year_of_era sdiv 4 - year_of_era sdiv 100);
          month_piece = (5 * day_of_year + 2) sdiv 153;
          day = day_of_year - (153 * month_piece + 2) sdiv 5 + 1;
          month = month_piece + (if month_piece < 10 then 3 else -9);
          year = year + (if month \<le> 2 then 1 else 0)
      in (year, month, day))"

text \<open>\<^verbatim>\<open>{:0width$}\<close> for a number that is not negative.\<close>

function decimal :: "nat \<Rightarrow> ustring" where
  "decimal n = (if n < 10 then [48 + n] else decimal (n div 10) @ [48 + n mod 10])"
  by pat_completeness auto
termination by (relation "measure id") auto

declare decimal.simps [simp del]

definition padded :: "nat \<Rightarrow> int \<Rightarrow> ustring" where
  "padded width n =
     replicate (width - length (decimal (nat n))) 48 @ decimal (nat n)"

definition format_filename_timestamp_millis :: "64 word \<Rightarrow> ustring" where
  "format_filename_timestamp_millis timestamp_ms =
     (let seconds = min (int (unat timestamp_ms div 1000)) i64_max;
          seconds_of_day = seconds mod 86400
      in case civil_from_days (seconds div 86400) of (year, month, day) \<Rightarrow>
         padded 4 year @ lit ''-'' @ padded 2 month @ lit ''-'' @ padded 2 day @ lit ''T''
         @ padded 2 (seconds_of_day sdiv 3600) @ lit ''-''
         @ padded 2 (seconds_of_day mod 3600 sdiv 60) @ lit ''-'' @ padded 2 (seconds_of_day mod 60))"

definition session_filename :: "(uuid \<Rightarrow> ustring) \<Rightarrow> session_id \<Rightarrow> ustring" where
  "session_filename show_uuid sid =
     format_filename_timestamp_millis (timestamp_millis sid) @ lit ''_'' @ show_uuid sid @ lit ''.jsonl''"

definition encoded_session_dir :: "ustring \<Rightarrow> ustring" where
  "encoded_session_dir path =
     (let text = (case path of [] \<Rightarrow> [] | c # cs \<Rightarrow> if c = 47 then cs else path)
      in lit ''--'' @ map (\<lambda>c. if c = 47 then 45 else c) text @ lit ''--'')"

section \<open>The calendar\<close>

text \<open>
  The reference is the Gregorian calendar itself: the day after a date.  The code is right
  when day 0 is 1970-01-01 and one more day is the next date.
\<close>

definition leap :: "int \<Rightarrow> bool" where
  "leap y \<longleftrightarrow> y mod 4 = 0 \<and> (y mod 100 \<noteq> 0 \<or> y mod 400 = 0)"

definition days_in_month :: "int \<Rightarrow> int \<Rightarrow> int" where
  "days_in_month y m =
     (if m = 2 then (if leap y then 29 else 28) else if m \<in> {4, 6, 9, 11} then 30 else 31)"

fun next_day :: "int \<times> int \<times> int \<Rightarrow> int \<times> int \<times> int" where
  "next_day (y, m, d) =
     (if d < days_in_month y m then (y, m, d + 1)
      else if m < 12 then (y, m + 1, 1)
      else (y + 1, 1, 1))"

lemma sdiv_pos: "0 \<le> a \<Longrightarrow> 0 < b \<Longrightarrow> a sdiv b = a div b" for a b :: int
  by (cases "a = 0") (simp_all add: signed_divide_int_def)

lemma sdiv_era: "(if 0 \<le> s then s sdiv 146097 else (s - 146096) sdiv 146097) = s div 146097" for s :: int
proof (cases "0 \<le> s")
  case False
  then have "(s - 146096) sdiv 146097 = - ((146096 - s) div 146097)"
    by (simp add: signed_divide_int_def)
  also have "\<dots> = s div 146097" by linarith
  finally show ?thesis using False by simp
qed (simp add: sdiv_pos)

text \<open>
  Years here begin in March, so that the leap day is the last day of a year.  A day of the
  400-year era is century \<open>a\<close>, four-year cycle \<open>b\<close>, year \<open>k\<close> and day \<open>j\<close> of that year.
\<close>

definition era_day :: "int \<Rightarrow> int \<Rightarrow> int \<Rightarrow> int \<Rightarrow> bool" where
  "era_day a b k j \<longleftrightarrow> 0 \<le> a \<and> a \<le> 3 \<and> 0 \<le> b \<and> b \<le> 24 \<and> 0 \<le> k \<and> k \<le> 3 \<and> 0 \<le> j
     \<and> j \<le> (if k = 3 \<and> (b < 24 \<or> a = 3) then 365 else 364)"

definition month_day :: "int \<Rightarrow> int \<times> int" where
  "month_day doy =
     (if doy < 31 then (3, doy + 1) else if doy < 61 then (4, doy - 30)
      else if doy < 92 then (5, doy - 60) else if doy < 122 then (6, doy - 91)
      else if doy < 153 then (7, doy - 121) else if doy < 184 then (8, doy - 152)
      else if doy < 214 then (9, doy - 183) else if doy < 245 then (10, doy - 213)
      else if doy < 275 then (11, doy - 244) else if doy < 306 then (12, doy - 274)
      else if doy < 337 then (1, doy - 305) else (2, doy - 336))"

lemma month_piece:
  assumes "0 \<le> doy" "doy \<le> 365"
  shows "(let mp = (5 * doy + 2) div 153
      in (mp + (if mp < 10 then 3 else -9), doy - (153 * mp + 2) div 5 + 1)) = month_day doy"
proof -
  have mp: "(5 * doy + 2) div 153 = k" if "153 * k \<le> 5 * doy + 2" "5 * doy + 2 < 153 * k + 153" for k
    using that by linarith
  consider "doy < 31" | "31 \<le> doy" "doy < 61" | "61 \<le> doy" "doy < 92" | "92 \<le> doy" "doy < 122"
    | "122 \<le> doy" "doy < 153" | "153 \<le> doy" "doy < 184" | "184 \<le> doy" "doy < 214"
    | "214 \<le> doy" "doy < 245" | "245 \<le> doy" "doy < 275" | "275 \<le> doy" "doy < 306"
    | "306 \<le> doy" "doy < 337" | "337 \<le> doy" by linarith
  then show ?thesis
  proof cases
    case 1 then show ?thesis using mp[of 0] assms by (simp add: month_day_def)
  next
    case 2 then show ?thesis using mp[of 1] assms by (simp add: month_day_def)
  next
    case 3 then show ?thesis using mp[of 2] assms by (simp add: month_day_def)
  next
    case 4 then show ?thesis using mp[of 3] assms by (simp add: month_day_def)
  next
    case 5 then show ?thesis using mp[of 4] assms by (simp add: month_day_def)
  next
    case 6 then show ?thesis using mp[of 5] assms by (simp add: month_day_def)
  next
    case 7 then show ?thesis using mp[of 6] assms by (simp add: month_day_def)
  next
    case 8 then show ?thesis using mp[of 7] assms by (simp add: month_day_def)
  next
    case 9 then show ?thesis using mp[of 8] assms by (simp add: month_day_def)
  next
    case 10 then show ?thesis using mp[of 9] assms by (simp add: month_day_def)
  next
    case 11 then show ?thesis using mp[of 10] assms by (simp add: month_day_def)
  next
    case 12 then show ?thesis using mp[of 11] assms by (simp add: month_day_def)
  qed
qed

lemma year_of_era:
  assumes "era_day a b k j" "doe = 36524 * a + 1461 * b + 365 * k + j"
  shows "(doe - doe div 1460 + doe div 36524 - doe div 146096) div 365 = 100 * a + 4 * b + k"
proof (cases "j = 365 \<and> b = 24")
  case True
  with assms have "a = 3" "k = 3" by (auto simp: era_day_def split: if_splits)
  with True assms(2) have "doe = 146096" by simp
  with True \<open>a = 3\<close> \<open>k = 3\<close> show ?thesis by simp
next
  case False
  note day = assms(1)[unfolded era_day_def]
  have "1461 * b + 365 * k + j < 36524" using day False by (auto split: if_splits)
  then have centuries: "doe div 36524 = a"
    using day by (intro int_div_pos_eq[of _ _ _ "1461 * b + 365 * k + j"]) (auto simp: assms(2))
  then have "doe div 146096 = 0"
    using day \<open>1461 * b + 365 * k + j < 36524\<close> by (intro div_pos_pos_trivial) (auto simp: assms(2))
  show ?thesis
  proof (cases "24 * a + b + 365 * k + j < 1460")
    case True
    then have "doe div 1460 = 25 * a + b"
      using day by (intro int_div_pos_eq[of _ _ _ "24 * a + b + 365 * k + j"]) (auto simp: assms(2))
    moreover have "j \<le> 364" using True day by (auto split: if_splits)
    ultimately show ?thesis using day centuries \<open>doe div 146096 = 0\<close>
      by (intro int_div_pos_eq[of _ _ _ j]) (auto simp: assms(2))
  next
    case less: False
    then have "doe div 1460 = 25 * a + b + 1"
      using day
      by (intro int_div_pos_eq[of _ _ _ "24 * a + b + 365 * k + j - 1460"]) (auto simp: assms(2) split: if_splits)
    then show ?thesis using less day centuries \<open>doe div 146096 = 0\<close>
      by (intro int_div_pos_eq[of _ _ _ "j - 1"]) (auto simp: assms(2) split: if_splits)
  qed
qed

lemma leap_next_year:
  assumes "era_day a b k j"
  shows "leap (400 * era + 100 * a + 4 * b + k + 1) \<longleftrightarrow> k = 3 \<and> (b < 24 \<or> a = 3)"
proof (cases "k = 3")
  case True
  have "(400 * era + 100 * a + 4 * b + k + 1) mod 100 = 4 * (b + 1) mod 100"
  proof -
    have "400 * era + 100 * a + 4 * b + k + 1 = 4 * (b + 1) + 100 * (4 * era + a)" by (simp add: True)
    then show ?thesis by (simp only: mod_mult_self2)
  qed
  moreover have "4 * (b + 1) mod 100 = 0 \<longleftrightarrow> b = 24"
    using assms by (cases "b = 24") (auto simp: era_day_def)
  moreover have "(400 * era + 100 * a + 4 * 24 + 3 + 1) mod 400 = 100 * (a + 1) mod 400"
  proof -
    have "400 * era + 100 * a + 4 * 24 + 3 + 1 = 100 * (a + 1) + 400 * era" by simp
    then show ?thesis by (simp only: mod_mult_self2)
  qed
  moreover have "100 * (a + 1) mod 400 = 0 \<longleftrightarrow> a = 3"
    using assms by (cases "a = 3") (auto simp: era_day_def)
  moreover have "(400 * era + 100 * a + 4 * b + k + 1) mod 4 = 0"
    unfolding True by presburger
  ultimately show ?thesis using True assms by (auto simp: leap_def era_day_def)
next
  case False
  with assms have "0 < k + 1" "k + 1 < 4" by (auto simp: era_day_def)
  moreover have "400 * era + 100 * a + 4 * b + k + 1 = (k + 1) + 4 * (100 * era + 25 * a + b)" by simp
  then have "(400 * era + 100 * a + 4 * b + k + 1) mod 4 = (k + 1) mod 4" by (simp only: mod_mult_self2)
  ultimately show ?thesis using False by (simp add: leap_def)
qed

lemma era_day_exists:
  obtains era a b k j where "era_day a b k j"
    "s = 146097 * era + (36524 * a + 1461 * b + 365 * k + j)"
proof -
  define era doe where "era = s div 146097" and "doe = s mod 146097"
  have doe: "0 \<le> doe" "doe < 146097" by (simp_all add: doe_def)
  define a where "a = min 3 (doe div 36524)"
  define c where "c = doe - 36524 * a"
  have c: "0 \<le> c" "c \<le> (if a = 3 then 36524 else 36523)" "0 \<le> a" "a \<le> 3"
    using doe by (auto simp: c_def a_def min_def)
  define b where "b = c div 1461"
  define e where "e = c - 1461 * b"
  have e: "0 \<le> e" "e \<le> 1460" "0 \<le> b" "b \<le> 24" using c by (auto simp: e_def b_def split: if_splits)
  have e': "a \<noteq> 3 \<Longrightarrow> b = 24 \<Longrightarrow> e \<le> 1459" using c by (auto simp: e_def split: if_splits)
  define k where "k = min 3 (e div 365)"
  define j where "j = e - 365 * k"
  have "era_day a b k j"
    using c e e' unfolding era_day_def j_def k_def by (auto simp: min_def split: if_splits)
  moreover have "s = 146097 * era + (36524 * a + 1461 * b + 365 * k + j)"
    by (simp add: j_def e_def c_def doe_def era_def)
  ultimately show ?thesis by (rule that)
qed

lemma civil_at:
  assumes "era_day a b k j" "n + 719468 = 146097 * era + (36524 * a + 1461 * b + 365 * k + j)"
  shows "civil_from_days n =
    (case month_day j of (m, d) \<Rightarrow> (400 * era + 100 * a + 4 * b + k + (if m \<le> 2 then 1 else 0), m, d))"
proof -
  note day = assms(1)[unfolded era_day_def]
  define doe where "doe = 36524 * a + 1461 * b + 365 * k + j"
  have doe: "0 \<le> doe" "doe < 146097" using day by (auto simp: doe_def split: if_splits)
  with assms(2) have era: "(n + 719468) div 146097 = era" unfolding doe_def[symmetric]
    by (intro int_div_pos_eq[of _ _ _ doe]) auto
  define y where "y = 100 * a + 4 * b + k"
  have y: "(doe - doe div 1460 + doe div 36524 - doe div 146096) div 365 = y"
    unfolding y_def by (rule year_of_era[OF assms(1) doe_def])
  have "y div 4 = 25 * a + b" using day by (intro int_div_pos_eq[of _ _ _ k]) (auto simp: y_def)
  moreover have "y div 100 = a" using day by (intro int_div_pos_eq[of _ _ _ "4 * b + k"]) (auto simp: y_def)
  ultimately have j: "doe - (365 * y + y div 4 - y div 100) = j" by (simp add: doe_def y_def)
  have "0 \<le> doe - doe div 1460 + doe div 36524 - doe div 146096" using doe by linarith
  moreover have "0 \<le> y" using day by (simp add: y_def)
  moreover have "0 \<le> j" "j \<le> 365" using day by (auto split: if_splits)
  moreover from this have "0 \<le> (5 * j + 2) div 153" by simp
  moreover have "n + 719468 - era * 146097 = doe" using assms(2) by (simp add: doe_def)
  ultimately show ?thesis
    unfolding civil_from_days_def Let_def sdiv_era era month_piece[OF \<open>0 \<le> j\<close> \<open>j \<le> 365\<close>, symmetric]
    using doe by (simp add: sdiv_pos y j) (simp add: y_def)
qed

lemma month_day_next:
  assumes "0 \<le> j" "j < 364 \<or> j = 364 \<and> leap (y + 1)"
  shows "next_day (case month_day j of (m, d) \<Rightarrow> (y + (if m \<le> 2 then 1 else 0), m, d))
    = (case month_day (j + 1) of (m, d) \<Rightarrow> (y + (if m \<le> 2 then 1 else 0), m, d))"
  using assms by (auto simp: month_day_def days_in_month_def)

lemma month_day_last:
  assumes "j = (if leap (y + 1) then 365 else 364)"
  shows "next_day (case month_day j of (m, d) \<Rightarrow> (y + (if m \<le> 2 then 1 else 0), m, d))
    = (y + 1, 3, 1)"
  using assms by (auto simp: month_day_def days_in_month_def)

lemma civil_from_days_next: "civil_from_days (n + 1) = next_day (civil_from_days n)"
proof -
  obtain era a b k j where day: "era_day a b k j"
    and n: "n + 719468 = 146097 * era + (36524 * a + 1461 * b + 365 * k + j)"
    by (rule era_day_exists)
  define y where "y = 400 * era + 100 * a + 4 * b + k"
  note leap = leap_next_year[OF day, of era, folded y_def]
  note bounds = day[unfolded era_day_def]
  show ?thesis
  proof (cases "j = (if leap (y + 1) then 365 else 364)")
    case False
    then have next_: "j < 364 \<or> j = 364 \<and> leap (y + 1)" using bounds leap by (auto split: if_splits)
    then have "era_day a b k (j + 1)" using bounds leap by (auto simp: era_day_def)
    from civil_at[OF this, of "n + 1" era] civil_at[OF day n] n month_day_next[of j y, OF _ next_] bounds
    show ?thesis by (simp add: y_def[symmetric])
  next
    case True
    have march: "month_day 0 = (3, 1)" by (simp add: month_day_def)
    have "civil_from_days (n + 1) = (y + 1, 3, 1)"
    proof -
      from bounds have "k < 3 \<or> k = 3" "b < 24 \<or> b = 24" "a < 3 \<or> a = 3" by linarith+
      then consider "k < 3" | "k = 3" "b < 24" | "k = 3" "b = 24" "a < 3" | "k = 3" "b = 24" "a = 3"
        by blast
      then show ?thesis
      proof cases
        case 1
        with bounds have "era_day a b (k + 1) 0" by (simp add: era_day_def)
        from civil_at[OF this, of "n + 1" era] n True 1 leap show ?thesis
          by (simp add: march y_def)
      next
        case 2
        with bounds have "era_day a (b + 1) 0 0" by (simp add: era_day_def)
        from civil_at[OF this, of "n + 1" era] n True 2 leap show ?thesis
          by (simp add: march y_def)
      next
        case 3
        with bounds have "era_day (a + 1) 0 0 0" by (simp add: era_day_def)
        from civil_at[OF this, of "n + 1" era] n True 3 leap show ?thesis
          by (simp add: march y_def)
      next
        case 4
        have "era_day 0 0 0 0" by (simp add: era_day_def)
        from civil_at[OF this, of "n + 1" "era + 1"] n True 4 leap show ?thesis
          by (simp add: march y_def)
      qed
    qed
    with civil_at[OF day n] month_day_last[OF True] show ?thesis by (simp add: y_def[symmetric])
  qed
qed

lemma civil_from_days_epoch: "civil_from_days 0 = (1970, 1, 1)"
proof -
  have "era_day 3 17 1 306" by (simp add: era_day_def)
  from civil_at[OF this, of 0 4] show ?thesis by (simp add: month_day_def)
qed

lemma civil_from_days_forward: "civil_from_days (int k) = (next_day ^^ k) (1970, 1, 1)"
proof (induction k)
  case (Suc k)
  have "civil_from_days (int (Suc k)) = civil_from_days (int k + 1)" by (simp add: add.commute)
  with Suc civil_from_days_next show ?case by simp
qed (simp add: civil_from_days_epoch)

section \<open>File names\<close>

lemma decimal_digit: "c \<in> set (decimal n) \<Longrightarrow> 48 \<le> c \<and> c \<le> 57"
proof (induction n rule: decimal.induct)
  case (1 n)
  from "1.prems" show ?case
    by (subst (asm) decimal.simps) (use "1.IH" in \<open>auto split: if_splits\<close>)
qed

lemma padded_digit: "c \<in> set (padded w n) \<Longrightarrow> 48 \<le> c \<and> c \<le> 57"
  by (auto simp: padded_def dest: decimal_digit)

text \<open>The time stamp of a file name is made of digits, dashes and the letter T.\<close>

lemma file_timestamp_chars:
  "c \<in> set (format_filename_timestamp_millis t) \<Longrightarrow> 48 \<le> c \<and> c \<le> 57 \<or> c = 45 \<or> c = 84"
  by (auto simp: format_filename_timestamp_millis_def Let_def lit_def dest!: padded_digit split: prod.splits)

lemma encoded_session_dir_clash:
  "encoded_session_dir (lit ''/a/b'') = encoded_session_dir (lit ''/a-b'')"
  by (simp add: encoded_session_dir_def lit_def Let_def)

end
