(* ===== verification/Store_Common.thy ===== *)
theory Store_Common
  imports Projection Meta_Derive Session_Files
begin

text \<open>
  What the two session stores share, \<^verbatim>\<open>session-store/src/store/mod.rs\<close>: the leaf a query
  means by default, the parent of the next entry, the projection a batch append keeps, the
  validation of a batch, the mapping of errors.  The lemmas show that entries appended the way
  both stores do it keep the log well formed, and what the default query resolves to.
\<close>

section \<open>The platform\<close>

text \<open>
  What the stores take from outside: the stream of UUIDs, the text of a UUID, the clock, path
  canonicalisation and file sizes.  A cursor counts the reads of the two streams.
\<close>

record platform =
  next_uuid :: "nat \<Rightarrow> uuid"
  show_uuid :: "uuid \<Rightarrow> ustring"
  clock :: "nat \<Rightarrow> store_error + int"
  canonicalize :: "ustring \<Rightarrow> ustring"
  file_size :: "ustring \<Rightarrow> nat option"

record cursor =
  uuid_at :: nat
  clock_at :: nat

definition generate_entry_id :: "platform \<Rightarrow> ustring set \<Rightarrow> cursor \<Rightarrow> (ustring \<times> cursor) option" where
  "generate_entry_id P ids c =
     map_option (\<lambda>(i, pos). (i, c\<lparr>uuid_at := pos\<rparr>))
       (generate_entry_id_with (next_uuid P) (show_uuid P) ids (uuid_at c))"

definition new_session_id :: "platform \<Rightarrow> cursor \<Rightarrow> session_id \<times> cursor" where
  "new_session_id P c = (next_uuid P (uuid_at c), c\<lparr>uuid_at := Suc (uuid_at c)\<rparr>)"

definition current_timestamp_ms :: "platform \<Rightarrow> cursor \<Rightarrow> (store_error + int) \<times> cursor" where
  "current_timestamp_ms P c = (clock P (clock_at c), c\<lparr>clock_at := Suc (clock_at c)\<rparr>)"

section \<open>The shared functions\<close>

definition requested_leaf_id :: "session_entry list \<Rightarrow> ustring option \<Rightarrow> store_error + ustring" where
  "requested_leaf_id entries leaf =
     (case leaf of
        Some i \<Rightarrow> Ok i
      | None \<Rightarrow> ok_or MissingHeader (map_option entry_id (last_opt entries)))"

definition latest_non_leaf_id :: "session_entry list \<Rightarrow> ustring option" where
  "latest_non_leaf_id entries =
     map_option entry_id (List.find (\<lambda>e. \<not> is_leaf_kind (kind e)) (rev entries))"

definition append_parent_id :: "session_entry list \<Rightarrow> ustring option" where
  "append_parent_id entries =
     (case map_option kind (last_opt entries) of
        Some (Leaf (Some target)) \<Rightarrow> Some target
      | Some (Leaf None) \<Rightarrow> latest_non_leaf_id entries
      | Some _ \<Rightarrow> map_option entry_id (last_opt entries)
      | None \<Rightarrow> None)"

definition update_append_projection ::
  "session_entry \<Rightarrow> ustring option \<times> ustring option \<Rightarrow> ustring option \<times> ustring option" where
  "update_append_projection e state =
     (case state of (next_parent_id, latest_non_leaf) \<Rightarrow>
      (case kind e of
         Leaf (Some target) \<Rightarrow> (Some target, latest_non_leaf)
       | Leaf None \<Rightarrow> (latest_non_leaf, latest_non_leaf)
       | _ \<Rightarrow> (Some (entry_id e), Some (entry_id e))))"

fun validate_append_kinds :: "entry_kind list \<Rightarrow> store_error + unit" where
  "validate_append_kinds [] = Ok ()"
| "validate_append_kinds (k # ks) =
     (case k of
        Item item \<Rightarrow> and_then (map_err InvalidConversationItem (validate_item item))
                        (\<lambda>_. validate_append_kinds ks)
      | _ \<Rightarrow> validate_append_kinds ks)"

definition entry_ids :: "session_entry list \<Rightarrow> ustring set" where
  "entry_ids entries = entry_id ` set entries"

definition derive_store_session_meta ::
  "platform \<Rightarrow> session_entry list \<Rightarrow> ustring \<Rightarrow> store_error + session_meta" where
  "derive_store_session_meta P entries path =
     derive_session_meta (show_uuid P) (canonicalize P) entries path (file_size P path)"

fun resolve_store_error :: "resolve_error \<Rightarrow> store_error" where
  "resolve_store_error (DuplicateId i) = StoreDuplicateId i"
| "resolve_store_error (DanglingParent p) = StoreDanglingParent p"
| "resolve_store_error e = ResolveFailed e"

text \<open>The queries both stores make on a session's entries.\<close>

definition query_state ::
  "session_entry list \<Rightarrow> ustring option \<Rightarrow> store_error + resolved_state" where
  "query_state entries leaf =
     and_then (requested_leaf_id entries leaf) (\<lambda>i. map_err resolve_store_error (resolve_state entries i))"

definition query_items ::
  "session_entry list \<Rightarrow> ustring option \<Rightarrow> store_error + conversation_item list" where
  "query_items entries leaf =
     and_then (requested_leaf_id entries leaf) (\<lambda>i. map_err resolve_store_error (resolve entries i))"

definition map_outcome_err :: "('e \<Rightarrow> 'f) \<Rightarrow> ('e, 'a) outcome \<Rightarrow> ('f, 'a) outcome" where
  "map_outcome_err f r = map_option (map_err f) r"

section \<open>The batch projection is the parent of the entries so far\<close>

definition projection_of :: "session_entry list \<Rightarrow> ustring option \<times> ustring option" where
  "projection_of entries = (append_parent_id entries, latest_non_leaf_id entries)"

lemma latest_non_leaf_id_snoc:
  "latest_non_leaf_id (entries @ [e]) =
     (if is_leaf_kind (kind e) then latest_non_leaf_id entries else Some (entry_id e))"
  by (simp add: latest_non_leaf_id_def)

lemma append_parent_id_snoc:
  "append_parent_id (entries @ [e]) =
     (case kind e of
        Leaf (Some target) \<Rightarrow> Some target
      | Leaf None \<Rightarrow> latest_non_leaf_id entries
      | _ \<Rightarrow> Some (entry_id e))"
  by (auto simp: append_parent_id_def latest_non_leaf_id_snoc split: entry_kind.splits option.splits)

lemma update_append_projection_snoc:
  "update_append_projection e (projection_of entries) = projection_of (entries @ [e])"
  by (auto simp: update_append_projection_def projection_of_def append_parent_id_snoc
      latest_non_leaf_id_snoc split: entry_kind.splits option.splits)

section \<open>Session logs\<close>

definition is_header_kind :: "entry_kind \<Rightarrow> bool" where
  "is_header_kind k = (case k of Header _ \<Rightarrow> True | _ \<Rightarrow> False)"

text \<open>A marker that resets the leaf hangs below the newest entry that is no marker.\<close>

definition leaf_links :: "session_entry list \<Rightarrow> bool" where
  "leaf_links entries \<longleftrightarrow>
     (\<forall>n<length entries. kind (entries ! n) = Leaf None \<longrightarrow>
        parent_id (entries ! n) = latest_non_leaf_id (take n entries))"

definition session_log :: "session_entry list \<Rightarrow> bool" where
  "session_log entries \<longleftrightarrow>
     log_wf {} entries \<and> entries \<noteq> [] \<and> is_header_kind (kind (hd entries)) \<and> leaf_links entries"

lemma leaf_links_snoc:
  "leaf_links (entries @ [e]) \<longleftrightarrow>
     leaf_links entries \<and> (kind e = Leaf None \<longrightarrow> parent_id e = latest_non_leaf_id entries)"
  by (auto simp: leaf_links_def nth_append less_Suc_eq)

lemma session_log_wf: "session_log entries \<Longrightarrow> log_wf {} entries"
  by (simp add: session_log_def)

lemma header_not_leaf: "is_header_kind k \<Longrightarrow> \<not> is_leaf_kind k"
  by (cases k) (simp_all add: is_header_kind_def)

lemma session_log_start: "is_header_kind k \<Longrightarrow>
    session_log [\<lparr>entry_id = i, parent_id = None, timestamp = t, kind = k\<rparr>]"
  by (cases k) (simp_all add: session_log_def is_header_kind_def leaf_links_def)

lemma latest_non_leaf_in_log:
  assumes "session_log entries"
  shows "\<exists>e\<in>set entries. latest_non_leaf_id entries = Some (entry_id e) \<and> \<not> is_leaf_kind (kind e)"
proof -
  from assms have "hd entries \<in> set (rev entries)" "\<not> is_leaf_kind (kind (hd entries))"
    by (auto simp: session_log_def header_not_leaf)
  then obtain e where "List.find (\<lambda>e. \<not> is_leaf_kind (kind e)) (rev entries) = Some e"
    by (cases "List.find (\<lambda>e. \<not> is_leaf_kind (kind e)) (rev entries)") (auto simp: find_None_iff)
  then show ?thesis by (auto simp: latest_non_leaf_id_def find_Some_iff in_set_conv_nth)
     (metis length_rev nth_mem set_rev)
qed

lemma append_parent_in_log:
  assumes "session_log entries"
  shows "\<exists>e\<in>set entries. append_parent_id entries = Some (entry_id e)"
proof -
  from assms obtain es e where entries: "entries = es @ [e]"
    by (auto simp: session_log_def) (metis append_butlast_last_id)
  from assms have wf: "log_wf {} (es @ [e])" by (simp add: session_log_def entries)
  consider t where "kind e = Leaf (Some t)" | "kind e = Leaf None" | "\<not> is_leaf_kind (kind e)"
    by (cases "kind e"; auto simp: is_leaf_kind_def split: option.splits)
  then show ?thesis
  proof cases
    case (1 t)
    with wf have "t \<in> entry_id ` set es" by (simp add: log_wf_snoc)
    with 1 show ?thesis by (auto simp: entries append_parent_id_snoc)
  next
    case 2
    with latest_non_leaf_in_log[OF assms] show ?thesis
      by (auto simp: entries append_parent_id_snoc latest_non_leaf_id_snoc)
  next
    case 3
    then show ?thesis
      by (auto simp: entries append_parent_id_snoc is_leaf_kind_def split: entry_kind.splits)
  qed
qed

lemma session_log_append:
  assumes "session_log entries" "i \<notin> entry_ids entries"
    "parent = append_parent_id entries \<or> parent = latest_non_leaf_id entries"
    "\<And>t. k = Leaf (Some t) \<Longrightarrow> t \<in> entry_ids entries"
    "k = Leaf None \<Longrightarrow> parent = latest_non_leaf_id entries"
  shows "session_log (entries @ [\<lparr>entry_id = i, parent_id = parent, timestamp = ts, kind = k\<rparr>])"
proof -
  from assms(1,3) append_parent_in_log latest_non_leaf_in_log obtain e
    where "e \<in> set entries" "parent = Some (entry_id e)" by metis
  moreover from assms(1) have "hd (entries @ [x]) = hd entries" for x by (simp add: session_log_def)
  ultimately show ?thesis
    using assms by (auto simp: session_log_def log_wf_snoc leaf_links_snoc entry_ids_def split: entry_kind.splits option.splits)
qed

section \<open>What the default query resolves to\<close>

text \<open>The path the next entry extends.\<close>

definition active_path :: "session_entry list \<Rightarrow> session_entry list" where
  "active_path entries =
     (case Option.bind (append_parent_id entries) (map_of (index_of entries)) of
        None \<Rightarrow> [] | Some e \<Rightarrow> ancestry (index_of entries) e)"

lemma active_path_eq:
  assumes "session_log entries" "append_parent_id entries = Some (entry_id e)" "e \<in> set entries"
  shows "active_path entries = ancestry (index_of entries) e"
  by (simp add: active_path_def assms(2) log_wf_lookup[OF session_log_wf[OF assms(1)] assms(3)])

lemma position_snoc:
  "position P (xs @ [x]) =
     (case position P xs of Some i \<Rightarrow> Some i | None \<Rightarrow> if P x then Some (length xs) else None)"
  by (induction xs) (auto split: option.splits)

lemma assemble_state_snoc:
  assumes "start \<le> length path" "replay_of e = None"
  shows "assemble_state (path @ [e]) lead summary start =
     (assemble_state path lead summary start)
       \<lparr>items := items (assemble_state path lead summary start)
           @ (case resolved_item_of e of None \<Rightarrow> [] | Some i \<Rightarrow> [i]),
        latest_config := latest_config_step (latest_config (assemble_state path lead summary start)) e\<rparr>"
  using assms
  by (simp add: assemble_state_def Let_def explicit_transcript_snoc push_entry_replay_eq split: option.splits)

lemma item_entry_position_bound: "item_entry_position path i = Some n \<Longrightarrow> n \<le> length path"
  by (auto simp: item_entry_position_def position_Some)

lemma resolve_path_snoc:
  assumes "replay_of e = None" "compaction_of e = None" "resolve_state_from_path path = Ok st"
  shows "resolve_state_from_path (path @ [e]) =
     Ok (st\<lparr>items := items st @ (case resolved_item_of e of None \<Rightarrow> [] | Some i \<Rightarrow> [i]),
            latest_config := latest_config_step (latest_config st) e\<rparr>)"
proof (cases "latest_compaction path")
  case None
  with assms show ?thesis
    by (simp add: resolve_state_from_path_def latest_compaction_snoc assemble_state_snoc)
next
  case (Some c)
  obtain cid summary kept where c: "c = (cid, summary, kept)" by (cases c)
  with Some assms(3) obtain n where n: "item_entry_position path kept = Some n"
    by (auto simp: resolve_state_from_path_def result_iffs)
  then have "item_entry_position (path @ [e]) kept = Some n"
    by (simp add: item_entry_position_def position_snoc)
  with Some c n assms item_entry_position_bound[OF n] show ?thesis
    by (simp add: resolve_state_from_path_def latest_compaction_snoc assemble_state_snoc)
qed

lemma resolve_path_leaf:
  assumes "is_leaf_kind (kind l)"
  shows "resolve_state_from_path (path @ [l]) = resolve_state_from_path path"
proof -
  from assms have l: "replay_of l = None" "compaction_of l = None" "item_of l = None"
    "resolved_item_of l = None" "\<And>c. latest_config_step c l = c"
    by (auto simp: is_leaf_kind_def replay_of_def compaction_of_def item_of_def resolved_item_of_def
        latest_config_step_def split: entry_kind.splits)
  show ?thesis
  proof (cases "resolve_state_from_path path")
    case (Inr st)
    from resolve_path_snoc[OF l(1,2) Inr] Inr l show ?thesis by simp
  next
    case (Inl err)
    then obtain cid summary kept where c: "latest_compaction path = Some (cid, summary, kept)"
      and none: "item_entry_position path kept = None" and err: "err = InvalidCompactionTarget kept"
      by (auto simp: resolve_state_from_path_def result_iffs split: option.splits)
    from none l(3) have "item_entry_position (path @ [l]) kept = None"
      by (simp add: item_entry_position_def position_snoc)
    with c l(2) Inl err show ?thesis
      by (simp add: resolve_state_from_path_def latest_compaction_snoc)
  qed
qed

lemma resolve_state_log:
  assumes "log_wf {} entries" "effective_leaf_id (index_of entries) i = entry_id e" "e \<in> set entries"
  shows "resolve_state entries i = resolve_state_from_path (ancestry (index_of entries) e)"
proof -
  have "resolve_path (index_of entries) i = Ok (ancestry (index_of entries) e)"
    by (rule resolve_path_grounded[OF log_wf_grounded[OF assms(1)]])
       (simp add: assms(2) log_wf_lookup[OF assms(1,3)])
  then show ?thesis by (simp add: resolve_state_def log_wf_index[OF assms(1)])
qed

lemma query_default:
  assumes "session_log entries"
  shows "query_state entries None =
     map_err resolve_store_error (resolve_state_from_path (active_path entries))"
proof -
  note wf = session_log_wf[OF assms]
  from assms obtain es l where entries: "entries = es @ [l]"
    by (auto simp: session_log_def) (metis append_butlast_last_id)
  from wf have l: "l \<in> set entries" by (simp add: entries)
  note lookup = log_wf_lookup[OF wf l]
  obtain p where p: "p \<in> set entries" "append_parent_id entries = Some (entry_id p)"
    using append_parent_in_log[OF assms] by blast
  note path = active_path_eq[OF assms p(2,1)]
  consider t where "kind l = Leaf (Some t)" | "kind l = Leaf None" | "\<not> is_leaf_kind (kind l)"
    by (cases "kind l"; auto simp: is_leaf_kind_def split: option.splits)
  then have "resolve_state entries (entry_id l) = resolve_state_from_path (active_path entries)"
  proof cases
    case (1 t)
    with p(2) have "t = entry_id p" by (simp add: entries append_parent_id_snoc)
    with 1 lookup have "effective_leaf_id (index_of entries) (entry_id l) = entry_id p"
      by (simp add: effective_leaf_id_def)
    from resolve_state_log[OF wf this p(1)] path show ?thesis by simp
  next
    case 2
    then have eff: "effective_leaf_id (index_of entries) (entry_id l) = entry_id l"
      by (simp add: effective_leaf_id_def lookup)
    from assms 2 p(2) have "parent_id l = Some (entry_id p)"
      by (simp add: session_log_def entries leaf_links_snoc append_parent_id_snoc)
    from ancestry_child[OF wf l p(1) this] resolve_state_log[OF wf eff l] 2 path show ?thesis
      by (simp add: resolve_path_leaf)
  next
    case 3
    then have "effective_leaf_id (index_of entries) (entry_id l) = entry_id l"
      by (simp add: effective_leaf_id_def lookup is_leaf_kind_def split: entry_kind.splits)
    moreover from 3 p(2) have "entry_id p = entry_id l"
      by (auto simp: entries append_parent_id_snoc is_leaf_kind_def split: entry_kind.splits)
    then have "p = l" using p(1) l log_wf_distinct[OF wf] by (auto simp: distinct_map dest: inj_onD)
    ultimately show ?thesis using resolve_state_log[OF wf _ l] path by simp
  qed
  then show ?thesis by (simp add: query_state_def requested_leaf_id_def entries)
qed

section \<open>Appending and moving the leaf\<close>

lemma ancestry_snoc_log:
  assumes "log_wf {} (entries @ [e])" "q \<in> set entries"
  shows "ancestry (index_of (entries @ [e])) q = ancestry (index_of entries) q"
proof -
  from assms(1) have wf: "log_wf {} entries" by (simp add: log_wf_snoc)
  have "map_of (index_of (entries @ [e])) i = Some y" if "map_of (index_of entries) i = Some y" for i y
    using that log_wf_distinct[OF wf] log_wf_distinct[OF assms(1)] by (simp add: map_of_index_of)
  from root_path_mono[OF this groundedD(2)[OF log_wf_grounded[OF wf] log_wf_lookup[OF wf assms(2)]]]
    groundedD(2)[OF log_wf_grounded[OF assms(1)] log_wf_lookup[OF assms(1)], of q] assms(2)
  show ?thesis by (auto dest: root_path_unique)
qed

lemma active_path_append:
  assumes "session_log (entries @ [e])" "session_log entries" "parent_id e = append_parent_id entries"
    "\<not> is_leaf_kind (kind e)"
  shows "active_path (entries @ [e]) = active_path entries @ [e]"
proof -
  obtain p where p: "p \<in> set entries" "append_parent_id entries = Some (entry_id p)"
    using append_parent_in_log[OF assms(2)] by blast
  note wf = session_log_wf[OF assms(1)]
  from assms(4) have self: "append_parent_id (entries @ [e]) = Some (entry_id e)"
    by (auto simp: append_parent_id_snoc is_leaf_kind_def split: entry_kind.splits)
  from p(1) have "p \<in> set (entries @ [e])" by simp
  from ancestry_child[OF wf _ this, of e] assms(3) p(2)
    ancestry_snoc_log[OF wf p(1)] active_path_eq[OF assms(1) self] active_path_eq[OF assms(2) p(2,1)]
  show ?thesis by simp
qed

lemma query_after_append:
  assumes "session_log (entries @ [e])" "session_log entries" "parent_id e = append_parent_id entries"
    "item_of e = Some item" "query_state entries None = Ok st"
  shows "query_state (entries @ [e]) None =
     Ok (st\<lparr>items := items st @ [\<lparr>resolved_entry_id = entry_id e, resolved_value = item\<rparr>]\<rparr>)"
proof -
  from assms(4) have kind: "kind e = Item item" by (auto simp: item_of_def split: entry_kind.splits)
  then have e: "replay_of e = None" "compaction_of e = None" "\<not> is_leaf_kind (kind e)"
    "latest_config_step c e = c" for c
    by (auto simp: replay_of_def compaction_of_def latest_config_step_def)
  from assms(5) query_default[OF assms(2)] have "resolve_state_from_path (active_path entries) = Ok st"
    by (simp add: map_err_eq_Ok)
  from resolve_path_snoc[OF e(1,2) this] query_default[OF assms(1)]
    active_path_append[OF assms(1-3) e(3)] assms(4) e(4)
  show ?thesis by (simp add: resolved_item_of_def)
qed

lemma query_after_set_leaf:
  assumes "session_log (entries @ [l])" "session_log entries" "kind l = Leaf (Some (entry_id t))"
    "t \<in> set entries" "\<not> is_leaf_kind (kind t)"
  shows "query_state (entries @ [l]) None = query_state entries (Some (entry_id t))"
proof -
  note wf = session_log_wf[OF assms(1)] and wf' = session_log_wf[OF assms(2)]
  have "append_parent_id (entries @ [l]) = Some (entry_id t)"
    by (simp add: append_parent_id_snoc assms(3))
  from active_path_eq[OF assms(1) this] assms(4) ancestry_snoc_log[OF wf assms(4)]
  have path: "active_path (entries @ [l]) = ancestry (index_of entries) t" by simp
  have "effective_leaf_id (index_of entries) (entry_id t) = entry_id t"
    using assms(5) log_wf_lookup[OF wf' assms(4)]
    by (simp add: effective_leaf_id_def is_leaf_kind_def split: entry_kind.splits)
  from resolve_state_log[OF wf' this assms(4)] query_default[OF assms(1)] path
  show ?thesis by (simp add: query_state_def requested_leaf_id_def)
qed

section \<open>Batches, and the contract of a store\<close>

text \<open>Entries chained onto a log: fresh ids, each below the entry the log would append to.\<close>

fun chained :: "session_entry list \<Rightarrow> session_entry list \<Rightarrow> bool" where
  "chained entries [] = True"
| "chained entries (e # new) =
     (entry_id e \<notin> entry_ids entries \<and> parent_id e = append_parent_id entries
      \<and> chained (entries @ [e]) new)"

lemma chained_session_log:
  assumes "session_log entries" "chained entries new" "\<forall>e\<in>set new. \<not> is_leaf_kind (kind e)"
  shows "session_log (entries @ new)"
  using assms
proof (induction new arbitrary: entries)
  case (Cons e new)
  have "session_log (entries @ [\<lparr>entry_id = entry_id e, parent_id = parent_id e, timestamp = timestamp e, kind = kind e\<rparr>])"
    using Cons.prems by (intro session_log_append) (auto simp: is_leaf_kind_def)
  then have "session_log (entries @ [e])" by (cases e) simp
  from Cons.IH[OF this] Cons.prems show ?case by simp
qed simp

lemma query_after_chain:
  assumes "session_log entries" "chained entries new" "map kind new = map Item its"
    "query_state entries None = Ok st"
  shows "query_state (entries @ new) None =
     Ok (st\<lparr>items := items st @ map2 (\<lambda>e i. \<lparr>resolved_entry_id = entry_id e, resolved_value = i\<rparr>) new its\<rparr>)"
  using assms
proof (induction new arbitrary: entries its st)
  case (Cons e new)
  then obtain i rest where its: "its = i # rest" and kind: "kind e = Item i" by (cases its) auto
  have log: "session_log (entries @ [e])"
    using chained_session_log[OF Cons.prems(1), of "[e]"] Cons.prems(2) kind by simp
  from query_after_append[OF log Cons.prems(1) _ _ Cons.prems(4), of i] Cons.prems(2) kind
  have step: "query_state (entries @ [e]) None =
     Ok (st\<lparr>items := items st @ [\<lparr>resolved_entry_id = entry_id e, resolved_value = i\<rparr>]\<rparr>)"
    by (simp add: item_of_def)
  from Cons.IH[OF log _ _ step, of rest] Cons.prems(2,3) its show ?case by simp
qed simp

section \<open>Every session log can be shown\<close>

lemma session_tree_snapshot_total:
  assumes "log_wf {} entries" "entries \<noteq> []"
  shows "\<exists>snap. session_tree_snapshot J entries = Some (Ok snap)"
proof -
  from assms(2) have "last_opt entries = Some (last entries)" "entry_id (last entries) \<in> entry_id ` set entries"
    by (simp_all add: last_opt_eq)
  moreover from raw_log.path_total[OF assms(1) this(2)] obtain e
    where e: "e \<in> set entries" "resolve_path (index_of entries) (entry_id (last entries)) = Ok (ancestry (index_of entries) e)"
    by blast
  ultimately show ?thesis
    using snapshot_from_start_log[OF assms(1) e refl refl, of J None] by (auto simp: session_tree_snapshot_def)
qed

lemma session_branch_tree_snapshot_total:
  assumes "log_wf {} entries" "entries \<noteq> []"
  shows "\<exists>snap. session_branch_tree_snapshot J entries = Some (Ok snap)"
proof -
  from assms(2) have last: "last_opt entries = Some (last entries)" "entry_id (last entries) \<in> entry_id ` set entries"
    by (simp_all add: last_opt_eq)
  from raw_log.path_total[OF assms(1) last(2)] obtain e
    where e: "e \<in> set entries" "resolve_path (index_of entries) (entry_id (last entries)) = Ok (ancestry (index_of entries) e)"
    by blast
  from session_branch_tree_snapshot_log[OF assms(1) e, of J] last(1) show ?thesis
    by (simp add: session_branch_tree_snapshot_def)
qed

lemma session_log_not_empty: "session_log entries \<Longrightarrow> entries \<noteq> []"
  by (simp add: session_log_def)

lemma resolve_state_from_path_total:
  assumes "\<forall>e\<in>set path. compaction_of e = None"
  shows "\<exists>st. resolve_state_from_path path = Ok st"
  using resolve_state_plain[OF assms] by blast

lemma query_default_total:
  assumes "session_log entries" "\<forall>e\<in>set entries. compaction_of e = None"
  shows "\<exists>st. query_state entries None = Ok st"
proof -
  from append_parent_in_log[OF assms(1)] obtain e
    where e: "e \<in> set entries" "append_parent_id entries = Some (entry_id e)" by blast
  with active_path_eq[OF assms(1) e(2,1)] ancestry_in_log[OF session_log_wf[OF assms(1)] e(1)] assms(2)
  have "\<forall>x\<in>set (active_path entries). compaction_of x = None" by auto
  from resolve_state_from_path_total[OF this] show ?thesis
    by (auto simp: query_default[OF assms(1)])
qed

lemma query_items_eq:
  "query_items entries leaf = and_then (query_state entries leaf) (\<lambda>s. Ok (map resolved_value (items s)))"
  by (cases "requested_leaf_id entries leaf")
     (auto simp: query_items_def query_state_def resolve_def and_then_def map_err_def split: sum.splits)

section \<open>The contract of a store\<close>

text \<open>
  A store appends batches to session logs; the conversation its default query shows grows by
  exactly the items of the batch.
\<close>

locale session_owner = entry_log invar entries_of
  for invar :: "'s \<Rightarrow> bool" and entries_of :: "'s \<Rightarrow> session_entry list" +
  fixes appends :: "'s \<Rightarrow> entry_kind list \<Rightarrow> ustring list \<Rightarrow> 's \<Rightarrow> bool"
  assumes invar_session_log: "invar s \<Longrightarrow> session_log (entries_of s)"
    and append_chains: "invar s \<Longrightarrow> appends s kinds ids s' \<Longrightarrow> \<forall>k\<in>set kinds. \<not> is_leaf_kind k \<Longrightarrow>
      invar s' \<and> (\<exists>new. entries_of s' = entries_of s @ new \<and> chained (entries_of s) new
        \<and> map kind new = kinds \<and> map entry_id new = ids)"
begin

lemma conversation_grows:
  assumes "invar s" "appends s (map Item its) ids s'" "query_state (entries_of s) None = Ok st"
  shows "query_state (entries_of s') None =
     Ok (st\<lparr>items := items st @ map2 (\<lambda>i item. \<lparr>resolved_entry_id = i, resolved_value = item\<rparr>) ids its\<rparr>)"
proof -
  have "\<forall>k\<in>set (map Item its). \<not> is_leaf_kind k" by simp
  from append_chains[OF assms(1,2) this] obtain new
    where new: "entries_of s' = entries_of s @ new" "chained (entries_of s) new"
      "map kind new = map Item its" and ids: "map entry_id new = ids" by blast
  from query_after_chain[OF invar_session_log[OF assms(1)] new(2,3) assms(3)]
  show ?thesis by (simp add: new(1) ids[symmetric] zip_map1 comp_def case_prod_unfold)
qed

lemma append_keeps_entries:
  assumes "invar s" "appends s kinds ids s'" "\<forall>k\<in>set kinds. \<not> is_leaf_kind k"
  shows "\<exists>new. entries_of s' = entries_of s @ new \<and> map kind new = kinds
    \<and> length ids = length kinds \<and> distinct ids \<and> set ids \<inter> entry_ids (entries_of s) = {}"
proof -
  from append_chains[OF assms] obtain new
    where new: "entries_of s' = entries_of s @ new" "map kind new = kinds" "map entry_id new = ids"
      and "invar s'" by blast
  from invar_log[OF \<open>invar s'\<close>] have "distinct (map entry_id (entries_of s @ new))"
    using new(1) log_wf_distinct by metis
  with new show ?thesis by (intro exI[of _ new]) (auto simp: entry_ids_def dest: arg_cong[where f = length])
qed

end

end
