(* ===== verification/Message_History.thy ===== *)
theory Message_History
  imports Session_Entry
begin

text \<open>
  Message history: the policy of \<^verbatim>\<open>runtime-domain/src/session/message_history.rs\<close> and its two
  stores, the SQLite table of \<^verbatim>\<open>session-store/src/message_history.rs\<close> and the in-memory state
  of \<^verbatim>\<open>store/memory.rs\<close>.  Both stores implement the contract \<open>history_store\<close>: after a write
  they show what the policy computes from what they showed before.  The id that SQLite gives
  a new row is an argument, of which \<^verbatim>\<open>AUTOINCREMENT\<close> promises that it exceeds every id in use.
\<close>

section \<open>The policy\<close>

record history_entry =
  history_ts :: int
  history_text :: ustring

record history_row =
  history_id :: int
  row_ts :: int
  row_text :: ustring

definition message_history_blind_recall_cache_len :: nat where
  "message_history_blind_recall_cache_len = 25"

definition should_record_message_history_text :: "ustring \<Rightarrow> bool" where
  "should_record_message_history_text s \<longleftrightarrow> utrim s \<noteq> []"

definition message_history_is_adjacent_duplicate :: "ustring option \<Rightarrow> ustring \<Rightarrow> bool" where
  "message_history_is_adjacent_duplicate previous s \<longleftrightarrow> previous = Some s"

definition message_history_trim_excess_count :: "nat \<Rightarrow> nat \<Rightarrow> nat" where
  "message_history_trim_excess_count len limit = len - limit"

definition trim_message_history_entries :: "history_entry list \<Rightarrow> nat \<Rightarrow> history_entry list" where
  "trim_message_history_entries es limit =
     (let excess = message_history_trim_excess_count (length es) limit
      in if 0 < excess then drop excess es else es)"

definition append_message_history_entry ::
  "history_entry list \<Rightarrow> history_entry \<Rightarrow> nat \<Rightarrow> history_entry list" where
  "append_message_history_entry es e limit =
     (if message_history_is_adjacent_duplicate (map_option history_text (last_opt es)) (history_text e)
      then es else trim_message_history_entries (es @ [e]) limit)"

definition merge_message_history_entries ::
  "history_entry list \<Rightarrow> history_entry list \<Rightarrow> nat \<Rightarrow> history_entry list" where
  "merge_message_history_entries persisted local limit =
     foldl (\<lambda>merged e. append_message_history_entry merged e limit) [] (persisted @ local)"

lemma trim_eq: "trim_message_history_entries es limit = drop (length es - limit) es"
  by (simp add: trim_message_history_entries_def message_history_trim_excess_count_def Let_def)

text \<open>Two neighbours never hold the same text, and the history never exceeds its bound.\<close>

fun no_adjacent_duplicate :: "history_entry list \<Rightarrow> bool" where
  "no_adjacent_duplicate (a # b # es) \<longleftrightarrow>
     history_text a \<noteq> history_text b \<and> no_adjacent_duplicate (b # es)"
| "no_adjacent_duplicate _ = True"

lemma no_adjacent_duplicate_snoc:
  "no_adjacent_duplicate (es @ [e]) \<longleftrightarrow>
     no_adjacent_duplicate es \<and> map_option history_text (last_opt es) \<noteq> Some (history_text e)"
  by (induction es rule: no_adjacent_duplicate.induct) (auto simp: last_opt_eq)

lemma no_adjacent_duplicate_drop: "no_adjacent_duplicate es \<Longrightarrow> no_adjacent_duplicate (drop n es)"
proof (induction n arbitrary: es)
  case (Suc n)
  then show ?case by (cases es rule: no_adjacent_duplicate.cases) auto
qed simp

lemma append_no_adjacent_duplicate:
  "no_adjacent_duplicate es \<Longrightarrow> no_adjacent_duplicate (append_message_history_entry es e limit)"
  by (auto simp: append_message_history_entry_def message_history_is_adjacent_duplicate_def trim_eq
      no_adjacent_duplicate_snoc simp del: drop_append intro!: no_adjacent_duplicate_drop)

lemma append_bound: "length es \<le> limit \<Longrightarrow> length (append_message_history_entry es e limit) \<le> limit"
  by (auto simp: append_message_history_entry_def trim_eq)

lemma append_last:
  "0 < limit \<Longrightarrow> map_option history_text (last_opt (append_message_history_entry es e limit)) = Some (history_text e)"
  by (auto simp: append_message_history_entry_def message_history_is_adjacent_duplicate_def trim_eq last_opt_eq
      split: if_splits)

section \<open>The contract of a store\<close>

locale history_store =
  fixes allowed :: "history_entry \<Rightarrow> nat \<Rightarrow> bool"
    and invar :: "'s \<Rightarrow> bool"
    and record_entry :: "'s \<Rightarrow> history_entry \<Rightarrow> nat \<Rightarrow> 's"
    and shown :: "'s \<Rightarrow> history_entry list"
  assumes record_shown: "invar s \<Longrightarrow> allowed e limit \<Longrightarrow>
      shown (record_entry s e limit) = append_message_history_entry (shown s) e limit"
    and record_invar: "invar s \<Longrightarrow> allowed e limit \<Longrightarrow> invar (record_entry s e limit)"
begin

lemma record_all:
  "invar s \<Longrightarrow> \<forall>e\<in>set es. allowed e limit \<Longrightarrow>
     invar (foldl (\<lambda>s e. record_entry s e limit) s es)
     \<and> shown (foldl (\<lambda>s e. record_entry s e limit) s es) =
       foldl (\<lambda>m e. append_message_history_entry m e limit) (shown s) es"
  by (induction es arbitrary: s) (auto simp: record_invar record_shown)

lemma record_all_no_duplicate:
  "invar s \<Longrightarrow> \<forall>e\<in>set es. allowed e limit \<Longrightarrow> no_adjacent_duplicate (shown s) \<Longrightarrow>
     no_adjacent_duplicate (shown (foldl (\<lambda>s e. record_entry s e limit) s es))"
  by (induction es arbitrary: s) (auto simp: record_invar record_shown append_no_adjacent_duplicate)

lemma record_all_bound:
  "invar s \<Longrightarrow> \<forall>e\<in>set es. allowed e limit \<Longrightarrow> length (shown s) \<le> limit \<Longrightarrow>
     length (shown (foldl (\<lambda>s e. record_entry s e limit) s es)) \<le> limit"
  by (induction es arbitrary: s) (auto simp: record_invar record_shown append_bound)

end

interpretation plain_history: history_store "\<lambda>_ _. True" "\<lambda>_. True" append_message_history_entry "\<lambda>es. es"
  by unfold_locales simp_all

section \<open>The in-memory state\<close>

record memory_history =
  next_row_id :: int
  memory_rows :: "history_row list"

definition empty_history :: memory_history where
  "empty_history = \<lparr>next_row_id = 0, memory_rows = []\<rparr>"

definition row_entry :: "history_row \<Rightarrow> history_entry" where
  "row_entry r = \<lparr>history_ts = row_ts r, history_text = row_text r\<rparr>"

definition allocate_row_id :: "int \<Rightarrow> int" where
  "allocate_row_id nxt = max (sat_add_i64 nxt 1) 1"

text \<open>
  The rebuilt list takes each id from a hash map keyed by time stamp and text, removing it;
  where the map has no key left, the id is allocated.
\<close>

fun rebuild_rows ::
  "((int \<times> ustring) \<times> int) list \<Rightarrow> int \<Rightarrow> history_entry list \<Rightarrow> history_row list \<times> int" where
  "rebuild_rows old nxt [] = ([], nxt)"
| "rebuild_rows old nxt (e # es) =
     (let key = (history_ts e, history_text e);
          (i, nxt') = (case map_of old key of
              Some i \<Rightarrow> (i, nxt)
            | None \<Rightarrow> (allocate_row_id nxt, allocate_row_id nxt));
          (rs, nxt'') = rebuild_rows (AList.delete key old) nxt' es
      in (\<lparr>history_id = i, row_ts = history_ts e, row_text = history_text e\<rparr> # rs, nxt''))"

definition rows_by_key :: "history_row list \<Rightarrow> ((int \<times> ustring) \<times> int) list" where
  "rows_by_key rs = foldl (\<lambda>m r. AList.update (row_ts r, row_text r) (history_id r) m) [] rs"

definition apply_domain_append :: "memory_history \<Rightarrow> history_entry \<Rightarrow> nat \<Rightarrow> memory_history" where
  "apply_domain_append st e limit =
     (let logical = append_message_history_entry (map row_entry (memory_rows st)) e limit;
          (rs, nxt) = rebuild_rows (rows_by_key (memory_rows st)) (next_row_id st) logical
      in \<lparr>next_row_id = nxt, memory_rows = rs\<rparr>)"

definition record_message_history_entry ::
  "memory_history \<Rightarrow> store_error + int \<Rightarrow> ustring \<Rightarrow> nat \<Rightarrow> (store_error + unit) \<times> memory_history" where
  "record_message_history_entry st clock s limit =
     (if \<not> should_record_message_history_text s then (Ok (), st)
      else (case clock of
          Inl err \<Rightarrow> (Err err, st)
        | Inr ts \<Rightarrow> (Ok (), apply_domain_append st \<lparr>history_ts = ts, history_text = s\<rparr> limit)))"

definition memory_history_recent :: "memory_history \<Rightarrow> nat \<Rightarrow> history_entry list" where
  "memory_history_recent st limit =
     (let start = length (memory_rows st) - limit in map row_entry (drop start (memory_rows st)))"

definition memory_history_all :: "memory_history \<Rightarrow> history_row list" where
  "memory_history_all st = memory_rows st"

lemma rebuild_rows_entries: "map row_entry (fst (rebuild_rows old nxt es)) = es"
  by (induction old nxt es rule: rebuild_rows.induct)
     (auto simp: row_entry_def Let_def split: option.splits prod.splits)

definition memory_shown :: "memory_history \<Rightarrow> history_entry list" where
  "memory_shown st = map row_entry (memory_rows st)"

lemma apply_domain_append_shown:
  "memory_shown (apply_domain_append st e limit) = append_message_history_entry (memory_shown st) e limit"
  using rebuild_rows_entries[of "rows_by_key (memory_rows st)" "next_row_id st"]
  by (auto simp: memory_shown_def apply_domain_append_def Let_def split: prod.splits) (metis fst_conv)

interpretation memory_store: history_store "\<lambda>_ _. True" "\<lambda>_. True" apply_domain_append memory_shown
  by unfold_locales (simp_all add: apply_domain_append_shown)

section \<open>The SQLite table\<close>

text \<open>
  The table is the list of its rows.  \<open>select_desc\<close> is \<^verbatim>\<open>ORDER BY id DESC LIMIT n\<close>;
  \<open>new_id\<close> gives the id of an inserted row.  A failed statement leaves the transaction
  uncommitted, so the table is as before.
\<close>

type_synonym history_table = "history_row list"

definition select_desc :: "history_table \<Rightarrow> nat \<Rightarrow> history_row list" where
  "select_desc t n = take n (rev (sort_key history_id t))"

definition checked_limit :: "nat \<Rightarrow> store_error + nat" where
  "checked_limit limit = (if int limit \<le> i64_max then Ok limit else Err CorruptIndex)"

definition trim_message_history :: "history_table \<Rightarrow> nat \<Rightarrow> store_error + history_table" where
  "trim_message_history t limit =
     and_then (checked_limit limit) (\<lambda>n.
       Ok (filter (\<lambda>r. history_id r \<in> history_id ` set (select_desc t n)) t))"

definition insert_history_row ::
  "(history_table \<Rightarrow> int) \<Rightarrow> history_table \<Rightarrow> int \<Rightarrow> ustring \<Rightarrow> history_table" where
  "insert_history_row new_id t ts s = t @ [\<lparr>history_id = new_id t, row_ts = ts, row_text = s\<rparr>]"

definition record_message_history ::
  "(history_table \<Rightarrow> int) \<Rightarrow> store_error + int \<Rightarrow> history_table \<Rightarrow> ustring \<Rightarrow> nat
     \<Rightarrow> (store_error + unit) \<times> history_table" where
  "record_message_history new_id clock t s limit =
     (if \<not> should_record_message_history_text s then (Ok (), t)
      else (let last_text = map_option row_text (last_opt (rev (select_desc t 1)))
            in if message_history_is_adjacent_duplicate last_text s then (Ok (), t)
               else (case and_then clock (\<lambda>ts. trim_message_history (insert_history_row new_id t ts s) limit) of
                   Inl err \<Rightarrow> (Err err, t)
                 | Inr t' \<Rightarrow> (Ok (), t'))))"

definition load_message_history_recent :: "history_table \<Rightarrow> nat \<Rightarrow> store_error + history_entry list" where
  "load_message_history_recent t limit =
     and_then (checked_limit limit) (\<lambda>n. Ok (rev (map row_entry (select_desc t n))))"

definition load_message_history_all :: "history_table \<Rightarrow> history_row list" where
  "load_message_history_all t = sort_key history_id t"

definition ascending :: "history_table \<Rightarrow> bool" where
  "ascending t \<longleftrightarrow> sorted_wrt (<) (map history_id t)"

definition fresh_ids :: "(history_table \<Rightarrow> int) \<Rightarrow> bool" where
  "fresh_ids new_id \<longleftrightarrow> (\<forall>t. \<forall>r\<in>set t. history_id r < new_id t)"

lemma ascending_sort: "ascending t \<Longrightarrow> sort_key history_id t = t"
  by (rule sort_key_id_if_sorted) (auto simp: ascending_def strict_sorted_iff)

lemma ascending_insert:
  "ascending t \<Longrightarrow> fresh_ids new_id \<Longrightarrow> ascending (insert_history_row new_id t ts s)"
  by (auto simp: ascending_def insert_history_row_def fresh_ids_def sorted_wrt_append)

lemma select_desc_ascending: "ascending t \<Longrightarrow> select_desc t n = rev (drop (length t - n) t)"
  by (simp add: select_desc_def ascending_sort take_rev)

lemma trim_message_history_eq:
  assumes "ascending t" "int limit \<le> i64_max"
  shows "trim_message_history t limit = Ok (drop (length t - limit) t)"
proof -
  let ?keep = "drop (length t - limit) t" and ?cut = "take (length t - limit) t"
  from assms(1) have dist: "distinct (map history_id t)" by (simp add: ascending_def strict_sorted_iff)
  then have "distinct (map history_id (?cut @ ?keep))" by simp
  then have "history_id ` set ?cut \<inter> history_id ` set ?keep = {}"
    unfolding map_append distinct_append set_map by blast
  then have "filter (\<lambda>r. history_id r \<in> history_id ` set ?keep) (?cut @ ?keep) = ?keep"
    unfolding filter_append by (auto simp: filter_empty_conv simp del: append_take_drop_id)
  then show ?thesis
    using assms by (simp add: trim_message_history_def checked_limit_def select_desc_ascending)
qed

definition table_append ::
  "(history_table \<Rightarrow> int) \<Rightarrow> history_table \<Rightarrow> history_entry \<Rightarrow> nat \<Rightarrow> history_table" where
  "table_append new_id t e limit =
     snd (record_message_history new_id (Ok (history_ts e)) t (history_text e) limit)"

definition table_shown :: "history_table \<Rightarrow> history_entry list" where
  "table_shown t = map row_entry (load_message_history_all t)"

lemma last_text_ascending:
  "ascending t \<Longrightarrow> map_option row_text (last_opt (rev (select_desc t 1))) = map_option row_text (last_opt t)"
proof (cases t rule: rev_cases)
  case (snoc zs z)
  assume "ascending t"
  with snoc show ?thesis by (simp add: select_desc_ascending)
qed (simp add: select_desc_def)

lemma last_opt_map': "last_opt (map f xs) = map_option f (last_opt xs)"
  by (simp add: last_opt_eq last_map)

lemma table_append_recordable:
  assumes "ascending t" "fresh_ids new_id" "int limit \<le> i64_max" "should_record_message_history_text (history_text e)"
  shows "ascending (table_append new_id t e limit)"
    "table_shown (table_append new_id t e limit) = append_message_history_entry (table_shown t) e limit"
proof -
  let ?t = "insert_history_row new_id t (history_ts e) (history_text e)"
  have asc: "ascending ?t" by (rule ascending_insert[OF assms(1,2)])
  have eq: "table_append new_id t e limit =
      (if map_option row_text (last_opt t) = Some (history_text e) then t else drop (length ?t - limit) ?t)"
    using assms(4) trim_message_history_eq[OF asc assms(3)]
    by (auto simp: table_append_def record_message_history_def message_history_is_adjacent_duplicate_def
        last_text_ascending[OF assms(1), simplified] Let_def)
  have "ascending (drop n ?t)" for n
    using asc unfolding ascending_def by (simp only: drop_map[symmetric] sorted_wrt_drop)
  with eq assms(1) show asc': "ascending (table_append new_id t e limit)" by simp
  have "map_option history_text (last_opt (map row_entry t)) = map_option row_text (last_opt t)"
    by (simp add: last_opt_map' option.map_comp comp_def row_entry_def)
  moreover have "map row_entry ?t = map row_entry t @ [e]" "length ?t = Suc (length t)"
    by (simp_all add: insert_history_row_def row_entry_def)
  moreover have "table_shown (table_append new_id t e limit) = map row_entry (table_append new_id t e limit)"
    "table_shown t = map row_entry t"
    by (simp_all add: table_shown_def load_message_history_all_def ascending_sort asc' assms(1))
  ultimately show "table_shown (table_append new_id t e limit) = append_message_history_entry (table_shown t) e limit"
    unfolding append_message_history_entry_def message_history_is_adjacent_duplicate_def trim_eq eq
    by (auto simp: drop_map[symmetric] simp del: drop_append)
qed

definition recordable :: "history_entry \<Rightarrow> nat \<Rightarrow> bool" where
  "recordable e limit \<longleftrightarrow> should_record_message_history_text (history_text e) \<and> int limit \<le> i64_max"

interpretation table_store: history_store recordable "\<lambda>t. ascending t \<and> fresh_ids new_id"
  "table_append new_id" table_shown for new_id
  by unfold_locales (auto simp: recordable_def table_append_recordable)

text \<open>Both stores show the same history after the same writes, starting empty.\<close>

lemma stores_agree:
  assumes "fresh_ids new_id" "\<forall>e\<in>set es. recordable e limit"
  shows "table_shown (foldl (\<lambda>t e. table_append new_id t e limit) [] es)
    = memory_shown (foldl (\<lambda>st e. apply_domain_append st e limit) empty_history es)"
proof -
  have "ascending [] \<and> fresh_ids new_id" using assms(1) by (simp add: ascending_def)
  from table_store.record_all[OF this assms(2)] memory_store.record_all[where s = empty_history and es = es and limit = limit]
  show ?thesis by (simp add: table_shown_def load_message_history_all_def memory_shown_def empty_history_def)
qed

lemma load_recent_shown:
  assumes "ascending t" "int limit \<le> i64_max"
  shows "load_message_history_recent t limit = Ok (drop (length (table_shown t) - limit) (table_shown t))"
  using assms by (simp add: load_message_history_recent_def checked_limit_def select_desc_ascending
      table_shown_def load_message_history_all_def ascending_sort rev_map drop_map)

end
