(* ===== verification/Memory_Store.thy ===== *)
theory Memory_Store
  imports Store_Common Message_History "HOL-Library.Product_Lexorder"
begin

text \<open>
  The in-memory session store, \<^verbatim>\<open>session-store/src/store/memory.rs\<close>.  Every operation takes the
  store and the cursor and returns its result with both updated; \<^const>\<open>None\<close> is the search
  for an entry id that does not end.  A clock error in the middle of a batch leaves the
  entries of the batch that were already pushed, as in the code.  The global prompt assembly
  state of the store is not modelled.
\<close>

section \<open>State and operations\<close>

record memory_session =
  session_entries :: "session_entry list"
  session_path :: ustring

record memory_store =
  sessions :: "(session_id \<times> memory_session) list"
  message_history :: memory_history

type_synonym 'r reply = "((store_error + 'r) \<times> memory_store \<times> cursor) option"

definition new_memory_store :: memory_store where
  "new_memory_store = \<lparr>sessions = [], message_history = empty_history\<rparr>"

fun append_loop ::
  "platform \<Rightarrow> entry_kind list \<Rightarrow> ustring set \<Rightarrow> session_entry list \<Rightarrow> ustring list \<Rightarrow> cursor
     \<Rightarrow> ((store_error + ustring list) \<times> session_entry list \<times> cursor) option" where
  "append_loop P [] ids entries new_ids c = Some (Ok new_ids, entries, c)"
| "append_loop P (k # ks) ids entries new_ids c =
     (case generate_entry_id P ids c of
        None \<Rightarrow> None
      | Some (i, c) \<Rightarrow>
          (let parent = append_parent_id entries
           in case current_timestamp_ms P c of
                (Inl err, c) \<Rightarrow> Some (Err err, entries, c)
              | (Inr ts, c) \<Rightarrow>
                  append_loop P ks (insert i ids)
                    (entries @ [\<lparr>entry_id = i, parent_id = parent, timestamp = ts, kind = k\<rparr>])
                    (new_ids @ [i]) c))"

definition memory_append_entries ::
  "platform \<Rightarrow> session_id \<Rightarrow> entry_kind list \<Rightarrow> memory_store \<Rightarrow> cursor \<Rightarrow> ustring list reply" where
  "memory_append_entries P sid kinds st c =
     (if kinds = [] then Some (Ok [], st, c)
      else (case validate_append_kinds kinds of
          Inl err \<Rightarrow> Some (Err err, st, c)
        | Inr _ \<Rightarrow>
            (case map_of (sessions st) sid of
               None \<Rightarrow> Some (Err (SessionNotFound sid), st, c)
             | Some s \<Rightarrow>
                 map_option (\<lambda>(r, entries, c).
                     (r, st\<lparr>sessions := AList.update sid (s\<lparr>session_entries := entries\<rparr>) (sessions st)\<rparr>, c))
                   (append_loop P kinds (entry_ids (session_entries s)) (session_entries s) [] c))))"

definition memory_append_entry ::
  "platform \<Rightarrow> session_id \<Rightarrow> entry_kind \<Rightarrow> memory_store \<Rightarrow> cursor \<Rightarrow> ustring reply" where
  "memory_append_entry P sid k st c =
     map_option (\<lambda>(r, st, c). (and_then r (\<lambda>ids. ok_or CorruptIndex (last_opt ids)), st, c))
       (memory_append_entries P sid [k] st c)"

definition header_id :: ustring where "header_id = lit ''header''"

definition memory_create_session ::
  "platform \<Rightarrow> session_header \<Rightarrow> memory_store \<Rightarrow> cursor \<Rightarrow> session_id reply" where
  "memory_create_session P h st c =
     (case new_session_id P c of (sid, c) \<Rightarrow>
      (case current_timestamp_ms P c of
         (Inl err, c) \<Rightarrow> Some (Err err, st, c)
       | (Inr ts, c) \<Rightarrow>
           (let e = \<lparr>entry_id = header_id, parent_id = None, timestamp = ts,
                     kind = Header (h\<lparr>header_session_id := sid\<rparr>)\<rparr>
            in Some (Ok sid,
                 st\<lparr>sessions := AList.update sid
                     \<lparr>session_entries = [e], session_path = session_filename (show_uuid P) sid\<rparr> (sessions st)\<rparr>,
                 c))))"

definition memory_append ::
  "platform \<Rightarrow> session_id \<Rightarrow> conversation_item \<Rightarrow> memory_store \<Rightarrow> cursor \<Rightarrow> ustring reply" where
  "memory_append P sid item st c = memory_append_entry P sid (Item item) st c"

definition memory_append_many ::
  "platform \<Rightarrow> session_id \<Rightarrow> conversation_item list \<Rightarrow> memory_store \<Rightarrow> cursor \<Rightarrow> ustring list reply" where
  "memory_append_many P sid its st c = memory_append_entries P sid (map Item its) st c"

definition memory_append_config_change ::
  "platform \<Rightarrow> session_id \<Rightarrow> config_snapshot \<Rightarrow> memory_store \<Rightarrow> cursor \<Rightarrow> unit reply" where
  "memory_append_config_change P sid snapshot st c =
     map_option (\<lambda>(r, st, c). (and_then r (\<lambda>_. Ok ()), st, c))
       (memory_append_entry P sid (ConfigChange snapshot) st c)"

definition memory_append_transcript_replay ::
  "platform \<Rightarrow> session_id \<Rightarrow> replay_item \<Rightarrow> memory_store \<Rightarrow> cursor \<Rightarrow> ustring reply" where
  "memory_append_transcript_replay P sid item st c =
     memory_append_entry P sid (TranscriptReplay item) st c"

definition memory_set_leaf ::
  "platform \<Rightarrow> session_id \<Rightarrow> ustring option \<Rightarrow> memory_store \<Rightarrow> cursor \<Rightarrow> unit reply" where
  "memory_set_leaf P sid leaf st c =
     (case map_of (sessions st) sid of
        None \<Rightarrow> Some (Err (SessionNotFound sid), st, c)
      | Some s \<Rightarrow>
          (case (case leaf of
             Some i \<Rightarrow> if i \<in> entry_ids (session_entries s) then None else Some i
           | None \<Rightarrow> None) of
            Some i \<Rightarrow> Some (Err (ResolveFailed (LeafNotFound i)), st, c)
          | None \<Rightarrow>
              (case generate_entry_id P (entry_ids (session_entries s)) c of
                 None \<Rightarrow> None
               | Some (i, c) \<Rightarrow>
                   (case current_timestamp_ms P c of
                      (Inl err, c) \<Rightarrow> Some (Err err, st, c)
                    | (Inr ts, c) \<Rightarrow>
                        (let e = \<lparr>entry_id = i, parent_id = latest_non_leaf_id (session_entries s),
                                  timestamp = ts, kind = Leaf leaf\<rparr>
                         in Some (Ok (),
                              st\<lparr>sessions := AList.update sid
                                  (s\<lparr>session_entries := session_entries s @ [e]\<rparr>) (sessions st)\<rparr>,
                              c))))))"

definition with_session ::
  "memory_store \<Rightarrow> session_id \<Rightarrow> (memory_session \<Rightarrow> store_error + 'r) \<Rightarrow> store_error + 'r" where
  "with_session st sid f = and_then (ok_or (SessionNotFound sid) (map_of (sessions st) sid)) f"

definition memory_resolve ::
  "memory_store \<Rightarrow> session_id \<Rightarrow> ustring option \<Rightarrow> store_error + conversation_item list" where
  "memory_resolve st sid leaf = with_session st sid (\<lambda>s. query_items (session_entries s) leaf)"

definition memory_load_session ::
  "memory_store \<Rightarrow> session_id \<Rightarrow> ustring option \<Rightarrow> store_error + resolved_state" where
  "memory_load_session st sid leaf = with_session st sid (\<lambda>s. query_state (session_entries s) leaf)"

definition tree_query ::
  "memory_store \<Rightarrow> session_id \<Rightarrow> (session_entry list \<Rightarrow> (resolve_error, 'r) outcome) \<Rightarrow> (store_error, 'r) outcome" where
  "tree_query st sid f =
     (case map_of (sessions st) sid of
        None \<Rightarrow> Some (Err (SessionNotFound sid))
      | Some s \<Rightarrow> map_outcome_err resolve_store_error (f (session_entries s)))"

definition memory_load_session_tree ::
  "json_api \<Rightarrow> memory_store \<Rightarrow> session_id \<Rightarrow> (store_error, tree_snapshot) outcome" where
  "memory_load_session_tree J st sid = tree_query st sid (session_tree_snapshot J)"

definition memory_load_session_tree_for_leaf ::
  "json_api \<Rightarrow> memory_store \<Rightarrow> session_id \<Rightarrow> ustring \<Rightarrow> (store_error, tree_snapshot) outcome" where
  "memory_load_session_tree_for_leaf J st sid leaf =
     tree_query st sid (\<lambda>entries. session_tree_snapshot_for_leaf J entries leaf)"

definition memory_load_session_branch_preview ::
  "json_api \<Rightarrow> memory_store \<Rightarrow> session_id \<Rightarrow> ustring \<Rightarrow> (store_error, tree_snapshot) outcome" where
  "memory_load_session_branch_preview J st sid branch =
     tree_query st sid (\<lambda>entries. session_branch_preview_snapshot J entries branch)"

definition memory_load_session_branch_tree ::
  "json_api \<Rightarrow> memory_store \<Rightarrow> session_id \<Rightarrow> (store_error, branch_tree_snapshot) outcome" where
  "memory_load_session_branch_tree J st sid = tree_query st sid (session_branch_tree_snapshot J)"

text \<open>Newest update first, then newest creation, then the greater id.\<close>

definition catalogue_key :: "session_meta \<Rightarrow> int \<times> int \<times> int" where
  "catalogue_key m = (- meta_updated_at m, - meta_created_at m, - int (unat (meta_session_id m)))"

definition memory_list_sessions ::
  "platform \<Rightarrow> memory_store \<Rightarrow> ustring \<Rightarrow> store_error + session_meta list" where
  "memory_list_sessions P st project_dir =
     and_then (try_map (\<lambda>(sid, s). derive_store_session_meta P (session_entries s) (session_path s))
                 (sessions st))
       (\<lambda>metas. Ok (sort_key catalogue_key (filter (\<lambda>m. meta_project_dir m = project_dir) metas)))"

definition memory_get_session_meta ::
  "platform \<Rightarrow> memory_store \<Rightarrow> session_id \<Rightarrow> store_error + session_meta" where
  "memory_get_session_meta P st sid =
     with_session st sid (\<lambda>s. derive_store_session_meta P (session_entries s) (session_path s))"

definition memory_flush :: "memory_store \<Rightarrow> session_id \<Rightarrow> store_error + unit" where
  "memory_flush st sid =
     (if map_of (sessions st) sid \<noteq> None then Ok () else Err (SessionNotFound sid))"

definition memory_flush_all :: "memory_store \<Rightarrow> store_error + unit" where
  "memory_flush_all st = Ok ()"

definition memory_record_message_history ::
  "platform \<Rightarrow> ustring \<Rightarrow> nat \<Rightarrow> memory_store \<Rightarrow> cursor \<Rightarrow> (store_error + unit) \<times> memory_store \<times> cursor" where
  "memory_record_message_history P s limit st c =
     (if \<not> should_record_message_history_text s then (Ok (), st, c)
      else (case current_timestamp_ms P c of (ts, c) \<Rightarrow>
        (case record_message_history_entry (message_history st) ts s limit of
           (r, history) \<Rightarrow> (r, st\<lparr>message_history := history\<rparr>, c))))"

section \<open>The invariant\<close>

definition memory_inv :: "memory_store \<Rightarrow> bool" where
  "memory_inv st \<longleftrightarrow>
     (\<forall>sid s. map_of (sessions st) sid = Some s \<longrightarrow> session_log (session_entries s))"

lemma memory_inv_new: "memory_inv new_memory_store"
  by (simp add: memory_inv_def new_memory_store_def)

lemma generate_entry_id_new: "generate_entry_id P ids c = Some (i, c') \<Longrightarrow> i \<notin> ids"
  by (auto simp: generate_entry_id_def dest: generate_entry_id_fresh)

lemma append_loop_chained:
  assumes "append_loop P ks (entry_ids entries) entries new_ids c = Some (r, entries', c')"
  shows "\<exists>new. entries' = entries @ new \<and> chained entries new
    \<and> (\<exists>rest. ks = map kind new @ rest)
    \<and> (\<forall>ids. r = Ok ids \<longrightarrow> map kind new = ks \<and> ids = new_ids @ map entry_id new)"
  using assms
proof (induction ks arbitrary: entries new_ids c)
  case Nil
  then show ?case by auto
next
  case (Cons k ks)
  from Cons.prems obtain i c1 where i: "generate_entry_id P (entry_ids entries) c = Some (i, c1)"
    by (auto split: option.splits)
  obtain ts c2 where ts: "current_timestamp_ms P c1 = (ts, c2)" by (cases "current_timestamp_ms P c1")
  show ?case
  proof (cases ts)
    case (Inl err)
    with Cons.prems i ts show ?thesis by (intro exI[of _ "[]"]) auto
  next
    case (Inr t)
    let ?e = "\<lparr>entry_id = i, parent_id = append_parent_id entries, timestamp = t, kind = k\<rparr>"
    have ids: "entry_ids (entries @ [?e]) = insert i (entry_ids entries)" by (simp add: entry_ids_def)
    from Cons.prems i ts Inr
    have "append_loop P ks (entry_ids (entries @ [?e])) (entries @ [?e]) (new_ids @ [i]) c2 = Some (r, entries', c')"
      by (simp add: ids)
    from Cons.IH[OF this] obtain new where "entries' = (entries @ [?e]) @ new" "chained (entries @ [?e]) new"
      "\<exists>rest. ks = map kind new @ rest"
      "\<forall>ids. r = Ok ids \<longrightarrow> map kind new = ks \<and> ids = (new_ids @ [i]) @ map entry_id new" by blast
    with generate_entry_id_new[OF i] show ?thesis by (intro exI[of _ "?e # new"]) auto
  qed
qed

lemma append_loop_session_log:
  assumes "append_loop P ks (entry_ids entries) entries new_ids c = Some (r, entries', c')"
    "session_log entries" "\<forall>k\<in>set ks. \<not> is_leaf_kind k"
  shows "session_log entries'"
proof -
  from append_loop_chained[OF assms(1)] obtain new rest
    where new: "entries' = entries @ new" "chained entries new" "ks = map kind new @ rest" by blast
  from assms(3) new(3) have "\<forall>e\<in>set new. \<not> is_leaf_kind (kind e)" by auto
  from chained_session_log[OF assms(2) new(2) this] new(1) show ?thesis by simp
qed

lemma memory_inv_update:
  "memory_inv st \<Longrightarrow> session_log (session_entries s) \<Longrightarrow>
     memory_inv (st\<lparr>sessions := AList.update sid s (sessions st)\<rparr>)"
  by (simp add: memory_inv_def AList.update_conv')

lemma memory_append_entries_inv:
  assumes "memory_append_entries P sid kinds st c = Some (r, st', c')" "memory_inv st"
    "\<forall>k\<in>set kinds. \<not> is_leaf_kind k"
  shows "memory_inv st'"
proof (cases "st' = st")
  case False
  with assms(1) obtain s entries' c0 where s: "map_of (sessions st) sid = Some s"
    and loop: "append_loop P kinds (entry_ids (session_entries s)) (session_entries s) [] c = Some (r, entries', c0)"
    and st': "st' = st\<lparr>sessions := AList.update sid (s\<lparr>session_entries := entries'\<rparr>) (sessions st)\<rparr>"
    by (auto simp: memory_append_entries_def split: if_splits sum.splits option.splits)
  from assms(2) s have "session_log (session_entries s)" by (simp add: memory_inv_def)
  from append_loop_session_log[OF loop this assms(3)] show ?thesis
    unfolding st' by (intro memory_inv_update[OF assms(2)]) simp
qed (use assms in simp)

lemma memory_create_session_inv:
  assumes "memory_create_session P h st c = Some (r, st', c')" "memory_inv st"
  shows "memory_inv st'"
  using assms
  by (auto simp: memory_create_session_def is_header_kind_def split: prod.splits sum.splits
      intro!: memory_inv_update session_log_start)

lemma memory_set_leaf_inv:
  assumes "memory_set_leaf P sid leaf st c = Some (r, st', c')" "memory_inv st"
  shows "memory_inv st'"
proof (cases "map_of (sessions st) sid")
  case None
  with assms show ?thesis by (simp add: memory_set_leaf_def)
next
  case (Some s)
  with assms(2) have log: "session_log (session_entries s)" by (simp add: memory_inv_def)
  show ?thesis
  proof (cases "st' = st")
    case False
    with assms(1) Some obtain i ts where
      st': "st' = st\<lparr>sessions := AList.update sid (s\<lparr>session_entries := session_entries s @
          [\<lparr>entry_id = i, parent_id = latest_non_leaf_id (session_entries s), timestamp = ts, kind = Leaf leaf\<rparr>]\<rparr>)
          (sessions st)\<rparr>"
      and i: "\<exists>c c'. generate_entry_id P (entry_ids (session_entries s)) c = Some (i, c')"
      and target: "\<forall>t. leaf = Some t \<longrightarrow> t \<in> entry_ids (session_entries s)"
      by (auto simp: memory_set_leaf_def Let_def split: option.splits prod.splits sum.splits if_splits)
    from i have "i \<notin> entry_ids (session_entries s)" by (auto dest: generate_entry_id_new)
    with log target show ?thesis unfolding st'
      by (intro memory_inv_update[OF assms(2)]) (auto intro!: session_log_append)
  qed (use assms in simp)
qed

section \<open>The contract\<close>

definition has_session :: "memory_store \<times> session_id \<Rightarrow> bool" where
  "has_session x \<longleftrightarrow> memory_inv (fst x) \<and> map_of (sessions (fst x)) (snd x) \<noteq> None"

definition entries_in :: "memory_store \<times> session_id \<Rightarrow> session_entry list" where
  "entries_in x = (case map_of (sessions (fst x)) (snd x) of None \<Rightarrow> [] | Some s \<Rightarrow> session_entries s)"

definition memory_appends ::
  "memory_store \<times> session_id \<Rightarrow> entry_kind list \<Rightarrow> ustring list \<Rightarrow> memory_store \<times> session_id \<Rightarrow> bool" where
  "memory_appends x kinds ids y \<longleftrightarrow> snd y = snd x \<and>
     (\<exists>P c c'. memory_append_entries P (snd x) kinds (fst x) c = Some (Ok ids, fst y, c'))"

lemma memory_append_chains:
  assumes "has_session x" "memory_appends x kinds ids y" "\<forall>k\<in>set kinds. \<not> is_leaf_kind k"
  shows "has_session y \<and> (\<exists>new. entries_in y = entries_in x @ new \<and> chained (entries_in x) new
    \<and> map kind new = kinds \<and> map entry_id new = ids)"
proof -
  from assms(1) obtain s where s: "map_of (sessions (fst x)) (snd x) = Some s" and inv: "memory_inv (fst x)"
    by (auto simp: has_session_def)
  from assms(2) obtain P c c' where sid: "snd y = snd x"
    and step: "memory_append_entries P (snd x) kinds (fst x) c = Some (Ok ids, fst y, c')"
    by (auto simp: memory_appends_def)
  from memory_append_entries_inv[OF step inv assms(3)] have inv': "memory_inv (fst y)" .
  show ?thesis
  proof (cases "kinds = []")
    case True
    with step sid s inv show ?thesis by (auto simp: memory_append_entries_def has_session_def entries_in_def)
  next
    case False
    with step s obtain entries' where
      loop: "append_loop P kinds (entry_ids (session_entries s)) (session_entries s) [] c = Some (Ok ids, entries', c')"
      and y: "fst y = (fst x)\<lparr>sessions := AList.update (snd x) (s\<lparr>session_entries := entries'\<rparr>) (sessions (fst x))\<rparr>"
      by (auto simp: memory_append_entries_def split: sum.splits)
    from append_loop_chained[OF loop] s y sid inv' show ?thesis
      by (auto simp: has_session_def entries_in_def AList.update_conv')
  qed
qed

interpretation memory: session_owner has_session entries_in memory_appends
proof
  show "session_log (entries_in x)" if "has_session x" for x
    using that by (auto simp: has_session_def entries_in_def memory_inv_def)
  then show "log_wf {} (entries_in x)" if "has_session x" for x
    using that session_log_wf by blast
  show "has_session y \<and> (\<exists>new. entries_in y = entries_in x @ new \<and> chained (entries_in x) new
    \<and> map kind new = kinds \<and> map entry_id new = ids)"
    if "has_session x" "memory_appends x kinds ids y" "\<forall>k\<in>set kinds. \<not> is_leaf_kind k" for x kinds ids y
    using that by (rule memory_append_chains)
qed

section \<open>Reachable stores\<close>

text \<open>The kinds of entry the store appends: no operation writes a compaction.\<close>

definition appendable :: "entry_kind \<Rightarrow> bool" where
  "appendable k = (case k of Item _ \<Rightarrow> True | ConfigChange _ \<Rightarrow> True | TranscriptReplay _ \<Rightarrow> True | _ \<Rightarrow> False)"

inductive memory_step :: "platform \<Rightarrow> memory_store \<times> cursor \<Rightarrow> memory_store \<times> cursor \<Rightarrow> bool" for P where
  create: "memory_create_session P h st c = Some (sid, st', c') \<Longrightarrow> memory_step P (st, c) (st', c')"
| append: "memory_append P sid item st c = Some (i, st', c') \<Longrightarrow> memory_step P (st, c) (st', c')"
| append_many: "memory_append_many P sid its st c = Some (ids, st', c') \<Longrightarrow> memory_step P (st, c) (st', c')"
| config: "memory_append_config_change P sid snapshot st c = Some (r, st', c') \<Longrightarrow> memory_step P (st, c) (st', c')"
| replay: "memory_append_transcript_replay P sid replay st c = Some (i, st', c') \<Longrightarrow> memory_step P (st, c) (st', c')"
| set_leaf: "memory_set_leaf P sid leaf st c = Some (r, st', c') \<Longrightarrow> memory_step P (st, c) (st', c')"
| history: "memory_record_message_history P s limit st c = (r, st', c') \<Longrightarrow> memory_step P (st, c) (st', c')"

inductive memory_reachable :: "platform \<Rightarrow> memory_store \<times> cursor \<Rightarrow> bool" for P where
  start: "memory_reachable P (new_memory_store, c)"
| step: "memory_reachable P x \<Longrightarrow> memory_step P x y \<Longrightarrow> memory_reachable P y"

definition uncompacted :: "memory_store \<Rightarrow> bool" where
  "uncompacted st \<longleftrightarrow>
     (\<forall>sid s. map_of (sessions st) sid = Some s \<longrightarrow> (\<forall>e\<in>set (session_entries s). compaction_of e = None))"

lemma uncompacted_update:
  "uncompacted st \<Longrightarrow> \<forall>e\<in>set (session_entries s). compaction_of e = None \<Longrightarrow>
     uncompacted (st\<lparr>sessions := AList.update sid s (sessions st)\<rparr>)"
  by (simp add: uncompacted_def AList.update_conv')

lemma appendable_kind: "appendable (kind e) \<Longrightarrow> compaction_of e = None"
  by (auto simp: appendable_def compaction_of_def split: entry_kind.splits)

lemma append_entries_uncompacted:
  assumes "memory_append_entries P sid kinds st c = Some (r, st', c')" "uncompacted st"
    "\<forall>k\<in>set kinds. appendable k"
  shows "uncompacted st'"
proof (cases "st' = st")
  case False
  with assms(1) obtain s entries' r0 c0 where s: "map_of (sessions st) sid = Some s"
    and loop: "append_loop P kinds (entry_ids (session_entries s)) (session_entries s) [] c = Some (r0, entries', c0)"
    and st': "st' = st\<lparr>sessions := AList.update sid (s\<lparr>session_entries := entries'\<rparr>) (sessions st)\<rparr>"
    by (auto simp: memory_append_entries_def split: if_splits sum.splits option.splits)
  from append_loop_chained[OF loop] obtain new rest where new: "entries' = session_entries s @ new"
    "kinds = map kind new @ rest" by blast
  with assms(2,3) s have "\<forall>e\<in>set entries'. compaction_of e = None"
    by (auto simp: uncompacted_def intro: appendable_kind)
  then show ?thesis unfolding st' by (intro uncompacted_update[OF assms(2)]) simp
qed (use assms in simp)

lemma appendable_not_leaf: "appendable k \<Longrightarrow> \<not> is_leaf_kind k"
  by (cases k) (simp_all add: appendable_def)

lemma append_entries_safe:
  assumes "memory_append_entries P sid kinds st c = Some (r, st', c')" "memory_inv st \<and> uncompacted st"
    "\<forall>k\<in>set kinds. appendable k"
  shows "memory_inv st' \<and> uncompacted st'"
  using assms memory_append_entries_inv append_entries_uncompacted appendable_not_leaf by blast

lemma append_entry_safe:
  assumes "memory_append_entry P sid k st c = Some (r, st', c')" "memory_inv st \<and> uncompacted st" "appendable k"
  shows "memory_inv st' \<and> uncompacted st'"
  using assms append_entries_safe[of P sid "[k]" st c] by (auto simp: memory_append_entry_def)

lemma set_leaf_uncompacted:
  assumes "memory_set_leaf P sid leaf st c = Some (r, st', c')" "uncompacted st"
  shows "uncompacted st'"
  using assms
  by (auto simp: memory_set_leaf_def Let_def compaction_of_def uncompacted_def AList.update_conv'
      split: option.splits prod.splits sum.splits if_splits)

lemma create_uncompacted:
  assumes "memory_create_session P h st c = Some (r, st', c')" "uncompacted st"
  shows "uncompacted st'"
  using assms
  by (auto simp: memory_create_session_def Let_def compaction_of_def uncompacted_def AList.update_conv'
      split: prod.splits sum.splits if_splits)

lemma record_history_sessions:
  "memory_record_message_history P s limit st c = (r, st', c') \<Longrightarrow> sessions st' = sessions st"
  by (auto simp: memory_record_message_history_def split: if_splits prod.splits)

lemma memory_step_safe:
  assumes "memory_step P x y" "memory_inv (fst x) \<and> uncompacted (fst x)"
  shows "memory_inv (fst y) \<and> uncompacted (fst y)"
  using assms
proof cases
  case (create h st c sid st' c')
  with assms(2) memory_create_session_inv create_uncompacted show ?thesis by auto
next
  case (append sid item st c i st' c')
  with assms(2) append_entry_safe[of P sid "Item item" st c] show ?thesis by (simp add: memory_append_def appendable_def)
next
  case (append_many sid its st c ids st' c')
  with assms(2) append_entries_safe[of P sid "map Item its" st c] show ?thesis
    by (simp add: memory_append_many_def appendable_def)
next
  case (config sid snapshot st c r st' c')
  with assms(2) append_entry_safe[of P sid "ConfigChange snapshot" st c] show ?thesis
    by (auto simp: memory_append_config_change_def appendable_def)
next
  case (replay sid replay st c i st' c')
  with assms(2) append_entry_safe[of P sid "TranscriptReplay replay" st c] show ?thesis
    by (simp add: memory_append_transcript_replay_def appendable_def)
next
  case (set_leaf sid leaf st c r st' c')
  with assms(2) memory_set_leaf_inv set_leaf_uncompacted show ?thesis by auto
next
  case (history s limit st c r st' c')
  with assms(2) record_history_sessions show ?thesis by (auto simp: memory_inv_def uncompacted_def)
qed

lemma memory_reachable_safe: "memory_reachable P x \<Longrightarrow> memory_inv (fst x) \<and> uncompacted (fst x)"
proof (induction rule: memory_reachable.induct)
  case (start c)
  then show ?case by (simp add: memory_inv_new) (simp add: uncompacted_def new_memory_store_def)
qed (rule memory_step_safe)

section \<open>What the queries show\<close>

lemma memory_conversation_grows:
  assumes "memory_inv st" "map_of (sessions st) sid = Some s"
    "memory_append_many P sid its st c = Some (Ok ids, st', c')" "memory_resolve st sid None = Ok shown"
  shows "memory_resolve st' sid None = Ok (shown @ its)"
proof -
  have x: "has_session (st, sid)" "entries_in (st, sid) = session_entries s"
    using assms(1,2) by (simp_all add: has_session_def entries_in_def)
  have step: "memory_appends (st, sid) (map Item its) ids (st', sid)"
    using assms(3) by (auto simp: memory_appends_def memory_append_many_def)
  have "\<forall>k\<in>set (map Item its). \<not> is_leaf_kind k" by simp
  from memory.append_chains[OF x(1) step this] obtain new :: "session_entry list"
    where y: "has_session (st', sid)" "map kind new = map Item its" "map entry_id new = ids" by blast
  then obtain s' where s': "map_of (sessions st') sid = Some s'" "entries_in (st', sid) = session_entries s'"
    by (auto simp: has_session_def entries_in_def)
  from assms(2,4) obtain r where r: "query_state (entries_in (st, sid)) None = Ok r" "shown = map resolved_value (items r)"
    by (auto simp: memory_resolve_def with_session_def query_items_eq and_then_eq_Ok x(2))
  have "length ids = length its" using y(2,3) by (metis length_map)
  then have "map resolved_value (map2 (\<lambda>i item. \<lparr>resolved_entry_id = i, resolved_value = item\<rparr>) ids its) = its"
    by (induction ids its rule: list_induct2) simp_all
  with memory.conversation_grows[OF x(1) step r(1)] s' r(2) show ?thesis
    by (simp add: memory_resolve_def with_session_def query_items_eq)
qed

lemma memory_leaf_moved:
  assumes "memory_inv st" "map_of (sessions st) sid = Some s" "t \<in> set (session_entries s)" "\<not> is_leaf_kind (kind t)"
    "memory_set_leaf P sid (Some (entry_id t)) st c = Some (Ok (), st', c')"
  shows "memory_load_session st' sid None = memory_load_session st sid (Some (entry_id t))"
proof -
  from memory_set_leaf_inv[OF assms(5,1)] have inv': "memory_inv st'" .
  from assms(2-5) obtain i ts where
    st': "st' = st\<lparr>sessions := AList.update sid (s\<lparr>session_entries := session_entries s @
        [\<lparr>entry_id = i, parent_id = latest_non_leaf_id (session_entries s), timestamp = ts,
          kind = Leaf (Some (entry_id t))\<rparr>]\<rparr>) (sessions st)\<rparr>"
    by (auto simp: memory_set_leaf_def Let_def entry_ids_def split: option.splits prod.splits sum.splits if_splits)
  let ?l = "\<lparr>entry_id = i, parent_id = latest_non_leaf_id (session_entries s), timestamp = ts,
          kind = Leaf (Some (entry_id t))\<rparr>"
  from inv' have "session_log (session_entries s @ [?l])"
    unfolding st' memory_inv_def by (simp add: AList.update_conv' split: if_splits)
  moreover have "session_log (session_entries s)" using assms(1,2) by (simp add: memory_inv_def)
  ultimately have "query_state (session_entries s @ [?l]) None = query_state (session_entries s) (Some (entry_id t))"
    using query_after_set_leaf[of "session_entries s" ?l t] assms(3,4) by simp
  then show ?thesis using assms(2)
    by (simp add: memory_load_session_def with_session_def st' AList.update_conv')
qed

end
