(* ===== verification/Samples.thy ===== *)
theory Samples
  imports Memory_Store
begin

text \<open>
  A concrete session, on which the properties of the root theory are evaluated: a user message,
  an assistant message with one tool call, the result of the call, an answer, two alternative
  follow-ups below the answer, a compaction below the second, and a marker that moves the leaf
  back to the answer.
\<close>

definition json0 :: json_api where
  "json0 = \<lparr>json_parse = (\<lambda>_. None), json_pretty = (\<lambda>_. None), json_compact = (\<lambda>_. [])\<rparr>"

definition mk_entry :: "string \<Rightarrow> string option \<Rightarrow> int \<Rightarrow> entry_kind \<Rightarrow> session_entry" where
  "mk_entry i p t k = \<lparr>entry_id = lit i, parent_id = map_option lit p, timestamp = t, kind = k\<rparr>"

definition header0 :: session_header where
  "header0 = \<lparr>header_session_id = 7, work_dir = lit ''/repo'', session_name = None,
     initial_model = lit ''m0'', header_git_head = None, cli_version = None\<rparr>"

definition call0 :: tool_call where
  "call0 = \<lparr>call_id = lit ''c1'', tool_name = lit ''read'', arguments = lit ''x''\<rparr>"

definition "e_header = mk_entry ''header'' None 1 (Header header0)"
definition "e_u1 = mk_entry ''u1'' (Some ''header'') 2 (Item (item_text User (lit ''hello'')))"
definition "e_a1 = mk_entry ''a1'' (Some ''u1'') 3 (Item (assistant_with_tool_calls (lit ''looking'') [call0]))"
definition "e_t1 = mk_entry ''t1'' (Some ''a1'') 4 (Item (ToolResult (lit ''c1'') [Text (lit ''data'')] False))"
definition "e_a2 = mk_entry ''a2'' (Some ''t1'') 5 (Item (item_text Assistant (lit ''done'')))"
definition "e_u2 = mk_entry ''u2'' (Some ''a2'') 6 (Item (item_text User (lit ''left'')))"
definition "e_u3 = mk_entry ''u3'' (Some ''a2'') 7 (Item (item_text User (lit ''right'')))"
definition "e_k1 = mk_entry ''k1'' (Some ''u3'') 8 (Compaction (lit ''so far'') (lit ''a2'') 99)"
definition "e_l1 = mk_entry ''l1'' (Some ''k1'') 9 (Leaf (Some (lit ''a2'')))"

lemmas sample_entries =
  e_header_def e_u1_def e_a1_def e_t1_def e_a2_def e_u2_def e_u3_def e_k1_def e_l1_def mk_entry_def

definition sample_log :: "session_entry list" where
  "sample_log = [e_header, e_u1, e_a1, e_t1, e_a2, e_u2, e_u3, e_k1, e_l1]"

lemma sample_log_wf: "log_wf {} sample_log"
  by (simp add: sample_log_def sample_entries)

lemma sample_session_log: "session_log sample_log"
  using sample_log_wf
  by (auto simp: session_log_def is_header_kind_def leaf_links_def sample_log_def sample_entries
      less_Suc_eq nth_Cons')

lemma sample_rows:
  "is_row e_u1" "is_row e_a1" "is_row e_t1" "is_row e_a2" "is_row e_u2" "is_row e_u3"
  "\<not> is_row e_header" "\<not> is_row e_k1" "\<not> is_row e_l1"
  by (simp_all add: sample_entries session_tree_row_kind_def item_row_kind_def item_text_def
      assistant_with_tool_calls_def assistant_with_parts_def)

lemma sample_mem:
  "e_header \<in> set sample_log" "e_u1 \<in> set sample_log" "e_a1 \<in> set sample_log" "e_t1 \<in> set sample_log"
  "e_a2 \<in> set sample_log" "e_u2 \<in> set sample_log" "e_u3 \<in> set sample_log" "e_k1 \<in> set sample_log"
  "e_l1 \<in> set sample_log"
  by (simp_all add: sample_log_def)

lemma sample_ancestry_root: "ancestry (index_of sample_log) e_header = [e_header]"
proof -
  have "root_path (index_of sample_log) e_header [e_header]"
    by (rule root_path.root) (simp add: sample_entries)
  from root_path_unique[OF groundedD(2)[OF log_wf_grounded[OF sample_log_wf]
      log_wf_lookup[OF sample_log_wf sample_mem(1)]] this] show ?thesis .
qed

lemma sample_ancestry_u1: "ancestry (index_of sample_log) e_u1 = [e_header, e_u1]"
  using ancestry_child[OF sample_log_wf sample_mem(2,1)] sample_ancestry_root by (simp add: sample_entries)
lemma sample_ancestry_a1: "ancestry (index_of sample_log) e_a1 = [e_header, e_u1, e_a1]"
  using ancestry_child[OF sample_log_wf sample_mem(3,2)] sample_ancestry_u1 by (simp add: sample_entries)
lemma sample_ancestry_t1: "ancestry (index_of sample_log) e_t1 = [e_header, e_u1, e_a1, e_t1]"
  using ancestry_child[OF sample_log_wf sample_mem(4,3)] sample_ancestry_a1 by (simp add: sample_entries)
lemma sample_ancestry_a2: "ancestry (index_of sample_log) e_a2 = [e_header, e_u1, e_a1, e_t1, e_a2]"
  using ancestry_child[OF sample_log_wf sample_mem(5,4)] sample_ancestry_t1 by (simp add: sample_entries)
lemma sample_ancestry_u3: "ancestry (index_of sample_log) e_u3 = [e_header, e_u1, e_a1, e_t1, e_a2, e_u3]"
  using ancestry_child[OF sample_log_wf sample_mem(7,5)] sample_ancestry_a2 by (simp add: sample_entries)
lemma sample_ancestry_k1:
  "ancestry (index_of sample_log) e_k1 = [e_header, e_u1, e_a1, e_t1, e_a2, e_u3, e_k1]"
  using ancestry_child[OF sample_log_wf sample_mem(8,7)] sample_ancestry_u3 by (simp add: sample_entries)

lemmas sample_ancestry =
  sample_ancestry_root sample_ancestry_u1 sample_ancestry_a1 sample_ancestry_t1 sample_ancestry_a2
  sample_ancestry_u3 sample_ancestry_k1

text \<open>Two hidden entries that are each other's parent, a row below them, and a row apart.\<close>

definition "e_loop1 = mk_entry ''x'' (Some ''y'') 1 (TranscriptReplay (ReplayReasoning []))"
definition "e_loop2 = mk_entry ''y'' (Some ''x'') 2 (TranscriptReplay (ReplayReasoning []))"
definition "e_loop3 = mk_entry ''z'' (Some ''y'') 3 (Item (item_text User (lit ''hi'')))"

definition "e_loop4 = mk_entry ''w'' None 4 (Item (item_text User (lit ''hi'')))"

definition loop_log :: "session_entry list" where
  "loop_log = [e_loop1, e_loop2, e_loop3, e_loop4]"

lemmas loop_entries = e_loop1_def e_loop2_def e_loop3_def e_loop4_def mk_entry_def

text \<open>A platform whose UUIDs count up and whose clock shows the number of its reading.\<close>

definition platform0 :: platform where
  "platform0 = \<lparr>next_uuid = (\<lambda>n. of_nat (Suc n)), show_uuid = (\<lambda>u. replicate (unat u) 120),
     clock = (\<lambda>n. Ok (int n)), canonicalize = (\<lambda>p. p), file_size = (\<lambda>_. None)\<rparr>"

end
