(* ===== verification/Utf8.thy ===== *)
theory Utf8
  imports Prelude "HOL-Library.Sublist"
begin

text \<open>
  The bytes of a string, as the log files hold them: \<^verbatim>\<open>String::as_bytes\<close> is \<open>utf8_encode\<close> and
  \<^verbatim>\<open>std::str::from_utf8\<close> is \<open>utf8_decode\<close>, which accepts exactly the shortest encodings of
  Unicode scalar values.  A byte is a natural number; \<open>utf8_encode\<close> produces only numbers
  below 256 and \<open>utf8_decode\<close> rejects all others.
\<close>

type_synonym bytes = "nat list"

definition is_scalar :: "nat \<Rightarrow> bool" where
  "is_scalar c \<longleftrightarrow> c < 55296 \<or> 57344 \<le> c \<and> c < 1114112"

definition utf8_char :: "nat \<Rightarrow> bytes" where
  "utf8_char c =
     (if c < 128 then [c]
      else if c < 2048 then [192 + c div 64, 128 + c mod 64]
      else if c < 65536 then [224 + c div 4096, 128 + c div 64 mod 64, 128 + c mod 64]
      else [240 + c div 262144, 128 + c div 4096 mod 64, 128 + c div 64 mod 64, 128 + c mod 64])"

definition utf8_encode :: "ustring \<Rightarrow> bytes" where
  "utf8_encode s = concat (map utf8_char s)"

definition is_cont :: "nat \<Rightarrow> bool" where
  "is_cont b \<longleftrightarrow> 128 \<le> b \<and> b < 192"

fun utf8_decode :: "bytes \<Rightarrow> ustring option" where
  "utf8_decode [] = Some []"
| "utf8_decode (a # bs) =
     (if a < 128 then map_option (Cons a) (utf8_decode bs)
      else if a < 194 then None
      else if a < 224 then
        (case bs of
           b # rest \<Rightarrow>
             if is_cont b then map_option (Cons ((a - 192) * 64 + (b - 128))) (utf8_decode rest) else None
         | [] \<Rightarrow> None)
      else if a < 240 then
        (case bs of
           b # c # rest \<Rightarrow>
             let v = (a - 224) * 4096 + (b - 128) * 64 + (c - 128)
             in if is_cont b \<and> is_cont c \<and> 2048 \<le> v \<and> is_scalar v
                then map_option (Cons v) (utf8_decode rest) else None
         | _ \<Rightarrow> None)
      else if a < 245 then
        (case bs of
           b # c # d # rest \<Rightarrow>
             let v = (a - 240) * 262144 + (b - 128) * 4096 + (c - 128) * 64 + (d - 128)
             in if is_cont b \<and> is_cont c \<and> is_cont d \<and> 65536 \<le> v \<and> is_scalar v
                then map_option (Cons v) (utf8_decode rest) else None
         | _ \<Rightarrow> None)
      else None)"

lemma utf8_encode_simps [simp]:
  "utf8_encode [] = []" "utf8_encode (c # s) = utf8_char c @ utf8_encode s"
  "utf8_encode (s @ t) = utf8_encode s @ utf8_encode t"
  by (simp_all add: utf8_encode_def)

lemma utf8_char_not_Nil [simp]: "utf8_char c \<noteq> []"
  by (simp add: utf8_char_def)

lemma utf8_encode_eq_Nil [simp]: "utf8_encode s = [] \<longleftrightarrow> s = []"
  by (cases s) simp_all

lemma utf8_char_bytes: "b \<in> set (utf8_char c) \<Longrightarrow> b = c \<or> 128 \<le> b"
  by (auto simp: utf8_char_def split: if_splits)

lemma utf8_encode_bytes: "b \<in> set (utf8_encode s) \<Longrightarrow> b \<in> set s \<or> 128 \<le> b"
  by (auto simp: utf8_encode_def dest: utf8_char_bytes)

lemma digits_sum:
  fixes c :: nat
  shows "c = q1 * 64 + r0 \<Longrightarrow> q1 = q2 * 64 + r1 \<Longrightarrow> q2 * 4096 + r1 * 64 + r0 = c"
    "c = q1 * 64 + r0 \<Longrightarrow> q1 = q2 * 64 + r1 \<Longrightarrow> q2 = q3 * 64 + r2
       \<Longrightarrow> q3 * 262144 + r2 * 4096 + r1 * 64 + r0 = c"
  by simp_all

lemma four_digits:
  fixes c :: nat
  shows "c div 4096 * 4096 + c div 64 mod 64 * 64 + c mod 64 = c"
    "c div 262144 * 262144 + c div 4096 mod 64 * 4096 + c div 64 mod 64 * 64 + c mod 64 = c"
proof -
  have q: "c div 4096 = c div 64 div 64" "c div 262144 = c div 64 div 64 div 64"
    by (simp_all only: div_mult2_eq[symmetric]) simp_all
  note d = div_mult_mod_eq[symmetric, of c 64] div_mult_mod_eq[symmetric, of "c div 64" 64]
    div_mult_mod_eq[symmetric, of "c div 64 div 64" 64]
  show "c div 4096 * 4096 + c div 64 mod 64 * 64 + c mod 64 = c"
    unfolding q by (rule digits_sum(1)[OF d(1,2)])
  show "c div 262144 * 262144 + c div 4096 mod 64 * 4096 + c div 64 mod 64 * 64 + c mod 64 = c"
    unfolding q by (rule digits_sum(2)[OF d])
qed

lemma scalar_cases:
  assumes "is_scalar c"
  obtains "c < 128" | "128 \<le> c" "c < 2048" | "2048 \<le> c" "c < 65536" | "65536 \<le> c" "c < 1114112"
  using assms
  by (cases "c < 128"; cases "c < 2048"; cases "c < 65536") (auto simp: is_scalar_def not_less)

lemma utf8_decode_char:
  assumes "is_scalar c"
  shows "utf8_decode (utf8_char c @ bs) = map_option (Cons c) (utf8_decode bs)"
proof -
  have digit: "is_cont (128 + n mod 64)" for n by (simp add: is_cont_def)
  from assms show ?thesis
  proof (cases rule: scalar_cases)
    case 2
    have "\<not> 192 + c div 64 < 194" "192 + c div 64 < 224" using 2 by linarith+
    with 2 digit show ?thesis by (simp add: utf8_char_def div_mult_mod_eq)
  next
    case 3
    have "\<not> 224 + c div 4096 < 224" "224 + c div 4096 < 240" using 3 by linarith+
    with 3 digit assms show ?thesis by (simp add: utf8_char_def four_digits(1) Let_def)
  next
    case 4
    have "\<not> 240 + c div 262144 < 240" "240 + c div 262144 < 245" using 4 by linarith+
    with 4 digit assms show ?thesis by (simp add: utf8_char_def four_digits(2) Let_def)
  qed (simp add: utf8_char_def)
qed

lemma utf8_roundtrip:
  "\<forall>c\<in>set s. is_scalar c \<Longrightarrow> utf8_decode (utf8_encode s) = Some s"
  by (induction s) (simp_all add: utf8_decode_char)

text \<open>A cut encoding decodes, when at all, to a prefix of the string.\<close>

lemma utf8_decode_short:
  "194 \<le> a \<Longrightarrow> a < 224 \<Longrightarrow> utf8_decode [a] = None"
  "224 \<le> a \<Longrightarrow> a < 240 \<Longrightarrow> utf8_decode [a] = None \<and> utf8_decode [a, b] = None"
  "240 \<le> a \<Longrightarrow> a < 245 \<Longrightarrow> utf8_decode [a] = None \<and> utf8_decode [a, b] = None \<and> utf8_decode [a, b, c] = None"
  by simp_all

lemma take_short:
  "0 < n \<Longrightarrow> n < length [a, b] \<Longrightarrow> take n [a, b] = [a]"
  "0 < n \<Longrightarrow> n < length [a, b, c] \<Longrightarrow> take n [a, b, c] = [a] \<or> take n [a, b, c] = [a, b]"
  "0 < n \<Longrightarrow> n < length [a, b, c, d] \<Longrightarrow>
     take n [a, b, c, d] = [a] \<or> take n [a, b, c, d] = [a, b] \<or> take n [a, b, c, d] = [a, b, c]"
  by (auto simp: take_Cons' less_Suc_eq)

lemma utf8_decode_cut_char:
  assumes "is_scalar c" "0 < n" "n < length (utf8_char c)"
  shows "utf8_decode (take n (utf8_char c)) = None"
proof -
  from assms(1) show ?thesis
  proof (cases rule: scalar_cases)
    case 1
    with assms show ?thesis by (simp add: utf8_char_def)
  next
    case 2
    then have char: "utf8_char c = [192 + c div 64, 128 + c mod 64]" by (simp add: utf8_char_def)
    have "194 \<le> 192 + c div 64" "192 + c div 64 < 224" using 2 by linarith+
    from utf8_decode_short(1)[OF this] take_short(1)[OF assms(2), of "192 + c div 64" "128 + c mod 64"] assms(3)
    show ?thesis unfolding char by presburger
  next
    case 3
    then have char: "utf8_char c = [224 + c div 4096, 128 + c div 64 mod 64, 128 + c mod 64]"
      by (simp add: utf8_char_def)
    have "224 \<le> 224 + c div 4096" "224 + c div 4096 < 240" using 3 by linarith+
    from utf8_decode_short(2)[OF this] take_short(2)[OF assms(2)] assms(3)
    show ?thesis unfolding char by metis
  next
    case 4
    then have char: "utf8_char c = [240 + c div 262144, 128 + c div 4096 mod 64, 128 + c div 64 mod 64, 128 + c mod 64]"
      by (simp add: utf8_char_def)
    have "240 \<le> 240 + c div 262144" "240 + c div 262144 < 245" using 4 by linarith+
    from utf8_decode_short(3)[OF this] take_short(3)[OF assms(2)] assms(3)
    show ?thesis unfolding char by metis
  qed
qed

lemma utf8_decode_cut:
  assumes "\<forall>c\<in>set s. is_scalar c" "utf8_decode (take n (utf8_encode s)) = Some t"
  shows "prefix t s \<and> (n < length (utf8_encode s) \<longrightarrow> t \<noteq> s)"
  using assms
proof (induction s arbitrary: n t)
  case (Cons c s)
  show ?case
  proof (cases "length (utf8_char c) \<le> n")
    case True
    with Cons.prems obtain t' where t: "t = c # t'"
      and t': "utf8_decode (take (n - length (utf8_char c)) (utf8_encode s)) = Some t'"
      by (auto simp: utf8_decode_char)
    from Cons.IH[OF _ t'] Cons.prems(1) t True show ?thesis by auto
  next
    case False
    show ?thesis
    proof (cases "n = 0")
      case True
      with Cons.prems(2) show ?thesis by simp
    next
      case nonzero: False
      from utf8_decode_cut_char[of c n] False nonzero Cons.prems show ?thesis by simp
    qed
  qed
qed simp

end
