(* ===== verification/Jsonl.thy ===== *)
theory Jsonl
  imports Utf8 Store_Common
begin

text \<open>
  The append-only log file of a session, \<^verbatim>\<open>session-store/src/jsonl.rs\<close>: the writer, which
  appends one line per entry and may fail half way, and the loader, which splits the file at
  line feeds, skips lines it cannot read, stops at an unreadable last line without line feed,
  and keeps the first of several entries with the same id.  \<^verbatim>\<open>serde_json\<close> is a parameter
  (\<open>codec\<close>); \<open>encodes\<close> states what the loader relies on.  The lemmas show that what was
  written is read back, from a whole file and from one cut at an arbitrary byte.
\<close>

section \<open>The codec\<close>

record codec =
  to_json :: "session_entry \<Rightarrow> ustring option"
  from_json :: "ustring \<Rightarrow> session_entry option"

text \<open>
  What \<^verbatim>\<open>serde_json\<close> documents of the compact form of an entry, an object: it holds scalar
  values and no control characters, it reads back, and no proper prefix of it is a value.
\<close>

definition encodes :: "codec \<Rightarrow> session_entry \<Rightarrow> bool" where
  "encodes C e \<longleftrightarrow> (\<exists>text. to_json C e = Some text \<and> text \<noteq> [] \<and> (\<forall>c\<in>set text. is_scalar c \<and> 32 \<le> c)
     \<and> from_json C text = Some e \<and> (\<forall>p. strict_prefix p text \<longrightarrow> from_json C p = None))"

text \<open>Serialising may fail; what it yields is as above.\<close>

definition codec_ok :: "codec \<Rightarrow> bool" where
  "codec_ok C \<longleftrightarrow> (\<forall>e. to_json C e \<noteq> None \<longrightarrow> encodes C e)"

section \<open>The writer\<close>

text \<open>
  The outside world decides whether a file can be opened and how many bytes of a batch reach
  it when writing, flushing or syncing fails.  After a failure the recorder drops the writer;
  the number counts all that reached the file by then.
\<close>

datatype io_fault = NoFault | OpenFails | WriteFails nat

record jsonl_writer =
  file_open :: bool

definition new_writer :: jsonl_writer where
  "new_writer = \<lparr>file_open = False\<rparr>"

fun write_entries :: "codec \<Rightarrow> session_entry list \<Rightarrow> bytes \<Rightarrow> bytes \<times> (store_error + unit)" where
  "write_entries C [] buffered = (buffered, Ok ())"
| "write_entries C (e # es) buffered =
     (case to_json C e of
        None \<Rightarrow> (buffered, Err (SerializeEntry (entry_id e)))
      | Some text \<Rightarrow> write_entries C es (buffered @ utf8_encode text @ [10]))"

definition file_content :: "bytes option \<Rightarrow> bytes" where
  "file_content f = (case f of None \<Rightarrow> [] | Some b \<Rightarrow> b)"

text \<open>Opening creates a file that is not there, with its directory.\<close>

definition file_mut ::
  "io_fault \<Rightarrow> jsonl_writer \<Rightarrow> bytes option \<Rightarrow> store_error + jsonl_writer \<times> bytes option" where
  "file_mut fault w f =
     (if file_open w then Ok (w, f)
      else if fault = OpenFails then Err IoError
      else Ok (w\<lparr>file_open := True\<rparr>, Some (file_content f)))"

definition write_batch ::
  "codec \<Rightarrow> io_fault \<Rightarrow> session_entry list \<Rightarrow> jsonl_writer \<Rightarrow> bytes option
     \<Rightarrow> (store_error + unit) \<times> jsonl_writer \<times> bytes option" where
  "write_batch C fault entries w f =
     (if entries = [] then (Ok (), w, f)
      else
        case file_mut fault w f of
          Inl err \<Rightarrow> (Err err, w, f)
        | Inr (w', f') \<Rightarrow>
            (let (out, result) = write_entries C entries []
             in case fault of
                  WriteFails n \<Rightarrow> (Err IoError, w', Some (file_content f' @ take n out))
                | _ \<Rightarrow> (result, w', Some (file_content f' @ out))))"

lemma file_mut_cases:
  "file_mut fault w f = Err IoError \<and> \<not> file_open w \<and> fault = OpenFails
   \<or> (\<exists>w' f'. file_mut fault w f = Ok (w', f') \<and> file_content f' = file_content f)"
  by (auto simp: file_mut_def file_content_def)

section \<open>The loader\<close>

text \<open>\<^verbatim>\<open>BufRead::read_until\<close>: the bytes up to and with the delimiter, and the rest.\<close>

definition read_until :: "nat \<Rightarrow> bytes \<Rightarrow> bytes \<times> bytes" where
  "read_until d bs =
     (case dropWhile (\<lambda>b. b \<noteq> d) bs of
        [] \<Rightarrow> (bs, [])
      | b # rest \<Rightarrow> (takeWhile (\<lambda>b. b \<noteq> d) bs @ [b], rest))"

definition strip_newline :: "bytes \<Rightarrow> bytes \<times> bool" where
  "strip_newline line =
     (if last_opt line = Some 10
      then (let body = butlast line
            in (if last_opt body = Some 13 then butlast body else body, True))
      else (line, False))"

lemma length_read_until: "line = fst (read_until d bs) \<Longrightarrow> line \<noteq> [] \<Longrightarrow> length (snd (read_until d bs)) < length bs"
proof -
  assume "line = fst (read_until d bs)" "line \<noteq> []"
  then have "bs \<noteq> []" by (auto simp: read_until_def split: list.splits)
  then show ?thesis
    using length_dropWhile_le[of "\<lambda>b. b \<noteq> d" bs]
    by (auto simp: read_until_def split: list.splits)
qed

function scan_loop ::
  "codec \<Rightarrow> ('s \<Rightarrow> session_entry \<Rightarrow> store_error + 's) \<Rightarrow> ustring set \<Rightarrow> 's \<Rightarrow> bytes
     \<Rightarrow> store_error + ustring set \<times> 's" where
  "scan_loop C on_entry seen s reader =
     (let line_bytes = fst (read_until 10 reader); reader' = snd (read_until 10 reader)
      in if line_bytes = [] then Ok (seen, s)
         else
           let line = fst (strip_newline line_bytes); has_newline = snd (strip_newline line_bytes)
           in if line = [] then scan_loop C on_entry seen s reader'
              else
                case utf8_decode line of
                  None \<Rightarrow> if has_newline then scan_loop C on_entry seen s reader' else Ok (seen, s)
                | Some text \<Rightarrow>
                    (case from_json C text of
                       Some e \<Rightarrow>
                         if entry_id e \<notin> seen
                         then (case on_entry s e of
                                 Inl err \<Rightarrow> Err err
                               | Inr s' \<Rightarrow> scan_loop C on_entry (insert (entry_id e) seen) s' reader')
                         else scan_loop C on_entry seen s reader'
                     | None \<Rightarrow> if has_newline then scan_loop C on_entry seen s reader' else Ok (seen, s)))"
  by pat_completeness auto
termination
  by (relation "measure (\<lambda>(C, f, seen, s, reader). length reader)") (auto simp: length_read_until)

declare scan_loop.simps [simp del]

definition scan_entries ::
  "codec \<Rightarrow> ('s \<Rightarrow> session_entry \<Rightarrow> store_error + 's) \<Rightarrow> 's \<Rightarrow> bytes option
     \<Rightarrow> store_error + ustring set \<times> 's" where
  "scan_entries C on_entry s f =
     (case f of None \<Rightarrow> Err IoError | Some content \<Rightarrow> scan_loop C on_entry {} s content)"

fun validate_parent_links :: "session_entry list \<Rightarrow> ustring set \<Rightarrow> store_error + unit" where
  "validate_parent_links [] seen = Ok ()"
| "validate_parent_links (e # es) seen =
     (case parent_id e of
        None \<Rightarrow> validate_parent_links es seen
      | Some p \<Rightarrow> if p \<notin> seen then Err (StoreDanglingParent p) else validate_parent_links es seen)"

definition load_file :: "codec \<Rightarrow> bytes option \<Rightarrow> store_error + session_entry list" where
  "load_file C f =
     and_then (scan_entries C (\<lambda>loaded e. Ok (loaded @ [e])) [] f) (\<lambda>(seen, loaded).
       and_then (validate_parent_links loaded seen) (\<lambda>_. Ok loaded))"

definition scan_file ::
  "codec \<Rightarrow> ('s \<Rightarrow> session_entry \<Rightarrow> store_error + 's) \<Rightarrow> 's \<Rightarrow> bytes option \<Rightarrow> store_error + 's" where
  "scan_file C visit s f = and_then (scan_entries C visit s f) (\<lambda>(seen, s'). Ok s')"

section \<open>Lines\<close>

definition body :: "codec \<Rightarrow> session_entry \<Rightarrow> bytes" where
  "body C e = (case to_json C e of None \<Rightarrow> [] | Some text \<Rightarrow> utf8_encode text)"

definition log_lines :: "codec \<Rightarrow> session_entry list \<Rightarrow> bytes" where
  "log_lines C es = concat (map (\<lambda>e. body C e @ [10]) es)"

lemma log_lines_simps [simp]:
  "log_lines C [] = []" "log_lines C (e # es) = body C e @ 10 # log_lines C es"
  "log_lines C (es @ es') = log_lines C es @ log_lines C es'"
  by (simp_all add: log_lines_def)

lemma write_entries_eq:
  "\<forall>e\<in>set es. to_json C e \<noteq> None \<Longrightarrow> write_entries C es buffered = (buffered @ log_lines C es, Ok ())"
  by (induction es arbitrary: buffered) (auto simp: body_def)

definition writable :: "codec \<Rightarrow> session_entry list \<Rightarrow> session_entry list" where
  "writable C es = takeWhile (\<lambda>e. to_json C e \<noteq> None) es"

lemma write_entries_writable:
  "\<exists>r. write_entries C es buffered = (buffered @ log_lines C (writable C es), r)
     \<and> (r = Ok () \<longleftrightarrow> writable C es = es)"
proof -
  have "fst (write_entries C es buffered) = buffered @ log_lines C (writable C es)
      \<and> (snd (write_entries C es buffered) = Ok () \<longleftrightarrow> writable C es = es)"
    by (induction es arbitrary: buffered) (simp_all add: body_def writable_def split: option.splits)
  then show ?thesis by (metis prod.collapse)
qed

lemma writable_take: "\<exists>j. take k (writable C es) = take j es \<and> (\<forall>e\<in>set (take j es). to_json C e \<noteq> None)"
proof -
  let ?n = "length (writable C es)"
  have "writable C es = take ?n es" unfolding writable_def by (rule takeWhile_eq_take)
  then have "take k (writable C es) = take k (take ?n es)" by (rule arg_cong)
  also have "\<dots> = take (min k ?n) es" by simp
  finally have "take k (writable C es) = take (min k ?n) es" .
  moreover have "\<forall>e\<in>set (take k (writable C es)). to_json C e \<noteq> None"
    by (auto simp: writable_def dest!: in_set_takeD set_takeWhileD)
  ultimately show ?thesis by (intro exI[of _ "min k ?n"]) simp
qed

lemma encodes_body:
  assumes "encodes C e"
  shows "body C e \<noteq> []" "10 \<notin> set (body C e)" "13 \<notin> set (body C e)"
    "\<exists>text. utf8_decode (body C e) = Some text \<and> from_json C text = Some e"
    "n < length (body C e) \<Longrightarrow> utf8_decode (take n (body C e)) = Some p \<Longrightarrow> from_json C p = None"
proof -
  from assms obtain t where t: "to_json C e = Some t" "t \<noteq> []" "\<forall>c\<in>set t. is_scalar c \<and> 32 \<le> c"
    "from_json C t = Some e" "\<forall>p. strict_prefix p t \<longrightarrow> from_json C p = None"
    by (auto simp: encodes_def)
  then have body: "body C e = utf8_encode t" by (simp add: body_def)
  from t(2) show "body C e \<noteq> []" by (simp add: body)
  show "10 \<notin> set (body C e)" "13 \<notin> set (body C e)"
    using t(3) utf8_encode_bytes[of _ t] unfolding body by fastforce+
  from t(3,4) show "\<exists>text. utf8_decode (body C e) = Some text \<and> from_json C text = Some e"
    by (auto simp: body utf8_roundtrip)
  assume "n < length (body C e)" "utf8_decode (take n (body C e)) = Some p"
  with utf8_decode_cut[of t n p] t(3) have "strict_prefix p t" by (simp add: body strict_prefix_def)
  with t(5) show "from_json C p = None" by blast
qed

lemma encodes_to_json: "encodes C e \<Longrightarrow> to_json C e \<noteq> None"
  by (auto simp: encodes_def)

lemma read_until_line: "d \<notin> set xs \<Longrightarrow> read_until d (xs @ d # rest) = (xs @ [d], rest)"
  by (induction xs) (auto simp: read_until_def split: list.splits)

lemma read_until_tail:
  assumes "d \<notin> set xs"
  shows "read_until d xs = (xs, [])"
proof -
  have none: "dropWhile (\<lambda>b. b \<noteq> d) xs = []" using assms by (auto simp: dropWhile_eq_Nil_conv)
  show ?thesis unfolding read_until_def none by simp
qed

lemma last_opt_in: "last_opt xs = Some b \<Longrightarrow> b \<in> set xs"
  by (auto simp: last_opt_eq split: if_splits)

lemma strip_newline_line: "13 \<notin> set xs \<Longrightarrow> strip_newline (xs @ [10]) = (xs, True)"
  by (simp add: strip_newline_def Let_def) (auto dest: last_opt_in)

lemma strip_newline_tail: "10 \<notin> set xs \<Longrightarrow> strip_newline xs = (xs, False)"
  by (auto simp: strip_newline_def dest: last_opt_in)

section \<open>Reading back what was written\<close>

fun first_by_id :: "ustring set \<Rightarrow> session_entry list \<Rightarrow> session_entry list" where
  "first_by_id seen [] = []"
| "first_by_id seen (e # es) =
     (if entry_id e \<in> seen then first_by_id seen es else e # first_by_id (insert (entry_id e) seen) es)"

lemma first_by_id_append:
  "first_by_id seen (xs @ ys) = first_by_id seen xs @ first_by_id (seen \<union> entry_id ` set xs) ys"
  by (induction xs arbitrary: seen) (auto simp: insert_absorb)

lemma first_by_id_fresh:
  "distinct (map entry_id es) \<Longrightarrow> seen \<inter> entry_id ` set es = {} \<Longrightarrow> first_by_id seen es = es"
  by (induction es arbitrary: seen) auto

lemma first_by_id_seen: "entry_id ` set es \<subseteq> seen \<Longrightarrow> first_by_id seen es = []"
  by (induction es) auto

lemma first_by_id_ids: "entry_id ` set (first_by_id seen es) = entry_id ` set es - seen"
  by (induction es arbitrary: seen) auto

lemma scan_line:
  assumes "encodes C e"
  shows "scan_loop C f seen s (body C e @ 10 # rest) =
     (if entry_id e \<in> seen then scan_loop C f seen s rest
      else and_then (f s e) (\<lambda>s'. scan_loop C f (insert (entry_id e) seen) s' rest))"
  using encodes_body(1-4)[OF assms]
  by (subst scan_loop.simps)
     (auto simp: Let_def read_until_line strip_newline_line and_then_def split: sum.splits)

text \<open>A line the loader skips.\<close>

definition unreadable :: "codec \<Rightarrow> bytes \<Rightarrow> bool" where
  "unreadable C junk \<longleftrightarrow> 10 \<notin> set junk \<and> 13 \<notin> set junk
     \<and> (junk = [] \<or> (\<forall>text. utf8_decode junk = Some text \<longrightarrow> from_json C text = None))"

lemma scan_junk:
  assumes "unreadable C junk"
  shows "scan_loop C f seen s (junk @ 10 # rest) = scan_loop C f seen s rest"
  using assms
  by (subst scan_loop.simps)
     (auto simp: unreadable_def Let_def read_until_line strip_newline_line split: option.splits)

lemma scan_end [simp]: "scan_loop C f seen s [] = Ok (seen, s)"
  by (subst scan_loop.simps) (simp add: read_until_def)

lemma scan_torn:
  assumes "encodes C e" "n < length (body C e)"
  shows "scan_loop C f seen s (take n (body C e)) = Ok (seen, s)"
proof -
  have "10 \<notin> set (take n (body C e))" using encodes_body(2)[OF assms(1)] by (meson in_set_takeD)
  with encodes_body(5)[OF assms] show ?thesis
    by (subst scan_loop.simps)
       (auto simp: Let_def read_until_tail strip_newline_tail split: option.splits)
qed

lemma scan_unterminated:
  assumes "encodes C e" "entry_id e \<notin> seen"
  shows "scan_loop C f seen s (body C e) = and_then (f s e) (\<lambda>s'. Ok (insert (entry_id e) seen, s'))"
  using encodes_body(1-4)[OF assms(1)] assms(2)
  by (subst scan_loop.simps)
     (auto simp: Let_def read_until_tail strip_newline_tail and_then_def split: sum.splits)

lemma scan_lines:
  assumes "\<forall>e\<in>set es. encodes C e"
  shows "scan_loop C f seen s (log_lines C es @ rest) =
     and_then (try_fold f s (first_by_id seen es)) (\<lambda>s'. scan_loop C f (seen \<union> entry_id ` set es) s' rest)"
  using assms
proof (induction es arbitrary: seen s)
  case (Cons e es)
  then show ?case by (cases "f s e") (auto simp: scan_line insert_absorb)
qed simp

lemma push_fold: "try_fold (\<lambda>loaded e. Ok (loaded @ [e])) acc es = Ok (acc @ es)"
  by (induction es arbitrary: acc) auto

lemma validate_parent_links_Ok_iff:
  "validate_parent_links es seen = Ok () \<longleftrightarrow> (\<forall>e\<in>set es. \<forall>p. parent_id e = Some p \<longrightarrow> p \<in> seen)"
  by (induction es) (auto split: option.splits)

lemma load_lines:
  assumes "\<forall>e\<in>set es. encodes C e"
  shows "load_file C (Some (log_lines C es)) =
     and_then (validate_parent_links (first_by_id {} es) (entry_id ` set es)) (\<lambda>_. Ok (first_by_id {} es))"
  using scan_lines[OF assms, of "\<lambda>loaded e. Ok (loaded @ [e])" "{}" "[]" "[]"]
  by (simp add: load_file_def scan_entries_def push_fold)

lemma log_wf_load:
  assumes "log_wf {} es" "\<forall>e\<in>set es. encodes C e"
  shows "load_file C (Some (log_lines C es)) = Ok es"
  using load_lines[OF assms(2)] log_wf_distinct[OF assms(1)] log_wf_parent[OF assms(1)]
  by (auto simp: first_by_id_fresh and_then_eq_Ok validate_parent_links_Ok_iff)

section \<open>Files cut at an arbitrary byte\<close>

lemma take_log_lines:
  "\<exists>k\<le>length es. (take n (log_lines C es) = log_lines C (take k es)
       \<or> k < length es \<and> (\<exists>m. take n (log_lines C es) = log_lines C (take k es) @ take m (body C (es ! k))
           \<and> m \<le> length (body C (es ! k))))
     \<and> (\<forall>j\<le>length es. length (log_lines C (take j es)) \<le> n \<longrightarrow> j \<le> k)"
proof (induction es arbitrary: n)
  case (Cons e es)
  let ?b = "length (body C e)"
  show ?case
  proof (cases "n \<le> ?b")
    case True
    have "j = 0" if "j \<le> length (e # es)" "length (log_lines C (take j (e # es))) \<le> n" for j
      using that True by (cases j) simp_all
    with True show ?thesis by (intro exI[of _ 0]) auto
  next
    case False
    from Cons.IH[of "n - Suc ?b"] obtain k where k: "k \<le> length es"
      and split: "take (n - Suc ?b) (log_lines C es) = log_lines C (take k es)
         \<or> k < length es \<and> (\<exists>m. take (n - Suc ?b) (log_lines C es) = log_lines C (take k es) @ take m (body C (es ! k))
           \<and> m \<le> length (body C (es ! k)))"
      and max: "\<forall>j\<le>length es. length (log_lines C (take j es)) \<le> n - Suc ?b \<longrightarrow> j \<le> k" by blast
    have cut: "take n (log_lines C (e # es)) = body C e @ 10 # take (n - Suc ?b) (log_lines C es)"
      using False by (simp add: take_Cons')
    have "j \<le> Suc k" if "j \<le> length (e # es)" "length (log_lines C (take j (e # es))) \<le> n" for j
      using that max by (cases j) auto
    moreover have "take n (log_lines C (e # es)) = log_lines C (take (Suc k) (e # es))
         \<or> Suc k < length (e # es) \<and> (\<exists>m. take n (log_lines C (e # es)) =
             log_lines C (take (Suc k) (e # es)) @ take m (body C ((e # es) ! Suc k))
           \<and> m \<le> length (body C ((e # es) ! Suc k)))"
      using split unfolding cut by auto
    ultimately show ?thesis using k by (intro exI[of _ "Suc k"]) auto
  qed
qed simp

lemma log_wf_take: "log_wf seen es \<Longrightarrow> log_wf seen (take k es)"
  using log_wf_append[of seen "take k es" "drop k es"] by simp

lemma load_of_scan:
  assumes "log_wf {} es" "scan_loop C (\<lambda>loaded e. Ok (loaded @ [e])) {} [] bs = Ok (entry_id ` set es, es)"
  shows "load_file C (Some bs) = Ok es"
  using assms(2) log_wf_parent[OF assms(1)]
  by (auto simp: load_file_def scan_entries_def and_then_eq_Ok validate_parent_links_Ok_iff)

lemma load_cut:
  assumes "log_wf {} es" "\<forall>e\<in>set es. encodes C e"
  shows "\<exists>k\<le>length es. load_file C (Some (take n (log_lines C es))) = Ok (take k es)
     \<and> (\<forall>j\<le>length es. length (log_lines C (take j es)) \<le> n \<longrightarrow> j \<le> k)"
proof -
  obtain k where k: "k \<le> length es"
    and split: "take n (log_lines C es) = log_lines C (take k es)
       \<or> k < length es \<and> (\<exists>m. take n (log_lines C es) = log_lines C (take k es) @ take m (body C (es ! k))
           \<and> m \<le> length (body C (es ! k)))"
    and max: "\<forall>j\<le>length es. length (log_lines C (take j es)) \<le> n \<longrightarrow> j \<le> k"
    using take_log_lines by blast
  let ?push = "\<lambda>loaded e. Ok (loaded @ [e])"
  have enc: "\<forall>e\<in>set (take j es). encodes C e" for j using assms(2) by (auto dest: in_set_takeD)
  have wf: "log_wf {} (take j es)" for j by (rule log_wf_take[OF assms(1)])
  have first: "first_by_id {} (take j es) = take j es" for j
    using log_wf_distinct[OF wf] by (simp add: first_by_id_fresh)
  note scan = scan_lines[OF enc, of ?push "{}" "[]" k, unfolded push_fold first append_Nil and_then_simps Un_empty_left]
  from split show ?thesis
  proof (elim disjE conjE exE)
    assume "take n (log_lines C es) = log_lines C (take k es)"
    then have "load_file C (Some (take n (log_lines C es))) = Ok (take k es)"
      using load_of_scan[OF wf] scan[of "[]"] by simp
    with k max show ?thesis by blast
  next
    fix m assume lt: "k < length es" and cut: "take n (log_lines C es) = log_lines C (take k es) @ take m (body C (es ! k))"
      and m: "m \<le> length (body C (es ! k))"
    have e: "encodes C (es ! k)" using assms(2) lt by simp
    show ?thesis
    proof (cases "m = length (body C (es ! k))")
      case False
      have "load_file C (Some (take n (log_lines C es))) = Ok (take k es)"
        unfolding cut
        by (rule load_of_scan[OF wf])
           (use scan[of "take m (body C (es ! k))"] scan_torn[OF e, of m] m False in simp)
      with k max show ?thesis by blast
    next
      case True
      have whole: "take (Suc k) es = take k es @ [es ! k]" using lt by (rule take_Suc_conv_app_nth)
      then have fresh: "entry_id (es ! k) \<notin> entry_id ` set (take k es)"
        using log_wf_distinct[OF wf[of "Suc k"]] by auto
      have "load_file C (Some (take n (log_lines C es))) = Ok (take (Suc k) es)"
        unfolding cut
        by (intro load_of_scan[OF wf])
           (use scan[of "take m (body C (es ! k))"] scan_unterminated[OF e fresh, of ?push "take k es"] in \<open>simp add: True whole\<close>)
      moreover have "j \<le> Suc k" if "j \<le> length es" "length (log_lines C (take j es)) \<le> n" for j
        using max that by (auto intro: le_SucI)
      ultimately show ?thesis using lt by (intro exI[of _ "Suc k"]) auto
    qed
  qed
qed

section \<open>Files with unreadable lines\<close>

text \<open>A file made of lines of entries and lines the loader skips.\<close>

definition chunk_bytes :: "codec \<Rightarrow> bytes + session_entry \<Rightarrow> bytes" where
  "chunk_bytes C chunk = (case chunk of Inl junk \<Rightarrow> junk | Inr e \<Rightarrow> body C e) @ [10]"

definition good_chunk :: "codec \<Rightarrow> bytes + session_entry \<Rightarrow> bool" where
  "good_chunk C chunk = (case chunk of Inl junk \<Rightarrow> unreadable C junk | Inr e \<Rightarrow> encodes C e)"

definition chunk_entries :: "(bytes + session_entry) list \<Rightarrow> session_entry list" where
  "chunk_entries chunks = filter_map (\<lambda>chunk. case chunk of Inl _ \<Rightarrow> None | Inr e \<Rightarrow> Some e) chunks"

lemma scan_chunks:
  assumes "\<forall>chunk\<in>set chunks. good_chunk C chunk"
  shows "scan_loop C f seen s (concat (map (chunk_bytes C) chunks) @ rest) =
     scan_loop C f seen s (log_lines C (chunk_entries chunks) @ rest)"
  using assms
proof (induction chunks arbitrary: seen s)
  case (Cons chunk chunks)
  then show ?case
    by (cases chunk)
       (auto simp: chunk_bytes_def good_chunk_def chunk_entries_def scan_junk scan_line and_then_def
         split: sum.splits)
qed (simp add: chunk_entries_def)

lemma load_chunks:
  assumes "\<forall>chunk\<in>set chunks. good_chunk C chunk"
  shows "load_file C (Some (concat (map (chunk_bytes C) chunks))) =
     load_file C (Some (log_lines C (chunk_entries chunks)))"
  by (simp add: load_file_def scan_entries_def scan_chunks[OF assms, where rest = "[]", simplified])

text \<open>An entry written behind a torn line without line feed shares its line and is skipped.\<close>

lemma scan_glued:
  assumes "\<forall>e\<in>set (xs @ ys). encodes C e" "unreadable C (torn @ body C e)"
  shows "scan_loop C f seen s (log_lines C xs @ torn @ log_lines C (e # ys)) =
     scan_loop C f seen s (log_lines C (xs @ ys))"
proof -
  have "scan_loop C f seen s (log_lines C xs @ (torn @ body C e) @ 10 # log_lines C ys) =
      scan_loop C f seen s (log_lines C xs @ log_lines C ys)" for seen s
  proof -
    have "\<forall>e\<in>set xs. encodes C e" using assms(1) by simp
    note lines = scan_lines[OF this]
    show ?thesis unfolding lines scan_junk[OF assms(2)] ..
  qed
  then show ?thesis by simp
qed

lemma load_glued:
  assumes "\<forall>e\<in>set (xs @ ys). encodes C e" "unreadable C (torn @ body C e)"
  shows "load_file C (Some (log_lines C xs @ torn @ log_lines C (e # ys))) =
     load_file C (Some (log_lines C (xs @ ys)))"
  unfolding load_file_def scan_entries_def option.case scan_glued[OF assms] ..

lemma validate_parent_links_Err:
  assumes "x \<in> set es" "parent_id x = Some p" "p \<notin> seen"
    "\<And>y q. y \<in> set es \<Longrightarrow> parent_id y = Some q \<Longrightarrow> q \<notin> seen \<Longrightarrow> q = p"
  shows "validate_parent_links es seen = Err (StoreDanglingParent p)"
  using assms
proof (induction es)
  case (Cons e es)
  show ?case
  proof (cases "\<exists>q. parent_id e = Some q \<and> q \<notin> seen")
    case True
    with Cons.prems(4)[of e] show ?thesis by auto
  next
    case False
    with Cons.prems(1-3) have "x \<in> set es" by auto
    from Cons.IH[OF this Cons.prems(2,3)] Cons.prems(4) False show ?thesis
      by (auto split: option.splits)
  qed
qed simp

section \<open>A batch that fails half way\<close>

lemma write_batch_cut:
  assumes "\<forall>e\<in>set new. encodes C e" "write_batch C fault new w (Some content) = (r, w', f')"
  shows "\<exists>n. f' = Some (content @ take n (log_lines C new))
     \<and> (r = Ok () \<longrightarrow> take n (log_lines C new) = log_lines C new)"
proof -
  have out: "write_entries C new [] = (log_lines C new, Ok ())"
    using assms(1) write_entries_eq[of new C "[]"] encodes_to_json by auto
  show ?thesis
  proof (cases "new = [] \<or> file_mut fault w (Some content) = Err IoError")
    case True
    with assms(2) show ?thesis by (intro exI[of _ 0]) (auto simp: write_batch_def split: if_splits)
  next
    case False
    with file_mut_cases[of fault w "Some content"] obtain w1 f1
      where "file_mut fault w (Some content) = Ok (w1, f1)" "file_content f1 = content"
      by (auto simp: file_content_def)
    with assms(2) False out
    have "(\<exists>n. fault = WriteFails n \<and> f' = Some (content @ take n (log_lines C new)) \<and> r = Err IoError)
        \<or> f' = Some (content @ log_lines C new)"
      by (cases fault) (auto simp: write_batch_def)
    then show ?thesis by (auto intro: exI[of _ "length (log_lines C new)"])
  qed
qed

lemma load_after_batch:
  assumes "log_wf {} (old @ new)" "\<forall>e\<in>set (old @ new). encodes C e"
    "write_batch C fault new w (Some (log_lines C old)) = (r, w', f')"
  shows "\<exists>k\<ge>length old. load_file C f' = Ok (take k (old @ new)) \<and> (r = Ok () \<longrightarrow> length (old @ new) \<le> k)"
proof -
  from write_batch_cut[OF _ assms(3)] assms(2) obtain n
    where f': "f' = Some (log_lines C old @ take n (log_lines C new))"
      and all: "r = Ok () \<longrightarrow> take n (log_lines C new) = log_lines C new" by auto
  let ?n = "length (log_lines C old) + (if take n (log_lines C new) = log_lines C new
      then length (log_lines C new) else n)"
  have cut: "f' = Some (take ?n (log_lines C (old @ new)))" using f' by simp
  from load_cut[OF assms(1,2), of ?n] obtain k where load: "load_file C f' = Ok (take k (old @ new))"
    and max: "\<forall>j\<le>length (old @ new). length (log_lines C (take j (old @ new))) \<le> ?n \<longrightarrow> j \<le> k"
    unfolding cut by blast
  from max have "length old \<le> k" by (auto dest: spec[of _ "length old"])
  moreover have "r = Ok () \<longrightarrow> length (old @ new) \<le> k" using max all by (auto dest: spec[of _ "length (old @ new)"])
  ultimately show ?thesis using load by blast
qed

text \<open>The loader ignores a torn tail, but the next batch does not start a new line behind it.\<close>

lemma load_behind_torn_line:
  assumes "log_wf {} (old @ e # new)" "\<forall>x\<in>set (old @ e # new). encodes C x"
    "unreadable C (torn @ body C e)" "write_batch C NoFault (e # new) w (Some (log_lines C old @ torn)) = (r, w', f')"
  shows "r = Ok () \<and> load_file C f' =
     (if \<exists>x\<in>set new. parent_id x = Some (entry_id e) then Err (StoreDanglingParent (entry_id e))
      else Ok (old @ new))"
proof -
  have "write_entries C (e # new) [] = (log_lines C (e # new), Ok ())"
    using assms(2) write_entries_eq[of "e # new" C "[]"] encodes_to_json by auto
  with assms(4) have r: "r = Ok ()" and f': "f' = Some (log_lines C old @ torn @ log_lines C (e # new))"
    by (auto simp: write_batch_def file_mut_def file_content_def split: if_splits)
  have wf: "log_wf {} old" "log_wf (insert (entry_id e) (entry_id ` set old)) new"
    and e: "entry_id e \<notin> entry_id ` set (old @ new)"
    using assms(1) log_wf_distinct[OF assms(1)] by (auto simp: log_wf_append)
  have "distinct (map entry_id (old @ new))" using log_wf_distinct[OF assms(1)] by auto
  then have first: "first_by_id {} (old @ new) = old @ new" by (simp add: first_by_id_fresh)
  have parent: "p = entry_id e \<and> x \<in> set new" if "x \<in> set (old @ new)" "parent_id x = Some p" "p \<notin> entry_id ` set (old @ new)" for x p
    using that log_wf_parent[OF wf(1), of x p] log_wf_parent[OF wf(2), of x p] by auto
  have "load_file C f' = and_then (validate_parent_links (old @ new) (entry_id ` set (old @ new))) (\<lambda>_. Ok (old @ new))"
    using load_glued[of old new C torn e] load_lines[of "old @ new" C] assms(2,3) unfolding f' first by auto
  moreover have "validate_parent_links (old @ new) (entry_id ` set (old @ new)) =
      (if \<exists>x\<in>set new. parent_id x = Some (entry_id e) then Err (StoreDanglingParent (entry_id e)) else Ok ())"
  proof (cases "\<exists>x\<in>set new. parent_id x = Some (entry_id e)")
    case True
    then obtain x where "x \<in> set (old @ new)" "parent_id x = Some (entry_id e)" by auto
    from validate_parent_links_Err[OF this e] parent True show ?thesis by auto
  next
    case False
    with parent have "validate_parent_links (old @ new) (entry_id ` set (old @ new)) = Ok ()"
      unfolding validate_parent_links_Ok_iff by blast
    with False show ?thesis by simp
  qed
  ultimately show ?thesis using r by auto
qed

end
