(* ===== verification/Recorder.thy ===== *)
theory Recorder
  imports Jsonl
begin

text \<open>
  The recorder of a session, \<^verbatim>\<open>session-store/src/recorder.rs\<close>: clients send commands through
  a bounded channel to a worker thread, which keeps the entries it has not written yet and
  appends them to the log file when asked to.  A failed write keeps the entries and opens the
  file anew.  Clients, worker and outside world interleave as the steps of \<open>recorder_step\<close>.
  The lemmas show that the channel is bounded and first-in first-out, and that an entry whose
  write was acknowledged is read back whatever failures come before and after, provided no
  failure leaves a torn line behind.
\<close>

section \<open>The worker\<close>

definition record_command_capacity :: nat where "record_command_capacity = 256"

datatype record_command =
    Buffer "session_entry list"
  | Persist
  | Flush
  | Shutdown

record recorder_worker =
  writer :: jsonl_writer
  pending_entries :: "session_entry list"

definition new_worker :: recorder_worker where
  "new_worker = \<lparr>writer = new_writer, pending_entries = []\<rparr>"

definition persist_pending ::
  "codec \<Rightarrow> io_fault \<Rightarrow> recorder_worker \<Rightarrow> bytes option
     \<Rightarrow> (store_error + unit) \<times> recorder_worker \<times> bytes option" where
  "persist_pending C fault w f =
     (if pending_entries w = [] then (Ok (), w, f)
      else case write_batch C fault (pending_entries w) (writer w) f of
             (Inr _, wr, f') \<Rightarrow> (Ok (), w\<lparr>writer := wr, pending_entries := []\<rparr>, f')
           | (Inl err, wr, f') \<Rightarrow> (Err err, w\<lparr>writer := new_writer\<rparr>, f'))"

text \<open>A command is answered or not, and ends the loop of the worker or not.\<close>

definition handle_command ::
  "codec \<Rightarrow> io_fault \<Rightarrow> record_command \<Rightarrow> recorder_worker \<Rightarrow> bytes option
     \<Rightarrow> (store_error + unit) option \<times> bool \<times> recorder_worker \<times> bytes option" where
  "handle_command C fault c w f =
     (case c of
        Buffer entries \<Rightarrow> (None, False, w\<lparr>pending_entries := pending_entries w @ entries\<rparr>, f)
      | Shutdown \<Rightarrow> (case persist_pending C fault w f of (result, w', f') \<Rightarrow> (Some result, True, w', f'))
      | _ \<Rightarrow> (case persist_pending C fault w f of (result, w', f') \<Rightarrow> (Some result, False, w', f')))"

section \<open>The recorder\<close>

text \<open>
  \<open>running\<close> is the state behind the mutex; \<open>closing\<close> holds while the taken sender waits for
  room to send the shutdown command; \<open>alive\<close> holds until the worker thread returns.
\<close>

record recorder =
  running :: bool
  closing :: bool
  channel :: "record_command list"
  worker :: recorder_worker
  alive :: bool
  log_file :: "bytes option"

definition new_recorder :: "bytes option \<Rightarrow> recorder" where
  "new_recorder f = \<lparr>running = True, closing = False, channel = [], worker = new_worker,
     alive = True, log_file = f\<rparr>"

definition buffer_many :: "session_entry list \<Rightarrow> recorder \<Rightarrow> (store_error + unit) \<times> recorder" where
  "buffer_many entries r =
     (if entries = [] then (Ok (), r)
      else if \<not> running r then (Err ChannelClosed, r)
      else if \<not> alive r then (Err ChannelClosed, r)
      else if record_command_capacity \<le> length (channel r) then (Err QueueFull, r)
      else (Ok (), r\<lparr>channel := channel r @ [Buffer entries]\<rparr>))"

text \<open>An awaited send: \<^const>\<open>None\<close> while the channel is full.\<close>

definition send_ack_command ::
  "record_command \<Rightarrow> recorder \<Rightarrow> ((store_error + unit) \<times> recorder) option" where
  "send_ack_command c r =
     (if \<not> running r then Some (Err ChannelClosed, r)
      else if \<not> alive r then Some (Err ChannelClosed, r)
      else if record_command_capacity \<le> length (channel r) then None
      else Some (Ok (), r\<lparr>channel := channel r @ [c]\<rparr>))"

definition take_running_state :: "recorder \<Rightarrow> recorder option" where
  "take_running_state r =
     (if running r then Some (r\<lparr>running := False, closing := True\<rparr>) else None)"

definition send_shutdown :: "recorder \<Rightarrow> ((store_error + unit) \<times> recorder) option" where
  "send_shutdown r =
     (if \<not> alive r then Some (Err ChannelClosed, r\<lparr>closing := False\<rparr>)
      else if record_command_capacity \<le> length (channel r) then None
      else Some (Ok (), r\<lparr>closing := False, channel := channel r @ [Shutdown]\<rparr>))"

text \<open>
  One turn of \<^verbatim>\<open>run_worker\<close>: the next command is handled; once every sender is gone and the
  channel is empty, the rest is written and the thread returns.
\<close>

definition worker_receive ::
  "codec \<Rightarrow> io_fault \<Rightarrow> recorder \<Rightarrow> (record_command option \<times> (store_error + unit) option \<times> recorder) option" where
  "worker_receive C fault r =
     (if \<not> alive r then None
      else case channel r of
        c # rest \<Rightarrow>
          (case handle_command C fault c (worker r) (log_file r) of
             (answer, ends, w, f) \<Rightarrow>
               Some (Some c, answer, r\<lparr>channel := rest, worker := w, alive := \<not> ends, log_file := f\<rparr>))
      | [] \<Rightarrow>
          if running r \<or> closing r then None
          else case persist_pending C fault (worker r) (log_file r) of
             (result, w, f) \<Rightarrow> Some (None, None, r\<lparr>worker := w, alive := False, log_file := f\<rparr>))"

datatype action =
    Sent record_command
  | StateTaken
  | ShutdownRefused
  | Handled record_command "(store_error + unit) option"
  | Drained

inductive recorder_step ::
  "codec \<Rightarrow> (session_entry list \<Rightarrow> io_fault \<Rightarrow> bool) \<Rightarrow> recorder \<Rightarrow> action \<Rightarrow> recorder \<Rightarrow> bool"
  for C faults where
  buffers: "buffer_many entries r = (Ok (), r') \<Longrightarrow> entries \<noteq> [] \<Longrightarrow>
     recorder_step C faults r (Sent (Buffer entries)) r'"
| requests: "send_ack_command c r = Some (Ok (), r') \<Longrightarrow> c = Persist \<or> c = Flush \<Longrightarrow>
     recorder_step C faults r (Sent c) r'"
| closes: "take_running_state r = Some r' \<Longrightarrow> recorder_step C faults r StateTaken r'"
| shuts_down: "closing r \<Longrightarrow> send_shutdown r = Some (Ok (), r') \<Longrightarrow>
     recorder_step C faults r (Sent Shutdown) r'"
| shut_down_late: "closing r \<Longrightarrow> send_shutdown r = Some (Err err, r') \<Longrightarrow>
     recorder_step C faults r ShutdownRefused r'"
| receives: "worker_receive C fault r = Some (Some c, answer, r') \<Longrightarrow>
     faults (pending_entries (worker r)) fault \<Longrightarrow> recorder_step C faults r (Handled c answer) r'"
| drains: "worker_receive C fault r = Some (None, answer, r') \<Longrightarrow>
     faults (pending_entries (worker r)) fault \<Longrightarrow> recorder_step C faults r Drained r'"

inductive recorder_run ::
  "codec \<Rightarrow> (session_entry list \<Rightarrow> io_fault \<Rightarrow> bool) \<Rightarrow> recorder \<Rightarrow> action list \<Rightarrow> recorder \<Rightarrow> bool"
  for C faults r0 where
  start: "recorder_run C faults r0 [] r0"
| step: "recorder_run C faults r0 trace r \<Longrightarrow> recorder_step C faults r a r' \<Longrightarrow>
     recorder_run C faults r0 (trace @ [a]) r'"

section \<open>The channel\<close>

definition sent_commands :: "action list \<Rightarrow> record_command list" where
  "sent_commands trace = filter_map (\<lambda>a. case a of Sent c \<Rightarrow> Some c | _ \<Rightarrow> None) trace"

definition handled_commands :: "action list \<Rightarrow> record_command list" where
  "handled_commands trace = filter_map (\<lambda>a. case a of Handled c _ \<Rightarrow> Some c | _ \<Rightarrow> None) trace"

definition buffered :: "record_command list \<Rightarrow> session_entry list" where
  "buffered cs = concat (map (\<lambda>c. case c of Buffer es \<Rightarrow> es | _ \<Rightarrow> []) cs)"

lemma trace_simps [simp]:
  "sent_commands [] = []" "handled_commands [] = []"
  "sent_commands (t @ [Sent c]) = sent_commands t @ [c]" "handled_commands (t @ [Sent c]) = handled_commands t"
  "sent_commands (t @ [StateTaken]) = sent_commands t" "handled_commands (t @ [StateTaken]) = handled_commands t"
  "sent_commands (t @ [ShutdownRefused]) = sent_commands t"
  "handled_commands (t @ [ShutdownRefused]) = handled_commands t"
  "sent_commands (t @ [Handled c x]) = sent_commands t"
  "handled_commands (t @ [Handled c x]) = handled_commands t @ [c]"
  "sent_commands (t @ [Drained]) = sent_commands t" "handled_commands (t @ [Drained]) = handled_commands t"
  by (simp_all add: sent_commands_def handled_commands_def)

lemma buffered_simps [simp]:
  "buffered [] = []" "buffered (cs @ cs') = buffered cs @ buffered cs'" "buffered [Buffer es] = es"
  "buffered [Persist] = []" "buffered [Flush] = []" "buffered [Shutdown] = []"
  by (simp_all add: buffered_def)

lemma worker_receive_Some:
  assumes "worker_receive C fault r = Some (Some c, answer, r')"
  shows "alive r" "\<exists>ends. channel r = c # channel r'
     \<and> handle_command C fault c (worker r) (log_file r) = (answer, ends, worker r', log_file r')"
  using assms by (auto simp: worker_receive_def split: if_splits list.splits prod.splits)

lemma worker_receive_None:
  assumes "worker_receive C fault r = Some (None, answer, r')"
  shows "alive r" "channel r = []" "channel r' = []"
    "\<exists>result. persist_pending C fault (worker r) (log_file r) = (result, worker r', log_file r')"
  using assms by (auto simp: worker_receive_def split: if_splits list.splits prod.splits)

lemma channel_fifo:
  "recorder_run C faults (new_recorder f) trace r \<Longrightarrow>
     sent_commands trace = handled_commands trace @ channel r \<and> length (channel r) \<le> record_command_capacity"
proof (induction rule: recorder_run.induct)
  case (step trace r a r')
  from step.hyps(2) show ?case
  proof (cases rule: recorder_step.cases)
    case (receives fault c answer)
    from worker_receive_Some(2)[OF receives(2)] step.IH receives(1) show ?thesis by auto
  next
    case (drains fault answer)
    from worker_receive_None(2,3)[OF drains(2)] step.IH drains(1) show ?thesis by simp
  qed (use step.IH in \<open>auto simp: buffer_many_def send_ack_command_def take_running_state_def
        send_shutdown_def split: if_splits\<close>)
qed (simp add: new_recorder_def)

section \<open>What survives\<close>

text \<open>A failure is clean when the bytes that reached the file end at the end of a line.\<close>

definition clean_fault :: "codec \<Rightarrow> session_entry list \<Rightarrow> io_fault \<Rightarrow> bool" where
  "clean_fault C entries fault \<longleftrightarrow>
     (case fault of
        WriteFails n \<Rightarrow> (\<exists>k. take n (log_lines C (writable C entries)) = log_lines C (take k (writable C entries)))
      | _ \<Rightarrow> True)"

text \<open>Entries that could be serialised, one by one from the front, reach the file.\<close>

definition wrote :: "codec \<Rightarrow> session_entry list \<Rightarrow> nat \<Rightarrow> bytes option \<Rightarrow> bytes option \<Rightarrow> bool" where
  "wrote C es j f f' \<longleftrightarrow> file_content f' = file_content f @ log_lines C (take j es)
     \<and> (\<forall>e\<in>set (take j es). to_json C e \<noteq> None)"

lemma wrote_nothing: "file_content f' = file_content f \<Longrightarrow> wrote C es 0 f f'"
  by (simp add: wrote_def)

lemma write_batch_clean:
  assumes "clean_fault C es fault" "write_batch C fault es w f = (result, w', f')"
  shows "\<exists>j. wrote C es j f f' \<and> (result = Ok () \<longrightarrow> take j es = es)"
proof -
  obtain r where out: "write_entries C es [] = (log_lines C (writable C es), r)"
    and all: "r = Ok () \<longleftrightarrow> writable C es = es"
    using write_entries_writable[of C es "[]"] by auto
  have some: "\<exists>j. wrote C es j f f' \<and> take j es = take k (writable C es)"
    if "file_content f' = file_content f @ log_lines C (take k (writable C es))" for k
    using that writable_take[of k C es] unfolding wrote_def by metis
  show ?thesis
  proof (cases "es = [] \<or> file_mut fault w f = Err IoError")
    case True
    with assms(2) have "file_content f' = file_content f \<and> (result = Ok () \<longrightarrow> es = [])"
      by (auto simp: write_batch_def split: if_splits)
    then show ?thesis using wrote_nothing[of f' f C es] by (intro exI[of _ 0]) auto
  next
    case False
    with file_mut_cases[of fault w f] obtain w1 f1
      where opened: "file_mut fault w f = Ok (w1, f1)" "file_content f1 = file_content f" by auto
    show ?thesis
    proof (cases "\<exists>n. fault = WriteFails n")
      case True
      then obtain n where n: "fault = WriteFails n" by blast
      with assms(1) obtain k where "take n (log_lines C (writable C es)) = log_lines C (take k (writable C es))"
        by (auto simp: clean_fault_def)
      with assms(2) False out n opened
      have "file_content f' = file_content f @ log_lines C (take k (writable C es))" "result \<noteq> Ok ()"
        by (auto simp: write_batch_def file_content_def)
      from some[OF this(1)] this(2) show ?thesis by blast
    next
      case no_cut: False
      with assms(2) False out opened
      have "file_content f' = file_content f @ log_lines C (take (length (writable C es)) (writable C es))"
        and r: "result = r"
        by (cases fault, auto simp: write_batch_def file_content_def)+
      from some[OF this(1)] obtain j where "wrote C es j f f'" "take j es = writable C es" by auto
      with r all show ?thesis by auto
    qed
  qed
qed

lemma persist_clean:
  assumes "clean_fault C (pending_entries w) fault" "persist_pending C fault w f = (result, w', f')"
  shows "\<exists>j. wrote C (pending_entries w) j f f'
     \<and> (result = Ok () \<and> pending_entries w' = [] \<and> take j (pending_entries w) = pending_entries w
        \<or> (\<exists>err. result = Err err) \<and> pending_entries w' = pending_entries w)"
proof (cases "pending_entries w = []")
  case False
  obtain r wr f1 where wb: "write_batch C fault (pending_entries w) (writer w) f = (r, wr, f1)"
    by (rule prod_cases3)
  from write_batch_clean[OF assms(1) this] obtain j
    where "wrote C (pending_entries w) j f f1" "r = Ok () \<longrightarrow> take j (pending_entries w) = pending_entries w" by blast
  with assms(2) False wb show ?thesis
    by (intro exI[of _ j]) (auto simp: persist_pending_def split: sum.splits)
next
  case True
  with assms(2) show ?thesis
    by (intro exI[of _ 0]) (auto simp: persist_pending_def wrote_def)
qed

lemma first_by_id_extend:
  assumes "distinct (map entry_id (durable @ pending))" "first_by_id {} logged = durable @ take k pending"
  shows "first_by_id {} (logged @ take j pending) = durable @ take (max k j) pending"
proof -
  have seen: "entry_id ` set logged = entry_id ` set (durable @ take k pending)"
    using first_by_id_ids[of "{}" logged] assms(2) by simp
  show ?thesis
  proof (cases "j \<le> k")
    case True
    then have "take j pending = take j (take k pending)" by (simp add: min_def)
    then have "set (take j pending) \<subseteq> set (take k pending)" by (metis set_take_subset)
    then have "first_by_id (entry_id ` set logged) (take j pending) = []"
      unfolding seen by (intro first_by_id_seen) auto
    with True assms(2) show ?thesis by (simp add: first_by_id_append max_def)
  next
    case False
    then have split: "take j pending = take k pending @ take (j - k) (drop k pending)"
      by (metis le_add_diff_inverse nat_le_linear take_add)
    have "pending = take k pending @ take (j - k) (drop k pending) @ drop (j - k) (drop k pending)"
      by (metis append_take_drop_id)
    with assms(1) have "distinct (map entry_id (durable @ take k pending @ take (j - k) (drop k pending)
        @ drop (j - k) (drop k pending)))" by metis
    then have "distinct (map entry_id (take (j - k) (drop k pending)))"
      "entry_id ` set (durable @ take k pending) \<inter> entry_id ` set (take (j - k) (drop k pending)) = {}"
      unfolding map_append distinct_append set_append set_map by blast+
    with first_by_id_fresh have "first_by_id (entry_id ` set logged) (take (j - k) (drop k pending))
        = take (j - k) (drop k pending)" unfolding seen by blast
    moreover have "first_by_id (entry_id ` set logged) (take k pending) = []"
      unfolding seen by (intro first_by_id_seen) auto
    moreover have "entry_id ` set logged \<union> entry_id ` set (take k pending) = entry_id ` set logged"
      unfolding seen by auto
    ultimately have "first_by_id (entry_id ` set logged) (take j pending) = take (j - k) (drop k pending)"
      unfolding split by (simp add: first_by_id_append)
    then have "first_by_id {} (logged @ take j pending) = durable @ take j pending"
      unfolding split by (simp add: first_by_id_append assms(2))
    with False show ?thesis by (simp add: max_def)
  qed
qed

text \<open>
  The entries the worker was handed are those on disk and those pending; the file holds the
  former and perhaps the first of the latter, possibly several times.
\<close>

definition recorder_inv ::
  "codec \<Rightarrow> session_entry list \<Rightarrow> recorder_worker \<Rightarrow> bytes option \<Rightarrow> session_entry list \<Rightarrow> bool" where
  "recorder_inv C handed w f durable \<longleftrightarrow>
     handed = durable @ pending_entries w
     \<and> (\<exists>logged k. file_content f = log_lines C logged \<and> (\<forall>e\<in>set logged. to_json C e \<noteq> None)
          \<and> first_by_id {} logged = durable @ take k (pending_entries w))"

lemma recorder_invI:
  assumes "handed = durable @ pending_entries w" "file_content f = log_lines C logged"
    "\<forall>e\<in>set logged. to_json C e \<noteq> None" "first_by_id {} logged = durable @ take k (pending_entries w)"
  shows "recorder_inv C handed w f durable"
  unfolding recorder_inv_def using assms by blast

lemma persist_inv:
  assumes "recorder_inv C handed w f durable" "distinct (map entry_id handed)"
    "clean_fault C (pending_entries w) fault" "persist_pending C fault w f = (result, w', f')"
  shows "result = Ok () \<and> pending_entries w' = [] \<and> recorder_inv C handed w' f' handed
     \<or> (\<exists>err. result = Err err) \<and> pending_entries w' = pending_entries w \<and> recorder_inv C handed w' f' durable"
proof -
  from assms(1) obtain logged k where handed: "handed = durable @ pending_entries w"
    and logged: "file_content f = log_lines C logged" "\<forall>e\<in>set logged. to_json C e \<noteq> None"
      "first_by_id {} logged = durable @ take k (pending_entries w)"
    by (auto simp: recorder_inv_def)
  from persist_clean[OF assms(3,4)] obtain j
    where f': "wrote C (pending_entries w) j f f'"
      and result: "result = Ok () \<and> pending_entries w' = [] \<and> take j (pending_entries w) = pending_entries w
        \<or> (\<exists>err. result = Err err) \<and> pending_entries w' = pending_entries w" by blast
  define logged' where "logged' = logged @ take j (pending_entries w)"
  have first: "first_by_id {} logged' = durable @ take (max k j) (pending_entries w)"
    unfolding logged'_def using first_by_id_extend[OF _ logged(3)] assms(2) handed by simp
  have content: "file_content f' = log_lines C logged'" "\<forall>e\<in>set logged'. to_json C e \<noteq> None"
    using f' logged(1,2) by (auto simp: logged'_def wrote_def)
  from result show ?thesis
  proof (elim disjE conjE)
    assume ok: "result = Ok ()" "pending_entries w' = []" "take j (pending_entries w) = pending_entries w"
    from ok(3) have "take (max k j) (pending_entries w) = pending_entries w"
      by (metis max.cobounded2 min.absorb2 take_all_iff take_take)
    with ok first handed have "recorder_inv C handed w' f' handed"
      by (intro recorder_invI[OF _ content, where k = 0]) simp_all
    with ok show ?thesis by blast
  next
    assume err: "\<exists>err. result = Err err" and same: "pending_entries w' = pending_entries w"
    with first handed have "recorder_inv C handed w' f' durable"
      by (intro recorder_invI[OF _ content, where k = "max k j"]) simp_all
    with err same show ?thesis by blast
  qed
qed

lemma buffer_inv:
  assumes "recorder_inv C handed w f durable"
  shows "recorder_inv C (handed @ es) (w\<lparr>pending_entries := pending_entries w @ es\<rparr>) f durable"
proof -
  from assms obtain logged k where handed: "handed = durable @ pending_entries w"
    and logged: "file_content f = log_lines C logged" "\<forall>e\<in>set logged. to_json C e \<noteq> None"
      "first_by_id {} logged = durable @ take k (pending_entries w)"
    by (auto simp: recorder_inv_def)
  show ?thesis
    by (rule recorder_invI[OF _ logged(1,2), where k = "min k (length (pending_entries w))"])
       (use handed logged(3) in \<open>simp_all add: min_def\<close>)
qed

lemma handle_inv:
  assumes "recorder_inv C handed w f durable" "clean_fault C (pending_entries w) fault"
    "handle_command C fault c w f = (answer, ends, w', f')"
    "distinct (map entry_id (handed @ buffered [c]))"
  shows "\<exists>more. recorder_inv C (handed @ buffered [c]) w' f' (durable @ more)
     \<and> (answer = Some (Ok ()) \<longrightarrow> handed = durable @ more)"
proof (cases "\<exists>es. c = Buffer es")
  case True
  then obtain es where c: "c = Buffer es" by blast
  from assms(3) have "w' = w\<lparr>pending_entries := pending_entries w @ es\<rparr>" "f' = f" "answer = None"
    by (auto simp: handle_command_def c)
  with buffer_inv[OF assms(1), of es] show ?thesis unfolding c by (intro exI[of _ "[]"]) simp
next
  case False
  then have none: "buffered [c] = []" by (cases c) simp_all
  from False assms(3) obtain result where "persist_pending C fault w f = (result, w', f')" and a: "answer = Some result"
    by (cases c) (auto simp: handle_command_def split: prod.splits)
  from persist_inv[OF assms(1) _ assms(2) this(1)] assms(4) none
  have "result = Ok () \<and> recorder_inv C handed w' f' handed
     \<or> (\<exists>err. result = Err err) \<and> recorder_inv C handed w' f' (durable @ [])" by auto
  moreover have "\<exists>more. handed = durable @ more" using assms(1) by (auto simp: recorder_inv_def)
  ultimately show ?thesis using a none by (metis Inl_Inr_False append_Nil2 option.inject)
qed

lemma drain_inv:
  assumes "recorder_inv C handed (worker r) (log_file r) durable"
    "distinct (map entry_id handed)" "clean_fault C (pending_entries (worker r)) fault"
    "worker_receive C fault r = Some (None, answer, r')"
  shows "\<exists>more. recorder_inv C handed (worker r') (log_file r') (durable @ more)"
proof -
  from worker_receive_None(4)[OF assms(4)] obtain result
    where "persist_pending C fault (worker r) (log_file r) = (result, worker r', log_file r')" by blast
  from persist_inv[OF assms(1-3) this]
  have "recorder_inv C handed (worker r') (log_file r') handed
     \<or> recorder_inv C handed (worker r') (log_file r') (durable @ [])" by auto
  moreover have "\<exists>more. handed = durable @ more" using assms(1) by (auto simp: recorder_inv_def)
  ultimately show ?thesis by metis
qed

text \<open>The worker of a running recorder whose client steps do not touch it.\<close>

lemma client_step_keeps:
  assumes "recorder_step C faults r a r'" "\<And>c x. a \<noteq> Handled c x" "a \<noteq> Drained"
  shows "worker r' = worker r \<and> log_file r' = log_file r"
  using assms(1)
proof (cases rule: recorder_step.cases)
  case (receives fault c answer)
  then show ?thesis using assms(2) by simp
next
  case (drains fault answer)
  then show ?thesis using assms(3) by simp
qed (auto simp: buffer_many_def send_ack_command_def take_running_state_def
      send_shutdown_def split: if_splits)

text \<open>\<open>answered\<close>: an acknowledgement in a trace covers the commands handled before it.\<close>

definition acknowledged :: "action list \<Rightarrow> session_entry list \<Rightarrow> bool" where
  "acknowledged trace es \<longleftrightarrow>
     (\<exists>t1 c t2. trace = t1 @ Handled c (Some (Ok ())) # t2 \<and> es = buffered (handled_commands t1))"

lemma acknowledged_snoc:
  "acknowledged (trace @ [a]) es \<longleftrightarrow> acknowledged trace es
     \<or> (\<exists>c. a = Handled c (Some (Ok ())) \<and> es = buffered (handled_commands trace))"
proof
  assume "acknowledged (trace @ [a]) es"
  then obtain t1 c t2 where t: "trace @ [a] = t1 @ Handled c (Some (Ok ())) # t2"
    "es = buffered (handled_commands t1)" by (auto simp: acknowledged_def)
  then show "acknowledged trace es
     \<or> (\<exists>c. a = Handled c (Some (Ok ())) \<and> es = buffered (handled_commands trace))"
    by (cases t2 rule: rev_cases) (auto simp: acknowledged_def)
next
  assume "acknowledged trace es
     \<or> (\<exists>c. a = Handled c (Some (Ok ())) \<and> es = buffered (handled_commands trace))"
  then show "acknowledged (trace @ [a]) es" unfolding acknowledged_def by fastforce
qed

lemma handled_append: "\<exists>more. buffered (handled_commands (t @ t')) = buffered (handled_commands t) @ more"
  by (simp add: handled_commands_def)

lemma run_inv:
  assumes "recorder_run C (clean_fault C) (new_recorder f) trace r" "file_content f = log_lines C old"
    "\<forall>e\<in>set old. to_json C e \<noteq> None" "distinct (map entry_id (old @ buffered (handled_commands trace)))"
  shows "\<exists>durable. recorder_inv C (old @ buffered (handled_commands trace)) (worker r) (log_file r) durable
     \<and> (\<forall>es. acknowledged trace es \<longrightarrow> prefix (old @ es) durable)"
  using assms(1,4)
proof (induction rule: recorder_run.induct)
  case start
  have "first_by_id {} old = old" using start.prems by (simp add: first_by_id_fresh)
  then have "recorder_inv C (old @ buffered (handled_commands [])) (worker (new_recorder f))
      (log_file (new_recorder f)) old"
    using assms(2,3) by (intro recorder_invI[where logged = old and k = 0])
      (simp_all add: new_recorder_def new_worker_def)
  then show ?case by (auto simp: acknowledged_def)
next
  case (step trace r a r')
  obtain more' where more': "buffered (handled_commands (trace @ [a])) = buffered (handled_commands trace) @ more'"
    using handled_append by blast
  with step.prems have dist: "distinct (map entry_id (old @ buffered (handled_commands trace)))" by auto
  from step.IH[OF this] obtain durable
    where inv: "recorder_inv C (old @ buffered (handled_commands trace)) (worker r) (log_file r) durable"
      and acks: "\<forall>es. acknowledged trace es \<longrightarrow> prefix (old @ es) durable" by blast
  consider (handled) fault c answer where "a = Handled c answer"
      "worker_receive C fault r = Some (Some c, answer, r')" "clean_fault C (pending_entries (worker r)) fault"
    | (drained) fault answer where "a = Drained" "worker_receive C fault r = Some (None, answer, r')"
      "clean_fault C (pending_entries (worker r)) fault"
    | (client) "\<And>c x. a \<noteq> Handled c x" "a \<noteq> Drained"
    using step.hyps(2) by (cases rule: recorder_step.cases) auto
  then show ?case
  proof cases
    case handled
    from worker_receive_Some(2)[OF handled(2)] obtain ends
      where h: "handle_command C fault c (worker r) (log_file r) = (answer, ends, worker r', log_file r')" by blast
    from handle_inv[OF inv handled(3) h] step.prems handled(1) obtain more
      where new: "recorder_inv C ((old @ buffered (handled_commands trace)) @ buffered [c])
          (worker r') (log_file r') (durable @ more)"
        and ack: "answer = Some (Ok ()) \<longrightarrow> old @ buffered (handled_commands trace) = durable @ more" by auto
    from acks ack handled(1) have "\<forall>es. acknowledged (trace @ [a]) es \<longrightarrow> prefix (old @ es) (durable @ more)"
      by (auto simp: acknowledged_snoc intro: prefix_prefix)
    with new handled(1) show ?thesis by (intro exI[of _ "durable @ more"]) simp
  next
    case drained
    from drain_inv[OF inv dist drained(3,2)] drained(1) obtain more
      where "recorder_inv C (old @ buffered (handled_commands (trace @ [a]))) (worker r') (log_file r') (durable @ more)"
      by auto
    with acks drained(1) show ?thesis
      by (intro exI[of _ "durable @ more"]) (auto simp: acknowledged_snoc intro: prefix_prefix)
  next
    case client
    from client_step_keeps[OF step.hyps(2) client] inv acks client show ?thesis
      by (intro exI[of _ durable]) (cases a, auto simp: acknowledged_snoc)
  qed
qed

lemma load_inv:
  assumes "recorder_inv C handed w f durable" "codec_ok C" "log_wf {} handed"
  shows "\<exists>loaded. load_file C (Some (file_content f)) = Ok loaded \<and> prefix durable loaded \<and> prefix loaded handed"
proof -
  from assms(1) obtain logged k where handed: "handed = durable @ pending_entries w"
    and logged: "file_content f = log_lines C logged" "\<forall>e\<in>set logged. to_json C e \<noteq> None"
      "first_by_id {} logged = durable @ take k (pending_entries w)"
    by (auto simp: recorder_inv_def)
  let ?loaded = "durable @ take k (pending_entries w)"
  have loaded: "?loaded = take (length durable + k) handed" by (simp add: handed)
  then have "log_wf {} ?loaded" using log_wf_take[OF assms(3)] by simp
  moreover have "entry_id ` set logged = entry_id ` set ?loaded"
    using first_by_id_ids[of "{}" logged] logged(3) by simp
  ultimately have "validate_parent_links ?loaded (entry_id ` set logged) = Ok ()"
    by (auto simp: validate_parent_links_Ok_iff dest: log_wf_parent)
  then have "load_file C (Some (file_content f)) = Ok ?loaded"
    using load_lines[of logged C] logged assms(2) by (auto simp: codec_ok_def)
  then show ?thesis using loaded by (metis prefixI take_is_prefix)
qed

lemma acknowledged_survives:
  assumes "recorder_run C (clean_fault C) (new_recorder f) trace r" "file_content f = log_lines C old"
    "codec_ok C" "\<forall>e\<in>set old. to_json C e \<noteq> None"
    "log_wf {} (old @ buffered (handled_commands trace))" "acknowledged trace es"
  shows "\<exists>loaded. load_file C (Some (file_content (log_file r))) = Ok loaded
     \<and> prefix (old @ es) loaded \<and> prefix loaded (old @ buffered (handled_commands trace))"
proof -
  from run_inv[OF assms(1,2,4)] assms(5,6) log_wf_distinct obtain durable
    where inv: "recorder_inv C (old @ buffered (handled_commands trace)) (worker r) (log_file r) durable"
      and "prefix (old @ es) durable" by blast
  with load_inv[OF inv assms(3,5)] prefix_order.trans show ?thesis by blast
qed

end
