(* ===== verification/File_Samples.thy ===== *)
theory File_Samples
  imports Samples Recorder
begin

text \<open>
  A concrete codec for given entries, the id of an entry in braces, and log files written
  with it.
\<close>

definition braced :: "session_entry \<Rightarrow> ustring" where
  "braced e = 123 # entry_id e @ [125]"

definition codec_for :: "session_entry list \<Rightarrow> codec" where
  "codec_for es = \<lparr>to_json = (\<lambda>e. if e \<in> set es then Some (braced e) else None),
     from_json = (\<lambda>t. List.find (\<lambda>e. braced e = t) es)\<rparr>"

lemma braced_eq_iff [simp]: "braced e = braced d \<longleftrightarrow> entry_id e = entry_id d"
  by (simp add: braced_def)

lemma find_distinct:
  "distinct (map f es) \<Longrightarrow> e \<in> set es \<Longrightarrow> List.find (\<lambda>d. f d = f e) es = Some e"
  by (induction es) (auto simp: image_iff)

lemma codec_for_encodes:
  assumes "distinct (map entry_id es)" "e \<in> set es"
    "\<forall>d\<in>set es. \<forall>c\<in>set (entry_id d). is_scalar c \<and> 32 \<le> c \<and> c \<noteq> 125"
  shows "encodes (codec_for es) e"
proof -
  have "List.find (\<lambda>d. braced d = braced e) es = Some e"
    using find_distinct[OF assms(1,2)] by simp
  moreover have "List.find (\<lambda>d. braced d = p) es = None" if "strict_prefix p (braced e)" for p
  proof -
    from that have "prefix p (123 # entry_id e)"
      by (auto simp: braced_def strict_prefix_def simp flip: append_Cons)
    moreover have "125 \<notin> set (123 # entry_id e)" using assms(2,3) by auto
    ultimately have "125 \<notin> set p" using set_mono_prefix by blast
    then show ?thesis by (auto simp: find_None_iff braced_def)
  qed
  moreover have "\<forall>c\<in>set (braced e). is_scalar c \<and> 32 \<le> c"
    using assms(2,3) by (auto simp: braced_def is_scalar_def)
  ultimately show ?thesis
    using assms(2) by (auto simp: encodes_def codec_for_def) (simp_all add: braced_def)
qed

definition codec0 :: codec where "codec0 = codec_for sample_log"

lemma codec0_encodes: "e \<in> set sample_log \<Longrightarrow> encodes codec0 e"
  unfolding codec0_def
  by (rule codec_for_encodes)
     (use log_wf_distinct[OF sample_log_wf] in
       \<open>auto simp: sample_log_def sample_entries lit_def is_scalar_def\<close>)

lemma codec0_ok: "codec_ok codec0"
  using codec0_encodes by (auto simp: codec_ok_def codec0_def codec_for_def)

lemma codec0_to_json: "e \<in> set sample_log \<Longrightarrow> to_json codec0 e \<noteq> None"
  by (simp add: codec0_def codec_for_def)

text \<open>A run of the recorder whose first write fails because the file cannot be opened.\<close>

definition trace0 :: "action list" where
  "trace0 = [Sent (Buffer [e_header]), Sent Persist, Handled (Buffer [e_header]) None,
     Handled Persist (Some (Err IoError)), Sent Persist, Handled Persist (Some (Ok ()))]"

lemma trace0_run:
  "\<exists>r. recorder_run codec0 (clean_fault codec0) (new_recorder None) trace0 r \<and> channel r = []
     \<and> log_file r = Some (log_lines codec0 [e_header])"
proof -
  define r1 where "r1 = (new_recorder None)\<lparr>channel := [Buffer [e_header]]\<rparr>"
  define r2 where "r2 = r1\<lparr>channel := [Buffer [e_header], Persist]\<rparr>"
  define r3 where "r3 = r2\<lparr>channel := [Persist], worker := \<lparr>writer = new_writer, pending_entries = [e_header]\<rparr>\<rparr>"
  define r4 where "r4 = r3\<lparr>channel := []\<rparr>"
  define r5 where "r5 = r4\<lparr>channel := [Persist]\<rparr>"
  define r6 where "r6 = r5\<lparr>channel := [], worker := \<lparr>writer = \<lparr>file_open = True\<rparr>, pending_entries = []\<rparr>,
    log_file := Some (log_lines codec0 [e_header])\<rparr>"
  note defs = r1_def r2_def r3_def r4_def r5_def r6_def new_recorder_def new_worker_def new_writer_def
  let ?step = "recorder_step codec0 (clean_fault codec0)"
  have out: "write_entries codec0 [e_header] [] = (log_lines codec0 [e_header], Ok ())"
    using write_entries_eq[of "[e_header]" codec0 "[]"] encodes_to_json[OF codec0_encodes[OF sample_mem(1)]] by simp
  have wb: "write_batch codec0 NoFault [e_header] \<lparr>file_open = False\<rparr> None =
      (Ok (), \<lparr>file_open = True\<rparr>, Some (log_lines codec0 [e_header]))"
    by (simp add: write_batch_def file_mut_def out file_content_def del: write_entries.simps log_lines_simps)
  have s1: "?step (new_recorder None) (Sent (Buffer [e_header])) r1"
    by (rule buffers) (simp_all add: defs buffer_many_def record_command_capacity_def)
  have s2: "?step r1 (Sent Persist) r2"
    by (rule requests) (simp_all add: defs send_ack_command_def record_command_capacity_def)
  have s3: "?step r2 (Handled (Buffer [e_header]) None) r3"
    by (rule receives[where fault = NoFault])
       (simp_all add: defs worker_receive_def handle_command_def clean_fault_def)
  have s4: "?step r3 (Handled Persist (Some (Err IoError))) r4"
    by (rule receives[where fault = OpenFails])
       (simp_all add: defs worker_receive_def handle_command_def clean_fault_def persist_pending_def write_batch_def file_mut_def)
  have s5: "?step r4 (Sent Persist) r5"
    by (rule requests) (simp_all add: defs send_ack_command_def record_command_capacity_def)
  have s6: "?step r5 (Handled Persist (Some (Ok ()))) r6"
    by (rule receives[where fault = NoFault])
       (simp_all add: defs worker_receive_def handle_command_def clean_fault_def persist_pending_def wb
          del: log_lines_simps)
  note run = recorder_run.step[OF recorder_run.step[OF recorder_run.step[OF recorder_run.step[OF
      recorder_run.step[OF recorder_run.step[OF recorder_run.start s1] s2] s3] s4] s5] s6]
  from run show ?thesis by (intro exI[of _ r6]) (simp add: trace0_def r6_def)
qed

end
