(* ===== verification/Metadata_Index.thy ===== *)
theory Metadata_Index
  imports Jsonl "HOL-Library.List_Lexorder" "HOL-Library.Product_Lexorder"
begin

text \<open>
  The catalogue of sessions, \<^verbatim>\<open>session-store/src/metadata.rs\<close>, and its repair from the log
  files, \<^verbatim>\<open>metadata/repair.rs\<close>.  The two SQL tables are association lists under their primary
  key, the session id, whose text is its UUID; the unique index on the path of a repair row is
  an error of the insertion that violates it.  The disk maps paths to contents, and the times
  of last modification are an argument.  Errors of the SQL engine itself are not modelled.
  The lemmas show that a repair of unchanged files does nothing the second time.
\<close>

section \<open>The tables\<close>

record file_fingerprint =
  fp_size :: nat
  fp_modified :: int

record repair_row =
  repair_path :: ustring
  repair_fp :: file_fingerprint

record metadata_index =
  session_rows :: "(session_id \<times> session_meta) list"
  repair_rows :: "(session_id \<times> repair_row) list"

definition empty_index :: metadata_index where
  "empty_index = \<lparr>session_rows = [], repair_rows = []\<rparr>"

definition checked_i64 :: "nat \<Rightarrow> store_error + int" where
  "checked_i64 n = (if int n \<le> i64_max then Ok (int n) else Err CorruptIndex)"

text \<open>The row has no column for the file size, which the repair row holds.\<close>

definition upsert_session_row :: "metadata_index \<Rightarrow> session_meta \<Rightarrow> store_error + metadata_index" where
  "upsert_session_row idx m =
     and_then (checked_i64 (meta_total_tokens m)) (\<lambda>_.
       Ok (idx\<lparr>session_rows := AList.update (meta_session_id m) (m\<lparr>meta_size_bytes := None\<rparr>) (session_rows idx)\<rparr>))"

definition row_to_session_meta :: "metadata_index \<Rightarrow> session_id \<Rightarrow> session_meta \<Rightarrow> session_meta" where
  "row_to_session_meta idx sid m =
     m\<lparr>meta_size_bytes := map_option (\<lambda>r. fp_size (repair_fp r)) (map_of (repair_rows idx) sid)\<rparr>"

definition get_session_meta_row :: "metadata_index \<Rightarrow> session_id \<Rightarrow> store_error + session_meta" where
  "get_session_meta_row idx sid =
     ok_or (SessionNotFound sid) (map_option (row_to_session_meta idx sid) (map_of (session_rows idx) sid))"

text \<open>
  \<^verbatim>\<open>ORDER BY updated_at DESC, created_at DESC, session_id DESC\<close>, the id being compared as the
  text of its UUID.
\<close>

definition newest_first :: "(uuid \<Rightarrow> ustring) \<Rightarrow> session_meta list \<Rightarrow> session_meta list" where
  "newest_first show_id metas =
     rev (sort_key (\<lambda>m. (meta_updated_at m, meta_created_at m, show_id (meta_session_id m))) metas)"

definition list_session_rows :: "(uuid \<Rightarrow> ustring) \<Rightarrow> metadata_index \<Rightarrow> ustring \<Rightarrow> session_meta list" where
  "list_session_rows show_id idx project_dir =
     newest_first show_id
       (map (\<lambda>(sid, m). row_to_session_meta idx sid m)
          (filter (\<lambda>(sid, m). meta_project_dir m = project_dir) (session_rows idx)))"

section \<open>Repair rows\<close>

definition upsert_repair_state ::
  "metadata_index \<Rightarrow> session_id \<Rightarrow> ustring \<Rightarrow> file_fingerprint \<Rightarrow> store_error + metadata_index" where
  "upsert_repair_state idx sid path fp =
     and_then (checked_i64 (fp_size fp)) (\<lambda>_.
       if \<exists>(i, r)\<in>set (repair_rows idx). i \<noteq> sid \<and> repair_path r = path then Err SqliteError
       else Ok (idx\<lparr>repair_rows := AList.update sid \<lparr>repair_path = path, repair_fp = fp\<rparr> (repair_rows idx)\<rparr>))"

definition delete_session_rows :: "session_id \<Rightarrow> metadata_index \<Rightarrow> metadata_index" where
  "delete_session_rows sid idx =
     idx\<lparr>session_rows := AList.delete sid (session_rows idx),
         repair_rows := AList.delete sid (repair_rows idx)\<rparr>"

record indexed_file =
  indexed_id :: session_id
  indexed_path :: ustring
  indexed_fp :: "file_fingerprint option"

definition load_indexed_project_files :: "metadata_index \<Rightarrow> ustring \<Rightarrow> indexed_file list" where
  "load_indexed_project_files idx project_dir =
     map (\<lambda>(sid, m). \<lparr>indexed_id = sid, indexed_path = meta_jsonl_path m,
            indexed_fp = map_option repair_fp (map_of (repair_rows idx) sid)\<rparr>)
       (filter (\<lambda>(sid, m). meta_project_dir m = project_dir) (session_rows idx))"

section \<open>The files\<close>

type_synonym disk = "(ustring \<times> bytes) list"

record discovered_file =
  found_path :: ustring
  found_fp :: file_fingerprint

text \<open>Paths compare by their components; a log file has the extension \<^verbatim>\<open>jsonl\<close>.\<close>

fun path_components :: "ustring \<Rightarrow> ustring list" where
  "path_components [] = [[]]"
| "path_components (c # cs) =
     (if c = 47 then [] # path_components cs
      else case path_components cs of [] \<Rightarrow> [[c]] | x # xs \<Rightarrow> (c # x) # xs)"

definition is_jsonl :: "ustring \<Rightarrow> bool" where
  "is_jsonl path =
     (let name = last (path_components path)
      in 6 < length name \<and> drop (length name - 6) name = lit ''.jsonl'')"

definition in_directory :: "ustring \<Rightarrow> ustring \<Rightarrow> bool" where
  "in_directory dir path \<longleftrightarrow> take (Suc (length dir)) path = dir @ [47]"

definition modified_time_ms :: "int \<Rightarrow> store_error + int" where
  "modified_time_ms t =
     (if t < 0 then Err CorruptIndex else if i64_max < t then Err CorruptIndex else Ok t)"

definition file_fingerprint_of ::
  "(ustring \<Rightarrow> int) \<Rightarrow> ustring \<Rightarrow> bytes \<Rightarrow> store_error + file_fingerprint" where
  "file_fingerprint_of modified path content =
     and_then (modified_time_ms (modified path)) (\<lambda>t. Ok \<lparr>fp_size = length content, fp_modified = t\<rparr>)"

definition collect_jsonl_files ::
  "(ustring \<Rightarrow> int) \<Rightarrow> disk \<Rightarrow> ustring \<Rightarrow> store_error + discovered_file list" where
  "collect_jsonl_files modified d dir =
     and_then (try_map (\<lambda>(path, content). and_then (file_fingerprint_of modified path content)
                  (\<lambda>fp. Ok \<lparr>found_path = path, found_fp = fp\<rparr>))
                (filter (\<lambda>(path, content). in_directory dir path \<and> is_jsonl path) d))
       (\<lambda>files. Ok (sort_key (\<lambda>f. path_components (found_path f)) files))"

record index_env =
  index_platform :: platform
  index_codec :: codec
  index_modified :: "ustring \<Rightarrow> int"
  sessions_dir :: ustring

definition extract_session_meta ::
  "index_env \<Rightarrow> disk \<Rightarrow> discovered_file \<Rightarrow> store_error + session_meta \<times> file_fingerprint" where
  "extract_session_meta E d f =
     and_then (scan_file (index_codec E) (\<lambda>deriver e. Ok (observe deriver e)) empty_deriver (map_of d (found_path f)))
       (\<lambda>deriver. and_then (finish_meta (show_uuid (index_platform E)) (canonicalize (index_platform E))
           deriver (found_path f) (Some (fp_size (found_fp f)))) (\<lambda>m. Ok (m, found_fp f)))"

section \<open>Rebuild and repair\<close>

text \<open>Both run statement by statement, without a transaction: an error keeps what was done.\<close>

definition store_extracted ::
  "metadata_index \<Rightarrow> session_meta \<times> file_fingerprint \<Rightarrow> (store_error + unit) \<times> metadata_index" where
  "store_extracted idx x =
     (case upsert_session_row idx (fst x) of
        Inl err \<Rightarrow> (Err err, idx)
      | Inr idx1 \<Rightarrow>
          (case upsert_repair_state idx1 (meta_session_id (fst x)) (meta_jsonl_path (fst x)) (snd x) of
             Inl err \<Rightarrow> (Err err, idx1)
           | Inr idx2 \<Rightarrow> (Ok (), idx2)))"

fun rebuild_loop ::
  "index_env \<Rightarrow> disk \<Rightarrow> discovered_file list \<Rightarrow> nat \<Rightarrow> metadata_index
     \<Rightarrow> (store_error + nat) \<times> metadata_index" where
  "rebuild_loop E d [] processed idx = (Ok processed, idx)"
| "rebuild_loop E d (f # fs) processed idx =
     (case extract_session_meta E d f of
        Inl err \<Rightarrow> (Err err, idx)
      | Inr x \<Rightarrow>
          (case store_extracted idx x of
             (Inl err, idx) \<Rightarrow> (Err err, idx)
           | (Inr _, idx) \<Rightarrow> rebuild_loop E d fs (Suc processed) idx))"

definition rebuild_index_from_jsonl ::
  "index_env \<Rightarrow> disk \<Rightarrow> metadata_index \<Rightarrow> (store_error + nat) \<times> metadata_index" where
  "rebuild_index_from_jsonl E d idx =
     (let idx = idx\<lparr>repair_rows := [], session_rows := []\<rparr>
      in case collect_jsonl_files (index_modified E) d (sessions_dir E) of
           Inl err \<Rightarrow> (Err err, idx)
         | Inr files \<Rightarrow> rebuild_loop E d files 0 idx)"

record repair_plan =
  stale_session_ids :: "session_id list"
  files_to_refresh :: "discovered_file list"

text \<open>Collecting into a map keeps the last value of a key.\<close>

definition indexed_by_path :: "indexed_file list \<Rightarrow> ustring \<Rightarrow> indexed_file option" where
  "indexed_by_path indexed path = List.find (\<lambda>i. indexed_path i = path) (rev indexed)"

definition build_repair_plan :: "discovered_file list \<Rightarrow> indexed_file list \<Rightarrow> repair_plan" where
  "build_repair_plan discovered indexed =
     \<lparr>stale_session_ids = map indexed_id
        (filter (\<lambda>i. indexed_path i \<notin> found_path ` set discovered) indexed),
      files_to_refresh =
        filter (\<lambda>f. case indexed_by_path indexed (found_path f) of
                       Some i \<Rightarrow> indexed_fp i \<noteq> Some (found_fp f)
                     | None \<Rightarrow> True) discovered\<rparr>"

text \<open>The row that had a refreshed file under another id goes.\<close>

definition forget_moved ::
  "indexed_file list \<Rightarrow> ustring \<Rightarrow> session_id \<Rightarrow> metadata_index \<Rightarrow> metadata_index" where
  "forget_moved indexed path sid idx =
     (case indexed_by_path indexed path of
        Some i \<Rightarrow> if indexed_id i \<noteq> sid then delete_session_rows (indexed_id i) idx else idx
      | None \<Rightarrow> idx)"

fun refresh_loop ::
  "index_env \<Rightarrow> disk \<Rightarrow> indexed_file list \<Rightarrow> discovered_file list \<Rightarrow> metadata_index
     \<Rightarrow> (store_error + unit) \<times> metadata_index" where
  "refresh_loop E d indexed [] idx = (Ok (), idx)"
| "refresh_loop E d indexed (f # fs) idx =
     (case extract_session_meta E d f of
        Inl err \<Rightarrow> (Err err, idx)
      | Inr x \<Rightarrow>
          (case store_extracted (forget_moved indexed (found_path f) (meta_session_id (fst x)) idx) x of
             (Inl err, idx) \<Rightarrow> (Err err, idx)
           | (Inr _, idx) \<Rightarrow> refresh_loop E d indexed fs idx))"

definition repair_project_from_jsonl ::
  "index_env \<Rightarrow> disk \<Rightarrow> ustring \<Rightarrow> metadata_index \<Rightarrow> (store_error + unit) \<times> metadata_index" where
  "repair_project_from_jsonl E d project_dir idx =
     (case collect_jsonl_files (index_modified E) d (sessions_dir E @ 47 # encoded_session_dir project_dir) of
        Inl err \<Rightarrow> (Err err, idx)
      | Inr discovered \<Rightarrow>
          (let indexed = load_indexed_project_files idx project_dir;
               plan = build_repair_plan discovered indexed
           in refresh_loop E d indexed (files_to_refresh plan)
                (fold delete_session_rows (stale_session_ids plan) idx)))"

definition index_list_sessions ::
  "index_env \<Rightarrow> disk \<Rightarrow> ustring \<Rightarrow> bool \<Rightarrow> metadata_index
     \<Rightarrow> (store_error + session_meta list) \<times> metadata_index" where
  "index_list_sessions E d project_dir repair idx =
     (case (if repair then repair_project_from_jsonl E d project_dir idx else (Ok (), idx)) of
        (Inl err, idx) \<Rightarrow> (Err err, idx)
      | (Inr _, idx) \<Rightarrow> (Ok (list_session_rows (show_uuid (index_platform E)) idx project_dir), idx))"

section \<open>Keys\<close>

text \<open>
  The tables keep their keys apart; a session row is filed under the id it holds, and no two
  repair rows share a path.
\<close>

definition index_ok :: "metadata_index \<Rightarrow> bool" where
  "index_ok idx \<longleftrightarrow>
     distinct (map fst (session_rows idx)) \<and> distinct (map fst (repair_rows idx))
     \<and> (\<forall>sid m. map_of (session_rows idx) sid = Some m \<longrightarrow> meta_session_id m = sid \<and> meta_size_bytes m = None)
     \<and> (\<forall>i j r r'. map_of (repair_rows idx) i = Some r \<longrightarrow> map_of (repair_rows idx) j = Some r'
           \<longrightarrow> repair_path r = repair_path r' \<longrightarrow> i = j)"

lemma index_ok_empty: "index_ok empty_index"
  by (simp add: index_ok_def empty_index_def)

lemma map_of_mem: "distinct (map fst xs) \<Longrightarrow> (k, v) \<in> set xs \<longleftrightarrow> map_of xs k = Some v"
  by (auto dest: map_of_SomeD)

lemma index_ok_upsert_session:
  "index_ok idx \<Longrightarrow> upsert_session_row idx m = Ok idx' \<Longrightarrow> index_ok idx'"
  by (auto simp: index_ok_def upsert_session_row_def and_then_eq_Ok distinct_update AList.update_conv'
      split: if_splits)

lemma index_ok_upsert_repair:
  assumes "index_ok idx" "upsert_repair_state idx sid path fp = Ok idx'"
  shows "index_ok idx'"
proof -
  from assms(2) have free: "\<forall>(i, r)\<in>set (repair_rows idx). repair_path r = path \<longrightarrow> i = sid"
    and idx': "idx' = idx\<lparr>repair_rows := AList.update sid \<lparr>repair_path = path, repair_fp = fp\<rparr> (repair_rows idx)\<rparr>"
    by (auto simp: upsert_repair_state_def and_then_eq_Ok split: if_splits)
  have "i = sid" if "map_of (repair_rows idx) i = Some r" "repair_path r = path" for i r
    using free map_of_SomeD[OF that(1)] that(2) by auto
  with assms(1) show ?thesis
    unfolding idx' by (auto simp: index_ok_def distinct_update AList.update_conv' split: if_splits)
qed

lemma index_ok_delete: "index_ok idx \<Longrightarrow> index_ok (delete_session_rows sid idx)"
  by (auto simp: index_ok_def delete_session_rows_def distinct_delete delete_conv' split: if_splits)

lemma index_ok_store: "index_ok idx \<Longrightarrow> store_extracted idx x = (r, idx') \<Longrightarrow> index_ok idx'"
  by (auto simp: store_extracted_def dest: index_ok_upsert_session index_ok_upsert_repair split: sum.splits)

lemma index_ok_rebuild: "index_ok idx \<Longrightarrow> rebuild_loop E d fs n idx = (r, idx') \<Longrightarrow> index_ok idx'"
  by (induction fs arbitrary: n idx) (auto dest: index_ok_store split: sum.splits prod.splits)

lemma index_ok_forget: "index_ok idx \<Longrightarrow> index_ok (forget_moved indexed path sid idx)"
  by (auto simp: forget_moved_def intro: index_ok_delete split: option.splits)

lemma index_ok_refresh: "index_ok idx \<Longrightarrow> refresh_loop E d indexed fs idx = (r, idx') \<Longrightarrow> index_ok idx'"
  by (induction fs arbitrary: idx)
     (auto dest: index_ok_store[OF index_ok_forget] split: sum.splits prod.splits)

lemma index_ok_fold_delete: "index_ok idx \<Longrightarrow> index_ok (fold delete_session_rows sids idx)"
  by (induction sids arbitrary: idx) (auto intro: index_ok_delete)

lemma index_ok_repair:
  "index_ok idx \<Longrightarrow> repair_project_from_jsonl E d p idx = (r, idx') \<Longrightarrow> index_ok idx'"
  by (auto simp: repair_project_from_jsonl_def Let_def intro: index_ok_refresh index_ok_fold_delete split: sum.splits)

section \<open>Reading the catalogue\<close>

lemma set_newest_first [simp]: "set (newest_first show_id metas) = set metas"
  by (simp add: newest_first_def)

lemma length_newest_first [simp]: "length (newest_first show_id metas) = length metas"
  by (simp add: newest_first_def)

lemma newest_first_sorted:
  "sorted (rev (map (\<lambda>m. (meta_updated_at m, meta_created_at m, show_id (meta_session_id m)))
     (newest_first show_id metas)))"
  by (simp add: newest_first_def rev_map)

lemma get_after_upsert:
  assumes "upsert_session_row idx m = Ok idx1"
    "upsert_repair_state idx1 (meta_session_id m) path fp = Ok idx2"
  shows "get_session_meta_row idx2 (meta_session_id m) = Ok (m\<lparr>meta_size_bytes := Some (fp_size fp)\<rparr>)"
  using assms
  by (auto simp: upsert_session_row_def upsert_repair_state_def get_session_meta_row_def row_to_session_meta_def
      and_then_eq_Ok AList.update_conv' split: if_splits)

section \<open>A second repair does nothing\<close>

lemma extract_Ok:
  "extract_session_meta E d f = Ok (m, fp) \<Longrightarrow> fp = found_fp f \<and> meta_jsonl_path m = found_path f"
  by (auto simp: extract_session_meta_def finish_meta_def and_then_eq_Ok)

lemma store_extracted_Ok:
  assumes "store_extracted idx (m, fp) = (Ok (), idx')"
  shows "map_of (session_rows idx') = (map_of (session_rows idx))(meta_session_id m \<mapsto> m\<lparr>meta_size_bytes := None\<rparr>)
    \<and> map_of (repair_rows idx') =
      (map_of (repair_rows idx))(meta_session_id m \<mapsto> \<lparr>repair_path = meta_jsonl_path m, repair_fp = fp\<rparr>)"
  using assms
  by (auto simp: store_extracted_def upsert_session_row_def upsert_repair_state_def and_then_eq_Ok
      AList.update_conv' split: sum.splits if_splits)

lemma map_of_delete_rows:
  "map_of (session_rows (delete_session_rows sid idx)) s = (if s = sid then None else map_of (session_rows idx) s)"
  "map_of (repair_rows (delete_session_rows sid idx)) s = (if s = sid then None else map_of (repair_rows idx) s)"
  by (simp_all add: delete_session_rows_def delete_conv')

lemma map_of_fold_delete:
  "map_of (session_rows (fold delete_session_rows sids idx)) s =
     (if s \<in> set sids then None else map_of (session_rows idx) s)
   \<and> map_of (repair_rows (fold delete_session_rows sids idx)) s =
     (if s \<in> set sids then None else map_of (repair_rows idx) s)"
  by (induction sids arbitrary: idx) (auto simp: map_of_delete_rows)

definition moved_ids :: "indexed_file list \<Rightarrow> (discovered_file \<Rightarrow> session_id) \<Rightarrow> discovered_file list \<Rightarrow> session_id set" where
  "moved_ids indexed ids fs =
     {indexed_id i |f i. f \<in> set fs \<and> indexed_by_path indexed (found_path f) = Some i \<and> indexed_id i \<noteq> ids f}"

lemma map_of_forget:
  "map_of (session_rows (forget_moved indexed (found_path f) (ids f) idx)) s =
     (if s \<in> moved_ids indexed ids [f] then None else map_of (session_rows idx) s)
   \<and> map_of (repair_rows (forget_moved indexed (found_path f) (ids f) idx)) s =
     (if s \<in> moved_ids indexed ids [f] then None else map_of (repair_rows idx) s)"
  by (auto simp: forget_moved_def moved_ids_def map_of_delete_rows split: option.splits)

lemma moved_ids_Cons: "moved_ids indexed ids (f # fs) = moved_ids indexed ids [f] \<union> moved_ids indexed ids fs"
  by (auto simp: moved_ids_def)

text \<open>
  What the loop over the files leaves in the tables: the rows of the files, no rows for the
  ids that moved, and all other rows as they were.
\<close>

definition refreshed ::
  "(discovered_file \<Rightarrow> session_meta) \<Rightarrow> session_id set \<Rightarrow> discovered_file list \<Rightarrow> metadata_index
     \<Rightarrow> metadata_index \<Rightarrow> bool" where
  "refreshed mt moved fs idx idx' \<longleftrightarrow>
     (\<forall>f\<in>set fs. map_of (session_rows idx') (meta_session_id (mt f)) = Some ((mt f)\<lparr>meta_size_bytes := None\<rparr>)
        \<and> map_of (repair_rows idx') (meta_session_id (mt f)) =
            Some \<lparr>repair_path = found_path f, repair_fp = found_fp f\<rparr>)
     \<and> (\<forall>s. s \<notin> (\<lambda>f. meta_session_id (mt f)) ` set fs \<longrightarrow>
          map_of (session_rows idx') s = (if s \<in> moved then None else map_of (session_rows idx) s)
        \<and> map_of (repair_rows idx') s = (if s \<in> moved then None else map_of (repair_rows idx) s))"

lemma refresh_loop_refreshed:
  assumes "refresh_loop E d indexed fs idx = (Ok (), idx')"
    "\<forall>f\<in>set fs. extract_session_meta E d f = Ok (mt f, found_fp f)"
    "distinct (map (\<lambda>f. meta_session_id (mt f)) fs)"
    "moved_ids indexed (\<lambda>f. meta_session_id (mt f)) fs \<inter> (\<lambda>f. meta_session_id (mt f)) ` set fs = {}"
  shows "refreshed mt (moved_ids indexed (\<lambda>f. meta_session_id (mt f)) fs) fs idx idx'"
  using assms
proof (induction fs arbitrary: idx)
  case Nil
  then show ?case by (simp add: refreshed_def moved_ids_def)
next
  case (Cons f fs)
  let ?ids = "\<lambda>f. meta_session_id (mt f)"
  let ?idx1 = "forget_moved indexed (found_path f) (?ids f) idx"
  from Cons.prems(2) have ext: "extract_session_meta E d f = Ok (mt f, found_fp f)" by simp
  from Cons.prems(1) ext obtain idx2 where store: "store_extracted ?idx1 (mt f, found_fp f) = (Ok (), idx2)"
    and rest: "refresh_loop E d indexed fs idx2 = (Ok (), idx')"
    by (auto split: sum.splits prod.splits)
  from Cons.IH[OF rest] Cons.prems(2-4)
  have IH: "refreshed mt (moved_ids indexed ?ids fs) fs idx2 idx'"
    by (auto simp: moved_ids_Cons[of _ _ f fs])
  have f: "?ids f \<notin> ?ids ` set fs" "?ids f \<notin> moved_ids indexed ?ids fs" "?ids f \<notin> moved_ids indexed ?ids [f]"
    using Cons.prems(3,4) by (auto simp: moved_ids_Cons[of _ _ f fs])
  note two = store_extracted_Ok[OF store] map_of_forget[of indexed f ?ids idx]
  have path: "meta_jsonl_path (mt f) = found_path f" using extract_Ok[OF ext] by simp
  show ?case
    unfolding refreshed_def
  proof (intro conjI ballI allI impI)
    fix g assume "g \<in> set (f # fs)"
    then show "map_of (session_rows idx') (?ids g) = Some ((mt g)\<lparr>meta_size_bytes := None\<rparr>)"
      "map_of (repair_rows idx') (?ids g) = Some \<lparr>repair_path = found_path g, repair_fp = found_fp g\<rparr>"
      using IH f two path by (auto simp: refreshed_def)
  next
    fix s assume "s \<notin> ?ids ` set (f # fs)"
    then show "map_of (session_rows idx') s =
        (if s \<in> moved_ids indexed ?ids (f # fs) then None else map_of (session_rows idx) s)"
      "map_of (repair_rows idx') s =
        (if s \<in> moved_ids indexed ?ids (f # fs) then None else map_of (repair_rows idx) s)"
      using IH two by (auto simp: refreshed_def moved_ids_Cons[of _ _ f fs])
  qed
qed

lemma indexed_mem:
  assumes "index_ok idx"
  shows "i \<in> set (load_indexed_project_files idx p) \<longleftrightarrow>
     (\<exists>m. map_of (session_rows idx) (indexed_id i) = Some m \<and> meta_project_dir m = p
        \<and> i = \<lparr>indexed_id = indexed_id i, indexed_path = meta_jsonl_path m,
               indexed_fp = map_option repair_fp (map_of (repair_rows idx) (indexed_id i))\<rparr>)"
proof -
  from assms have "distinct (map fst (session_rows idx))" by (simp add: index_ok_def)
  note mem = map_of_mem[OF this]
  show ?thesis by (force simp: load_indexed_project_files_def mem[symmetric])
qed

lemma indexed_unique:
  "index_ok idx \<Longrightarrow> i \<in> set (load_indexed_project_files idx p) \<Longrightarrow>
     j \<in> set (load_indexed_project_files idx p) \<Longrightarrow> indexed_id i = indexed_id j \<Longrightarrow> i = j"
  by (simp add: indexed_mem) (metis option.inject)

lemma find_SomeD: "List.find P xs = Some x \<Longrightarrow> x \<in> set xs \<and> P x"
  by (induction xs) (auto split: if_splits)

lemma indexed_by_path_mem:
  "indexed_by_path indexed path = Some i \<Longrightarrow> i \<in> set indexed \<and> indexed_path i = path"
  by (auto simp: indexed_by_path_def dest: find_SomeD)

lemma indexed_by_path_None: "indexed_by_path indexed path = None \<longleftrightarrow> path \<notin> indexed_path ` set indexed"
  by (auto simp: indexed_by_path_def find_None_iff)

lemma indexed_by_path_inj:
  assumes "inj_on indexed_path (set indexed)" "i \<in> set indexed"
  shows "indexed_by_path indexed (indexed_path i) = Some i"
proof (cases "indexed_by_path indexed (indexed_path i)")
  case None
  with assms(2) show ?thesis by (auto simp: indexed_by_path_None)
next
  case (Some j)
  with indexed_by_path_mem[OF Some] assms show ?thesis by (auto dest: inj_onD)
qed

text \<open>
  A project whose files and rows agree on who is who: every row of the project has a path of
  its own, every file yields a row of the project under an id of its own, and a row at the
  path of a file has that file's id or one no file has.
\<close>

definition repairable ::
  "index_env \<Rightarrow> disk \<Rightarrow> ustring \<Rightarrow> discovered_file list \<Rightarrow> (discovered_file \<Rightarrow> session_meta) \<Rightarrow> metadata_index \<Rightarrow> bool" where
  "repairable E d p found mt idx \<longleftrightarrow>
     index_ok idx \<and> inj_on indexed_path (set (load_indexed_project_files idx p))
     \<and> distinct (map found_path found)
     \<and> (\<forall>f\<in>set found. extract_session_meta E d f = Ok (mt f, found_fp f) \<and> meta_project_dir (mt f) = p)
     \<and> distinct (map (\<lambda>f. meta_session_id (mt f)) found)
     \<and> (\<forall>f\<in>set found. \<forall>i\<in>set (load_indexed_project_files idx p). indexed_path i = found_path f \<longrightarrow>
          indexed_id i = meta_session_id (mt f) \<or> indexed_id i \<notin> (\<lambda>f. meta_session_id (mt f)) ` set found)"

lemma repair_refreshed:
  assumes "repairable E d p found mt idx"
    "indexed = load_indexed_project_files idx p" "plan = build_repair_plan found indexed"
    "refresh_loop E d indexed (files_to_refresh plan) (fold delete_session_rows (stale_session_ids plan) idx) = (Ok (), idx')"
  shows "refreshed mt (moved_ids indexed (\<lambda>f. meta_session_id (mt f)) (files_to_refresh plan))
     (files_to_refresh plan) (fold delete_session_rows (stale_session_ids plan) idx) idx'"
proof (rule refresh_loop_refreshed[OF assms(4)])
  have sub: "set (files_to_refresh plan) \<subseteq> set found" by (auto simp: assms(3) build_repair_plan_def)
  with assms(1) show "\<forall>f\<in>set (files_to_refresh plan). extract_session_meta E d f = Ok (mt f, found_fp f)"
    by (auto simp: repairable_def)
  from assms(1) show "distinct (map (\<lambda>f. meta_session_id (mt f)) (files_to_refresh plan))"
    by (simp add: assms(3) build_repair_plan_def repairable_def distinct_map_filter)
  show "moved_ids indexed (\<lambda>f. meta_session_id (mt f)) (files_to_refresh plan)
      \<inter> (\<lambda>f. meta_session_id (mt f)) ` set (files_to_refresh plan) = {}"
  proof -
    have "indexed_id i \<notin> (\<lambda>f. meta_session_id (mt f)) ` set found"
      if "f \<in> set (files_to_refresh plan)" "indexed_by_path indexed (found_path f) = Some i"
        "indexed_id i \<noteq> meta_session_id (mt f)" for f i
    proof -
      from that(1) sub have "f \<in> set found" by blast
      with assms(1) indexed_by_path_mem[OF that(2)] that(3) show ?thesis
        unfolding repairable_def assms(2) by blast
    qed
    then have "s \<notin> (\<lambda>f. meta_session_id (mt f)) ` set found"
      if "s \<in> moved_ids indexed (\<lambda>f. meta_session_id (mt f)) (files_to_refresh plan)" for s
    proof -
      from that obtain f i where "f \<in> set (files_to_refresh plan)" "s = indexed_id i"
        "indexed_by_path indexed (found_path f) = Some i" "indexed_id i \<noteq> meta_session_id (mt f)"
        by (auto simp: moved_ids_def)
      with \<open>\<And>i f. f \<in> set (files_to_refresh plan) \<Longrightarrow> indexed_by_path indexed (found_path f) = Some i \<Longrightarrow>
         indexed_id i \<noteq> meta_session_id (mt f) \<Longrightarrow> indexed_id i \<notin> (\<lambda>f. meta_session_id (mt f)) ` set found\<close>
      show ?thesis by simp
    qed
    with sub show ?thesis by blast
  qed
qed

lemma repaired_rows:
  assumes "repairable E d p found mt idx" "index_ok idx'"
    "indexed = load_indexed_project_files idx p" "plan = build_repair_plan found indexed"
    "refreshed mt (moved_ids indexed (\<lambda>f. meta_session_id (mt f)) (files_to_refresh plan))
       (files_to_refresh plan) (fold delete_session_rows (stale_session_ids plan) idx) idx'"
  shows "i \<in> set (load_indexed_project_files idx' p) \<Longrightarrow>
      \<exists>f\<in>set found. indexed_path i = found_path f \<and> indexed_fp i = Some (found_fp f)"
    "f \<in> set found \<Longrightarrow> \<exists>i\<in>set (load_indexed_project_files idx' p). indexed_path i = found_path f"
proof -
  let ?ids = "\<lambda>f. meta_session_id (mt f)"
  let ?R = "set (files_to_refresh plan)" and ?S = "set (stale_session_ids plan)"
  let ?moved = "moved_ids indexed ?ids (files_to_refresh plan)"
  have ok: "index_ok idx" and inj: "inj_on indexed_path (set indexed)"
    and paths: "\<forall>f\<in>set found. \<forall>g\<in>set found. found_path f = found_path g \<longrightarrow> f = g"
    and ids: "\<forall>f\<in>set found. \<forall>g\<in>set found. ?ids f = ?ids g \<longrightarrow> f = g"
    and ext: "\<forall>f\<in>set found. extract_session_meta E d f = Ok (mt f, found_fp f) \<and> meta_project_dir (mt f) = p"
    and who: "\<forall>f\<in>set found. \<forall>i\<in>set indexed. indexed_path i = found_path f \<longrightarrow>
          indexed_id i = ?ids f \<or> indexed_id i \<notin> ?ids ` set found"
    using assms(1) unfolding repairable_def assms(3) by (auto simp: distinct_map dest: inj_onD)
  have R: "f \<in> ?R \<longleftrightarrow> f \<in> set found \<and> (case indexed_by_path indexed (found_path f) of
      Some i \<Rightarrow> indexed_fp i \<noteq> Some (found_fp f) | None \<Rightarrow> True)" for f
    by (simp add: assms(4) build_repair_plan_def)
  have S: "s \<in> ?S \<longleftrightarrow> (\<exists>i\<in>set indexed. indexed_id i = s \<and> indexed_path i \<notin> found_path ` set found)" for s
    by (auto simp: assms(4) build_repair_plan_def)
  have new: "map_of (session_rows idx') (?ids f) = Some ((mt f)\<lparr>meta_size_bytes := None\<rparr>)
      \<and> map_of (repair_rows idx') (?ids f) = Some \<lparr>repair_path = found_path f, repair_fp = found_fp f\<rparr>"
    if "f \<in> ?R" for f
    using assms(5) that by (simp add: refreshed_def)
  have old: "map_of (session_rows idx') s = (if s \<in> ?moved \<or> s \<in> ?S then None else map_of (session_rows idx) s)
      \<and> map_of (repair_rows idx') s = (if s \<in> ?moved \<or> s \<in> ?S then None else map_of (repair_rows idx) s)"
    if "s \<notin> ?ids ` ?R" for s
    using assms(5) that by (auto simp: refreshed_def map_of_fold_delete)
  note mem = indexed_mem[OF ok, of _ p, folded assms(3)] and mem' = indexed_mem[OF assms(2), of _ p]
  note unique = indexed_unique[OF ok, of _ p, folded assms(3)]
  {
    assume "i \<in> set (load_indexed_project_files idx' p)"
    then obtain m where m: "map_of (session_rows idx') (indexed_id i) = Some m" "meta_project_dir m = p"
      and i_eq: "i = \<lparr>indexed_id = indexed_id i, indexed_path = meta_jsonl_path m,
               indexed_fp = map_option repair_fp (map_of (repair_rows idx') (indexed_id i))\<rparr>"
      unfolding mem' by blast
    have i: "indexed_path i = meta_jsonl_path m"
        "indexed_fp i = map_option repair_fp (map_of (repair_rows idx') (indexed_id i))"
      using arg_cong[OF i_eq, of indexed_path] arg_cong[OF i_eq, of indexed_fp] by simp_all
    show "\<exists>f\<in>set found. indexed_path i = found_path f \<and> indexed_fp i = Some (found_fp f)"
    proof (cases "indexed_id i \<in> ?ids ` ?R")
      case True
      then obtain f where f: "f \<in> ?R" "indexed_id i = ?ids f" by blast
      with R have found: "f \<in> set found" by blast
      with ext extract_Ok have path: "meta_jsonl_path (mt f) = found_path f" by blast
      from m(1) new[OF f(1)] have "m = (mt f)\<lparr>meta_size_bytes := None\<rparr>" by (simp add: f(2))
      moreover from new[OF f(1)] have "indexed_fp i = Some (found_fp f)" unfolding i(2) f(2) by simp
      ultimately show ?thesis using i(1) path found by auto
    next
      case False
      from old[OF this] m have keep: "indexed_id i \<notin> ?moved" "indexed_id i \<notin> ?S"
        and rows: "map_of (session_rows idx) (indexed_id i) = Some m"
          "map_of (repair_rows idx') (indexed_id i) = map_of (repair_rows idx) (indexed_id i)"
        by (auto split: if_splits)
      have "i = \<lparr>indexed_id = indexed_id i, indexed_path = meta_jsonl_path m,
               indexed_fp = map_option repair_fp (map_of (repair_rows idx) (indexed_id i))\<rparr>"
        using i rows(2) by (cases i) simp
      with rows(1) m(2) have i_old: "i \<in> set indexed" unfolding mem by blast
      with keep(2) S obtain f where f: "f \<in> set found" "indexed_path i = found_path f" by blast
      have by_path: "indexed_by_path indexed (found_path f) = Some i"
        using indexed_by_path_inj[OF inj i_old] f(2) by simp
      have "f \<notin> ?R"
      proof
        assume "f \<in> ?R"
        with False have "indexed_id i \<noteq> ?ids f" by blast
        with \<open>f \<in> ?R\<close> by_path have "indexed_id i \<in> ?moved" by (auto simp: moved_ids_def)
        with keep(1) show False by contradiction
      qed
      with R[of f] f by_path show ?thesis by auto
    qed
  next
    assume f: "f \<in> set found"
    show "\<exists>i\<in>set (load_indexed_project_files idx' p). indexed_path i = found_path f"
    proof (cases "f \<in> ?R")
      case True
      let ?i = "\<lparr>indexed_id = ?ids f, indexed_path = found_path f, indexed_fp = Some (found_fp f)\<rparr>"
      have "meta_jsonl_path (mt f) = found_path f" using ext f extract_Ok by blast
      with new[OF True] ext f have "?i \<in> set (load_indexed_project_files idx' p)" unfolding mem' by simp
      then show ?thesis by (intro bexI[of _ ?i]) simp
    next
      case False
      with R[of f] f obtain i where by_path: "indexed_by_path indexed (found_path f) = Some i"
        by (auto split: option.splits)
      from indexed_by_path_mem[OF this] have i: "i \<in> set indexed" "indexed_path i = found_path f" by auto
      have not_new: "indexed_id i \<notin> ?ids ` ?R"
      proof
        assume "indexed_id i \<in> ?ids ` ?R"
        then obtain g where g: "g \<in> ?R" "indexed_id i = ?ids g" by blast
        with R have "g \<in> set found" by blast
        then have "indexed_id i \<in> ?ids ` set found" using g(2) by simp
        moreover have "indexed_id i = ?ids f \<or> indexed_id i \<notin> ?ids ` set found"
          using who[rule_format, OF f i(1) i(2)] .
        ultimately have "?ids f = ?ids g" using g(2) by simp
        with ids f \<open>g \<in> set found\<close> g(1) False show False by auto
      qed
      have "indexed_id i \<notin> ?moved"
      proof
        assume "indexed_id i \<in> ?moved"
        then obtain g j where g: "g \<in> ?R" "indexed_by_path indexed (found_path g) = Some j" "indexed_id i = indexed_id j"
          by (auto simp: moved_ids_def)
        from indexed_by_path_mem[OF g(2)] have j: "j \<in> set indexed" "indexed_path j = found_path g" by auto
        from unique[OF i(1) j(1) g(3)] i(2) j(2) have "found_path f = found_path g" by simp
        with paths f g(1) R False show False by blast
      qed
      moreover have "indexed_id i \<notin> ?S"
        using S unique[OF i(1)] i f by (auto simp: image_iff) metis
      ultimately have rows: "map_of (session_rows idx') (indexed_id i) = map_of (session_rows idx) (indexed_id i)"
          "map_of (repair_rows idx') (indexed_id i) = map_of (repair_rows idx) (indexed_id i)"
        using old[OF not_new] by auto
      from i(1) have "i \<in> set (load_indexed_project_files idx' p)" unfolding mem mem' rows .
      with i(2) show ?thesis by blast
    qed
  }
qed

lemma repair_converges:
  assumes "repairable E d p found mt idx"
    "collect_jsonl_files (index_modified E) d (sessions_dir E @ 47 # encoded_session_dir p) = Ok found"
    "repair_project_from_jsonl E d p idx = (Ok (), idx')"
  shows "build_repair_plan found (load_indexed_project_files idx' p) = \<lparr>stale_session_ids = [], files_to_refresh = []\<rparr>"
proof -
  define indexed where "indexed = load_indexed_project_files idx p"
  define plan where "plan = build_repair_plan found indexed"
  have loop: "refresh_loop E d indexed (files_to_refresh plan)
      (fold delete_session_rows (stale_session_ids plan) idx) = (Ok (), idx')"
    using assms(2,3) by (simp add: repair_project_from_jsonl_def Let_def indexed_def plan_def)
  have "index_ok idx" using assms(1) by (simp add: repairable_def)
  from index_ok_repair[OF this assms(3)] have ok': "index_ok idx'" .
  note rows = repaired_rows[OF assms(1) ok' indexed_def plan_def
      repair_refreshed[OF assms(1) indexed_def plan_def loop]]
  have paths: "\<forall>f\<in>set found. \<forall>g\<in>set found. found_path f = found_path g \<longrightarrow> f = g"
    using assms(1) by (auto simp: repairable_def distinct_map dest: inj_onD)
  have "indexed_path i \<in> found_path ` set found" if "i \<in> set (load_indexed_project_files idx' p)" for i
    using rows(1)[OF that] by auto
  moreover have "\<exists>i. indexed_by_path (load_indexed_project_files idx' p) (found_path f) = Some i
      \<and> indexed_fp i = Some (found_fp f)" if f: "f \<in> set found" for f
  proof -
    from rows(2)[OF f] obtain i where "indexed_by_path (load_indexed_project_files idx' p) (found_path f) = Some i"
      using indexed_by_path_None[of "load_indexed_project_files idx' p" "found_path f"]
      by (cases "indexed_by_path (load_indexed_project_files idx' p) (found_path f)") (auto simp: image_iff)
    moreover from indexed_by_path_mem[OF this] rows(1)[of i] paths f have "indexed_fp i = Some (found_fp f)" by auto
    ultimately show ?thesis by blast
  qed
  ultimately show ?thesis
    by (auto simp: build_repair_plan_def filter_empty_conv split: option.splits) (metis option.inject)
qed

section \<open>A rebuild stops at the first unreadable file\<close>

lemma store_extracted_keys:
  "store_extracted idx x = (r, idx') \<Longrightarrow>
     dom (map_of (session_rows idx')) \<subseteq> insert (meta_session_id (fst x)) (dom (map_of (session_rows idx)))"
  by (auto simp: store_extracted_def upsert_session_row_def upsert_repair_state_def AList.update_conv'
      and_then_eq_Ok split: sum.splits if_splits)

definition extracted_ids :: "index_env \<Rightarrow> disk \<Rightarrow> discovered_file list \<Rightarrow> session_id set" where
  "extracted_ids E d fs =
     {meta_session_id (fst x) |f x. f \<in> set fs \<and> extract_session_meta E d f = Ok x}"

lemma rebuild_loop_stops:
  assumes "rebuild_loop E d (good @ bad # rest) n idx = (r, idx')" "extract_session_meta E d bad = Err err"
  shows "(\<exists>e. r = Err e)
     \<and> dom (map_of (session_rows idx')) \<subseteq> dom (map_of (session_rows idx)) \<union> extracted_ids E d good"
  using assms(1)
proof (induction good arbitrary: n idx)
  case Nil
  with assms(2) show ?case by auto
next
  case (Cons f good)
  have more: "extracted_ids E d good \<subseteq> extracted_ids E d (f # good)" by (auto simp: extracted_ids_def)
  show ?case
  proof (cases "extract_session_meta E d f")
    case (Inl e)
    with Cons.prems show ?thesis by auto
  next
    case (Inr x)
    obtain q idx1 where store: "store_extracted idx x = (q, idx1)" by (rule prod.exhaust)
    have this_id: "meta_session_id (fst x) \<in> extracted_ids E d (f # good)"
      unfolding extracted_ids_def by (intro CollectI exI[of _ f] exI[of _ x]) (simp add: Inr)
    show ?thesis
    proof (cases q)
      case (Inl e)
      with Cons.prems \<open>extract_session_meta E d f = Inr x\<close> store have "r = Err e" "idx' = idx1" by simp_all
      with store_extracted_keys[OF store] this_id show ?thesis by blast
    next
      case (Inr u)
      with Cons.prems \<open>extract_session_meta E d f = Inr x\<close> store
      have "rebuild_loop E d (good @ bad # rest) (Suc n) idx1 = (r, idx')" by simp
      from Cons.IH[OF this] store_extracted_keys[OF store] this_id more show ?thesis by blast
    qed
  qed
qed

section \<open>The catalogue agrees with the loader\<close>

text \<open>Scanning with a visitor that cannot fail computes the visitor's fold over the loaded entries.\<close>

lemma scan_loop_visit:
  "scan_loop C (\<lambda>loaded e. Ok (loaded @ [e])) seen loaded bs = Ok (seen', loaded') \<Longrightarrow>
     scan_loop C (\<lambda>d e. Ok (v d e)) seen (foldl v d0 loaded) bs = Ok (seen', foldl v d0 loaded')"
proof (induction C "\<lambda>loaded (e :: session_entry). Ok (loaded @ [e]) :: store_error + session_entry list"
    seen loaded bs rule: scan_loop.induct)
  case (1 C seen loaded bs)
  obtain line_bytes rest where cut: "read_until 10 bs = (line_bytes, rest)" by (rule prod.exhaust)
  obtain line nl where strip: "strip_newline line_bytes = (line, nl)" by (rule prod.exhaust)
  note unfold = scan_loop.simps[where reader = bs] cut strip
  show ?case
  proof (cases "line_bytes = []")
    case True
    with "1.prems" show ?thesis by (auto simp: unfold)
  next
    case nonempty: False
    note IH = "1.hyps"[OF refl refl, unfolded cut fst_conv snd_conv strip, OF nonempty refl refl]
    show ?thesis
    proof (cases "line = []")
      case True
      with "1.prems" nonempty IH(1) show ?thesis by (simp add: unfold)
    next
      case False
      show ?thesis
      proof (cases "utf8_decode line")
        case None
        with "1.prems" nonempty False IH(2)[OF False None] show ?thesis by (auto simp: unfold split: if_splits)
      next
        case (Some decoded)
        show ?thesis
        proof (cases "from_json C decoded")
          case None
          with "1.prems" nonempty False Some IH(3)[OF False Some None] show ?thesis
            by (auto simp: unfold split: if_splits)
        next
          case parsed: (Some e)
          show ?thesis
          proof (cases "entry_id e \<in> seen")
            case True
            with "1.prems" nonempty False Some parsed IH(5)[OF False Some parsed] show ?thesis by (simp add: unfold)
          next
            case new: False
            have "scan_loop C (\<lambda>loaded e. Ok (loaded @ [e])) (insert (entry_id e) seen) (loaded @ [e]) rest = Ok (seen', loaded')"
              using "1.prems" nonempty False Some parsed new by (simp add: unfold)
            with IH(4)[OF False Some parsed new refl] show ?thesis
              using nonempty False Some parsed new by (simp add: unfold)
          qed
        qed
      qed
    qed
  qed
qed

lemma scan_file_visit:
  assumes "load_file C f = Ok entries"
  shows "scan_file C (\<lambda>d e. Ok (v d e)) d0 f = Ok (foldl v d0 entries)"
proof -
  from assms obtain content seen where "f = Some content"
    "scan_loop C (\<lambda>loaded e. Ok (loaded @ [e])) {} [] content = Ok (seen, entries)"
    by (cases f) (auto simp: load_file_def scan_entries_def and_then_eq_Ok)
  with scan_loop_visit[OF this(2), of v d0] show ?thesis by (simp add: scan_file_def scan_entries_def)
qed

lemma extract_derives:
  assumes "load_file (index_codec E) (map_of d (found_path f)) = Ok entries"
  shows "extract_session_meta E d f =
     and_then (derive_session_meta (show_uuid (index_platform E)) (canonicalize (index_platform E)) entries
        (found_path f) (Some (fp_size (found_fp f)))) (\<lambda>m. Ok (m, found_fp f))"
  by (simp add: extract_session_meta_def scan_file_visit[OF assms] derive_session_meta_def)

lemma repair_paths:
  assumes "repairable E d p found mt idx"
    "collect_jsonl_files (index_modified E) d (sessions_dir E @ 47 # encoded_session_dir p) = Ok found"
    "repair_project_from_jsonl E d p idx = (Ok (), idx')"
  shows "meta_jsonl_path ` set (list_session_rows show_id idx' p) = found_path ` set found"
proof -
  define indexed where "indexed = load_indexed_project_files idx p"
  define plan where "plan = build_repair_plan found indexed"
  have loop: "refresh_loop E d indexed (files_to_refresh plan)
      (fold delete_session_rows (stale_session_ids plan) idx) = (Ok (), idx')"
    using assms(2,3) by (simp add: repair_project_from_jsonl_def Let_def indexed_def plan_def)
  have "index_ok idx" using assms(1) by (simp add: repairable_def)
  from index_ok_repair[OF this assms(3)] have ok': "index_ok idx'" .
  note rows = repaired_rows[OF assms(1) ok' indexed_def plan_def
      repair_refreshed[OF assms(1) indexed_def plan_def loop]]
  have "meta_jsonl_path ` set (list_session_rows show_id idx' p)
      = indexed_path ` set (load_indexed_project_files idx' p)"
    by (simp add: list_session_rows_def load_indexed_project_files_def row_to_session_meta_def image_image case_prod_unfold)
  also have "\<dots> = found_path ` set found"
  proof
    show "indexed_path ` set (load_indexed_project_files idx' p) \<subseteq> found_path ` set found"
      using rows(1) by auto
    show "found_path ` set found \<subseteq> indexed_path ` set (load_indexed_project_files idx' p)"
      using rows(2) by (metis image_eqI image_subsetI)
  qed
  finally show ?thesis .
qed

lemma repair_again:
  assumes "repairable E d p found mt idx"
    "collect_jsonl_files (index_modified E) d (sessions_dir E @ 47 # encoded_session_dir p) = Ok found"
    "repair_project_from_jsonl E d p idx = (Ok (), idx')"
  shows "repair_project_from_jsonl E d p idx' = (Ok (), idx')"
  using repair_converges[OF assms] assms(2) by (simp add: repair_project_from_jsonl_def)

end
