(* ===== verification/Local_Store.thy ===== *)
theory Local_Store
  imports Recorder Metadata_Index
begin

text \<open>
  The session store on disk, \<^verbatim>\<open>session-store/src/store/local.rs\<close> and \<^verbatim>\<open>store/local/commands.rs\<close>: a
  handle per open session with its recorder and its view of the log, a bounded number of open
  handles, and the catalogue.  Every operation that changes a session holds its lock, so the
  operations are atomic, and their calls of the recorder are answered before they return; the
  recorder is therefore driven to its answer in one go (\<open>recorder_call\<close>).  The failures of the
  file system are drawn from the stream \<open>io_faults\<close>.  The message history and the prompt
  assembly of the store are those of the catalogue and not repeated here.
\<close>

section \<open>The state behind a handle\<close>

record local_session_state =
  state_entries :: "session_entry list"
  state_ids :: "ustring set"
  pending_state :: "session_entry list"
  state_meta :: session_meta

record local_handle =
  handle_path :: ustring
  handle_recorder :: recorder
  handle_state :: local_session_state

text \<open>\<^verbatim>\<open>derive_store_session_meta\<close> asks the file system for the size of the log.\<close>

definition local_session_meta ::
  "platform \<Rightarrow> bytes option \<Rightarrow> session_entry list \<Rightarrow> ustring \<Rightarrow> store_error + session_meta" where
  "local_session_meta P f entries path =
     derive_store_session_meta (P\<lparr>file_size := (\<lambda>_. map_option length f)\<rparr>) entries path"

definition new_handle ::
  "platform \<Rightarrow> ustring \<Rightarrow> bytes option \<Rightarrow> session_entry list \<Rightarrow> store_error + local_handle" where
  "new_handle P path f entries =
     and_then (local_session_meta P f entries path) (\<lambda>m.
       Ok \<lparr>handle_path = path, handle_recorder = new_recorder f,
           handle_state = \<lparr>state_entries = entries, state_ids = entry_ids entries, pending_state = [],
             state_meta = m\<rparr>\<rparr>)"

definition push_entry ::
  "platform \<Rightarrow> bytes option \<Rightarrow> ustring \<Rightarrow> session_entry \<Rightarrow> local_session_state
     \<Rightarrow> (store_error + unit) \<times> local_session_state" where
  "push_entry P f path e s =
     (if entry_id e \<in> state_ids s then (Err (StoreDuplicateId (entry_id e)), s)
      else
        let s = s\<lparr>state_ids := insert (entry_id e) (state_ids s), state_entries := state_entries s @ [e]\<rparr>
        in case local_session_meta P f (state_entries s) path of
             Inl err \<Rightarrow> (Err err, s)
           | Inr m \<Rightarrow> (Ok (), s\<lparr>state_meta := m\<rparr>))"

fun push_entries ::
  "platform \<Rightarrow> bytes option \<Rightarrow> ustring \<Rightarrow> session_entry list \<Rightarrow> local_session_state
     \<Rightarrow> (store_error + unit) \<times> local_session_state" where
  "push_entries P f path [] s = (Ok (), s)"
| "push_entries P f path (e # es) s =
     (case push_entry P f path e s of
        (Inl err, s) \<Rightarrow> (Err err, s)
      | (Inr _, s) \<Rightarrow> push_entries P f path es s)"

definition push_pending_state_entry ::
  "session_entry \<Rightarrow> local_session_state \<Rightarrow> (store_error + unit) \<times> local_session_state" where
  "push_pending_state_entry e s =
     (if entry_id e \<in> state_ids s \<or> entry_id e \<in> entry_id ` set (pending_state s)
      then (Err (StoreDuplicateId (entry_id e)), s)
      else (Ok (), s\<lparr>pending_state := pending_state s @ [e]\<rparr>))"

fun push_pending_state_entries ::
  "session_entry list \<Rightarrow> local_session_state \<Rightarrow> (store_error + unit) \<times> local_session_state" where
  "push_pending_state_entries [] s = (Ok (), s)"
| "push_pending_state_entries (e # es) s =
     (case push_pending_state_entry e s of
        (Inl err, s) \<Rightarrow> (Err err, s)
      | (Inr _, s) \<Rightarrow> push_pending_state_entries es s)"

definition commit_pending_state_entries ::
  "platform \<Rightarrow> bytes option \<Rightarrow> ustring \<Rightarrow> local_session_state
     \<Rightarrow> (store_error + unit) \<times> local_session_state" where
  "commit_pending_state_entries P f path s =
     (if pending_state s = [] then (Ok (), s)
      else push_entries P f path (pending_state s) (s\<lparr>pending_state := []\<rparr>))"

definition require_existing_entry :: "local_session_state \<Rightarrow> ustring \<Rightarrow> store_error + unit" where
  "require_existing_entry s leaf =
     (if leaf \<in> state_ids s then Ok () else Err (ResolveFailed (LeafNotFound leaf)))"

section \<open>Calls of the recorder\<close>

text \<open>
  With one client the channel holds at most buffered entries before the command that is waited
  for; the worker handles them and then the command, whose answer ends the call.
\<close>

fun handle_commands ::
  "codec \<Rightarrow> io_fault \<Rightarrow> record_command list \<Rightarrow> recorder_worker \<Rightarrow> bytes option
     \<Rightarrow> (store_error + unit) option \<times> recorder_worker \<times> bytes option" where
  "handle_commands C fault [] w f = (None, w, f)"
| "handle_commands C fault (c # cs) w f =
     (case handle_command C fault c w f of
        (answer, _, w, f) \<Rightarrow>
          (if cs = [] then (answer, w, f) else handle_commands C fault cs w f))"

definition recorder_call ::
  "codec \<Rightarrow> io_fault \<Rightarrow> record_command \<Rightarrow> recorder \<Rightarrow> (store_error + unit) \<times> recorder" where
  "recorder_call C fault c r =
     (if \<not> running r \<or> \<not> alive r then (Err ChannelClosed, r)
      else case handle_commands C fault (channel r @ [c]) (worker r) (log_file r) of
             (answer, w, f) \<Rightarrow>
               ((case answer of None \<Rightarrow> Err ChannelClosed | Some result \<Rightarrow> result),
                r\<lparr>channel := [], worker := w, log_file := f\<rparr>))"

definition recorder_shutdown ::
  "codec \<Rightarrow> io_fault \<Rightarrow> recorder \<Rightarrow> (store_error + unit) \<times> recorder" where
  "recorder_shutdown C fault r =
     (case take_running_state r of
        None \<Rightarrow> (Ok (), r)
      | Some r' \<Rightarrow>
          if \<not> alive r' then (Err ChannelClosed, r'\<lparr>closing := False\<rparr>)
          else case handle_commands C fault (channel r' @ [Shutdown]) (worker r') (log_file r') of
             (answer, w, f) \<Rightarrow>
               ((case answer of None \<Rightarrow> Err ChannelClosed | Some result \<Rightarrow> result),
                r'\<lparr>closing := False, alive := False, channel := [], worker := w, log_file := f\<rparr>))"

definition flush_recorder_and_commit_pending ::
  "platform \<Rightarrow> codec \<Rightarrow> io_fault \<Rightarrow> local_handle \<Rightarrow> (store_error + unit) \<times> local_handle" where
  "flush_recorder_and_commit_pending P C fault h =
     (case recorder_call C fault Flush (handle_recorder h) of
        (Inl err, r) \<Rightarrow> (Err err, h\<lparr>handle_recorder := r\<rparr>)
      | (Inr _, r) \<Rightarrow>
          (case commit_pending_state_entries P (log_file r) (handle_path h) (handle_state h) of
             (result, s) \<Rightarrow> (result, h\<lparr>handle_recorder := r, handle_state := s\<rparr>)))"

definition recover_pending_state_entries ::
  "platform \<Rightarrow> codec \<Rightarrow> io_fault \<Rightarrow> local_handle \<Rightarrow> (store_error + unit) \<times> local_handle" where
  "recover_pending_state_entries P C fault h =
     (if pending_state (handle_state h) = [] then (Ok (), h)
      else flush_recorder_and_commit_pending P C fault h)"

definition shutdown_handle ::
  "platform \<Rightarrow> codec \<Rightarrow> io_fault \<Rightarrow> local_handle \<Rightarrow> (store_error + session_meta) \<times> local_handle" where
  "shutdown_handle P C fault h =
     (case recorder_shutdown C fault (handle_recorder h) of
        (Inl err, r) \<Rightarrow> (Err err, h\<lparr>handle_recorder := r\<rparr>)
      | (Inr _, r) \<Rightarrow>
          (case commit_pending_state_entries P (log_file r) (handle_path h) (handle_state h) of
             (Inl err, s) \<Rightarrow> (Err err, h\<lparr>handle_recorder := r, handle_state := s\<rparr>)
           | (Inr _, s) \<Rightarrow> (Ok (state_meta s), h\<lparr>handle_recorder := r, handle_state := s\<rparr>)))"

section \<open>The store\<close>

record local_env =
  local_index_env :: index_env
  hunea_dir :: ustring
  io_faults :: "nat \<Rightarrow> io_fault"
  hash_order :: "session_id list \<Rightarrow> session_id list"

record local_store =
  recorders :: "(session_id \<times> local_handle) list"
  index :: metadata_index
  store_disk :: disk
  faults_used :: nat

type_synonym 'r local_reply = "((store_error + 'r) \<times> local_store \<times> cursor) option"

abbreviation env_platform :: "local_env \<Rightarrow> platform" where
  "env_platform E \<equiv> index_platform (local_index_env E)"

abbreviation env_codec :: "local_env \<Rightarrow> codec" where
  "env_codec E \<equiv> index_codec (local_index_env E)"

abbreviation next_fault :: "local_env \<Rightarrow> local_store \<Rightarrow> io_fault" where
  "next_fault E st \<equiv> io_faults E (faults_used st)"

definition max_open_session_handles :: nat where "max_open_session_handles = 64"

text \<open>What a handle wrote is on the disk; a fault was consumed.\<close>

definition sync_disk :: "local_handle \<Rightarrow> local_store \<Rightarrow> local_store" where
  "sync_disk h st = st\<lparr>faults_used := Suc (faults_used st),
     store_disk := (case log_file (handle_recorder h) of
                      None \<Rightarrow> store_disk st
                    | Some content \<Rightarrow> AList.update (handle_path h) content (store_disk st))\<rparr>"

definition put_handle :: "session_id \<Rightarrow> local_handle \<Rightarrow> local_store \<Rightarrow> local_store" where
  "put_handle sid h st = (sync_disk h st)\<lparr>recorders := AList.update sid h (recorders st)\<rparr>"

definition upsert_index :: "session_meta \<Rightarrow> local_store \<Rightarrow> (store_error + unit) \<times> local_store" where
  "upsert_index m st =
     (case upsert_session_row (index st) m of
        Inl err \<Rightarrow> (Err err, st)
      | Inr idx \<Rightarrow> (Ok (), st\<lparr>index := idx\<rparr>))"

definition open_in :: "local_env \<Rightarrow> disk \<Rightarrow> metadata_index option \<Rightarrow> (store_error + local_store) \<times> metadata_index" where
  "open_in E d existing =
     (case existing of
        Some idx \<Rightarrow> (Ok \<lparr>recorders = [], index = idx, store_disk = d, faults_used = 0\<rparr>, idx)
      | None \<Rightarrow>
          (case rebuild_index_from_jsonl (local_index_env E) d empty_index of
             (Inl err, idx) \<Rightarrow> (Err err, idx)
           | (Inr _, idx) \<Rightarrow> (Ok \<lparr>recorders = [], index = idx, store_disk = d, faults_used = 0\<rparr>, idx)))"

text \<open>Hash maps have no order; \<open>hash_order\<close> is the one the map iterates in.\<close>

definition evict_idle_recorders ::
  "local_env \<Rightarrow> session_id \<Rightarrow> (session_id \<times> local_handle) list
     \<Rightarrow> local_handle list \<times> (session_id \<times> local_handle) list" where
  "evict_idle_recorders E keep rs =
     (let overflow = length rs - max_open_session_handles
      in if overflow = 0 then ([], rs)
         else
           let victims = take overflow (filter (\<lambda>sid. sid \<noteq> keep) (hash_order E (map fst rs)))
           in (filter_map (map_of rs) victims, filter (\<lambda>(sid, h). sid \<notin> set victims) rs))"

text \<open>A handle that is dropped shuts its recorder down and ignores the outcome.\<close>

definition drop_handle :: "local_env \<Rightarrow> local_handle \<Rightarrow> local_store \<Rightarrow> local_store" where
  "drop_handle E h st =
     (case recorder_shutdown (env_codec E) (next_fault E st) (handle_recorder h) of
        (_, r) \<Rightarrow> sync_disk (h\<lparr>handle_recorder := r\<rparr>) st)"

text \<open>An error ends the loop; the handles behind it are dropped.\<close>

fun shutdown_evicted_recorders ::
  "local_env \<Rightarrow> local_handle list \<Rightarrow> local_store \<Rightarrow> (store_error + unit) \<times> local_store" where
  "shutdown_evicted_recorders E [] st = (Ok (), st)"
| "shutdown_evicted_recorders E (h # hs) st =
     (case shutdown_handle (env_platform E) (env_codec E) (next_fault E st) h of
        (Inl err, h) \<Rightarrow> (Err err, fold (drop_handle E) hs (sync_disk h st))
      | (Inr m, h) \<Rightarrow>
          (case upsert_index m (sync_disk h st) of
             (Inl err, st) \<Rightarrow> (Err err, fold (drop_handle E) hs st)
           | (Inr _, st) \<Rightarrow> shutdown_evicted_recorders E hs st))"

definition admit_handle ::
  "local_env \<Rightarrow> session_id \<Rightarrow> local_handle \<Rightarrow> local_store \<Rightarrow> (store_error + unit) \<times> local_store" where
  "admit_handle E sid h st =
     (case evict_idle_recorders E sid (AList.update sid h (recorders st)) of
        (evicted, rs) \<Rightarrow> shutdown_evicted_recorders E evicted (st\<lparr>recorders := rs\<rparr>))"

definition handle_for_session ::
  "local_env \<Rightarrow> session_id \<Rightarrow> local_store \<Rightarrow> (store_error + local_handle) \<times> local_store" where
  "handle_for_session E sid st =
     (case map_of (recorders st) sid of
        Some h \<Rightarrow> (Ok h, st)
      | None \<Rightarrow>
          (case get_session_meta_row (index st) sid of
             Inl err \<Rightarrow> (Err err, st)
           | Inr m \<Rightarrow>
               (let f = map_of (store_disk st) (meta_jsonl_path m)
                in case load_file (env_codec E) f of
                     Inl err \<Rightarrow> (Err err, st)
                   | Inr entries \<Rightarrow>
                       if entries = [] then (Err MissingHeader, st)
                       else case new_handle (env_platform E) (meta_jsonl_path m) f entries of
                              Inl err \<Rightarrow> (Err err, st)
                            | Inr h \<Rightarrow>
                                (case admit_handle E sid h st of
                                   (Inl err, st) \<Rightarrow> (Err err, st)
                                 | (Inr _, st) \<Rightarrow> (Ok h, st)))))"

section \<open>Changing a session\<close>

text \<open>\<^verbatim>\<open>while batch_entry_ids.contains(&id)\<close> draws again, possibly for ever.\<close>

partial_function (option) unused_id_loop ::
  "platform \<Rightarrow> ustring set \<Rightarrow> ustring set \<Rightarrow> cursor \<Rightarrow> (ustring \<times> cursor) option" where
  "unused_id_loop pf ids batch c =
     (case generate_entry_id pf ids c of
        None \<Rightarrow> None
      | Some x \<Rightarrow> if fst x \<in> batch then unused_id_loop pf ids batch (snd x) else Some x)"

fun build_batch ::
  "platform \<Rightarrow> ustring set \<Rightarrow> ustring set \<Rightarrow> ustring option \<times> ustring option \<Rightarrow> entry_kind list
     \<Rightarrow> session_entry list \<Rightarrow> cursor \<Rightarrow> ((store_error + session_entry list) \<times> cursor) option" where
  "build_batch P ids batch projection [] entries c = Some (Ok entries, c)"
| "build_batch P ids batch projection (k # ks) entries c =
     (case unused_id_loop P ids batch c of
        None \<Rightarrow> None
      | Some (i, c) \<Rightarrow>
          (case current_timestamp_ms P c of
             (Inl err, c) \<Rightarrow> Some (Err err, c)
           | (Inr ts, c) \<Rightarrow>
               (let e = \<lparr>entry_id = i, parent_id = fst projection, timestamp = ts, kind = k\<rparr>
                in build_batch P ids (insert i batch) (update_append_projection e projection) ks
                     (entries @ [e]) c)))"

text \<open>The end of both \<^verbatim>\<open>append_entries\<close> and \<^verbatim>\<open>set_leaf\<close>.\<close>

definition persist_new_entries ::
  "local_env \<Rightarrow> session_id \<Rightarrow> local_handle \<Rightarrow> session_entry list \<Rightarrow> local_store
     \<Rightarrow> (store_error + unit) \<times> local_store" where
  "persist_new_entries E sid h es st =
     (case buffer_many es (handle_recorder h) of
        (Inl err, _) \<Rightarrow> (Err err, st)
      | (Inr _, r) \<Rightarrow>
          (case recorder_call (env_codec E) (next_fault E st) Persist r of
             (Inl err, r) \<Rightarrow>
               (case push_pending_state_entries es (handle_state h) of
                  (pushed, s) \<Rightarrow>
                    (and_then pushed (\<lambda>_. Err err),
                     put_handle sid (h\<lparr>handle_recorder := r, handle_state := s\<rparr>) st))
           | (Inr _, r) \<Rightarrow>
               (case push_entries (env_platform E) (log_file r) (handle_path h) es (handle_state h) of
                  (Inl err, s) \<Rightarrow> (Err err, put_handle sid (h\<lparr>handle_recorder := r, handle_state := s\<rparr>) st)
                | (Inr _, s) \<Rightarrow>
                    upsert_index (state_meta s)
                      (put_handle sid (h\<lparr>handle_recorder := r, handle_state := s\<rparr>) st))))"

text \<open>The start of both: the handle, with earlier failed entries recovered.\<close>

definition handle_for_change ::
  "local_env \<Rightarrow> session_id \<Rightarrow> local_store \<Rightarrow> (store_error + local_handle) \<times> local_store" where
  "handle_for_change E sid st =
     (case handle_for_session E sid st of
        (Inl err, st) \<Rightarrow> (Err err, st)
      | (Inr h, st) \<Rightarrow>
          (case recover_pending_state_entries (env_platform E) (env_codec E) (next_fault E st) h of
             (Inl err, h) \<Rightarrow> (Err err, put_handle sid h st)
           | (Inr _, h) \<Rightarrow>
               if state_entries (handle_state h) = [] then (Err (SessionNotFound sid), put_handle sid h st)
               else (Ok h, put_handle sid h st)))"

definition local_append_entries ::
  "local_env \<Rightarrow> session_id \<Rightarrow> entry_kind list \<Rightarrow> local_store \<Rightarrow> cursor \<Rightarrow> ustring list local_reply" where
  "local_append_entries E sid kinds st c =
     (if kinds = [] then Some (Ok [], st, c)
      else case validate_append_kinds kinds of
        Inl err \<Rightarrow> Some (Err err, st, c)
      | Inr _ \<Rightarrow>
          (case handle_for_change E sid st of
             (Inl err, st) \<Rightarrow> Some (Err err, st, c)
           | (Inr h, st) \<Rightarrow>
               (let entries = state_entries (handle_state h)
                in case build_batch (env_platform E) (state_ids (handle_state h)) {}
                          (append_parent_id entries, latest_non_leaf_id entries) kinds [] c of
                     None \<Rightarrow> None
                   | Some (Inl err, c) \<Rightarrow> Some (Err err, st, c)
                   | Some (Inr es, c) \<Rightarrow>
                       (case persist_new_entries E sid h es st of
                          (r, st) \<Rightarrow> Some (and_then r (\<lambda>_. Ok (map entry_id es)), st, c)))))"

definition local_append_entry ::
  "local_env \<Rightarrow> session_id \<Rightarrow> entry_kind \<Rightarrow> local_store \<Rightarrow> cursor \<Rightarrow> ustring local_reply" where
  "local_append_entry E sid k st c =
     map_option (\<lambda>(r, st, c). (and_then r (\<lambda>ids. ok_or CorruptIndex (last_opt ids)), st, c))
       (local_append_entries E sid [k] st c)"

definition local_set_leaf ::
  "local_env \<Rightarrow> session_id \<Rightarrow> ustring option \<Rightarrow> local_store \<Rightarrow> cursor \<Rightarrow> unit local_reply" where
  "local_set_leaf E sid leaf st c =
     (case handle_for_change E sid st of
        (Inl err, st) \<Rightarrow> Some (Err err, st, c)
      | (Inr h, st) \<Rightarrow>
          (case (case leaf of None \<Rightarrow> Ok () | Some i \<Rightarrow> require_existing_entry (handle_state h) i) of
             Inl err \<Rightarrow> Some (Err err, st, c)
           | Inr _ \<Rightarrow>
               (case generate_entry_id (env_platform E) (state_ids (handle_state h)) c of
                  None \<Rightarrow> None
                | Some (i, c) \<Rightarrow>
                    (case current_timestamp_ms (env_platform E) c of
                       (Inl err, c) \<Rightarrow> Some (Err err, st, c)
                     | (Inr ts, c) \<Rightarrow>
                         (let e = \<lparr>entry_id = i, parent_id = latest_non_leaf_id (state_entries (handle_state h)),
                                   timestamp = ts, kind = Leaf leaf\<rparr>
                          in case persist_new_entries E sid h [e] st of (r, st) \<Rightarrow> Some (r, st, c))))))"

definition header_entry_id :: ustring where "header_entry_id = lit ''header''"

definition session_jsonl_path :: "local_env \<Rightarrow> ustring \<Rightarrow> session_id \<Rightarrow> ustring" where
  "session_jsonl_path E wd sid =
     hunea_dir E @ 47 # lit ''sessions'' @ 47 # encoded_session_dir (canonicalize (env_platform E) wd)
       @ 47 # session_filename (show_uuid (env_platform E)) sid"

definition local_create_session ::
  "local_env \<Rightarrow> session_header \<Rightarrow> local_store \<Rightarrow> cursor \<Rightarrow> session_id local_reply" where
  "local_create_session E header st c =
     (case new_session_id (env_platform E) c of (sid, c) \<Rightarrow>
      (case current_timestamp_ms (env_platform E) c of
         (Inl err, c) \<Rightarrow> Some (Err err, st, c)
       | (Inr ts, c) \<Rightarrow>
           (let path = session_jsonl_path E (work_dir header) sid;
                e = \<lparr>entry_id = header_entry_id, parent_id = None, timestamp = ts,
                     kind = Header (header\<lparr>header_session_id := sid\<rparr>)\<rparr>
            in case new_handle (env_platform E) path (map_of (store_disk st) path) [e] of
                 Inl err \<Rightarrow> Some (Err err, st, c)
               | Inr h \<Rightarrow>
                   (case buffer_many [e] (handle_recorder h) of
                      (Inl err, r) \<Rightarrow> Some (Err err, drop_handle E (h\<lparr>handle_recorder := r\<rparr>) st, c)
                    | (Inr _, r) \<Rightarrow>
                        (case recorder_call (env_codec E) (next_fault E st) Persist r of
                           (Inl err, r) \<Rightarrow>
                             (let h = h\<lparr>handle_recorder := r\<rparr>
                              in Some (Err err, drop_handle E h (sync_disk h st), c))
                         | (Inr _, r) \<Rightarrow>
                             (let h = h\<lparr>handle_recorder := r\<rparr>
                              in case admit_handle E sid h (sync_disk h st) of
                                   (Inl err, st) \<Rightarrow> Some (Err err, st, c)
                                 | (Inr _, st) \<Rightarrow>
                                     (case upsert_index (state_meta (handle_state h)) st of
                                        (r, st) \<Rightarrow> Some (and_then r (\<lambda>_. Ok sid), st, c))))))))"

definition local_append ::
  "local_env \<Rightarrow> session_id \<Rightarrow> conversation_item \<Rightarrow> local_store \<Rightarrow> cursor \<Rightarrow> ustring local_reply" where
  "local_append E sid item st c = local_append_entry E sid (Item item) st c"

definition local_append_many ::
  "local_env \<Rightarrow> session_id \<Rightarrow> conversation_item list \<Rightarrow> local_store \<Rightarrow> cursor \<Rightarrow> ustring list local_reply" where
  "local_append_many E sid its st c = local_append_entries E sid (map Item its) st c"

definition local_append_config_change ::
  "local_env \<Rightarrow> session_id \<Rightarrow> config_snapshot \<Rightarrow> local_store \<Rightarrow> cursor \<Rightarrow> unit local_reply" where
  "local_append_config_change E sid snapshot st c =
     map_option (\<lambda>(r, st, c). (and_then r (\<lambda>_. Ok ()), st, c))
       (local_append_entry E sid (ConfigChange snapshot) st c)"

definition local_append_transcript_replay ::
  "local_env \<Rightarrow> session_id \<Rightarrow> replay_item \<Rightarrow> local_store \<Rightarrow> cursor \<Rightarrow> ustring local_reply" where
  "local_append_transcript_replay E sid item st c = local_append_entry E sid (TranscriptReplay item) st c"

section \<open>Queries, catalogue, flush and shutdown\<close>

text \<open>A query may open the session, which changes the store.\<close>

definition local_resolve ::
  "local_env \<Rightarrow> session_id \<Rightarrow> ustring option \<Rightarrow> local_store
     \<Rightarrow> (store_error + conversation_item list) \<times> local_store" where
  "local_resolve E sid leaf st =
     (case handle_for_session E sid st of (h, st) \<Rightarrow>
        (and_then h (\<lambda>h. query_items (state_entries (handle_state h)) leaf), st))"

definition local_load_session ::
  "local_env \<Rightarrow> session_id \<Rightarrow> ustring option \<Rightarrow> local_store \<Rightarrow> (store_error + resolved_state) \<times> local_store" where
  "local_load_session E sid leaf st =
     (case handle_for_session E sid st of (h, st) \<Rightarrow>
        (and_then h (\<lambda>h. query_state (state_entries (handle_state h)) leaf), st))"

definition local_tree_query ::
  "local_env \<Rightarrow> session_id \<Rightarrow> (session_entry list \<Rightarrow> (resolve_error, 'r) outcome) \<Rightarrow> local_store
     \<Rightarrow> (store_error, 'r) outcome \<times> local_store" where
  "local_tree_query E sid f st =
     (case handle_for_session E sid st of
        (Inl err, st) \<Rightarrow> (Some (Err err), st)
      | (Inr h, st) \<Rightarrow> (map_outcome_err resolve_store_error (f (state_entries (handle_state h))), st))"

definition local_load_session_tree ::
  "json_api \<Rightarrow> local_env \<Rightarrow> session_id \<Rightarrow> local_store \<Rightarrow> (store_error, tree_snapshot) outcome \<times> local_store" where
  "local_load_session_tree J E sid st = local_tree_query E sid (session_tree_snapshot J) st"

definition local_load_session_tree_for_leaf ::
  "json_api \<Rightarrow> local_env \<Rightarrow> session_id \<Rightarrow> ustring \<Rightarrow> local_store
     \<Rightarrow> (store_error, tree_snapshot) outcome \<times> local_store" where
  "local_load_session_tree_for_leaf J E sid leaf st =
     local_tree_query E sid (\<lambda>entries. session_tree_snapshot_for_leaf J entries leaf) st"

definition local_load_session_branch_preview ::
  "json_api \<Rightarrow> local_env \<Rightarrow> session_id \<Rightarrow> ustring \<Rightarrow> local_store
     \<Rightarrow> (store_error, tree_snapshot) outcome \<times> local_store" where
  "local_load_session_branch_preview J E sid branch st =
     local_tree_query E sid (\<lambda>entries. session_branch_preview_snapshot J entries branch) st"

definition local_load_session_branch_tree ::
  "json_api \<Rightarrow> local_env \<Rightarrow> session_id \<Rightarrow> local_store
     \<Rightarrow> (store_error, branch_tree_snapshot) outcome \<times> local_store" where
  "local_load_session_branch_tree J E sid st = local_tree_query E sid (session_branch_tree_snapshot J) st"

definition local_list_sessions ::
  "local_env \<Rightarrow> ustring \<Rightarrow> bool \<Rightarrow> local_store \<Rightarrow> (store_error + session_meta list) \<times> local_store" where
  "local_list_sessions E project_dir repair st =
     (case index_list_sessions (local_index_env E) (store_disk st) project_dir repair (index st) of
        (r, idx) \<Rightarrow> (r, st\<lparr>index := idx\<rparr>))"

definition local_get_session_meta :: "session_id \<Rightarrow> local_store \<Rightarrow> store_error + session_meta" where
  "local_get_session_meta sid st =
     (case map_of (recorders st) sid of
        Some h \<Rightarrow> Ok (state_meta (handle_state h))
      | None \<Rightarrow> get_session_meta_row (index st) sid)"

definition flush_handle ::
  "local_env \<Rightarrow> session_id \<Rightarrow> local_handle \<Rightarrow> local_store \<Rightarrow> (store_error + unit) \<times> local_store" where
  "flush_handle E sid h st =
     (case flush_recorder_and_commit_pending (env_platform E) (env_codec E) (next_fault E st) h of
        (Inl err, h) \<Rightarrow> (Err err, put_handle sid h st)
      | (Inr _, h) \<Rightarrow> upsert_index (state_meta (handle_state h)) (put_handle sid h st))"

definition local_flush :: "local_env \<Rightarrow> session_id \<Rightarrow> local_store \<Rightarrow> (store_error + unit) \<times> local_store" where
  "local_flush E sid st =
     (case handle_for_session E sid st of
        (Inl err, st) \<Rightarrow> (Err err, st)
      | (Inr h, st) \<Rightarrow> flush_handle E sid h st)"

fun flush_handles ::
  "local_env \<Rightarrow> (session_id \<times> local_handle) list \<Rightarrow> local_store \<Rightarrow> (store_error + unit) \<times> local_store" where
  "flush_handles E [] st = (Ok (), st)"
| "flush_handles E ((sid, h) # hs) st =
     (case flush_handle E sid h st of
        (Inl err, st) \<Rightarrow> (Err err, st)
      | (Inr _, st) \<Rightarrow> flush_handles E hs st)"

definition in_hash_order :: "local_env \<Rightarrow> (session_id \<times> local_handle) list \<Rightarrow> (session_id \<times> local_handle) list" where
  "in_hash_order E rs =
     filter_map (\<lambda>sid. map_option (Pair sid) (map_of rs sid)) (hash_order E (map fst rs))"

definition local_flush_all :: "local_env \<Rightarrow> local_store \<Rightarrow> (store_error + unit) \<times> local_store" where
  "local_flush_all E st = flush_handles E (in_hash_order E (recorders st)) st"

definition local_shutdown :: "local_env \<Rightarrow> local_store \<Rightarrow> (store_error + unit) \<times> local_store" where
  "local_shutdown E st =
     shutdown_evicted_recorders E (map snd (in_hash_order E (recorders st))) (st\<lparr>recorders := []\<rparr>)"

section \<open>One handle\<close>

text \<open>
  The entries of a handle are on disk; those of failed writes follow and wait in the recorder.
\<close>

definition accepted :: "local_handle \<Rightarrow> session_entry list" where
  "accepted h = state_entries (handle_state h) @ pending_state (handle_state h)"

definition handle_inv :: "codec \<Rightarrow> local_handle \<Rightarrow> bool" where
  "handle_inv C h \<longleftrightarrow>
     session_log (state_entries (handle_state h)) \<and> session_log (accepted h)
     \<and> state_ids (handle_state h) = entry_ids (state_entries (handle_state h))
     \<and> running (handle_recorder h) \<and> alive (handle_recorder h) \<and> channel (handle_recorder h) = []
     \<and> recorder_inv C (accepted h) (worker (handle_recorder h)) (log_file (handle_recorder h))
         (state_entries (handle_state h))"

lemma handle_inv_pending:
  "handle_inv C h \<Longrightarrow> pending_entries (worker (handle_recorder h)) = pending_state (handle_state h)"
  by (simp add: handle_inv_def recorder_inv_def accepted_def)

lemma handle_inv_distinct: "handle_inv C h \<Longrightarrow> distinct (map entry_id (accepted h))"
  using log_wf_distinct session_log_wf by (auto simp: handle_inv_def)

lemma recorder_call_answer:
  assumes "running r" "alive r" "channel r = [] \<and> w = worker r
      \<or> (\<exists>es. channel r = [Buffer es] \<and> w = (worker r)\<lparr>pending_entries := pending_entries (worker r) @ es\<rparr>)"
    "c = Persist \<or> c = Flush" "persist_pending C fault w (log_file r) = (result, w', f')"
  shows "recorder_call C fault c r = (result, r\<lparr>channel := [], worker := w', log_file := f'\<rparr>)"
  using assms by (auto simp: recorder_call_def handle_command_def)

lemma header_meta:
  assumes "session_log es"
  shows "\<exists>m. local_session_meta P f es path = Ok m \<and> meta_total_tokens m = 0 \<and> meta_jsonl_path m = path"
proof -
  from assms obtain x xs h where "es = x # xs" "kind x = Header h"
    by (cases es) (auto simp: session_log_def is_header_kind_def split: entry_kind.splits)
  then have "header_entry (foldl observe empty_deriver es) \<noteq> None"
  proof -
    have keep: "header_entry d \<noteq> None \<Longrightarrow> header_entry (foldl observe d ys) \<noteq> None" for d ys
      by (induction ys arbitrary: d) (auto simp: observe_def Let_def split: entry_kind.splits)
    show ?thesis using \<open>es = x # xs\<close> \<open>kind x = Header h\<close>
      by (simp del: not_None_eq) (rule keep, simp add: observe_def empty_deriver_def)
  qed
  then show ?thesis
    by (auto simp: local_session_meta_def derive_store_session_meta_def derive_session_meta_def finish_meta_def)
qed

lemma session_log_take:
  assumes "session_log (es @ new)" "es \<noteq> []"
  shows "session_log es"
proof -
  have "leaf_links es"
    unfolding leaf_links_def
  proof (intro allI impI)
    fix n assume n: "n < length es" "kind (es ! n) = Leaf None"
    from assms(1) have "leaf_links (es @ new)" by (simp add: session_log_def)
    with n show "parent_id (es ! n) = latest_non_leaf_id (take n es)"
      unfolding leaf_links_def by (auto simp: nth_append dest: spec[of _ n])
  qed
  with assms show ?thesis by (auto simp: session_log_def log_wf_append)
qed

lemma push_entries_Ok:
  assumes "session_log (state_entries s @ es)" "state_entries s \<noteq> []" "state_ids s = entry_ids (state_entries s)"
  shows "\<exists>s'. push_entries P f path es s = (Ok (), s') \<and> state_entries s' = state_entries s @ es
     \<and> state_ids s' = entry_ids (state_entries s') \<and> pending_state s' = pending_state s
     \<and> (es \<noteq> [] \<longrightarrow> meta_total_tokens (state_meta s') = 0)"
  using assms
proof (induction es arbitrary: s)
  case (Cons e es)
  let ?s = "s\<lparr>state_ids := insert (entry_id e) (state_ids s), state_entries := state_entries s @ [e]\<rparr>"
  have "session_log ((state_entries s @ [e]) @ es)" using Cons.prems(1) by simp
  from session_log_take[OF this] have log: "session_log (state_entries s @ [e])" by simp
  from header_meta[OF this, of P f path] obtain m where m: "local_session_meta P f (state_entries s @ [e]) path = Ok m"
    "meta_total_tokens m = 0" by blast
  have "entry_id e \<notin> state_ids s"
    using log_wf_distinct[OF session_log_wf[OF log]] Cons.prems(3) by (auto simp: entry_ids_def)
  with m have push: "push_entry P f path e s = (Ok (), ?s\<lparr>state_meta := m\<rparr>)"
    by (simp add: push_entry_def Let_def)
  show ?case
  proof (cases "es = []")
    case True
    with push m Cons.prems show ?thesis by (simp add: entry_ids_def)
  next
    case False
    with Cons.IH[of "?s\<lparr>state_meta := m\<rparr>"] Cons.prems push show ?thesis by (auto simp: entry_ids_def)
  qed
qed simp

lemma commit_pending_Ok:
  assumes "session_log (state_entries s @ pending_state s)" "state_entries s \<noteq> []"
    "state_ids s = entry_ids (state_entries s)"
  shows "\<exists>s'. commit_pending_state_entries P f path s = (Ok (), s')
     \<and> state_entries s' = state_entries s @ pending_state s
     \<and> state_ids s' = entry_ids (state_entries s') \<and> pending_state s' = []
     \<and> (pending_state s = [] \<longrightarrow> s' = s) \<and> (pending_state s \<noteq> [] \<longrightarrow> meta_total_tokens (state_meta s') = 0)"
  using push_entries_Ok[of "s\<lparr>pending_state := []\<rparr>" "pending_state s" P f path] assms
  by (auto simp: commit_pending_state_entries_def)

text \<open>Flushing: after an answer \<open>Ok\<close> nothing is pending, after an error nothing changed.\<close>

lemma flush_inv:
  assumes "handle_inv C h" "clean_fault C (pending_state (handle_state h)) fault"
    "flush_recorder_and_commit_pending P C fault h = (result, h')"
  shows "handle_inv C h' \<and> handle_path h' = handle_path h \<and> accepted h' = accepted h
     \<and> (result = Ok () \<longrightarrow> state_entries (handle_state h') = accepted h \<and> pending_state (handle_state h') = [])
     \<and> (result \<noteq> Ok () \<longrightarrow> handle_state h' = handle_state h)"
proof -
  let ?r = "handle_recorder h" and ?s = "handle_state h"
  from assms(1) have log: "session_log (state_entries ?s)" "session_log (accepted h)"
    and ids: "state_ids ?s = entry_ids (state_entries ?s)"
    and rec: "running ?r" "alive ?r" "channel ?r = []"
    and inv: "recorder_inv C (accepted h) (worker ?r) (log_file ?r) (state_entries ?s)"
    by (auto simp: handle_inv_def)
  obtain res w' f' where p: "persist_pending C fault (worker ?r) (log_file ?r) = (res, w', f')"
    by (rule prod_cases3)
  have call: "recorder_call C fault Flush ?r = (res, ?r\<lparr>channel := [], worker := w', log_file := f'\<rparr>)"
    using recorder_call_answer[OF rec(1,2) _ _ p, of Flush] rec(3) by simp
  from persist_inv[OF inv handle_inv_distinct[OF assms(1)] _ p] assms(2) handle_inv_pending[OF assms(1)]
  have persisted: "res = Ok () \<and> pending_entries w' = [] \<and> recorder_inv C (accepted h) w' f' (accepted h)
     \<or> (\<exists>err. res = Err err) \<and> recorder_inv C (accepted h) w' f' (state_entries ?s)" by auto
  then show ?thesis
  proof (elim disjE conjE exE)
    assume ok: "res = Ok ()" and new: "recorder_inv C (accepted h) w' f' (accepted h)"
    have "state_entries ?s \<noteq> []" using log(1) by (simp add: session_log_def)
    from commit_pending_Ok[OF log(2)[unfolded accepted_def] this ids, of P f' "handle_path h"] obtain s'
      where s': "commit_pending_state_entries P f' (handle_path h) ?s = (Ok (), s')"
        "state_entries s' = accepted h" "state_ids s' = entry_ids (state_entries s')" "pending_state s' = []"
      by (auto simp: accepted_def)
    with assms(3) call ok have h': "result = Ok ()"
      "h' = h\<lparr>handle_recorder := ?r\<lparr>channel := [], worker := w', log_file := f'\<rparr>, handle_state := s'\<rparr>"
      by (auto simp: flush_recorder_and_commit_pending_def)
    have "accepted h' = accepted h" by (simp add: h' accepted_def s'(2,4))
    with h' s' new log rec show ?thesis by (simp add: handle_inv_def)
  next
    fix err assume err: "res = Err err" and new: "recorder_inv C (accepted h) w' f' (state_entries ?s)"
    with assms(3) call have h': "result = Err err"
      "h' = h\<lparr>handle_recorder := ?r\<lparr>channel := [], worker := w', log_file := f'\<rparr>\<rparr>"
      by (auto simp: flush_recorder_and_commit_pending_def)
    have "accepted h' = accepted h" by (simp add: h' accepted_def)
    with h' new log rec ids show ?thesis by (simp add: handle_inv_def)
  qed
qed

lemma recover_inv:
  assumes "handle_inv C h" "clean_fault C (pending_state (handle_state h)) fault"
    "recover_pending_state_entries P C fault h = (result, h')"
  shows "handle_inv C h' \<and> handle_path h' = handle_path h \<and> accepted h' = accepted h
     \<and> (result = Ok () \<longrightarrow> state_entries (handle_state h') = accepted h \<and> pending_state (handle_state h') = [])"
proof (cases "pending_state (handle_state h) = []")
  case True
  with assms show ?thesis by (auto simp: recover_pending_state_entries_def accepted_def)
next
  case False
  with assms(3) have "flush_recorder_and_commit_pending P C fault h = (result, h')"
    by (simp add: recover_pending_state_entries_def)
  from flush_inv[OF assms(1,2) this] show ?thesis by blast
qed

section \<open>Appending to an open session\<close>

lemma handle_inv_file: "handle_inv C h \<Longrightarrow> log_file (handle_recorder h) \<noteq> None"
proof
  assume inv: "handle_inv C h" and none: "log_file (handle_recorder h) = None"
  then obtain logged k where "[] = log_lines C logged"
    "first_by_id {} logged = state_entries (handle_state h) @ take k (pending_entries (worker (handle_recorder h)))"
    by (auto simp: handle_inv_def recorder_inv_def file_content_def)
  moreover from this(1) have "logged = []" by (cases logged) simp_all
  moreover have "state_entries (handle_state h) \<noteq> []" using inv by (simp add: handle_inv_def session_log_def)
  ultimately show False by simp
qed

text \<open>An open session whose log file is the one its recorder knows.\<close>

definition open_ok :: "codec \<Rightarrow> local_store \<Rightarrow> session_id \<Rightarrow> local_handle \<Rightarrow> bool" where
  "open_ok C st sid h \<longleftrightarrow>
     map_of (recorders st) sid = Some h \<and> handle_inv C h
     \<and> map_of (store_disk st) (handle_path h) = log_file (handle_recorder h)"

lemma put_handle_open: "handle_inv C h \<Longrightarrow> open_ok C (put_handle sid h st) sid h"
  using handle_inv_file[of C h]
  by (auto simp: open_ok_def put_handle_def sync_disk_def AList.update_conv')

lemma upsert_index_Ok:
  "meta_total_tokens m = 0 \<Longrightarrow> \<exists>idx. upsert_index m st = (Ok (), st\<lparr>index := idx\<rparr>)"
  by (auto simp: upsert_index_def upsert_session_row_def checked_i64_def i64_max_def)

lemma open_ok_index [simp]: "open_ok C (st\<lparr>index := idx\<rparr>) sid h = open_ok C st sid h"
  by (simp add: open_ok_def)

lemma push_pending_Ok:
  "distinct (map entry_id es) \<Longrightarrow> entry_id ` set es \<inter> (state_ids s \<union> entry_id ` set (pending_state s)) = {} \<Longrightarrow>
     push_pending_state_entries es s = (Ok (), s\<lparr>pending_state := pending_state s @ es\<rparr>)"
  by (induction es arbitrary: s) (auto simp: push_pending_state_entry_def)

lemma persist_new_inv:
  assumes "handle_inv C h" "pending_state (handle_state h) = []" "es \<noteq> []"
    "session_log (state_entries (handle_state h) @ es)" "env_codec E = C" "clean_fault C es (next_fault E st)"
    "persist_new_entries E sid h es st = (result, st')"
  shows "\<exists>h'. open_ok C st' sid h' \<and> accepted h' = state_entries (handle_state h) @ es
     \<and> handle_path h' = handle_path h
     \<and> (result = Ok () \<longrightarrow> pending_state (handle_state h') = [] \<and> meta_total_tokens (state_meta (handle_state h')) = 0)"
proof -
  let ?r = "handle_recorder h" and ?s = "handle_state h"
  let ?all = "state_entries ?s @ es"
  from assms(1,2) have log: "session_log (state_entries ?s)"
    and ids: "state_ids ?s = entry_ids (state_entries ?s)"
    and rec: "running ?r" "alive ?r" "channel ?r = []"
    and inv: "recorder_inv C (state_entries ?s) (worker ?r) (log_file ?r) (state_entries ?s)"
    by (auto simp: handle_inv_def accepted_def)
  have nonempty: "state_entries ?s \<noteq> []" using log by (simp add: session_log_def)
  have dist: "distinct (map entry_id ?all)" using log_wf_distinct[OF session_log_wf[OF assms(4)]] by simp
  let ?w = "(worker ?r)\<lparr>pending_entries := pending_entries (worker ?r) @ es\<rparr>"
  have buf: "buffer_many es ?r = (Ok (), ?r\<lparr>channel := [Buffer es]\<rparr>)"
    using assms(3) rec by (simp add: buffer_many_def record_command_capacity_def)
  obtain res w' f' where p: "persist_pending C (next_fault E st) ?w (log_file ?r) = (res, w', f')"
    by (rule prod_cases3)
  let ?r' = "?r\<lparr>channel := [], worker := w', log_file := f'\<rparr>"
  have call: "recorder_call C (next_fault E st) Persist (?r\<lparr>channel := [Buffer es]\<rparr>) = (res, ?r')"
    using recorder_call_answer[of "?r\<lparr>channel := [Buffer es]\<rparr>" ?w Persist C "next_fault E st" res w' f'] rec p by simp
  have "pending_entries (worker ?r) = []" using handle_inv_pending[OF assms(1)] assms(2) by simp
  with persist_inv[OF buffer_inv[OF inv, of es] dist _ p] assms(6)
  have "res = Ok () \<and> recorder_inv C ?all w' f' ?all
     \<or> (\<exists>err. res = Err err) \<and> recorder_inv C ?all w' f' (state_entries ?s)" by auto
  then show ?thesis
  proof (elim disjE conjE exE)
    assume ok: "res = Ok ()" and new: "recorder_inv C ?all w' f' ?all"
    from push_entries_Ok[OF assms(4) nonempty ids, of "env_platform E" f' "handle_path h"] assms(2,3) obtain s'
      where s': "push_entries (env_platform E) f' (handle_path h) es ?s = (Ok (), s')" "state_entries s' = ?all"
        "state_ids s' = entry_ids (state_entries s')" "pending_state s' = []" "meta_total_tokens (state_meta s') = 0"
      by auto
    let ?h = "h\<lparr>handle_recorder := ?r', handle_state := s'\<rparr>"
    from upsert_index_Ok[OF s'(5), of "put_handle sid ?h st"] obtain idx
      where "upsert_index (state_meta s') (put_handle sid ?h st) = (Ok (), (put_handle sid ?h st)\<lparr>index := idx\<rparr>)" by blast
    with assms(5,7) buf call ok s'(1) have st': "st' = (put_handle sid ?h st)\<lparr>index := idx\<rparr>"
      by (simp add: persist_new_entries_def)
    have "handle_inv C ?h" using assms(4) new s' rec by (simp add: handle_inv_def accepted_def)
    from put_handle_open[OF this] show ?thesis
      unfolding st' by (intro exI[of _ ?h]) (simp add: accepted_def s')
  next
    fix err assume err: "res = Err err" and new: "recorder_inv C ?all w' f' (state_entries ?s)"
    have "push_pending_state_entries es ?s = (Ok (), ?s\<lparr>pending_state := es\<rparr>)"
      using push_pending_Ok[of es ?s] dist assms(2) ids by (auto simp: entry_ids_def)
    let ?h = "h\<lparr>handle_recorder := ?r', handle_state := ?s\<lparr>pending_state := es\<rparr>\<rparr>"
    from \<open>push_pending_state_entries es ?s = _\<close> assms(5,7) buf call err
    have st': "st' = put_handle sid ?h st" "result = Err err"
      by (simp_all add: persist_new_entries_def)
    have "handle_inv C ?h" using log assms(4) new rec ids by (simp add: handle_inv_def accepted_def)
    from put_handle_open[OF this] st' show ?thesis
      by (intro exI[of _ ?h]) (simp add: accepted_def)
  qed
qed

lemma unused_id_loop_Some:
  assumes "unused_id_loop P ids batch c = Some x"
  shows "fst x \<notin> ids \<and> fst x \<notin> batch"
proof (rule unused_id_loop.raw_induct[where P = "\<lambda>_ ids batch _ x. fst x \<notin> ids \<and> fst x \<notin> batch", OF _ assms])
  fix f :: "platform \<Rightarrow> ustring set \<Rightarrow> ustring set \<Rightarrow> cursor \<Rightarrow> (ustring \<times> cursor) option"
    and P :: platform and ids batch :: "ustring set" and c :: cursor and x :: "ustring \<times> cursor"
  assume IH: "\<And>P ids batch c x. f P ids batch c = Some x \<Longrightarrow> fst x \<notin> ids \<and> fst x \<notin> batch"
    and eq: "(case generate_entry_id P ids c of None \<Rightarrow> None
         | Some x \<Rightarrow> if fst x \<in> batch then f P ids batch (snd x) else Some x) = Some x"
  then obtain y where y: "generate_entry_id P ids c = Some y" by (auto split: option.splits)
  then have "fst y \<notin> ids"
    by (cases y) (auto simp: generate_entry_id_def dest: generate_entry_id_fresh)
  with eq y IH show "fst x \<notin> ids \<and> fst x \<notin> batch" by (auto split: if_splits)
qed

lemma build_batch_chained:
  assumes "build_batch P (entry_ids entries) (entry_ids acc) (projection_of (entries @ acc)) ks acc c = Some (Ok es, c')"
  shows "\<exists>new. es = acc @ new \<and> chained (entries @ acc) new \<and> map kind new = ks"
  using assms
proof (induction ks arbitrary: acc c)
  case (Cons k ks)
  from Cons.prems obtain i c1 where i: "unused_id_loop P (entry_ids entries) (entry_ids acc) c = Some (i, c1)"
    by (auto split: option.splits)
  obtain ts c2 where ts: "current_timestamp_ms P c1 = (ts, c2)" by (rule prod.exhaust)
  with Cons.prems i obtain t where t: "ts = Ok t" by (cases ts) auto
  let ?e = "\<lparr>entry_id = i, parent_id = append_parent_id (entries @ acc), timestamp = t, kind = k\<rparr>"
  from unused_id_loop_Some[OF i] have fresh: "i \<notin> entry_ids (entries @ acc)" by (auto simp: entry_ids_def)
  have "fst (projection_of (entries @ acc)) = append_parent_id (entries @ acc)" by (simp add: projection_of_def)
  with Cons.prems i ts t update_append_projection_snoc[of ?e "entries @ acc"]
  have "build_batch P (entry_ids entries) (entry_ids (acc @ [?e])) (projection_of (entries @ (acc @ [?e]))) ks (acc @ [?e]) c2
      = Some (Ok es, c')"
    by (simp add: entry_ids_def Let_def)
  from Cons.IH[OF this] obtain new where "es = (acc @ [?e]) @ new" "chained (entries @ (acc @ [?e])) new" "map kind new = ks"
    by blast
  with fresh show ?case by (intro exI[of _ "?e # new"]) simp
qed simp

lemma handle_for_change_open:
  assumes "open_ok C st sid h" "env_codec E = C" "clean_fault C (pending_state (handle_state h)) (next_fault E st)"
    "handle_for_change E sid st = (result, st')"
  shows "faults_used st' = Suc (faults_used st)"
    "\<exists>h'. open_ok C st' sid h' \<and> accepted h' = accepted h
       \<and> (\<forall>h0. result = Ok h0 \<longrightarrow> h0 = h' \<and> state_entries (handle_state h') = accepted h
            \<and> pending_state (handle_state h') = [])"
proof -
  from assms(1) have look: "map_of (recorders st) sid = Some h" and inv: "handle_inv C h" by (auto simp: open_ok_def)
  obtain r h' where rec: "recover_pending_state_entries (env_platform E) C (next_fault E st) h = (r, h')"
    by (rule prod.exhaust)
  from recover_inv[OF inv assms(3) rec] have h': "handle_inv C h'" "accepted h' = accepted h"
    and ok: "r = Ok () \<Longrightarrow> state_entries (handle_state h') = accepted h \<and> pending_state (handle_state h') = []"
    by auto
  have "state_entries (handle_state h') \<noteq> []" using h'(1) by (auto simp: handle_inv_def session_log_def)
  with assms(2,4) look rec have st': "st' = put_handle sid h' st"
    and result: "result = (case r of Inl err \<Rightarrow> Err err | Inr _ \<Rightarrow> Ok h')"
    by (auto simp: handle_for_change_def handle_for_session_def split: sum.splits)
  show "faults_used st' = Suc (faults_used st)" by (simp add: st' put_handle_def sync_disk_def)
  show "\<exists>h'. open_ok C st' sid h' \<and> accepted h' = accepted h
       \<and> (\<forall>h0. result = Ok h0 \<longrightarrow> h0 = h' \<and> state_entries (handle_state h') = accepted h
            \<and> pending_state (handle_state h') = [])"
    using put_handle_open[OF h'(1)] h'(2) ok result unfolding st'
    by (intro exI[of _ h']) (auto split: sum.splits)
qed

text \<open>The failures an append meets leave no torn line, whatever ids and times its entries get.\<close>

definition append_faults_clean :: "local_env \<Rightarrow> local_store \<Rightarrow> local_handle \<Rightarrow> entry_kind list \<Rightarrow> bool" where
  "append_faults_clean E st h kinds \<longleftrightarrow>
     clean_fault (env_codec E) (pending_state (handle_state h)) (next_fault E st)
     \<and> (\<forall>es. map kind es = kinds \<longrightarrow> clean_fault (env_codec E) es (io_faults E (Suc (faults_used st))))"

lemma local_append_open:
  assumes "open_ok C st sid h" "env_codec E = C" "append_faults_clean E st h kinds"
    "\<forall>k\<in>set kinds. \<not> is_leaf_kind k" "local_append_entries E sid kinds st c = Some (result, st', c')"
  shows "\<exists>h' new. open_ok C st' sid h' \<and> accepted h' = accepted h @ new \<and> chained (accepted h) new
     \<and> (map kind new = kinds \<or> new = [])
     \<and> (\<forall>ids. result = Ok ids \<longrightarrow> map kind new = kinds \<and> map entry_id new = ids
          \<and> (kinds \<noteq> [] \<longrightarrow> pending_state (handle_state h') = []
              \<and> meta_total_tokens (state_meta (handle_state h')) = 0))"
proof (cases "kinds = [] \<or> \<not> is_ok (validate_append_kinds kinds)")
  case True
  with assms(1,5) show ?thesis
    by (intro exI[of _ h] exI[of _ "[]"]) (auto simp: local_append_entries_def split: sum.splits if_splits)
next
  case False
  then have valid: "kinds \<noteq> []" "validate_append_kinds kinds = Ok ()"
    by (auto simp: is_ok_iff)
  obtain hr st1 where h1: "handle_for_change E sid st = (hr, st1)" by (rule prod.exhaust)
  from assms(2,3) have clean: "clean_fault C (pending_state (handle_state h)) (next_fault E st)"
    "\<And>es. map kind es = kinds \<Longrightarrow> clean_fault C es (io_faults E (Suc (faults_used st)))"
    by (auto simp: append_faults_clean_def)
  note change = handle_for_change_open[OF assms(1,2) clean(1) h1]
  from change(2) obtain h' where h': "open_ok C st1 sid h'" "accepted h' = accepted h"
    and opened: "\<And>h0. hr = Ok h0 \<Longrightarrow> h0 = h' \<and> state_entries (handle_state h') = accepted h
        \<and> pending_state (handle_state h') = []" by blast
  show ?thesis
  proof (cases hr)
    case (Inl err)
    with assms(5) valid h1 have "st' = st1" "result = Err err" by (auto simp: local_append_entries_def)
    with h' show ?thesis by (intro exI[of _ h'] exI[of _ "[]"]) auto
  next
    case (Inr h0)
    from opened[OF this] have h0: "h0 = h'" "state_entries (handle_state h') = accepted h"
      "pending_state (handle_state h') = []" by auto
    from h'(1) have inv: "handle_inv C h'" by (simp add: open_ok_def)
    then have ids: "state_ids (handle_state h') = entry_ids (accepted h)" and log: "session_log (accepted h)"
      using h0(2) by (auto simp: handle_inv_def)
    let ?batch = "build_batch (env_platform E) (entry_ids (accepted h)) {}
       (append_parent_id (accepted h), latest_non_leaf_id (accepted h)) kinds [] c"
    show ?thesis
    proof (cases "\<exists>es c1. ?batch = Some (Ok es, c1)")
      case no_batch: False
      with assms(5) valid h1 Inr h0 ids have "st' = st1" "\<exists>err. result = Err err"
        by (auto simp: local_append_entries_def Let_def split: option.splits sum.splits prod.splits)
      with h' show ?thesis by (intro exI[of _ h'] exI[of _ "[]"]) auto
    next
      case True
      then obtain es c1 where batch: "?batch = Some (Ok es, c1)" by blast
      from batch have "build_batch (env_platform E) (entry_ids (accepted h)) (entry_ids [])
          (projection_of (accepted h @ [])) kinds [] c = Some (Ok es, c1)"
        by (simp add: projection_of_def entry_ids_def)
      from build_batch_chained[OF this] have es: "chained (accepted h) es" "map kind es = kinds" by auto
      with assms(4) have "\<forall>e\<in>set es. \<not> is_leaf_kind (kind e)" by auto
      from chained_session_log[OF log es(1) this] have new_log: "session_log (state_entries (handle_state h') @ es)"
        by (simp add: h0(2))
      obtain q st2 where p: "persist_new_entries E sid h' es st1 = (q, st2)" by (rule prod.exhaust)
      with assms(5) valid h1 Inr h0 ids batch
      have out: "st' = st2" "result = and_then q (\<lambda>_. Ok (map entry_id es))"
        by (auto simp: local_append_entries_def Let_def)
      have "es \<noteq> []" using es(2) valid(1) by auto
      moreover have "clean_fault C es (next_fault E st1)" using clean(2)[OF es(2)] by (simp add: change(1))
      ultimately obtain h2 where "open_ok C st2 sid h2" "accepted h2 = accepted h @ es"
        "q = Ok () \<longrightarrow> pending_state (handle_state h2) = [] \<and> meta_total_tokens (state_meta (handle_state h2)) = 0"
        using persist_new_inv[OF inv h0(3) _ new_log assms(2) _ p] h0(2) by auto
      with out es show ?thesis by (intro exI[of _ h2] exI[of _ es]) (auto simp: and_then_eq_Ok)
    qed
  qed
qed

lemma local_set_leaf_open:
  assumes "open_ok C st sid h" "env_codec E = C" "append_faults_clean E st h [Leaf leaf]"
    "local_set_leaf E sid leaf st c = Some (result, st', c')"
  shows "\<exists>h' new. open_ok C st' sid h' \<and> accepted h' = accepted h @ new
     \<and> (new = [] \<or> (\<exists>i ts. new = [\<lparr>entry_id = i, parent_id = latest_non_leaf_id (accepted h),
            timestamp = ts, kind = Leaf leaf\<rparr>]))
     \<and> (result = Ok () \<longrightarrow> new \<noteq> [] \<and> pending_state (handle_state h') = [])
     \<and> (new \<noteq> [] \<longrightarrow> (\<forall>t. leaf = Some t \<longrightarrow> t \<in> entry_ids (accepted h)))"
proof -
  obtain hr st1 where h1: "handle_for_change E sid st = (hr, st1)" by (rule prod.exhaust)
  from assms(2,3) have clean: "clean_fault C (pending_state (handle_state h)) (next_fault E st)"
    "\<And>es. map kind es = [Leaf leaf] \<Longrightarrow> clean_fault C es (io_faults E (Suc (faults_used st)))"
    by (auto simp: append_faults_clean_def)
  note change = handle_for_change_open[OF assms(1,2) clean(1) h1]
  from change(2) obtain h' where h': "open_ok C st1 sid h'" "accepted h' = accepted h"
    and opened: "\<And>h0. hr = Ok h0 \<Longrightarrow> h0 = h' \<and> state_entries (handle_state h') = accepted h
        \<and> pending_state (handle_state h') = []" by blast
  show ?thesis
  proof (cases "st' = st1 \<and> (\<exists>err. result = Err err)")
    case True
    with h' show ?thesis by (intro exI[of _ h'] exI[of _ "[]"]) auto
  next
    case False
    with assms(4) h1 obtain h0 where hr: "hr = Ok h0" by (cases hr) (auto simp: local_set_leaf_def)
    from opened[OF this] have h0: "h0 = h'" "state_entries (handle_state h') = accepted h"
      "pending_state (handle_state h') = []" by auto
    from h'(1) have inv: "handle_inv C h'" by (simp add: open_ok_def)
    then have ids: "state_ids (handle_state h') = entry_ids (accepted h)" and log: "session_log (accepted h)"
      using h0(2) by (auto simp: handle_inv_def)
    from assms(4) h1 hr h0 False obtain i c1 ts q
      where i: "generate_entry_id (env_platform E) (state_ids (handle_state h')) c = Some (i, c1)"
        and target: "\<forall>t. leaf = Some t \<longrightarrow> t \<in> entry_ids (accepted h)"
        and p: "persist_new_entries E sid h' [\<lparr>entry_id = i, parent_id = latest_non_leaf_id (accepted h),
            timestamp = ts, kind = Leaf leaf\<rparr>] st1 = (result, st')"
      by (auto simp: local_set_leaf_def require_existing_entry_def ids Let_def
          split: option.splits sum.splits prod.splits if_splits)
    let ?e = "\<lparr>entry_id = i, parent_id = latest_non_leaf_id (accepted h), timestamp = ts, kind = Leaf leaf\<rparr>"
    have "i \<notin> entry_ids (accepted h)"
      using i ids by (auto simp: generate_entry_id_def dest: generate_entry_id_fresh)
    with log target have new_log: "session_log (state_entries (handle_state h') @ [?e])"
      unfolding h0(2) by (intro session_log_append) auto
    have "clean_fault C [?e] (next_fault E st1)" using clean(2)[of "[?e]"] by (simp add: change(1))
    from persist_new_inv[OF inv h0(3) _ new_log assms(2) this p] h0(2) obtain h2
      where "open_ok C st' sid h2" "accepted h2 = accepted h @ [?e]"
        "result = Ok () \<longrightarrow> pending_state (handle_state h2) = []" by auto
    with target show ?thesis by (intro exI[of _ h2] exI[of _ "[?e]"]) auto
  qed
qed

section \<open>The contract\<close>

definition local_open :: "codec \<Rightarrow> local_store \<times> session_id \<Rightarrow> bool" where
  "local_open C x \<longleftrightarrow> (\<exists>h. open_ok C (fst x) (snd x) h)"

definition local_entries :: "local_store \<times> session_id \<Rightarrow> session_entry list" where
  "local_entries x = (case map_of (recorders (fst x)) (snd x) of None \<Rightarrow> [] | Some h \<Rightarrow> accepted h)"

definition local_appends ::
  "codec \<Rightarrow> local_store \<times> session_id \<Rightarrow> entry_kind list \<Rightarrow> ustring list \<Rightarrow> local_store \<times> session_id \<Rightarrow> bool" where
  "local_appends C x kinds ids y \<longleftrightarrow> snd y = snd x \<and>
     (\<exists>E h c c'. env_codec E = C \<and> map_of (recorders (fst x)) (snd x) = Some h
        \<and> append_faults_clean E (fst x) h kinds
        \<and> local_append_entries E (snd x) kinds (fst x) c = Some (Ok ids, fst y, c'))"

interpretation local: session_owner "local_open C" local_entries "local_appends C" for C
proof
  show "session_log (local_entries x)" if "local_open C x" for x
    using that by (auto simp: local_open_def local_entries_def open_ok_def handle_inv_def)
  then show "log_wf {} (local_entries x)" if "local_open C x" for x
    using that session_log_wf by blast
  fix x kinds ids y
  assume x: "local_open C x" and step: "local_appends C x kinds ids y" and kinds: "\<forall>k\<in>set kinds. \<not> is_leaf_kind k"
  from x obtain h where h: "open_ok C (fst x) (snd x) h" by (auto simp: local_open_def)
  with step obtain E c c' where E: "env_codec E = C" "append_faults_clean E (fst x) h kinds"
    "local_append_entries E (snd x) kinds (fst x) c = Some (Ok ids, fst y, c')" and y: "snd y = snd x"
    by (auto simp: local_appends_def open_ok_def)
  from local_append_open[OF h E(1,2) kinds E(3)] obtain h' new
    where "open_ok C (fst y) (snd x) h'" "accepted h' = accepted h @ new" "chained (accepted h) new"
      "map kind new = kinds" "map entry_id new = ids" by blast
  with h y show "local_open C y \<and> (\<exists>new. local_entries y = local_entries x @ new \<and> chained (local_entries x) new
      \<and> map kind new = kinds \<and> map entry_id new = ids)"
    by (auto simp: local_open_def local_entries_def open_ok_def)
qed

end
