(* ===== verification/Local_Runs.thy ===== *)
theory Local_Runs
  imports Local_Store
begin

text \<open>
  What clients of the store on disk may rely on: a closed session reads back, a failed append
  is recovered as a whole or not at all, the default query shows what was appended and follows
  a moved leaf, and no more than 64 sessions stay open in any store that its operations reach.
  The number of open sessions is bounded because the operations are atomic here; in the
  program a session another task is using is not evicted.
\<close>

section \<open>Closing and reopening\<close>

text \<open>A log with nothing pending reads back as the entries of the session.\<close>

lemma durable_loads:
  assumes "recorder_inv C handed w f handed" "codec_ok C" "log_wf {} handed"
  shows "load_file C (Some (file_content f)) = Ok handed"
  using load_inv[OF assms] prefix_order.antisym by auto

lemma open_loads:
  assumes "open_ok C st sid h" "codec_ok C" "pending_state (handle_state h) = []"
  shows "load_file C (map_of (store_disk st) (handle_path h)) = Ok (accepted h)"
proof -
  from assms(1) have inv: "handle_inv C h" and disk: "map_of (store_disk st) (handle_path h) = log_file (handle_recorder h)"
    by (auto simp: open_ok_def)
  from inv assms(3) have "recorder_inv C (accepted h) (worker (handle_recorder h)) (log_file (handle_recorder h)) (accepted h)"
    "log_wf {} (accepted h)"
    by (auto simp: handle_inv_def accepted_def session_log_wf)
  from durable_loads[OF this(1) assms(2) this(2)] handle_inv_file[OF inv] disk show ?thesis
    by (auto simp: file_content_def)
qed

lemma recorder_shutdown_answer:
  assumes "running r" "alive r" "channel r = []" "persist_pending C fault (worker r) (log_file r) = (result, w', f')"
  shows "recorder_shutdown C fault r =
     (result, r\<lparr>running := False, closing := False, alive := False, channel := [], worker := w', log_file := f'\<rparr>)"
  using assms by (simp add: recorder_shutdown_def take_running_state_def handle_command_def)

lemma recorder_inv_restart:
  "recorder_inv C handed w f handed \<Longrightarrow> recorder_inv C handed new_worker f handed"
  by (fastforce simp: recorder_inv_def new_worker_def)

lemma new_handle_open:
  assumes "session_log entries" "recorder_inv C entries new_worker f entries"
  shows "\<exists>h. new_handle P path f entries = Ok h \<and> handle_inv C h \<and> accepted h = entries
     \<and> handle_path h = path \<and> pending_state (handle_state h) = [] \<and> handle_recorder h = new_recorder f"
proof -
  from header_meta[OF assms(1)] obtain m where "local_session_meta P f entries path = Ok m" by blast
  with assms show ?thesis
    by (simp add: new_handle_def handle_inv_def accepted_def new_recorder_def)
qed

lemma shutdown_handle_reopens:
  assumes "handle_inv C h" "codec_ok C" "clean_fault C (pending_state (handle_state h)) fault"
    "shutdown_handle P C fault h = (Ok m, h')"
  shows "\<exists>content. log_file (handle_recorder h') = Some content
     \<and> load_file C (Some content) = Ok (accepted h)
     \<and> (\<exists>h2. new_handle P' path (Some content) (accepted h) = Ok h2 \<and> handle_inv C h2 \<and> accepted h2 = accepted h)"
proof -
  let ?r = "handle_recorder h"
  from assms(1) have log: "session_log (accepted h)" and rec: "running ?r" "alive ?r" "channel ?r = []"
    and inv: "recorder_inv C (accepted h) (worker ?r) (log_file ?r) (state_entries (handle_state h))"
    by (auto simp: handle_inv_def)
  obtain res w' f' where p: "persist_pending C fault (worker ?r) (log_file ?r) = (res, w', f')"
    by (rule prod_cases3)
  from persist_inv[OF inv handle_inv_distinct[OF assms(1)] _ p] assms(3) handle_inv_pending[OF assms(1)]
  have "res = Ok () \<and> recorder_inv C (accepted h) w' f' (accepted h) \<or> (\<exists>err. res = Err err)" by auto
  with assms(4) recorder_shutdown_answer[OF rec p]
  have ok: "res = Ok ()" and new: "recorder_inv C (accepted h) w' f' (accepted h)"
    by (auto simp: shutdown_handle_def)
  from assms(4) recorder_shutdown_answer[OF rec p] ok have log_f: "log_file (handle_recorder h') = f'"
    by (auto simp: shutdown_handle_def split: prod.splits sum.splits)
  from durable_loads[OF new assms(2) session_log_wf[OF log]] have loads: "load_file C (Some (file_content f')) = Ok (accepted h)" .
  have "f' \<noteq> None"
  proof
    assume "f' = None"
    with loads have "accepted h = []" by (simp add: file_content_def load_file_def scan_entries_def)
    with log show False by (simp add: session_log_def)
  qed
  then obtain content where content: "f' = Some content" by blast
  with loads log_f new_handle_open[OF log recorder_inv_restart[OF new], of P' path] show ?thesis
    by (auto simp: file_content_def)
qed

lemma flush_open:
  assumes "open_ok C st sid h" "env_codec E = C" "clean_fault C (pending_state (handle_state h)) (next_fault E st)"
    "local_flush E sid st = (result, st')"
  shows "\<exists>h'. open_ok C st' sid h' \<and> accepted h' = accepted h \<and> handle_path h' = handle_path h
     \<and> (result = Ok () \<longrightarrow> pending_state (handle_state h') = [])"
proof -
  from assms(1) have look: "map_of (recorders st) sid = Some h" and inv: "handle_inv C h" by (auto simp: open_ok_def)
  obtain r h' where f: "flush_recorder_and_commit_pending (env_platform E) C (next_fault E st) h = (r, h')"
    by (rule prod.exhaust)
  from flush_inv[OF inv assms(3) f] have h': "handle_inv C h'" "accepted h' = accepted h" "handle_path h' = handle_path h"
    and ok: "r = Ok () \<Longrightarrow> pending_state (handle_state h') = []" by auto
  note opened = put_handle_open[OF h'(1), of sid st]
  from assms(2,4) look f have "result = r \<and> st' = put_handle sid h' st
     \<or> r = Ok () \<and> upsert_index (state_meta (handle_state h')) (put_handle sid h' st) = (result, st')"
    by (auto simp: local_flush_def flush_handle_def handle_for_session_def split: sum.splits)
  then show ?thesis
  proof (elim disjE conjE)
    assume "r = Ok ()" "upsert_index (state_meta (handle_state h')) (put_handle sid h' st) = (result, st')"
    then have "\<exists>idx. st' = (put_handle sid h' st)\<lparr>index := idx\<rparr>"
      by (cases "upsert_session_row (index (put_handle sid h' st)) (state_meta (handle_state h'))")
         (auto simp: upsert_index_def intro: exI[of _ "index (put_handle sid h' st)"])
    with opened h' ok[OF \<open>r = Ok ()\<close>] show ?thesis by (intro exI[of _ h']) auto
  next
    assume "result = r" "st' = put_handle sid h' st"
    with opened h' ok show ?thesis by (intro exI[of _ h']) auto
  qed
qed

lemma failed_append_recovered:
  assumes "open_ok C st sid h" "env_codec E = C" "codec_ok C" "append_faults_clean E st h kinds"
    "\<forall>k\<in>set kinds. \<not> is_leaf_kind k" "local_append_entries E sid kinds st c = Some (Err err, st1, c')"
    "\<forall>es. clean_fault C es (next_fault E st1)" "local_flush E sid st1 = (Ok (), st2)"
  shows "\<exists>new h'. open_ok C st2 sid h' \<and> accepted h' = accepted h @ new \<and> (new = [] \<or> map kind new = kinds)
     \<and> load_file C (map_of (store_disk st2) (handle_path h')) = Ok (accepted h @ new)"
proof -
  from local_append_open[OF assms(1,2,4,5,6)] obtain h1 new
    where h1: "open_ok C st1 sid h1" "accepted h1 = accepted h @ new" "map kind new = kinds \<or> new = []" by blast
  from flush_open[OF h1(1) assms(2) _ assms(8)] assms(7) obtain h2
    where h2: "open_ok C st2 sid h2" "accepted h2 = accepted h1" "pending_state (handle_state h2) = []" by auto
  from open_loads[OF h2(1) assms(3) h2(3)] h1 h2 show ?thesis by (intro exI[of _ new] exI[of _ h2]) auto
qed

section \<open>What the queries show\<close>

lemma open_entries: "open_ok C st sid h \<Longrightarrow> local_entries (st, sid) = accepted h"
  by (simp add: open_ok_def local_entries_def)

lemma local_query_open:
  assumes "open_ok C st sid h" "pending_state (handle_state h) = []"
  shows "local_resolve E sid leaf st = (query_items (accepted h) leaf, st)"
    "local_load_session E sid leaf st = (query_state (accepted h) leaf, st)"
  using assms by (simp_all add: open_ok_def local_resolve_def local_load_session_def handle_for_session_def accepted_def)

text \<open>Both stores show the items of a batch behind what they showed before.\<close>

lemma local_conversation_grows:
  assumes "open_ok C st sid h" "env_codec E = C" "append_faults_clean E st h (map Item its)" "its \<noteq> []"
    "local_append_many E sid its st c = Some (Ok ids, st', c')" "query_items (accepted h) None = Ok shown"
  shows "fst (local_resolve E sid None st') = Ok (shown @ its)"
proof -
  have kinds: "\<forall>k\<in>set (map Item its). \<not> is_leaf_kind k" by simp
  from local_append_open[OF assms(1,2,3) kinds assms(5)[unfolded local_append_many_def]] assms(4) obtain h' new
    where h': "open_ok C st' sid h'" "accepted h' = accepted h @ new" "chained (accepted h) new"
      "map kind new = map Item its" "map entry_id new = ids" "pending_state (handle_state h') = []" by auto
  from assms(6) obtain s where s: "query_state (accepted h) None = Ok s" "shown = map resolved_value (items s)"
    by (auto simp: query_items_eq and_then_eq_Ok)
  from assms(1) have "session_log (accepted h)" by (simp add: open_ok_def handle_inv_def)
  from query_after_chain[OF this h'(3,4) s(1)] h'(2)
  have "query_items (accepted h') None = Ok (shown @ map2 (\<lambda>e i. i) new its)"
    by (simp add: query_items_eq s(2) comp_def case_prod_unfold)
  moreover have "length new = length its" using h'(4) by (metis length_map)
  then have "map2 (\<lambda>e i. i) new its = its" by (induction new its rule: list_induct2) simp_all
  ultimately show ?thesis using local_query_open(1)[OF h'(1,6)] by simp
qed

text \<open>After moving the leaf, the default query shows what a query of the target showed.\<close>

lemma local_leaf_moved:
  assumes "open_ok C st sid h" "env_codec E = C" "append_faults_clean E st h [Leaf (Some (entry_id t))]"
    "t \<in> set (accepted h)" "\<not> is_leaf_kind (kind t)"
    "local_set_leaf E sid (Some (entry_id t)) st c = Some (Ok (), st', c')"
  shows "fst (local_load_session E sid None st') = query_state (accepted h) (Some (entry_id t))"
proof -
  from local_set_leaf_open[OF assms(1,2,3,6)] obtain h' i ts
    where h': "open_ok C st' sid h'" "pending_state (handle_state h') = []"
      "accepted h' = accepted h @ [\<lparr>entry_id = i, parent_id = latest_non_leaf_id (accepted h),
            timestamp = ts, kind = Leaf (Some (entry_id t))\<rparr>]" by auto
  from assms(1) h'(1) have "session_log (accepted h)" "session_log (accepted h')"
    by (simp_all add: open_ok_def handle_inv_def)
  from query_after_set_leaf[OF _ this(1) _ assms(4,5)] this(2) h'(3)
  have "query_state (accepted h') None = query_state (accepted h) (Some (entry_id t))" by simp
  then show ?thesis using local_query_open(2)[OF h'(1,2)] by simp
qed

text \<open>The projection a batch keeps gives every entry the parent that a single append gives.\<close>

lemma build_batch_links:
  assumes "build_batch P (entry_ids entries) {} (append_parent_id entries, latest_non_leaf_id entries) kinds [] c
     = Some (Ok es, c')"
  shows "map kind es = kinds \<and> distinct (map entry_id es) \<and> entry_ids es \<inter> entry_ids entries = {}
     \<and> (\<forall>n<length es. parent_id (es ! n) = append_parent_id (entries @ take n es))"
proof -
  have links: "chained xs ys \<Longrightarrow> distinct (map entry_id ys) \<and> entry_ids ys \<inter> entry_ids xs = {}
      \<and> (\<forall>n<length ys. parent_id (ys ! n) = append_parent_id (xs @ take n ys))" for xs ys
  proof (induction ys arbitrary: xs)
    case (Cons y ys)
    from Cons.prems have y: "entry_id y \<notin> entry_ids xs" "parent_id y = append_parent_id xs" by simp_all
    from Cons.IH[of "xs @ [y]"] Cons.prems have IH: "distinct (map entry_id ys)" "entry_ids ys \<inter> entry_ids (xs @ [y]) = {}"
      "\<forall>n<length ys. parent_id (ys ! n) = append_parent_id ((xs @ [y]) @ take n ys)" by auto
    have "parent_id ((y # ys) ! n) = append_parent_id (xs @ take n (y # ys))" if "n < length (y # ys)" for n
      using that IH(3) y(2) by (cases n) auto
    moreover have "distinct (map entry_id (y # ys))" "entry_ids (y # ys) \<inter> entry_ids xs = {}"
      using IH(1,2) y(1) by (auto simp: entry_ids_def)
    ultimately show ?case by blast
  qed (simp add: entry_ids_def)
  from build_batch_chained[of P entries "[]" kinds c es c'] assms
  have "chained entries es" "map kind es = kinds" by (auto simp: projection_of_def entry_ids_def)
  with links show ?thesis by blast
qed

section \<open>The number of open sessions\<close>

inductive local_step :: "local_env \<Rightarrow> local_store \<Rightarrow> local_store \<Rightarrow> bool" for E where
  create: "local_create_session E header st c = Some (r, st', c') \<Longrightarrow> local_step E st st'"
| append: "local_append_entries E sid kinds st c = Some (r, st', c') \<Longrightarrow> local_step E st st'"
| set_leaf: "local_set_leaf E sid leaf st c = Some (r, st', c') \<Longrightarrow> local_step E st st'"
| query: "handle_for_session E sid st = (r, st') \<Longrightarrow> local_step E st st'"
| list_sessions: "local_list_sessions E project_dir repair st = (r, st') \<Longrightarrow> local_step E st st'"
| flush: "local_flush E sid st = (r, st') \<Longrightarrow> local_step E st st'"
| flush_all: "local_flush_all E st = (r, st') \<Longrightarrow> local_step E st st'"

inductive local_reachable :: "local_env \<Rightarrow> local_store \<Rightarrow> bool" for E where
  opened: "open_in E d existing = (Ok st, idx) \<Longrightarrow> local_reachable E st"
| step: "local_reachable E st \<Longrightarrow> local_step E st st' \<Longrightarrow> local_reachable E st'"

text \<open>Iterating over a hash map yields each key once.\<close>

definition iterates_keys :: "local_env \<Rightarrow> bool" where
  "iterates_keys E \<longleftrightarrow>
     (\<forall>sids. distinct sids \<longrightarrow> distinct (hash_order E sids) \<and> set (hash_order E sids) = set sids)"

definition few_handles :: "local_store \<Rightarrow> bool" where
  "few_handles st \<longleftrightarrow> distinct (map fst (recorders st)) \<and> length (recorders st) \<le> max_open_session_handles"

lemma length_filter_keys:
  assumes "distinct (map fst rs)" "distinct ks" "set ks \<subseteq> fst ` set rs"
  shows "length (filter (\<lambda>(k, v). k \<notin> set ks) rs) + length ks = length rs"
proof -
  have "length (filter (\<lambda>x. fst x \<in> set ks) rs) = card (fst ` set (filter (\<lambda>x. fst x \<in> set ks) rs))"
    using distinct_map_filter[OF assms(1)] by (metis distinct_card length_map set_map)
  also have "fst ` set (filter (\<lambda>x. fst x \<in> set ks) rs) = set ks" using assms(3) by force
  also have "card (set ks) = length ks" using assms(2) by (rule distinct_card)
  finally show ?thesis
    using sum_length_filter_compl[of "\<lambda>x. fst x \<in> set ks" rs] by (simp add: case_prod_unfold)
qed

lemma evict_few:
  assumes "iterates_keys E" "distinct (map fst rs)" "keep \<in> fst ` set rs" "evict_idle_recorders E keep rs = (hs, rs')"
  shows "distinct (map fst rs') \<and> length rs' \<le> max_open_session_handles \<and> keep \<in> fst ` set rs'"
proof (cases "length rs - max_open_session_handles = 0")
  case True
  with assms show ?thesis by (auto simp: evict_idle_recorders_def)
next
  case False
  let ?order = "hash_order E (map fst rs)"
  let ?n = "length rs - max_open_session_handles"
  let ?victims = "take ?n (filter (\<lambda>sid. sid \<noteq> keep) ?order)"
  from assms(1,2) have order: "distinct ?order" "set ?order = fst ` set rs" by (auto simp: iterates_keys_def)
  then have "length ?order = length rs" using assms(2) by (metis distinct_card length_map set_map)
  moreover have "length (filter (\<lambda>sid. sid \<noteq> keep) ?order) = length ?order - 1"
  proof -
    have "(\<lambda>sid. sid \<noteq> keep) = (\<noteq>) keep" by auto
    then have "filter (\<lambda>sid. sid \<noteq> keep) ?order = remove1 keep ?order"
      using order(1) by (simp add: distinct_remove1_removeAll removeAll_filter_not_eq)
    with order(2) assms(3) show ?thesis by (simp add: length_remove1)
  qed
  ultimately have len: "length ?victims = ?n" by (simp add: max_open_session_handles_def)
  have vic: "distinct ?victims" "set ?victims \<subseteq> fst ` set rs" "keep \<notin> set ?victims"
    using order by (auto dest: in_set_takeD)
  from False assms(4) have rs': "rs' = filter (\<lambda>(sid, h). sid \<notin> set ?victims) rs"
    by (simp add: evict_idle_recorders_def Let_def)
  from length_filter_keys[OF assms(2) vic(1,2)] len have "length rs' \<le> max_open_session_handles"
    unfolding rs' by linarith
  moreover have "keep \<in> fst ` set rs'" using vic(3) assms(3) unfolding rs' by force
  ultimately show ?thesis unfolding rs' using assms(2) by (simp add: distinct_map_filter)
qed

lemma recorders_sync [simp]: "recorders (sync_disk h st) = recorders st"
  by (simp add: sync_disk_def)

lemma recorders_upsert: "upsert_index m st = (r, st') \<Longrightarrow> recorders st' = recorders st"
  by (auto simp: upsert_index_def split: sum.splits)

lemma recorders_drop [simp]: "recorders (drop_handle E h st) = recorders st"
  by (simp add: drop_handle_def split: prod.splits)

lemma recorders_drops [simp]: "recorders (fold (drop_handle E) hs st) = recorders st"
  by (induction hs arbitrary: st) simp_all

lemma recorders_shutdown_evicted: "shutdown_evicted_recorders E hs st = (r, st') \<Longrightarrow> recorders st' = recorders st"
proof (induction hs arbitrary: st)
  case (Cons h hs)
  obtain q h' where down: "shutdown_handle (env_platform E) (env_codec E) (next_fault E st) h = (q, h')"
    by (rule prod.exhaust)
  show ?case
  proof (cases q)
    case (Inl err)
    with Cons.prems down show ?thesis by auto
  next
    case (Inr m)
    obtain u st1 where up: "upsert_index m (sync_disk h' st) = (u, st1)" by (rule prod.exhaust)
    from recorders_upsert[OF up] have "recorders st1 = recorders st" by simp
    moreover from Cons.prems down Inr up
    have "st' = fold (drop_handle E) hs st1 \<or> shutdown_evicted_recorders E hs st1 = (r, st')"
      by (cases u) auto
    ultimately show ?thesis using Cons.IH[of st1] by auto
  qed
qed simp

lemma few_put:
  "few_handles st \<Longrightarrow> sid \<in> fst ` set (recorders st) \<Longrightarrow>
     few_handles (put_handle sid h st) \<and> sid \<in> fst ` set (recorders (put_handle sid h st))
     \<and> map fst (recorders (put_handle sid h st)) = map fst (recorders st)"
proof -
  assume few: "few_handles st" and mem: "sid \<in> fst ` set (recorders st)"
  from mem have keys: "map fst (recorders (put_handle sid h st)) = map fst (recorders st)"
    by (simp add: put_handle_def update_keys)
  then have "length (recorders (put_handle sid h st)) = length (recorders st)" by (metis length_map)
  moreover from keys have "fst ` set (recorders (put_handle sid h st)) = fst ` set (recorders st)" by (metis set_map)
  ultimately show ?thesis using few mem keys by (simp add: few_handles_def)
qed

lemma few_upsert: "upsert_index m st = (r, st') \<Longrightarrow> few_handles st' = few_handles st"
  by (simp add: few_handles_def recorders_upsert)

lemma few_sync [simp]: "few_handles (sync_disk h st) = few_handles st"
  by (simp add: few_handles_def)

lemma few_drop: "few_handles (drop_handle E h st) = few_handles st"
  by (simp add: few_handles_def)

lemma key_of_update: "sid \<in> fst ` set (AList.update sid h rs)"
  by (simp add: AList.update_conv' flip: dom_map_of_conv_image_fst)

lemma admit_few:
  assumes "iterates_keys E" "few_handles st" "admit_handle E sid h st = (r, st')"
  shows "few_handles st' \<and> sid \<in> fst ` set (recorders st')"
proof -
  obtain hs rs where ev: "evict_idle_recorders E sid (AList.update sid h (recorders st)) = (hs, rs)" by (rule prod.exhaust)
  have "distinct (map fst (AList.update sid h (recorders st)))"
    using assms(2) by (simp add: few_handles_def distinct_update)
  from evict_few[OF assms(1) this key_of_update ev] recorders_shutdown_evicted[of E hs] assms(3) ev
  show ?thesis by (fastforce simp: admit_handle_def few_handles_def)
qed

lemma handle_for_session_few:
  assumes "iterates_keys E" "few_handles st" "handle_for_session E sid st = (r, st')"
  shows "few_handles st' \<and> (\<forall>h. r = Ok h \<longrightarrow> sid \<in> fst ` set (recorders st'))"
proof (cases "map_of (recorders st) sid")
  case (Some h)
  with assms show ?thesis by (auto simp: handle_for_session_def dest: map_of_SomeD intro: rev_image_eqI)
next
  case None
  with assms(3) have "st' = st \<and> (\<exists>e. r = Err e) \<or> (\<exists>h q. admit_handle E sid h st = (q, st'))"
    unfolding handle_for_session_def Let_def option.case
    by (elim case_prodE | clarsimp split: sum.splits if_splits prod.splits)+
  with assms(2) admit_few[OF assms(1,2)] show ?thesis by blast
qed

lemma handle_for_change_few:
  assumes "iterates_keys E" "few_handles st" "handle_for_change E sid st = (r, st')"
  shows "few_handles st' \<and> (\<forall>h. r = Ok h \<longrightarrow> sid \<in> fst ` set (recorders st'))"
proof -
  obtain q st1 where h: "handle_for_session E sid st = (q, st1)" by (rule prod.exhaust)
  show ?thesis
  proof (cases q)
    case (Inl err)
    with handle_for_session_few[OF assms(1,2) h] assms(3) h show ?thesis by (auto simp: handle_for_change_def)
  next
    case (Inr h0)
    with handle_for_session_few[OF assms(1,2) h] have st1: "few_handles st1" "sid \<in> fst ` set (recorders st1)" by auto
    from Inr assms(3) h have "\<exists>h'. st' = put_handle sid h' st1"
      by (auto simp: handle_for_change_def split: prod.splits sum.splits if_splits)
    with few_put[OF st1] show ?thesis by blast
  qed
qed

lemma persist_new_few:
  assumes "few_handles st" "sid \<in> fst ` set (recorders st)" "persist_new_entries E sid h es st = (r, st')"
  shows "few_handles st'"
proof (cases "buffer_many es (handle_recorder h)")
  case (Pair b rec)
  show ?thesis
  proof (cases b)
    case (Inl err)
    with Pair assms show ?thesis by (simp add: persist_new_entries_def)
  next
    case (Inr u)
    with Pair assms(3) have "\<exists>h'. st' = put_handle sid h' st \<or> (\<exists>m q. upsert_index m (put_handle sid h' st) = (q, st'))"
      by (auto simp: persist_new_entries_def split: prod.splits sum.splits)
    with few_put[OF assms(1,2)] few_upsert show ?thesis by blast
  qed
qed

lemma append_few:
  assumes "iterates_keys E" "few_handles st" "local_append_entries E sid kinds st c = Some (r, st', c')"
  shows "few_handles st'"
proof (cases "st' = st")
  case False
  with assms(3) obtain q st1 where h: "handle_for_change E sid st = (q, st1)"
    and rest: "st' = st1 \<or> (\<exists>h es p. q = Ok h \<and> persist_new_entries E sid h es st1 = (p, st'))"
    by (auto simp: local_append_entries_def Let_def split: if_splits sum.splits prod.splits option.splits)
  from handle_for_change_few[OF assms(1,2) h] rest persist_new_few show ?thesis by blast
qed (use assms(2) in simp)

lemma set_leaf_few:
  assumes "iterates_keys E" "few_handles st" "local_set_leaf E sid leaf st c = Some (r, st', c')"
  shows "few_handles st'"
proof -
  obtain q st1 where h: "handle_for_change E sid st = (q, st1)" by (rule prod.exhaust)
  with assms(3) have rest: "st' = st1 \<or> (\<exists>h es p. q = Ok h \<and> persist_new_entries E sid h es st1 = (p, st'))"
    by (cases q) (auto simp: local_set_leaf_def Let_def split: sum.splits prod.splits option.splits)
  from handle_for_change_few[OF assms(1,2) h] rest persist_new_few show ?thesis by blast
qed

lemma create_few:
  assumes "iterates_keys E" "few_handles st" "local_create_session E header st c = Some (r, st', c')"
  shows "few_handles st'"
proof -
  have synced: "few_handles (sync_disk h st)" for h using assms(2) by simp
  show ?thesis
    using assms(2,3) unfolding local_create_session_def Let_def
    by (auto split: prod.splits sum.splits simp: few_drop few_upsert dest!: admit_few[OF assms(1) synced])
qed

lemma flush_handle_few:
  assumes "few_handles st" "sid \<in> fst ` set (recorders st)" "flush_handle E sid h st = (r, st')"
  shows "few_handles st' \<and> map fst (recorders st') = map fst (recorders st)"
proof -
  from assms(3) have "\<exists>h'. st' = put_handle sid h' st \<or> (\<exists>m q. upsert_index m (put_handle sid h' st) = (q, st'))"
    by (auto simp: flush_handle_def split: prod.splits sum.splits)
  with few_put[OF assms(1,2)] few_upsert recorders_upsert show ?thesis by metis
qed

lemma flush_handles_few:
  assumes "few_handles st" "fst ` set hs \<subseteq> fst ` set (recorders st)" "flush_handles E hs st = (r, st')"
  shows "few_handles st'"
  using assms
proof (induction hs arbitrary: st)
  case (Cons x hs)
  obtain sid h where x: "x = (sid, h)" by (rule prod.exhaust)
  obtain q st1 where f: "flush_handle E sid h st = (q, st1)" by (rule prod.exhaust)
  from Cons.prems(2) x have "sid \<in> fst ` set (recorders st)" by auto
  from flush_handle_few[OF Cons.prems(1) this f] have few: "few_handles st1"
    and keys: "set (map fst (recorders st1)) = set (map fst (recorders st))" by simp_all
  from keys Cons.prems(2) have "fst ` set hs \<subseteq> fst ` set (recorders st1)" by auto
  with Cons.IH[OF few] Cons.prems(3) few f x show ?case by (auto split: sum.splits)
qed simp

lemma local_step_few:
  assumes "local_step E st st'" "iterates_keys E" "few_handles st"
  shows "few_handles st'"
  using assms(1)
proof cases
  case create then show ?thesis by (rule create_few[OF assms(2,3)])
next
  case append then show ?thesis by (rule append_few[OF assms(2,3)])
next
  case set_leaf then show ?thesis by (rule set_leaf_few[OF assms(2,3)])
next
  case query then show ?thesis using handle_for_session_few[OF assms(2,3)] by blast
next
  case (list_sessions project_dir repair r)
  with assms(3) show ?thesis by (auto simp: local_list_sessions_def few_handles_def split: prod.splits)
next
  case (flush sid r)
  obtain q st1 where h: "handle_for_session E sid st = (q, st1)" by (rule prod.exhaust)
  note opened = handle_for_session_few[OF assms(2,3) h]
  show ?thesis
  proof (cases q)
    case (Inl err)
    with opened flush h show ?thesis by (simp add: local_flush_def)
  next
    case (Inr h0)
    with flush h have "flush_handle E sid h0 st1 = (r, st')" by (simp add: local_flush_def)
    from flush_handle_few[OF _ _ this] opened Inr show ?thesis by blast
  qed
next
  case (flush_all r)
  have "fst ` set (in_hash_order E (recorders st)) \<subseteq> fst ` set (recorders st)"
  proof
    fix sid assume "sid \<in> fst ` set (in_hash_order E (recorders st))"
    then have "map_of (recorders st) sid \<noteq> None"
      by (auto simp: in_hash_order_def List.map_filter_def)
    then show "sid \<in> fst ` set (recorders st)" by (auto simp: map_of_eq_None_iff)
  qed
  with flush_handles_few[OF assms(3)] flush_all show ?thesis by (simp add: local_flush_all_def)
qed

lemma local_reachable_few:
  assumes "local_reachable E st" "iterates_keys E"
  shows "few_handles st"
  using assms(1)
proof induction
  case (opened d existing st idx)
  then show ?case by (auto simp: open_in_def few_handles_def split: option.splits prod.splits sum.splits)
qed (rule local_step_few[OF _ assms(2)])

section \<open>Success without failures\<close>

lemma write_batch_NoFault:
  assumes "\<forall>e\<in>set es. to_json C e \<noteq> None"
  shows "fst (write_batch C NoFault es w f) = Ok ()"
  using write_entries_eq[OF assms, of "[]"]
  by (auto simp: write_batch_def file_mut_def)

lemma persist_pending_NoFault:
  assumes "\<forall>e\<in>set (pending_entries w). to_json C e \<noteq> None"
  shows "fst (persist_pending C NoFault w f) = Ok ()"
proof -
  obtain r w' f' where "write_batch C NoFault (pending_entries w) (writer w) f = (r, w', f')" by (rule prod_cases3)
  with write_batch_NoFault[OF assms, of "writer w" f] show ?thesis by (simp add: persist_pending_def)
qed

lemma recorder_call_NoFault:
  assumes "running r" "alive r" "channel r = [] \<and> w = worker r
      \<or> (\<exists>es. channel r = [Buffer es] \<and> w = (worker r)\<lparr>pending_entries := pending_entries (worker r) @ es\<rparr>)"
    "c = Persist \<or> c = Flush" "\<forall>e\<in>set (pending_entries w). to_json C e \<noteq> None"
  shows "fst (recorder_call C NoFault c r) = Ok ()"
proof -
  obtain res w' f' where p: "persist_pending C NoFault w (log_file r) = (res, w', f')" by (rule prod_cases3)
  with persist_pending_NoFault[OF assms(5), of "log_file r"] have "res = Ok ()" by simp
  with recorder_call_answer[OF assms(1-4) p] show ?thesis by simp
qed

lemma persist_new_ok:
  assumes "handle_inv C h" "pending_state (handle_state h) = []" "es \<noteq> []"
    "session_log (state_entries (handle_state h) @ es)" "env_codec E = C" "next_fault E st = NoFault"
    "\<forall>e\<in>set es. to_json C e \<noteq> None"
  shows "\<exists>st'. persist_new_entries E sid h es st = (Ok (), st')"
proof -
  let ?r = "handle_recorder h" and ?s = "handle_state h"
  from assms(1) have log: "session_log (state_entries ?s)" and ids: "state_ids ?s = entry_ids (state_entries ?s)"
    and rec: "running ?r" "alive ?r" "channel ?r = []" by (auto simp: handle_inv_def)
  have buf: "buffer_many es ?r = (Ok (), ?r\<lparr>channel := [Buffer es]\<rparr>)"
    using assms(3) rec by (simp add: buffer_many_def record_command_capacity_def)
  obtain res r' where call: "recorder_call C NoFault Persist (?r\<lparr>channel := [Buffer es]\<rparr>) = (res, r')"
    by (rule prod.exhaust)
  have "pending_entries (worker ?r) = []" using handle_inv_pending[OF assms(1)] assms(2) by simp
  then have "res = Ok ()"
    using recorder_call_NoFault[of "?r\<lparr>channel := [Buffer es]\<rparr>"
        "(worker ?r)\<lparr>pending_entries := pending_entries (worker ?r) @ es\<rparr>" Persist C] rec assms(7) call by simp
  moreover have "state_entries ?s \<noteq> []" using log by (simp add: session_log_def)
  from push_entries_Ok[OF assms(4) this ids, of "env_platform E" "log_file r'" "handle_path h"] assms(3) obtain s'
    where "push_entries (env_platform E) (log_file r') (handle_path h) es ?s = (Ok (), s')"
      "meta_total_tokens (state_meta s') = 0" by auto
  moreover from upsert_index_Ok[OF this(2), of "put_handle sid (h\<lparr>handle_recorder := r', handle_state := s'\<rparr>) st"]
  obtain idx where "upsert_index (state_meta s') (put_handle sid (h\<lparr>handle_recorder := r', handle_state := s'\<rparr>) st)
      = (Ok (), (put_handle sid (h\<lparr>handle_recorder := r', handle_state := s'\<rparr>) st)\<lparr>index := idx\<rparr>)" by blast
  ultimately show ?thesis using assms(5,6) buf call by (simp add: persist_new_entries_def)
qed

lemma handle_for_change_ok:
  assumes "open_ok C st sid h" "env_codec E = C" "next_fault E st = NoFault"
    "\<forall>e\<in>set (pending_state (handle_state h)). to_json C e \<noteq> None"
  shows "\<exists>h' st'. handle_for_change E sid st = (Ok h', st') \<and> handle_inv C h' \<and> faults_used st' = Suc (faults_used st)
     \<and> state_entries (handle_state h') = accepted h \<and> pending_state (handle_state h') = []"
proof -
  from assms(1) have look: "map_of (recorders st) sid = Some h" and inv: "handle_inv C h" by (auto simp: open_ok_def)
  let ?r = "handle_recorder h"
  from inv have rec: "running ?r" "alive ?r" "channel ?r = []" by (auto simp: handle_inv_def)
  obtain result h' where recover: "recover_pending_state_entries (env_platform E) C NoFault h = (result, h')"
    by (rule prod.exhaust)
  have clean: "clean_fault C (pending_state (handle_state h)) NoFault" by (simp add: clean_fault_def)
  have "result = Ok ()"
  proof (cases "pending_state (handle_state h) = []")
    case True
    with recover show ?thesis by (simp add: recover_pending_state_entries_def)
  next
    case False
    then have flush: "flush_recorder_and_commit_pending (env_platform E) C NoFault h = (result, h')"
      using recover by (simp add: recover_pending_state_entries_def)
    have "fst (recorder_call C NoFault Flush ?r) = Ok ()"
      using recorder_call_NoFault[of ?r "worker ?r" Flush C] rec handle_inv_pending[OF inv] assms(4) by simp
    moreover from inv have "session_log (state_entries (handle_state h) @ pending_state (handle_state h))"
      "state_entries (handle_state h) \<noteq> []" "state_ids (handle_state h) = entry_ids (state_entries (handle_state h))"
      by (auto simp: handle_inv_def accepted_def session_log_def)
    from commit_pending_Ok[OF this] have "fst (commit_pending_state_entries P f path (handle_state h)) = Ok ()" for P f path
      by (metis fst_conv)
    ultimately show ?thesis using flush
      by (auto simp: flush_recorder_and_commit_pending_def split: prod.splits sum.splits) (metis fst_conv)
  qed
  with recover_inv[OF inv clean recover] have h': "handle_inv C h'" "state_entries (handle_state h') = accepted h"
    "pending_state (handle_state h') = []" by auto
  from h'(1) have "state_entries (handle_state h') \<noteq> []" by (auto simp: handle_inv_def session_log_def)
  with h' look recover assms(2,3) \<open>result = Ok ()\<close> show ?thesis
    by (simp add: handle_for_change_def handle_for_session_def put_handle_def sync_disk_def)
qed

lemma append_writes:
  assumes "open_ok C st sid h" "env_codec E = C"
    "next_fault E st = NoFault" "io_faults E (Suc (faults_used st)) = NoFault"
    "\<forall>e\<in>set (pending_state (handle_state h)). to_json C e \<noteq> None"
    "validate_append_kinds kinds = Ok ()" "kinds \<noteq> []" "\<forall>k\<in>set kinds. \<not> is_leaf_kind k"
    "build_batch (env_platform E) (entry_ids (accepted h)) {}
       (append_parent_id (accepted h), latest_non_leaf_id (accepted h)) kinds [] c = Some (Ok es, c')"
    "\<forall>e\<in>set es. to_json C e \<noteq> None"
  shows "\<exists>st' h'. local_append_entries E sid kinds st c = Some (Ok (map entry_id es), st', c')
     \<and> open_ok C st' sid h' \<and> accepted h' = accepted h @ es \<and> pending_state (handle_state h') = []
     \<and> meta_total_tokens (state_meta (handle_state h')) = 0"
proof -
  from handle_for_change_ok[OF assms(1,2,3,5)] obtain h' st1
    where change: "handle_for_change E sid st = (Ok h', st1)" "faults_used st1 = Suc (faults_used st)"
      and inv: "handle_inv C h'" and entries: "state_entries (handle_state h') = accepted h" "pending_state (handle_state h') = []"
    by blast
  from inv entries(1) have ids: "state_ids (handle_state h') = entry_ids (accepted h)" and log: "session_log (accepted h)"
    by (auto simp: handle_inv_def)
  from assms(9) have "build_batch (env_platform E) (entry_ids (accepted h)) (entry_ids [])
      (projection_of (accepted h @ [])) kinds [] c = Some (Ok es, c')"
    by (simp add: projection_of_def entry_ids_def)
  from build_batch_chained[OF this] have es: "chained (accepted h) es" "map kind es = kinds" by auto
  with assms(8) have "\<forall>e\<in>set es. \<not> is_leaf_kind (kind e)" by auto
  from chained_session_log[OF log es(1) this] have new_log: "session_log (state_entries (handle_state h') @ es)"
    by (simp add: entries(1))
  have some: "es \<noteq> []" using es(2) assms(7) by auto
  with new_log obtain st2 where persist: "persist_new_entries E sid h' es st1 = (Ok (), st2)"
    using persist_new_ok[OF inv entries(2) _ _ assms(2) _ assms(10), of st1 sid] assms(4) change(2) by auto
  have "clean_fault C es (next_fault E st1)" using assms(4) change(2) by (simp add: clean_fault_def)
  from persist_new_inv[OF inv entries(2) some new_log assms(2) this persist] obtain h2 where "open_ok C st2 sid h2"
    "accepted h2 = accepted h @ es" "pending_state (handle_state h2) = []" "meta_total_tokens (state_meta (handle_state h2)) = 0"
    by (auto simp: entries(1))
  with persist assms(6,7,9) change(1) ids entries(1) show ?thesis
    by (simp add: local_append_entries_def Let_def) blast
qed

lemma append_succeeds:
  assumes "open_ok C st sid h" "env_codec E = C"
    "next_fault E st = NoFault" "io_faults E (Suc (faults_used st)) = NoFault"
    "\<forall>e\<in>set (pending_state (handle_state h)). to_json C e \<noteq> None"
    "validate_append_kinds kinds = Ok ()" "kinds \<noteq> []" "\<forall>k\<in>set kinds. \<not> is_leaf_kind k"
    "build_batch (env_platform E) (entry_ids (accepted h)) {}
       (append_parent_id (accepted h), latest_non_leaf_id (accepted h)) kinds [] c = Some (Ok es, c')"
    "\<forall>e\<in>set es. to_json C e \<noteq> None"
  shows "\<exists>st'. local_append_entries E sid kinds st c = Some (Ok (map entry_id es), st', c')"
  using append_writes[OF assms] by blast

lemma flush_succeeds:
  assumes "open_ok C st sid h" "env_codec E = C" "next_fault E st = NoFault"
    "pending_state (handle_state h) \<noteq> [] \<or> meta_total_tokens (state_meta (handle_state h)) = 0"
    "\<forall>e\<in>set (pending_state (handle_state h)). to_json C e \<noteq> None"
  shows "\<exists>st'. local_flush E sid st = (Ok (), st')"
proof -
  from assms(1) have look: "map_of (recorders st) sid = Some h" and inv: "handle_inv C h" by (auto simp: open_ok_def)
  let ?r = "handle_recorder h" and ?s = "handle_state h"
  from inv have rec: "running ?r" "alive ?r" "channel ?r = []" by (auto simp: handle_inv_def)
  obtain res r' where call: "recorder_call C NoFault Flush ?r = (res, r')" by (rule prod.exhaust)
  with recorder_call_NoFault[of ?r "worker ?r" Flush C] rec handle_inv_pending[OF inv] assms(5) have "res = Ok ()" by simp
  moreover from inv have "session_log (state_entries ?s @ pending_state ?s)"
    "state_entries ?s \<noteq> []" "state_ids ?s = entry_ids (state_entries ?s)"
    by (auto simp: handle_inv_def accepted_def session_log_def)
  from commit_pending_Ok[OF this, of "env_platform E" "log_file r'" "handle_path h"] assms(4) obtain s'
    where "commit_pending_state_entries (env_platform E) (log_file r') (handle_path h) ?s = (Ok (), s')"
      "meta_total_tokens (state_meta s') = 0" by auto
  moreover from upsert_index_Ok[OF this(2), of "put_handle sid (h\<lparr>handle_recorder := r', handle_state := s'\<rparr>) st"]
  obtain idx where "upsert_index (state_meta s') (put_handle sid (h\<lparr>handle_recorder := r', handle_state := s'\<rparr>) st)
      = (Ok (), (put_handle sid (h\<lparr>handle_recorder := r', handle_state := s'\<rparr>) st)\<lparr>index := idx\<rparr>)" by blast
  ultimately show ?thesis using look call assms(2,3)
    by (simp add: local_flush_def handle_for_session_def flush_handle_def flush_recorder_and_commit_pending_def)
qed

end
