(* ===== verification/Local_Samples.thy ===== *)
theory Local_Samples
  imports File_Samples Local_Runs
begin

text \<open>
  A concrete store on disk with one open session, a codec for the entries it gets, a store in
  memory with the same session, and runs of their operations.
\<close>

definition e_new :: session_entry where
  "e_new = \<lparr>entry_id = short_entry_id 1, parent_id = Some (lit ''header''), timestamp = 0,
     kind = Item (item_text User (lit ''hello''))\<rparr>"

definition e_moved :: session_entry where
  "e_moved = \<lparr>entry_id = short_entry_id 2, parent_id = Some (lit ''header''), timestamp = 0,
     kind = Leaf (Some (lit ''header''))\<rparr>"

definition codec1 :: codec where "codec1 = codec_for [e_header, e_new, e_moved]"

lemma short_entry_id_char: "c \<in> set (short_entry_id u) \<Longrightarrow> 48 \<le> c \<and> c < 125"
proof -
  assume "c \<in> set (short_entry_id u)"
  then obtain a :: nat where "c = hex_digit (a mod 16)" unfolding short_entry_id_def by auto
  then show ?thesis by (simp add: hex_digit_def) (use mod_less_divisor[of 16 a] in linarith)
qed

lemma short_ids_fresh: "short_entry_id u \<noteq> lit ''header''" "short_entry_id 1 \<noteq> short_entry_id 2"
proof -
  show "short_entry_id u \<noteq> lit ''header''"
  proof
    assume "short_entry_id u = lit ''header''"
    from arg_cong[OF this, of length] show False by (simp add: lit_def)
  qed
  show "short_entry_id 1 \<noteq> short_entry_id 2" by (simp add: short_entry_id_eq_iff)
qed

lemma codec1_encodes: "e \<in> {e_header, e_new, e_moved} \<Longrightarrow> encodes codec1 e"
  unfolding codec1_def
proof (rule codec_for_encodes)
  have header: "entry_id e_header = lit ''header''" by (simp add: sample_entries)
  show "distinct (map entry_id [e_header, e_new, e_moved])"
    using short_ids_fresh short_ids_fresh(1)[symmetric] by (simp add: header) (simp add: e_new_def e_moved_def)
  show "\<forall>d\<in>set [e_header, e_new, e_moved]. \<forall>c\<in>set (entry_id d). is_scalar c \<and> 32 \<le> c \<and> c \<noteq> 125"
    using short_entry_id_char by (fastforce simp: header e_new_def e_moved_def lit_def is_scalar_def)
qed simp

lemma codec1_ok: "codec_ok codec1"
  using codec1_encodes by (auto simp: codec_ok_def) (auto simp: codec1_def codec_for_def split: if_splits)

lemma codec1_to_json: "e \<in> {e_header, e_new, e_moved} \<Longrightarrow> to_json codec1 e \<noteq> None"
  by (auto simp: codec1_def codec_for_def)

definition path0 :: ustring where "path0 = lit ''/h/sessions/--repo--/s.jsonl''"

definition handle_of :: "codec \<Rightarrow> local_handle" where
  "handle_of C = projr (new_handle platform0 path0 (Some (log_lines C [e_header])) [e_header])"

definition handle0 :: local_handle where "handle0 = handle_of codec1"

definition local_env0 :: local_env where
  "local_env0 = \<lparr>local_index_env = \<lparr>index_platform = platform0, index_codec = codec1,
       index_modified = (\<lambda>_. 5), sessions_dir = lit ''/h/sessions''\<rparr>,
     hunea_dir = lit ''/h'', io_faults = (\<lambda>_. NoFault), hash_order = (\<lambda>sids. sids)\<rparr>"

definition local0 :: local_store where
  "local0 = put_handle 7 handle0 \<lparr>recorders = [], index = empty_index, store_disk = [], faults_used = 0\<rparr>"

definition cursor0 :: cursor where "cursor0 = \<lparr>uuid_at = 0, clock_at = 0\<rparr>"
definition cursor1 :: cursor where "cursor1 = \<lparr>uuid_at = 1, clock_at = 0\<rparr>"

lemma header_log: "session_log [e_header]"
  by (simp add: session_log_def is_header_kind_def leaf_links_def sample_entries)

lemma handle_of_inv:
  assumes "to_json C e_header \<noteq> None"
  shows "handle_inv C (handle_of C) \<and> accepted (handle_of C) = [e_header] \<and> handle_path (handle_of C) = path0
     \<and> pending_state (handle_state (handle_of C)) = []
     \<and> handle_recorder (handle_of C) = new_recorder (Some (log_lines C [e_header]))"
proof -
  have "recorder_inv C [e_header] new_worker (Some (log_lines C [e_header])) [e_header]"
  proof (rule recorder_invI[where k = 0])
    show "file_content (Some (log_lines C [e_header])) = log_lines C [e_header]"
      by (simp add: file_content_def)
  qed (use assms in \<open>simp_all add: new_worker_def\<close>)
  from new_handle_open[OF header_log this, of platform0 path0] show ?thesis
    by (auto simp: handle_of_def)
qed

lemma handle0_inv:
  "handle_inv codec1 handle0 \<and> accepted handle0 = [e_header] \<and> handle_path handle0 = path0
     \<and> pending_state (handle_state handle0) = []
     \<and> handle_recorder handle0 = new_recorder (Some (log_lines codec1 [e_header]))"
  unfolding handle0_def by (rule handle_of_inv) (simp add: codec1_to_json)

lemma local0_open: "open_ok codec1 local0 7 handle0"
  unfolding local0_def using handle0_inv by (intro put_handle_open) simp

lemma local_env0_simps [simp]:
  "env_codec local_env0 = codec1" "env_platform local_env0 = platform0" "io_faults local_env0 n = NoFault"
  by (simp_all add: local_env0_def)

lemma header_projection: "append_parent_id [e_header] = Some (lit ''header'')"
  "latest_non_leaf_id [e_header] = Some (lit ''header'')" "entry_ids [e_header] = {lit ''header''}"
  by (simp_all add: append_parent_id_def latest_non_leaf_id_def entry_ids_def sample_entries)

lemma generate0:
  "generate_entry_id platform0 {lit ''header''} cursor0 = Some (short_entry_id 1, \<lparr>uuid_at = 1, clock_at = 0\<rparr>)"
  "generate_entry_id platform0 {lit ''header''} cursor1 = Some (short_entry_id 2, \<lparr>uuid_at = 2, clock_at = 0\<rparr>)"
  using short_ids_fresh(1)
  by (simp_all add: generate_entry_id_def generate_entry_id_with_def entry_id_retry_limit_def platform0_def
      cursor0_def cursor1_def numeral_eq_Suc)

lemma batch0:
  "build_batch platform0 {lit ''header''} {} (Some (lit ''header''), Some (lit ''header''))
     [Item (item_text User (lit ''hello''))] [] cursor0 = Some (Ok [e_new], \<lparr>uuid_at = 1, clock_at = 1\<rparr>)"
proof -
  have "unused_id_loop platform0 {lit ''header''} {} cursor0 = Some (short_entry_id 1, \<lparr>uuid_at = 1, clock_at = 0\<rparr>)"
    by (subst unused_id_loop.simps) (simp add: generate0)
  then show ?thesis by (simp add: current_timestamp_ms_def platform0_def e_new_def)
qed

lemma local0_faults: "append_faults_clean local_env0 local0 handle0 kinds"
  by (simp add: append_faults_clean_def clean_fault_def)

lemma local0_append:
  "\<exists>st'. local_append_many local_env0 7 [item_text User (lit ''hello'')] local0 cursor0
     = Some (Ok [entry_id e_new], st', \<lparr>uuid_at = 1, clock_at = 1\<rparr>)"
proof -
  have "validate_append_kinds [Item (item_text User (lit ''hello''))] = Ok ()"
    by (simp add: item_text_def has_tool_call_def)
  with append_succeeds[OF local0_open local_env0_simps(1), where kinds = "[Item (item_text User (lit ''hello''))]" and es = "[e_new]"]
    batch0 handle0_inv codec1_to_json header_projection
  show ?thesis by (simp add: local_append_many_def)
qed

lemma local0_set_leaf:
  "\<exists>st'. local_set_leaf local_env0 7 (Some (lit ''header'')) local0 cursor1
     = Some (Ok (), st', \<lparr>uuid_at = 2, clock_at = 1\<rparr>)"
proof -
  from handle_for_change_ok[OF local0_open local_env0_simps(1)] handle0_inv obtain h' st1
    where change: "handle_for_change local_env0 7 local0 = (Ok h', st1)"
      and inv: "handle_inv codec1 h'" and entries: "state_entries (handle_state h') = [e_header]"
        "pending_state (handle_state h') = []" by auto
  from inv entries(1) have ids: "state_ids (handle_state h') = {lit ''header''}"
    by (simp add: handle_inv_def header_projection)
  have "session_log ([e_header] @ [e_moved])"
    unfolding e_moved_def
    by (rule session_log_append[OF header_log]) (use short_ids_fresh in \<open>auto simp: header_projection\<close>)
  with persist_new_ok[OF inv entries(2) _ _ local_env0_simps(1), of "[e_moved]" st1 7] codec1_to_json entries(1)
  obtain st2 where "persist_new_entries local_env0 7 h' [e_moved] st1 = (Ok (), st2)" by auto
  with change ids entries(1) generate0(2) show ?thesis
    by (simp add: local_set_leaf_def require_existing_entry_def header_projection current_timestamp_ms_def
        e_moved_def) (simp add: platform0_def header_projection)
qed

section \<open>A log with nothing but its header\<close>

lemma header_only_path:
  assumes "session_log [e]" "parent_id e = None"
  shows "active_path [e] = [e]"
proof -
  note wf = session_log_wf[OF assms(1)]
  have mem: "e \<in> set [e]" by simp
  have "root_path (index_of [e]) e [e]" by (rule root_path.root) (rule assms(2))
  from root_path_unique[OF groundedD(2)[OF log_wf_grounded[OF wf] log_wf_lookup[OF wf mem]] this]
  have "ancestry (index_of [e]) e = [e]" .
  moreover have "\<not> is_leaf_kind (kind e)" using assms(1) by (simp add: session_log_def header_not_leaf)
  then have "append_parent_id [e] = Some (entry_id e)"
    using append_parent_id_snoc[of "[]" e] by (auto simp: is_leaf_kind_def split: entry_kind.splits)
  from active_path_eq[OF assms(1) this mem] calculation show ?thesis by simp
qed

lemma header_only_items:
  assumes "session_log [e]" "parent_id e = None"
  shows "query_items [e] None = Ok []"
proof -
  from assms(1) obtain h where h: "kind e = Header h"
    by (auto simp: session_log_def is_header_kind_def split: entry_kind.splits)
  then have plain: "\<forall>x\<in>set [e]. compaction_of x = None" by (simp add: compaction_of_def)
  have "query_state [e] None = Ok (assemble_state [e] [] None 0)"
    by (simp add: query_default[OF assms(1)] header_only_path[OF assms] resolve_state_plain[OF plain])
  then show ?thesis
    by (simp add: query_items_eq assemble_state_def resolved_item_of_def item_of_def h)
qed

section \<open>A store in memory\<close>

definition mem_header :: session_entry where
  "mem_header = \<lparr>entry_id = header_id, parent_id = None, timestamp = 0,
     kind = Header (header0\<lparr>header_session_id := 1\<rparr>)\<rparr>"

definition memory0 :: memory_store where
  "memory0 = \<lparr>sessions = [(1, \<lparr>session_entries = [mem_header],
     session_path = session_filename (show_uuid platform0) 1\<rparr>)], message_history = empty_history\<rparr>"

lemma memory0_created:
  "memory_create_session platform0 header0 new_memory_store cursor0 = Some (Ok 1, memory0, \<lparr>uuid_at = 1, clock_at = 1\<rparr>)"
  by (simp add: memory_create_session_def new_session_id_def current_timestamp_ms_def cursor0_def
      new_memory_store_def memory0_def mem_header_def) (simp add: platform0_def)

lemma memory0_reachable: "memory_reachable platform0 (memory0, \<lparr>uuid_at = 1, clock_at = 1\<rparr>)"
  by (rule memory_reachable.step[OF memory_reachable.start memory_step.create[OF memory0_created]])

lemma memory0_session: "map_of (sessions memory0) 1 = Some \<lparr>session_entries = [mem_header],
     session_path = session_filename (show_uuid platform0) 1\<rparr>"
  by (simp add: memory0_def)

lemma mem_header_log: "session_log [mem_header]"
  unfolding mem_header_def by (rule session_log_start) (simp add: is_header_kind_def)

lemma memory0_resolve: "memory_resolve memory0 1 None = Ok []"
  using header_only_items[OF mem_header_log] memory0_session
  by (simp add: memory_resolve_def with_session_def mem_header_def)

lemma generate1:
  "generate_entry_id platform0 {header_id} \<lparr>uuid_at = 1, clock_at = 1\<rparr> = Some (short_entry_id 2, \<lparr>uuid_at = 2, clock_at = 1\<rparr>)"
  using short_ids_fresh(1)
  by (simp add: generate_entry_id_def generate_entry_id_with_def entry_id_retry_limit_def platform0_def
      header_id_def numeral_eq_Suc)

lemma memory0_append:
  "\<exists>st'. memory_append_many platform0 1 [item_text User (lit ''hello'')] memory0 \<lparr>uuid_at = 1, clock_at = 1\<rparr>
     = Some (Ok [short_entry_id 2], st', \<lparr>uuid_at = 2, clock_at = 2\<rparr>)"
proof -
  have "entry_ids [mem_header] = {header_id}" by (simp add: entry_ids_def mem_header_def)
  then show ?thesis
    using generate1
    by (simp add: memory_append_many_def memory_append_entries_def memory0_session item_text_def has_tool_call_def
        current_timestamp_ms_def) (simp add: platform0_def)
qed

lemma memory0_set_leaf:
  "\<exists>st'. memory_set_leaf platform0 1 (Some header_id) memory0 \<lparr>uuid_at = 1, clock_at = 1\<rparr>
     = Some (Ok (), st', \<lparr>uuid_at = 2, clock_at = 2\<rparr>)"
proof -
  have "entry_ids [mem_header] = {header_id}" by (simp add: entry_ids_def mem_header_def)
  then show ?thesis
    using generate1
    by (simp add: memory_set_leaf_def memory0_session current_timestamp_ms_def Let_def) (simp add: platform0_def)
qed

section \<open>A failed write\<close>

definition local_env1 :: local_env where
  "local_env1 = local_env0\<lparr>io_faults := (\<lambda>n. if n = 2 then OpenFails else NoFault)\<rparr>"

lemma local_env1_simps [simp]:
  "env_codec local_env1 = codec1" "env_platform local_env1 = platform0"
  "io_faults local_env1 n = (if n = 2 then OpenFails else NoFault)"
  by (simp_all add: local_env1_def local_env0_def)

lemma local1_append_fails:
  "\<exists>st1. local_append_entries local_env1 7 [Item (item_text User (lit ''hello''))] local0 cursor0
     = Some (Err IoError, st1, \<lparr>uuid_at = 1, clock_at = 1\<rparr>) \<and> faults_used st1 = 3
     \<and> (\<exists>h. open_ok codec1 st1 7 h \<and> accepted h = [e_header, e_new] \<and> pending_state (handle_state h) = [e_new])"
proof -
  let ?r = "handle_recorder handle0" and ?s = "handle_state handle0"
  have inv: "handle_inv codec1 handle0" and r: "?r = new_recorder (Some (log_lines codec1 [e_header]))"
    and pend: "pending_state ?s = []" and acc: "accepted handle0 = [e_header]"
    using handle0_inv by blast+
  from acc pend have h: "pending_state ?s = []" "state_entries ?s = [e_header]" by (simp_all add: accepted_def)
  from inv h(2) have ids: "state_ids ?s = {lit ''header''}" by (simp add: handle_inv_def header_projection)
  define st1 where "st1 = put_handle 7 handle0 local0"
  have used: "faults_used st1 = 2" by (simp add: st1_def put_handle_def sync_disk_def local0_def)
  have change: "handle_for_change local_env1 7 local0 = (Ok handle0, st1)"
    using local0_open h by (simp add: handle_for_change_def handle_for_session_def open_ok_def
        recover_pending_state_entries_def st1_def)
  have buf: "buffer_many [e_new] ?r = (Ok (), ?r\<lparr>channel := [Buffer [e_new]]\<rparr>)"
    by (simp add: buffer_many_def r new_recorder_def record_command_capacity_def)
  let ?w = "(worker ?r)\<lparr>pending_entries := [e_new]\<rparr>"
  have p: "persist_pending codec1 OpenFails ?w (log_file ?r) = (Err IoError, ?w\<lparr>writer := new_writer\<rparr>, log_file ?r)"
    by (simp add: persist_pending_def write_batch_def file_mut_def r new_recorder_def new_worker_def new_writer_def)
  define r1 where "r1 = ?r\<lparr>channel := [], worker := ?w\<lparr>writer := new_writer\<rparr>, log_file := log_file ?r\<rparr>"
  have call: "recorder_call codec1 OpenFails Persist (?r\<lparr>channel := [Buffer [e_new]]\<rparr>) = (Err IoError, r1)"
    using recorder_call_answer[of "?r\<lparr>channel := [Buffer [e_new]]\<rparr>" ?w Persist codec1 OpenFails] p
    by (simp add: r1_def) (simp add: r new_recorder_def new_worker_def)
  define h1 where "h1 = handle0\<lparr>handle_recorder := r1, handle_state := ?s\<lparr>pending_state := [e_new]\<rparr>\<rparr>"
  have "entry_id e_new \<noteq> lit ''header''" using short_ids_fresh(1) by (simp add: e_new_def)
  then have push: "push_pending_state_entries [e_new] ?s = (Ok (), ?s\<lparr>pending_state := [e_new]\<rparr>)"
    using push_pending_Ok[of "[e_new]" ?s] h ids by simp
  have persist: "persist_new_entries local_env1 7 handle0 [e_new] st1 = (Err IoError, put_handle 7 h1 st1)"
    using buf call push used by (simp add: persist_new_entries_def h1_def)
  have "session_log ([e_header] @ [e_new])"
    unfolding e_new_def
    by (rule session_log_append[OF header_log]) (use short_ids_fresh in \<open>auto simp: header_projection\<close>)
  with persist_new_inv[OF inv h(1) _ _ _ _ persist] h(2) used obtain h'
    where "open_ok codec1 (put_handle 7 h1 st1) 7 h'" "accepted h' = [e_header, e_new]"
    by (auto simp: clean_fault_def)
  moreover from this(1) have "h' = h1" by (simp add: open_ok_def put_handle_def AList.update_conv')
  moreover have "pending_state (handle_state h1) = [e_new]" by (simp add: h1_def)
  moreover have validated: "validate_append_kinds [Item (item_text User (lit ''hello''))] = Ok ()"
    by (simp add: item_text_def has_tool_call_def)
  have "local_append_entries local_env1 7 [Item (item_text User (lit ''hello''))] local0 cursor0
      = Some (Err IoError, put_handle 7 h1 st1, \<lparr>uuid_at = 1, clock_at = 1\<rparr>)"
    using change batch0 persist h ids validated
    by (simp add: local_append_entries_def Let_def header_projection del: build_batch.simps validate_append_kinds.simps)
  ultimately show ?thesis using used by (auto simp: put_handle_def sync_disk_def)
qed

section \<open>A disk with one log file\<close>

definition disk0 :: disk where
  "disk0 = [(path0, log_lines codec1 [e_header])]"

abbreviation index_env0 :: index_env where "index_env0 \<equiv> local_index_env local_env0"

definition found0 :: discovered_file where
  "found0 = \<lparr>found_path = path0, found_fp = \<lparr>fp_size = 9, fp_modified = 5\<rparr>\<rparr>"

definition meta0 :: session_meta where
  "meta0 = projr (derive_session_meta (show_uuid platform0) (canonicalize platform0) [e_header] path0 (Some 9))"

lemma log0_bytes: "log_lines codec1 [e_header] = [123, 104, 101, 97, 100, 101, 114, 125, 10]"
proof -
  have "to_json codec1 e_header = Some (braced e_header)" by (simp add: codec1_def codec_for_def)
  then show ?thesis
    by (simp add: body_def braced_def) (simp add: sample_entries lit_def utf8_encode_def utf8_char_def)
qed

lemma path0_listed:
  "in_directory (lit ''/h/sessions'' @ 47 # encoded_session_dir (lit ''/repo'')) path0"
  "in_directory (lit ''/h/sessions'') path0" "is_jsonl path0"
  by (simp_all add: in_directory_def is_jsonl_def path0_def lit_def encoded_session_dir_def)

lemma index_env0_simps [simp]:
  "sessions_dir index_env0 = lit ''/h/sessions''" "index_modified index_env0 p = 5"
  by (simp_all add: local_env0_def)

lemma collect0:
  "collect_jsonl_files (index_modified index_env0) disk0 (lit ''/h/sessions'' @ 47 # encoded_session_dir (lit ''/repo'')) = Ok [found0]"
  using path0_listed(1,3)
  by (simp add: collect_jsonl_files_def disk0_def file_fingerprint_of_def modified_time_ms_def i64_max_def
      found0_def log0_bytes del: log_lines_simps)

lemma load0: "load_file codec1 (map_of disk0 path0) = Ok [e_header]"
  using load_lines[of "[e_header]" codec1] codec1_encodes
  by (simp add: disk0_def del: log_lines_simps) (simp add: sample_entries)

lemma meta0_eq: "derive_session_meta (show_uuid platform0) (canonicalize platform0) [e_header] path0 (Some 9) = Ok meta0"
  "meta_project_dir meta0 = lit ''/repo''" "meta_session_id meta0 = 7" "meta_total_tokens meta0 = 0"
  "meta_jsonl_path meta0 = path0"
  by (simp_all add: meta0_def derive_session_meta_def finish_meta_def observe_def empty_deriver_def sample_entries
      header0_def platform0_def)

lemma extract0: "extract_session_meta index_env0 disk0 found0 = Ok (meta0, found_fp found0)"
  using extract_derives[of index_env0 disk0 found0 "[e_header]"] load0 meta0_eq(1)
  by (simp add: found0_def)

lemma repairable0: "repairable index_env0 disk0 (lit ''/repo'') [found0] (\<lambda>_. meta0) empty_index"
  using extract0 meta0_eq
  by (simp add: repairable_def index_ok_empty[unfolded empty_index_def] load_indexed_project_files_def empty_index_def)

lemma store0:
  "\<exists>idx. store_extracted empty_index (meta0, found_fp found0) = (Ok (), idx)"
  by (simp add: store_extracted_def upsert_session_row_def checked_i64_def meta0_eq i64_max_def
      upsert_repair_state_def found0_def empty_index_def)

lemma repair0: "\<exists>idx. repair_project_from_jsonl index_env0 disk0 (lit ''/repo'') empty_index = (Ok (), idx)"
  using store0 collect0 extract0
  by (auto simp: repair_project_from_jsonl_def Let_def build_repair_plan_def load_indexed_project_files_def
      indexed_by_path_def forget_moved_def) (auto simp: empty_index_def)

text \<open>A second file, empty, sorts before the first.\<close>

definition bad_path :: ustring where "bad_path = lit ''/h/sessions/--repo--/a.jsonl''"

definition disk1 :: disk where "disk1 = [(bad_path, [])] @ disk0"

definition bad_found :: discovered_file where
  "bad_found = \<lparr>found_path = bad_path, found_fp = \<lparr>fp_size = 0, fp_modified = 5\<rparr>\<rparr>"

lemma collect1: "collect_jsonl_files (index_modified index_env0) disk1 (sessions_dir index_env0) = Ok ([] @ bad_found # [found0])"
proof -
  have "in_directory (lit ''/h/sessions'') bad_path" "is_jsonl bad_path"
    by (simp_all add: in_directory_def is_jsonl_def bad_path_def lit_def)
  moreover have "path_components bad_path \<le> path_components path0"
    by (simp add: bad_path_def path0_def lit_def)
  ultimately show ?thesis
    using path0_listed(2,3)
    by (simp add: collect_jsonl_files_def disk1_def disk0_def file_fingerprint_of_def modified_time_ms_def i64_max_def
      found0_def bad_found_def log0_bytes del: log_lines_simps)
qed

lemma extract_bad: "extract_session_meta index_env0 disk1 bad_found = Err MissingHeader"
  by (simp add: extract_session_meta_def bad_found_def disk1_def scan_file_def scan_entries_def finish_meta_def
      empty_deriver_def)

text \<open>The ids of an SQL table that counts up.\<close>

definition next_id :: "history_table \<Rightarrow> int" where
  "next_id t = foldr (\<lambda>r n. max (history_id r + 1) n) t 1"

lemma next_id_fresh: "fresh_ids next_id"
proof -
  have "history_id r < next_id t" if "r \<in> set t" for r t
    using that by (induction t) (auto simp: next_id_def less_max_iff_disj)
  then show ?thesis by (simp add: fresh_ids_def)
qed

end
