(* ===== verification/Paths.thy ===== *)
theory Paths
  imports Prelude "HOL-Library.Sublist"
begin

text \<open>
  \<^verbatim>\<open>std::path\<close> on Unix, as far as the tools use it.  A \<^verbatim>\<open>Path\<close> is read through its components,
  and equality, \<^verbatim>\<open>starts_with\<close> and \<^verbatim>\<open>parent\<close> of the library compare components, so a path is a
  list of components here; \<open>components_of\<close> is \<^verbatim>\<open>Path::new(s).components()\<close> and \<open>path_string\<close> the
  text a \<^verbatim>\<open>PathBuf\<close> holds that was filled by \<^verbatim>\<open>push\<close>.  The component \<^verbatim>\<open>Prefix\<close> exists on Windows only.
\<close>

section \<open>Splitting\<close>

fun usplit :: "nat \<Rightarrow> ustring \<Rightarrow> ustring list" where
  "usplit sep [] = [[]]"
| "usplit sep (c # cs) =
     (if c = sep then [] # usplit sep cs
      else (case usplit sep cs of [] \<Rightarrow> [[c]] | p # ps \<Rightarrow> (c # p) # ps))"

lemma usplit_not_Nil [simp]: "usplit sep s \<noteq> []"
  by (cases s) (auto split: list.split)

lemma usplit_no_sep: "sep \<notin> set s \<Longrightarrow> usplit sep s = [s]"
  by (induction s) auto

lemma usplit_append_sep:
  "sep \<notin> set p \<Longrightarrow> usplit sep (p @ sep # s) = p # usplit sep s"
  by (induction p) auto

lemma usplit_parts: "p \<in> set (usplit sep s) \<Longrightarrow> sep \<notin> set p"
proof (induction s arbitrary: p)
  case (Cons c cs)
  then show ?case by (cases "usplit sep cs") (auto split: if_splits)
qed simp

lemma ujoin_usplit: "ujoin [sep] (usplit sep s) = s"
proof (induction s)
  case (Cons c cs)
  show ?case
  proof (cases "usplit sep cs")
    case (Cons p ps)
    with Cons.IH show ?thesis by (cases ps) auto
  qed simp
qed simp

lemma usplit_ujoin:
  "ps \<noteq> [] \<Longrightarrow> \<forall>p\<in>set ps. sep \<notin> set p \<Longrightarrow> usplit sep (ujoin [sep] ps) = ps"
  by (induction "[sep] :: ustring" ps rule: ujoin.induct)
    (simp_all add: usplit_no_sep usplit_append_sep)

section \<open>Components\<close>

datatype path_component = RootDir | CurDir | ParentDir | Normal ustring

type_synonym path = "path_component list"

definition dot :: ustring where "dot = [46]"
definition dot_dot :: ustring where "dot_dot = [46, 46]"

lemma dots [simp]: "dot \<noteq> []" "dot_dot \<noteq> []" "[] \<noteq> dot" "[] \<noteq> dot_dot" "dot \<noteq> dot_dot"
  by (simp_all add: dot_def dot_dot_def)

definition parse_component :: "ustring \<Rightarrow> path_component option" where
  "parse_component p =
     (if p = [] \<or> p = dot then None else if p = dot_dot then Some ParentDir else Some (Normal p))"

definition components_of :: "ustring \<Rightarrow> path" where
  "components_of s =
     (let body = filter_map parse_component (usplit 47 s)
      in if s \<noteq> [] \<and> hd s = 47 then RootDir # body
         else if hd (usplit 47 s) = dot then CurDir # body
         else body)"

definition path_is_absolute :: "path \<Rightarrow> bool" where
  "path_is_absolute p \<longleftrightarrow> p \<noteq> [] \<and> hd p = RootDir"

fun path_starts_with :: "path \<Rightarrow> path \<Rightarrow> bool" where
  "path_starts_with p [] \<longleftrightarrow> True"
| "path_starts_with [] (d # ds) \<longleftrightarrow> False"
| "path_starts_with (c # cs) (d # ds) \<longleftrightarrow> c = d \<and> path_starts_with cs ds"

definition path_parent :: "path \<Rightarrow> path option" where
  "path_parent p = (if p = [] \<or> last p = RootDir then None else Some (butlast p))"

text \<open>\<^verbatim>\<open>PathBuf::push\<close> of one component: the root replaces what is there.\<close>

definition path_push :: "path \<Rightarrow> path_component \<Rightarrow> path" where
  "path_push p c = (if c = RootDir then [RootDir] else p @ [c])"

definition component_text :: "path_component \<Rightarrow> ustring" where
  "component_text c =
     (case c of RootDir \<Rightarrow> [] | CurDir \<Rightarrow> dot | ParentDir \<Rightarrow> dot_dot | Normal n \<Rightarrow> n)"

definition path_string :: "path \<Rightarrow> ustring" where
  "path_string p =
     (if p = [RootDir] then [47] else ujoin [47] (map component_text p))"

lemma path_starts_with_prefix: "path_starts_with p d \<longleftrightarrow> prefix d p"
  by (induction p d rule: path_starts_with.induct) auto

lemma parse_component_cases:
  "parse_component p = Some c \<Longrightarrow>
     c = ParentDir \<or> c = Normal p \<and> p \<noteq> [] \<and> p \<noteq> dot \<and> p \<noteq> dot_dot"
  by (auto simp: parse_component_def split: if_splits)

text \<open>
  A path with no \<^const>\<open>CurDir\<close> and no \<^const>\<open>ParentDir\<close>: perhaps the root, then names.
\<close>

definition normal_name :: "ustring \<Rightarrow> bool" where
  "normal_name n \<longleftrightarrow> n \<noteq> [] \<and> n \<noteq> dot \<and> n \<noteq> dot_dot \<and> 47 \<notin> set n"

fun plain_component :: "path_component \<Rightarrow> bool" where
  "plain_component (Normal n) \<longleftrightarrow> normal_name n"
| "plain_component _ \<longleftrightarrow> False"

definition normal_path :: "path \<Rightarrow> bool" where
  "normal_path p \<longleftrightarrow> p \<noteq> [] \<and> (hd p = RootDir \<or> plain_component (hd p)) \<and> list_all plain_component (tl p)"

lemma map_parse_plain:
  "list_all plain_component p \<Longrightarrow> filter_map parse_component (map component_text p) = p"
proof (induction p)
  case (Cons c p)
  then show ?case
    by (cases c) (auto simp: component_text_def parse_component_def normal_name_def)
qed simp

lemma plain_component_text:
  "list_all plain_component p \<Longrightarrow> \<forall>t\<in>set (map component_text p). 47 \<notin> set t"
proof (induction p)
  case (Cons c p)
  then show ?case by (cases c) (auto simp: component_text_def normal_name_def)
qed simp

lemma hd_ujoin: "x \<noteq> [] \<Longrightarrow> hd (ujoin sep (x # xs)) = hd x"
  by (cases xs) auto

lemma ujoin_eq_Nil: "ujoin [sep] (x # xs) = [] \<longleftrightarrow> x = [] \<and> xs = []"
  by (cases xs) auto

lemma ujoin_Cons_Nil: "xs \<noteq> [] \<Longrightarrow> ujoin sep ([] # xs) = sep @ ujoin sep xs"
  by (cases xs) auto

theorem components_of_string:
  assumes "normal_path p"
  shows "components_of (path_string p) = p"
proof (cases p)
  case Nil
  with assms show ?thesis by (simp add: normal_path_def)
next
  case (Cons c cs)
  from assms Cons have tl: "list_all plain_component cs" and hd: "c = RootDir \<or> plain_component c"
    by (auto simp: normal_path_def)
  note texts = plain_component_text[OF tl]
  show ?thesis
  proof (cases "c = RootDir")
    case True
    show ?thesis
    proof (cases "cs = []")
      case True
      then show ?thesis using Cons \<open>c = RootDir\<close>
        by (simp add: path_string_def components_of_def parse_component_def Let_def)
    next
      case False
      then have str: "path_string p = 47 # ujoin [47] (map component_text cs)"
        using Cons \<open>c = RootDir\<close> by (simp add: path_string_def component_text_def ujoin_Cons_Nil)
      have "usplit 47 (path_string p) = [] # map component_text cs"
        using False texts by (simp add: str usplit_ujoin)
      moreover from str have "path_string p \<noteq> []" "hd (path_string p) = 47" by simp_all
      ultimately show ?thesis
        using Cons \<open>c = RootDir\<close> map_parse_plain[OF tl]
        by (simp add: components_of_def parse_component_def Let_def)
    qed
  next
    case False
    with hd obtain n where n: "c = Normal n" "normal_name n" by (cases c) auto
    then have all: "list_all plain_component p" using Cons tl by simp
    have str: "path_string p = ujoin [47] (map component_text p)"
      using Cons n by (simp add: path_string_def)
    have split: "usplit 47 (path_string p) = map component_text p"
      unfolding str by (rule usplit_ujoin) (use Cons plain_component_text[OF all] in auto)
    have "hd (path_string p) = hd n"
      unfolding str using Cons n by (simp add: component_text_def normal_name_def hd_ujoin)
    with n have hdd: "hd (path_string p) \<noteq> 47" "hd (map component_text p) = n"
      using Cons by (cases n; auto simp: normal_name_def component_text_def)+
    then show ?thesis
      unfolding components_of_def Let_def split map_parse_plain[OF all]
      using n(2) hdd by (simp add: normal_name_def)
  qed
qed

lemma list_all_filter_map:
  "(\<And>x y. x \<in> set xs \<Longrightarrow> f x = Some y \<Longrightarrow> P y) \<Longrightarrow> list_all P (filter_map f xs)"
  by (induction xs) (auto split: option.split)

lemma parsed_component:
  assumes "c \<in> set (filter_map parse_component (usplit 47 s))"
  shows "c = ParentDir \<or> plain_component c"
proof -
  have "list_all (\<lambda>c. c = ParentDir \<or> plain_component c) (filter_map parse_component (usplit 47 s))"
    by (rule list_all_filter_map)
      (use usplit_parts parse_component_cases in \<open>fastforce simp: normal_name_def\<close>)
  with assms show ?thesis by (auto simp: list_all_iff)
qed

lemma components_of_parts:
  "c \<in> set (components_of s) \<Longrightarrow>
     c = RootDir \<or> c = CurDir \<or> c = ParentDir \<or> plain_component c"
  using parsed_component[of c s] by (auto simp: components_of_def Let_def split: if_splits)

lemma components_of_tl:
  "c \<in> set (tl (components_of s)) \<Longrightarrow> c = ParentDir \<or> plain_component c"
proof -
  let ?body = "filter_map parse_component (usplit 47 s)"
  have "components_of s = ?body \<or> (\<exists>c. components_of s = c # ?body)"
    unfolding components_of_def Let_def by (auto simp del: usplit.simps)
  then have "set (tl (components_of s)) \<subseteq> set ?body"
    by (metis list.sel(3) list.set_sel(2) subsetI tl_Nil)
  then show "c \<in> set (tl (components_of s)) \<Longrightarrow> c = ParentDir \<or> plain_component c"
    using parsed_component[of c s] by blast
qed

end
