(* ===== verification/Tools.thy ===== *)
theory Tools
  imports Domain Paths "HOL-Library.List_Lexorder"
begin

text \<open>
  The vocabulary of the tool runtime, crate \<^verbatim>\<open>tool-runtime\<close>: definitions and calls
  (\<^verbatim>\<open>definition.rs\<close>, \<^verbatim>\<open>execution.rs\<close>), results, permission requests (\<^verbatim>\<open>permission.rs\<close>), the registry
  of definitions (\<^verbatim>\<open>registry.rs\<close>), the registry of executable tools (\<^verbatim>\<open>executor.rs\<close>) and the check
  of arguments against a schema (\<^verbatim>\<open>schema.rs\<close>).

  A \<^verbatim>\<open>BTreeMap\<close> is an association list with strictly increasing keys.  An object of
  \<^verbatim>\<open>serde_json\<close> is such a map too, so \<^verbatim>\<open>==\<close> on values is equality of the datatype (a number is its
  text here, so the two floating zeros, equal in Rust, are told apart).
\<close>

section \<open>Ordered maps\<close>

definition bt_insert :: "'k::linorder \<Rightarrow> 'v \<Rightarrow> ('k \<times> 'v) list \<Rightarrow> ('k \<times> 'v) list" where
  "bt_insert k v m = insort_key fst (k, v) (filter (\<lambda>kv. fst kv \<noteq> k) m)"

definition bt_remove :: "'k::linorder \<Rightarrow> ('k \<times> 'v) list \<Rightarrow> ('k \<times> 'v) list" where
  "bt_remove k m = filter (\<lambda>kv. fst kv \<noteq> k) m"

definition bt_map :: "('k::linorder \<times> 'v) list \<Rightarrow> bool" where
  "bt_map m \<longleftrightarrow> sorted_wrt (<) (map fst m)"

lemma bt_map_Nil [simp]: "bt_map []"
  by (simp add: bt_map_def)

lemma bt_map_distinct: "bt_map m \<Longrightarrow> distinct (map fst m)"
  by (simp add: bt_map_def strict_sorted_iff)

lemma map_fst_insort: "map fst (insort_key fst x m) = insort (fst x) (map fst m)"
  by (induction m) auto

lemma map_of_insort_key:
  "fst x \<notin> fst ` set m \<Longrightarrow> map_of (insort_key fst x m) = (map_of m)(fst x \<mapsto> snd x)"
  by (induction m) (auto simp: fun_eq_iff)

lemma map_of_filter_keys: "map_of (filter (\<lambda>kv. P (fst kv)) m) k = (if P k then map_of m k else None)"
  by (induction m) auto

lemma bt_map_filter [intro]: "bt_map m \<Longrightarrow> bt_map (filter P m)"
  unfolding bt_map_def by (induction m) auto

lemma map_of_bt_remove [hash_simps]: "map_of (bt_remove k m) k' = (if k' = k then None else map_of m k')"
  using map_of_filter_keys[of "\<lambda>x. x \<noteq> k" m k'] by (simp add: bt_remove_def)

lemma map_of_bt_insert [hash_simps]:
  "map_of (bt_insert k v m) k' = (if k' = k then Some v else map_of m k')"
proof -
  have "k \<notin> fst ` set (filter (\<lambda>kv. fst kv \<noteq> k) m)" by auto
  then show ?thesis
    using map_of_filter_keys[of "\<lambda>x. x \<noteq> k" m k'] by (simp add: bt_insert_def map_of_insort_key)
qed

lemma bt_map_insert [intro]: "bt_map m \<Longrightarrow> bt_map (bt_insert k v m)"
  using bt_map_filter[of m "\<lambda>kv. fst kv \<noteq> k"]
  by (auto simp: bt_map_def bt_insert_def map_fst_insort strict_sorted_iff sorted_insort distinct_insort)

lemma bt_map_remove [intro]: "bt_map m \<Longrightarrow> bt_map (bt_remove k m)"
  by (auto simp: bt_remove_def)

section \<open>Definitions and calls\<close>

datatype permission_policy = Never | Ask | Always

record tool_definition =
  def_name :: ustring
  def_label :: "ustring option"
  def_kind :: tool_kind
  def_description :: "ustring option"
  def_schema :: "json_value option"
  def_policy :: permission_policy
  def_guidelines :: "ustring option"

definition new_definition :: "ustring \<Rightarrow> tool_definition" where
  "new_definition n =
     \<lparr>def_name = n, def_label = None, def_kind = Other, def_description = None, def_schema = None,
      def_policy = Never, def_guidelines = None\<rparr>"

text \<open>\<^verbatim>\<open>tool_runtime::ToolCall\<close>: the call with its arguments parsed.\<close>

record invocation =
  inv_id :: ustring
  inv_name :: ustring
  inv_arguments :: json_value

datatype result_outcome = OutcomeSuccess | OutcomeError | OutcomeTerminate

datatype tool_image_detail = DetailHigh | DetailOriginal

datatype result_content =
    ResultText ustring
  | ResultImage ustring ustring "ustring option" "tool_image_detail option"

record tool_result =
  res_call_id :: ustring
  res_content :: "result_content list"
  res_display :: "ustring option"
  res_outcome :: result_outcome
  res_details :: "json_value option"

definition result_success_content :: "ustring \<Rightarrow> result_content list \<Rightarrow> tool_result" where
  "result_success_content c blocks =
     \<lparr>res_call_id = c, res_content = blocks, res_display = None, res_outcome = OutcomeSuccess,
      res_details = None\<rparr>"

definition result_success :: "ustring \<Rightarrow> ustring \<Rightarrow> tool_result" where
  "result_success c t = result_success_content c [ResultText t]"

definition result_error :: "ustring \<Rightarrow> ustring \<Rightarrow> tool_result" where
  "result_error c t =
     \<lparr>res_call_id = c, res_content = [ResultText t], res_display = None, res_outcome = OutcomeError,
      res_details = None\<rparr>"

definition result_terminate :: "ustring \<Rightarrow> ustring \<Rightarrow> tool_result" where
  "result_terminate c t =
     \<lparr>res_call_id = c, res_content = [ResultText t], res_display = None,
      res_outcome = OutcomeTerminate, res_details = None\<rparr>"

definition is_error :: "tool_result \<Rightarrow> bool" where
  "is_error r \<longleftrightarrow> res_outcome r = OutcomeError"

definition terminates :: "tool_result \<Rightarrow> bool" where
  "terminates r \<longleftrightarrow> res_outcome r = OutcomeTerminate"

definition result_text :: "tool_result \<Rightarrow> ustring" where
  "result_text r =
     concat (filter_map (\<lambda>c. case c of ResultText t \<Rightarrow> Some t | ResultImage _ _ _ _ \<Rightarrow> None) (res_content r))"

definition result_display_text :: "tool_result \<Rightarrow> ustring" where
  "result_display_text r = (case res_display r of Some d \<Rightarrow> d | None \<Rightarrow> result_text r)"

section \<open>Permission requests\<close>

record file_snapshot =
  snap_hash :: nat
  snap_len :: nat
  snap_modified :: "nat option"

record permission_preview =
  prev_path :: ustring
  prev_old :: "ustring option"
  prev_new :: ustring
  prev_truncated :: bool
  prev_snapshot :: "file_snapshot option"

record permission_request =
  req_call :: invocation
  req_definition :: tool_definition
  req_preview :: "permission_preview option"

definition new_request :: "invocation \<Rightarrow> tool_definition \<Rightarrow> permission_request" where
  "new_request c d = \<lparr>req_call = c, req_definition = d, req_preview = None\<rparr>"

datatype permission_decision = Allow | Deny ustring

section \<open>The registry of definitions\<close>

type_synonym tool_registry = "(ustring \<times> tool_definition) list"

definition registry_insert :: "tool_definition \<Rightarrow> tool_registry \<Rightarrow> tool_registry" where
  "registry_insert d r = bt_insert (def_name d) d r"

definition registry_definition :: "tool_registry \<Rightarrow> ustring \<Rightarrow> tool_definition option" where
  "registry_definition r n = map_of r n"

definition registry_definitions :: "tool_registry \<Rightarrow> tool_definition list" where
  "registry_definitions r = map snd r"

end
