(* ===== verification/Permission_Rules.thy ===== *)
theory Permission_Rules
  imports Tools
begin

text \<open>
  The rules a user's ``always'' answers leave behind, \<^verbatim>\<open>tool-runtime/src/permission_rules.rs\<close>.  A
  rule binds a tool to a scope derived from one approved request: any relative file of the
  workspace, the directory of an absolute file, one command in one working directory, or one
  exact argument object.  A rule set is evaluated deny first.
\<close>

section \<open>Rules\<close>

datatype rule_behavior = RuleAllow | RuleDeny

datatype rule_matcher =
    WorkspaceRelativeFile
  | AbsoluteDirectory path
  | ExactCommand ustring "ustring option"
  | ExactArguments json_value

record permission_rule =
  rule_behavior :: rule_behavior
  rule_tool :: ustring
  rule_kind :: tool_kind
  rule_matcher :: rule_matcher

section \<open>Paths and arguments of a request\<close>

fun normalize_loop :: "path \<Rightarrow> path \<times> bool \<Rightarrow> path option" where
  "normalize_loop [] (normalized, has) = (if has then Some normalized else None)"
| "normalize_loop (c # cs) (normalized, has) =
     (case c of
        CurDir \<Rightarrow> normalize_loop cs (normalized, has)
      | ParentDir \<Rightarrow> None
      | _ \<Rightarrow> normalize_loop cs (path_push normalized c, True))"

definition normalize_path :: "path \<Rightarrow> path option" where
  "normalize_path p = normalize_loop p ([], False)"

definition normalize_file_path :: "ustring \<Rightarrow> path option" where
  "normalize_file_path s =
     (if s = [] \<or> utrim s \<noteq> s then None else normalize_path (components_of s))"

definition string_argument :: "json_value \<Rightarrow> ustring \<Rightarrow> ustring option" where
  "string_argument args key = json_get_str args key"

definition string_argument_any :: "json_value \<Rightarrow> ustring list \<Rightarrow> ustring option" where
  "string_argument_any args keys = find_map (json_get_str args) keys"

text \<open>The outer option is Rust's: \<^const>\<open>None\<close> is ``no safe reading'', \<open>Some None\<close> ``no directory''.\<close>

definition normalized_workdir :: "json_value option \<Rightarrow> ustring option option" where
  "normalized_workdir v =
     (case v of
        None \<Rightarrow> Some None
      | Some v \<Rightarrow>
          (case json_as_str v of
             None \<Rightarrow> None
           | Some s \<Rightarrow>
               (let s = utrim s
                in if s = [] then Some None
                   else if list_all (\<lambda>c. c = CurDir) (components_of s) then Some None
                   else (case normalize_path (components_of s) of
                           None \<Rightarrow> None
                         | Some p \<Rightarrow> if path_string p = [] then Some None
                                     else Some (Some (path_string p))))))"

definition workdir_argument :: "json_value \<Rightarrow> json_value option" where
  "workdir_argument args =
     (case json_get args (lit ''workdir'') of
        Some v \<Rightarrow> Some v
      | None \<Rightarrow> json_get args (lit ''cwd''))"

definition command_keys :: "ustring list" where
  "command_keys = [lit ''command'', lit ''cmd'']"

definition preview_path_matches_call :: "permission_request \<Rightarrow> path \<Rightarrow> bool" where
  "preview_path_matches_call q p =
     (case req_preview q of
        None \<Rightarrow> False
      | Some pv \<Rightarrow> (case normalize_file_path (prev_path pv) of
                       None \<Rightarrow> False
                     | Some p' \<Rightarrow> p' = p))"

section \<open>Making a rule\<close>

definition file_matcher_from_request :: "permission_request \<Rightarrow> rule_matcher option" where
  "file_matcher_from_request q =
     Option.bind (string_argument (inv_arguments (req_call q)) (lit ''path'')) (\<lambda>call_path.
     Option.bind (normalize_file_path call_path) (\<lambda>p.
     Option.bind (req_preview q) (\<lambda>pv.
     Option.bind (normalize_file_path (prev_path pv)) (\<lambda>p'.
       if p' \<noteq> p then None
       else if path_is_absolute p
       then Option.bind (path_parent p) (\<lambda>parent. Some (AbsoluteDirectory parent))
       else Some WorkspaceRelativeFile))))"

definition command_matcher_from_request :: "permission_request \<Rightarrow> rule_matcher option" where
  "command_matcher_from_request q =
     Option.bind (string_argument_any (inv_arguments (req_call q)) command_keys) (\<lambda>command.
       let command = utrim command
       in if command = [] then None
          else Option.bind (normalized_workdir (workdir_argument (inv_arguments (req_call q)))) (\<lambda>workdir.
            Some (ExactCommand command workdir)))"

definition matcher_from_request :: "permission_request \<Rightarrow> rule_matcher option" where
  "matcher_from_request q =
     (case def_kind (req_definition q) of
        Write \<Rightarrow> file_matcher_from_request q
      | Edit \<Rightarrow> file_matcher_from_request q
      | Execute \<Rightarrow> command_matcher_from_request q
      | _ \<Rightarrow> Some (ExactArguments (inv_arguments (req_call q))))"

definition rule_from_request :: "permission_request \<Rightarrow> rule_behavior \<Rightarrow> permission_rule option" where
  "rule_from_request q b =
     (if inv_name (req_call q) \<noteq> def_name (req_definition q)
         \<or> utrim (def_name (req_definition q)) = [] then None
      else Option.bind (matcher_from_request q) (\<lambda>m.
        Some \<lparr>rule_behavior = b, rule_tool = def_name (req_definition q),
              rule_kind = def_kind (req_definition q), rule_matcher = m\<rparr>))"

definition with_behavior :: "permission_rule \<Rightarrow> rule_behavior \<Rightarrow> permission_rule" where
  "with_behavior r b = r\<lparr>rule_behavior := b\<rparr>"

section \<open>Matching\<close>

definition matches_relative_file_request :: "permission_request \<Rightarrow> bool" where
  "matches_relative_file_request q =
     (case string_argument (inv_arguments (req_call q)) (lit ''path'') of
        None \<Rightarrow> False
      | Some s \<Rightarrow>
          (case normalize_file_path s of
             None \<Rightarrow> False
           | Some p \<Rightarrow> if path_is_absolute p then False else preview_path_matches_call q p))"

definition matches_absolute_file_request :: "permission_request \<Rightarrow> path \<Rightarrow> bool" where
  "matches_absolute_file_request q d =
     (case string_argument (inv_arguments (req_call q)) (lit ''path'') of
        None \<Rightarrow> False
      | Some s \<Rightarrow>
          (case normalize_file_path s of
             None \<Rightarrow> False
           | Some p \<Rightarrow>
               if \<not> path_is_absolute p \<or> \<not> path_starts_with p d then False
               else preview_path_matches_call q p))"

definition matches_exact_command_request ::
    "permission_request \<Rightarrow> ustring \<Rightarrow> ustring option \<Rightarrow> bool" where
  "matches_exact_command_request q expected_command expected_workdir =
     (case string_argument_any (inv_arguments (req_call q)) command_keys of
        None \<Rightarrow> False
      | Some command \<Rightarrow>
          if utrim command \<noteq> expected_command then False
          else (case normalized_workdir (workdir_argument (inv_arguments (req_call q))) of
                  None \<Rightarrow> False
                | Some workdir \<Rightarrow> workdir = expected_workdir))"

definition rule_matches :: "permission_rule \<Rightarrow> permission_request \<Rightarrow> bool" where
  "rule_matches r q =
     (if inv_name (req_call q) \<noteq> rule_tool r \<or> def_name (req_definition q) \<noteq> rule_tool r
         \<or> def_kind (req_definition q) \<noteq> rule_kind r then False
      else (case rule_matcher r of
              WorkspaceRelativeFile \<Rightarrow> matches_relative_file_request q
            | AbsoluteDirectory d \<Rightarrow> matches_absolute_file_request q d
            | ExactCommand c w \<Rightarrow> matches_exact_command_request q c w
            | ExactArguments a \<Rightarrow> inv_arguments (req_call q) = a))"

section \<open>Rule sets\<close>

type_synonym rule_set = "permission_rule list"

definition insert_rule :: "permission_rule \<Rightarrow> rule_set \<Rightarrow> rule_set" where
  "insert_rule r rs = (if r \<in> set rs then rs else rs @ [r])"

fun evaluate_loop :: "bool \<Rightarrow> rule_set \<Rightarrow> permission_request \<Rightarrow> rule_behavior option" where
  "evaluate_loop matched_allow [] q = (if matched_allow then Some RuleAllow else None)"
| "evaluate_loop matched_allow (r # rs) q =
     (if \<not> rule_matches r q then evaluate_loop matched_allow rs q
      else (case rule_behavior r of
              RuleAllow \<Rightarrow> evaluate_loop True rs q
            | RuleDeny \<Rightarrow> Some RuleDeny))"

definition evaluate_rules :: "rule_set \<Rightarrow> permission_request \<Rightarrow> rule_behavior option" where
  "evaluate_rules rs q = evaluate_loop False rs q"

definition rules_clear :: "rule_set \<Rightarrow> rule_set" where
  "rules_clear rs = []"

definition rules_is_empty :: "rule_set \<Rightarrow> bool" where
  "rules_is_empty rs \<longleftrightarrow> rs = []"

section \<open>Evaluation is deny first, whatever the order\<close>

definition has_rule :: "rule_behavior \<Rightarrow> rule_set \<Rightarrow> permission_request \<Rightarrow> bool" where
  "has_rule b rs q \<longleftrightarrow> (\<exists>r\<in>set rs. rule_behavior r = b \<and> rule_matches r q)"

lemma has_rule_simps [simp]:
  "\<not> has_rule b [] q"
  "has_rule b (r # rs) q \<longleftrightarrow> rule_behavior r = b \<and> rule_matches r q \<or> has_rule b rs q"
  by (auto simp: has_rule_def)

lemma has_rule_insert [simp]:
  "has_rule b (insert_rule r rs) q \<longleftrightarrow> rule_behavior r = b \<and> rule_matches r q \<or> has_rule b rs q"
  by (auto simp: has_rule_def insert_rule_def)

lemma evaluate_loop_eq:
  "evaluate_loop a rs q =
     (if has_rule RuleDeny rs q then Some RuleDeny
      else if a \<or> has_rule RuleAllow rs q then Some RuleAllow else None)"
  by (induction a rs q rule: evaluate_loop.induct) (auto split: rule_behavior.splits)

lemma evaluate_rules_eq:
  "evaluate_rules rs q =
     (if has_rule RuleDeny rs q then Some RuleDeny
      else if has_rule RuleAllow rs q then Some RuleAllow else None)"
  by (simp add: evaluate_rules_def evaluate_loop_eq)

lemma set_insert_rule [simp]: "set (insert_rule r rs) = insert r (set rs)"
  by (auto simp: insert_rule_def)

lemma evaluate_rules_set_cong: "set rs = set rs' \<Longrightarrow> evaluate_rules rs q = evaluate_rules rs' q"
  by (simp add: evaluate_rules_eq has_rule_def)

lemma distinct_insert_rule [simp]: "distinct (insert_rule r rs) \<longleftrightarrow> distinct rs"
  by (auto simp: insert_rule_def)

lemma evaluate_insert_rule:
  "evaluate_rules (insert_rule r rs) q =
     (if rule_matches r q \<and> evaluate_rules rs q \<noteq> Some RuleDeny then Some (rule_behavior r)
      else evaluate_rules rs q)"
  by (cases "rule_behavior r") (auto simp: evaluate_rules_eq)

section \<open>What normalisation lets through\<close>

lemma normalize_loop_parent: "ParentDir \<in> set cs \<Longrightarrow> normalize_loop cs (n, has) = None"
  by (induction cs arbitrary: n has) (auto split: path_component.split)

lemma normalize_loop_eq:
  assumes "ParentDir \<notin> set cs" and "RootDir \<notin> set cs"
  shows "normalize_loop cs (n, has) =
    (if has \<or> filter (\<lambda>c. c \<noteq> CurDir) cs \<noteq> [] then Some (n @ filter (\<lambda>c. c \<noteq> CurDir) cs) else None)"
  using assms
proof (induction cs arbitrary: n has)
  case (Cons c cs)
  then show ?case by (cases c) (auto simp: path_push_def)
qed simp

lemma components_RootDir_tl: "RootDir \<notin> set (tl (components_of s))"
  using components_of_tl[of RootDir s] by auto

lemma normalize_path_eq:
  "normalize_path (components_of s) =
     (let p = filter (\<lambda>c. c \<noteq> CurDir) (components_of s)
      in if ParentDir \<in> set (components_of s) \<or> p = [] then None else Some p)"
proof (cases "components_of s")
  case (Cons c cs)
  with components_RootDir_tl[of s] have "RootDir \<notin> set cs" by simp
  with Cons show ?thesis
    by (cases "ParentDir \<in> set cs"; cases c)
      (auto simp: normalize_path_def Let_def normalize_loop_parent normalize_loop_eq path_push_def)
qed (simp add: normalize_path_def)

lemma normalize_path_normal:
  assumes "normalize_path (components_of s) = Some p"
  shows "normal_path p"
proof -
  let ?keep = "\<lambda>c. c \<noteq> CurDir"
  from assms have p: "p = filter ?keep (components_of s)" "p \<noteq> []" "ParentDir \<notin> set (components_of s)"
    by (auto simp: normalize_path_eq Let_def split: if_splits)
  obtain c cs where cs: "components_of s = c # cs" using p by (cases "components_of s") auto
  have tl: "list_all plain_component (filter ?keep cs)"
    using components_of_tl[of _ s] p(3) cs by (auto simp: list_all_iff)
  have hd: "c = RootDir \<or> c = CurDir \<or> plain_component c"
    using components_of_parts[of c s] p(3) cs by auto
  from tl hd p cs show ?thesis
    by (cases "c = CurDir"; cases "filter ?keep cs") (auto simp: normal_path_def)
qed

text \<open>A path that a rule may be made of: trimmed, no \<^verbatim>\<open>..\<close>, and not only dots.\<close>

definition safe_file_path :: "ustring \<Rightarrow> bool" where
  "safe_file_path s \<longleftrightarrow> s \<noteq> [] \<and> utrim s = s \<and> ParentDir \<notin> set (components_of s)
     \<and> filter (\<lambda>c. c \<noteq> CurDir) (components_of s) \<noteq> []"

definition plain_path :: "ustring \<Rightarrow> path" where
  "plain_path s = filter (\<lambda>c. c \<noteq> CurDir) (components_of s)"

lemma normalize_file_path_eq:
  "normalize_file_path s = (if safe_file_path s then Some (plain_path s) else None)"
  by (auto simp: normalize_file_path_def safe_file_path_def plain_path_def normalize_path_eq Let_def)

lemma plain_path_normal: "safe_file_path s \<Longrightarrow> normal_path (plain_path s)"
  by (rule normalize_path_normal[of s])
    (auto simp: normalize_path_eq safe_file_path_def plain_path_def Let_def)

lemma normalize_file_path_None: "normalize_file_path s = None \<longleftrightarrow> \<not> safe_file_path s"
  by (simp add: normalize_file_path_eq)

section \<open>The scope of a remembered rule\<close>

definition request_path :: "permission_request \<Rightarrow> ustring option" where
  "request_path q = json_get_str (inv_arguments (req_call q)) (lit ''path'')"

text \<open>The file a request writes, when its argument and the preview shown agree on one.\<close>

definition previewed_path :: "permission_request \<Rightarrow> path option" where
  "previewed_path q =
     (case (request_path q, req_preview q) of
        (Some s, Some pv) \<Rightarrow>
          if safe_file_path s \<and> safe_file_path (prev_path pv) \<and> plain_path (prev_path pv) = plain_path s
          then Some (plain_path s) else None
      | _ \<Rightarrow> None)"

lemma preview_path_matches_call_iff:
  "request_path q = Some s \<Longrightarrow> safe_file_path s \<Longrightarrow>
     preview_path_matches_call q (plain_path s) \<longleftrightarrow> previewed_path q = Some (plain_path s)"
  by (auto simp: preview_path_matches_call_def previewed_path_def normalize_file_path_eq
      split: option.splits)

lemma previewed_path_Some:
  "previewed_path q = Some p \<Longrightarrow>
     \<exists>s. request_path q = Some s \<and> safe_file_path s \<and> p = plain_path s"
  by (auto simp: previewed_path_def split: option.splits if_splits)

lemma matches_relative_iff:
  "matches_relative_file_request q \<longleftrightarrow>
     (\<exists>p. previewed_path q = Some p \<and> \<not> path_is_absolute p)"
  using previewed_path_Some[of q]
  by (auto simp: matches_relative_file_request_def string_argument_def normalize_file_path_eq
      preview_path_matches_call_iff request_path_def[symmetric] split: option.splits if_splits)

lemma matches_absolute_iff:
  "matches_absolute_file_request q d \<longleftrightarrow>
     (\<exists>p. previewed_path q = Some p \<and> path_is_absolute p \<and> prefix d p)"
  using previewed_path_Some[of q]
  by (auto simp: matches_absolute_file_request_def string_argument_def normalize_file_path_eq
      preview_path_matches_call_iff request_path_def[symmetric] path_starts_with_prefix
      split: option.splits if_splits)

lemma file_matcher_eq:
  "file_matcher_from_request q =
     (case previewed_path q of
        None \<Rightarrow> None
      | Some p \<Rightarrow>
          if \<not> path_is_absolute p then Some WorkspaceRelativeFile
          else if p = [RootDir] then None else Some (AbsoluteDirectory (butlast p)))"
proof (cases "previewed_path q")
  case None
  then show ?thesis
    by (auto simp: file_matcher_from_request_def string_argument_def request_path_def previewed_path_def
        normalize_file_path_eq split: option.splits if_splits)
next
  case (Some p)
  then have "normal_path p" using previewed_path_Some plain_path_normal by blast
  then have "last p = RootDir \<longleftrightarrow> p = [RootDir]"
    by (cases p rule: rev_cases) (auto simp: normal_path_def list_all_iff hd_append tl_append split: list.splits if_splits)
  with Some show ?thesis
    by (auto simp: file_matcher_from_request_def string_argument_def request_path_def previewed_path_def
        normalize_file_path_eq path_parent_def path_is_absolute_def split: option.splits if_splits)
qed

definition same_tool :: "permission_request \<Rightarrow> permission_request \<Rightarrow> bool" where
  "same_tool q q' \<longleftrightarrow> inv_name (req_call q') = def_name (req_definition q)
     \<and> def_name (req_definition q') = def_name (req_definition q)
     \<and> def_kind (req_definition q') = def_kind (req_definition q)"

definition is_file_kind :: "tool_kind \<Rightarrow> bool" where
  "is_file_kind k \<longleftrightarrow> k = Write \<or> k = Edit"

text \<open>The command a request runs, trimmed, with the directory it names.\<close>

definition request_command :: "permission_request \<Rightarrow> (ustring \<times> ustring option) option" where
  "request_command q =
     Option.bind (find_map (json_get_str (inv_arguments (req_call q))) [lit ''command'', lit ''cmd'']) (\<lambda>c.
     map_option (Pair (utrim c)) (normalized_workdir (workdir_argument (inv_arguments (req_call q)))))"

lemma matches_exact_command_iff:
  "matches_exact_command_request q c w \<longleftrightarrow> request_command q = Some (c, w)"
  by (auto simp: matches_exact_command_request_def request_command_def string_argument_any_def
      command_keys_def split: option.splits bind_splits)

lemma command_matcher_eq:
  "command_matcher_from_request q =
     (case request_command q of
        None \<Rightarrow> None | Some (c, w) \<Rightarrow> if c = [] then None else Some (ExactCommand c w))"
  by (auto simp: command_matcher_from_request_def request_command_def string_argument_any_def
      command_keys_def Let_def split: option.splits bind_splits)

text \<open>What a request must share with the approved one for the rule to cover it.\<close>

definition in_scope :: "permission_request \<Rightarrow> permission_request \<Rightarrow> bool" where
  "in_scope q q' \<longleftrightarrow> same_tool q q' \<and>
     (if is_file_kind (def_kind (req_definition q)) then
        (case (previewed_path q, previewed_path q') of
           (Some p, Some p') \<Rightarrow>
             (if path_is_absolute p then p \<noteq> [RootDir] \<and> path_is_absolute p' \<and> prefix (butlast p) p'
              else \<not> path_is_absolute p')
         | _ \<Rightarrow> False)
      else if def_kind (req_definition q) = Execute then
        request_command q \<noteq> None \<and> request_command q' = request_command q
      else inv_arguments (req_call q') = inv_arguments (req_call q))"

lemma matcher_from_request_file:
  "is_file_kind (def_kind (req_definition q)) \<Longrightarrow> matcher_from_request q = file_matcher_from_request q"
  by (auto simp: is_file_kind_def matcher_from_request_def)

lemma matcher_from_request_exact:
  "\<not> is_file_kind (def_kind (req_definition q)) \<Longrightarrow> def_kind (req_definition q) \<noteq> Execute \<Longrightarrow>
     matcher_from_request q = Some (ExactArguments (inv_arguments (req_call q)))"
  by (auto simp: is_file_kind_def matcher_from_request_def split: tool_kind.splits)

lemma rule_from_request_Some:
  "rule_from_request q b = Some r \<longleftrightarrow>
     inv_name (req_call q) = def_name (req_definition q) \<and> utrim (def_name (req_definition q)) \<noteq> []
     \<and> (\<exists>m. matcher_from_request q = Some m \<and>
          r = \<lparr>rule_behavior = b, rule_tool = def_name (req_definition q),
               rule_kind = def_kind (req_definition q), rule_matcher = m\<rparr>)"
  by (auto simp: rule_from_request_def split: bind_splits)

lemma rule_from_request_behavior: "rule_from_request q b = Some r \<Longrightarrow> rule_behavior r = b"
  by (auto simp: rule_from_request_Some)

lemma rule_from_request_with_behavior:
  "rule_from_request q b = Some r \<Longrightarrow> rule_from_request q b' = Some (with_behavior r b')"
  by (auto simp: rule_from_request_Some with_behavior_def)

lemma rule_matches_same_tool:
  "rule_tool r = def_name (req_definition q) \<Longrightarrow> rule_kind r = def_kind (req_definition q) \<Longrightarrow>
     rule_matches r q' \<longleftrightarrow> same_tool q q' \<and>
       (case rule_matcher r of
          WorkspaceRelativeFile \<Rightarrow> matches_relative_file_request q'
        | AbsoluteDirectory d \<Rightarrow> matches_absolute_file_request q' d
        | ExactCommand c w \<Rightarrow> matches_exact_command_request q' c w
        | ExactArguments a \<Rightarrow> inv_arguments (req_call q') = a)"
  by (auto simp: rule_matches_def same_tool_def)

lemma rule_scope:
  assumes r: "rule_from_request q b = Some r"
  shows "rule_matches r q' \<longleftrightarrow> in_scope q q'"
proof -
  let ?k = "def_kind (req_definition q)"
  from r obtain m where m: "matcher_from_request q = Some m" "rule_matcher r = m"
      "rule_tool r = def_name (req_definition q)" "rule_kind r = ?k"
    by (auto simp: rule_from_request_Some)
  note matches = rule_matches_same_tool[OF m(3,4), of q']
  consider (files) "is_file_kind ?k" | (command) "?k = Execute"
    | (exact) "\<not> is_file_kind ?k" "?k \<noteq> Execute" by blast
  then show ?thesis
  proof cases
    case files
    then have "file_matcher_from_request q = Some m"
      using m(1) by (simp add: matcher_from_request_file)
    then obtain p where p: "previewed_path q = Some p"
      and m': "if path_is_absolute p then p \<noteq> [RootDir] \<and> m = AbsoluteDirectory (butlast p)
               else m = WorkspaceRelativeFile"
      by (auto simp: file_matcher_eq split: option.splits if_splits)
    from p m' show ?thesis
      by (auto simp: matches m(2) in_scope_def files matches_relative_iff matches_absolute_iff
          split: option.splits if_splits)
  next
    case command
    then have "command_matcher_from_request q = Some m"
      using m(1) by (simp add: matcher_from_request_def)
    then obtain c w where cw: "request_command q = Some (c, w)" "m = ExactCommand c w"
      by (auto simp: command_matcher_eq split: option.splits if_splits)
    with command show ?thesis
      by (auto simp: matches m(2) in_scope_def is_file_kind_def matches_exact_command_iff)
  next
    case exact
    then have "m = ExactArguments (inv_arguments (req_call q))"
      using m(1) by (simp add: matcher_from_request_exact)
    with exact show ?thesis by (auto simp: matches m(2) in_scope_def)
  qed
qed

lemma rule_matches_own_request:
  assumes "rule_from_request q b = Some r"
  shows "rule_matches r q"
proof -
  let ?k = "def_kind (req_definition q)"
  from assms obtain m where m: "matcher_from_request q = Some m" and own: "same_tool q q"
    by (auto simp: rule_from_request_Some same_tool_def)
  have "in_scope q q"
  proof (cases "is_file_kind ?k")
    case True
    with m have "file_matcher_from_request q = Some m" by (simp add: matcher_from_request_file)
    with True own show ?thesis
      by (auto simp: file_matcher_eq in_scope_def prefixeq_butlast split: option.splits if_splits)
  next
    case False
    with m own show ?thesis
      by (auto simp: in_scope_def matcher_from_request_def command_matcher_eq split: option.splits)
  qed
  with rule_scope[OF assms] show ?thesis by simp
qed

text \<open>No rule is made of a file request whose path is unsafe or was not shown.\<close>

lemma no_rule_for_unsafe_path:
  assumes "is_file_kind (def_kind (req_definition q))" and "previewed_path q = None"
  shows "rule_from_request q b = None"
  using assms
  by (cases "rule_from_request q b") (auto simp: rule_from_request_Some matcher_from_request_file file_matcher_eq)

lemma in_scope_file:
  "in_scope q q' \<Longrightarrow> is_file_kind (def_kind (req_definition q)) \<Longrightarrow>
     \<exists>s pv. request_path q' = Some s \<and> safe_file_path s \<and> req_preview q' = Some pv
       \<and> safe_file_path (prev_path pv) \<and> plain_path (prev_path pv) = plain_path s"
  by (auto simp: in_scope_def previewed_path_def split: option.splits if_splits)

end
