(* ===== verification/Permission_Broker.thy ===== *)
theory Permission_Broker
  imports Permission_Rules Session_Files
begin

text \<open>
  Asking the user, \<^verbatim>\<open>conversation-runtime/src/conversation/permission.rs\<close>.  Every call of a tool
  that must ask runs \<^verbatim>\<open>request_permission\<close> in a task of its own; the terminal answers through
  \<^verbatim>\<open>respond_permission\<close>; a new turn, a reset or a cancellation invalidates what is pending.  The
  tasks share the fields of the broker, each behind its own lock.

  A handler is one run of \<^verbatim>\<open>request_permission\<close>: its local variables and a program counter.
  \<open>handler_step\<close> performs the code between two accesses of shared state, so that any interleaving
  of the tasks is a sequence of steps.  \<^verbatim>\<open>invalidate_pending\<close> changes generation, rules and pending
  map under both locks and is one step; the answers it owes are sent after the locks are
  released, hence the \<open>outbox\<close> of senders that were taken and have not sent yet.  The counters do
  not wrap (they are 64 bits wide).
\<close>

section \<open>Options and decisions\<close>

datatype option_kind = AllowOnce | AllowAlways | RejectOnce | RejectAlways | UnknownKind

record permission_option =
  opt_id :: ustring
  opt_name :: ustring
  opt_kind :: option_kind

definition allow_once_id :: ustring where "allow_once_id = lit ''allow_once''"
definition allow_always_id :: ustring where "allow_always_id = lit ''allow_always''"
definition reject_once_id :: ustring where "reject_once_id = lit ''reject_once''"
definition reject_always_id :: ustring where "reject_always_id = lit ''reject_always''"

definition runtime_permission_options :: "bool \<Rightarrow> permission_option list" where
  "runtime_permission_options can_remember =
     [\<lparr>opt_id = allow_once_id, opt_name = lit ''Yes'', opt_kind = AllowOnce\<rparr>]
     @ (if can_remember
        then [\<lparr>opt_id = allow_always_id,
               opt_name = lit ''Yes, allow similar requests during this session'',
               opt_kind = AllowAlways\<rparr>] else [])
     @ [\<lparr>opt_id = reject_once_id, opt_name = lit ''No'', opt_kind = RejectOnce\<rparr>]
     @ (if can_remember
        then [\<lparr>opt_id = reject_always_id,
               opt_name = lit ''No, reject similar requests during this session'',
               opt_kind = RejectAlways\<rparr>] else [])"

definition selected_kind :: "permission_option list \<Rightarrow> ustring option \<Rightarrow> option_kind option" where
  "selected_kind options answer =
     Option.bind answer (\<lambda>a. map_option opt_kind (List.find (\<lambda>opt. opt_id opt = a) options))"

definition deny_permission :: "ustring \<Rightarrow> ustring \<Rightarrow> permission_decision" where
  "deny_permission tool reason = Deny (lit ''Tool permission denied: '' @ tool @ lit '' '' @ reason)"

definition user_rejected :: ustring where
  "user_rejected = lit ''user rejected the tool call''"

definition request_cancelled :: ustring where
  "request_cancelled = lit ''permission request cancelled''"

definition decision_for_rule :: "ustring \<Rightarrow> rule_behavior \<Rightarrow> permission_decision" where
  "decision_for_rule tool b =
     (case b of
        RuleAllow \<Rightarrow> Allow
      | RuleDeny \<Rightarrow> deny_permission tool (lit ''a stored permission rule rejected the tool call''))"

section \<open>The broker and the running requests\<close>

text \<open>The one-shot channel of a request: nothing yet, an answer, or its sender dropped.\<close>

datatype channel = Unanswered | Answered "ustring option" | SenderDropped

datatype handler_pc =
    CheckCancelled | LoadGeneration | EvaluateRules | RecheckCancelled | RecheckGeneration
  | TakeRequestId | Register | SendEvent | RemoveUnsent | PollCancelled | PollResponse
  | RemoveCancelled | FinalCancelled | FinalGeneration | Decide
  | Finished permission_decision

record handler =
  h_request :: permission_request
  h_token :: nat
  h_pc :: handler_pc
  h_generation :: nat
  h_stored :: "rule_behavior option"
  h_request_id :: ustring
  h_channel :: channel
  h_option :: "ustring option"

record broker =
  next_request_id :: nat
  context_generation :: nat
  pending :: "(ustring \<times> nat) list"
  broker_rules :: rule_set
  handlers :: "handler list"
  cancelled_tokens :: "nat set"
  outbox :: "(ustring option \<times> nat \<times> ustring option) list"
  events :: "(ustring \<times> permission_option list) list"
  runtime_gone :: bool
  responses :: "(ustring \<times> ustring option \<times> (ustring + unit)) list"

definition new_broker :: broker where
  "new_broker =
     \<lparr>next_request_id = 0, context_generation = 0, pending = [], broker_rules = [], handlers = [],
      cancelled_tokens = {}, outbox = [], events = [], runtime_gone = False, responses = []\<rparr>"

definition new_handler :: "permission_request \<Rightarrow> nat \<Rightarrow> handler" where
  "new_handler q token =
     \<lparr>h_request = q, h_token = token, h_pc = CheckCancelled, h_generation = 0, h_stored = None,
      h_request_id = [], h_channel = Unanswered, h_option = None\<rparr>"

definition update_handler :: "nat \<Rightarrow> (handler \<Rightarrow> handler) \<Rightarrow> broker \<Rightarrow> broker" where
  "update_handler i f s = s\<lparr>handlers := (handlers s)[i := f (handlers s ! i)]\<rparr>"

definition goto_pc :: "nat \<Rightarrow> handler_pc \<Rightarrow> broker \<Rightarrow> broker" where
  "goto_pc i pc = update_handler i (\<lambda>h. h\<lparr>h_pc := pc\<rparr>)"

definition finish_with :: "nat \<Rightarrow> permission_decision \<Rightarrow> broker \<Rightarrow> broker" where
  "finish_with i d = goto_pc i (Finished d)"

definition request_id_text :: "nat \<Rightarrow> ustring" where
  "request_id_text n = lit ''conversation-permission-'' @ decimal n"

text \<open>Taking a sender out of the map and dropping it closes its channel.\<close>

definition remove_pending :: "ustring \<Rightarrow> broker \<Rightarrow> broker" where
  "remove_pending rid s =
     (case map_of (pending s) rid of
        None \<Rightarrow> s
      | Some i \<Rightarrow> update_handler i (\<lambda>h. h\<lparr>h_channel := SenderDropped\<rparr>)
                    (s\<lparr>pending := AList.delete rid (pending s)\<rparr>))"

definition insert_pending :: "ustring \<Rightarrow> nat \<Rightarrow> broker \<Rightarrow> broker" where
  "insert_pending rid i s =
     (let s = remove_pending rid s in s\<lparr>pending := AList.update rid i (pending s)\<rparr>)"

text \<open>\<^verbatim>\<open>insert_rule_if_active\<close>: check and insertion under the lock of the rules.\<close>

definition insert_rule_if_active ::
    "nat \<Rightarrow> nat \<Rightarrow> permission_rule \<Rightarrow> broker \<Rightarrow> broker \<times> bool" where
  "insert_rule_if_active generation token r s =
     (if token \<in> cancelled_tokens s \<or> context_generation s \<noteq> generation then (s, False)
      else (s\<lparr>broker_rules := insert_rule r (broker_rules s)\<rparr>, True))"

definition session_rule :: "permission_request \<Rightarrow> permission_rule option" where
  "session_rule q = rule_from_request q RuleAllow"

definition handler_options :: "permission_request \<Rightarrow> permission_option list" where
  "handler_options q = runtime_permission_options (session_rule q \<noteq> None)"

definition decide_step :: "nat \<Rightarrow> broker \<Rightarrow> broker" where
  "decide_step i s =
     (let h = handlers s ! i; q = h_request h; tool = def_name (req_definition q);
          rejected = deny_permission tool user_rejected
      in case selected_kind (handler_options q) (h_option h) of
           Some AllowOnce \<Rightarrow> finish_with i Allow s
         | Some AllowAlways \<Rightarrow>
             (case session_rule q of
                None \<Rightarrow> finish_with i Allow s
              | Some r \<Rightarrow>
                  (case insert_rule_if_active (h_generation h) (h_token h) r s of
                     (s, inserted) \<Rightarrow> finish_with i (if inserted then Allow else rejected) s))
         | Some RejectAlways \<Rightarrow>
             (case session_rule q of
                None \<Rightarrow> finish_with i rejected s
              | Some r \<Rightarrow>
                  finish_with i rejected
                    (fst (insert_rule_if_active (h_generation h) (h_token h)
                            (with_behavior r RuleDeny) s)))
         | _ \<Rightarrow> finish_with i rejected s)"

text \<open>
  One step of the \<open>i\<close>-th run of \<^verbatim>\<open>request_permission\<close>.  The biased \<^verbatim>\<open>select!\<close> polls the
  cancellation, then the channel, and is woken to poll again.
\<close>

definition handler_step :: "nat \<Rightarrow> broker \<Rightarrow> broker" where
  "handler_step i s =
     (let h = handlers s ! i; q = h_request h; tool = def_name (req_definition q);
          cancelled = (h_token h \<in> cancelled_tokens s);
          stale = (context_generation s \<noteq> h_generation h)
      in case h_pc h of
           CheckCancelled \<Rightarrow>
             if cancelled then finish_with i (deny_permission tool request_cancelled) s
             else goto_pc i LoadGeneration s
         | LoadGeneration \<Rightarrow>
             update_handler i
               (\<lambda>h. h\<lparr>h_generation := context_generation s, h_pc := EvaluateRules\<rparr>) s
         | EvaluateRules \<Rightarrow>
             update_handler i
               (\<lambda>h. h\<lparr>h_stored := evaluate_rules (broker_rules s) q, h_pc := RecheckCancelled\<rparr>) s
         | RecheckCancelled \<Rightarrow>
             if cancelled then finish_with i (deny_permission tool user_rejected) s
             else goto_pc i RecheckGeneration s
         | RecheckGeneration \<Rightarrow>
             if stale then finish_with i (deny_permission tool user_rejected) s
             else (case h_stored h of
                     Some b \<Rightarrow> finish_with i (decision_for_rule tool b) s
                   | None \<Rightarrow> goto_pc i TakeRequestId s)
         | TakeRequestId \<Rightarrow>
             update_handler i
               (\<lambda>h. h\<lparr>h_request_id := request_id_text (Suc (next_request_id s)), h_pc := Register\<rparr>)
               (s\<lparr>next_request_id := Suc (next_request_id s)\<rparr>)
         | Register \<Rightarrow>
             if stale then finish_with i (deny_permission tool user_rejected) s
             else goto_pc i SendEvent (insert_pending (h_request_id h) i s)
         | SendEvent \<Rightarrow>
             if runtime_gone s then goto_pc i RemoveUnsent s
             else goto_pc i PollCancelled (s\<lparr>events := events s @ [(h_request_id h, handler_options q)]\<rparr>)
         | RemoveUnsent \<Rightarrow>
             finish_with i (deny_permission tool (lit ''runtime is unavailable''))
               (remove_pending (h_request_id h) s)
         | PollCancelled \<Rightarrow>
             goto_pc i (if cancelled then RemoveCancelled else PollResponse) s
         | PollResponse \<Rightarrow>
             (case h_channel h of
                Unanswered \<Rightarrow> goto_pc i PollCancelled s
              | Answered v \<Rightarrow> update_handler i (\<lambda>h. h\<lparr>h_option := v, h_pc := FinalCancelled\<rparr>) s
              | SenderDropped \<Rightarrow> update_handler i (\<lambda>h. h\<lparr>h_option := None, h_pc := FinalCancelled\<rparr>) s)
         | RemoveCancelled \<Rightarrow> goto_pc i FinalCancelled (remove_pending (h_request_id h) s)
         | FinalCancelled \<Rightarrow>
             if cancelled then finish_with i (deny_permission tool request_cancelled) s
             else goto_pc i FinalGeneration s
         | FinalGeneration \<Rightarrow>
             if stale then finish_with i (deny_permission tool user_rejected) s
             else goto_pc i Decide s
         | Decide \<Rightarrow> decide_step i s
         | Finished d \<Rightarrow> s)"

section \<open>What the rest of the program does to the broker\<close>

definition start_request :: "permission_request \<Rightarrow> nat \<Rightarrow> broker \<Rightarrow> broker" where
  "start_request q token s = s\<lparr>handlers := handlers s @ [new_handler q token]\<rparr>"

definition cancel_token :: "nat \<Rightarrow> broker \<Rightarrow> broker" where
  "cancel_token token s = s\<lparr>cancelled_tokens := insert token (cancelled_tokens s)\<rparr>"

text \<open>\<^verbatim>\<open>respond_permission\<close>: the sender is taken out of the map, then it sends.\<close>

definition take_sender :: "ustring \<Rightarrow> ustring option \<Rightarrow> broker \<Rightarrow> broker" where
  "take_sender rid answer s =
     (case map_of (pending s) rid of
        None \<Rightarrow> s\<lparr>responses := responses s
                  @ [(rid, answer, Err (lit ''Conversation permission request is not pending: '' @ rid))]\<rparr>
      | Some i \<Rightarrow> s\<lparr>pending := AList.delete rid (pending s),
                    outbox := outbox s @ [(Some rid, i, answer)]\<rparr>)"

definition receiver_alive :: "handler_pc \<Rightarrow> bool" where
  "receiver_alive pc \<longleftrightarrow> pc = Register \<or> pc = SendEvent \<or> pc = RemoveUnsent
     \<or> pc = PollCancelled \<or> pc = PollResponse"

definition log_response ::
    "ustring option \<Rightarrow> ustring option \<Rightarrow> (ustring + unit) \<Rightarrow> broker \<Rightarrow> broker" where
  "log_response rid answer result s =
     (case rid of None \<Rightarrow> s | Some rid \<Rightarrow> s\<lparr>responses := responses s @ [(rid, answer, result)]\<rparr>)"

definition send_answer :: "nat \<Rightarrow> broker \<Rightarrow> broker" where
  "send_answer k s =
     (case outbox s ! k of
        (rid, i, answer) \<Rightarrow>
          (let s = s\<lparr>outbox := take k (outbox s) @ drop (Suc k) (outbox s)\<rparr>
           in if receiver_alive (h_pc (handlers s ! i))
              then log_response rid answer (Ok ())
                     (update_handler i (\<lambda>h. h\<lparr>h_channel := Answered answer\<rparr>) s)
              else log_response rid answer
                     (Err (lit ''Conversation permission request is no longer waiting: ''
                           @ (case rid of None \<Rightarrow> [] | Some rid \<Rightarrow> rid))) s))"

definition invalidate_pending :: "bool \<Rightarrow> broker \<Rightarrow> broker" where
  "invalidate_pending should_clear_rules s =
     s\<lparr>context_generation := Suc (context_generation s),
       broker_rules := (if should_clear_rules then rules_clear (broker_rules s) else broker_rules s),
       outbox := outbox s @ map (\<lambda>(rid, i). (None, i, None)) (pending s),
       pending := []\<rparr>"

definition cancel_all :: "broker \<Rightarrow> broker" where
  "cancel_all s = invalidate_pending False s"

definition clear_permission_context :: "broker \<Rightarrow> broker" where
  "clear_permission_context s = invalidate_pending True s"

inductive broker_step :: "broker \<Rightarrow> broker \<Rightarrow> bool" where
  step_start: "broker_step s (start_request q token s)"
| step_handler: "i < length (handlers s) \<Longrightarrow> broker_step s (handler_step i s)"
| step_take: "broker_step s (take_sender rid answer s)"
| step_send: "k < length (outbox s) \<Longrightarrow> broker_step s (send_answer k s)"
| step_cancel_all: "broker_step s (cancel_all s)"
| step_clear: "broker_step s (clear_permission_context s)"
| step_cancel: "broker_step s (cancel_token token s)"
| step_runtime_gone: "broker_step s (s\<lparr>runtime_gone := True\<rparr>)"

definition broker_steps :: "broker \<Rightarrow> broker \<Rightarrow> bool" where
  "broker_steps = broker_step\<^sup>*\<^sup>*"

definition broker_reachable :: "broker \<Rightarrow> bool" where
  "broker_reachable s \<longleftrightarrow> broker_steps new_broker s"

section \<open>Reading the state back\<close>

lemma update_handler_fields [simp]:
  "length (handlers (update_handler i f s)) = length (handlers s)"
  "next_request_id (update_handler i f s) = next_request_id s"
  "context_generation (update_handler i f s) = context_generation s"
  "pending (update_handler i f s) = pending s"
  "broker_rules (update_handler i f s) = broker_rules s"
  "cancelled_tokens (update_handler i f s) = cancelled_tokens s"
  "outbox (update_handler i f s) = outbox s"
  "events (update_handler i f s) = events s"
  "runtime_gone (update_handler i f s) = runtime_gone s"
  "responses (update_handler i f s) = responses s"
  by (simp_all add: update_handler_def)

lemma handlers_update_handler [simp]:
  "j < length (handlers s) \<Longrightarrow>
     handlers (update_handler i f s) ! j = (if j = i then f (handlers s ! i) else handlers s ! j)"
  by (simp add: update_handler_def nth_list_update)

lemmas move_defs = goto_pc_def finish_with_def

lemma remove_pending_fields [simp]:
  "length (handlers (remove_pending rid s)) = length (handlers s)"
  "next_request_id (remove_pending rid s) = next_request_id s"
  "context_generation (remove_pending rid s) = context_generation s"
  "broker_rules (remove_pending rid s) = broker_rules s"
  "cancelled_tokens (remove_pending rid s) = cancelled_tokens s"
  "outbox (remove_pending rid s) = outbox s"
  "events (remove_pending rid s) = events s"
  "runtime_gone (remove_pending rid s) = runtime_gone s"
  "responses (remove_pending rid s) = responses s"
  "pending (remove_pending rid s) = AList.delete rid (pending s)"
  by (auto simp: remove_pending_def map_of_eq_None_iff AList.delete_id split: option.split)

lemma handlers_remove_pending [simp]:
  "j < length (handlers s) \<Longrightarrow>
     handlers (remove_pending rid s) ! j =
       (if map_of (pending s) rid = Some j then (handlers s ! j)\<lparr>h_channel := SenderDropped\<rparr>
        else handlers s ! j)"
  by (auto simp: remove_pending_def update_handler_def nth_list_update split: option.split)

lemma insert_pending_fields [simp]:
  "length (handlers (insert_pending rid i s)) = length (handlers s)"
  "handlers (insert_pending rid i s) = handlers (remove_pending rid s)"
  "next_request_id (insert_pending rid i s) = next_request_id s"
  "context_generation (insert_pending rid i s) = context_generation s"
  "broker_rules (insert_pending rid i s) = broker_rules s"
  "cancelled_tokens (insert_pending rid i s) = cancelled_tokens s"
  "outbox (insert_pending rid i s) = outbox s"
  "responses (insert_pending rid i s) = responses s"
  "pending (insert_pending rid i s) = AList.update rid i (AList.delete rid (pending s))"
  by (simp_all add: insert_pending_def Let_def)

lemma log_response_fields [simp]:
  "handlers (log_response rid answer r s) = handlers s"
  "next_request_id (log_response rid answer r s) = next_request_id s"
  "context_generation (log_response rid answer r s) = context_generation s"
  "broker_rules (log_response rid answer r s) = broker_rules s"
  "cancelled_tokens (log_response rid answer r s) = cancelled_tokens s"
  "outbox (log_response rid answer r s) = outbox s"
  "pending (log_response rid answer r s) = pending s"
  by (simp_all add: log_response_def split: option.split)

lemma set_responses_log_response:
  "set (responses (log_response rid answer r s)) =
     (case rid of None \<Rightarrow> set (responses s) | Some rid \<Rightarrow> insert (rid, answer, r) (set (responses s)))"
  by (simp add: log_response_def split: option.split)

lemma insert_rule_if_active_fields [simp]:
  "handlers (fst (insert_rule_if_active g t r s)) = handlers s"
  "next_request_id (fst (insert_rule_if_active g t r s)) = next_request_id s"
  "context_generation (fst (insert_rule_if_active g t r s)) = context_generation s"
  "pending (fst (insert_rule_if_active g t r s)) = pending s"
  "cancelled_tokens (fst (insert_rule_if_active g t r s)) = cancelled_tokens s"
  "outbox (fst (insert_rule_if_active g t r s)) = outbox s"
  "responses (fst (insert_rule_if_active g t r s)) = responses s"
  by (simp_all add: insert_rule_if_active_def)

lemma option_ids [simp]:
  "allow_once_id \<noteq> allow_always_id" "allow_once_id \<noteq> reject_once_id" "allow_once_id \<noteq> reject_always_id"
  "allow_always_id \<noteq> allow_once_id" "allow_always_id \<noteq> reject_once_id" "allow_always_id \<noteq> reject_always_id"
  "reject_once_id \<noteq> allow_once_id" "reject_once_id \<noteq> allow_always_id" "reject_once_id \<noteq> reject_always_id"
  "reject_always_id \<noteq> allow_once_id" "reject_always_id \<noteq> allow_always_id" "reject_always_id \<noteq> reject_once_id"
  by (simp_all add: allow_once_id_def allow_always_id_def reject_once_id_def reject_always_id_def)

lemma selected_kind_iffs:
  "selected_kind (runtime_permission_options r) a = Some AllowOnce \<longleftrightarrow> a = Some allow_once_id"
  "selected_kind (runtime_permission_options r) a = Some AllowAlways \<longleftrightarrow> r \<and> a = Some allow_always_id"
  "selected_kind (runtime_permission_options r) a = Some RejectOnce \<longleftrightarrow> a = Some reject_once_id"
  "selected_kind (runtime_permission_options r) a = Some RejectAlways \<longleftrightarrow> r \<and> a = Some reject_always_id"
  by (cases a; cases r; auto simp: selected_kind_def runtime_permission_options_def)+

text \<open>Deciding touches the rules and the program counter of the handler only.\<close>

definition new_rules :: "handler \<Rightarrow> permission_rule set" where
  "new_rules h =
     {r. \<exists>r0. session_rule (h_request h) = Some r0 \<and>
           (r = r0 \<and> h_option h = Some allow_always_id
            \<or> r = with_behavior r0 RuleDeny \<and> h_option h = Some reject_always_id)}"

definition consented :: "handler \<Rightarrow> bool" where
  "consented h \<longleftrightarrow> h_option h = Some allow_once_id
     \<or> h_option h = Some allow_always_id \<and> session_rule (h_request h) \<noteq> None"

lemma decide_step_shape:
  assumes "i < length (handlers s)"
  obtains d rs where "decide_step i s = finish_with i d (s\<lparr>broker_rules := rs\<rparr>)"
    and "\<And>r. r \<in> set rs \<Longrightarrow> r \<in> set (broker_rules s) \<or>
          context_generation s = h_generation (handlers s ! i) \<and> r \<in> new_rules (handlers s ! i)"
    and "d = Allow \<Longrightarrow> consented (handlers s ! i)"
proof -
  let ?h = "handlers s ! i"
  let ?q = "h_request ?h"
  let ?rejected = "deny_permission (def_name (req_definition ?q)) user_rejected"
  have not_allow: "?rejected \<noteq> Allow" by (simp add: deny_permission_def)
  note kinds = selected_kind_iffs[of "session_rule ?q \<noteq> None" "h_option ?h", folded handler_options_def]
  have same: "s\<lparr>broker_rules := broker_rules s\<rparr> = s" by simp
  consider (once) "h_option ?h = Some allow_once_id"
    | (always) r0 where "h_option ?h = Some allow_always_id" "session_rule ?q = Some r0"
    | (never) r0 where "h_option ?h = Some reject_always_id" "session_rule ?q = Some r0"
    | (other) "selected_kind (handler_options ?q) (h_option ?h) \<notin> {Some AllowOnce, Some AllowAlways, Some RejectAlways}"
    using kinds by fastforce
  then show thesis
  proof cases
    case once
    then have "decide_step i s = finish_with i Allow (s\<lparr>broker_rules := broker_rules s\<rparr>)"
      using kinds(1) by (simp add: decide_step_def Let_def)
    with once show thesis by (intro that) (auto simp: consented_def)
  next
    case always
    then have sel: "selected_kind (handler_options ?q) (h_option ?h) = Some AllowAlways"
      using kinds(2) by simp
    show thesis
    proof (cases "h_token ?h \<in> cancelled_tokens s \<or> context_generation s \<noteq> h_generation ?h")
      case True
      then have "decide_step i s = finish_with i ?rejected (s\<lparr>broker_rules := broker_rules s\<rparr>)"
        using sel always by (auto simp: decide_step_def Let_def insert_rule_if_active_def)
      with not_allow show thesis by (intro that) auto
    next
      case False
      then have "decide_step i s = finish_with i Allow (s\<lparr>broker_rules := insert_rule r0 (broker_rules s)\<rparr>)"
        using sel always by (auto simp: decide_step_def Let_def insert_rule_if_active_def)
      with False always show thesis by (intro that) (auto simp: consented_def new_rules_def)
    qed
  next
    case never
    then have sel: "selected_kind (handler_options ?q) (h_option ?h) = Some RejectAlways"
      using kinds(4) by simp
    show thesis
    proof (cases "h_token ?h \<in> cancelled_tokens s \<or> context_generation s \<noteq> h_generation ?h")
      case True
      then have "decide_step i s = finish_with i ?rejected (s\<lparr>broker_rules := broker_rules s\<rparr>)"
        using sel never by (auto simp: decide_step_def Let_def insert_rule_if_active_def)
      with not_allow show thesis by (intro that) auto
    next
      case False
      then have "decide_step i s = finish_with i ?rejected
          (s\<lparr>broker_rules := insert_rule (with_behavior r0 RuleDeny) (broker_rules s)\<rparr>)"
        using sel never by (auto simp: decide_step_def Let_def insert_rule_if_active_def)
      with False never not_allow show thesis by (intro that) (auto simp: new_rules_def)
    qed
  next
    case other
    then have "decide_step i s = finish_with i ?rejected (s\<lparr>broker_rules := broker_rules s\<rparr>)"
      by (auto simp: decide_step_def Let_def split: option.splits option_kind.splits)
    with not_allow show thesis by (intro that) auto
  qed
qed

lemma goto_pc_fields [simp]:
  "length (handlers (goto_pc i pc s)) = length (handlers s)"
  "next_request_id (goto_pc i pc s) = next_request_id s"
  "context_generation (goto_pc i pc s) = context_generation s"
  "pending (goto_pc i pc s) = pending s"
  "broker_rules (goto_pc i pc s) = broker_rules s"
  "cancelled_tokens (goto_pc i pc s) = cancelled_tokens s"
  "outbox (goto_pc i pc s) = outbox s"
  "responses (goto_pc i pc s) = responses s"
  "j < length (handlers s) \<Longrightarrow>
     handlers (goto_pc i pc s) ! j = (if j = i then (handlers s ! i)\<lparr>h_pc := pc\<rparr> else handlers s ! j)"
  by (simp_all add: goto_pc_def)

lemma finish_with_fields [simp]:
  "length (handlers (finish_with i d s)) = length (handlers s)"
  "next_request_id (finish_with i d s) = next_request_id s"
  "context_generation (finish_with i d s) = context_generation s"
  "pending (finish_with i d s) = pending s"
  "broker_rules (finish_with i d s) = broker_rules s"
  "cancelled_tokens (finish_with i d s) = cancelled_tokens s"
  "outbox (finish_with i d s) = outbox s"
  "responses (finish_with i d s) = responses s"
  "j < length (handlers s) \<Longrightarrow>
     handlers (finish_with i d s) ! j =
       (if j = i then (handlers s ! i)\<lparr>h_pc := Finished d\<rparr> else handlers s ! j)"
  by (simp_all add: finish_with_def)

lemma log_response_length [simp]: "length (handlers (log_response rid answer r s)) = length (handlers s)"
  by simp

lemma decide_step_handlers:
  assumes "i < length (handlers s)" and "j < length (handlers s)"
  shows "length (handlers (decide_step i s)) = length (handlers s)"
    and "j \<noteq> i \<Longrightarrow> handlers (decide_step i s) ! j = handlers s ! j"
    and "\<exists>d. handlers (decide_step i s) ! i = (handlers s ! i)\<lparr>h_pc := Finished d\<rparr>"
proof -
  obtain d rs where "decide_step i s = finish_with i d (s\<lparr>broker_rules := rs\<rparr>)"
    using decide_step_shape[OF assms(1)] .
  with assms show "length (handlers (decide_step i s)) = length (handlers s)"
    and "j \<noteq> i \<Longrightarrow> handlers (decide_step i s) ! j = handlers s ! j"
    and "\<exists>d. handlers (decide_step i s) ! i = (handlers s ! i)\<lparr>h_pc := Finished d\<rparr>"
    by auto
qed

definition without_channel :: "handler \<Rightarrow> handler" where
  "without_channel h = h\<lparr>h_channel := Unanswered\<rparr>"

lemma without_channel_simps [simp]:
  "without_channel (h\<lparr>h_channel := c\<rparr>) = without_channel h"
  "h_request (without_channel h) = h_request h" "h_token (without_channel h) = h_token h"
  "h_pc (without_channel h) = h_pc h" "h_generation (without_channel h) = h_generation h"
  "h_stored (without_channel h) = h_stored h" "h_request_id (without_channel h) = h_request_id h"
  "h_option (without_channel h) = h_option h"
  by (simp_all add: without_channel_def)

lemma handler_step_other:
  assumes "j < length (handlers s)" and "i < length (handlers s)" and "j \<noteq> i"
  shows "without_channel (handlers (handler_step i s) ! j) = without_channel (handlers s ! j)"
  using assms
  by (cases "h_pc (handlers s ! i)")
    (auto simp: handler_step_def Let_def decide_step_handlers split: option.split channel.split)

lemma handler_step_length [simp]:
  assumes "i < length (handlers s)"
  shows "length (handlers (handler_step i s)) = length (handlers s)"
  using assms
  by (cases "h_pc (handlers s ! i)")
    (auto simp: handler_step_def Let_def decide_step_handlers split: option.split channel.split)

lemma handler_step_own:
  assumes "i < length (handlers s)"
  shows "h_request (handlers (handler_step i s) ! i) = h_request (handlers s ! i)"
    and "h_token (handlers (handler_step i s) ! i) = h_token (handlers s ! i)"
  using assms decide_step_handlers(3)[OF assms assms]
  by (cases "h_pc (handlers s ! i)";
      auto simp: handler_step_def Let_def split: option.split channel.split)+

lemma handler_step_finished: "h_pc (handlers s ! i) = Finished d \<Longrightarrow> handler_step i s = s"
  by (simp add: handler_step_def Let_def)

lemma without_channel_eqD:
  assumes "without_channel h = without_channel h'"
  shows "h_request h = h_request h'" "h_token h = h_token h'" "h_pc h = h_pc h'"
    "h_generation h = h_generation h'" "h_stored h = h_stored h'"
    "h_request_id h = h_request_id h'" "h_option h = h_option h'"
  using arg_cong[OF assms, of h_request] arg_cong[OF assms, of h_token] arg_cong[OF assms, of h_pc]
    arg_cong[OF assms, of h_generation] arg_cong[OF assms, of h_stored]
    arg_cong[OF assms, of h_request_id] arg_cong[OF assms, of h_option]
  by simp_all

section \<open>Steps and what they leave alone\<close>

lemma take_sender_fields [simp]:
  "handlers (take_sender rid a s) = handlers s"
  "next_request_id (take_sender rid a s) = next_request_id s"
  "context_generation (take_sender rid a s) = context_generation s"
  "broker_rules (take_sender rid a s) = broker_rules s"
  "cancelled_tokens (take_sender rid a s) = cancelled_tokens s"
  by (simp_all add: take_sender_def split: option.split)

lemma send_answer_fields [simp]:
  "length (handlers (send_answer k s)) = length (handlers s)"
  "next_request_id (send_answer k s) = next_request_id s"
  "context_generation (send_answer k s) = context_generation s"
  "broker_rules (send_answer k s) = broker_rules s"
  "cancelled_tokens (send_answer k s) = cancelled_tokens s"
  "pending (send_answer k s) = pending s"
  "outbox (send_answer k s) = take k (outbox s) @ drop (Suc k) (outbox s)"
  by (cases "outbox s ! k"; simp add: send_answer_def Let_def)+

lemma send_answer_handlers [simp]:
  "j < length (handlers s) \<Longrightarrow> handlers (send_answer k s) ! j =
     (if fst (snd (outbox s ! k)) = j \<and> receiver_alive (h_pc (handlers s ! j))
      then (handlers s ! j)\<lparr>h_channel := Answered (snd (snd (outbox s ! k)))\<rparr> else handlers s ! j)"
  by (cases "outbox s ! k") (auto simp: send_answer_def Let_def)

lemma invalidate_fields [simp]:
  "handlers (invalidate_pending b s) = handlers s"
  "next_request_id (invalidate_pending b s) = next_request_id s"
  "context_generation (invalidate_pending b s) = Suc (context_generation s)"
  "cancelled_tokens (invalidate_pending b s) = cancelled_tokens s"
  "pending (invalidate_pending b s) = []"
  "responses (invalidate_pending b s) = responses s"
  "outbox (invalidate_pending b s) = outbox s @ map (\<lambda>(rid, i). (None, i, None)) (pending s)"
  "broker_rules (invalidate_pending b s) = (if b then [] else broker_rules s)"
  by (simp_all add: invalidate_pending_def rules_clear_def)

lemmas invalidate_defs = cancel_all_def clear_permission_context_def

lemma start_request_fields [simp]:
  "handlers (start_request q t s) = handlers s @ [new_handler q t]"
  "next_request_id (start_request q t s) = next_request_id s"
  "context_generation (start_request q t s) = context_generation s"
  "broker_rules (start_request q t s) = broker_rules s"
  "cancelled_tokens (start_request q t s) = cancelled_tokens s"
  "pending (start_request q t s) = pending s"
  "outbox (start_request q t s) = outbox s"
  "responses (start_request q t s) = responses s"
  by (simp_all add: start_request_def)

lemma cancel_token_fields [simp]:
  "handlers (cancel_token t s) = handlers s"
  "next_request_id (cancel_token t s) = next_request_id s"
  "context_generation (cancel_token t s) = context_generation s"
  "broker_rules (cancel_token t s) = broker_rules s"
  "cancelled_tokens (cancel_token t s) = insert t (cancelled_tokens s)"
  "pending (cancel_token t s) = pending s"
  "outbox (cancel_token t s) = outbox s"
  "responses (cancel_token t s) = responses s"
  by (simp_all add: cancel_token_def)

lemma new_broker_fields [simp]:
  "handlers new_broker = []" "next_request_id new_broker = 0" "pending new_broker = []"
  "broker_rules new_broker = []" "outbox new_broker = []" "responses new_broker = []"
  "context_generation new_broker = 0"
  by (simp_all add: new_broker_def)

lemma step_keeps_requests:
  assumes "broker_step s s'" and "j < length (handlers s)"
  shows "j < length (handlers s')"
    and "h_request (handlers s' ! j) = h_request (handlers s ! j)"
    and "h_token (handlers s' ! j) = h_token (handlers s ! j)"
proof -
  from assms have "j < length (handlers s') \<and> h_request (handlers s' ! j) = h_request (handlers s ! j)
    \<and> h_token (handlers s' ! j) = h_token (handlers s ! j)"
  proof (cases rule: broker_step.cases)
    case (step_handler i)
    show ?thesis
    proof (cases "i = j")
      case True
      then show ?thesis using step_handler assms(2) handler_step_own by simp
    next
      case False
      then have "without_channel (handlers s' ! j) = without_channel (handlers s ! j)"
        using step_handler assms(2) handler_step_other by simp
      then show ?thesis
        using step_handler assms(2) by (metis handler_step_length without_channel_simps(2,3))
    qed
  qed (auto simp: nth_append invalidate_defs)
  then show "j < length (handlers s')"
    and "h_request (handlers s' ! j) = h_request (handlers s ! j)"
    and "h_token (handlers s' ! j) = h_token (handlers s ! j)"
    by auto
qed

lemma step_keeps_finished:
  assumes "broker_step s s'" and "j < length (handlers s)" and "h_pc (handlers s ! j) = Finished d"
  shows "without_channel (handlers s' ! j) = without_channel (handlers s ! j)"
  using assms
proof (cases rule: broker_step.cases)
  case (step_handler i)
  then show ?thesis
    using assms handler_step_other[of j s i] handler_step_finished[of s j d] by (cases "i = j") auto
qed (auto simp: nth_append invalidate_defs)

lemma steps_keep_finished:
  assumes "broker_steps s s'" and "j < length (handlers s)" and "h_pc (handlers s ! j) = Finished d"
  shows "j < length (handlers s') \<and> without_channel (handlers s' ! j) = without_channel (handlers s ! j)"
  using assms(1)[unfolded broker_steps_def] assms(2,3)
proof (induction rule: rtranclp_induct)
  case (step t u)
  from step.IH[OF step.prems]
  have t: "j < length (handlers t)" "without_channel (handlers t ! j) = without_channel (handlers s ! j)"
    by auto
  from t(2) step.prems(2) have "h_pc (handlers t ! j) = Finished d"
    by (metis without_channel_simps(4))
  from step_keeps_finished[OF step.hyps(2) t(1) this] step_keeps_requests(1)[OF step.hyps(2) t(1)] t(2)
  show ?case by simp
qed simp

section \<open>Request ids\<close>

lemma decimal_inj: "decimal m = decimal n \<Longrightarrow> m = n"
proof (induction m arbitrary: n rule: decimal.induct)
  case (1 m)
  note m = decimal.simps[of m] and n = decimal.simps[of n]
  have ne: "decimal k \<noteq> []" for k by (subst decimal.simps) simp
  show ?case
  proof (cases "m < 10 \<or> n < 10")
    case True
    with "1.prems" m n show ?thesis by (auto simp: ne ne[symmetric] split: if_splits)
  next
    case False
    with "1.prems" m n have "decimal (m div 10) = decimal (n div 10)" "m mod 10 = n mod 10" by auto
    moreover from this False "1.IH" have "m div 10 = n div 10" by simp
    ultimately show ?thesis by (metis div_mult_mod_eq)
  qed
qed

lemma request_id_text_inj [simp]: "request_id_text m = request_id_text n \<longleftrightarrow> m = n"
  by (auto simp: request_id_text_def dest: decimal_inj)

lemma request_id_text_not_Nil [simp]: "request_id_text n \<noteq> []"
  by (simp add: request_id_text_def)

definition early :: "handler_pc \<Rightarrow> bool" where
  "early pc \<longleftrightarrow> pc \<in> {CheckCancelled, LoadGeneration, EvaluateRules, RecheckCancelled, RecheckGeneration, TakeRequestId}"

definition registered :: "handler_pc \<Rightarrow> bool" where
  "registered pc \<longleftrightarrow> pc \<in> {SendEvent, RemoveUnsent, PollCancelled, PollResponse, RemoveCancelled}"

definition ids_inv :: "broker \<Rightarrow> bool" where
  "ids_inv s \<longleftrightarrow>
     (\<forall>i<length (handlers s).
        let h = handlers s ! i
        in (early (h_pc h) \<longrightarrow> h_request_id h = [])
           \<and> (h_pc h = Register \<or> registered (h_pc h) \<longrightarrow> h_request_id h \<noteq> [])
           \<and> (h_request_id h \<noteq> [] \<longrightarrow> (\<exists>n\<le>next_request_id s. h_request_id h = request_id_text n))
           \<and> (\<forall>j<length (handlers s). h_request_id h \<noteq> [] \<longrightarrow> h_request_id (handlers s ! j) = h_request_id h \<longrightarrow> j = i))"

lemma handler_step_id:
  assumes "i < length (handlers s)"
  shows "h_request_id (handlers (handler_step i s) ! i) =
      (if h_pc (handlers s ! i) = TakeRequestId then request_id_text (Suc (next_request_id s))
       else h_request_id (handlers s ! i))"
    and "next_request_id (handler_step i s) =
      (if h_pc (handlers s ! i) = TakeRequestId then Suc (next_request_id s) else next_request_id s)"
proof -
  obtain d rs where d: "decide_step i s = finish_with i d (s\<lparr>broker_rules := rs\<rparr>)"
    using decide_step_shape[OF assms] .
  show "h_request_id (handlers (handler_step i s) ! i) =
      (if h_pc (handlers s ! i) = TakeRequestId then request_id_text (Suc (next_request_id s))
       else h_request_id (handlers s ! i))"
    and "next_request_id (handler_step i s) =
      (if h_pc (handlers s ! i) = TakeRequestId then Suc (next_request_id s) else next_request_id s)"
    using assms
    by (cases "h_pc (handlers s ! i)"; auto simp: handler_step_def Let_def d split: option.split channel.split)+
qed

lemma handler_step_pc:
  assumes "i < length (handlers s)"
  shows "early (h_pc (handlers (handler_step i s) ! i)) \<Longrightarrow>
      early (h_pc (handlers s ! i)) \<and> h_pc (handlers s ! i) \<noteq> TakeRequestId"
    and "h_pc (handlers (handler_step i s) ! i) = Register \<or> registered (h_pc (handlers (handler_step i s) ! i)) \<Longrightarrow>
      h_pc (handlers s ! i) = TakeRequestId \<or> h_pc (handlers s ! i) = Register \<or> registered (h_pc (handlers s ! i))"
proof -
  obtain d rs where d: "decide_step i s = finish_with i d (s\<lparr>broker_rules := rs\<rparr>)"
    using decide_step_shape[OF assms] .
  show "early (h_pc (handlers (handler_step i s) ! i)) \<Longrightarrow>
      early (h_pc (handlers s ! i)) \<and> h_pc (handlers s ! i) \<noteq> TakeRequestId"
    and "h_pc (handlers (handler_step i s) ! i) = Register \<or> registered (h_pc (handlers (handler_step i s) ! i)) \<Longrightarrow>
      h_pc (handlers s ! i) = TakeRequestId \<or> h_pc (handlers s ! i) = Register \<or> registered (h_pc (handlers s ! i))"
    using assms
    by (cases "h_pc (handlers s ! i)";
        auto simp: handler_step_def Let_def d early_def registered_def split: option.splits channel.splits if_splits)+
qed

lemma ids_inv_handler_step:
  assumes i: "i < length (handlers s)" and inv: "ids_inv s"
  shows "ids_inv (handler_step i s)"
proof -
  let ?t = "handler_step i s"
  let ?h = "\<lambda>j. handlers s ! j" and ?h' = "\<lambda>j. handlers ?t ! j"
  have other: "h_request_id (?h' j) = h_request_id (?h j) \<and> h_pc (?h' j) = h_pc (?h j)"
    if "j < length (handlers s)" "j \<noteq> i" for j
    using without_channel_eqD(3,6)[OF handler_step_other[OF that(1) i that(2)]] by simp
  have bound: "h_request_id (?h j) \<noteq> request_id_text (Suc (next_request_id s))"
    if "j < length (handlers s)" for j
    using inv that unfolding ids_inv_def Let_def by (metis Suc_n_not_le_n request_id_text_inj request_id_text_not_Nil)
  have uniq: "h_request_id (?h j) \<noteq> [] \<Longrightarrow> h_request_id (?h k) = h_request_id (?h j) \<Longrightarrow> k = j"
    if "j < length (handlers s)" "k < length (handlers s)" for j k
    using inv that unfolding ids_inv_def Let_def by blast
  have old: "(early (h_pc (?h m)) \<longrightarrow> h_request_id (?h m) = [])
      \<and> (h_pc (?h m) = Register \<or> registered (h_pc (?h m)) \<longrightarrow> h_request_id (?h m) \<noteq> [])
      \<and> (h_request_id (?h m) \<noteq> [] \<longrightarrow> (\<exists>n\<le>next_request_id s. h_request_id (?h m) = request_id_text n))"
    if "m < length (handlers s)" for m
    using inv that unfolding ids_inv_def Let_def by blast
  have id': "h_request_id (?h' m) =
      (if m = i \<and> h_pc (?h i) = TakeRequestId then request_id_text (Suc (next_request_id s))
       else h_request_id (?h m))" if "m < length (handlers s)" for m
    using other[OF that] handler_step_id(1)[OF i] by (cases "m = i") simp_all
  show ?thesis
    unfolding ids_inv_def Let_def handler_step_length[OF i]
  proof (intro allI impI conjI)
    fix j assume j: "j < length (handlers s)"
    show "early (h_pc (?h' j)) \<Longrightarrow> h_request_id (?h' j) = []"
      using old[OF j] id'[OF j] other[OF j] handler_step_pc(1)[OF i] by (cases "j = i") auto
    show "h_pc (?h' j) = Register \<or> registered (h_pc (?h' j)) \<Longrightarrow> h_request_id (?h' j) \<noteq> []"
      using old[OF j] id'[OF j] other[OF j] handler_step_pc(2)[OF i] by (cases "j = i") auto
    assume "h_request_id (?h' j) \<noteq> []"
    then show "\<exists>n\<le>next_request_id ?t. h_request_id (?h' j) = request_id_text n"
      using old[OF j] id'[OF j] handler_step_id(2)[OF i] by (metis le_SucI order_refl)
  next
    fix j k assume j: "j < length (handlers s)" and k: "k < length (handlers s)"
    assume "h_request_id (?h' j) \<noteq> []" and "h_request_id (?h' k) = h_request_id (?h' j)"
    then show "k = j" using id'[OF j] id'[OF k] uniq[OF j k] bound[OF j] bound[OF k] by metis
  qed
qed

lemma ids_inv_step: "broker_step s s' \<Longrightarrow> ids_inv s \<Longrightarrow> ids_inv s'"
proof (induction rule: broker_step.induct)
  case (step_handler i s)
  then show ?case by (simp add: ids_inv_handler_step)
qed (auto simp: ids_inv_def Let_def nth_append invalidate_defs new_handler_def early_def registered_def)

end
