(* ===== verification/Broker_Runs.thy ===== *)
theory Broker_Runs
  imports Permission_Broker
begin

text \<open>
  What every interleaving of the permission handlers with the terminal keeps: a waiting request has
  its sender, a permission goes back to an answer of the user, a rule to a request of the present
  generation, and an answer reaches its handler.
\<close>

section \<open>Where the sender of a request is\<close>

definition waiting :: "handler_pc \<Rightarrow> bool" where
  "waiting pc \<longleftrightarrow> pc \<in> {SendEvent, RemoveUnsent, PollCancelled, PollResponse}"

definition unregistered :: "handler_pc \<Rightarrow> bool" where
  "unregistered pc \<longleftrightarrow> early pc \<or> pc = Register"

lemma pc_classes:
  "\<not> (registered pc \<and> unregistered pc)" "waiting pc \<Longrightarrow> registered pc"
  "registered pc \<longleftrightarrow> waiting pc \<or> pc = RemoveCancelled"
  by (auto simp: waiting_def registered_def unregistered_def early_def)

abbreviation in_pending :: "nat \<Rightarrow> broker \<Rightarrow> bool" where
  "in_pending i s \<equiv> i \<in> snd ` set (pending s)"

abbreviation in_outbox :: "nat \<Rightarrow> broker \<Rightarrow> bool" where
  "in_outbox i s \<equiv> i \<in> (fst \<circ> snd) ` set (outbox s)"

definition pending_ok :: "broker \<Rightarrow> ustring \<times> nat \<Rightarrow> bool" where
  "pending_ok s = (\<lambda>(rid, i).
     i < length (handlers s) \<and> h_request_id (handlers s ! i) = rid \<and> registered (h_pc (handlers s ! i))
     \<and> h_generation (handlers s ! i) = context_generation s \<and> h_channel (handlers s ! i) = Unanswered)"

definition outbox_ok :: "broker \<Rightarrow> ustring option \<times> nat \<times> ustring option \<Rightarrow> bool" where
  "outbox_ok s = (\<lambda>(r, i, v).
     i < length (handlers s) \<and> \<not> unregistered (h_pc (handlers s ! i))
     \<and> (case r of None \<Rightarrow> v = None | Some rid \<Rightarrow> h_request_id (handlers s ! i) = rid)
     \<and> h_channel (handlers s ! i) = Unanswered \<and> \<not> in_pending i s)"

definition channel_ok :: "broker \<Rightarrow> nat \<Rightarrow> bool" where
  "channel_ok s i \<longleftrightarrow>
     (unregistered (h_pc (handlers s ! i)) \<longrightarrow>
        h_channel (handlers s ! i) = Unanswered \<and> h_option (handlers s ! i) = None)
     \<and> (waiting (h_pc (handlers s ! i)) \<longrightarrow> h_channel (handlers s ! i) = Unanswered \<longrightarrow>
          in_pending i s \<or> in_outbox i s)"

definition senders_inv :: "broker \<Rightarrow> bool" where
  "senders_inv s \<longleftrightarrow> distinct (map fst (pending s)) \<and> list_all (pending_ok s) (pending s)
     \<and> distinct (map (fst \<circ> snd) (outbox s)) \<and> list_all (outbox_ok s) (outbox s)
     \<and> (\<forall>i<length (handlers s). channel_ok s i)"

text \<open>A step of handler \<open>i\<close> that leaves map, outbox and channels alone.\<close>

lemma senders_inv_local:
  assumes inv: "senders_inv s" and i: "i < length (handlers s)"
    and same: "pending t = pending s" "outbox t = outbox s" "context_generation t = context_generation s"
      "length (handlers t) = length (handlers s)"
    and other: "\<And>j. j < length (handlers s) \<Longrightarrow> j \<noteq> i \<Longrightarrow> handlers t ! j = handlers s ! j"
    and chan: "h_channel (handlers t ! i) = h_channel (handlers s ! i)"
    and pend: "in_pending i s \<Longrightarrow> h_request_id (handlers t ! i) = h_request_id (handlers s ! i)
        \<and> registered (h_pc (handlers t ! i)) \<and> h_generation (handlers t ! i) = h_generation (handlers s ! i)"
    and out: "in_outbox i s \<Longrightarrow> h_request_id (handlers t ! i) = h_request_id (handlers s ! i)
        \<and> \<not> unregistered (h_pc (handlers t ! i))"
    and unreg: "unregistered (h_pc (handlers t ! i)) \<Longrightarrow>
        unregistered (h_pc (handlers s ! i)) \<and> h_option (handlers t ! i) = h_option (handlers s ! i)"
    and wait: "waiting (h_pc (handlers t ! i)) \<Longrightarrow> waiting (h_pc (handlers s ! i))"
  shows "senders_inv t"
proof -
  have "pending_ok t p" if "p \<in> set (pending s)" for p
  proof -
    obtain rid j where p: "p = (rid, j)" by (cases p)
    with inv that have ok: "pending_ok s (rid, j)" by (auto simp: senders_inv_def list_all_iff)
    show ?thesis
    proof (cases "j = i")
      case True
      then have "in_pending i s" using that p by force
      with ok pend chan True show ?thesis by (auto simp: p pending_ok_def same)
    next
      case False
      with ok other show ?thesis by (auto simp: p pending_ok_def same)
    qed
  qed
  moreover have "outbox_ok t b" if "b \<in> set (outbox s)" for b
  proof -
    obtain r j v where b: "b = (r, j, v)" by (cases b)
    with inv that have ok: "outbox_ok s (r, j, v)" by (auto simp: senders_inv_def list_all_iff)
    show ?thesis
    proof (cases "j = i")
      case True
      then have "in_outbox i s" using that b by force
      with ok out chan True show ?thesis by (auto simp: b outbox_ok_def same split: option.splits)
    next
      case False
      with ok other show ?thesis by (auto simp: b outbox_ok_def same split: option.splits)
    qed
  qed
  moreover have "channel_ok t j" if "j < length (handlers s)" for j
  proof -
    from inv that have ok: "channel_ok s j" by (simp add: senders_inv_def)
    show ?thesis
    proof (cases "j = i")
      case True
      with ok unreg wait chan show ?thesis by (auto simp: channel_ok_def same)
    next
      case False
      with ok other[OF that] show ?thesis by (simp add: channel_ok_def same)
    qed
  qed
  ultimately show ?thesis
    using inv by (auto simp: senders_inv_def same list_all_iff)
qed

lemma pending_lookup:
  assumes "senders_inv s" and "map_of (pending s) rid = Some i"
  shows "pending_ok s (rid, i)" and "in_pending i s" and "(rid, i) \<in> set (pending s)"
  using assms(1) map_of_SomeD[OF assms(2)] by (force simp: senders_inv_def list_all_iff)+

lemma in_pending_iff:
  assumes "senders_inv s"
  shows "in_pending i s \<longleftrightarrow> map_of (pending s) (h_request_id (handlers s ! i)) = Some i"
proof
  assume "in_pending i s"
  then obtain rid where rid: "(rid, i) \<in> set (pending s)" by auto
  with assms have "pending_ok s (rid, i)" and d: "distinct (map fst (pending s))"
    unfolding senders_inv_def list_all_iff by blast+
  then have "h_request_id (handlers s ! i) = rid" by (simp add: pending_ok_def)
  with rid d show "map_of (pending s) (h_request_id (handlers s ! i)) = Some i" by simp
next
  assume "map_of (pending s) (h_request_id (handlers s ! i)) = Some i"
  from pending_lookup(2)[OF assms this] show "in_pending i s" .
qed

lemma pending_id_owner:
  assumes "senders_inv s" and "ids_inv s" and i: "i < length (handlers s)"
    and "(h_request_id (handlers s ! i), j) \<in> set (pending s)"
  shows "j = i"
proof -
  from assms have j: "pending_ok s (h_request_id (handlers s ! i), j)" by (auto simp: senders_inv_def list_all_iff)
  then have "j < length (handlers s)" "h_request_id (handlers s ! j) = h_request_id (handlers s ! i)"
      "h_request_id (handlers s ! j) \<noteq> []"
    using assms(2) by (auto simp: pending_ok_def ids_inv_def Let_def)
  with assms(2) i show ?thesis unfolding ids_inv_def Let_def by metis
qed

lemma finish_step_pc [simp]:
  "\<not> unregistered (Finished d)" "\<not> waiting (Finished d)" "\<not> registered (Finished d)"
  by (simp_all add: unregistered_def early_def waiting_def registered_def)

lemma remove_step_senders:
  assumes inv: "senders_inv s" and ids: "ids_inv s" and i: "i < length (handlers s)"
    and reg: "registered (h_pc (handlers s ! i))"
    and pc: "\<not> registered pc" "\<not> unregistered pc"
  shows "senders_inv (goto_pc i pc (remove_pending (h_request_id (handlers s ! i)) s))" (is "senders_inv ?t")
proof (cases "in_pending i s")
  case False
  with in_pending_iff[OF inv] pending_id_owner[OF inv ids i]
  have none: "map_of (pending s) (h_request_id (handlers s ! i)) = None"
    by (metis map_of_SomeD not_None_eq)
  then have "?t = goto_pc i pc s" by (simp add: remove_pending_def)
  moreover have "senders_inv (goto_pc i pc s)"
    by (rule senders_inv_local[OF inv i]) (use i pc False pc_classes(2) in auto)
  ultimately show ?thesis by simp
next
  case True
  let ?rid = "h_request_id (handlers s ! i)"
  from True in_pending_iff[OF inv] have some: "map_of (pending s) ?rid = Some i" by simp
  have not_out: "\<not> in_outbox i s"
    using inv True by (force simp: senders_inv_def list_all_iff outbox_ok_def)
  have h: "handlers ?t ! j = (if j = i then (handlers s ! i)\<lparr>h_channel := SenderDropped, h_pc := pc\<rparr>
      else handlers s ! j)" if "j < length (handlers s)" for j
    using that some by auto
  have pend: "pending ?t = AList.delete ?rid (pending s)" by simp
  have sub: "(rid, j) \<in> set (pending ?t) \<longleftrightarrow> (rid, j) \<in> set (pending s) \<and> j \<noteq> i" for rid j
  proof -
    have "(rid, j) \<in> set (pending s) \<Longrightarrow> j = i \<longleftrightarrow> rid = ?rid"
      using inv pending_id_owner[OF inv ids i] by (auto simp: senders_inv_def list_all_iff pending_ok_def)
    then show ?thesis by (auto simp: pend AList.delete_eq)
  qed
  have "distinct (map fst (pending ?t))"
    using inv by (simp add: pend senders_inv_def AList.distinct_delete)
  moreover have "list_all (pending_ok ?t) (pending ?t)"
    unfolding list_all_iff
  proof
    fix b assume b: "b \<in> set (pending ?t)"
    obtain rid j where e: "b = (rid, j)" by (cases b)
    from b sub[of rid j] have "(rid, j) \<in> set (pending s)" and ne: "j \<noteq> i" by (auto simp only: e)
    with inv have ok: "pending_ok s (rid, j)" by (auto simp: senders_inv_def list_all_iff)
    then have "j < length (handlers s)" by (simp add: pending_ok_def)
    with ok ne h[of j] show "pending_ok ?t b" by (simp add: e pending_ok_def)
  qed
  moreover have "list_all (outbox_ok ?t) (outbox ?t)"
    unfolding list_all_iff
  proof
    fix b assume "b \<in> set (outbox ?t)"
    then have b: "b \<in> set (outbox s)" by simp
    obtain r j v where e: "b = (r, j, v)" by (cases b)
    from b inv have ok: "outbox_ok s (r, j, v)" by (auto simp: senders_inv_def list_all_iff e)
    from b e not_out have "j \<noteq> i" by force
    moreover from ok have "j < length (handlers s)" by (simp add: outbox_ok_def)
    moreover have "in_pending j ?t \<Longrightarrow> in_pending j s" using sub by force
    ultimately show "outbox_ok ?t b" using ok h[of j] by (auto simp: e outbox_ok_def split: option.splits)
  qed
  moreover have "channel_ok ?t j" if j: "j < length (handlers s)" for j
  proof -
    from inv j have ok: "channel_ok s j" by (simp add: senders_inv_def)
    show ?thesis
    proof (cases "j = i")
      case True
      with h[OF j] pc pc_classes(2) show ?thesis by (auto simp: channel_ok_def)
    next
      case False
      then have "in_pending j ?t \<longleftrightarrow> in_pending j s" using sub by force
      with False ok h[OF j] show ?thesis by (simp add: channel_ok_def)
    qed
  qed
  ultimately show ?thesis
    using inv by (simp add: senders_inv_def)
qed

lemma register_step_senders:
  assumes inv: "senders_inv s" and ids: "ids_inv s" and i: "i < length (handlers s)"
    and pc: "h_pc (handlers s ! i) = Register"
    and fresh: "h_generation (handlers s ! i) = context_generation s"
  shows "senders_inv (goto_pc i SendEvent (insert_pending (h_request_id (handlers s ! i)) i s))" (is "senders_inv ?t")
proof -
  let ?rid = "h_request_id (handlers s ! i)"
  have unreg: "unregistered (h_pc (handlers s ! i))" using pc by (simp add: unregistered_def)
  have not_pend: "?rid \<notin> fst ` set (pending s)"
  proof
    assume "?rid \<in> fst ` set (pending s)"
    then obtain j where j: "(?rid, j) \<in> set (pending s)" by auto
    from pending_id_owner[OF inv ids i j] j inv have "pending_ok s (?rid, i)"
      by (auto simp: senders_inv_def list_all_iff)
    with unreg pc_classes(1) show False by (auto simp: pending_ok_def)
  qed
  then have none: "map_of (pending s) ?rid = None" by (simp add: map_of_eq_None_iff)
  have not_in: "\<not> in_pending i s" using in_pending_iff[OF inv] none by simp
  have not_out: "\<not> in_outbox i s"
    using inv unreg by (force simp: senders_inv_def list_all_iff outbox_ok_def)
  have upd: "AList.update k v m = m @ [(k, v)]" if "k \<notin> fst ` set m" for k v and m :: "(ustring \<times> nat) list"
    using that by (induction m) auto
  have pend: "pending ?t = pending s @ [(?rid, i)]" by (simp add: upd not_pend AList.delete_id)
  have h: "handlers ?t ! j = (if j = i then (handlers s ! i)\<lparr>h_pc := SendEvent\<rparr> else handlers s ! j)"
    if "j < length (handlers s)" for j
    using that none by simp
  have chan: "h_channel (handlers s ! i) = Unanswered"
    using inv i unreg by (auto simp: senders_inv_def channel_ok_def)
  have "distinct (map fst (pending ?t))" using inv not_pend unfolding pend by (simp add: senders_inv_def)
  moreover have "list_all (pending_ok ?t) (pending ?t)"
    unfolding list_all_iff
  proof
    fix b assume b: "b \<in> set (pending ?t)"
    obtain rid j where e: "b = (rid, j)" by (cases b)
    show "pending_ok ?t b"
    proof (cases "b = (?rid, i)")
      case True
      with i chan fresh h[OF i] show ?thesis by (simp add: pending_ok_def registered_def)
    next
      case False
      with b have b: "(rid, j) \<in> set (pending s)" unfolding pend e by auto
      with not_in have "j \<noteq> i" by force
      moreover from b inv have ok: "pending_ok s (rid, j)" by (auto simp: senders_inv_def list_all_iff)
      ultimately show ?thesis using h[of j] by (auto simp: e pending_ok_def)
    qed
  qed
  moreover have "list_all (outbox_ok ?t) (outbox ?t)"
    unfolding list_all_iff
  proof
    fix b assume "b \<in> set (outbox ?t)"
    then have b: "b \<in> set (outbox s)" by simp
    obtain r j v where e: "b = (r, j, v)" by (cases b)
    from b inv have ok: "outbox_ok s (r, j, v)" by (auto simp: senders_inv_def list_all_iff e)
    from b e not_out have "j \<noteq> i" by force
    moreover from ok have "j < length (handlers s)" by (simp add: outbox_ok_def)
    moreover have "in_pending j ?t \<Longrightarrow> j \<noteq> i \<Longrightarrow> in_pending j s" unfolding pend by auto
    ultimately show "outbox_ok ?t b" using ok h[of j] by (auto simp: e outbox_ok_def split: option.splits)
  qed
  moreover have "channel_ok ?t j" if j: "j < length (handlers s)" for j
  proof -
    from inv j have ok: "channel_ok s j" by (simp add: senders_inv_def)
    have "in_pending i ?t" unfolding pend by simp
    moreover have "in_pending j s \<Longrightarrow> in_pending j ?t" unfolding pend by auto
    ultimately show ?thesis using ok h[OF j]
      by (cases "j = i") (auto simp: channel_ok_def unregistered_def early_def)
  qed
  ultimately show ?thesis
    using inv by (simp add: senders_inv_def)
qed

lemma in_pending_registered: "senders_inv s \<Longrightarrow> in_pending i s \<Longrightarrow>
    registered (h_pc (handlers s ! i)) \<and> h_channel (handlers s ! i) = Unanswered"
  by (force simp: senders_inv_def list_all_iff pending_ok_def)

lemma in_outbox_taken: "senders_inv s \<Longrightarrow> in_outbox i s \<Longrightarrow> \<not> unregistered (h_pc (handlers s ! i))"
  by (force simp: senders_inv_def list_all_iff outbox_ok_def)

lemmas pc_class_defs = registered_def unregistered_def early_def waiting_def

text \<open>The steps that only move on: the program counter and local variables.\<close>

lemma senders_inv_move:
  assumes inv: "senders_inv s" and i: "i < length (handlers s)"
    and same: "pending s' = pending s" "outbox s' = outbox s" "context_generation s' = context_generation s"
      "handlers s' = handlers s"
    and chan: "h_channel (f (handlers s ! i)) = h_channel (handlers s ! i)"
    and moves: "unregistered (h_pc (handlers s ! i)) \<Longrightarrow> unregistered (h_pc (f (handlers s ! i))) \<Longrightarrow>
        h_option (f (handlers s ! i)) = h_option (handlers s ! i)"
      "unregistered (h_pc (handlers s ! i)) \<Longrightarrow> \<not> waiting (h_pc (f (handlers s ! i)))"
      "\<not> unregistered (h_pc (handlers s ! i)) \<Longrightarrow>
         h_request_id (f (handlers s ! i)) = h_request_id (handlers s ! i)
         \<and> h_generation (f (handlers s ! i)) = h_generation (handlers s ! i)
         \<and> \<not> unregistered (h_pc (f (handlers s ! i)))"
      "registered (h_pc (handlers s ! i)) \<Longrightarrow> h_channel (handlers s ! i) = Unanswered \<Longrightarrow>
         registered (h_pc (f (handlers s ! i)))"
      "waiting (h_pc (f (handlers s ! i))) \<Longrightarrow> waiting (h_pc (handlers s ! i))"
  shows "senders_inv (update_handler i f s')"
proof (rule senders_inv_local[OF inv i])
  note pend = in_pending_registered[OF inv, of i] and out = in_outbox_taken[OF inv, of i]
  let ?h = "handlers s ! i"
  have h: "handlers (update_handler i f s') ! j = (if j = i then f ?h else handlers s ! j)"
    if "j < length (handlers s)" for j using that same(4) by simp
  show "handlers (update_handler i f s') ! j = handlers s ! j" if "j < length (handlers s)" "j \<noteq> i" for j
    using h[OF that(1)] that(2) by simp
  show "h_channel (handlers (update_handler i f s') ! i) = h_channel ?h" using h[OF i] chan by simp
  show "h_request_id (handlers (update_handler i f s') ! i) = h_request_id ?h
      \<and> registered (h_pc (handlers (update_handler i f s') ! i))
      \<and> h_generation (handlers (update_handler i f s') ! i) = h_generation ?h" if "in_pending i s"
    using pend[OF that] moves(3,4) h[OF i] pc_classes(1) by auto
  show "h_request_id (handlers (update_handler i f s') ! i) = h_request_id ?h
      \<and> \<not> unregistered (h_pc (handlers (update_handler i f s') ! i))" if "in_outbox i s"
    using out[OF that] moves(3) h[OF i] by auto
  show "unregistered (h_pc ?h) \<and> h_option (handlers (update_handler i f s') ! i) = h_option ?h"
    if "unregistered (h_pc (handlers (update_handler i f s') ! i))"
    using that moves(1,3) h[OF i] by auto
  show "waiting (h_pc ?h)" if "waiting (h_pc (handlers (update_handler i f s') ! i))"
    using that moves(5) h[OF i] by auto
qed (use same in auto)

lemma senders_inv_goto:
  assumes "senders_inv s" and "i < length (handlers s)"
    and "pending s' = pending s" "outbox s' = outbox s" "context_generation s' = context_generation s"
      "handlers s' = handlers s"
    and "unregistered pc \<Longrightarrow> unregistered (h_pc (handlers s ! i))"
      "registered (h_pc (handlers s ! i)) \<Longrightarrow> h_channel (handlers s ! i) = Unanswered \<Longrightarrow> registered pc"
      "waiting pc \<Longrightarrow> waiting (h_pc (handlers s ! i))"
  shows "senders_inv (goto_pc i pc s')"
  unfolding goto_pc_def
  by (rule senders_inv_move[OF assms(1-6)]) (use assms(7-9) pc_classes(1,2) in auto)

lemma senders_inv_handler_step:
  assumes inv: "senders_inv s" and ids: "ids_inv s" and i: "i < length (handlers s)"
  shows "senders_inv (handler_step i s)"
proof -
  let ?h = "handlers s ! i"
  note goto = senders_inv_goto[OF inv i] and move = senders_inv_move[OF inv i]
  have finish: "senders_inv (finish_with i d s)" if "\<not> registered (h_pc ?h)" for d
    unfolding finish_with_def by (rule goto) (use that in auto)
  show ?thesis
  proof (cases "h_pc ?h")
    case CheckCancelled
    moreover have "senders_inv (goto_pc i LoadGeneration s)"
      by (rule goto) (simp_all add: CheckCancelled pc_class_defs)
    moreover from CheckCancelled have "\<not> registered (h_pc ?h)" by (simp add: pc_class_defs)
    ultimately show ?thesis using finish by (simp add: handler_step_def Let_def)
  next
    case LoadGeneration
    have "senders_inv (handler_step i s)" if "handler_step i s =
        update_handler i (\<lambda>h. h\<lparr>h_generation := context_generation s, h_pc := EvaluateRules\<rparr>) s"
      unfolding that by (rule move) (simp_all add: LoadGeneration pc_class_defs)
    with LoadGeneration show ?thesis by (simp add: handler_step_def Let_def)
  next
    case EvaluateRules
    have "senders_inv (handler_step i s)" if "handler_step i s =
        update_handler i (\<lambda>h. h\<lparr>h_stored := evaluate_rules (broker_rules s) (h_request ?h), h_pc := RecheckCancelled\<rparr>) s"
      unfolding that by (rule move) (simp_all add: EvaluateRules pc_class_defs)
    with EvaluateRules show ?thesis by (simp add: handler_step_def Let_def)
  next
    case RecheckCancelled
    moreover have "senders_inv (goto_pc i RecheckGeneration s)"
      by (rule goto) (simp_all add: RecheckCancelled pc_class_defs)
    moreover from RecheckCancelled have "\<not> registered (h_pc ?h)" by (simp add: pc_class_defs)
    ultimately show ?thesis using finish by (simp add: handler_step_def Let_def)
  next
    case RecheckGeneration
    moreover have "senders_inv (goto_pc i TakeRequestId s)"
      by (rule goto) (simp_all add: RecheckGeneration pc_class_defs)
    moreover from RecheckGeneration have "\<not> registered (h_pc ?h)" by (simp add: pc_class_defs)
    ultimately show ?thesis using finish by (simp add: handler_step_def Let_def split: option.split)
  next
    case TakeRequestId
    have "senders_inv (handler_step i s)" if "handler_step i s =
        update_handler i (\<lambda>h. h\<lparr>h_request_id := request_id_text (Suc (next_request_id s)), h_pc := Register\<rparr>)
          (s\<lparr>next_request_id := Suc (next_request_id s)\<rparr>)"
      unfolding that by (rule move) (simp_all add: TakeRequestId pc_class_defs)
    with TakeRequestId show ?thesis by (simp add: handler_step_def Let_def)
  next
    case Register
    then have "\<not> registered (h_pc ?h)" by (simp add: pc_class_defs)
    with Register finish register_step_senders[OF inv ids i Register] show ?thesis
      by (simp add: handler_step_def Let_def)
  next
    case SendEvent
    have "senders_inv (goto_pc i RemoveUnsent s)"
      by (rule goto) (simp_all add: SendEvent pc_class_defs)
    moreover have "senders_inv (goto_pc i PollCancelled (s\<lparr>events := es\<rparr>))" for es
      by (rule goto) (simp_all add: SendEvent pc_class_defs)
    ultimately show ?thesis using SendEvent by (simp add: handler_step_def Let_def)
  next
    case RemoveUnsent
    then have "registered (h_pc ?h)" by (simp add: pc_class_defs)
    from remove_step_senders[OF inv ids i this] RemoveUnsent show ?thesis
      by (simp add: handler_step_def Let_def finish_with_def)
  next
    case PollCancelled
    have "senders_inv (goto_pc i RemoveCancelled s)" and "senders_inv (goto_pc i PollResponse s)"
      by (rule goto; simp add: PollCancelled pc_class_defs)+
    then show ?thesis using PollCancelled by (simp add: handler_step_def Let_def)
  next
    case PollResponse
    have "senders_inv (goto_pc i PollCancelled s)"
      by (rule goto) (simp_all add: PollResponse pc_class_defs)
    moreover have "senders_inv (update_handler i (\<lambda>h. h\<lparr>h_option := v, h_pc := FinalCancelled\<rparr>) s)"
      if "h_channel ?h \<noteq> Unanswered" for v
      by (rule move) (use that in \<open>simp_all add: PollResponse pc_class_defs\<close>)
    ultimately show ?thesis using PollResponse by (simp add: handler_step_def Let_def split: channel.split)
  next
    case RemoveCancelled
    then have "registered (h_pc ?h)" by (simp add: pc_class_defs)
    from remove_step_senders[OF inv ids i this, of FinalCancelled] RemoveCancelled show ?thesis
      by (simp add: handler_step_def Let_def pc_class_defs)
  next
    case FinalCancelled
    moreover have "senders_inv (goto_pc i FinalGeneration s)"
      by (rule goto) (simp_all add: FinalCancelled pc_class_defs)
    moreover from FinalCancelled have "\<not> registered (h_pc ?h)" by (simp add: pc_class_defs)
    ultimately show ?thesis using finish by (simp add: handler_step_def Let_def)
  next
    case FinalGeneration
    moreover have "senders_inv (goto_pc i Decide s)"
      by (rule goto) (simp_all add: FinalGeneration pc_class_defs)
    moreover from FinalGeneration have "\<not> registered (h_pc ?h)" by (simp add: pc_class_defs)
    ultimately show ?thesis using finish by (simp add: handler_step_def Let_def)
  next
    case Decide
    obtain d rs where d: "decide_step i s = finish_with i d (s\<lparr>broker_rules := rs\<rparr>)"
      using decide_step_shape[OF i] .
    have "senders_inv (decide_step i s)"
      unfolding d finish_with_def by (rule goto) (simp_all add: Decide pc_class_defs)
    with Decide show ?thesis by (simp add: handler_step_def Let_def)
  next
    case (Finished d)
    with inv handler_step_finished show ?thesis by simp
  qed
qed

lemma senders_inv_other:
  assumes inv: "senders_inv s" and same: "handlers t = handlers s" "pending t = pending s"
    "outbox t = outbox s" "context_generation t = context_generation s"
  shows "senders_inv t"
proof -
  have "pending_ok t = pending_ok s" and "outbox_ok t = outbox_ok s" and "channel_ok t = channel_ok s"
    by (simp_all add: fun_eq_iff pending_ok_def outbox_ok_def channel_ok_def same cong: option.case_cong)
  with inv show ?thesis by (simp add: senders_inv_def same)
qed

lemma pending_entry:
  assumes "senders_inv s" and "(rid, j) \<in> set (pending s)"
  shows "j < length (handlers s)" "h_request_id (handlers s ! j) = rid" "registered (h_pc (handlers s ! j))"
    "h_generation (handlers s ! j) = context_generation s" "h_channel (handlers s ! j) = Unanswered"
proof -
  from assms have "pending_ok s (rid, j)" by (auto simp only: senders_inv_def list_all_iff)
  then show "j < length (handlers s)" "h_request_id (handlers s ! j) = rid" "registered (h_pc (handlers s ! j))"
    "h_generation (handlers s ! j) = context_generation s" "h_channel (handlers s ! j) = Unanswered"
    by (simp_all add: pending_ok_def)
qed

lemma outbox_entry:
  assumes "senders_inv s" and "(r, j, v) \<in> set (outbox s)"
  shows "j < length (handlers s)" "r = Some rid \<Longrightarrow> h_request_id (handlers s ! j) = rid"
    "r = None \<Longrightarrow> v = None" "h_channel (handlers s ! j) = Unanswered" "\<not> in_pending j s"
    "\<not> unregistered (h_pc (handlers s ! j))"
proof -
  from assms have "outbox_ok s (r, j, v)" by (auto simp only: senders_inv_def list_all_iff)
  then show "j < length (handlers s)" "r = Some rid \<Longrightarrow> h_request_id (handlers s ! j) = rid"
    "r = None \<Longrightarrow> v = None" "h_channel (handlers s ! j) = Unanswered" "\<not> in_pending j s"
    "\<not> unregistered (h_pc (handlers s ! j))"
    by (auto simp: outbox_ok_def)
qed

lemma pending_unique:
  assumes "senders_inv s" and "(rid, i) \<in> set (pending s)" and "(rid', j) \<in> set (pending s)"
  shows "i = j \<longleftrightarrow> rid = rid'"
proof -
  have "distinct (map fst (pending s))" using assms(1) by (simp add: senders_inv_def)
  then show ?thesis
    using pending_entry(2)[OF assms(1,2)] pending_entry(2)[OF assms(1,3)] assms(2,3)
      eq_key_imp_eq_value by metis
qed

lemma distinct_middle: "distinct (map f xs) \<Longrightarrow> k < length xs \<Longrightarrow>
    f (xs ! k) \<notin> f ` set (take k xs @ drop (Suc k) xs)"
  by (subst (asm) id_take_nth_drop[of k xs]) auto

lemma senders_inv_take:
  assumes inv: "senders_inv s"
  shows "senders_inv (take_sender rid a s)" (is "senders_inv ?t")
proof (cases "map_of (pending s) rid")
  case None
  then have "pending ?t = pending s" "outbox ?t = outbox s" "context_generation ?t = context_generation s"
    by (simp_all add: take_sender_def)
  with senders_inv_other[OF inv] show ?thesis by simp
next
  case (Some i)
  have t: "pending ?t = AList.delete rid (pending s)" "outbox ?t = outbox s @ [(Some rid, i, a)]"
    by (simp_all add: take_sender_def Some)
  note i = pending_lookup[OF inv Some]
  then have ok: "i < length (handlers s)" "h_request_id (handlers s ! i) = rid"
      "registered (h_pc (handlers s ! i))" "h_channel (handlers s ! i) = Unanswered"
    by (auto simp: pending_ok_def)
  have sub: "(r, j) \<in> set (pending ?t) \<longleftrightarrow> (r, j) \<in> set (pending s) \<and> j \<noteq> i" for r j
  proof -
    have "(r, j) \<in> set (pending s) \<Longrightarrow> j = i \<longleftrightarrow> r = rid"
      using pending_unique[OF inv _ i(3)] by auto
    then show ?thesis by (auto simp: t AList.delete_eq)
  qed
  then have in_p: "in_pending j ?t \<longleftrightarrow> in_pending j s \<and> j \<noteq> i" for j by force
  have not_out: "\<not> in_outbox i s"
    using inv i(2) by (force simp: senders_inv_def list_all_iff outbox_ok_def)
  have "distinct (map fst (pending ?t))" using inv by (simp add: t senders_inv_def AList.distinct_delete)
  moreover have "list_all (pending_ok ?t) (pending ?t)"
    unfolding list_all_iff
  proof
    fix b assume "b \<in> set (pending ?t)"
    with sub[of "fst b" "snd b"] have "b \<in> set (pending s)" by simp
    with inv have "pending_ok s b" by (auto simp: senders_inv_def list_all_iff)
    then show "pending_ok ?t b" by (simp add: pending_ok_def split_beta)
  qed
  moreover have "distinct (map (fst \<circ> snd) (outbox ?t))"
    using inv not_out by (simp add: t senders_inv_def)
  moreover have "list_all (outbox_ok ?t) (outbox ?t)"
  proof -
    have "outbox_ok ?t b" if "b \<in> set (outbox s)" for b
    proof -
      from inv that have "outbox_ok s b" by (simp add: senders_inv_def list_all_iff)
      then show ?thesis using in_p[of "fst (snd b)"]
        by (cases b) (simp add: outbox_ok_def split: option.splits)
    qed
    moreover have "outbox_ok ?t (Some rid, i, a)"
      using ok in_p[of i] pc_classes(1) by (auto simp: outbox_ok_def)
    ultimately show ?thesis by (simp add: t list_all_iff)
  qed
  moreover have "channel_ok ?t j" if "j < length (handlers s)" for j
    using inv that in_p[of j] by (auto simp: senders_inv_def channel_ok_def t)
  ultimately show ?thesis by (simp add: senders_inv_def)
qed

lemma senders_inv_send:
  assumes inv: "senders_inv s" and k: "k < length (outbox s)"
  shows "senders_inv (send_answer k s)" (is "senders_inv ?t")
proof -
  obtain r i v where e: "outbox s ! k = (r, i, v)" by (cases "outbox s ! k")
  have mem: "(r, i, v) \<in> set (outbox s)" using k e by (metis nth_mem)
  with inv have ok: "outbox_ok s (r, i, v)" by (auto simp: senders_inv_def list_all_iff)
  let ?rest = "take k (outbox s) @ drop (Suc k) (outbox s)"
  have rest: "set ?rest \<subseteq> set (outbox s)" by (auto dest: in_set_takeD in_set_dropD)
  have out: "set (outbox s) = insert (r, i, v) (set ?rest)"
    by (subst id_take_nth_drop[OF k]) (auto simp: e)
  have gone: "i \<notin> (fst \<circ> snd) ` set ?rest"
    using distinct_middle[of "fst \<circ> snd" "outbox s" k] inv k by (simp add: senders_inv_def e)
  have h: "handlers ?t ! j = (if i = j \<and> receiver_alive (h_pc (handlers s ! j))
      then (handlers s ! j)\<lparr>h_channel := Answered v\<rparr> else handlers s ! j)" if "j < length (handlers s)" for j
    using that by (simp add: e)
  have not_p: "\<not> in_pending i s" using ok by (simp add: outbox_ok_def)
  have "list_all (pending_ok ?t) (pending ?t)"
    unfolding list_all_iff
  proof
    fix b assume "b \<in> set (pending ?t)"
    then have b: "b \<in> set (pending s)" by simp
    obtain rid j where p: "b = (rid, j)" by (cases b)
    from b inv have "pending_ok s b" by (auto simp: senders_inv_def list_all_iff)
    moreover from b not_p have "j \<noteq> i" by (force simp: p)
    ultimately show "pending_ok ?t b" using h[of j] by (auto simp: p pending_ok_def)
  qed
  moreover have "list_all (outbox_ok ?t) (outbox ?t)"
    unfolding list_all_iff
  proof
    fix b assume "b \<in> set (outbox ?t)"
    then have b: "b \<in> set ?rest" by simp
    obtain r' j v' where p: "b = (r', j, v')" by (cases b)
    from b rest inv have "outbox_ok s b" by (auto simp: senders_inv_def list_all_iff)
    moreover from b gone have "j \<noteq> i" by (force simp: p)
    ultimately show "outbox_ok ?t b" using h[of j] by (auto simp: p outbox_ok_def split: option.splits)
  qed
  moreover have "distinct (map (fst \<circ> snd) (outbox ?t))"
  proof -
    have "distinct (map (fst \<circ> snd) (take k (outbox s) @ outbox s ! k # drop (Suc k) (outbox s)))"
      using inv id_take_nth_drop[OF k] by (simp add: senders_inv_def)
    then show ?thesis by simp
  qed
  moreover have "channel_ok ?t j" if j: "j < length (handlers s)" for j
  proof -
    from inv j have c: "channel_ok s j" by (simp add: senders_inv_def)
    show ?thesis
    proof (cases "j = i")
      case True
      have "\<not> unregistered (h_pc (handlers s ! i))" using ok by (simp add: outbox_ok_def)
      moreover have "waiting pc \<Longrightarrow> receiver_alive pc" for pc by (auto simp: waiting_def receiver_alive_def)
      ultimately show ?thesis using h[OF j] True by (auto simp: channel_ok_def)
    next
      case False
      then have "in_outbox j ?t \<longleftrightarrow> in_outbox j s" using out by auto
      with False c h[OF j] show ?thesis by (simp add: channel_ok_def)
    qed
  qed
  ultimately show ?thesis using inv by (simp add: senders_inv_def)
qed

lemma senders_inv_invalidate:
  assumes inv: "senders_inv s"
  shows "senders_inv (invalidate_pending b s)" (is "senders_inv ?t")
proof -
  have out: "set (outbox ?t) = set (outbox s) \<union> (\<lambda>p. (None, snd p, None)) ` set (pending s)"
    by (force simp: image_iff split_beta)
  have ids: "distinct (map snd (pending s))"
    using inv pending_unique[OF inv] by (auto simp: distinct_map senders_inv_def inj_on_def)
  have "list_all (outbox_ok ?t) (outbox ?t)"
  proof -
    have "outbox_ok ?t b" if "b \<in> set (outbox s)" for b
    proof -
      from inv that have "outbox_ok s b" by (simp add: senders_inv_def list_all_iff)
      then show ?thesis by (cases b) (simp add: outbox_ok_def split: option.splits)
    qed
    moreover have "outbox_ok ?t (None, snd p, None)" if "p \<in> set (pending s)" for p
      using inv that pc_classes(1) by (auto simp: senders_inv_def list_all_iff pending_ok_def outbox_ok_def)
    ultimately show ?thesis unfolding list_all_iff out by blast
  qed
  moreover have "distinct (map (fst \<circ> snd) (outbox ?t))"
  proof -
    have "map (fst \<circ> snd) (outbox ?t) = map (fst \<circ> snd) (outbox s) @ map snd (pending s)"
      by auto
    moreover have "set (map (fst \<circ> snd) (outbox s)) \<inter> set (map snd (pending s)) = {}"
      using outbox_entry(5)[OF inv] by force
    moreover have "distinct (map (fst \<circ> snd) (outbox s))" using inv by (simp add: senders_inv_def)
    ultimately show ?thesis using ids by (metis distinct_append)
  qed
  moreover have "channel_ok ?t j" if j: "j < length (handlers s)" for j
  proof -
    have "in_pending j s \<Longrightarrow> in_outbox j ?t" unfolding out by force
    moreover have "in_outbox j s \<Longrightarrow> in_outbox j ?t" unfolding out by force
    moreover have "channel_ok s j" using inv j by (simp add: senders_inv_def)
    ultimately show ?thesis unfolding channel_ok_def invalidate_fields(1) by metis
  qed
  ultimately show ?thesis by (simp add: senders_inv_def)
qed

lemma senders_inv_start:
  assumes inv: "senders_inv s"
  shows "senders_inv (start_request q t s)" (is "senders_inv ?t")
proof -
  have "pending_ok ?t b" if "b \<in> set (pending s)" for b
    using inv that by (auto simp: senders_inv_def list_all_iff pending_ok_def nth_append)
  moreover have "outbox_ok ?t b" if "b \<in> set (outbox s)" for b
  proof -
    obtain r j v where b: "b = (r, j, v)" by (cases b)
    from outbox_entry[OF inv, of r j v] that b show ?thesis
      by (cases r) (simp_all add: outbox_ok_def nth_append)
  qed
  moreover have "channel_ok ?t j" if "j < length (handlers ?t)" for j
    using inv that
    by (auto simp: senders_inv_def channel_ok_def nth_append new_handler_def pc_class_defs less_Suc_eq)
  ultimately show ?thesis using inv by (auto simp: senders_inv_def list_all_iff)
qed

definition broker_inv :: "broker \<Rightarrow> bool" where
  "broker_inv s \<longleftrightarrow> ids_inv s \<and> senders_inv s"

lemma broker_inv_step:
  assumes "broker_step s s'" and "broker_inv s"
  shows "broker_inv s'"
proof -
  from assms(2) have ids: "ids_inv s" and inv: "senders_inv s" by (auto simp: broker_inv_def)
  from assms(1) have "senders_inv s'"
  proof (cases rule: broker_step.cases)
    case (step_handler i)
    with senders_inv_handler_step[OF inv ids] show ?thesis by simp
  next
    case (step_send k)
    with senders_inv_send[OF inv] show ?thesis by simp
  qed (auto simp: invalidate_defs intro: senders_inv_start inv senders_inv_take senders_inv_invalidate
      senders_inv_other[OF inv])
  with ids_inv_step[OF assms(1) ids] show ?thesis by (simp add: broker_inv_def)
qed

lemma broker_inv_new: "broker_inv new_broker"
  by (simp add: broker_inv_def ids_inv_def senders_inv_def)

lemma broker_inv_reachable: "broker_reachable s \<Longrightarrow> broker_inv s"
  unfolding broker_reachable_def broker_steps_def
  by (induction rule: rtranclp_induct) (auto intro: broker_inv_new broker_inv_step)

section \<open>No permission without consent\<close>

lemma handler_step_shared:
  assumes i: "i < length (handlers s)"
  shows "responses (handler_step i s) = responses s"
    and "context_generation (handler_step i s) = context_generation s"
    and "cancelled_tokens (handler_step i s) = cancelled_tokens s"
    and "r \<in> set (broker_rules (handler_step i s)) \<Longrightarrow> r \<in> set (broker_rules s) \<or>
        h_pc (handlers s ! i) = Decide \<and> context_generation s = h_generation (handlers s ! i)
        \<and> r \<in> new_rules (handlers s ! i)"
proof -
  obtain d rs where d: "decide_step i s = finish_with i d (s\<lparr>broker_rules := rs\<rparr>)"
    and rs: "\<And>r. r \<in> set rs \<Longrightarrow> r \<in> set (broker_rules s) \<or>
          context_generation s = h_generation (handlers s ! i) \<and> r \<in> new_rules (handlers s ! i)"
    using decide_step_shape[OF i] by blast
  show "responses (handler_step i s) = responses s"
    and "context_generation (handler_step i s) = context_generation s"
    and "cancelled_tokens (handler_step i s) = cancelled_tokens s"
    by (cases "h_pc (handlers s ! i)"; simp add: handler_step_def Let_def d split: option.split channel.split)+
  show "r \<in> set (broker_rules (handler_step i s)) \<Longrightarrow> r \<in> set (broker_rules s) \<or>
        h_pc (handlers s ! i) = Decide \<and> context_generation s = h_generation (handlers s ! i)
        \<and> r \<in> new_rules (handlers s ! i)"
    using rs[of r]
    by (cases "h_pc (handlers s ! i)")
      (auto simp: handler_step_def Let_def d split: option.splits channel.splits if_splits)
qed

definition polled :: "handler \<Rightarrow> ustring option" where
  "polled h = (case (h_pc h, h_channel h) of
     (PollResponse, Answered v) \<Rightarrow> v | (PollResponse, SenderDropped) \<Rightarrow> None | _ \<Rightarrow> h_option h)"

lemma handler_step_locals:
  assumes i: "i < length (handlers s)"
  defines "h \<equiv> handlers s ! i" and "h' \<equiv> handlers (handler_step i s) ! i"
  shows "h_stored h' = (if h_pc h = EvaluateRules then evaluate_rules (broker_rules s) (h_request h) else h_stored h)"
    and "h_option h' = polled h"
    and "h_generation h' = (if h_pc h = LoadGeneration then context_generation s else h_generation h)"
    and "h_pc h' = Finished Allow \<Longrightarrow> h_pc h = Finished Allow
        \<or> h_pc h = RecheckGeneration \<and> h_stored h = Some RuleAllow \<or> h_pc h = Decide \<and> consented h"
    and "h_pc h' = Decide \<Longrightarrow> h_pc h = FinalGeneration"
    and "h_pc h = Decide \<Longrightarrow> \<exists>d. h_pc h' = Finished d"
proof -
  obtain d rs where d: "decide_step i s = finish_with i d (s\<lparr>broker_rules := rs\<rparr>)"
    and allow: "d = Allow \<Longrightarrow> consented (handlers s ! i)"
    using decide_step_shape[OF i] by blast
  show "h_stored h' = (if h_pc h = EvaluateRules then evaluate_rules (broker_rules s) (h_request h) else h_stored h)"
    and "h_generation h' = (if h_pc h = LoadGeneration then context_generation s else h_generation h)"
    and "h_pc h' = Decide \<Longrightarrow> h_pc h = FinalGeneration"
    and "h_pc h = Decide \<Longrightarrow> \<exists>d. h_pc h' = Finished d"
    using i unfolding h_def h'_def
    by (cases "h_pc (handlers s ! i)";
        simp add: handler_step_def Let_def d split: option.splits channel.splits if_splits)+
  show "h_option h' = polled h"
    using i unfolding h_def h'_def polled_def
    by (cases "h_pc (handlers s ! i)")
      (simp_all add: handler_step_def Let_def d split: option.splits channel.splits)
  show "h_pc h' = Finished Allow \<Longrightarrow> h_pc h = Finished Allow
        \<or> h_pc h = RecheckGeneration \<and> h_stored h = Some RuleAllow \<or> h_pc h = Decide \<and> consented h"
    using i allow unfolding h_def h'_def
    by (cases "h_pc (handlers s ! i)")
      (auto simp: handler_step_def Let_def d deny_permission_def decision_for_rule_def
        split: option.splits channel.splits if_splits rule_behavior.splits)
qed

lemma handler_step_channel:
  assumes i: "i < length (handlers s)" and j: "j < length (handlers s)"
  shows "h_channel (handlers (handler_step i s) ! j) \<in> {h_channel (handlers s ! j), SenderDropped}"
proof -
  obtain d rs where d: "decide_step i s = finish_with i d (s\<lparr>broker_rules := rs\<rparr>)"
    using decide_step_shape[OF i] by blast
  show ?thesis
    using i j
    by (cases "h_pc (handlers s ! i)")
      (auto simp: handler_step_def Let_def d split: option.splits channel.splits)
qed

definition is_finished :: "handler \<Rightarrow> bool" where
  "is_finished h \<longleftrightarrow> (\<exists>d. h_pc h = Finished d)"

definition answered_ok :: "broker \<Rightarrow> ustring \<Rightarrow> ustring \<Rightarrow> bool" where
  "answered_ok s rid v \<longleftrightarrow> (rid, Some v, Ok ()) \<in> set (responses s)"

definition answers_inv :: "broker \<Rightarrow> bool" where
  "answers_inv s \<longleftrightarrow> (\<forall>i<length (handlers s). \<forall>v.
     (h_channel (handlers s ! i) = Answered (Some v) \<longrightarrow> answered_ok s (h_request_id (handlers s ! i)) v)
     \<and> (h_option (handlers s ! i) = Some v \<longrightarrow> answered_ok s (h_request_id (handlers s ! i)) v))"

text \<open>Every rule was asked for by a finished request of generation \<open>g\<close> or later.\<close>

definition rules_from :: "nat \<Rightarrow> broker \<Rightarrow> bool" where
  "rules_from g s \<longleftrightarrow> g \<le> context_generation s \<and> (\<forall>r\<in>set (broker_rules s).
     \<exists>j<length (handlers s). is_finished (handlers s ! j) \<and> r \<in> new_rules (handlers s ! j)
       \<and> g \<le> h_generation (handlers s ! j))"

definition allow_inv :: "broker \<Rightarrow> bool" where
  "allow_inv s \<longleftrightarrow> (\<forall>i<length (handlers s).
     (h_stored (handlers s ! i) = Some RuleAllow \<longrightarrow>
        (\<exists>j<length (handlers s). is_finished (handlers s ! j)
           \<and> h_option (handlers s ! j) = Some allow_always_id
           \<and> in_scope (h_request (handlers s ! j)) (h_request (handlers s ! i))))
     \<and> (h_pc (handlers s ! i) = Finished Allow \<longrightarrow>
          h_stored (handlers s ! i) = Some RuleAllow \<or> consented (handlers s ! i)))"

lemma stored_allow_scope:
  assumes "rules_from g s" and "evaluate_rules (broker_rules s) q = Some RuleAllow"
  shows "\<exists>j<length (handlers s). is_finished (handlers s ! j)
    \<and> h_option (handlers s ! j) = Some allow_always_id \<and> in_scope (h_request (handlers s ! j)) q"
proof -
  from assms(2) obtain r where r: "r \<in> set (broker_rules s)" "rule_behavior r = RuleAllow" "rule_matches r q"
    by (auto simp: evaluate_rules_eq has_rule_def split: if_splits)
  with assms(1) obtain j where j: "j < length (handlers s)" "is_finished (handlers s ! j)" "r \<in> new_rules (handlers s ! j)"
    by (auto simp: rules_from_def)
  from j(3) r(2) have "session_rule (h_request (handlers s ! j)) = Some r" "h_option (handlers s ! j) = Some allow_always_id"
    by (auto simp: new_rules_def with_behavior_def)
  with rule_scope r(3) j show ?thesis unfolding session_rule_def by blast
qed

lemma finished_stays:
  assumes "broker_step s s'" and "j < length (handlers s)" and "is_finished (handlers s ! j)"
  shows "j < length (handlers s')" "is_finished (handlers s' ! j)"
    "h_option (handlers s' ! j) = h_option (handlers s ! j)"
    "h_request (handlers s' ! j) = h_request (handlers s ! j)"
    "h_stored (handlers s' ! j) = h_stored (handlers s ! j)"
    "h_generation (handlers s' ! j) = h_generation (handlers s ! j)"
    "h_request_id (handlers s' ! j) = h_request_id (handlers s ! j)"
    "new_rules (handlers s' ! j) = new_rules (handlers s ! j)"
proof -
  from assms(3) obtain d where "h_pc (handlers s ! j) = Finished d" by (auto simp: is_finished_def)
  note same = without_channel_eqD[OF step_keeps_finished[OF assms(1,2) this]]
  show "j < length (handlers s')" by (rule step_keeps_requests(1)[OF assms(1,2)])
  from same assms(3) show "is_finished (handlers s' ! j)"
    "h_option (handlers s' ! j) = h_option (handlers s ! j)"
    "h_request (handlers s' ! j) = h_request (handlers s ! j)"
    "h_stored (handlers s' ! j) = h_stored (handlers s ! j)"
    "h_generation (handlers s' ! j) = h_generation (handlers s ! j)"
    "h_request_id (handlers s' ! j) = h_request_id (handlers s ! j)"
    "new_rules (handlers s' ! j) = new_rules (handlers s ! j)"
    by (auto simp: is_finished_def new_rules_def)
qed

lemma step_rules:
  assumes "broker_step s s'" and "r \<in> set (broker_rules s')"
  shows "r \<in> set (broker_rules s) \<or>
    (\<exists>i<length (handlers s). s' = handler_step i s \<and> h_pc (handlers s ! i) = Decide
       \<and> context_generation s = h_generation (handlers s ! i) \<and> r \<in> new_rules (handlers s ! i))"
  using assms(1)
proof (cases rule: broker_step.cases)
  case (step_handler i)
  with assms(2) handler_step_shared(4)[of i s r] show ?thesis by blast
qed (use assms(2) in \<open>auto simp: invalidate_defs split: if_splits\<close>)

lemma step_generation: "broker_step s s' \<Longrightarrow> context_generation s \<le> context_generation s'"
  by (cases rule: broker_step.cases) (auto simp: invalidate_defs handler_step_shared)

lemma rules_from_step:
  assumes st: "broker_step s s'" and inv: "rules_from g s"
  shows "rules_from g s'"
  unfolding rules_from_def
proof (intro conjI ballI)
  from inv step_generation[OF st] show "g \<le> context_generation s'" by (simp add: rules_from_def)
  fix r assume r: "r \<in> set (broker_rules s')"
  from step_rules[OF st r]
  show "\<exists>j<length (handlers s'). is_finished (handlers s' ! j) \<and> r \<in> new_rules (handlers s' ! j)
      \<and> g \<le> h_generation (handlers s' ! j)"
  proof
    assume "r \<in> set (broker_rules s)"
    with inv obtain j where j: "j < length (handlers s)" "is_finished (handlers s ! j)"
        "r \<in> new_rules (handlers s ! j)" "g \<le> h_generation (handlers s ! j)"
      by (auto simp: rules_from_def)
    from finished_stays[OF st j(1,2)] j show ?thesis by auto
  next
    assume "\<exists>i<length (handlers s). s' = handler_step i s \<and> h_pc (handlers s ! i) = Decide
       \<and> context_generation s = h_generation (handlers s ! i) \<and> r \<in> new_rules (handlers s ! i)"
    then obtain i where i: "i < length (handlers s)" "s' = handler_step i s" "h_pc (handlers s ! i) = Decide"
        "context_generation s = h_generation (handlers s ! i)" "r \<in> new_rules (handlers s ! i)" by blast
    note loc = handler_step_locals[OF i(1)]
    have "is_finished (handlers s' ! i)" using loc(6) i by (auto simp: is_finished_def)
    moreover have "r \<in> new_rules (handlers s' ! i)"
      using i loc(2) handler_step_own(1)[OF i(1)] by (simp add: new_rules_def polled_def)
    moreover have "g \<le> h_generation (handlers s' ! i)"
      using i loc(3) inv by (simp add: rules_from_def)
    ultimately show ?thesis using i by auto
  qed
qed

lemma rules_from_steps:
  assumes "broker_steps s t" and "rules_from g s"
  shows "rules_from g t"
  using assms(1)[unfolded broker_steps_def] assms(2)
  by (induction rule: rtranclp_induct) (auto intro: rules_from_step)

lemma rules_from_clear: "rules_from (context_generation (clear_permission_context s)) (clear_permission_context s)"
  by (simp add: rules_from_def clear_permission_context_def)

lemma answers_inv_step:
  assumes st: "broker_step s s'" and binv: "broker_inv s" and inv: "answers_inv s"
  shows "answers_inv s'"
  using st
proof (cases rule: broker_step.cases)
  case (step_handler i)
  note ids = handler_step_id(1)[OF step_handler(2)] and loc = handler_step_locals(2)[OF step_handler(2)]
  show ?thesis
    unfolding answers_inv_def answered_ok_def step_handler(1) handler_step_length[OF step_handler(2)] handler_step_shared(1)[OF step_handler(2)]
  proof (intro allI impI)
    fix j v assume j: "j < length (handlers s)"
    let ?h = "handlers s ! j" and ?h' = "handlers (handler_step i s) ! j"
    from inv j have old: "h_channel ?h = Answered (Some v) \<or> h_option ?h = Some v \<Longrightarrow> answered_ok s (h_request_id ?h) v"
      by (auto simp: answers_inv_def)
    have chan: "h_channel ?h' = Answered (Some v) \<Longrightarrow> h_channel ?h = Answered (Some v)"
      using handler_step_channel[OF step_handler(2) j] by auto
    have opt: "h_option ?h' = Some v \<Longrightarrow> h_channel ?h = Answered (Some v) \<or> h_option ?h = Some v"
      using loc without_channel_eqD(7)[OF handler_step_other[OF j step_handler(2)]]
      by (cases "j = i") (auto simp: polled_def split: handler_pc.splits channel.splits)
    have rid: "h_request_id ?h' = h_request_id ?h"
      if "h_channel ?h = Answered (Some v) \<or> h_option ?h = Some v"
    proof (cases "j = i")
      case True
      from binv j have "channel_ok s j" by (simp add: broker_inv_def senders_inv_def)
      with that have "h_pc ?h \<noteq> TakeRequestId" by (auto simp: channel_ok_def unregistered_def early_def)
      with ids True show ?thesis by simp
    next
      case False
      from without_channel_eqD(6)[OF handler_step_other[OF j step_handler(2) False]] show ?thesis .
    qed
    show "(h_channel ?h' = Answered (Some v) \<longrightarrow> (h_request_id ?h', Some v, Ok ()) \<in> set (responses s))
        \<and> (h_option ?h' = Some v \<longrightarrow> (h_request_id ?h', Some v, Ok ()) \<in> set (responses s))"
      using old rid chan opt unfolding answered_ok_def by metis
  qed
next
  case (step_send k)
  obtain r i a where e: "outbox s ! k = (r, i, a)" by (cases "outbox s ! k")
  with step_send have mem: "(r, i, a) \<in> set (outbox s)" by (metis nth_mem)
  from binv have sinv: "senders_inv s" by (simp add: broker_inv_def)
  note ent = outbox_entry[OF sinv mem]
  have resp: "set (responses s) \<subseteq> set (responses s')"
    unfolding step_send(1) send_answer_def e by (auto simp: Let_def set_responses_log_response split: option.split)
  have sent: "(rid, a, Ok ()) \<in> set (responses s')"
    if "receiver_alive (h_pc (handlers s ! i))" "r = Some rid" for rid
    using that unfolding step_send(1) send_answer_def e by (auto simp: Let_def set_responses_log_response)
  show ?thesis
    unfolding answers_inv_def answered_ok_def
  proof (intro allI impI)
    fix j v assume j: "j < length (handlers s')"
    then have j: "j < length (handlers s)" using step_send by simp
    let ?h = "handlers s ! j" and ?h' = "handlers s' ! j"
    from inv j have old: "h_channel ?h = Answered (Some v) \<or> h_option ?h = Some v \<Longrightarrow> answered_ok s (h_request_id ?h) v"
      by (auto simp: answers_inv_def)
    have h': "?h' = (if i = j \<and> receiver_alive (h_pc ?h) then ?h\<lparr>h_channel := Answered a\<rparr> else ?h)"
      using j e step_send by simp
    show "(h_channel ?h' = Answered (Some v) \<longrightarrow> (h_request_id ?h', Some v, Ok ()) \<in> set (responses s'))
        \<and> (h_option ?h' = Some v \<longrightarrow> (h_request_id ?h', Some v, Ok ()) \<in> set (responses s'))"
    proof (cases "i = j \<and> receiver_alive (h_pc ?h)")
      case True
      have "a = Some v \<Longrightarrow> (h_request_id ?h, Some v, Ok ()) \<in> set (responses s')"
        using ent(2,3) sent True by (cases r) auto
      with True h' old resp show ?thesis by (auto simp: answered_ok_def)
    next
      case False
      with h' old resp show ?thesis by (auto simp: answered_ok_def)
    qed
  qed
next
  case (step_take rid a)
  have "set (responses s) \<subseteq> set (responses s')"
    unfolding step_take by (auto simp: take_sender_def split: option.split)
  with inv step_take show ?thesis by (auto simp: answers_inv_def answered_ok_def)
qed (use inv in \<open>auto simp: answers_inv_def answered_ok_def invalidate_defs nth_append new_handler_def\<close>)

lemma allow_inv_step:
  assumes st: "broker_step s s'" and rules: "rules_from g s" and inv: "allow_inv s"
  shows "allow_inv s'"
  unfolding allow_inv_def
proof (intro allI impI conjI)
  fix i assume i': "i < length (handlers s')"
  let ?granted = "\<lambda>s q. \<exists>j<length (handlers s). is_finished (handlers s ! j)
      \<and> h_option (handlers s ! j) = Some allow_always_id \<and> in_scope (h_request (handlers s ! j)) q"
  have keep: "?granted s' q" if "?granted s q" for q
    using that finished_stays[OF st] by fastforce
  have new: "h_stored (handlers s' ! i) \<noteq> Some RuleAllow \<and> h_pc (handlers s' ! i) \<noteq> Finished Allow"
    if "\<not> i < length (handlers s)"
    using st i' that by (cases rule: broker_step.cases) (auto simp: nth_append new_handler_def invalidate_defs)
  have frame: "h_stored (handlers s' ! i) = h_stored (handlers s ! i) \<and> h_pc (handlers s' ! i) = h_pc (handlers s ! i)
      \<and> h_option (handlers s' ! i) = h_option (handlers s ! i)"
    if "i < length (handlers s)" "\<And>k. s' = handler_step k s \<Longrightarrow> k < length (handlers s) \<Longrightarrow> k \<noteq> i"
    using st
  proof (cases rule: broker_step.cases)
    case (step_handler k)
    with that have "i \<noteq> k" by blast
    from without_channel_eqD(3,5,7)[OF handler_step_other[OF that(1) step_handler(2) this]] step_handler
    show ?thesis by simp
  qed (use that in \<open>auto simp: nth_append invalidate_defs\<close>)
  note req = step_keeps_requests(2)[OF st]
  show "?granted s' (h_request (handlers s' ! i))" if stored: "h_stored (handlers s' ! i) = Some RuleAllow"
  proof -
    from stored new have i: "i < length (handlers s)" by blast
    have "?granted s (h_request (handlers s ! i))"
    proof (cases "s' = handler_step i s \<and> h_pc (handlers s ! i) = EvaluateRules")
      case True
      with handler_step_locals(1)[OF i] stored stored_allow_scope[OF rules] show ?thesis by simp
    next
      case False
      then have "h_stored (handlers s ! i) = Some RuleAllow"
        using frame i stored handler_step_locals(1)[OF i] by metis
      with inv i show ?thesis by (auto simp: allow_inv_def)
    qed
    with keep req[OF i] show ?thesis by simp
  qed
  show "h_stored (handlers s' ! i) = Some RuleAllow \<or> consented (handlers s' ! i)"
    if fin: "h_pc (handlers s' ! i) = Finished Allow"
  proof -
    from fin new have i: "i < length (handlers s)" by blast
    show ?thesis
    proof (cases "s' = handler_step i s")
      case True
      note loc = handler_step_locals[OF i]
      from loc(4) fin True
      consider "h_pc (handlers s ! i) = Finished Allow"
        | "h_pc (handlers s ! i) = RecheckGeneration" "h_stored (handlers s ! i) = Some RuleAllow"
        | "h_pc (handlers s ! i) = Decide" "consented (handlers s ! i)" by auto
      then show ?thesis
      proof cases
        case 1
        then have "s' = s" using True handler_step_finished by simp
        with inv i 1 show ?thesis by (auto simp: allow_inv_def)
      next
        case 2
        with loc(1) True show ?thesis by simp
      next
        case 3
        then show ?thesis
          using loc(2) True handler_step_own(1)[OF i] by (simp add: consented_def polled_def)
      qed
    next
      case False
      then have "s' = handler_step k s \<Longrightarrow> k < length (handlers s) \<Longrightarrow> k \<noteq> i" for k by blast
      from frame[OF i this] have "h_stored (handlers s' ! i) = h_stored (handlers s ! i)"
          "h_pc (handlers s ! i) = Finished Allow" "h_option (handlers s' ! i) = h_option (handlers s ! i)"
        using fin by auto
      with inv i req[OF i] show ?thesis by (auto simp: allow_inv_def consented_def)
    qed
  qed
qed

lemma allow_inv_reachable:
  assumes "broker_reachable s"
  shows "allow_inv s \<and> rules_from 0 s"
  using assms unfolding broker_reachable_def broker_steps_def
proof (induction rule: rtranclp_induct)
  case base
  show ?case by (simp add: allow_inv_def rules_from_def)
next
  case (step s t)
  with allow_inv_step rules_from_step show ?case by blast
qed

lemma answers_inv_reachable:
  assumes "broker_reachable s"
  shows "answers_inv s \<and> broker_inv s"
  using assms unfolding broker_reachable_def broker_steps_def
proof (induction rule: rtranclp_induct)
  case base
  show ?case by (simp add: answers_inv_def broker_inv_new)
next
  case (step s t)
  with answers_inv_step broker_inv_step show ?case by blast
qed

lemma allowed_was_granted:
  assumes "broker_reachable s" and "i < length (handlers s)" and "h_pc (handlers s ! i) = Finished Allow"
  shows "\<exists>j<length (handlers s). \<exists>v. answered_ok s (h_request_id (handlers s ! j)) v \<and>
    (j = i \<and> v = allow_once_id \<or>
     v = allow_always_id \<and> (j = i \<or> in_scope (h_request (handlers s ! j)) (h_request (handlers s ! i))))"
proof -
  from allow_inv_reachable[OF assms(1)] have allow: "allow_inv s" by simp
  from answers_inv_reachable[OF assms(1)] have ans: "answers_inv s" by simp
  from allow assms(2,3) consider "h_stored (handlers s ! i) = Some RuleAllow" | "consented (handlers s ! i)"
    by (auto simp: allow_inv_def)
  then show ?thesis
  proof cases
    case 1
    with allow assms(2) obtain j where "j < length (handlers s)"
        "h_option (handlers s ! j) = Some allow_always_id"
        "in_scope (h_request (handlers s ! j)) (h_request (handlers s ! i))"
      by (auto simp: allow_inv_def)
    with ans show ?thesis by (auto simp: answers_inv_def)
  next
    case 2
    with ans assms(2) show ?thesis unfolding answers_inv_def consented_def by blast
  qed
qed

lemma rules_after_clear:
  assumes "broker_steps (clear_permission_context s) t" and "r \<in> set (broker_rules t)"
  shows "\<exists>j<length (handlers t). is_finished (handlers t ! j) \<and> r \<in> new_rules (handlers t ! j)
    \<and> context_generation s < h_generation (handlers t ! j)"
  using rules_from_steps[OF assms(1) rules_from_clear] assms(2)
  by (fastforce simp: rules_from_def clear_permission_context_def)

section \<open>Stale and cancelled requests\<close>

definition generations_inv :: "broker \<Rightarrow> bool" where
  "generations_inv s \<longleftrightarrow> (\<forall>i<length (handlers s). h_generation (handlers s ! i) \<le> context_generation s)"

lemma generations_inv_step:
  assumes st: "broker_step s s'" and inv: "generations_inv s"
  shows "generations_inv s'"
  using st
proof (cases rule: broker_step.cases)
  case (step_handler k)
  show ?thesis
    unfolding generations_inv_def
  proof (intro allI impI)
    fix i assume "i < length (handlers s')"
    then have i: "i < length (handlers s)" using step_handler by simp
    with inv have "h_generation (handlers s ! i) \<le> context_generation s" by (simp add: generations_inv_def)
    then show "h_generation (handlers s' ! i) \<le> context_generation s'"
      using step_handler handler_step_shared(2)[OF step_handler(2)] handler_step_locals(3)[OF step_handler(2)]
        without_channel_eqD(4)[OF handler_step_other[OF i step_handler(2)]]
      by (cases "i = k") auto
  qed
qed (use inv in \<open>auto simp: generations_inv_def nth_append new_handler_def invalidate_defs le_SucI\<close>)

lemma generations_inv_reachable: "broker_reachable s \<Longrightarrow> generations_inv s"
  unfolding broker_reachable_def broker_steps_def
  by (induction rule: rtranclp_induct) (auto intro: generations_inv_step simp: generations_inv_def[of new_broker])

definition before_final_check :: "handler_pc \<Rightarrow> bool" where
  "before_final_check pc \<longleftrightarrow> pc \<notin> {CheckCancelled, LoadGeneration, Decide} \<and> (\<forall>d. pc \<noteq> Finished d)"

definition before_cancel_check :: "handler_pc \<Rightarrow> bool" where
  "before_cancel_check pc \<longleftrightarrow> pc \<notin> {RecheckGeneration, FinalGeneration, Decide} \<and> (\<forall>d. pc \<noteq> Finished d)"

text \<open>A request whose context has gone, or whose token is cancelled, before its last look.\<close>

definition doomed :: "broker \<Rightarrow> nat \<Rightarrow> bool" where
  "doomed s i \<longleftrightarrow>
     before_final_check (h_pc (handlers s ! i)) \<and> h_generation (handlers s ! i) < context_generation s
     \<or> before_cancel_check (h_pc (handlers s ! i)) \<and> h_token (handlers s ! i) \<in> cancelled_tokens s"

definition denied_or_doomed :: "broker \<Rightarrow> nat \<Rightarrow> bool" where
  "denied_or_doomed s i \<longleftrightarrow> doomed s i
     \<or> (\<exists>reason. h_pc (handlers s ! i) = Finished (deny_permission (def_name (req_definition (h_request (handlers s ! i)))) reason))"

lemma handler_step_doomed:
  assumes i: "i < length (handlers s)" and d: "doomed s i"
  shows "denied_or_doomed (handler_step i s) i"
proof -
  have "h_pc (handlers s ! i) \<noteq> Decide" "\<And>d. h_pc (handlers s ! i) \<noteq> Finished d"
    using d by (auto simp: doomed_def before_final_check_def before_cancel_check_def)
  with i d show ?thesis
    by (cases "h_pc (handlers s ! i)")
      (auto simp: handler_step_def Let_def denied_or_doomed_def doomed_def before_final_check_def
        before_cancel_check_def split: option.split channel.split)
qed

lemma doomed_step:
  assumes st: "broker_step s s'" and i: "i < length (handlers s)" and d: "denied_or_doomed s i"
  shows "i < length (handlers s') \<and> denied_or_doomed s' i"
proof
  show "i < length (handlers s')" by (rule step_keeps_requests(1)[OF st i])
  note req = step_keeps_requests(2,3)[OF st i]
  have grow: "context_generation s \<le> context_generation s'" by (rule step_generation[OF st])
  have canc: "cancelled_tokens s \<subseteq> cancelled_tokens s'"
    using st by (cases rule: broker_step.cases) (auto simp: invalidate_defs handler_step_shared)
  from d consider (finished) reason where "h_pc (handlers s ! i) =
      Finished (deny_permission (def_name (req_definition (h_request (handlers s ! i)))) reason)"
    | (doomed) "doomed s i" by (auto simp: denied_or_doomed_def)
  then show "denied_or_doomed s' i"
  proof cases
    case finished
    with without_channel_eqD(3)[OF step_keeps_finished[OF st i finished]] req
    show ?thesis by (auto simp: denied_or_doomed_def)
  next
    case doomed
    have frame: "denied_or_doomed s' i"
      if "h_pc (handlers s' ! i) = h_pc (handlers s ! i)" "h_generation (handlers s' ! i) = h_generation (handlers s ! i)"
      using doomed that grow canc req by (auto simp: denied_or_doomed_def doomed_def)
    show ?thesis
      using st
    proof (cases rule: broker_step.cases)
      case (step_handler k)
      show ?thesis
      proof (cases "k = i")
        case True
        with handler_step_doomed[OF i doomed] step_handler show ?thesis by simp
      next
        case False
        with without_channel_eqD(3,4)[OF handler_step_other[OF i step_handler(2)]] step_handler frame
        show ?thesis by simp
      qed
    qed (use frame i in \<open>auto simp: nth_append invalidate_defs\<close>)
  qed
qed

lemma doomed_is_denied:
  assumes "broker_steps s t" and "i < length (handlers s)" and "doomed s i"
    and "h_pc (handlers t ! i) = Finished d"
  shows "\<exists>reason. d = deny_permission (def_name (req_definition (h_request (handlers s ! i)))) reason"
proof -
  have "i < length (handlers t) \<and> denied_or_doomed t i \<and> h_request (handlers t ! i) = h_request (handlers s ! i)"
    using assms(1)[unfolded broker_steps_def]
  proof (induction rule: rtranclp_induct)
    case base
    from assms(2,3) show ?case by (simp add: denied_or_doomed_def)
  next
    case (step u v)
    with doomed_step step_keeps_requests(2) show ?case by metis
  qed
  with assms(4) show ?thesis
    by (auto simp: denied_or_doomed_def doomed_def before_final_check_def before_cancel_check_def)
qed

section \<open>Every request can be answered, once\<close>

lemma waiting_can_be_answered:
  assumes "broker_reachable s" and "i < length (handlers s)"
    and "waiting (h_pc (handlers s ! i))" and "h_channel (handlers s ! i) = Unanswered"
  shows "(h_request_id (handlers s ! i), i) \<in> set (pending s) \<or> (\<exists>r v. (r, i, v) \<in> set (outbox s))"
proof -
  from broker_inv_reachable[OF assms(1)] have inv: "senders_inv s" by (simp add: broker_inv_def)
  with assms have "in_pending i s \<or> in_outbox i s" by (auto simp: senders_inv_def channel_ok_def)
  then show ?thesis
    using in_pending_iff[OF inv, of i] by (force dest: map_of_SomeD)
qed

definition ok_answers :: "broker \<Rightarrow> ustring list" where
  "ok_answers s = map fst (filter (\<lambda>r. snd (snd r) = Ok ()) (responses s))"

definition once_inv :: "broker \<Rightarrow> bool" where
  "once_inv s \<longleftrightarrow> distinct (ok_answers s) \<and>
     (\<forall>rid\<in>set (ok_answers s). \<exists>i<length (handlers s).
        h_request_id (handlers s ! i) = rid \<and> rid \<noteq> [] \<and> h_channel (handlers s ! i) \<noteq> Unanswered)"

lemma once_inv_step:
  assumes st: "broker_step s s'" and binv: "broker_inv s" and inv: "once_inv s"
  shows "once_inv s'"
proof -
  from binv have sinv: "senders_inv s" and ids: "ids_inv s" by (auto simp: broker_inv_def)
  have keep: "\<exists>i<length (handlers s'). h_request_id (handlers s' ! i) = rid \<and> rid \<noteq> [] \<and> h_channel (handlers s' ! i) \<noteq> Unanswered"
    if "rid \<in> set (ok_answers s)" for rid
  proof -
    from inv that obtain i where i: "i < length (handlers s)" "h_request_id (handlers s ! i) = rid" "rid \<noteq> []"
        "h_channel (handlers s ! i) \<noteq> Unanswered" by (auto simp: once_inv_def)
    from sinv i have pc: "h_pc (handlers s ! i) \<noteq> TakeRequestId"
      by (auto simp: senders_inv_def channel_ok_def unregistered_def early_def)
    from st have "h_request_id (handlers s' ! i) = rid \<and> h_channel (handlers s' ! i) \<noteq> Unanswered"
    proof (cases rule: broker_step.cases)
      case (step_handler k)
      have "h_request_id (handlers s' ! i) = rid"
        using step_handler i pc handler_step_id(1)[OF step_handler(2)]
          without_channel_eqD(6)[OF handler_step_other[OF i(1) step_handler(2)]] by (cases "i = k") auto
      moreover have "h_channel (handlers s' ! i) \<noteq> Unanswered"
        using handler_step_channel[OF step_handler(2) i(1)] step_handler(1) i(4) by auto
      ultimately show ?thesis by simp
    qed (use i in \<open>auto simp: nth_append invalidate_defs\<close>)
    with i step_keeps_requests(1)[OF st i(1)] show ?thesis by blast
  qed
  have same: "once_inv s'" if "ok_answers s' = ok_answers s"
    using inv keep that by (simp add: once_inv_def)
  show ?thesis
    using st
  proof (cases rule: broker_step.cases)
    case (step_send k)
    obtain r i a where e: "outbox s ! k = (r, i, a)" by (cases "outbox s ! k")
    with step_send have mem: "(r, i, a) \<in> set (outbox s)" by (metis nth_mem)
    note ent = outbox_entry[OF sinv mem]
    show ?thesis
    proof (cases "receiver_alive (h_pc (handlers s ! i)) \<and> r \<noteq> None")
      case True
      then obtain rid where rid: "r = Some rid" by auto
      then have resp: "ok_answers s' = ok_answers s @ [rid]"
        using True unfolding step_send(1) send_answer_def e by (simp add: ok_answers_def Let_def log_response_def)
      have id: "h_request_id (handlers s ! i) = rid" using ent(2) rid by simp
      have "receiver_alive pc \<Longrightarrow> pc = Register \<or> registered pc" for pc
        by (auto simp: receiver_alive_def registered_def)
      with True ids ent(1) id have ne: "rid \<noteq> []" unfolding ids_inv_def Let_def by blast
      have fresh: "rid \<notin> set (ok_answers s)"
      proof
        assume "rid \<in> set (ok_answers s)"
        with inv obtain j where j: "j < length (handlers s)" "h_request_id (handlers s ! j) = rid"
            "h_channel (handlers s ! j) \<noteq> Unanswered" by (auto simp: once_inv_def)
        with ids ent(1) id ne have "j = i" unfolding ids_inv_def Let_def by metis
        with j ent(4) show False by simp
      qed
      have "h_request_id (handlers s' ! i) = rid \<and> h_channel (handlers s' ! i) \<noteq> Unanswered"
        using ent(1) True e id step_send by simp
      with ent(1) step_send ne keep fresh inv show ?thesis
        unfolding once_inv_def resp by auto
    next
      case False
      then have "ok_answers s' = ok_answers s"
        unfolding step_send(1) send_answer_def e
        by (auto simp: ok_answers_def Let_def log_response_def split: option.split)
      then show ?thesis by (rule same)
    qed
  next
    case (step_handler k)
    then show ?thesis by (intro same) (simp add: ok_answers_def handler_step_shared)
  next
    case (step_take rid a)
    then show ?thesis by (intro same) (simp add: ok_answers_def take_sender_def split: option.split)
  qed (intro same; simp add: ok_answers_def invalidate_defs)+
qed

lemma once_inv_reachable:
  assumes "broker_reachable s"
  shows "once_inv s \<and> broker_inv s"
  using assms unfolding broker_reachable_def broker_steps_def
proof (induction rule: rtranclp_induct)
  case base
  show ?case by (simp add: once_inv_def broker_inv_new ok_answers_def)
next
  case (step s t)
  with once_inv_step broker_inv_step show ?case by blast
qed

text \<open>What an answer decides, and the rule it leaves.\<close>

definition answer_decision :: "permission_request \<Rightarrow> ustring option \<Rightarrow> permission_decision" where
  "answer_decision q a =
     (case selected_kind (handler_options q) a of
        Some AllowOnce \<Rightarrow> Allow
      | Some AllowAlways \<Rightarrow> Allow
      | _ \<Rightarrow> deny_permission (def_name (req_definition q)) user_rejected)"

definition answer_rules :: "permission_request \<Rightarrow> ustring option \<Rightarrow> rule_set \<Rightarrow> rule_set" where
  "answer_rules q a rs =
     (case (selected_kind (handler_options q) a, session_rule q) of
        (Some AllowAlways, Some r) \<Rightarrow> insert_rule r rs
      | (Some RejectAlways, Some r) \<Rightarrow> insert_rule (with_behavior r RuleDeny) rs
      | _ \<Rightarrow> rs)"

lemma decide_step_active:
  assumes i: "i < length (handlers s)"
    and active: "h_token (handlers s ! i) \<notin> cancelled_tokens s"
      "context_generation s = h_generation (handlers s ! i)"
  shows "decide_step i s =
    finish_with i (answer_decision (h_request (handlers s ! i)) (h_option (handlers s ! i)))
      (s\<lparr>broker_rules := answer_rules (h_request (handlers s ! i)) (h_option (handlers s ! i)) (broker_rules s)\<rparr>)"
proof -
  have same: "s\<lparr>broker_rules := broker_rules s\<rparr> = s" by simp
  show ?thesis
    using active
    by (auto simp: decide_step_def Let_def answer_decision_def answer_rules_def insert_rule_if_active_def same
        split: option.split option_kind.split)
qed

lemma broker_steps_step: "broker_steps s t \<Longrightarrow> broker_step t u \<Longrightarrow> broker_steps s u"
  unfolding broker_steps_def by (rule rtranclp.rtrancl_into_rtrancl)

lemma broker_steps_refl [simp]: "broker_steps s s"
  by (simp add: broker_steps_def)

lemma broker_steps_handler:
  "broker_steps s t \<Longrightarrow> i < length (handlers t) \<Longrightarrow> broker_steps s (handler_step i t)"
  by (rule broker_steps_step) (auto intro: step_handler)

lemma answered_finishes:
  assumes i: "i < length (handlers t)" and pc: "h_pc (handlers t ! i) = PollResponse"
    and chan: "h_channel (handlers t ! i) = Answered a"
    and active: "h_token (handlers t ! i) \<notin> cancelled_tokens t"
      "context_generation t = h_generation (handlers t ! i)"
  shows "\<exists>u. broker_steps t u \<and> h_pc (handlers u ! i) = Finished (answer_decision (h_request (handlers t ! i)) a)
    \<and> broker_rules u = answer_rules (h_request (handlers t ! i)) a (broker_rules t)"
proof -
  let ?h = "handlers t ! i"
  define u1 where "u1 = handler_step i t"
  have u1: "u1 = update_handler i (\<lambda>h. h\<lparr>h_option := a, h_pc := FinalCancelled\<rparr>) t"
    by (simp add: u1_def handler_step_def Let_def pc chan)
  define u2 where "u2 = handler_step i u1"
  have u2: "u2 = goto_pc i FinalGeneration u1"
    using i active by (simp add: u2_def handler_step_def Let_def u1)
  define u3 where "u3 = handler_step i u2"
  have u3: "u3 = goto_pc i Decide u2"
    using i active by (simp add: u3_def handler_step_def Let_def u2 u1)
  have h3: "handlers u3 ! i = ?h\<lparr>h_option := a, h_pc := Decide\<rparr>" "length (handlers u3) = length (handlers t)"
      "cancelled_tokens u3 = cancelled_tokens t" "context_generation u3 = context_generation t"
      "broker_rules u3 = broker_rules t"
    using i by (simp_all add: u3 u2 u1)
  define u4 where "u4 = handler_step i u3"
  have "u4 = decide_step i u3" by (simp add: u4_def handler_step_def Let_def h3)
  also have "\<dots> = finish_with i (answer_decision (h_request ?h) a)
      (u3\<lparr>broker_rules := answer_rules (h_request ?h) a (broker_rules t)\<rparr>)"
    using decide_step_active[of i u3] i active by (simp add: h3)
  finally have u4: "u4 = finish_with i (answer_decision (h_request ?h) a)
      (u3\<lparr>broker_rules := answer_rules (h_request ?h) a (broker_rules t)\<rparr>)" .
  have "broker_steps t u4"
    unfolding u4_def u3_def u2_def u1_def by (intro broker_steps_handler broker_steps_refl) (simp_all add: i)
  moreover have "h_pc (handlers u4 ! i) = Finished (answer_decision (h_request ?h) a)"
      "broker_rules u4 = answer_rules (h_request ?h) a (broker_rules t)"
    using i h3(2) by (simp_all add: u4)
  ultimately show ?thesis by blast
qed

lemma answer_is_delivered:
  assumes reach: "broker_reachable s" and pend: "(rid, i) \<in> set (pending s)"
    and pc: "h_pc (handlers s ! i) \<in> {PollCancelled, PollResponse}"
    and token: "h_token (handlers s ! i) \<notin> cancelled_tokens s"
  shows "\<exists>t. broker_steps (take_sender rid a s) t
    \<and> h_pc (handlers t ! i) = Finished (answer_decision (h_request (handlers s ! i)) a)
    \<and> broker_rules t = answer_rules (h_request (handlers s ! i)) a (broker_rules s)"
proof -
  from broker_inv_reachable[OF reach] have inv: "senders_inv s" by (simp add: broker_inv_def)
  note ent = pending_entry[OF inv pend]
  from inv pend have look: "map_of (pending s) rid = Some i" by (auto simp: senders_inv_def)
  define s1 where "s1 = take_sender rid a s"
  have s1: "handlers s1 = handlers s" "outbox s1 = outbox s @ [(Some rid, i, a)]"
      "cancelled_tokens s1 = cancelled_tokens s" "context_generation s1 = context_generation s"
      "broker_rules s1 = broker_rules s"
    by (simp_all add: s1_def take_sender_def look)
  define k where "k = length (outbox s)"
  define s2 where "s2 = send_answer k s1"
  have ob: "outbox s1 ! k = (Some rid, i, a)" by (simp add: s1 k_def nth_append)
  have alive: "receiver_alive (h_pc (handlers s ! i))" using pc by (auto simp: receiver_alive_def)
  have h2: "handlers s2 ! i = (handlers s ! i)\<lparr>h_channel := Answered a\<rparr>"
    using ent(1) alive by (simp add: s2_def s1(1) ob)
  have s2: "length (handlers s2) = length (handlers s)" "cancelled_tokens s2 = cancelled_tokens s"
      "context_generation s2 = context_generation s" "broker_rules s2 = broker_rules s"
    by (simp_all add: s2_def s1)
  have steps: "broker_steps s1 s2"
    unfolding s2_def by (rule broker_steps_step[OF broker_steps_refl step_send]) (simp add: s1 k_def)
  define s3 where "s3 = (if h_pc (handlers s ! i) = PollCancelled then handler_step i s2 else s2)"
  have steps3: "broker_steps s1 s3"
    using steps ent(1) s2(1) by (simp add: s3_def broker_steps_handler)
  have poll: "handler_step i s2 = goto_pc i PollResponse s2" if "h_pc (handlers s ! i) = PollCancelled"
    using that token by (simp add: handler_step_def Let_def h2 s2(2))
  have h3: "handlers s3 ! i = (handlers s ! i)\<lparr>h_channel := Answered a, h_pc := PollResponse\<rparr>"
      "length (handlers s3) = length (handlers s)" "cancelled_tokens s3 = cancelled_tokens s"
      "context_generation s3 = context_generation s" "broker_rules s3 = broker_rules s"
    using pc ent(1) s2 h2 poll by (auto simp: s3_def)
  obtain t where "broker_steps s3 t"
      "h_pc (handlers t ! i) = Finished (answer_decision (h_request (handlers s ! i)) a)"
      "broker_rules t = answer_rules (h_request (handlers s ! i)) a (broker_rules s)"
    using answered_finishes[of i s3 a] ent(1,4) token by (auto simp: h3)
  moreover from this(1) steps3 have "broker_steps s1 t" unfolding broker_steps_def by simp
  ultimately show ?thesis unfolding s1_def by blast
qed

end
