(* ===== verification/Text_Search.thy ===== *)
theory Text_Search
  imports Prelude "HOL-Library.Sublist"
begin

text \<open>
  Searching in text, as the library's \<^verbatim>\<open>str\<close> does it: prefixes, the first occurrence of a needle,
  occurrences that do not overlap, lower case and trimming.
\<close>

section \<open>Searching\<close>

text \<open>\<^verbatim>\<open>str::find\<close> and the number of \<^verbatim>\<open>str::match_indices\<close>, which do not overlap.\<close>

fun starts_with :: "ustring \<Rightarrow> ustring \<Rightarrow> bool" where
  "starts_with s [] \<longleftrightarrow> True"
| "starts_with [] (p # ps) \<longleftrightarrow> False"
| "starts_with (c # cs) (p # ps) \<longleftrightarrow> c = p \<and> starts_with cs ps"

fun ufind :: "ustring \<Rightarrow> ustring \<Rightarrow> nat option" where
  "ufind [] needle = (if needle = [] then Some 0 else None)"
| "ufind (c # cs) needle =
     (if starts_with (c # cs) needle then Some 0 else map_option Suc (ufind cs needle))"

function count_matches :: "ustring \<Rightarrow> ustring \<Rightarrow> nat" where
  "count_matches s needle =
     (if s = [] \<or> needle = [] then 0
      else if starts_with s needle then Suc (count_matches (drop (length needle) s) needle)
      else count_matches (tl s) needle)"
  by pat_completeness auto
termination
  by (relation "measure (length \<circ> fst)") auto

declare count_matches.simps [simp del]

definition contains :: "ustring \<Rightarrow> ustring \<Rightarrow> bool" where
  "contains s needle \<longleftrightarrow> ufind s needle \<noteq> None"

definition strip_prefix :: "ustring \<Rightarrow> ustring \<Rightarrow> ustring option" where
  "strip_prefix s p = (if starts_with s p then Some (drop (length p) s) else None)"

definition ends_with :: "ustring \<Rightarrow> ustring \<Rightarrow> bool" where
  "ends_with s p \<longleftrightarrow> length p \<le> length s \<and> drop (length s - length p) s = p"

text \<open>\<^verbatim>\<open>str::rfind\<close>: the last occurrence.\<close>

fun urfind :: "ustring \<Rightarrow> ustring \<Rightarrow> nat option" where
  "urfind [] needle = (if needle = [] then Some 0 else None)"
| "urfind (c # cs) needle =
     (case urfind cs needle of
        Some i \<Rightarrow> Some (Suc i)
      | None \<Rightarrow> if starts_with (c # cs) needle then Some 0 else None)"

text \<open>\<^verbatim>\<open>str::to_ascii_lowercase\<close>.\<close>

definition ascii_lower :: "ustring \<Rightarrow> ustring" where
  "ascii_lower s = map (\<lambda>c. if 65 \<le> c \<and> c \<le> 90 then c + 32 else c) s"

definition utrim_end :: "ustring \<Rightarrow> ustring" where
  "utrim_end s = rev (dropWhile is_whitespace (rev s))"

section \<open>Searching, specified\<close>

lemma starts_with_prefix: "starts_with s p \<longleftrightarrow> prefix p s"
  by (induction s p rule: starts_with.induct) auto

lemma starts_with_take: "starts_with s p \<longleftrightarrow> take (length p) s = p"
  by (induction s p rule: starts_with.induct) auto

lemma ufind_Some:
  "ufind s p = Some i \<Longrightarrow> take (length p) (drop i s) = p \<and> i + length p \<le> length s"
proof (induction s arbitrary: i)
  case (Cons c cs)
  show ?case
  proof (cases "starts_with (c # cs) p")
    case True
    with Cons.prems have "i = 0" and "take (length p) (c # cs) = p" by (auto simp: starts_with_take)
    then show ?thesis by (metis drop0 add_0 length_take min.cobounded1)
  next
    case False
    with Cons show ?thesis by auto
  qed
qed (auto split: if_splits)

lemma ufind_first:
  "ufind s p = Some i \<Longrightarrow> j < i \<Longrightarrow> take (length p) (drop j s) \<noteq> p"
proof (induction s arbitrary: i j)
  case (Cons c cs)
  then show ?case
    by (cases j) (auto simp: starts_with_take split: if_splits)
qed (auto split: if_splits)

lemma ufind_None: "ufind s p = None \<longleftrightarrow> (\<forall>j\<le>length s. take (length p) (drop j s) \<noteq> p)"
proof (induction s)
  case (Cons c cs)
  have "(\<forall>j\<le>length (c # cs). take (length p) (drop j (c # cs)) \<noteq> p) \<longleftrightarrow>
      take (length p) (c # cs) \<noteq> p \<and> (\<forall>j\<le>length cs. take (length p) (drop j cs) \<noteq> p)"
    by (auto simp: All_less_Suc2 less_Suc_eq_le[symmetric])
  with Cons show ?case by (auto simp: starts_with_take)
qed auto

text \<open>The indices at which \<open>p\<close> occurs.\<close>

definition occurs_at :: "ustring \<Rightarrow> ustring \<Rightarrow> nat \<Rightarrow> bool" where
  "occurs_at s p i \<longleftrightarrow> i + length p \<le> length s \<and> take (length p) (drop i s) = p"

lemma ufind_occurs: "ufind s p = Some i \<Longrightarrow> occurs_at s p i"
  using ufind_Some[of s p i] by (simp add: occurs_at_def)

lemma contains_sublist: "contains s p \<longleftrightarrow> sublist p s"
proof
  assume "contains s p"
  then obtain i where "ufind s p = Some i" by (auto simp: contains_def)
  then have "take (length p) (drop i s) = p" using ufind_Some[of s p i] by simp
  then show "sublist p s"
    by (metis append_take_drop_id sublist_appendI)
next
  assume "sublist p s"
  then obtain us vs where s: "s = us @ p @ vs" by (auto simp: sublist_def)
  then have "take (length p) (drop (length us) s) = p" and "length us \<le> length s" by auto
  then have "ufind s p \<noteq> None" using ufind_None[of s p] by blast
  then show "contains s p" by (simp add: contains_def)
qed

lemma ends_with_suffix: "ends_with s p \<longleftrightarrow> suffix p s"
  by (auto simp: ends_with_def suffix_def intro: exI[of _ "take (length s - length p) s"])
     (metis append_take_drop_id)

lemma strip_prefix_Some: "strip_prefix s p = Some d \<longleftrightarrow> s = p @ d"
  by (auto simp: strip_prefix_def starts_with_prefix prefix_def)

end
