(* ===== verification/Edit_Apply.thy ===== *)
theory Edit_Apply
  imports Paths Text_Search "HOL-Library.Multiset"
begin

text \<open>
  Replacing strings in a file, \<^verbatim>\<open>tool-runtime/src/builtin/workspace_file/edit_apply.rs\<close>.  The byte
  order mark and the kind of line ending are set aside, every \<^verbatim>\<open>old_string\<close> is located in the
  same text, exactly or after a tolerant normalisation, and the regions found are replaced from the
  back.  Offsets count characters here and bytes there, which compare alike.  The Unicode form NFKC
  is the argument \<open>nfkc\<close>.
\<close>

section \<open>Requests and errors\<close>

record text_edit =
  old_string :: ustring
  new_string :: ustring

datatype edit_error =
    EmptyOldString nat
  | OldNotFound nat ustring
  | DuplicateOld nat ustring nat
  | OverlapEdits nat nat ustring
  | NoChanges ustring

record edit_application =
  final_content :: ustring
  replacements :: nat

record text_match =
  match_at :: nat
  match_length :: nat
  match_fuzzy :: bool

record matched_edit =
  m_edit :: nat
  m_index :: nat
  m_len :: nat
  m_new :: ustring

section \<open>Line endings and marks\<close>

datatype line_ending = Lf | CrLf

fun replace_crlf :: "ustring \<Rightarrow> ustring" where
  "replace_crlf [] = []"
| "replace_crlf (c # cs) =
     (if c = 13 then (case cs of d # ds \<Rightarrow> if d = 10 then 10 # replace_crlf ds else c # replace_crlf cs
                               | [] \<Rightarrow> [c])
      else c # replace_crlf cs)"

definition normalize_line_endings :: "ustring \<Rightarrow> ustring" where
  "normalize_line_endings s = map (\<lambda>c. if c = 13 then 10 else c) (replace_crlf s)"

definition restore_line_endings :: "ustring \<Rightarrow> line_ending \<Rightarrow> ustring" where
  "restore_line_endings s e =
     (case e of Lf \<Rightarrow> s | CrLf \<Rightarrow> concat (map (\<lambda>c. if c = 10 then [13, 10] else [c]) s))"

definition detect_line_ending :: "ustring \<Rightarrow> line_ending" where
  "detect_line_ending s =
     (case (ufind s [13, 10], ufind s [10]) of
        (Some crlf, Some lf) \<Rightarrow> if crlf < lf then CrLf else Lf
      | _ \<Rightarrow> Lf)"

definition utf8_bom :: nat where "utf8_bom = 65279"

definition strip_utf8_bom :: "ustring \<Rightarrow> ustring \<times> ustring" where
  "strip_utf8_bom s =
     (case s of c # cs \<Rightarrow> if c = utf8_bom then ([utf8_bom], cs) else ([], s) | [] \<Rightarrow> ([], s))"

section \<open>Tolerant comparison\<close>

definition normalize_fuzzy_char :: "nat \<Rightarrow> nat" where
  "normalize_fuzzy_char c =
     (if c \<in> {8216, 8217, 8218, 8219} then 39
      else if c \<in> {8220, 8221, 8222, 8223} then 34
      else if c \<in> {8208, 8209, 8210, 8211, 8212, 8213, 8722} then 45
      else if c = 160 \<or> 8194 \<le> c \<and> c \<le> 8202 \<or> c = 8239 \<or> c = 8287 \<or> c = 12288 then 32
      else c)"

type_synonym unicode_form = "ustring \<Rightarrow> ustring"

definition normalize_for_fuzzy_match :: "unicode_form \<Rightarrow> ustring \<Rightarrow> ustring" where
  "normalize_for_fuzzy_match nfkc s =
     map normalize_fuzzy_char (ujoin [10] (map utrim_end (usplit 10 (nfkc s))))"

definition find_text :: "unicode_form \<Rightarrow> ustring \<Rightarrow> ustring \<Rightarrow> text_match option" where
  "find_text nfkc content old =
     (case ufind content old of
        Some i \<Rightarrow> Some \<lparr>match_at = i, match_length = length old, match_fuzzy = False\<rparr>
      | None \<Rightarrow>
          (let fuzzy_content = normalize_for_fuzzy_match nfkc content;
               fuzzy_old = normalize_for_fuzzy_match nfkc old
           in if fuzzy_old = [] then None
              else map_option (\<lambda>i. \<lparr>match_at = i, match_length = length fuzzy_old, match_fuzzy = True\<rparr>)
                     (ufind fuzzy_content fuzzy_old)))"

definition count_exact_occurrences :: "ustring \<Rightarrow> ustring \<Rightarrow> nat" where
  "count_exact_occurrences content needle = (if needle = [] then 0 else count_matches content needle)"

definition count_fuzzy_occurrences :: "unicode_form \<Rightarrow> ustring \<Rightarrow> ustring \<Rightarrow> nat" where
  "count_fuzzy_occurrences nfkc content needle =
     (let fuzzy_needle = normalize_for_fuzzy_match nfkc needle
      in if fuzzy_needle = [] then 0
         else count_matches (normalize_for_fuzzy_match nfkc content) fuzzy_needle)"

definition count_replacement_occurrences :: "unicode_form \<Rightarrow> ustring \<Rightarrow> ustring \<Rightarrow> nat" where
  "count_replacement_occurrences nfkc content needle =
     (let fuzzy_occurrences = count_fuzzy_occurrences nfkc content needle
      in if 0 < fuzzy_occurrences then fuzzy_occurrences else count_exact_occurrences content needle)"

section \<open>Applying the edits\<close>

definition normalized_edit :: "text_edit \<Rightarrow> text_edit" where
  "normalized_edit e =
     \<lparr>old_string = normalize_line_endings (old_string e),
      new_string = normalize_line_endings (new_string e)\<rparr>"

definition first_empty :: "text_edit list \<Rightarrow> nat option" where
  "first_empty edits = position (\<lambda>e. old_string e = []) edits"

definition uses_fuzzy_base :: "unicode_form \<Rightarrow> ustring \<Rightarrow> text_edit list \<Rightarrow> bool" where
  "uses_fuzzy_base nfkc content edits =
     list_ex match_fuzzy (filter_map (\<lambda>e. find_text nfkc content (old_string e)) edits)"

definition edit_base :: "unicode_form \<Rightarrow> ustring \<Rightarrow> text_edit list \<Rightarrow> ustring" where
  "edit_base nfkc content edits =
     (if uses_fuzzy_base nfkc content edits then normalize_for_fuzzy_match nfkc content else content)"

definition locate_edit ::
    "unicode_form \<Rightarrow> ustring \<Rightarrow> nat \<times> text_edit \<Rightarrow> edit_error + matched_edit" where
  "locate_edit nfkc base = (\<lambda>(index, e).
     (case find_text nfkc base (old_string e) of
        None \<Rightarrow> Err (OldNotFound index (old_string e))
      | Some m \<Rightarrow>
          (let occurrences = count_replacement_occurrences nfkc base (old_string e)
           in if 1 < occurrences then Err (DuplicateOld index (old_string e) occurrences)
              else Ok \<lparr>m_edit = index, m_index = match_at m, m_len = match_length m,
                       m_new = new_string e\<rparr>)))"

fun first_overlap :: "matched_edit list \<Rightarrow> (nat \<times> nat) option" where
  "first_overlap (previous # current # rest) =
     (if m_index current < m_index previous + m_len previous
      then Some (m_edit previous, m_edit current)
      else first_overlap (current # rest))"
| "first_overlap _ = None"

text \<open>\<^verbatim>\<open>String::replace_range\<close>.\<close>

definition replace_range :: "ustring \<Rightarrow> nat \<Rightarrow> nat \<Rightarrow> ustring \<Rightarrow> ustring" where
  "replace_range s start len new = take start s @ new @ drop (start + len) s"

definition replace_from_back :: "ustring \<Rightarrow> matched_edit list \<Rightarrow> ustring" where
  "replace_from_back base ms =
     foldl (\<lambda>updated m. replace_range updated (m_index m) (m_len m) (m_new m)) base (rev ms)"

definition apply_unique_edits ::
    "unicode_form \<Rightarrow> ustring \<Rightarrow> text_edit list \<Rightarrow> ustring \<Rightarrow> edit_error + edit_application" where
  "apply_unique_edits nfkc content edits path =
     (case first_empty edits of
        Some index \<Rightarrow> Err (EmptyOldString index)
      | None \<Rightarrow>
          (let base = edit_base nfkc content edits
           in and_then (try_map (locate_edit nfkc base) (zip [0..<length edits] edits)) (\<lambda>found.
                let matched = sort_key m_index found
                in case first_overlap matched of
                     Some (previous, current) \<Rightarrow> Err (OverlapEdits previous current path)
                   | None \<Rightarrow>
                       (let updated = replace_from_back base matched
                        in if updated = base then Err (NoChanges path)
                           else Ok \<lparr>final_content = updated, replacements = length matched\<rparr>))))"

definition apply_edit ::
    "unicode_form \<Rightarrow> ustring \<Rightarrow> text_edit list \<Rightarrow> ustring \<Rightarrow> edit_error + edit_application" where
  "apply_edit nfkc original edits path =
     (case strip_utf8_bom original of
        (bom, content) \<Rightarrow>
          and_then (apply_unique_edits nfkc (normalize_line_endings content)
                      (map normalized_edit edits) path) (\<lambda>applied.
            Ok \<lparr>final_content =
                  bom @ restore_line_endings (final_content applied) (detect_line_ending content),
                replacements = replacements applied\<rparr>))"

end
