(* ===== verification/Edit_Regions.thy ===== *)
theory Edit_Regions
  imports Edit_Apply
begin

text \<open>
  What an edit does to a file: the line endings, the regions the strings of a batch are found at,
  and the result of replacing them from the back (\<^verbatim>\<open>edit_apply.rs\<close>).
\<close>

section \<open>Line endings\<close>

lemma replace_crlf_no_cr: "13 \<notin> set s \<Longrightarrow> replace_crlf s = s"
  by (induction s rule: replace_crlf.induct) auto

lemma normalize_no_cr: "13 \<notin> set s \<Longrightarrow> normalize_line_endings s = s"
  by (auto simp: normalize_line_endings_def replace_crlf_no_cr intro: map_idI)

lemma cr_not_in_normalized: "13 \<notin> set (normalize_line_endings s)"
  by (auto simp: normalize_line_endings_def)

lemma normalize_idem [simp]: "normalize_line_endings (normalize_line_endings s) = normalize_line_endings s"
  by (rule normalize_no_cr[OF cr_not_in_normalized])

lemma replace_crlf_restore:
  "13 \<notin> set s \<Longrightarrow> replace_crlf (restore_line_endings s CrLf) = s"
  by (induction s) (auto simp: restore_line_endings_def)

lemma normalize_restore: "13 \<notin> set s \<Longrightarrow> normalize_line_endings (restore_line_endings s e) = s"
  by (cases e)
    (auto simp: normalize_line_endings_def replace_crlf_restore replace_crlf_no_cr restore_line_endings_def[of s Lf]
      intro: map_idI)

lemma detect_restore_crlf:
  assumes "13 \<notin> set s" and "10 \<in> set s"
  shows "detect_line_ending (restore_line_endings s CrLf) = CrLf"
proof -
  have "\<exists>i. ufind (restore_line_endings s CrLf) [13, 10] = Some i \<and> ufind (restore_line_endings s CrLf) [10] = Some (Suc i)"
    using assms by (induction s) (auto simp: restore_line_endings_def)
  then show ?thesis by (auto simp: detect_line_ending_def)
qed

lemma detect_no_cr: "13 \<notin> set s \<Longrightarrow> detect_line_ending s = Lf"
proof -
  assume "13 \<notin> set s"
  then have "ufind s [13, 10] = None" by (induction s) auto
  then show ?thesis by (simp add: detect_line_ending_def)
qed

lemma strip_utf8_bom_restore:
  "strip_utf8_bom (restore_line_endings s CrLf) =
     (fst (strip_utf8_bom s), restore_line_endings (snd (strip_utf8_bom s)) CrLf)"
  by (cases s) (auto simp: strip_utf8_bom_def restore_line_endings_def utf8_bom_def)

lemma edit_crlf_eq:
  assumes cr: "13 \<notin> set t" and lf: "10 \<in> set t" and bom: "hd t \<noteq> utf8_bom"
  shows "apply_edit nfkc (restore_line_endings t CrLf) edits path =
    and_then (apply_edit nfkc t edits path) (\<lambda>a.
      Ok (a\<lparr>final_content := restore_line_endings (final_content a) CrLf\<rparr>))"
proof -
  have b: "strip_utf8_bom t = ([], t)" using bom lf by (cases t) (auto simp: strip_utf8_bom_def)
  show ?thesis
    unfolding apply_edit_def strip_utf8_bom_restore b
    by (cases "apply_unique_edits nfkc (normalize_line_endings t) (map normalized_edit edits) path")
      (simp_all add: normalize_restore[OF cr] normalize_no_cr[OF cr] detect_restore_crlf[OF cr lf]
        detect_no_cr[OF cr] restore_line_endings_def[of _ Lf])
qed

section \<open>Regions\<close>

text \<open>
  A single pass over the text: copy up to the region, put the new text, go on behind the region.
\<close>

fun splice :: "nat \<Rightarrow> ustring \<Rightarrow> matched_edit list \<Rightarrow> ustring" where
  "splice at base [] = drop at base"
| "splice at base (m # ms) =
     take (m_index m - at) (drop at base) @ m_new m @ splice (m_index m + m_len m) base ms"

fun regions :: "nat \<Rightarrow> nat \<Rightarrow> matched_edit list \<Rightarrow> bool" where
  "regions at n [] \<longleftrightarrow> at \<le> n"
| "regions at n (m # ms) \<longleftrightarrow> at \<le> m_index m \<and> regions (m_index m + m_len m) n ms"

lemma regions_bound: "regions at n ms \<Longrightarrow> at \<le> n"
  by (induction ms arbitrary: at) fastforce+

lemma replace_from_back_Cons:
  "replace_from_back base (m # ms) = replace_range (replace_from_back base ms) (m_index m) (m_len m) (m_new m)"
  by (simp add: replace_from_back_def)

lemma replace_from_back_splice:
  "regions at (length base) ms \<Longrightarrow> replace_from_back base ms = take at base @ splice at base ms"
proof (induction ms arbitrary: at)
  case Nil
  then show ?case by (simp add: replace_from_back_def)
next
  case (Cons m ms)
  let ?stop = "m_index m + m_len m"
  from Cons.prems have r: "regions ?stop (length base) ms" and at: "at \<le> m_index m" by auto
  from regions_bound[OF r] have b: "?stop \<le> length base" .
  have "take at base @ take (m_index m - at) (drop at base) = take (m_index m) base"
    using at by (metis le_add_diff_inverse take_add)
  with Cons.IH[OF r] b at show ?case
    by (simp add: replace_from_back_Cons replace_range_def)
qed

lemma first_overlap_regions:
  assumes "sorted (map m_index ms)" and "first_overlap ms = None"
    and "\<forall>m\<in>set ms. m_index m + m_len m \<le> n" and "ms = [] \<or> at \<le> m_index (hd ms)" and "at \<le> n"
  shows "regions at n ms"
  using assms
proof (induction ms arbitrary: at rule: first_overlap.induct)
  case (1 p c rest)
  have "regions (m_index p + m_len p) n (c # rest)"
    by (rule "1.IH") (use 1 in \<open>auto split: if_splits\<close>)
  with "1.prems" show ?case by simp
qed auto

definition fuzzy_stable :: "unicode_form \<Rightarrow> bool" where
  "fuzzy_stable nfkc \<longleftrightarrow>
     (\<forall>s. nfkc (normalize_for_fuzzy_match nfkc s) = normalize_for_fuzzy_match nfkc s)"

lemma fuzzy_char_newline [simp]: "normalize_fuzzy_char c = 10 \<longleftrightarrow> c = 10"
  by (auto simp: normalize_fuzzy_char_def)

lemma fuzzy_char_idem [simp]: "normalize_fuzzy_char (normalize_fuzzy_char c) = normalize_fuzzy_char c"
  by (auto simp: normalize_fuzzy_char_def)

lemma fuzzy_char_whitespace [simp]: "is_whitespace (normalize_fuzzy_char c) \<longleftrightarrow> is_whitespace c"
  by (auto simp: normalize_fuzzy_char_def is_whitespace_def)

lemma usplit_map_fuzzy: "usplit 10 (map normalize_fuzzy_char s) = map (map normalize_fuzzy_char) (usplit 10 s)"
  by (induction s) (auto split: list.split)

lemma dropWhile_map_fuzzy:
  "dropWhile is_whitespace (map normalize_fuzzy_char s) = map normalize_fuzzy_char (dropWhile is_whitespace s)"
  by (induction s) auto

lemma utrim_end_map_fuzzy: "utrim_end (map normalize_fuzzy_char s) = map normalize_fuzzy_char (utrim_end s)"
  by (simp add: utrim_end_def rev_map dropWhile_map_fuzzy)

lemma dropWhile_idem: "dropWhile P (dropWhile P xs) = dropWhile P xs"
  by (induction xs) auto

lemma utrim_end_idem [simp]: "utrim_end (utrim_end s) = utrim_end s"
  by (simp add: utrim_end_def dropWhile_idem)

lemma utrim_end_subset: "set (utrim_end s) \<subseteq> set s"
  by (auto simp: utrim_end_def dest: set_dropWhileD)

lemma normalize_fuzzy_idem:
  assumes "fuzzy_stable nfkc"
  shows "normalize_for_fuzzy_match nfkc (normalize_for_fuzzy_match nfkc s) = normalize_for_fuzzy_match nfkc s"
proof -
  let ?lines = "map utrim_end (usplit 10 (nfkc s))"
  have lines: "usplit 10 (ujoin [10] ?lines) = ?lines"
    by (rule usplit_ujoin) (use usplit_parts utrim_end_subset in \<open>fastforce+\<close>)
  have "normalize_for_fuzzy_match nfkc (normalize_for_fuzzy_match nfkc s) =
      map normalize_fuzzy_char (ujoin [10] (map utrim_end (usplit 10 (normalize_for_fuzzy_match nfkc s))))"
    using assms by (simp add: fuzzy_stable_def normalize_for_fuzzy_match_def[of nfkc "normalize_for_fuzzy_match nfkc s"])
  also have "usplit 10 (normalize_for_fuzzy_match nfkc s) = map (map normalize_fuzzy_char) ?lines"
    by (simp add: normalize_for_fuzzy_match_def usplit_map_fuzzy lines)
  also have "map utrim_end (map (map normalize_fuzzy_char) ?lines) = map (map normalize_fuzzy_char) ?lines"
    by (simp add: utrim_end_map_fuzzy)
  also have "ujoin [10] (map (map normalize_fuzzy_char) ?lines) = map normalize_fuzzy_char (ujoin [10] ?lines)"
  proof -
    have "ujoin [10] (map (map normalize_fuzzy_char) ps) = map normalize_fuzzy_char (ujoin [10] ps)" for ps
      by (induction "[10] :: ustring" ps rule: ujoin.induct) (simp_all add: normalize_fuzzy_char_def)
    then show ?thesis .
  qed
  finally show ?thesis by (simp add: normalize_for_fuzzy_match_def comp_def)
qed

lemma fuzzy_stable_id: "fuzzy_stable (\<lambda>s. s)"
  by (simp add: fuzzy_stable_def)

section \<open>What an edit does\<close>

text \<open>The region of edit \<open>e\<close>: an occurrence of its old text, perhaps of the tolerant form.\<close>

definition edit_region :: "unicode_form \<Rightarrow> ustring \<Rightarrow> text_edit \<Rightarrow> matched_edit \<Rightarrow> bool" where
  "edit_region nfkc base e m \<longleftrightarrow> m_new m = new_string e \<and>
     (\<exists>needle. (needle = old_string e \<or> needle = normalize_for_fuzzy_match nfkc (old_string e))
        \<and> needle \<noteq> [] \<and> m_len m = length needle \<and> occurs_at base needle (m_index m))
     \<and> count_replacement_occurrences nfkc base (old_string e) \<le> 1"

lemma find_text_in_base:
  assumes stable: "fuzzy_stable nfkc" and e: "e \<in> set edits"
    and found: "find_text nfkc (edit_base nfkc content edits) (old_string e) = Some m" and ne: "old_string e \<noteq> []"
  shows "\<exists>needle. (needle = old_string e \<or> needle = normalize_for_fuzzy_match nfkc (old_string e))
    \<and> needle \<noteq> [] \<and> match_length m = length needle
    \<and> occurs_at (edit_base nfkc content edits) needle (match_at m)"
proof (cases "ufind (edit_base nfkc content edits) (old_string e)")
  case (Some i)
  with found ne ufind_occurs[OF Some] show ?thesis by (auto simp: find_text_def)
next
  case None
  let ?base = "edit_base nfkc content edits" and ?n = "normalize_for_fuzzy_match nfkc"
  from found None obtain i where i: "?n (old_string e) \<noteq> []" "ufind (?n ?base) (?n (old_string e)) = Some i"
      "m = \<lparr>match_at = i, match_length = length (?n (old_string e)), match_fuzzy = True\<rparr>"
    by (auto simp: find_text_def Let_def split: if_splits)
  have "?n ?base = ?base"
  proof (cases "uses_fuzzy_base nfkc content edits")
    case True
    then show ?thesis using normalize_fuzzy_idem[OF stable] by (simp add: edit_base_def)
  next
    case False
    then have "find_text nfkc content (old_string e) = Some m" using found by (simp add: edit_base_def)
    with False e have "\<not> match_fuzzy m"
      by (force simp: uses_fuzzy_base_def list_ex_iff List.map_filter_def)
    with i(3) show ?thesis by simp
  qed
  with i ufind_occurs[OF i(2)] show ?thesis by auto
qed

lemma locate_edit_Ok:
  assumes "fuzzy_stable nfkc" "e \<in> set edits" "old_string e \<noteq> []"
    and "locate_edit nfkc (edit_base nfkc content edits) (k, e) = Ok m"
  shows "m_edit m = k \<and> edit_region nfkc (edit_base nfkc content edits) e m"
proof -
  from assms(4) obtain t where t: "find_text nfkc (edit_base nfkc content edits) (old_string e) = Some t"
      "m = \<lparr>m_edit = k, m_index = match_at t, m_len = match_length t, m_new = new_string e\<rparr>"
      "count_replacement_occurrences nfkc (edit_base nfkc content edits) (old_string e) \<le> 1"
    by (auto simp: locate_edit_def Let_def split: option.splits if_splits)
  from find_text_in_base[OF assms(1,2) t(1) assms(3)] t show ?thesis by (auto simp: edit_region_def)
qed

definition edits_located ::
    "unicode_form \<Rightarrow> ustring \<Rightarrow> text_edit list \<Rightarrow> matched_edit list \<Rightarrow> bool" where
  "edits_located nfkc base edits ms \<longleftrightarrow>
     mset (map m_edit ms) = mset [0..<length edits]
     \<and> (\<forall>m\<in>set ms. edit_region nfkc base (edits ! m_edit m) m)
     \<and> regions 0 (length base) ms"

lemma apply_unique_edits_Ok:
  assumes stable: "fuzzy_stable nfkc" and ok: "apply_unique_edits nfkc content edits path = Ok a"
  shows "\<exists>ms. edits_located nfkc (edit_base nfkc content edits) edits ms
    \<and> final_content a = splice 0 (edit_base nfkc content edits) ms
    \<and> replacements a = length edits
    \<and> final_content a \<noteq> edit_base nfkc content edits"
proof -
  let ?base = "edit_base nfkc content edits"
  have first: "first_empty edits = None"
    using ok by (cases "first_empty edits") (auto simp: apply_unique_edits_def)
  with ok obtain found where found: "try_map (locate_edit nfkc ?base) (zip [0..<length edits] edits) = Ok found"
    by (cases "try_map (locate_edit nfkc ?base) (zip [0..<length edits] edits)")
      (auto simp: apply_unique_edits_def Let_def)
  have over: "first_overlap (sort_key m_index found) = None"
    using ok by (cases "first_overlap (sort_key m_index found)")
      (auto simp: apply_unique_edits_def Let_def first found)
  have changed: "replace_from_back ?base (sort_key m_index found) \<noteq> ?base"
    and a: "a = \<lparr>final_content = replace_from_back ?base (sort_key m_index found),
                 replacements = length (sort_key m_index found)\<rparr>"
    using ok by (auto simp: apply_unique_edits_def Let_def first found over split: if_splits)
  from found have all: "list_all2 (\<lambda>x y. locate_edit nfkc ?base x = Ok y) (zip [0..<length edits] edits) found"
    by (simp add: try_map_eq_Ok_iff)
  then have len: "length found = length edits" by (auto dest: list_all2_lengthD)
  have each: "m_edit (found ! k) = k \<and> edit_region nfkc ?base (edits ! k) (found ! k)" if "k < length edits" for k
  proof -
    from all that len have "locate_edit nfkc ?base (k, edits ! k) = Ok (found ! k)"
      by (auto simp: list_all2_conv_all_nth)
    moreover have "old_string (edits ! k) \<noteq> []" using first that by (auto simp: first_empty_def position_None)
    ultimately show ?thesis using locate_edit_Ok[OF stable nth_mem[OF that]] by blast
  qed
  have "map m_edit found = [0..<length edits]" by (rule nth_equalityI) (auto simp: len each)
  then have ids: "mset (map m_edit (sort_key m_index found)) = mset [0..<length edits]"
    by (metis mset_map mset_sort)
  have reg: "edit_region nfkc ?base (edits ! m_edit m) m" if m: "m \<in> set found" for m
  proof -
    from m obtain k where "k < length edits" "found ! k = m" by (auto simp: in_set_conv_nth len)
    with each[of k] show ?thesis by auto
  qed
  have bound: "\<forall>m\<in>set (sort_key m_index found). m_index m + m_len m \<le> length ?base"
    using reg by (fastforce simp: edit_region_def occurs_at_def)
  have "regions 0 (length ?base) (sort_key m_index found)"
    by (rule first_overlap_regions) (use over bound in auto)
  with ids reg a replace_from_back_splice[of 0 ?base] changed len show ?thesis
    by (intro exI[of _ "sort_key m_index found"]) (auto simp: edits_located_def)
qed

section \<open>The order of the edits does not matter\<close>

definition unnumbered :: "matched_edit \<Rightarrow> matched_edit" where
  "unnumbered m = m\<lparr>m_edit := 0\<rparr>"

lemma unnumbered_simps [simp]:
  "m_index (unnumbered m) = m_index m" "m_len (unnumbered m) = m_len m" "m_new (unnumbered m) = m_new m"
  by (simp_all add: unnumbered_def)

lemma replace_from_back_unnumbered: "replace_from_back base (map unnumbered ms) = replace_from_back base ms"
  by (simp add: replace_from_back_def rev_map foldl_map)

lemma first_overlap_unnumbered: "first_overlap (map unnumbered ms) = None \<longleftrightarrow> first_overlap ms = None"
  by (induction ms rule: first_overlap.induct) auto

lemma insort_unnumbered:
  "map unnumbered (insort_key m_index m ms) = insort_key m_index (unnumbered m) (map unnumbered ms)"
  by (induction ms) auto

lemma sort_unnumbered: "map unnumbered (sort_key m_index ms) = sort_key m_index (map unnumbered ms)"
  by (induction ms) (simp_all add: insort_unnumbered)

definition located :: "unicode_form \<Rightarrow> ustring \<Rightarrow> text_edit \<Rightarrow> matched_edit option" where
  "located nfkc base e =
     (case locate_edit nfkc base (0, e) of Inl _ \<Rightarrow> None | Inr m \<Rightarrow> Some m)"

lemma locate_edit_unnumbered:
  "locate_edit nfkc base (k, e) = Ok m \<Longrightarrow> located nfkc base e = Some (unnumbered m)"
  "located nfkc base e = Some m' \<Longrightarrow> \<exists>m. locate_edit nfkc base (k, e) = Ok m"
  by (auto simp: located_def locate_edit_def Let_def unnumbered_def split: option.splits if_splits)

lemma try_map_located:
  assumes "try_map (locate_edit nfkc base) (zip ks es) = Ok found" and "length ks = length es"
  shows "map Some (map unnumbered found) = map (located nfkc base) es"
  using assms(2,1)
proof (induction ks es arbitrary: found rule: list_induct2)
  case (Cons k ks e es)
  then show ?case using locate_edit_unnumbered(1) by (fastforce simp: and_then_eq_Ok)
qed simp

lemma try_map_located_total:
  assumes "\<forall>e\<in>set es. located nfkc base e \<noteq> None" and "length ks = length es"
  shows "\<exists>found. try_map (locate_edit nfkc base) (zip ks es) = Ok found"
  using assms(2,1)
proof (induction ks es rule: list_induct2)
  case (Cons k ks e es)
  from Cons.prems obtain m' where "located nfkc base e = Some m'" by auto
  from locate_edit_unnumbered(2)[OF this, of k] Cons show ?case by auto
qed simp

lemma regions_strict:
  assumes "regions at n ms" and "\<forall>m\<in>set ms. 0 < m_len m"
  shows "sorted_wrt (<) (map m_index ms) \<and> (\<forall>m\<in>set ms. at \<le> m_index m)"
  using assms by (induction ms arbitrary: at) fastforce+

lemma edit_base_perm: "set edits = set edits' \<Longrightarrow> edit_base nfkc content edits = edit_base nfkc content edits'"
  by (auto simp: edit_base_def uses_fuzzy_base_def list_ex_iff List.map_filter_def)

lemma apply_unique_edits_perm:
  assumes stable: "fuzzy_stable nfkc" and ok: "apply_unique_edits nfkc content edits path = Ok a"
    and perm: "mset edits' = mset edits"
  shows "apply_unique_edits nfkc content edits' path = Ok a"
proof -
  from perm have sets: "set edits' = set edits" by (metis set_mset_mset)
  have base: "edit_base nfkc content edits' = edit_base nfkc content edits" by (rule edit_base_perm[OF sets])
  let ?base = "edit_base nfkc content edits"
  have first: "first_empty edits = None"
    using ok by (cases "first_empty edits") (auto simp: apply_unique_edits_def)
  with sets have first': "first_empty edits' = None" by (simp add: first_empty_def position_None)
  from first ok obtain found where found: "try_map (locate_edit nfkc ?base) (zip [0..<length edits] edits) = Ok found"
    by (cases "try_map (locate_edit nfkc ?base) (zip [0..<length edits] edits)")
      (auto simp: apply_unique_edits_def Let_def)
  have loc: "map Some (map unnumbered found) = map (located nfkc ?base) edits"
    by (rule try_map_located[OF found]) simp
  then have "\<forall>e\<in>set edits. located nfkc ?base e \<noteq> None"
    by (metis (no_types, lifting) imageE image_eqI list.set_map option.distinct(1))
  with sets obtain found' where found': "try_map (locate_edit nfkc ?base) (zip [0..<length edits'] edits') = Ok found'"
    using try_map_located_total[of edits' nfkc ?base "[0..<length edits']"] by auto
  have loc': "map Some (map unnumbered found') = map (located nfkc ?base) edits'"
    by (rule try_map_located[OF found']) simp
  have "mset (map Some (map unnumbered found')) = mset (map Some (map unnumbered found))"
    unfolding loc loc' using perm by simp
  then have "image_mset Some (mset (map unnumbered found')) = image_mset Some (mset (map unnumbered found))"
    by (metis mset_map)
  from arg_cong[OF this, of "image_mset the"]
  have cores: "mset (map unnumbered found') = mset (map unnumbered found)"
    by (simp add: multiset.map_comp comp_def)
  then have len: "length found' = length found" by (metis length_map size_mset)
  let ?ms = "sort_key m_index found"
  have over: "first_overlap ?ms = None"
    using ok by (cases "first_overlap ?ms") (auto simp: apply_unique_edits_def Let_def first found)
  obtain ms where ms: "edits_located nfkc ?base edits ms"
    using apply_unique_edits_Ok[OF stable ok] by blast
  have reg: "edit_region nfkc ?base (edits ! k) (found ! k)" if "k < length edits" for k
  proof -
    from found that have "locate_edit nfkc ?base (k, edits ! k) = Ok (found ! k)"
      by (auto simp: try_map_eq_Ok_iff list_all2_conv_all_nth)
    moreover have "old_string (edits ! k) \<noteq> []" using first that by (auto simp: first_empty_def position_None)
    ultimately show ?thesis using locate_edit_Ok[OF stable nth_mem[OF that]] by blast
  qed
  have flen: "length found = length edits" using found by (auto simp: try_map_eq_Ok_iff dest: list_all2_lengthD)
  have regs: "0 < m_len m \<and> m_index m + m_len m \<le> length ?base" if "m \<in> set found" for m
  proof -
    from that obtain k where "k < length edits" "found ! k = m" by (auto simp: in_set_conv_nth flen)
    with reg[of k] show ?thesis by (auto simp: edit_region_def occurs_at_def)
  qed
  have "regions 0 (length ?base) ?ms"
    by (rule first_overlap_regions) (use over regs in auto)
  with regions_strict[of 0 _ ?ms] regs have "distinct (map m_index ?ms)"
    by (auto simp: strict_sorted_iff)
  then have "inj_on m_index (set (map unnumbered found))"
    unfolding distinct_map by (auto simp: inj_on_def)
  then have sorted: "sort_key m_index (map unnumbered found') = sort_key m_index (map unnumbered found)"
    using cores by (metis mset_eq_setD mset_sort properties_for_sort_key sorted_sort_key sort_key_inj_key_eq)
  have same: "map unnumbered (sort_key m_index found') = map unnumbered ?ms"
    using sorted by (simp add: sort_unnumbered)
  have "first_overlap (sort_key m_index found') = None"
    using over same first_overlap_unnumbered by metis
  moreover have "replace_from_back ?base (sort_key m_index found') = replace_from_back ?base ?ms"
    using same replace_from_back_unnumbered by metis
  ultimately show ?thesis
    using ok len
    by (auto simp: apply_unique_edits_def Let_def first first' found found' base over split: if_splits)
qed

lemma apply_edit_perm:
  assumes "fuzzy_stable nfkc" and "apply_edit nfkc original edits path = Ok a" and "mset edits' = mset edits"
  shows "apply_edit nfkc original edits' path = Ok a"
proof -
  obtain bom content where b: "strip_utf8_bom original = (bom, content)" by (cases "strip_utf8_bom original")
  from assms(2) obtain x where x: "apply_unique_edits nfkc (normalize_line_endings content) (map normalized_edit edits) path = Ok x"
    by (auto simp: apply_edit_def b and_then_eq_Ok)
  have "mset (map normalized_edit edits') = mset (map normalized_edit edits)" using assms(3) by simp
  from apply_unique_edits_perm[OF assms(1) x this] x assms(2) show ?thesis by (simp add: apply_edit_def b)
qed

end
