(* ===== verification/Token_Count.thy ===== *)
theory Token_Count
  imports Text_Search Utf8
begin

text \<open>
  Estimating tokens while text streams in, \<^verbatim>\<open>runtime-domain/src/token_count\<close> and
  \<^verbatim>\<open>runtime-domain/src/model_family.rs\<close>.  The crate \<^verbatim>\<open>tiktoken\<close> is the record \<open>tokenizer\<close>: its
  catalogue of model names and, for every encoding it knows, its counting function.  An
  \<^verbatim>\<open>Instant\<close> is a number of nanoseconds.
\<close>

section \<open>Families of models\<close>

datatype model_family =
    OpenAiGpt4oMini | OpenAiGpt4o | ClaudeSonnet4 | ClaudeOpus4 | Qwen | Deepseek | DeepseekV4
  | Llama | MistralV3 | KimiK2 | KimiK3 | Glm4 | Glm5 | MiniMax | OpenAiLegacy | OpenAiGptOss
  | OpenAiModern | UnknownFamily

fun built_in_context_limit :: "model_family \<Rightarrow> nat option" where
  "built_in_context_limit OpenAiGpt4oMini = Some 128000"
| "built_in_context_limit OpenAiGpt4o = Some 128000"
| "built_in_context_limit ClaudeSonnet4 = Some 200000"
| "built_in_context_limit ClaudeOpus4 = Some 200000"
| "built_in_context_limit _ = None"

fun preferred_encoding :: "model_family \<Rightarrow> ustring option" where
  "preferred_encoding Qwen = Some (lit ''qwen2'')"
| "preferred_encoding Deepseek = Some (lit ''deepseek_v3'')"
| "preferred_encoding DeepseekV4 = Some (lit ''deepseek_v4'')"
| "preferred_encoding Llama = Some (lit ''llama3'')"
| "preferred_encoding MistralV3 = Some (lit ''mistral_v3'')"
| "preferred_encoding KimiK2 = Some (lit ''kimi_k2'')"
| "preferred_encoding KimiK3 = Some (lit ''kimi_k3'')"
| "preferred_encoding Glm4 = Some (lit ''glm4'')"
| "preferred_encoding Glm5 = Some (lit ''glm5'')"
| "preferred_encoding MiniMax = Some (lit ''minimax_m2'')"
| "preferred_encoding OpenAiLegacy = Some (lit ''cl100k_base'')"
| "preferred_encoding OpenAiGptOss = Some (lit ''o200k_harmony'')"
| "preferred_encoding OpenAiGpt4o = Some (lit ''o200k_base'')"
| "preferred_encoding OpenAiGpt4oMini = Some (lit ''o200k_base'')"
| "preferred_encoding OpenAiModern = Some (lit ''o200k_base'')"
| "preferred_encoding ClaudeSonnet4 = None"
| "preferred_encoding ClaudeOpus4 = None"
| "preferred_encoding UnknownFamily = None"

definition model_family_matches :: "ustring \<Rightarrow> ustring \<Rightarrow> bool" where
  "model_family_matches model family \<longleftrightarrow>
     model = family \<or>
     (case strip_prefix model family of Some rest \<Rightarrow> starts_with rest (lit ''-'') | None \<Rightarrow> False)"

definition contains_legacy_gpt4_alias :: "ustring \<Rightarrow> bool" where
  "contains_legacy_gpt4_alias model \<longleftrightarrow>
     contains model (lit ''gpt-4'') \<and> \<not> contains model (lit ''gpt-4.1'')
     \<and> \<not> contains model (lit ''gpt-4o'') \<and> \<not> contains model (lit ''gpt-4.5'')"

definition classify_model_family :: "ustring \<Rightarrow> model_family" where
  "classify_model_family model_id =
     (let m = ascii_lower (utrim model_id)
      in if model_family_matches m (lit ''gpt-4o-mini'') then OpenAiGpt4oMini
         else if model_family_matches m (lit ''gpt-4o'') then OpenAiGpt4o
         else if model_family_matches m (lit ''claude-sonnet-4'') then ClaudeSonnet4
         else if model_family_matches m (lit ''claude-opus-4'') then ClaudeOpus4
         else if contains m (lit ''kimi-k2'') then KimiK2
         else if contains m (lit ''kimi'') then KimiK3
         else if contains m (lit ''glm-5'') \<or> contains m (lit ''glm5'') then Glm5
         else if contains m (lit ''glm-4'') \<or> contains m (lit ''glm4'') \<or> starts_with m (lit ''glm'')
           then Glm4
         else if contains m (lit ''minimax'') then MiniMax
         else if contains m (lit ''qwen'') then Qwen
         else if contains m (lit ''deepseek-v4'') \<or> contains m (lit ''deepseek-chat'')
             \<or> contains m (lit ''deepseek-reasoner'') then DeepseekV4
         else if contains m (lit ''deepseek'') then Deepseek
         else if contains m (lit ''llama'') then Llama
         else if contains m (lit ''mistral'') \<or> contains m (lit ''mixtral'')
             \<or> contains m (lit ''codestral'') \<or> contains m (lit ''pixtral'') then MistralV3
         else if contains m (lit ''gpt-3.5'') \<or> contains_legacy_gpt4_alias m then OpenAiLegacy
         else if contains m (lit ''gpt-oss'') then OpenAiGptOss
         else if contains m (lit ''gpt'') \<or> starts_with m (lit ''o1'') \<or> starts_with m (lit ''o3'')
             \<or> starts_with m (lit ''o4'') then OpenAiModern
         else UnknownFamily)"

section \<open>Encodings\<close>

record tokenizer =
  model_to_encoding :: "ustring \<Rightarrow> ustring option"
  encoding_count :: "ustring \<Rightarrow> (ustring \<Rightarrow> nat) option"

definition fallback_encoding :: ustring where "fallback_encoding = lit ''o200k_base''"

definition approximate_tokens_from_bytes :: "nat \<Rightarrow> nat" where
  "approximate_tokens_from_bytes n = sat_add_usize n (4 - 1) div 4"

definition estimated_image_tokens :: nat where "estimated_image_tokens = 1200"

text \<open>The part behind the last slash; the whole text when there is none.\<close>

definition model_basename :: "ustring \<Rightarrow> ustring" where
  "model_basename model = rev (takeWhile (\<lambda>c. c \<noteq> 47) (rev model))"

definition encoding_from_tiktoken_catalog :: "tokenizer \<Rightarrow> ustring \<Rightarrow> ustring option" where
  "encoding_from_tiktoken_catalog T model =
     (case model_to_encoding T model of
        Some e \<Rightarrow> Some e
      | None \<Rightarrow> if model_basename model = model then None
                else model_to_encoding T (model_basename model))"

definition alias_encoding_for_model :: "ustring \<Rightarrow> ustring option" where
  "alias_encoding_for_model model = preferred_encoding (classify_model_family model)"

definition encoding_name_for_model :: "tokenizer \<Rightarrow> ustring \<Rightarrow> ustring" where
  "encoding_name_for_model T model =
     (case encoding_from_tiktoken_catalog T model of
        Some e \<Rightarrow> e
      | None \<Rightarrow> (case alias_encoding_for_model model of Some e \<Rightarrow> e | None \<Rightarrow> fallback_encoding))"

definition estimate_with_encoding_name :: "tokenizer \<Rightarrow> ustring \<Rightarrow> ustring \<Rightarrow> nat" where
  "estimate_with_encoding_name T e s =
     (case (case encoding_count T e of Some f \<Rightarrow> Some f | None \<Rightarrow> encoding_count T fallback_encoding) of
        Some f \<Rightarrow> f s
      | None \<Rightarrow> approximate_tokens_from_bytes (length (utf8_encode s)))"

definition estimate_text :: "tokenizer \<Rightarrow> ustring \<Rightarrow> ustring \<Rightarrow> nat" where
  "estimate_text T e s = (if s = [] then 0 else estimate_with_encoding_name T e s)"

definition estimate_text_tokens :: "tokenizer \<Rightarrow> ustring \<Rightarrow> ustring \<Rightarrow> nat" where
  "estimate_text_tokens T model s = estimate_text T (encoding_name_for_model T model) s"

section \<open>Progress of a stream\<close>

definition token_snapshot_interval :: nat where "token_snapshot_interval = 120000000"
definition token_snapshot_delta_threshold :: nat where "token_snapshot_delta_threshold = 12"

record token_progress =
  encoding_name :: ustring
  pending_text :: ustring
  total_tokens :: nat
  last_snapshot_at :: nat
  has_snapshot :: bool

definition new_progress :: "tokenizer \<Rightarrow> ustring \<Rightarrow> nat \<Rightarrow> token_progress" where
  "new_progress T model now =
     \<lparr>encoding_name = encoding_name_for_model T model, pending_text = [], total_tokens = 0,
      last_snapshot_at = now, has_snapshot = False\<rparr>"

definition flush_progress :: "tokenizer \<Rightarrow> nat \<Rightarrow> token_progress \<Rightarrow> nat option \<times> token_progress" where
  "flush_progress T now p =
     (if pending_text p = [] then (None, p)
      else let total = sat_add_usize (total_tokens p) (estimate_text T (encoding_name p) (pending_text p))
           in (Some total, p\<lparr>total_tokens := total, pending_text := [], last_snapshot_at := now,
                             has_snapshot := True\<rparr>))"

definition observe_delta ::
    "tokenizer \<Rightarrow> ustring \<Rightarrow> nat \<Rightarrow> token_progress \<Rightarrow> nat option \<times> token_progress" where
  "observe_delta T delta now p =
     (if delta = [] then (None, p)
      else let q = p\<lparr>pending_text := pending_text p @ delta\<rparr>
           in if \<not> has_snapshot q then flush_progress T now q
              else if now - last_snapshot_at q < token_snapshot_interval
              then if token_snapshot_delta_threshold
                      \<le> approximate_tokens_from_bytes (length (utf8_encode (pending_text q)))
                   then flush_progress T now q else (None, q)
              else flush_progress T now q)"

definition observe_token_count :: "nat \<Rightarrow> nat \<Rightarrow> token_progress \<Rightarrow> nat option \<times> token_progress" where
  "observe_token_count n now p =
     (if n = 0 then (None, p)
      else let total = sat_add_usize (total_tokens p) n
           in (Some total, p\<lparr>total_tokens := total, last_snapshot_at := now, has_snapshot := True\<rparr>))"

definition observe_complete_token_total ::
    "tokenizer \<Rightarrow> ustring \<Rightarrow> nat \<Rightarrow> token_progress \<Rightarrow> nat option \<times> token_progress" where
  "observe_complete_token_total T content now p =
     (if content = [] then (None, p)
      else case observe_delta T content now p of
             (Some n, q) \<Rightarrow> (Some n, q)
           | (None, q) \<Rightarrow> flush_progress T now q)"

section \<open>What the progress counts\<close>

text \<open>
  The text observed so far is cut into chunks: those counted and the one pending.  A progress
  accounts for a text when its total is the sum over the counted chunks.
\<close>

definition accounts_for :: "tokenizer \<Rightarrow> ustring list \<Rightarrow> ustring \<Rightarrow> token_progress \<Rightarrow> bool" where
  "accounts_for T chunks observed p \<longleftrightarrow>
     concat chunks @ pending_text p = observed \<and>
     total_tokens p = min usize_max (\<Sum>c\<leftarrow>chunks. estimate_text T (encoding_name p) c)"

definition small_pending :: "token_progress \<Rightarrow> bool" where
  "small_pending p \<longleftrightarrow> (\<not> has_snapshot p \<longrightarrow> pending_text p = []) \<and>
     approximate_tokens_from_bytes (length (utf8_encode (pending_text p))) < token_snapshot_delta_threshold"

lemma sat_add_min: "sat_add_usize (min usize_max a) b = min usize_max (a + b)"
  by (auto simp: sat_add_usize_def)

lemma flush_progress_simps [simp]:
  "pending_text (snd (flush_progress T now p)) = []"
  "encoding_name (snd (flush_progress T now p)) = encoding_name p"
  "fst (flush_progress T now p) \<noteq> None \<longleftrightarrow> pending_text p \<noteq> []"
  by (auto simp: flush_progress_def Let_def)

lemma flush_progress_accounts:
  assumes "accounts_for T chunks observed p"
  shows "accounts_for T (if pending_text p = [] then chunks else chunks @ [pending_text p]) observed
           (snd (flush_progress T now p))"
  using assms by (auto simp: accounts_for_def flush_progress_def Let_def sat_add_min)

lemma small_pending_flush [intro]: "small_pending (snd (flush_progress T now p))" if "pending_text p \<noteq> [] \<or> small_pending p"
  using that by (auto simp: small_pending_def flush_progress_def Let_def approximate_tokens_from_bytes_def
    sat_add_usize_def usize_max_def token_snapshot_delta_threshold_def)

lemma accounts_for_pending:
  "accounts_for T chunks observed p \<Longrightarrow>
     accounts_for T chunks (observed @ delta) (p\<lparr>pending_text := pending_text p @ delta\<rparr>)"
  by (auto simp: accounts_for_def)

lemma observe_delta_accounts:
  assumes "accounts_for T chunks observed p"
  obtains chunks' where "accounts_for T chunks' (observed @ delta) (snd (observe_delta T delta now p))"
proof -
  let ?q = "p\<lparr>pending_text := pending_text p @ delta\<rparr>"
  have q: "accounts_for T chunks (observed @ delta) ?q" by (rule accounts_for_pending[OF assms])
  have "snd (observe_delta T delta now p) = ?q \<or>
      snd (observe_delta T delta now p) = snd (flush_progress T now ?q)"
    by (auto simp: observe_delta_def Let_def)
  then show thesis
    using q flush_progress_accounts[OF q] that by metis
qed

lemma observe_delta_small:
  assumes "small_pending p"
  shows "small_pending (snd (observe_delta T delta now p))"
proof (cases "delta = []")
  case False
  then show ?thesis
    using small_pending_flush[of "p\<lparr>pending_text := pending_text p @ delta\<rparr>" T now]
    by (auto simp: observe_delta_def Let_def small_pending_def)
qed (use assms in \<open>simp add: observe_delta_def\<close>)

lemma total_tokens_mono:
  "total_tokens p \<le> usize_max \<Longrightarrow> total_tokens p \<le> total_tokens (snd (flush_progress T now p))"
  "total_tokens p \<le> usize_max \<Longrightarrow> total_tokens p \<le> total_tokens (snd (observe_delta T delta now p))"
  by (auto simp: flush_progress_def observe_delta_def Let_def sat_add_usize_def)

text \<open>The progress after a run of deltas and of snapshots.\<close>

definition observe_deltas :: "tokenizer \<Rightarrow> (ustring \<times> nat) list \<Rightarrow> token_progress \<Rightarrow> token_progress" where
  "observe_deltas T ds p = foldl (\<lambda>p (delta, now). snd (observe_delta T delta now p)) p ds"

lemma observe_deltas_account:
  assumes "accounts_for T chunks observed p" and "small_pending p"
  shows "\<exists>chunks'. accounts_for T chunks' (observed @ concat (map fst ds)) (observe_deltas T ds p)
    \<and> small_pending (observe_deltas T ds p)"
  using assms
proof (induction ds arbitrary: chunks observed p)
  case (Cons d ds)
  obtain delta now where d: "d = (delta, now)" by force
  from observe_delta_accounts[OF Cons.prems(1)] obtain c where
    c: "accounts_for T c (observed @ delta) (snd (observe_delta T delta now p))" by blast
  from Cons.IH[OF c observe_delta_small[OF Cons.prems(2)]] show ?case
    by (simp add: d observe_deltas_def)
qed (auto simp: observe_deltas_def)

lemma new_progress_accounts: "accounts_for T [] [] (new_progress T model now)"
  by (simp add: accounts_for_def new_progress_def)

lemma new_progress_small: "small_pending (new_progress T model now)"
  by (simp add: small_pending_def new_progress_def approximate_tokens_from_bytes_def sat_add_usize_def
      usize_max_def token_snapshot_delta_threshold_def)

lemma stream_is_counted_once:
  "\<exists>chunks. concat chunks = concat (map fst ds) \<and>
     total_tokens (snd (flush_progress T now (observe_deltas T ds (new_progress T model start)))) =
       min usize_max (\<Sum>c\<leftarrow>chunks. estimate_text_tokens T model c)"
proof -
  let ?p = "observe_deltas T ds (new_progress T model start)"
  from observe_deltas_account[OF new_progress_accounts new_progress_small]
  obtain chunks where "accounts_for T chunks (concat (map fst ds)) ?p" by force
  from flush_progress_accounts[OF this, of now] obtain chunks' where
    "accounts_for T chunks' (concat (map fst ds)) (snd (flush_progress T now ?p))" by blast
  moreover have "encoding_name (observe_deltas T es p) = encoding_name p" for es p
  proof (induction es arbitrary: p)
    case (Cons e es)
    obtain delta t where e: "e = (delta, t)" by force
    have "encoding_name (snd (observe_delta T delta t p)) = encoding_name p"
      by (auto simp: observe_delta_def Let_def flush_progress_def)
    with Cons show ?case by (simp add: e observe_deltas_def)
  qed (simp add: observe_deltas_def)
  ultimately show ?thesis
    by (auto simp: accounts_for_def estimate_text_tokens_def new_progress_def intro!: exI[of _ chunks'])
qed

end
