(* ===== verification/Tool_Registry.thy ===== *)
theory Tool_Registry
  imports Tools Session_Files Text_Search
begin

text \<open>
  The executable tools, \<^verbatim>\<open>tool-runtime/src/executor.rs\<close>, the check of the arguments of a call against
  the schema of its tool, \<^verbatim>\<open>schema.rs\<close>, and the texts of errors, \<^verbatim>\<open>tool_error.rs\<close>.

  A tool is what the trait \<^verbatim>\<open>Tool\<close> asks for; its code is not part of this theory, so \<open>'w\<close> is the
  world it acts on.  A run of a tool ends with a result, or reports progress and goes on in
  whatever world it finds then.  A preview that panics has no value.
\<close>

section \<open>Arguments and schemas\<close>

text \<open>Numbers of \<^verbatim>\<open>serde_json\<close>: \<^verbatim>\<open>as_i64\<close> or \<^verbatim>\<open>as_u64\<close>, the order and the text of \<^verbatim>\<open>f64\<close>.\<close>

record number_api =
  num_is_integer :: "ustring \<Rightarrow> bool"
  num_less :: "ustring \<Rightarrow> ustring \<Rightarrow> bool"
  num_show :: "ustring \<Rightarrow> ustring"

record schema_error =
  err_path :: ustring
  err_message :: ustring

definition schema_error_text :: "schema_error \<Rightarrow> ustring" where
  "schema_error_text e = err_path e @ lit '' '' @ err_message e"

definition schema_fail :: "ustring \<Rightarrow> ustring \<Rightarrow> schema_error + unit" where
  "schema_fail path message = Err \<lparr>err_path = path, err_message = message\<rparr>"

fun json_as_object :: "json_value \<Rightarrow> (ustring \<times> json_value) list option" where
  "json_as_object (JObject m) = Some m"
| "json_as_object _ = None"

fun json_as_array :: "json_value \<Rightarrow> json_value list option" where
  "json_as_array (JArray vs) = Some vs"
| "json_as_array _ = None"

fun json_as_bool :: "json_value \<Rightarrow> bool option" where
  "json_as_bool (JBool b) = Some b"
| "json_as_bool _ = None"

fun json_as_number :: "json_value \<Rightarrow> ustring option" where
  "json_as_number (JNumber n) = Some n"
| "json_as_number _ = None"

definition schema_types :: "json_value \<Rightarrow> ustring list option" where
  "schema_types schema =
     (case json_get schema (lit ''type'') of
        Some (JString t) \<Rightarrow> Some [t]
      | Some (JArray vs) \<Rightarrow> Some (filter_map json_as_str vs)
      | _ \<Rightarrow> None)"

definition value_matches_type :: "number_api \<Rightarrow> json_value \<Rightarrow> ustring \<Rightarrow> bool" where
  "value_matches_type N value expected =
     (if expected = lit ''object'' then json_as_object value \<noteq> None
      else if expected = lit ''array'' then json_as_array value \<noteq> None
      else if expected = lit ''string'' then json_as_str value \<noteq> None
      else if expected = lit ''integer'' then
        (case json_as_number value of Some n \<Rightarrow> num_is_integer N n | None \<Rightarrow> False)
      else if expected = lit ''number'' then json_as_number value \<noteq> None
      else if expected = lit ''boolean'' then json_as_bool value \<noteq> None
      else if expected = lit ''null'' then value = JNull
      else True)"

definition child_path :: "ustring \<Rightarrow> ustring \<Rightarrow> ustring" where
  "child_path parent key =
     (if parent = lit ''$'' then lit ''$.'' @ key else parent @ lit ''.'' @ key)"

definition array_item_path :: "ustring \<Rightarrow> nat \<Rightarrow> ustring" where
  "array_item_path parent index = parent @ lit ''['' @ decimal index @ lit '']''"

definition validate_numeric_keywords ::
    "number_api \<Rightarrow> json_value \<Rightarrow> json_value \<Rightarrow> ustring \<Rightarrow> schema_error + unit" where
  "validate_numeric_keywords N schema value path =
     (case json_as_number value of
        None \<Rightarrow> Ok ()
      | Some number \<Rightarrow>
          and_then
            (case Option.bind (json_get schema (lit ''minimum'')) json_as_number of
               Some m \<Rightarrow>
                 if num_less N number m
                 then schema_fail path (lit ''must be greater than or equal to minimum '' @ num_show N m)
                 else Ok ()
             | None \<Rightarrow> Ok ()) (\<lambda>_.
            (case Option.bind (json_get schema (lit ''maximum'')) json_as_number of
               Some m \<Rightarrow>
                 if num_less N m number
                 then schema_fail path (lit ''must be less than or equal to maximum '' @ num_show N m)
                 else Ok ()
             | None \<Rightarrow> Ok ())))"

definition has_object_keywords :: "json_value \<Rightarrow> bool" where
  "has_object_keywords schema \<longleftrightarrow>
     json_get schema (lit ''properties'') \<noteq> None \<or> json_get schema (lit ''required'') \<noteq> None
     \<or> json_get schema (lit ''additionalProperties'') \<noteq> None"

text \<open>The first required key that is missing, and the first key that is not allowed.\<close>

definition missing_key :: "json_value \<Rightarrow> (ustring \<times> json_value) list \<Rightarrow> ustring option" where
  "missing_key schema members =
     (case Option.bind (json_get schema (lit ''required'')) json_as_array of
        Some required \<Rightarrow> List.find (\<lambda>k. map_of members k = None) (filter_map json_as_str required)
      | None \<Rightarrow> None)"

definition schema_properties :: "json_value \<Rightarrow> (ustring \<times> json_value) list option" where
  "schema_properties schema = Option.bind (json_get schema (lit ''properties'')) json_as_object"

definition forbidden_key :: "json_value \<Rightarrow> (ustring \<times> json_value) list \<Rightarrow> ustring option" where
  "forbidden_key schema members =
     (if Option.bind (json_get schema (lit ''additionalProperties'')) json_as_bool = Some False
      then List.find
             (\<lambda>k. case schema_properties schema of Some ps \<Rightarrow> map_of ps k = None | None \<Rightarrow> True)
             (map fst members)
      else None)"

lemma map_of_size: "map_of m k = Some v \<Longrightarrow> size v < size_list (size_prod (\<lambda>_. 0) size) m"
  by (induction m) (auto split: if_splits)

lemma json_get_size: "json_get s k = Some v \<Longrightarrow> size v < size s"
  by (cases s) (auto dest: map_of_size)

lemma schema_properties_size:
  assumes "schema_properties s = Some ps"
  shows "size_list (size_prod (\<lambda>_. 0) size) ps < size s"
proof -
  from assms obtain v where "json_get s (lit ''properties'') = Some v" "json_as_object v = Some ps"
    by (auto simp: schema_properties_def bind_eq_Some_conv)
  then show ?thesis using json_get_size[of s "lit ''properties''" v] by (cases v) auto
qed

function validate_value ::
      "number_api \<Rightarrow> json_value \<Rightarrow> json_value \<Rightarrow> ustring \<Rightarrow> schema_error + unit"
  and validate_properties ::
      "number_api \<Rightarrow> (ustring \<times> json_value) list \<Rightarrow> (ustring \<times> json_value) list \<Rightarrow> ustring
        \<Rightarrow> schema_error + unit"
  and validate_items ::
      "number_api \<Rightarrow> json_value \<Rightarrow> nat \<Rightarrow> json_value list \<Rightarrow> ustring \<Rightarrow> schema_error + unit" where
  "validate_value N schema value path =
     (if (case schema_types schema of
            Some types \<Rightarrow> \<not> list_ex (value_matches_type N value) types | None \<Rightarrow> False)
      then schema_fail path
             (lit ''must match type '' @ ujoin (lit '' or '') (the (schema_types schema)))
      else and_then
        (if \<not> has_object_keywords schema then Ok ()
         else case json_as_object value of
                None \<Rightarrow> Ok ()
              | Some members \<Rightarrow>
                  (case missing_key schema members of
                     Some k \<Rightarrow> schema_fail (child_path path k) (lit ''is required'')
                   | None \<Rightarrow>
                       (case forbidden_key schema members of
                          Some k \<Rightarrow>
                            schema_fail (child_path path k) (lit ''is not allowed by additionalProperties'')
                        | None \<Rightarrow>
                            (case schema_properties schema of
                               Some properties \<Rightarrow> validate_properties N properties members path
                             | None \<Rightarrow> Ok ())))) (\<lambda>_. and_then
        (case json_as_array value of
           None \<Rightarrow> Ok ()
         | Some elements \<Rightarrow>
             (case json_get schema (lit ''items'') of
                None \<Rightarrow> Ok ()
              | Some item_schema \<Rightarrow> validate_items N item_schema 0 elements path)) (\<lambda>_.
        validate_numeric_keywords N schema value path)))"
| "validate_properties N [] members path = Ok ()"
| "validate_properties N ((key, property_schema) # properties) members path =
     and_then
       (case map_of members key of
          Some v \<Rightarrow> validate_value N property_schema v (child_path path key)
        | None \<Rightarrow> Ok ())
       (\<lambda>_. validate_properties N properties members path)"
| "validate_items N item_schema index [] path = Ok ()"
| "validate_items N item_schema index (element # elements) path =
     and_then (validate_value N item_schema element (array_item_path path index))
       (\<lambda>_. validate_items N item_schema (Suc index) elements path)"
  by pat_completeness auto
termination
  by (relation "measures
        [\<lambda>x. case x of Inl (N, schema, _) \<Rightarrow> size schema
            | Inr (Inl (N, ps, _)) \<Rightarrow> size_list (size_prod (\<lambda>_. 0) size) ps
            | Inr (Inr (N, schema, _)) \<Rightarrow> size schema,
         \<lambda>x. case x of Inr (Inr (N, schema, i, elements, _)) \<Rightarrow> Suc (length elements) | _ \<Rightarrow> 0]")
     (auto dest: json_get_size schema_properties_size)

declare validate_value.simps [simp del]

definition validate_tool_arguments ::
    "number_api \<Rightarrow> json_value \<Rightarrow> json_value \<Rightarrow> schema_error + unit" where
  "validate_tool_arguments N schema value = validate_value N schema value (lit ''$'')"

section \<open>Executable tools\<close>

datatype tool_progress = SystemMessage ustring | TerminalUpdated terminal_snapshot

datatype 'w tool_run =
    ToolReturns tool_result 'w
  | ToolEmits tool_progress 'w "'w \<Rightarrow> 'w tool_run"

type_synonym 'w permission_handler = "permission_request \<Rightarrow> 'w \<Rightarrow> permission_decision \<times> 'w"

record 'w execution_context =
  ctx_snapshot :: "file_snapshot option"
  ctx_handler :: "'w permission_handler option"

definition context_request_permission ::
    "'w execution_context \<Rightarrow> permission_request \<Rightarrow> 'w \<Rightarrow> permission_decision \<times> 'w" where
  "context_request_permission C q w =
     (case ctx_handler C of
        None \<Rightarrow> (Deny (lit ''Tool permission denied: '' @ def_name (req_definition q)
                        @ lit '' requires approval''), w)
      | Some ask \<Rightarrow> ask q w)"

record 'w tool =
  tool_spec :: tool_definition
  tool_execute :: "invocation \<Rightarrow> 'w execution_context \<Rightarrow> 'w \<Rightarrow> 'w tool_run"
  tool_preview :: "invocation \<Rightarrow> 'w \<Rightarrow> permission_preview option option \<times> 'w"

type_synonym 'w executor = "(ustring \<times> 'w tool) list"

definition executor_insert :: "'w tool \<Rightarrow> 'w executor \<Rightarrow> 'w executor" where
  "executor_insert t ex = bt_insert (def_name (tool_spec t)) t ex"

definition executor_remove :: "ustring \<Rightarrow> 'w executor \<Rightarrow> 'w tool option \<times> 'w executor" where
  "executor_remove n ex = (map_of ex n, bt_remove n ex)"

definition executor_definitions :: "'w executor \<Rightarrow> tool_registry" where
  "executor_definitions ex = foldl (\<lambda>r t. registry_insert (tool_spec t) r) [] (map snd ex)"

definition executor_tools :: "'w executor \<Rightarrow> 'w tool list" where
  "executor_tools ex = map snd ex"

definition executor_filtered :: "(ustring \<Rightarrow> bool) \<Rightarrow> 'w executor \<Rightarrow> 'w executor" where
  "executor_filtered keep ex = filter (\<lambda>(name, tool). keep name) ex"

definition executor_preview ::
    "'w executor \<Rightarrow> invocation \<Rightarrow> 'w \<Rightarrow> permission_preview option option \<times> 'w" where
  "executor_preview ex call w =
     (case map_of ex (inv_name call) of
        None \<Rightarrow> (Some None, w)
      | Some t \<Rightarrow> tool_preview t call w)"

definition execute_with_context ::
    "number_api \<Rightarrow> 'w executor \<Rightarrow> invocation \<Rightarrow> 'w execution_context \<Rightarrow> 'w \<Rightarrow> 'w tool_run" where
  "execute_with_context N ex call C w =
     (case map_of ex (inv_name call) of
        None \<Rightarrow>
          ToolReturns (result_error (inv_id call)
            (lit ''Tool '' @ inv_name call @ lit '' is not registered'')) w
      | Some t \<Rightarrow>
          (case (case def_schema (tool_spec t) of
                   None \<Rightarrow> Ok ()
                 | Some schema \<Rightarrow> validate_tool_arguments N schema (inv_arguments call)) of
             Err e \<Rightarrow>
               ToolReturns (result_error (inv_id call)
                 (lit ''Tool '' @ inv_name call @ lit '' arguments do not match schema: ''
                  @ schema_error_text e)) w
           | Ok _ \<Rightarrow> tool_execute t call C w))"

section \<open>Texts of errors\<close>

record processed_error =
  assistant_message :: ustring
  display_reason :: ustring

type_synonym error_formatter = "ustring \<Rightarrow> ustring \<Rightarrow> processed_error"

definition strip_os_error_suffix :: "ustring \<Rightarrow> ustring" where
  "strip_os_error_suffix t =
     (case urfind t (lit '' (os error '') of
        None \<Rightarrow> t
      | Some index \<Rightarrow>
          if ends_with (drop index t) (lit '')'') then utrim_end (take index t) else t)"

definition default_display_reason :: "ustring \<Rightarrow> ustring \<Rightarrow> ustring" where
  "default_display_reason name raw =
     (let cleaned = strip_os_error_suffix (utrim raw)
      in if cleaned = [] then lit ''Tool failed: '' @ name else lit ''Tool failed: '' @ cleaned)"

definition default_error_formatter :: error_formatter where
  "default_error_formatter name raw =
     (let reason = default_display_reason name raw
      in \<lparr>assistant_message = reason @ lit ''. Hint: Check the tool input and try again.'',
          display_reason = reason\<rparr>)"

section \<open>What a schema accepts\<close>

definition type_accepted :: "number_api \<Rightarrow> json_value \<Rightarrow> json_value \<Rightarrow> bool" where
  "type_accepted N schema value \<longleftrightarrow>
     (\<forall>types. schema_types schema = Some types \<longrightarrow> (\<exists>t\<in>set types. value_matches_type N value t))"

definition required_keys :: "json_value \<Rightarrow> ustring set" where
  "required_keys schema =
     (case Option.bind (json_get schema (lit ''required'')) json_as_array of
        Some required \<Rightarrow> {k. JString k \<in> set required} | None \<Rightarrow> {})"

definition closed_schema :: "json_value \<Rightarrow> bool" where
  "closed_schema schema \<longleftrightarrow>
     Option.bind (json_get schema (lit ''additionalProperties'')) json_as_bool = Some False"

definition properties_of :: "json_value \<Rightarrow> (ustring \<times> json_value) list" where
  "properties_of schema = (case schema_properties schema of Some ps \<Rightarrow> ps | None \<Rightarrow> [])"

definition bound_accepted :: "number_api \<Rightarrow> json_value \<Rightarrow> json_value \<Rightarrow> bool" where
  "bound_accepted N schema value \<longleftrightarrow>
     (\<forall>n m. json_as_number value = Some n \<longrightarrow>
        (Option.bind (json_get schema (lit ''minimum'')) json_as_number = Some m \<longrightarrow> \<not> num_less N n m) \<and>
        (Option.bind (json_get schema (lit ''maximum'')) json_as_number = Some m \<longrightarrow> \<not> num_less N m n))"

text \<open>A value conforms to a schema: one clause per keyword the check knows.\<close>

inductive conforms :: "number_api \<Rightarrow> json_value \<Rightarrow> json_value \<Rightarrow> bool" for N where
  conformsI: "conforms N schema value"
  if "type_accepted N schema value"
    and "bound_accepted N schema value"
    and "\<And>members. json_as_object value = Some members \<Longrightarrow>
           required_keys schema \<subseteq> fst ` set members"
    and "\<And>members. json_as_object value = Some members \<Longrightarrow> closed_schema schema \<Longrightarrow>
           fst ` set members \<subseteq> fst ` set (properties_of schema)"
    and "\<And>members k s v. json_as_object value = Some members \<Longrightarrow>
           (k, s) \<in> set (properties_of schema) \<Longrightarrow> map_of members k = Some v \<Longrightarrow> conforms N s v"
    and "\<And>elements s v. json_as_array value = Some elements \<Longrightarrow>
           json_get schema (lit ''items'') = Some s \<Longrightarrow> v \<in> set elements \<Longrightarrow> conforms N s v"

inductive_cases conformsE: "conforms N schema value"

lemma type_accepted_iff:
  "type_accepted N schema value \<longleftrightarrow>
     (case schema_types schema of Some types \<Rightarrow> list_ex (value_matches_type N value) types | None \<Rightarrow> True)"
  by (auto simp: type_accepted_def list_ex_iff split: option.splits)

lemma json_as_str_Some [simp]: "json_as_str v = Some s \<longleftrightarrow> v = JString s"
  by (cases v) auto

lemma in_filter_map: "y \<in> set (filter_map f xs) \<longleftrightarrow> (\<exists>x\<in>set xs. f x = Some y)"
  by (induction xs) (auto split: option.splits)

lemma missing_key_None:
  "missing_key schema members = None \<longleftrightarrow> required_keys schema \<subseteq> fst ` set members"
  by (auto simp: missing_key_def required_keys_def find_None_iff in_filter_map map_of_eq_None_iff
      subset_iff split: option.splits)

lemma forbidden_key_None:
  "forbidden_key schema members = None \<longleftrightarrow>
     (closed_schema schema \<longrightarrow> fst ` set members \<subseteq> fst ` set (properties_of schema))"
proof (cases "schema_properties schema")
  case None
  then show ?thesis
    by (auto simp: forbidden_key_def closed_schema_def properties_of_def find_None_iff)
next
  case (Some ps)
  then show ?thesis
    by (auto simp: forbidden_key_def closed_schema_def properties_of_def find_None_iff
        map_of_eq_None_iff)
qed

lemma numeric_keywords_Ok:
  "validate_numeric_keywords N schema value path = Ok () \<longleftrightarrow> bound_accepted N schema value"
  by (auto simp: validate_numeric_keywords_def bound_accepted_def schema_fail_def result_iffs
      split: option.splits)

lemma schema_fail_not_Ok [simp]: "schema_fail path message \<noteq> Ok u"
  by (simp add: schema_fail_def)

lemma no_object_keywords:
  "\<not> has_object_keywords schema \<Longrightarrow>
     required_keys schema = {} \<and> \<not> closed_schema schema \<and> properties_of schema = []"
  by (simp add: has_object_keywords_def required_keys_def closed_schema_def properties_of_def
      schema_properties_def)

lemma validate_value_Ok:
  "validate_value N schema value path = Ok () \<longleftrightarrow>
     type_accepted N schema value \<and> bound_accepted N schema value \<and>
     (\<forall>members. json_as_object value = Some members \<longrightarrow>
        missing_key schema members = None \<and> forbidden_key schema members = None \<and>
        validate_properties N (properties_of schema) members path = Ok ()) \<and>
     (\<forall>elements s. json_as_array value = Some elements \<longrightarrow> json_get schema (lit ''items'') = Some s \<longrightarrow>
        validate_items N s 0 elements path = Ok ())"
proof (cases "has_object_keywords schema")
  case True
  then show ?thesis
    by (subst validate_value.simps)
       (auto simp: type_accepted_iff result_iffs numeric_keywords_Ok properties_of_def
         split: option.splits)
next
  case False
  then have "missing_key schema members = None \<and> forbidden_key schema members = None \<and>
      properties_of schema = []" for members
    using no_object_keywords[OF False] by (simp add: missing_key_None forbidden_key_None)
  with False show ?thesis
    by (subst validate_value.simps)
       (auto simp: type_accepted_iff result_iffs numeric_keywords_Ok split: option.splits)
qed

lemma conforms_iff:
  "conforms N schema value \<longleftrightarrow>
     type_accepted N schema value \<and> bound_accepted N schema value \<and>
     (\<forall>members. json_as_object value = Some members \<longrightarrow>
        missing_key schema members = None \<and> forbidden_key schema members = None \<and>
        (\<forall>k s v. (k, s) \<in> set (properties_of schema) \<longrightarrow> map_of members k = Some v \<longrightarrow> conforms N s v)) \<and>
     (\<forall>elements s. json_as_array value = Some elements \<longrightarrow> json_get schema (lit ''items'') = Some s \<longrightarrow>
        (\<forall>v\<in>set elements. conforms N s v))"
  (is "_ \<longleftrightarrow> ?R")
proof
  assume "conforms N schema value"
  then show ?R
    by (rule conformsE) (auto simp: missing_key_None forbidden_key_None)
next
  assume R: ?R
  show "conforms N schema value"
    by (rule conformsI) (use R in \<open>simp add: missing_key_None forbidden_key_None; blast\<close>)+
qed

lemma validate_conforms:
  "validate_value N schema v path = Ok () \<longleftrightarrow> conforms N schema v"
  "validate_properties N ps members path = Ok () \<longleftrightarrow>
     (\<forall>k s v. (k, s) \<in> set ps \<longrightarrow> map_of members k = Some v \<longrightarrow> conforms N s v)"
  "validate_items N item_schema index elements path = Ok () \<longleftrightarrow>
     (\<forall>v\<in>set elements. conforms N item_schema v)"
proof (induction N schema v path and N ps members path and N item_schema index elements path
    rule: validate_value_validate_properties_validate_items.induct)
  case (1 N schema v path)
  let ?object = "\<lambda>members. missing_key schema members = None \<and> forbidden_key schema members = None"
  have object: "validate_properties N (properties_of schema) members path = Ok () \<longleftrightarrow>
      (\<forall>k s u. (k, s) \<in> set (properties_of schema) \<longrightarrow> map_of members k = Some u \<longrightarrow> conforms N s u)"
    if "type_accepted N schema v" "json_as_object v = Some members" "?object members" for members
  proof (cases "schema_properties schema")
    case (Some ps)
    then have "has_object_keywords schema" by (auto simp: has_object_keywords_def schema_properties_def)
    with 1(1) that Some show ?thesis
      by (auto simp: properties_of_def type_accepted_iff split: option.splits)
  qed (simp add: properties_of_def)
  have array: "validate_items N s 0 elements path = Ok () \<longleftrightarrow> (\<forall>u\<in>set elements. conforms N s u)"
    if "type_accepted N schema v" "json_as_array v = Some elements" "json_get schema (lit ''items'') = Some s"
    for elements s
    using 1(2) that by (auto simp: type_accepted_iff split: option.splits)
  show ?case
    unfolding validate_value_Ok conforms_iff[of N schema v] using object array by auto
next
  case (3 N key property_schema properties members path)
  then show ?case by (auto simp: result_iffs split: option.splits)
next
  case (5 N item_schema index element elements path)
  then show ?case by (auto simp: result_iffs)
qed auto

lemma validate_tool_arguments_iff:
  "validate_tool_arguments N schema v = Ok () \<longleftrightarrow> conforms N schema v"
  by (simp add: validate_tool_arguments_def validate_conforms)

section \<open>The registry of executable tools\<close>

definition executor_wf :: "'w executor \<Rightarrow> bool" where
  "executor_wf ex \<longleftrightarrow> bt_map ex \<and> (\<forall>(name, t)\<in>set ex. def_name (tool_spec t) = name)"

lemma executor_wf_Nil [simp]: "executor_wf []"
  by (simp add: executor_wf_def)

lemma set_bt_insert: "set (bt_insert k v m) = insert (k, v) {kv \<in> set m. fst kv \<noteq> k}"
  by (auto simp: bt_insert_def set_insort_key)

lemma executor_wf_insert: "executor_wf ex \<Longrightarrow> executor_wf (executor_insert t ex)"
  by (auto simp: executor_wf_def executor_insert_def set_bt_insert)

lemma executor_wf_remove: "executor_wf ex \<Longrightarrow> executor_wf (snd (executor_remove n ex))"
  by (auto simp: executor_wf_def executor_remove_def bt_remove_def)

lemma executor_wf_filtered: "executor_wf ex \<Longrightarrow> executor_wf (executor_filtered keep ex)"
  by (auto simp: executor_wf_def executor_filtered_def)

lemma executor_filtered_lookup:
  "map_of (executor_filtered keep ex) n = (if keep n then map_of ex n else None)"
  using map_of_filter_keys[of keep ex n] by (simp add: executor_filtered_def case_prod_beta')

lemma registry_insert_lookup:
  "registry_definition (registry_insert d r) n = (if n = def_name d then Some d else registry_definition r n)"
  by (simp add: registry_definition_def registry_insert_def map_of_bt_insert)

lemma registry_fold_lookup:
  "distinct (map (\<lambda>t. def_name (tool_spec t)) ts) \<Longrightarrow>
   registry_definition (foldl (\<lambda>r t. registry_insert (tool_spec t) r) r0 ts) n =
     (case map_of (map (\<lambda>t. (def_name (tool_spec t), t)) ts) n of
        Some t \<Rightarrow> Some (tool_spec t) | None \<Rightarrow> registry_definition r0 n)"
  by (induction ts arbitrary: r0) (auto simp: registry_insert_lookup map_of_eq_None_iff image_iff
      split: option.splits dest: map_of_SomeD)

lemma executor_keys:
  "executor_wf ex \<Longrightarrow> map (\<lambda>t. (def_name (tool_spec t), t)) (map snd ex) = ex"
  by (auto simp: executor_wf_def intro!: map_idI)

lemma executor_definitions_lookup:
  assumes "executor_wf ex"
  shows "registry_definition (executor_definitions ex) n = map_option tool_spec (map_of ex n)"
proof -
  have keys: "map (\<lambda>t. def_name (tool_spec t)) (map snd ex) = map fst ex"
    using assms by (auto simp: executor_wf_def)
  have "distinct (map (\<lambda>t. def_name (tool_spec t)) (map snd ex))"
    unfolding keys using assms bt_map_distinct[of ex] by (simp add: executor_wf_def)
  from registry_fold_lookup[OF this, of "[]" n] show ?thesis
    unfolding executor_keys[OF assms] executor_definitions_def
    by (simp add: registry_definition_def split: option.splits)
qed

text \<open>
  What the tool loop relies on.  A host publishes definitions and runs calls; a call of an unknown
  tool, or one whose arguments do not conform, is answered with an error and touches nothing.
\<close>

locale tool_host =
  fixes valid :: "'e \<Rightarrow> bool"
    and published :: "'e \<Rightarrow> ustring \<Rightarrow> tool_definition option"
    and accepts :: "json_value \<Rightarrow> json_value \<Rightarrow> bool"
    and run_call :: "'e \<Rightarrow> invocation \<Rightarrow> 'w execution_context \<Rightarrow> 'w \<Rightarrow> 'w tool_run"
  assumes unknown_is_error:
      "valid e \<Longrightarrow> published e (inv_name c) = None \<Longrightarrow>
         \<exists>m. \<forall>C w. run_call e c C w = ToolReturns (result_error (inv_id c) m) w"
    and nonconforming_is_error:
      "valid e \<Longrightarrow> published e (inv_name c) = Some d \<Longrightarrow> def_schema d = Some s \<Longrightarrow>
         \<not> accepts s (inv_arguments c) \<Longrightarrow>
         \<exists>m. \<forall>C w. run_call e c C w = ToolReturns (result_error (inv_id c) m) w"
begin

definition refused :: "'e \<Rightarrow> invocation \<Rightarrow> bool" where
  "refused e c \<longleftrightarrow>
     (case published e (inv_name c) of
        None \<Rightarrow> True
      | Some d \<Rightarrow> (case def_schema d of None \<Rightarrow> False | Some s \<Rightarrow> \<not> accepts s (inv_arguments c)))"

lemma refused_touches_nothing:
  assumes "valid e" and "refused e c"
  shows "\<exists>m. \<forall>C w. run_call e c C w = ToolReturns (result_error (inv_id c) m) w"
  using assms unknown_is_error nonconforming_is_error
  by (auto simp: refused_def split: option.splits)

end

interpretation registry: tool_host executor_wf "\<lambda>ex. registry_definition (executor_definitions ex)"
    "conforms N" "execute_with_context N"
  for N
proof
  fix e :: "'w executor" and c :: invocation
  assume "executor_wf e" and "registry_definition (executor_definitions e) (inv_name c) = None"
  then show "\<exists>m. \<forall>C w. execute_with_context N e c C w = ToolReturns (result_error (inv_id c) m) w"
    by (auto simp: execute_with_context_def executor_definitions_lookup)
next
  fix e :: "'w executor" and c :: invocation and d :: tool_definition and s
  assume a: "executor_wf e" "registry_definition (executor_definitions e) (inv_name c) = Some d"
    "def_schema d = Some s" "\<not> conforms N s (inv_arguments c)"
  then obtain err where "validate_tool_arguments N s (inv_arguments c) = Err err"
    using validate_tool_arguments_iff[of N s "inv_arguments c"]
    by (cases "validate_tool_arguments N s (inv_arguments c)") auto
  with a show "\<exists>m. \<forall>C w. execute_with_context N e c C w = ToolReturns (result_error (inv_id c) m) w"
    by (auto simp: execute_with_context_def executor_definitions_lookup)
qed

lemma execute_with_context_runs:
  assumes "map_of ex (inv_name c) = Some t"
    and "\<And>s. def_schema (tool_spec t) = Some s \<Longrightarrow> conforms N s (inv_arguments c)"
  shows "execute_with_context N ex c C w = tool_execute t c C w"
proof (cases "def_schema (tool_spec t)")
  case None
  with assms(1) show ?thesis by (simp add: execute_with_context_def)
next
  case (Some s)
  with assms(2) have "validate_tool_arguments N s (inv_arguments c) = Ok ()"
    by (simp add: validate_tool_arguments_iff)
  with assms(1) Some show ?thesis by (simp add: execute_with_context_def)
qed

lemma execute_with_context_cases:
  obtains (refused) m where "execute_with_context N ex c C w = ToolReturns (result_error (inv_id c) m) w"
  | (runs) t where "map_of ex (inv_name c) = Some t"
      "execute_with_context N ex c C w = tool_execute t c C w"
proof (cases "map_of ex (inv_name c)")
  case None
  with refused show thesis by (simp add: execute_with_context_def)
next
  case (Some t)
  show thesis
  proof (cases "\<exists>s e. def_schema (tool_spec t) = Some s \<and>
      validate_tool_arguments N s (inv_arguments c) = Err e")
    case True
    with Some refused show thesis by (auto simp: execute_with_context_def)
  next
    case False
    with Some have "execute_with_context N ex c C w = tool_execute t c C w"
      by (auto simp: execute_with_context_def split: option.splits sum.splits)
    with Some runs show thesis by blast
  qed
qed

section \<open>Texts without the suffix of the operating system\<close>

lemma urfind_Some: "urfind s p = Some i \<Longrightarrow> occurs_at s p i"
proof (induction s arbitrary: i)
  case (Cons c cs)
  show ?case
  proof (cases "urfind cs p")
    case None
    with Cons.prems have "i = 0" "starts_with (c # cs) p" by (auto split: if_splits)
    moreover from this obtain zs where "c # cs = p @ zs" by (auto simp: starts_with_prefix prefix_def)
    ultimately show ?thesis by (simp add: occurs_at_def flip: append_eq_conv_conj)
  next
    case (Some j)
    with Cons.prems have "i = Suc j" by simp
    with Cons.IH[OF Some] show ?thesis by (simp add: occurs_at_def)
  qed
qed (auto simp: occurs_at_def split: if_splits)

lemma strip_os_error_suffix_prefix: "prefix (strip_os_error_suffix t) t"
proof -
  have "prefix (utrim_end s) s" for s
    using suffix_dropWhile[of is_whitespace "rev s"] by (simp add: utrim_end_def suffix_to_prefix)
  then have "prefix (utrim_end (take n t)) t" for n
    by (rule prefix_order.trans) (rule take_is_prefix)
  then show ?thesis by (auto simp: strip_os_error_suffix_def split: option.splits)
qed

lemma strip_os_error_suffix_plain: "\<not> contains t (lit '' (os error '') \<Longrightarrow> strip_os_error_suffix t = t"
proof -
  assume no: "\<not> contains t (lit '' (os error '')"
  have "urfind t (lit '' (os error '') = None"
  proof (rule ccontr)
    assume "urfind t (lit '' (os error '') \<noteq> None"
    then obtain i where "occurs_at t (lit '' (os error '') i" using urfind_Some by fastforce
    then have "take (length (lit '' (os error '')) (drop i t) = lit '' (os error ''" "i \<le> length t"
      by (auto simp: occurs_at_def)
    then have "ufind t (lit '' (os error '') \<noteq> None" using ufind_None by blast
    with no show False by (simp add: contains_def)
  qed
  then show ?thesis by (simp add: strip_os_error_suffix_def)
qed

end
