(* ===== verification/Tool_Activity.thy ===== *)
theory Tool_Activity
  imports Tool_Registry
begin

text \<open>
  What the terminal shows of a tool call, \<^verbatim>\<open>tool-loop-runtime/src/activity.rs\<close>: the activity that
  starts with a call, the update its result makes, and the preview of a permission request.  The
  error text of \<^verbatim>\<open>serde_json\<close> on arguments it cannot parse is the argument \<open>parse_error\<close>.
\<close>

record activity_update =
  upd_id :: ustring
  upd_title :: "ustring option"
  upd_kind :: "tool_kind option"
  upd_status :: "activity_status option"
  upd_content :: "activity_content list option"
  upd_locations :: "activity_location list option"
  upd_raw_input :: "json_value option"
  upd_raw_output :: "json_value option"

definition raw_value_of_text :: "json_api \<Rightarrow> ustring \<Rightarrow> json_value" where
  "raw_value_of_text J s = (case json_parse J s of Some v \<Rightarrow> v | None \<Rightarrow> JString s)"

text \<open>\<^verbatim>\<open>provider_protocol::ToolCall::parsed_arguments_value\<close>.\<close>

definition arguments_json :: "tool_call \<Rightarrow> ustring" where
  "arguments_json call = (if utrim (arguments call) = [] then lit ''{}'' else arguments call)"

definition arguments_error_text :: "(ustring \<Rightarrow> ustring) \<Rightarrow> tool_call \<Rightarrow> ustring" where
  "arguments_error_text parse_error call =
     lit ''failed to parse arguments for tool `'' @ tool_name call @ lit ''`: ''
     @ parse_error (arguments_json call)"

definition parsed_arguments_value ::
    "json_api \<Rightarrow> (ustring \<Rightarrow> ustring) \<Rightarrow> tool_call \<Rightarrow> ustring + json_value" where
  "parsed_arguments_value J parse_error call =
     ok_or (arguments_error_text parse_error call) (json_parse J (arguments_json call))"

datatype parsed_arguments = ValidArguments json_value | InvalidArguments ustring ustring

definition arguments_from_call ::
    "json_api \<Rightarrow> (ustring \<Rightarrow> ustring) \<Rightarrow> tool_call \<Rightarrow> parsed_arguments" where
  "arguments_from_call J parse_error call =
     (case parsed_arguments_value J parse_error call of
        Inr v \<Rightarrow> ValidArguments v
      | Inl e \<Rightarrow> InvalidArguments (arguments call) e)"

fun arguments_value :: "parsed_arguments \<Rightarrow> json_value" where
  "arguments_value (ValidArguments v) = v"
| "arguments_value (InvalidArguments _ _) = JObject []"

definition tool_input_summary :: "json_api \<Rightarrow> json_value \<Rightarrow> ustring" where
  "tool_input_summary J v =
     (if v = JNull then lit ''{}''
      else case json_pretty J v of Some s \<Rightarrow> s | None \<Rightarrow> json_compact J v)"

fun input_summary :: "json_api \<Rightarrow> parsed_arguments \<Rightarrow> ustring" where
  "input_summary J (ValidArguments v) = tool_input_summary J v"
| "input_summary J (InvalidArguments raw e) = lit ''[invalid JSON] '' @ e @ lit ''; raw: '' @ raw"

definition runtime_kind_for :: "tool_definition option \<Rightarrow> tool_kind" where
  "runtime_kind_for d = (case d of Some d \<Rightarrow> def_kind d | None \<Rightarrow> Other)"

text \<open>A string argument that is not blank, trimmed.\<close>

definition shown_argument :: "json_value \<Rightarrow> ustring \<Rightarrow> ustring option" where
  "shown_argument v key =
     (case json_get_str v key of
        Some s \<Rightarrow> if utrim s = [] then None else Some (utrim s)
      | None \<Rightarrow> None)"

definition tool_title_for :: "ustring \<Rightarrow> tool_definition option \<Rightarrow> json_value \<Rightarrow> ustring" where
  "tool_title_for name d v =
     (let base = (case Option.bind d def_label of Some l \<Rightarrow> l | None \<Rightarrow> name)
      in case shown_argument v (lit ''path'') of
           Some p \<Rightarrow> base @ lit '' '' @ p
         | None \<Rightarrow>
             (case shown_argument v (lit ''command'') of
                Some c \<Rightarrow> base @ lit '' '' @ c
              | None \<Rightarrow> base))"

definition tool_locations_for :: "json_value \<Rightarrow> activity_location list" where
  "tool_locations_for v =
     (case shown_argument v (lit ''path'') of
        Some p \<Rightarrow> [\<lparr>loc_path = p, loc_line = None\<rparr>]
      | None \<Rightarrow> [])"

definition activity_from_call ::
    "json_api \<Rightarrow> (ustring \<Rightarrow> ustring) \<Rightarrow> tool_call \<Rightarrow> tool_registry \<Rightarrow> tool_activity" where
  "activity_from_call J parse_error call defs =
     (let d = registry_definition defs (tool_name call);
          parsed = arguments_from_call J parse_error call;
          v = arguments_value parsed
      in \<lparr>activity_id = call_id call,
          activity_title = tool_title_for (tool_name call) d v,
          activity_kind = runtime_kind_for d,
          activity_status = InProgress,
          activity_content =
            (if runtime_kind_for d = Execute then [ActTerminal (call_id call)]
             else [ActText (input_summary J parsed)]),
          locations = tool_locations_for v,
          raw_input = Some (raw_value_of_text J (arguments call)),
          raw_output = None\<rparr>)"

definition diff_content_from_tool_result :: "json_value \<Rightarrow> tool_result \<Rightarrow> activity_content option" where
  "diff_content_from_tool_result v r =
     (case res_details r of
        None \<Rightarrow> None
      | Some details \<Rightarrow>
          (case (or_else (json_get_str details (lit ''path'')) (json_get_str v (lit ''path'')),
                 json_get_str details (lit ''new_text'')) of
             (Some p, Some new_text) \<Rightarrow>
               Some (ActDiff p (json_get_str details (lit ''old_text'')) new_text
                 (Option.bind (json_get details (lit ''preview_truncated'')) json_as_bool = Some True))
           | _ \<Rightarrow> None))"

fun result_content_activity :: "result_content \<Rightarrow> activity_content" where
  "result_content_activity (ResultText t) = ActText t"
| "result_content_activity (ResultImage _ mime uri _) = ActImage mime uri"

definition activity_content_for_result ::
    "json_value \<Rightarrow> tool_result \<Rightarrow> tool_definition option \<Rightarrow> activity_content list" where
  "activity_content_for_result v r d =
     (case (if runtime_kind_for d = Edit \<or> runtime_kind_for d = Write
            then diff_content_from_tool_result v r else None) of
        Some c \<Rightarrow> [c]
      | None \<Rightarrow>
          (case res_display r of
             Some t \<Rightarrow> [ActText t]
           | None \<Rightarrow>
               (let content = map result_content_activity (res_content r)
                in if content = [] then [ActText []] else content)))"

definition update_from_result ::
    "json_api \<Rightarrow> (ustring \<Rightarrow> ustring) \<Rightarrow> tool_call \<Rightarrow> tool_result \<Rightarrow> processed_error option
      \<Rightarrow> tool_registry \<Rightarrow> activity_update" where
  "update_from_result J parse_error call r processed defs =
     (let d = registry_definition defs (tool_name call);
          v = arguments_value (arguments_from_call J parse_error call)
      in \<lparr>upd_id = call_id call,
          upd_title = Some (tool_title_for (tool_name call) d v),
          upd_kind = Some (runtime_kind_for d),
          upd_status = Some (if processed \<noteq> None \<or> is_error r then Failed else Completed),
          upd_content = Some (case processed of
             Some p \<Rightarrow> [ActText (lit ''Failed: '' @ display_reason p)]
           | None \<Rightarrow> activity_content_for_result v r d),
          upd_locations = Some (tool_locations_for v),
          upd_raw_input =
            (if processed = None then Some (raw_value_of_text J (arguments call)) else None),
          upd_raw_output =
            (if processed = None
             then Some (tool_result_raw_value (result_text r) (res_display r) (res_details r))
             else None)\<rparr>)"

definition update_from_permission_request ::
    "json_api \<Rightarrow> ustring \<Rightarrow> permission_request \<Rightarrow> activity_update" where
  "update_from_permission_request J shown_id q =
     (let v = inv_arguments (req_call q); d = Some (req_definition q)
      in \<lparr>upd_id = shown_id,
          upd_title = Some (tool_title_for (inv_name (req_call q)) d v),
          upd_kind = Some (runtime_kind_for d),
          upd_status = Some activity_status.Pending,
          upd_content = Some [case req_preview q of
             None \<Rightarrow> ActText (tool_input_summary J v)
           | Some p \<Rightarrow> ActDiff (prev_path p) (prev_old p) (prev_new p) (prev_truncated p)],
          upd_locations = Some (tool_locations_for v),
          upd_raw_input = Some v,
          upd_raw_output = None\<rparr>)"

section \<open>Updates belong to their call\<close>

lemma activity_and_update_agree:
  "upd_id (update_from_result J pe call r processed defs) = activity_id (activity_from_call J pe call defs)"
  "upd_title (update_from_result J pe call r processed defs) =
     Some (activity_title (activity_from_call J pe call defs))"
  "upd_kind (update_from_result J pe call r processed defs) =
     Some (activity_kind (activity_from_call J pe call defs))"
  "upd_locations (update_from_result J pe call r processed defs) =
     Some (locations (activity_from_call J pe call defs))"
  by (simp_all add: update_from_result_def activity_from_call_def Let_def)

lemma update_id [simp]: "upd_id (update_from_result J pe call r processed defs) = call_id call"
  by (simp add: update_from_result_def Let_def)

lemma failed_update_hides_output:
  assumes "processed = Some p"
  shows "upd_content (update_from_result J pe call r processed defs) = Some [ActText (lit ''Failed: '' @ display_reason p)]"
    and "upd_raw_output (update_from_result J pe call r processed defs) = None"
    and "upd_status (update_from_result J pe call r processed defs) = Some Failed"
  by (simp_all add: assms update_from_result_def Let_def)

end
