(* ===== verification/Turn_State.thy ===== *)
theory Turn_State
  imports Token_Count Tool_Activity
begin

text \<open>
  One request to the provider: what is streamed (\<^verbatim>\<open>provider-protocol/src/stream\<close>, \<^verbatim>\<open>prompt\<close>), what is
  reported while it runs (\<^verbatim>\<open>tool-loop-runtime/src/runtime/types.rs\<close>) and the bookkeeping of tokens,
  durations and reasoning (\<^verbatim>\<open>runtime/state.rs\<close>).  The calls of \<^verbatim>\<open>on_progress\<close> are collected, in order, in the
  field \<open>emitted\<close>.  A fresh token progress takes the time from the system clock, which nobody reads
  before its first snapshot; it is 0 here.
\<close>

section \<open>Requests, completions and events of a stream\<close>

datatype finish_reason = StopReason | ToolCallsReason | LengthReason | ContentFilterReason
  | ErrorReason | OtherReason ustring

definition is_tool_call :: "finish_reason \<Rightarrow> bool" where
  "is_tool_call r \<longleftrightarrow> r = ToolCallsReason"

record token_usage =
  input_tokens :: "nat option"
  output_tokens :: "nat option"
  usage_total :: "nat option"

record prompt_completion =
  completion_items :: "conversation_item list"
  finish_reason :: finish_reason
  usage :: "token_usage option"

record provider_tool =
  ptool_name :: ustring
  ptool_description :: ustring
  ptool_schema :: json_value

record 'o prompt_request =
  req_model :: ustring
  req_items :: "conversation_item list"
  req_tools :: "provider_tool list"
  req_options :: 'o

datatype provider_error =
    TransportError ustring
  | ProtocolError ustring
  | ProviderFailure "nat option" ustring

datatype stream_event =
    TurnStarted
  | TextDelta ustring
  | StreamReasoning ustring
  | ToolCallStarted nat ustring ustring
  | ToolCallArgumentsDelta nat ustring
  | ToolCallCompleted nat tool_call
  | UsageUpdated token_usage
  | TurnCompleted prompt_completion

section \<open>Progress of the loop\<close>

datatype loop_progress =
    ProgressMessage ustring
  | ProviderTurnStarted
  | ProviderContextItem conversation_item
  | OutputTokens nat
  | InputTokens nat
  | Thinking bool
  | AssistantDelta ustring
  | ReasoningDelta ustring
  | ToolActivityStarted tool_activity
  | ToolActivityUpdated activity_update
  | ProgressTerminal terminal_snapshot

record request_metrics =
  latency :: nat
  metric_tokens :: nat
  metric_duration :: nat

record loop_response =
  response_items :: "conversation_item list"
  reasoning_duration :: "nat option"

record loop_completion =
  response :: loop_response
  metrics :: "request_metrics option"
  upstream_tokens :: "nat option"

section \<open>The state of a request\<close>

record turn_state =
  model_id :: ustring
  reasoning_content :: ustring
  output_progress :: token_progress
  llm_output_progress :: token_progress
  input_progress :: token_progress
  is_thinking :: bool
  reasoning_started_at :: "nat option"
  reasoning_finished_at :: "nat option"
  request_started_at :: "nat option"
  first_token_at :: "nat option"
  provider_turn_started_at :: "nat option"
  generation_started_at :: "nat option"
  llm_generation_duration :: nat
  provider_output_tokens :: "nat option"
  provider_context_tokens :: "nat option"
  upstream_context_tokens :: "nat option"
  llm_output_tokens_total :: nat
  terminal_output_by_id :: "(ustring \<times> ustring) list"
  tool_call_ids_by_index :: "(nat \<times> ustring) list"
  argument_output_by_index :: "(nat \<times> ustring) list"
  argument_output_by_id :: "(ustring \<times> ustring) list"
  emitted :: "loop_progress list"

definition new_turn_state :: "tokenizer \<Rightarrow> ustring \<Rightarrow> turn_state" where
  "new_turn_state T model =
     \<lparr>model_id = model, reasoning_content = [],
      output_progress = new_progress T model 0, llm_output_progress = new_progress T model 0,
      input_progress = new_progress T model 0, is_thinking = False, reasoning_started_at = None,
      reasoning_finished_at = None, request_started_at = None, first_token_at = None,
      provider_turn_started_at = None, generation_started_at = None, llm_generation_duration = 0,
      provider_output_tokens = None, provider_context_tokens = None, upstream_context_tokens = None,
      llm_output_tokens_total = 0, terminal_output_by_id = [], tool_call_ids_by_index = [],
      argument_output_by_index = [], argument_output_by_id = [], emitted = []\<rparr>"

definition emit :: "loop_progress \<Rightarrow> turn_state \<Rightarrow> turn_state" where
  "emit p s = s\<lparr>emitted := emitted s @ [p]\<rparr>"

definition get_or_insert :: "'a \<Rightarrow> 'a option \<Rightarrow> 'a option" where
  "get_or_insert a x = (case x of None \<Rightarrow> Some a | Some b \<Rightarrow> Some b)"

definition to_usize :: "nat \<Rightarrow> nat" where
  "to_usize n = (if n \<le> usize_max then n else usize_max)"

text \<open>\<^verbatim>\<open>Duration::MAX\<close> in nanoseconds.\<close>

definition duration_max :: nat where "duration_max = (2 ^ 64 - 1) * 10 ^ 9 + 999999999"

definition sat_add_duration :: "nat \<Rightarrow> nat \<Rightarrow> nat" where
  "sat_add_duration a b = min duration_max (a + b)"

definition mark_request_started :: "nat \<Rightarrow> turn_state \<Rightarrow> turn_state" where
  "mark_request_started now s = s\<lparr>request_started_at := get_or_insert now (request_started_at s)\<rparr>"

definition start_provider_turn :: "tokenizer \<Rightarrow> nat \<Rightarrow> turn_state \<Rightarrow> turn_state" where
  "start_provider_turn T now s =
     (mark_request_started now s)
       \<lparr>provider_turn_started_at := Some now, generation_started_at := None,
        provider_output_tokens := None, provider_context_tokens := None,
        llm_output_progress := new_progress T (model_id s) 0\<rparr>"

definition opt_max :: "nat option \<Rightarrow> nat option \<Rightarrow> nat option" where
  "opt_max a b =
     (case (a, b) of (Some x, Some y) \<Rightarrow> Some (max x y) | (Some x, None) \<Rightarrow> Some x | (None, _) \<Rightarrow> b)"

definition context_tokens_from_usage :: "token_usage \<Rightarrow> nat option" where
  "context_tokens_from_usage u =
     map_option to_usize
       (or_else (or_else (usage_total u)
          (case (input_tokens u, output_tokens u) of
             (Some i, Some out) \<Rightarrow> Some (min (2 ^ 64 - 1) (i + out)) | _ \<Rightarrow> None))
          (input_tokens u))"

definition record_provider_usage :: "token_usage \<Rightarrow> turn_state \<Rightarrow> turn_state" where
  "record_provider_usage u s =
     s\<lparr>provider_output_tokens := opt_max (provider_output_tokens s) (map_option to_usize (output_tokens u)),
       provider_context_tokens := opt_max (provider_context_tokens s) (context_tokens_from_usage u)\<rparr>"

definition provider_turn_has_output :: "turn_state \<Rightarrow> prompt_completion \<Rightarrow> nat option \<Rightarrow> bool" where
  "provider_turn_has_output s c tokens \<longleftrightarrow>
     generation_started_at s \<noteq> None
     \<or> (case tokens of Some n \<Rightarrow> 0 < n | None \<Rightarrow> False)
     \<or> list_ex (\<lambda>i. text_content i \<noteq> []) (completion_items c)
     \<or> list_ex (\<lambda>i. tool_calls i \<noteq> []) (completion_items c)"

definition complete_provider_turn ::
    "tokenizer \<Rightarrow> prompt_completion \<Rightarrow> nat \<Rightarrow> turn_state \<Rightarrow> turn_state" where
  "complete_provider_turn T c now s0 =
     (let s = (case usage c of Some u \<Rightarrow> record_provider_usage u s0 | None \<Rightarrow> s0);
          reported = map_option to_usize (Option.bind (usage c) output_tokens);
          turn_tokens = opt_max (provider_output_tokens s) reported;
          flushed = snd (flush_progress T now (llm_output_progress s));
          total = sat_add_usize (llm_output_tokens_total s)
                    (case turn_tokens of Some n \<Rightarrow> n | None \<Rightarrow> total_tokens flushed);
          has_output = provider_turn_has_output s c turn_tokens
      in s\<lparr>llm_output_progress := flushed,
           llm_output_tokens_total := total,
           first_token_at := (if has_output then get_or_insert now (first_token_at s) else first_token_at s),
           llm_generation_duration :=
             (case generation_started_at s of
                Some t \<Rightarrow> if has_output then sat_add_duration (llm_generation_duration s) (now - t)
                          else llm_generation_duration s
              | None \<Rightarrow> llm_generation_duration s),
           provider_turn_started_at := None, generation_started_at := None,
           upstream_context_tokens := provider_context_tokens s,
           provider_output_tokens := None, provider_context_tokens := None\<rparr>)"

subsection \<open>Streamed output\<close>

definition mark_llm_output_started :: "nat \<Rightarrow> turn_state \<Rightarrow> turn_state" where
  "mark_llm_output_started now s =
     s\<lparr>first_token_at := get_or_insert now (first_token_at s),
       generation_started_at := get_or_insert now (generation_started_at s)\<rparr>"

definition stop_reasoning_for_generated_output :: "nat \<Rightarrow> turn_state \<Rightarrow> turn_state" where
  "stop_reasoning_for_generated_output now s =
     (if is_thinking s
      then emit (Thinking False) (s\<lparr>is_thinking := False, reasoning_finished_at := Some now\<rparr>)
      else s)"

definition mark_generated_output_started :: "nat \<Rightarrow> turn_state \<Rightarrow> turn_state" where
  "mark_generated_output_started now s =
     stop_reasoning_for_generated_output now (mark_llm_output_started now s)"

definition mark_completed_generated_output_observed :: "nat \<Rightarrow> turn_state \<Rightarrow> turn_state" where
  "mark_completed_generated_output_observed now s =
     stop_reasoning_for_generated_output now
       (s\<lparr>first_token_at := get_or_insert now (first_token_at s)\<rparr>)"

definition observe_llm_output_delta :: "tokenizer \<Rightarrow> ustring \<Rightarrow> nat \<Rightarrow> turn_state \<Rightarrow> turn_state" where
  "observe_llm_output_delta T content now s =
     s\<lparr>llm_output_progress := snd (observe_delta T content now (llm_output_progress s))\<rparr>"

definition observe_visible_output_delta :: "tokenizer \<Rightarrow> ustring \<Rightarrow> nat \<Rightarrow> turn_state \<Rightarrow> turn_state" where
  "observe_visible_output_delta T content now s =
     (case observe_delta T content now (output_progress s) of
        (Some n, p) \<Rightarrow> emit (OutputTokens n) (s\<lparr>output_progress := p\<rparr>)
      | (None, p) \<Rightarrow> s\<lparr>output_progress := p\<rparr>)"

definition observe_provider_output_delta :: "tokenizer \<Rightarrow> ustring \<Rightarrow> nat \<Rightarrow> turn_state \<Rightarrow> turn_state" where
  "observe_provider_output_delta T content now s =
     observe_visible_output_delta T content now (observe_llm_output_delta T content now s)"

definition observe_content_chunk :: "tokenizer \<Rightarrow> ustring \<Rightarrow> nat \<Rightarrow> turn_state \<Rightarrow> turn_state" where
  "observe_content_chunk T content now s =
     (if content = [] then s
      else observe_provider_output_delta T content now
             (emit (AssistantDelta content) (mark_generated_output_started now s)))"

definition observe_reasoning_chunk :: "tokenizer \<Rightarrow> ustring \<Rightarrow> nat \<Rightarrow> turn_state \<Rightarrow> turn_state" where
  "observe_reasoning_chunk T content now s0 =
     (if content = [] then s0
      else let s1 = mark_llm_output_started now s0;
               s2 = (if is_thinking s1 then s1
                     else emit (Thinking True)
                       (s1\<lparr>is_thinking := True,
                          reasoning_started_at := get_or_insert now (reasoning_started_at s1)\<rparr>));
               s3 = s2\<lparr>reasoning_finished_at := Some now,
                       reasoning_content := reasoning_content s2 @ content\<rparr>
           in observe_provider_output_delta T content now (emit (ReasoningDelta content) s3))"

definition observe_tool_call_started :: "nat \<Rightarrow> ustring \<Rightarrow> turn_state \<Rightarrow> turn_state" where
  "observe_tool_call_started index cid s =
     (let s1 = s\<lparr>tool_call_ids_by_index := AList.update index cid (tool_call_ids_by_index s)\<rparr>
      in case map_of (argument_output_by_index s1) index of
           Some out \<Rightarrow> s1\<lparr>argument_output_by_id := AList.update cid out (argument_output_by_id s1)\<rparr>
         | None \<Rightarrow> s1)"

definition observe_tool_call_arguments_delta ::
    "tokenizer \<Rightarrow> nat \<Rightarrow> ustring \<Rightarrow> nat \<Rightarrow> turn_state \<Rightarrow> turn_state" where
  "observe_tool_call_arguments_delta T index delta now s0 =
     (if delta = [] then s0
      else let s1 = mark_generated_output_started now s0;
               out = get_or_empty (argument_output_by_index s1) index @ delta;
               s2 = s1\<lparr>argument_output_by_index := AList.update index out (argument_output_by_index s1)\<rparr>;
               s3 = (case map_of (tool_call_ids_by_index s2) index of
                       Some cid \<Rightarrow>
                         s2\<lparr>argument_output_by_id := AList.update cid out (argument_output_by_id s2)\<rparr>
                     | None \<Rightarrow> s2)
           in observe_provider_output_delta T delta now s3)"

definition observe_tool_call_completed ::
    "tokenizer \<Rightarrow> nat \<Rightarrow> tool_call \<Rightarrow> nat \<Rightarrow> turn_state \<Rightarrow> turn_state" where
  "observe_tool_call_completed T index call now s0 =
     (let s = s0\<lparr>tool_call_ids_by_index := AList.update index (call_id call) (tool_call_ids_by_index s0)\<rparr>
      in case map_of (argument_output_by_id s) (call_id call) of
           Some out \<Rightarrow>
             (case map_of (argument_output_by_index s) index of
                Some _ \<Rightarrow> s
              | None \<Rightarrow> s\<lparr>argument_output_by_index := AList.update index out (argument_output_by_index s)\<rparr>)
         | None \<Rightarrow>
             (case map_of (argument_output_by_index s) index of
                Some out \<Rightarrow>
                  s\<lparr>argument_output_by_id := AList.update (call_id call) out (argument_output_by_id s)\<rparr>
              | None \<Rightarrow>
                  (let out = arguments call
                   in if out = [] then s
                      else let s1 = mark_completed_generated_output_observed now s;
                               s2 = s1\<lparr>argument_output_by_index :=
                                         AList.update index out (argument_output_by_index s1),
                                       argument_output_by_id :=
                                         AList.update (call_id call) out (argument_output_by_id s1)\<rparr>
                           in observe_provider_output_delta T out now s2)))"

definition extract_tool_calls :: "conversation_item list \<Rightarrow> tool_call list" where
  "extract_tool_calls xs = concat (map tool_calls xs)"

definition observe_response_tool_calls_completed ::
    "tokenizer \<Rightarrow> prompt_completion \<Rightarrow> nat \<Rightarrow> turn_state \<Rightarrow> turn_state" where
  "observe_response_tool_calls_completed T c now s =
     (let calls = concat (map tool_calls (completion_items c))
      in foldl (\<lambda>s (index, call). observe_tool_call_completed T index call now s) s
           (zip [0..<length calls] calls))"

subsection \<open>Tool output\<close>

definition estimate_content_blocks_tokens :: "tokenizer \<Rightarrow> ustring \<Rightarrow> content_block list \<Rightarrow> nat" where
  "estimate_content_blocks_tokens T e blocks =
     sum_list (map (\<lambda>block. case block of
         Text t \<Rightarrow> estimate_text T e t
       | ResourceText _ _ t \<Rightarrow> estimate_text T e t
       | Image _ _ _ _ \<Rightarrow> estimated_image_tokens
       | Audio d _ _ \<Rightarrow> estimate_text T e d
       | Document d _ _ _ \<Rightarrow> estimate_text T e d
       | ResourceLink _ _ _ _ \<Rightarrow> estimate_text T e (summary_text_from_blocks [block])
       | ToolCallBlock call \<Rightarrow>
           sat_add_usize (estimate_text T e (tool_name call)) (estimate_text T e (arguments call))) blocks)"

definition estimate_provider_item_input_tokens :: "tokenizer \<Rightarrow> ustring \<Rightarrow> conversation_item \<Rightarrow> nat" where
  "estimate_provider_item_input_tokens T model item =
     (let e = encoding_name_for_model T model
      in case item of
           Message _ content \<Rightarrow> estimate_content_blocks_tokens T e content
         | ToolResult _ content _ \<Rightarrow> estimate_content_blocks_tokens T e content
         | Reasoning content _ _ \<Rightarrow> estimate_text T e content)"

definition observe_tool_result_input ::
    "tokenizer \<Rightarrow> conversation_item \<Rightarrow> nat \<Rightarrow> turn_state \<Rightarrow> turn_state" where
  "observe_tool_result_input T item now s =
     (case observe_token_count (estimate_provider_item_input_tokens T (model_id s) item) now
             (input_progress s) of
        (Some n, p) \<Rightarrow> emit (InputTokens n) (s\<lparr>input_progress := p\<rparr>)
      | (None, p) \<Rightarrow> s\<lparr>input_progress := p\<rparr>)"

text \<open>The longest proper beginning of the current output that ends the previous one.\<close>

definition overlap_length :: "ustring \<Rightarrow> ustring \<Rightarrow> nat" where
  "overlap_length previous current =
     foldl (\<lambda>overlap index. if ends_with previous (take index current) then index else overlap) 0
       [1..<length current]"

definition terminal_output_delta :: "ustring \<Rightarrow> ustring \<Rightarrow> ustring" where
  "terminal_output_delta previous current =
     (if previous = [] then current
      else case strip_prefix current previous of
             Some delta \<Rightarrow> delta
           | None \<Rightarrow> if ends_with previous current then []
                     else drop (overlap_length previous current) current)"

definition visible_tool_output_delta :: "turn_state \<Rightarrow> ustring \<Rightarrow> ustring \<Rightarrow> ustring option" where
  "visible_tool_output_delta s activity content =
     map_option (\<lambda>previous. terminal_output_delta previous content)
       (map_of (terminal_output_by_id s) activity)"

definition observe_output_total :: "tokenizer \<Rightarrow> ustring \<Rightarrow> nat \<Rightarrow> turn_state \<Rightarrow> turn_state" where
  "observe_output_total T content now s =
     (case observe_complete_token_total T content now (output_progress s) of
        (Some n, p) \<Rightarrow> emit (OutputTokens n) (s\<lparr>output_progress := p\<rparr>)
      | (None, p) \<Rightarrow> s\<lparr>output_progress := p\<rparr>)"

definition observe_tool_activity_output ::
    "tokenizer \<Rightarrow> ustring \<Rightarrow> ustring option \<Rightarrow> bool \<Rightarrow> nat \<Rightarrow> turn_state \<Rightarrow> turn_state" where
  "observe_tool_activity_output T activity content suppress now s =
     (case content of
        None \<Rightarrow> s
      | Some c \<Rightarrow>
          if suppress \<and> map_of (argument_output_by_id s) activity \<noteq> None then s
          else observe_output_total T
                 (case visible_tool_output_delta s activity c of Some d \<Rightarrow> d | None \<Rightarrow> c) now s)"

definition observe_terminal_snapshot_output ::
    "tokenizer \<Rightarrow> terminal_snapshot \<Rightarrow> nat \<Rightarrow> turn_state \<Rightarrow> turn_state" where
  "observe_terminal_snapshot_output T snap now s =
     (let delta = visible_tool_output_delta s (terminal_id snap) (term_output snap);
          s1 = s\<lparr>terminal_output_by_id :=
                  AList.update (terminal_id snap) (term_output snap) (terminal_output_by_id s)\<rparr>
      in observe_output_total T (case delta of Some d \<Rightarrow> d | None \<Rightarrow> term_output snap) now s1)"

fun activity_content_token_text :: "activity_content \<Rightarrow> ustring option" where
  "activity_content_token_text (ActText t) = non_empty t"
| "activity_content_token_text (ActUnknown t) = non_empty t"
| "activity_content_token_text (ActImage mime uri) =
     non_empty (case uri of Some u \<Rightarrow> lit ''image '' @ mime @ lit '' '' @ u | None \<Rightarrow> lit ''image '' @ mime)"
| "activity_content_token_text (ActAudio mime) = non_empty (lit ''audio '' @ mime)"
| "activity_content_token_text (ActResourceLink uri name title) =
     non_empty (name @ lit '' '' @ uri @ (case title of Some t \<Rightarrow> 10 # t | None \<Rightarrow> []))"
| "activity_content_token_text (ActResource uri mime body) =
     non_empty (ujoin [10] ([uri] @ (case mime of Some m \<Rightarrow> [m] | None \<Rightarrow> [])
                                  @ (case body of Some t \<Rightarrow> [t] | None \<Rightarrow> [])))"
| "activity_content_token_text (ActDiff p old new _) =
     non_empty (ujoin [10] ([p] @ (case old of Some t \<Rightarrow> [t] | None \<Rightarrow> []) @ [new]))"
| "activity_content_token_text (ActTerminal _) = None"

definition update_token_text :: "json_api \<Rightarrow> activity_update \<Rightarrow> ustring option" where
  "update_token_text J u =
     (let shown = (case upd_content u of
                     Some content \<Rightarrow> non_empty (ujoin [10] (filter_map activity_content_token_text content))
                   | None \<Rightarrow> None)
      in case shown of
           Some t \<Rightarrow> Some t
         | None \<Rightarrow> Option.bind (upd_raw_output u) (display_text J))"

definition update_duplicates_tool_arguments :: "activity_update \<Rightarrow> bool" where
  "update_duplicates_tool_arguments u =
     (case upd_content u of
        Some content \<Rightarrow> list_ex (\<lambda>c. case c of ActDiff _ _ _ _ \<Rightarrow> True | _ \<Rightarrow> False) content
      | None \<Rightarrow> False)"

subsection \<open>The end of a request\<close>

definition performance_metrics :: "turn_state \<Rightarrow> request_metrics option" where
  "performance_metrics s =
     (case (request_started_at s, first_token_at s) of
        (Some started, Some first) \<Rightarrow>
          Some \<lparr>latency = first - started, metric_tokens = llm_output_tokens_total s,
                metric_duration = llm_generation_duration s\<rparr>
      | _ \<Rightarrow> None)"

definition state_reasoning_duration :: "turn_state \<Rightarrow> nat option" where
  "state_reasoning_duration s =
     (if utrim (reasoning_content s) = [] then None
      else case reasoning_started_at s of
             None \<Rightarrow> None
           | Some started \<Rightarrow>
               Some ((case reasoning_finished_at s of Some t \<Rightarrow> t | None \<Rightarrow> started) - started))"

text \<open>\<^verbatim>\<open>finish_at\<close> also flushes the two progresses of the state it consumes; no result depends on that.\<close>

definition finish_at :: "turn_state \<Rightarrow> conversation_item list \<Rightarrow> loop_completion" where
  "finish_at s xs =
     \<lparr>response = \<lparr>response_items = xs, reasoning_duration = state_reasoning_duration s\<rparr>,
      metrics = performance_metrics s,
      upstream_tokens = upstream_context_tokens s\<rparr>"

end
