(* ===== verification/Provider_Stream.thy ===== *)
theory Provider_Stream
  imports Turn_State
begin

text \<open>
  Reading the stream of an OpenAI-compatible provider, \<^verbatim>\<open>openai-compat-provider/src/stream\<close>: bytes to
  server-sent events (\<^verbatim>\<open>sse.rs\<close>), chat-completion chunks (\<^verbatim>\<open>chat.rs\<close>) and Responses events
  (\<^verbatim>\<open>responses.rs\<close>) to stream events and the final completion, with the tool calls put together
  from their parts (\<^verbatim>\<open>tool_calls.rs\<close>), and the loop over the chunks of the body (\<^verbatim>\<open>client.rs\<close>).

  Decoding one JSON frame is \<^verbatim>\<open>serde\<close>'s and the record \<open>wire_api\<close>; the message of an invalid UTF-8
  line is its field \<open>utf8_error\<close>.  What a function emits into the sink is returned in front of its
  result: \<open>'a emits\<close> is a list of events with an error or a value, and what was emitted before an
  error stays emitted.
\<close>

section \<open>Emitting\<close>

type_synonym 'a emits = "stream_event list \<times> (provider_error + 'a)"

definition emits_value :: "'a \<Rightarrow> 'a emits" where
  "emits_value a = ([], Ok a)"

definition emits_error :: "provider_error \<Rightarrow> 'a emits" where
  "emits_error e = ([], Err e)"

definition emitting :: "stream_event list \<Rightarrow> 'a \<Rightarrow> 'a emits" where
  "emitting es a = (es, Ok a)"

definition emits_then :: "'a emits \<Rightarrow> ('a \<Rightarrow> 'b emits) \<Rightarrow> 'b emits" where
  "emits_then m f =
     (case m of (es, Inl e) \<Rightarrow> (es, Inl e) | (es, Inr a) \<Rightarrow> (case f a of (es', r) \<Rightarrow> (es @ es', r)))"

section \<open>Frames of JSON\<close>

record chat_function_delta =
  fn_name :: "ustring option"
  fn_arguments :: "ustring option"

record chat_call_delta =
  delta_index :: nat
  delta_id :: "ustring option"
  delta_function :: "chat_function_delta option"

record chat_delta =
  d_content :: "ustring option"
  d_reasoning_content :: "ustring option"
  d_reasoning :: "ustring option"
  d_tool_calls :: "chat_call_delta list option"

record chat_choice =
  choice_delta :: chat_delta
  choice_finish :: "ustring option"

record chat_chunk =
  chunk_choices :: "chat_choice list"
  chunk_usage :: "token_usage option"

datatype output_kind = FunctionCallKind | MessageKind | ReasoningKind | OtherKind ustring

record output_content =
  content_kind :: "ustring option"
  content_text :: "ustring option"

record output_item =
  item_kind :: output_kind
  item_call_id :: "ustring option"
  item_name :: "ustring option"
  item_arguments :: "ustring option"
  item_content :: "output_content list option"
  item_summary :: "output_content list option"

record terminal_response =
  terminal_status :: "ustring option"
  terminal_usage :: "token_usage option"
  terminal_error :: "ustring option option"
  terminal_incomplete :: "ustring option option"

datatype responses_event =
    OutputItemAdded nat output_item
  | OutputItemDone nat output_item
  | OutputTextDelta nat ustring
  | RefusalDelta nat ustring
  | ReasoningTextDelta nat ustring
  | ReasoningSummaryTextDelta nat ustring
  | ReasoningSummaryPartDone nat
  | FunctionCallArgumentsDelta nat ustring
  | FunctionCallArgumentsDone nat "ustring option"
  | ResponseCompleted terminal_response
  | ResponseIncomplete terminal_response
  | ResponseFailed terminal_response
  | ResponseErrorEvent ustring ustring
  | OtherEvent

record wire_api =
  decode_chunk :: "ustring \<Rightarrow> ustring + chat_chunk"
  decode_event :: "ustring \<Rightarrow> ustring + responses_event"
  utf8_error :: "bytes \<Rightarrow> ustring"

definition output_kind_from_raw :: "ustring \<Rightarrow> output_kind" where
  "output_kind_from_raw s =
     (if s = lit ''function_call'' then FunctionCallKind
      else if s = lit ''message'' then MessageKind
      else if s = lit ''reasoning'' then ReasoningKind else OtherKind s)"

definition finish_reason_from_openai :: "ustring \<Rightarrow> finish_reason" where
  "finish_reason_from_openai s =
     (if s = lit ''stop'' then StopReason
      else if s = lit ''tool_calls'' then ToolCallsReason
      else if s = lit ''length'' then LengthReason
      else if s = lit ''content_filter'' then ContentFilterReason else OtherReason s)"

definition finish_reason_from_responses_status :: "ustring option \<Rightarrow> finish_reason" where
  "finish_reason_from_responses_status status =
     (case status of
        None \<Rightarrow> StopReason
      | Some s \<Rightarrow> if s = lit ''completed'' then StopReason
                  else if s = lit ''incomplete'' then LengthReason else OtherReason s)"

definition visible_output_text :: "output_item \<Rightarrow> ustring option" where
  "visible_output_text i =
     Option.bind (item_content i) (\<lambda>content. non_empty (concat (filter_map content_text
       (filter (\<lambda>c. content_kind c \<in> {Some (lit ''output_text''), Some (lit ''refusal'')}) content))))"

definition visible_reasoning_text :: "output_item \<Rightarrow> ustring option" where
  "visible_reasoning_text i =
     Option.bind (or_else (item_summary i) (item_content i)) (\<lambda>blocks.
       non_empty (ujoin [10, 10] (filter_map content_text blocks)))"

definition filter_non_empty :: "ustring option \<Rightarrow> ustring option" where
  "filter_non_empty x = Option.bind x non_empty"

section \<open>Server-sent events\<close>

record sse_decoder =
  sse_pending :: bytes
  event_name :: "ustring option"
  event_data :: "ustring list"

definition new_decoder :: sse_decoder where
  "new_decoder = \<lparr>sse_pending = [], event_name = None, event_data = []\<rparr>"

definition trim_line_end :: "bytes \<Rightarrow> bytes" where
  "trim_line_end line = rev (dropWhile (\<lambda>b. b = 10 \<or> b = 13) (rev line))"

definition sse_field_value :: "ustring \<Rightarrow> ustring" where
  "sse_field_value s = (case strip_prefix s [32] of Some rest \<Rightarrow> rest | None \<Rightarrow> s)"

definition emit_event_if_complete :: "sse_decoder \<Rightarrow> ustring list \<times> sse_decoder" where
  "emit_event_if_complete D =
     (if event_data D = [] then ([], D\<lparr>event_name := None\<rparr>)
      else (if event_name D \<noteq> Some (lit ''keepalive'') then [ujoin [10] (event_data D)] else [],
            D\<lparr>event_name := None, event_data := []\<rparr>))"

definition apply_line ::
    "wire_api \<Rightarrow> bytes \<Rightarrow> sse_decoder \<Rightarrow> provider_error + ustring list \<times> sse_decoder" where
  "apply_line W line D =
     (if line = [] then Ok (emit_event_if_complete D)
      else case utf8_decode line of
             None \<Rightarrow> Err (ProtocolError (lit ''invalid SSE UTF-8 line: '' @ utf8_error W line))
           | Some s \<Rightarrow>
               Ok ([], if starts_with s (lit '':'') then D
                       else if s = lit ''data'' then D\<lparr>event_data := event_data D @ [[]]\<rparr>
                       else if s = lit ''event'' then D\<lparr>event_name := Some []\<rparr>
                       else case strip_prefix s (lit ''data:'') of
                              Some data \<Rightarrow> D\<lparr>event_data := event_data D @ [sse_field_value data]\<rparr>
                            | None \<Rightarrow>
                                (case strip_prefix s (lit ''event:'') of
                                   Some name \<Rightarrow> D\<lparr>event_name := Some (sse_field_value name)\<rparr>
                                 | None \<Rightarrow> D)))"

text \<open>The loop of \<^verbatim>\<open>push\<close>: every complete line is taken off the pending bytes.\<close>

function push_lines ::
    "wire_api \<Rightarrow> sse_decoder \<Rightarrow> ustring list \<Rightarrow> provider_error + ustring list \<times> sse_decoder" where
  "push_lines W D frames =
     (case position (\<lambda>b. b = 10) (sse_pending D) of
        None \<Rightarrow> Ok (frames, D)
      | Some i \<Rightarrow>
          (case apply_line W (trim_line_end (take (Suc i) (sse_pending D)))
                  (D\<lparr>sse_pending := drop (Suc i) (sse_pending D)\<rparr>) of
             Inl e \<Rightarrow> Err e
           | Inr (new_frames, D') \<Rightarrow>
               push_lines W (D'\<lparr>sse_pending := drop (Suc i) (sse_pending D)\<rparr>) (frames @ new_frames)))"
  by pat_completeness auto
termination
  by (relation "measure (\<lambda>(W, D, frames). length (sse_pending D))") (auto simp: position_Some)

declare push_lines.simps [simp del]

definition sse_push :: "wire_api \<Rightarrow> bytes \<Rightarrow> sse_decoder \<Rightarrow> provider_error + ustring list \<times> sse_decoder" where
  "sse_push W chunk D = push_lines W (D\<lparr>sse_pending := sse_pending D @ chunk\<rparr>) []"

definition sse_finish :: "wire_api \<Rightarrow> sse_decoder \<Rightarrow> provider_error + ustring list" where
  "sse_finish W D =
     and_then
       (if sse_pending D = [] then Ok ([], D)
        else apply_line W (trim_line_end (sse_pending D)) (D\<lparr>sse_pending := []\<rparr>))
       (\<lambda>(frames, D'). Ok (frames @ fst (emit_event_if_complete D')))"

section \<open>Putting tool calls together\<close>

record partial_call =
  part_id :: "ustring option"
  part_name :: "ustring option"
  part_arguments :: ustring

definition new_partial :: partial_call where
  "new_partial = \<lparr>part_id = None, part_name = None, part_arguments = []\<rparr>"

record call_accumulator =
  partials :: "(nat \<times> partial_call) list"
  started_calls :: "nat set"

definition new_accumulator :: call_accumulator where
  "new_accumulator = \<lparr>partials = [], started_calls = {}\<rparr>"

definition to_tool_call :: "partial_call \<Rightarrow> nat \<Rightarrow> provider_error + tool_call" where
  "to_tool_call p index =
     and_then (ok_or (ProtocolError (lit ''tool call '' @ decimal index @ lit '' completed without a name''))
                (part_name p)) (\<lambda>name.
     and_then (ok_or (ProtocolError (lit ''tool call '' @ decimal index @ lit '' completed without an id''))
                (part_id p)) (\<lambda>cid.
     Ok \<lparr>call_id = cid, tool_name = name,
         arguments = (if utrim (part_arguments p) = [] then lit ''{}'' else part_arguments p)\<rparr>))"

definition apply_call_id ::
    "nat \<Rightarrow> bool \<Rightarrow> ustring option \<Rightarrow> partial_call \<Rightarrow> provider_error + partial_call" where
  "apply_call_id index has_started cid p =
     (case cid of
        None \<Rightarrow> Ok p
      | Some i \<Rightarrow>
          if has_started \<and> (case part_id p of Some current \<Rightarrow> current \<noteq> i | None \<Rightarrow> False)
          then Err (ProtocolError (lit ''tool call '' @ decimal index @ lit '' id changed after start''))
          else Ok (p\<lparr>part_id := Some i\<rparr>))"

definition apply_name ::
    "nat \<Rightarrow> bool \<Rightarrow> ustring option \<Rightarrow> partial_call \<Rightarrow> provider_error + partial_call" where
  "apply_name index has_started name p =
     (case name of
        None \<Rightarrow> Ok p
      | Some n \<Rightarrow>
          if has_started \<and> (case part_name p of Some current \<Rightarrow> current \<noteq> n | None \<Rightarrow> False)
          then Err (ProtocolError (lit ''tool call '' @ decimal index @ lit '' name changed after start''))
          else Ok (p\<lparr>part_name := Some n\<rparr>))"

definition partial_at :: "nat \<Rightarrow> call_accumulator \<Rightarrow> partial_call" where
  "partial_at index A = (case map_of (partials A) index of Some p \<Rightarrow> p | None \<Rightarrow> new_partial)"

definition set_partial :: "nat \<Rightarrow> partial_call \<Rightarrow> call_accumulator \<Rightarrow> call_accumulator" where
  "set_partial index p A = A\<lparr>partials := bt_insert index p (partials A)\<rparr>"

definition emit_started_if_ready :: "nat \<Rightarrow> call_accumulator \<Rightarrow> call_accumulator emits" where
  "emit_started_if_ready index A =
     (case map_of (partials A) index of
        None \<Rightarrow> emits_value A
      | Some p \<Rightarrow>
          (case (part_id p, part_name p) of
             (Some cid, Some name) \<Rightarrow>
               if index \<in> started_calls A then emits_value A
               else emitting [ToolCallStarted index cid name]
                      (A\<lparr>started_calls := insert index (started_calls A)\<rparr>)
           | _ \<Rightarrow> emits_value A))"

definition append_partial_arguments :: "nat \<Rightarrow> ustring \<Rightarrow> partial_call \<Rightarrow> partial_call emits" where
  "append_partial_arguments index delta p =
     emitting [ToolCallArgumentsDelta index delta] (p\<lparr>part_arguments := part_arguments p @ delta\<rparr>)"

definition replace_arguments :: "nat \<Rightarrow> ustring \<Rightarrow> partial_call \<Rightarrow> partial_call emits" where
  "replace_arguments index args p =
     (case strip_prefix args (part_arguments p) of
        None \<Rightarrow> emits_error (ProtocolError (lit ''final arguments for tool call '' @ decimal index
                  @ lit '' do not extend streamed arguments''))
      | Some delta \<Rightarrow>
          emitting (if delta = [] then [] else [ToolCallArgumentsDelta index delta])
            (p\<lparr>part_arguments := args\<rparr>))"

definition apply_chat_delta :: "chat_call_delta \<Rightarrow> call_accumulator \<Rightarrow> call_accumulator emits" where
  "apply_chat_delta d A =
     (let index = delta_index d; has_started = index \<in> started_calls A; p0 = partial_at index A in
      emits_then ([], apply_call_id index has_started (filter_non_empty (delta_id d)) p0) (\<lambda>p1.
      emits_then
        (case delta_function d of
           None \<Rightarrow> emits_value p1
         | Some f \<Rightarrow>
             emits_then ([], apply_name index has_started (filter_non_empty (fn_name f)) p1) (\<lambda>p2.
               case filter_non_empty (fn_arguments f) of
                 None \<Rightarrow> emits_value p2
               | Some args \<Rightarrow> append_partial_arguments index args p2)) (\<lambda>p3.
      emit_started_if_ready index (set_partial index p3 A))))"

datatype arguments_mode = AppendArguments | ReplaceArguments

definition apply_responses_item ::
    "nat \<Rightarrow> output_item \<Rightarrow> arguments_mode \<Rightarrow> call_accumulator \<Rightarrow> call_accumulator emits" where
  "apply_responses_item index i mode A =
     (let has_started = index \<in> started_calls A; p0 = partial_at index A in
      emits_then ([], apply_call_id index has_started (filter_non_empty (item_call_id i)) p0) (\<lambda>p1.
      emits_then ([], apply_name index has_started (filter_non_empty (item_name i)) p1) (\<lambda>p2.
      emits_then
        (case filter_non_empty (item_arguments i) of
           None \<Rightarrow> emits_value p2
         | Some args \<Rightarrow>
             (case mode of
                AppendArguments \<Rightarrow> append_partial_arguments index args p2
              | ReplaceArguments \<Rightarrow> replace_arguments index args p2)) (\<lambda>p3.
      emit_started_if_ready index (set_partial index p3 A)))))"

definition append_arguments_delta :: "nat \<Rightarrow> ustring \<Rightarrow> call_accumulator \<Rightarrow> call_accumulator emits" where
  "append_arguments_delta index delta A =
     emits_then (append_partial_arguments index delta (partial_at index A)) (\<lambda>p.
       emits_value (set_partial index p A))"

definition replace_arguments_emitting_missing_delta ::
    "nat \<Rightarrow> ustring option \<Rightarrow> call_accumulator \<Rightarrow> call_accumulator emits" where
  "replace_arguments_emitting_missing_delta index args A =
     (case filter_non_empty args of
        None \<Rightarrow> emits_value A
      | Some a \<Rightarrow>
          emits_then (replace_arguments index a (partial_at index A)) (\<lambda>p.
            emits_value (set_partial index p A)))"

definition finalized_calls :: "call_accumulator \<Rightarrow> provider_error + (nat \<times> tool_call) list" where
  "finalized_calls A =
     try_map (\<lambda>(index, p). and_then (to_tool_call p index) (\<lambda>c. Ok (index, c))) (partials A)"

definition emit_completed :: "(nat \<times> tool_call) list \<Rightarrow> stream_event list" where
  "emit_completed calls = map (\<lambda>(index, c). ToolCallCompleted index c) calls"

section \<open>Chat completions\<close>

record chat_state =
  chat_content :: ustring
  chat_reasoning :: ustring
  chat_calls :: call_accumulator
  chat_finish :: "finish_reason option"
  chat_usage :: "token_usage option"
  chat_started :: bool

definition new_chat_state :: chat_state where
  "new_chat_state =
     \<lparr>chat_content = [], chat_reasoning = [], chat_calls = new_accumulator, chat_finish = None,
      chat_usage = None, chat_started = False\<rparr>"

definition chat_text :: "ustring option \<Rightarrow> chat_state \<Rightarrow> chat_state emits" where
  "chat_text delta S =
     (case filter_non_empty delta of
        None \<Rightarrow> emits_value S
      | Some t \<Rightarrow> emitting [TextDelta t] (S\<lparr>chat_content := chat_content S @ t\<rparr>))"

definition chat_reason :: "ustring option \<Rightarrow> chat_state \<Rightarrow> chat_state emits" where
  "chat_reason delta S =
     (case filter_non_empty delta of
        None \<Rightarrow> emits_value S
      | Some t \<Rightarrow> emitting [StreamReasoning t] (S\<lparr>chat_reasoning := chat_reasoning S @ t\<rparr>))"

fun chat_call_deltas :: "chat_call_delta list \<Rightarrow> chat_state \<Rightarrow> chat_state emits" where
  "chat_call_deltas [] S = emits_value S"
| "chat_call_deltas (d # ds) S =
     emits_then (apply_chat_delta d (chat_calls S)) (\<lambda>A. chat_call_deltas ds (S\<lparr>chat_calls := A\<rparr>))"

definition apply_choice :: "chat_choice \<Rightarrow> chat_state \<Rightarrow> chat_state emits" where
  "apply_choice c S =
     (let d = choice_delta c in
      emits_then (chat_text (d_content d) S) (\<lambda>S1.
      emits_then (chat_reason (or_else (d_reasoning_content d) (d_reasoning d)) S1) (\<lambda>S2.
      emits_then (chat_call_deltas (case d_tool_calls d of Some ds \<Rightarrow> ds | None \<Rightarrow> []) S2) (\<lambda>S3.
      emits_value
        (case choice_finish c of
           Some r \<Rightarrow> S3\<lparr>chat_finish := Some (finish_reason_from_openai r)\<rparr>
         | None \<Rightarrow> S3)))))"

fun apply_choices :: "chat_choice list \<Rightarrow> chat_state \<Rightarrow> chat_state emits" where
  "apply_choices [] S = emits_value S"
| "apply_choices (c # cs) S = emits_then (apply_choice c S) (apply_choices cs)"

definition chat_apply_frame :: "wire_api \<Rightarrow> ustring \<Rightarrow> chat_state \<Rightarrow> chat_state emits" where
  "chat_apply_frame W data S =
     emits_then (emitting (if chat_started S then [] else [TurnStarted]) (S\<lparr>chat_started := True\<rparr>)) (\<lambda>S1.
     case decode_chunk W data of
       Inl source \<Rightarrow> emits_error (ProtocolError (lit ''invalid chat completion chunk: '' @ source))
     | Inr chunk \<Rightarrow>
         emits_then
           (case chunk_usage chunk of
              None \<Rightarrow> emits_value S1
            | Some u \<Rightarrow> emitting [UsageUpdated u] (S1\<lparr>chat_usage := Some u\<rparr>))
           (apply_choices (chunk_choices chunk)))"

definition assistant_items :: "ustring \<Rightarrow> tool_call list \<Rightarrow> conversation_item list" where
  "assistant_items content calls =
     (let blocks = (if content = [] then [] else [Text content])
      in if blocks \<noteq> [] \<or> calls \<noteq> [] then [assistant_with_parts blocks calls] else [])"

definition chat_finish_stream :: "chat_state \<Rightarrow> prompt_completion emits" where
  "chat_finish_stream S =
     (let has_calls = partials (chat_calls S) \<noteq> [];
          finalize = (case chat_finish S of
                        Some ToolCallsReason \<Rightarrow> True
                      | Some StopReason \<Rightarrow> has_calls
                      | None \<Rightarrow> has_calls
                      | Some _ \<Rightarrow> False)
      in emits_then (emitting (if chat_started S then [] else [TurnStarted]) ()) (\<lambda>_.
         emits_then ([], if finalize then finalized_calls (chat_calls S) else Ok []) (\<lambda>indexed.
         emits_then (emitting (emit_completed indexed) ()) (\<lambda>_.
           let calls = map snd indexed;
               reason = (if (chat_finish S = Some StopReason \<or> chat_finish S = None) \<and> calls \<noteq> []
                         then ToolCallsReason
                         else case chat_finish S of Some r \<Rightarrow> r | None \<Rightarrow> StopReason);
               completion =
                 \<lparr>completion_items =
                    (if chat_reasoning S = [] then [] else [Reasoning (chat_reasoning S) None None])
                    @ assistant_items (chat_content S) calls,
                  finish_reason = reason, usage = chat_usage S\<rparr>
           in emitting [TurnCompleted completion] completion))))"

section \<open>Responses\<close>

record responses_state =
  text_outputs :: "(nat \<times> ustring) list"
  reasoning_outputs :: "(nat \<times> ustring) list"
  resp_calls :: call_accumulator
  resp_finish :: "finish_reason option"
  resp_usage :: "token_usage option"
  resp_started :: bool
  saw_terminal :: bool

definition new_responses_state :: responses_state where
  "new_responses_state =
     \<lparr>text_outputs = [], reasoning_outputs = [], resp_calls = new_accumulator, resp_finish = None,
      resp_usage = None, resp_started = False, saw_terminal = False\<rparr>"

definition output_at :: "nat \<Rightarrow> (nat \<times> ustring) list \<Rightarrow> ustring" where
  "output_at index m = (case map_of m index of Some t \<Rightarrow> t | None \<Rightarrow> [])"

definition apply_final_text_output :: "nat \<Rightarrow> ustring \<Rightarrow> responses_state \<Rightarrow> responses_state emits" where
  "apply_final_text_output index final S =
     (case strip_prefix final (output_at index (text_outputs S)) of
        None \<Rightarrow> emits_error (ProtocolError (lit ''final text for output '' @ decimal index
                  @ lit '' does not extend streamed text''))
      | Some delta \<Rightarrow>
          emitting (if delta = [] then [] else [TextDelta delta])
            (S\<lparr>text_outputs := bt_insert index final (text_outputs S)\<rparr>))"

definition apply_final_reasoning_output :: "nat \<Rightarrow> ustring \<Rightarrow> responses_state \<Rightarrow> responses_state emits" where
  "apply_final_reasoning_output index final S =
     (case strip_prefix final (output_at index (reasoning_outputs S)) of
        None \<Rightarrow>
          emits_value (S\<lparr>reasoning_outputs :=
            bt_insert index (output_at index (reasoning_outputs S)) (reasoning_outputs S)\<rparr>)
      | Some delta \<Rightarrow>
          emitting (if delta = [] then [] else [StreamReasoning delta])
            (S\<lparr>reasoning_outputs := bt_insert index final (reasoning_outputs S)\<rparr>))"

definition with_calls :: "call_accumulator emits \<Rightarrow> responses_state \<Rightarrow> responses_state emits" where
  "with_calls m S = emits_then m (\<lambda>A. emits_value (S\<lparr>resp_calls := A\<rparr>))"

definition apply_output_item_added :: "nat \<Rightarrow> output_item \<Rightarrow> responses_state \<Rightarrow> responses_state emits" where
  "apply_output_item_added index i S =
     (if item_kind i \<noteq> FunctionCallKind then emits_value S
      else with_calls (apply_responses_item index i AppendArguments (resp_calls S)) S)"

definition apply_output_item_done :: "nat \<Rightarrow> output_item \<Rightarrow> responses_state \<Rightarrow> responses_state emits" where
  "apply_output_item_done index i S =
     (case item_kind i of
        FunctionCallKind \<Rightarrow> with_calls (apply_responses_item index i ReplaceArguments (resp_calls S)) S
      | MessageKind \<Rightarrow>
          (case filter_non_empty (visible_output_text i) of
             Some t \<Rightarrow> apply_final_text_output index t S
           | None \<Rightarrow> emits_value S)
      | ReasoningKind \<Rightarrow>
          (case filter_non_empty (visible_reasoning_text i) of
             Some t \<Rightarrow> apply_final_reasoning_output index t S
           | None \<Rightarrow> emits_value S)
      | OtherKind _ \<Rightarrow> emits_value S)"

definition resp_text_delta :: "nat \<Rightarrow> ustring \<Rightarrow> responses_state \<Rightarrow> responses_state emits" where
  "resp_text_delta index delta S =
     (if delta = [] then emits_value S
      else emitting [TextDelta delta]
             (S\<lparr>text_outputs := bt_insert index (output_at index (text_outputs S) @ delta) (text_outputs S)\<rparr>))"

definition resp_reasoning_delta :: "nat \<Rightarrow> ustring \<Rightarrow> responses_state \<Rightarrow> responses_state emits" where
  "resp_reasoning_delta index delta S =
     (if delta = [] then emits_value S
      else emitting [StreamReasoning delta]
             (S\<lparr>reasoning_outputs :=
                  bt_insert index (output_at index (reasoning_outputs S) @ delta) (reasoning_outputs S)\<rparr>))"

definition resp_terminal :: "terminal_response \<Rightarrow> responses_state \<Rightarrow> responses_state emits" where
  "resp_terminal r S =
     (let S1 = S\<lparr>saw_terminal := True,
                 resp_finish := Some (finish_reason_from_responses_status (terminal_status r))\<rparr>
      in case terminal_usage r of
           None \<Rightarrow> emits_value S1
         | Some u \<Rightarrow> emitting [UsageUpdated u] (S1\<lparr>resp_usage := Some u\<rparr>))"

fun apply_responses_event :: "responses_event \<Rightarrow> responses_state \<Rightarrow> responses_state emits" where
  "apply_responses_event (OutputItemAdded index i) S = apply_output_item_added index i S"
| "apply_responses_event (OutputItemDone index i) S = apply_output_item_done index i S"
| "apply_responses_event (OutputTextDelta index delta) S = resp_text_delta index delta S"
| "apply_responses_event (RefusalDelta index delta) S = resp_text_delta index delta S"
| "apply_responses_event (ReasoningTextDelta index delta) S = resp_reasoning_delta index delta S"
| "apply_responses_event (ReasoningSummaryTextDelta index delta) S = resp_reasoning_delta index delta S"
| "apply_responses_event (ReasoningSummaryPartDone index) S = resp_reasoning_delta index [10, 10] S"
| "apply_responses_event (FunctionCallArgumentsDelta index delta) S =
     with_calls (append_arguments_delta index delta (resp_calls S)) S"
| "apply_responses_event (FunctionCallArgumentsDone index args) S =
     with_calls (replace_arguments_emitting_missing_delta index args (resp_calls S)) S"
| "apply_responses_event (ResponseCompleted r) S = resp_terminal r S"
| "apply_responses_event (ResponseIncomplete r) S = resp_terminal r S"
| "apply_responses_event (ResponseFailed r) S =
     emits_error (ProviderFailure None
       (case or_else (case terminal_error r of Some m \<Rightarrow> m | None \<Rightarrow> None)
               (case terminal_incomplete r of Some m \<Rightarrow> m | None \<Rightarrow> None) of
          Some m \<Rightarrow> m | None \<Rightarrow> lit ''responses stream failed''))"
| "apply_responses_event (ResponseErrorEvent code message) S =
     emits_error (ProviderFailure None (code @ lit '': '' @ message))"
| "apply_responses_event OtherEvent S = emits_value S"

definition responses_apply_frame :: "wire_api \<Rightarrow> ustring \<Rightarrow> responses_state \<Rightarrow> responses_state emits" where
  "responses_apply_frame W data S =
     emits_then (emitting (if resp_started S then [] else [TurnStarted]) (S\<lparr>resp_started := True\<rparr>)) (\<lambda>S1.
     case decode_event W data of
       Inl source \<Rightarrow> emits_error (ProtocolError (lit ''invalid responses stream event: '' @ source))
     | Inr ev \<Rightarrow> apply_responses_event ev S1)"

definition responses_finish_stream :: "responses_state \<Rightarrow> prompt_completion emits" where
  "responses_finish_stream S =
     emits_then (emitting (if resp_started S then [] else [TurnStarted]) ()) (\<lambda>_.
     if \<not> saw_terminal S
     then emits_error (ProtocolError (lit ''Responses stream ended before a terminal response event''))
     else
       (let reason = (case resp_finish S of Some r \<Rightarrow> r | None \<Rightarrow> StopReason) in
        emits_then ([], if reason = StopReason then finalized_calls (resp_calls S) else Ok []) (\<lambda>indexed.
        emits_then (emitting (emit_completed indexed) ()) (\<lambda>_.
          let calls = map snd indexed;
              reasoning = concat (map snd (reasoning_outputs S));
              out_items =
                (if utrim reasoning = [] then [] else [Reasoning (utrim_end reasoning) None None])
                @ assistant_items (concat (map snd (text_outputs S))) calls;
              completion =
                \<lparr>completion_items = out_items,
                 finish_reason =
                   (if list_ex (\<lambda>i. tool_calls i \<noteq> []) out_items \<and> reason = StopReason
                    then ToolCallsReason else reason),
                 usage = resp_usage S\<rparr>
          in emitting [TurnCompleted completion] completion))))"

section \<open>The body of a response\<close>

text \<open>
  The loop of the two clients over the chunks of the body; \<open>apply_frame\<close> and \<open>finish\<close> are those of
  the stream state.  A frame \<^verbatim>\<open>[DONE]\<close> ends the stream at once.
\<close>

definition done_frame :: ustring where "done_frame = lit ''[DONE]''"

fun apply_frames ::
    "(ustring \<Rightarrow> 's \<Rightarrow> 's emits) \<Rightarrow> ('s \<Rightarrow> prompt_completion emits) \<Rightarrow> ustring list \<Rightarrow> 's
      \<Rightarrow> ('s + prompt_completion) emits" where
  "apply_frames apply_frame finish [] S = emits_value (Inl S)"
| "apply_frames apply_frame finish (frame # frames) S =
     (if frame = done_frame then emits_then (finish S) (\<lambda>c. emits_value (Inr c))
      else emits_then (apply_frame frame S) (apply_frames apply_frame finish frames))"

fun read_body ::
    "wire_api \<Rightarrow> (ustring \<Rightarrow> 's \<Rightarrow> 's emits) \<Rightarrow> ('s \<Rightarrow> prompt_completion emits)
      \<Rightarrow> (ustring + bytes) list \<Rightarrow> sse_decoder \<Rightarrow> 's \<Rightarrow> prompt_completion emits" where
  "read_body W apply_frame finish [] D S =
     emits_then ([], sse_finish W D) (\<lambda>frames.
     emits_then (apply_frames apply_frame finish frames S) (\<lambda>r.
       case r of Inl S' \<Rightarrow> finish S' | Inr c \<Rightarrow> emits_value c))"
| "read_body W apply_frame finish (chunk # chunks) D S =
     (case chunk of
        Inl transport \<Rightarrow> emits_error (TransportError transport)
      | Inr bytes \<Rightarrow>
          emits_then ([], sse_push W bytes D) (\<lambda>(frames, D').
          emits_then (apply_frames apply_frame finish frames S) (\<lambda>r.
            case r of
              Inl S' \<Rightarrow> read_body W apply_frame finish chunks D' S'
            | Inr c \<Rightarrow> emits_value c)))"

definition read_chat_body :: "wire_api \<Rightarrow> (ustring + bytes) list \<Rightarrow> prompt_completion emits" where
  "read_chat_body W chunks =
     read_body W (chat_apply_frame W) chat_finish_stream chunks new_decoder new_chat_state"

definition read_responses_body :: "wire_api \<Rightarrow> (ustring + bytes) list \<Rightarrow> prompt_completion emits" where
  "read_responses_body W chunks =
     read_body W (responses_apply_frame W) responses_finish_stream chunks new_decoder new_responses_state"

end
