(* ===== verification/Tool_Loop.thy ===== *)
theory Tool_Loop
  imports Turn_State
begin

text \<open>
  The loop between the provider and the tools, \<^verbatim>\<open>tool-loop-runtime/src/runtime\<close>: one provider turn
  (\<^verbatim>\<open>streaming.rs\<close>), the authorization and execution of a call (\<^verbatim>\<open>execution.rs\<close>) and the loop itself
  (\<^verbatim>\<open>mod.rs\<close>).

  What the loop talks to is the record \<open>loop_env\<close> over a world \<open>'w\<close>: the cancellation token, the
  clock, the provider, the tools, the permission handler.  The world changes whenever one of them is
  used, so that a cancellation can come between any two steps.  A stream emits events into the sink
  and ends with a completion or an error, unless the cancellation wins the \<^verbatim>\<open>select!\<close> and drops it.
  Streams and tools are assumed to end.  A progress event of a tool is handled when it is emitted.
\<close>

datatype 'w stream_run =
    StreamEnds "provider_error + prompt_completion" 'w
  | StreamCancelled 'w
  | StreamEmits stream_event 'w "'w \<Rightarrow> 'w stream_run"

record ('w, 'o) loop_env =
  env_cancelled :: "'w \<Rightarrow> bool \<times> 'w"
  env_now :: "'w \<Rightarrow> nat \<times> 'w"
  env_stream :: "'o prompt_request \<Rightarrow> 'w \<Rightarrow> 'w stream_run"
  env_executor :: "'w executor"
  env_handler :: "'w permission_handler option"
  env_formatter :: error_formatter
  env_max_turns :: "nat option"
  env_json :: json_api
  env_parse_error :: "ustring \<Rightarrow> ustring"
  env_join_error :: ustring
  env_numbers :: number_api
  env_tokenizer :: tokenizer

datatype loop_error =
    LoopProvider provider_error
  | LoopCancelled
  | EmptyPrompt
  | ToolTurnLimit nat

section \<open>A provider turn\<close>

definition at_now :: "('w, 'o) loop_env \<Rightarrow> (nat \<Rightarrow> turn_state \<Rightarrow> turn_state) \<Rightarrow> turn_state \<times> 'w \<Rightarrow> turn_state \<times> 'w" where
  "at_now E f = (\<lambda>(s, w). case env_now E w of (now, w') \<Rightarrow> (f now s, w'))"

text \<open>\<^verbatim>\<open>RuntimeStreamSink::emit\<close>.\<close>

fun sink_emit ::
    "('w, 'o) loop_env \<Rightarrow> stream_event \<Rightarrow> prompt_completion option \<times> turn_state \<times> 'w
      \<Rightarrow> prompt_completion option \<times> turn_state \<times> 'w" where
  "sink_emit E TurnStarted (c, sw) = (c, at_now E mark_request_started sw)"
| "sink_emit E (TextDelta t) (c, sw) = (c, at_now E (observe_content_chunk (env_tokenizer E) t) sw)"
| "sink_emit E (StreamReasoning t) (c, sw) = (c, at_now E (observe_reasoning_chunk (env_tokenizer E) t) sw)"
| "sink_emit E (UsageUpdated u) (c, (s, w)) = (c, (record_provider_usage u s, w))"
| "sink_emit E (ToolCallStarted index cid _) (c, (s, w)) = (c, (observe_tool_call_started index cid s, w))"
| "sink_emit E (ToolCallArgumentsDelta index delta) (c, sw) =
     (c, at_now E (observe_tool_call_arguments_delta (env_tokenizer E) index delta) sw)"
| "sink_emit E (ToolCallCompleted index call) (c, sw) =
     (c, at_now E (observe_tool_call_completed (env_tokenizer E) index call) sw)"
| "sink_emit E (TurnCompleted completion) (c, sw) = (Some completion, sw)"

text \<open>The stream drives the sink; no result means that the cancellation came first.\<close>

primrec drive_stream ::
    "('w, 'o) loop_env \<Rightarrow> 'w stream_run \<Rightarrow> prompt_completion option \<Rightarrow> turn_state
      \<Rightarrow> (provider_error + prompt_completion) option \<times> prompt_completion option \<times> turn_state \<times> 'w" where
  "drive_stream E (StreamEnds r w) c s = (Some r, c, s, w)"
| "drive_stream E (StreamCancelled w) c s = (None, c, s, w)"
| "drive_stream E (StreamEmits ev w k) c s =
     (case sink_emit E ev (c, s, w) of (c', s', w') \<Rightarrow> drive_stream E (k w') c' s')"

definition stream_provider_turn ::
    "('w, 'o) loop_env \<Rightarrow> 'o prompt_request \<Rightarrow> turn_state \<Rightarrow> 'w
      \<Rightarrow> (loop_error + prompt_completion) \<times> turn_state \<times> 'w" where
  "stream_provider_turn E q s0 w0 =
     (case env_cancelled E w0 of (cancelled, w1) \<Rightarrow>
        if cancelled then (Err LoopCancelled, s0, w1)
        else case at_now E (start_provider_turn (env_tokenizer E)) (emit ProviderTurnStarted s0, w1) of
          (s1, w2) \<Rightarrow>
            (case drive_stream E (env_stream E q w2) None s1 of
               (None, _, s2, w3) \<Rightarrow> (Err LoopCancelled, s2, w3)
             | (Some (Inr answer), sent, s2, w3) \<Rightarrow>
                 (let completion = (case sent of Some c \<Rightarrow> c | None \<Rightarrow> answer)
                  in case at_now E (\<lambda>now s. complete_provider_turn (env_tokenizer E) completion now
                               (observe_response_tool_calls_completed (env_tokenizer E) completion now s))
                            (s2, w3) of
                       (s3, w4) \<Rightarrow> (Ok completion, s3, w4))
             | (Some (Inl err), _, s2, w3) \<Rightarrow>
                 (case err of
                    TransportError _ \<Rightarrow>
                      (case env_cancelled E w3 of (cancelled', w4) \<Rightarrow>
                         (Err (if cancelled' then LoopCancelled else LoopProvider err), s2, w4))
                  | _ \<Rightarrow> (Err (LoopProvider err), s2, w3))))"

section \<open>Authorizing a call\<close>

definition tool_permission_denied :: ustring where
  "tool_permission_denied = lit ''Tool permission denied''"

definition tool_execution_interrupted :: ustring where
  "tool_execution_interrupted = lit ''Tool execution interrupted''"

record authorization =
  denial_message :: "ustring option"
  permission_snapshot :: "file_snapshot option"

definition authorization_allow :: "file_snapshot option \<Rightarrow> authorization" where
  "authorization_allow snap = \<lparr>denial_message = None, permission_snapshot = snap\<rparr>"

definition authorization_deny :: "ustring \<Rightarrow> authorization" where
  "authorization_deny m = \<lparr>denial_message = Some m, permission_snapshot = None\<rparr>"

definition preview_from_executor ::
    "('w, 'o) loop_env \<Rightarrow> invocation \<Rightarrow> 'w \<Rightarrow> (ustring + permission_preview option) \<times> 'w" where
  "preview_from_executor E call w0 =
     (case env_cancelled E w0 of (cancelled, w1) \<Rightarrow>
        if cancelled then (Ok None, w1)
        else case executor_preview (env_executor E) call w1 of
               (Some p, w2) \<Rightarrow> (Ok p, w2)
             | (None, w2) \<Rightarrow>
                 (Err (lit ''Tool permission preview failed: '' @ env_join_error E), w2))"

definition authorize_tool_call ::
    "('w, 'o) loop_env \<Rightarrow> tool_registry \<Rightarrow> invocation \<Rightarrow> 'w \<Rightarrow> authorization \<times> 'w" where
  "authorize_tool_call E defs call w0 =
     (case registry_definition defs (inv_name call) of
        None \<Rightarrow> (authorization_allow None, w0)
      | Some d \<Rightarrow>
          (case def_policy d of
             Always \<Rightarrow> (authorization_allow None, w0)
           | Never \<Rightarrow>
               (authorization_deny (tool_permission_denied @ lit '': '' @ def_name d @ lit '' is not allowed''), w0)
           | Ask \<Rightarrow>
               (case env_handler E of
                  None \<Rightarrow>
                    (authorization_deny
                       (tool_permission_denied @ lit '': '' @ def_name d @ lit '' requires approval''), w0)
                | Some ask \<Rightarrow>
                    (case preview_from_executor E call w0 of
                       (Inl m, w1) \<Rightarrow> (authorization_deny m, w1)
                     | (Inr preview, w1) \<Rightarrow>
                         if (def_kind d = Write \<or> def_kind d = Edit) \<and> preview = None
                         then (authorization_deny
                                 (tool_permission_denied @ lit '': '' @ def_name d
                                  @ lit '' could not produce a file preview''), w1)
                         else case ask ((new_request call d)\<lparr>req_preview := preview\<rparr>) w1 of
                                (Allow, w2) \<Rightarrow>
                                  (authorization_allow (Option.bind preview prev_snapshot), w2)
                              | (Deny m, w2) \<Rightarrow> (authorization_deny m, w2)))))"

section \<open>Executing a call\<close>

record provider_result =
  pres_call_id :: ustring
  pres_name :: ustring
  pres_content :: "content_block list"
  pres_is_error :: bool
  pres_details :: "json_value option"

record tool_execution =
  raw_result :: tool_result
  provider_result :: provider_result
  processed_error :: "processed_error option"

definition interrupted_tool_execution :: "tool_call \<Rightarrow> tool_execution" where
  "interrupted_tool_execution call =
     \<lparr>raw_result = result_error (call_id call) tool_execution_interrupted,
      provider_result =
        \<lparr>pres_call_id = call_id call, pres_name = tool_name call,
         pres_content = [Text tool_execution_interrupted], pres_is_error = True, pres_details = None\<rparr>,
      processed_error =
        Some \<lparr>assistant_message = tool_execution_interrupted, display_reason = tool_execution_interrupted\<rparr>\<rparr>"

definition invalid_arguments_tool_execution :: "tool_call \<Rightarrow> ustring \<Rightarrow> tool_execution" where
  "invalid_arguments_tool_execution call err =
     (let message = lit ''Invalid tool call arguments from provider for '' @ [39] @ tool_name call
                      @ [39] @ lit '': '' @ err
      in \<lparr>raw_result = result_error (call_id call) message,
          provider_result =
            \<lparr>pres_call_id = call_id call, pres_name = tool_name call, pres_content = [Text message],
             pres_is_error = True, pres_details = None\<rparr>,
          processed_error = None\<rparr>)"

fun provider_image_detail :: "tool_image_detail \<Rightarrow> image_detail" where
  "provider_image_detail DetailHigh = High"
| "provider_image_detail DetailOriginal = Original"

fun provider_content :: "result_content \<Rightarrow> content_block" where
  "provider_content (ResultText t) = Text t"
| "provider_content (ResultImage d mime uri detail) = Image d mime uri (map_option provider_image_detail detail)"

definition provider_content_from_tool_result :: "tool_result \<Rightarrow> content_block list" where
  "provider_content_from_tool_result r = map provider_content (res_content r)"

definition is_command_execution_error :: "tool_result \<Rightarrow> tool_definition option \<Rightarrow> bool" where
  "is_command_execution_error r d \<longleftrightarrow>
     map_option def_kind d = Some Execute \<and>
     Option.bind (res_details r) (\<lambda>v. json_get_str v (lit ''execution_kind'')) = Some (lit ''command'')"

text \<open>\<^verbatim>\<open>emit_tool_progress\<close>; the two kinds of terminal snapshots have the same fields.\<close>

fun emit_tool_progress ::
    "('w, 'o) loop_env \<Rightarrow> tool_progress \<Rightarrow> turn_state \<times> 'w \<Rightarrow> turn_state \<times> 'w" where
  "emit_tool_progress E (SystemMessage m) (s, w) = (emit (ProgressMessage m) s, w)"
| "emit_tool_progress E (TerminalUpdated snap) (s, w) =
     at_now E (observe_terminal_snapshot_output (env_tokenizer E) snap) (emit (ProgressTerminal snap) s, w)"

primrec drive_tool ::
    "('w, 'o) loop_env \<Rightarrow> 'w tool_run \<Rightarrow> turn_state \<Rightarrow> tool_result \<times> turn_state \<times> 'w" where
  "drive_tool E (ToolReturns r w) s = (r, s, w)"
| "drive_tool E (ToolEmits p w k) s =
     (case emit_tool_progress E p (s, w) of (s', w') \<Rightarrow> drive_tool E (k w') s')"

definition execute_tool_with_progress ::
    "('w, 'o) loop_env \<Rightarrow> invocation \<Rightarrow> file_snapshot option \<Rightarrow> turn_state \<Rightarrow> 'w
      \<Rightarrow> tool_result \<times> turn_state \<times> 'w" where
  "execute_tool_with_progress E call snap s w =
     drive_tool E
       (execute_with_context (env_numbers E) (env_executor E) call
          \<lparr>ctx_snapshot = snap, ctx_handler = env_handler E\<rparr> w) s"

definition finish_execution ::
    "('w, 'o) loop_env \<Rightarrow> tool_registry \<Rightarrow> tool_call \<Rightarrow> tool_result \<Rightarrow> tool_execution" where
  "finish_execution E defs call r =
     (let processed =
            (if is_error r \<and> \<not> is_command_execution_error r (registry_definition defs (tool_name call))
             then Some (env_formatter E (tool_name call) (result_text r)) else None);
          content = (case processed of
                       Some p \<Rightarrow> [Text (assistant_message p)]
                     | None \<Rightarrow> provider_content_from_tool_result r)
      in \<lparr>raw_result = r,
          provider_result =
            \<lparr>pres_call_id = call_id call, pres_name = tool_name call, pres_content = content,
             pres_is_error = is_error r, pres_details = res_details r\<rparr>,
          processed_error = processed\<rparr>)"

definition execute_tool_call ::
    "('w, 'o) loop_env \<Rightarrow> tool_registry \<Rightarrow> tool_call \<Rightarrow> turn_state \<Rightarrow> 'w
      \<Rightarrow> tool_execution \<times> turn_state \<times> 'w" where
  "execute_tool_call E defs call s w0 =
     (case parsed_arguments_value (env_json E) (env_parse_error E) call of
        Inl err \<Rightarrow> (invalid_arguments_tool_execution call err, s, w0)
      | Inr v \<Rightarrow>
          (let runtime_call = \<lparr>inv_id = call_id call, inv_name = tool_name call, inv_arguments = v\<rparr>
           in case authorize_tool_call E defs runtime_call w0 of
                (auth, w1) \<Rightarrow>
                  (case denial_message auth of
                     Some m \<Rightarrow> (finish_execution E defs call (result_error (call_id call) m), s, w1)
                   | None \<Rightarrow>
                       (case execute_tool_with_progress E runtime_call (permission_snapshot auth) s w1 of
                          (r, s', w2) \<Rightarrow> (finish_execution E defs call r, s', w2)))))"

section \<open>The loop\<close>

definition append_provider_context_items ::
    "conversation_item list \<Rightarrow> turn_state \<Rightarrow> turn_state" where
  "append_provider_context_items xs s = foldl (\<lambda>s x. emit (ProviderContextItem x) s) s xs"

definition tool_result_item :: "tool_execution \<Rightarrow> conversation_item" where
  "tool_result_item x =
     ToolResult (pres_call_id (provider_result x)) (pres_content (provider_result x))
       (pres_is_error (provider_result x))"

definition run_call ::
    "('w, 'o) loop_env \<Rightarrow> tool_registry \<Rightarrow> tool_call \<Rightarrow> turn_state \<Rightarrow> 'w
      \<Rightarrow> (conversation_item \<times> bool) \<times> turn_state \<times> 'w" where
  "run_call E defs call s0 w0 =
     (let s1 = emit (ToolActivityStarted (activity_from_call (env_json E) (env_parse_error E) call defs)) s0
      in case env_cancelled E w0 of (cancelled, w1) \<Rightarrow>
         (case (if cancelled then (interrupted_tool_execution call, s1, w1)
                else execute_tool_call E defs call s1 w1) of
            (x, s2, w2) \<Rightarrow>
              (let update = update_from_result (env_json E) (env_parse_error E) call (raw_result x)
                              (processed_error x) defs;
                   s3 = emit (ToolActivityUpdated update) s2
               in case at_now E (observe_tool_activity_output (env_tokenizer E) (upd_id update)
                                   (update_token_text (env_json E) update)
                                   (update_duplicates_tool_arguments update)) (s3, w2) of
                    (s4, w3) \<Rightarrow> ((tool_result_item x, terminates (raw_result x)), s4, w3))))"

fun run_calls ::
    "('w, 'o) loop_env \<Rightarrow> tool_registry \<Rightarrow> tool_call list \<Rightarrow> turn_state \<Rightarrow> 'w
      \<Rightarrow> (conversation_item \<times> bool) list \<times> turn_state \<times> 'w" where
  "run_calls E defs [] s w = ([], s, w)"
| "run_calls E defs (call # calls) s w =
     (case run_call E defs call s w of (r, s1, w1) \<Rightarrow>
      case run_calls E defs calls s1 w1 of (rs, s2, w2) \<Rightarrow> (r # rs, s2, w2))"

text \<open>The results of a batch that goes on are counted as input and sent back.\<close>

fun return_results ::
    "('w, 'o) loop_env \<Rightarrow> conversation_item list \<Rightarrow> turn_state \<times> 'w \<Rightarrow> turn_state \<times> 'w" where
  "return_results E [] sw = sw"
| "return_results E (x # xs) sw =
     (case at_now E (observe_tool_result_input (env_tokenizer E) x) sw of
        (s, w) \<Rightarrow> return_results E xs (append_provider_context_items [x] s, w))"

record ('w, 'o) loop_state =
  loop_request :: "'o prompt_request"
  loop_turns :: nat
  loop_appended :: "conversation_item list"
  loop_turn :: turn_state
  loop_world :: 'w

type_synonym 'w loop_result = "(loop_error + loop_completion) \<times> turn_state \<times> 'w"

definition finish_loop ::
    "('w, 'o) loop_env \<Rightarrow> conversation_item list \<Rightarrow> turn_state \<Rightarrow> 'w \<Rightarrow> 'w loop_result" where
  "finish_loop E appended s w =
     (case env_now E w of (_, w') \<Rightarrow> (Ok (finish_at s appended), s, w'))"

definition request_with_items :: "conversation_item list \<Rightarrow> 'o prompt_request \<Rightarrow> 'o prompt_request" where
  "request_with_items xs q = q\<lparr>req_items := req_items q @ xs\<rparr>"

definition loop_step ::
    "('w, 'o) loop_env \<Rightarrow> tool_registry \<Rightarrow> ('w, 'o) loop_state \<Rightarrow> 'w loop_result + ('w, 'o) loop_state" where
  "loop_step E defs L =
     (case stream_provider_turn E (loop_request L) (loop_turn L) (loop_world L) of
        (Inl err, s, w) \<Rightarrow> Inl (Err err, s, w)
      | (Inr completion, s0, w0) \<Rightarrow>
          (let out_items = completion_items completion; calls = extract_tool_calls out_items
           in if \<not> is_tool_call (finish_reason completion) \<or> calls = []
              then Inl (finish_loop E (loop_appended L @ out_items)
                          (append_provider_context_items out_items s0) w0)
              else if (case env_max_turns E of Some m \<Rightarrow> m \<le> loop_turns L | None \<Rightarrow> False)
              then Inl (Err (ToolTurnLimit (the (env_max_turns E))), s0, w0)
              else case run_calls E defs calls (append_provider_context_items out_items s0) w0 of
                (batch, s1, w1) \<Rightarrow>
                  (let stop = list_all snd batch; results = map fst batch
                   in case (if stop then (append_provider_context_items results s1, w1)
                            else return_results E results (s1, w1)) of
                        (s2, w2) \<Rightarrow>
                          (case env_cancelled E w2 of (cancelled, w3) \<Rightarrow>
                             if cancelled then Inl (Err LoopCancelled, s2, w3)
                             else if stop
                             then Inl (finish_loop E (loop_appended L @ out_items @ results) s2 w3)
                             else Inr \<lparr>loop_request =
                                         request_with_items (out_items @ results) (loop_request L),
                                       loop_turns = sat_add_usize (loop_turns L) 1,
                                       loop_appended = loop_appended L @ out_items @ results,
                                       loop_turn = s2, loop_world = w3\<rparr>))))"

partial_function (option) iterate_loop ::
    "('w, 'o) loop_env \<Rightarrow> tool_registry \<Rightarrow> ('w, 'o) loop_state \<Rightarrow> 'w loop_result option" where
  "iterate_loop E defs L =
     (case loop_step E defs L of Inl r \<Rightarrow> Some r | Inr L' \<Rightarrow> iterate_loop E defs L')"

definition provider_tool_definitions :: "tool_registry \<Rightarrow> provider_tool list" where
  "provider_tool_definitions defs =
     map (\<lambda>d. \<lparr>ptool_name = def_name d,
                ptool_description = (case def_description d of Some t \<Rightarrow> t | None \<Rightarrow> []),
                ptool_schema = (case def_schema d of
                  Some v \<Rightarrow> v | None \<Rightarrow> JObject [(lit ''type'', JString (lit ''object''))])\<rparr>)
       (registry_definitions defs)"

definition start_loop :: "('w, 'o) loop_env \<Rightarrow> 'o prompt_request \<Rightarrow> 'w \<Rightarrow> ('w, 'o) loop_state" where
  "start_loop E q w =
     \<lparr>loop_request = q\<lparr>req_tools := provider_tool_definitions (executor_definitions (env_executor E))\<rparr>,
      loop_turns = 0, loop_appended = [],
      loop_turn = new_turn_state (env_tokenizer E) (req_model q), loop_world = w\<rparr>"

definition run_tool_loop ::
    "('w, 'o) loop_env \<Rightarrow> 'o prompt_request \<Rightarrow> 'w \<Rightarrow> 'w loop_result option" where
  "run_tool_loop E q w0 =
     (let s = new_turn_state (env_tokenizer E) (req_model q)
      in if req_items q = [] then Some (Err EmptyPrompt, s, w0)
         else case env_cancelled E w0 of (cancelled, w1) \<Rightarrow>
           if cancelled then Some (Err LoopCancelled, s, w1)
           else iterate_loop E (executor_definitions (env_executor E)) (start_loop E q w1))"

end
