(* ===== verification/Turn_View.thy ===== *)
theory Turn_View
  imports Turn_State
begin

text \<open>
  What a request shows while it runs: the invariant \<open>turn_inv\<close> over the reported progress, kept by every
  operation of \<^verbatim>\<open>state.rs\<close>, and the part of a terminal's output that is new.
\<close>

section \<open>What the user sees while a request runs\<close>

fun thinking_of :: "loop_progress \<Rightarrow> bool option" where
  "thinking_of (Thinking b) = Some b" | "thinking_of _ = None"

fun output_of :: "loop_progress \<Rightarrow> nat option" where
  "output_of (OutputTokens n) = Some n" | "output_of _ = None"

fun input_of :: "loop_progress \<Rightarrow> nat option" where
  "input_of (InputTokens n) = Some n" | "input_of _ = None"

fun reasoning_of :: "loop_progress \<Rightarrow> ustring option" where
  "reasoning_of (ReasoningDelta t) = Some t" | "reasoning_of _ = None"

fun alternating :: "bool \<Rightarrow> bool list \<Rightarrow> bool" where
  "alternating b [] \<longleftrightarrow> True"
| "alternating b (x # xs) \<longleftrightarrow> x = b \<and> alternating (\<not> b) xs"

lemma alternating_snoc: "alternating b (xs @ [x]) \<longleftrightarrow> alternating b xs \<and> (x \<longleftrightarrow> b = even (length xs))"
  by (induction xs arbitrary: b) auto

fun context_of :: "loop_progress \<Rightarrow> conversation_item option" where
  "context_of (ProviderContextItem x) = Some x" | "context_of _ = None"

text \<open>A counter shows a rising sequence that its progress bounds.\<close>

definition counts_up :: "nat list \<Rightarrow> token_progress \<Rightarrow> bool" where
  "counts_up ns p \<longleftrightarrow> sorted ns \<and> (\<forall>n\<in>set ns. n \<le> total_tokens p) \<and> total_tokens p \<le> usize_max"

text \<open>
  The invariant of a request that has reported the context items \<open>xs\<close>: the thinking indicator goes
  on and off in turns, the two counters never go down, the reasoning text is what was shown.
\<close>

definition turn_inv :: "conversation_item list \<Rightarrow> turn_state \<Rightarrow> bool" where
  "turn_inv xs s \<longleftrightarrow>
     filter_map context_of (emitted s) = xs \<and>
     alternating True (filter_map thinking_of (emitted s)) \<and>
     (is_thinking s \<longleftrightarrow> odd (length (filter_map thinking_of (emitted s)))) \<and>
     counts_up (filter_map output_of (emitted s)) (output_progress s) \<and>
     counts_up (filter_map input_of (emitted s)) (input_progress s) \<and>
     reasoning_content s = concat (filter_map reasoning_of (emitted s))"

lemma counts_up_mono:
  "counts_up ns p \<Longrightarrow> total_tokens p \<le> total_tokens q \<Longrightarrow> total_tokens q \<le> usize_max \<Longrightarrow> counts_up ns q"
  by (auto simp: counts_up_def)

lemma counts_up_snoc:
  "counts_up ns p \<Longrightarrow> total_tokens p \<le> total_tokens q \<Longrightarrow> total_tokens q \<le> usize_max \<Longrightarrow>
     counts_up (ns @ [total_tokens q]) q"
  by (auto simp: counts_up_def sorted_append)

lemma observe_delta_total:
  assumes "observe_delta T delta now p = (r, q)" and "total_tokens p \<le> usize_max"
  shows "total_tokens p \<le> total_tokens q" and "total_tokens q \<le> usize_max"
    and "r = Some n \<Longrightarrow> n = total_tokens q"
  using assms by (auto simp: observe_delta_def flush_progress_def Let_def sat_add_usize_def split: if_splits)

lemma observe_complete_total:
  assumes "observe_complete_token_total T delta now p = (r, q)" and "total_tokens p \<le> usize_max"
  shows "total_tokens p \<le> total_tokens q" and "total_tokens q \<le> usize_max"
    and "r = Some n \<Longrightarrow> n = total_tokens q"
  using assms
  by (auto simp: observe_complete_token_total_def observe_delta_def flush_progress_def Let_def
      sat_add_usize_def split: if_splits option.splits prod.splits)

lemma observe_token_count_total:
  assumes "observe_token_count k now p = (r, q)" and "total_tokens p \<le> usize_max"
  shows "total_tokens p \<le> total_tokens q" and "total_tokens q \<le> usize_max"
    and "r = Some n \<Longrightarrow> n = total_tokens q"
  using assms by (auto simp: observe_token_count_def Let_def sat_add_usize_def split: if_splits)

lemma emit_fields [simp]:
  "emitted (emit p s) = emitted s @ [p]" "is_thinking (emit p s) = is_thinking s"
  "output_progress (emit p s) = output_progress s" "input_progress (emit p s) = input_progress s"
  "llm_output_progress (emit p s) = llm_output_progress s"
  "reasoning_content (emit p s) = reasoning_content s" "model_id (emit p s) = model_id s"
  "reasoning_started_at (emit p s) = reasoning_started_at s"
  "first_token_at (emit p s) = first_token_at s"
  "request_started_at (emit p s) = request_started_at s"
  by (simp_all add: emit_def)

definition same_view :: "turn_state \<Rightarrow> turn_state \<Rightarrow> bool" where
  "same_view s t \<longleftrightarrow> emitted t = emitted s \<and> is_thinking t = is_thinking s \<and>
     output_progress t = output_progress s \<and> input_progress t = input_progress s \<and>
     reasoning_content t = reasoning_content s"

lemma turn_inv_same_view: "turn_inv xs s \<Longrightarrow> same_view s t \<Longrightarrow> turn_inv xs t"
  by (simp add: turn_inv_def same_view_def)

lemma turn_inv_emit:
  assumes "turn_inv xs s" and "thinking_of p = None" "output_of p = None" "input_of p = None"
    "reasoning_of p = None" "context_of p = None"
  shows "turn_inv xs (emit p s)"
  using assms by (simp add: turn_inv_def)

lemma turn_inv_context:
  "turn_inv xs s \<Longrightarrow> turn_inv (xs @ [x]) (emit (ProviderContextItem x) s)"
  by (simp add: turn_inv_def)

lemma turn_inv_new: "turn_inv [] (new_turn_state T model)"
  by (simp add: turn_inv_def new_turn_state_def counts_up_def new_progress_def)

lemma turn_inv_mark_request_started [intro]: "turn_inv xs s \<Longrightarrow> turn_inv xs (mark_request_started now s)"
  by (erule turn_inv_same_view) (simp add: same_view_def mark_request_started_def)

lemma turn_inv_start [intro]: "turn_inv xs s \<Longrightarrow> turn_inv xs (start_provider_turn T now s)"
  by (erule turn_inv_same_view) (simp add: same_view_def start_provider_turn_def mark_request_started_def)

lemma same_view_usage: "same_view s (record_provider_usage u s)"
  by (simp add: same_view_def record_provider_usage_def)

lemma turn_inv_usage [intro]: "turn_inv xs s \<Longrightarrow> turn_inv xs (record_provider_usage u s)"
  using turn_inv_same_view same_view_usage by blast

lemma turn_inv_complete [intro]: "turn_inv xs s \<Longrightarrow> turn_inv xs (complete_provider_turn T c now s)"
  by (erule turn_inv_same_view)
     (simp add: same_view_def complete_provider_turn_def Let_def record_provider_usage_def split: option.splits)

lemma turn_inv_llm_started [intro]: "turn_inv xs s \<Longrightarrow> turn_inv xs (mark_llm_output_started now s)"
  by (erule turn_inv_same_view) (simp add: same_view_def mark_llm_output_started_def)

lemma turn_inv_stop_reasoning [intro]:
  "turn_inv xs s \<Longrightarrow> turn_inv xs (stop_reasoning_for_generated_output now s)"
  by (auto simp: turn_inv_def stop_reasoning_for_generated_output_def alternating_snoc)

lemma turn_inv_generated [intro]: "turn_inv xs s \<Longrightarrow> turn_inv xs (mark_generated_output_started now s)"
  by (auto simp: mark_generated_output_started_def)

lemma turn_inv_completed_generated [intro]:
  "turn_inv xs s \<Longrightarrow> turn_inv xs (mark_completed_generated_output_observed now s)"
  unfolding mark_completed_generated_output_observed_def
  by (rule turn_inv_stop_reasoning, erule turn_inv_same_view) (simp add: same_view_def)

lemma turn_inv_counted:
  assumes inv: "turn_inv xs s" and mono: "total_tokens (output_progress s) \<le> total_tokens q"
    and bound: "total_tokens q \<le> usize_max" and n: "\<And>n. r = Some n \<Longrightarrow> n = total_tokens q"
  shows "turn_inv xs (case (r, q) of (Some n, p) \<Rightarrow> emit (OutputTokens n) (s\<lparr>output_progress := p\<rparr>)
                                | (None, p) \<Rightarrow> s\<lparr>output_progress := p\<rparr>)"
  using assms counts_up_mono counts_up_snoc by (cases r) (auto simp: turn_inv_def)

lemma turn_inv_total: "turn_inv xs s \<Longrightarrow> total_tokens (output_progress s) \<le> usize_max"
  by (simp add: turn_inv_def counts_up_def)

lemma turn_inv_visible_delta [intro]:
  assumes "turn_inv xs s"
  shows "turn_inv xs (observe_visible_output_delta T content now s)"
proof (cases "observe_delta T content now (output_progress s)")
  case (Pair r q)
  show ?thesis
    unfolding observe_visible_output_delta_def Pair
    using turn_inv_counted[OF assms observe_delta_total[OF Pair turn_inv_total[OF assms]]] .
qed

lemma turn_inv_output_total [intro]:
  assumes "turn_inv xs s"
  shows "turn_inv xs (observe_output_total T content now s)"
proof (cases "observe_complete_token_total T content now (output_progress s)")
  case (Pair r q)
  show ?thesis
    unfolding observe_output_total_def Pair
    using turn_inv_counted[OF assms observe_complete_total[OF Pair turn_inv_total[OF assms]]] .
qed

lemma turn_inv_provider_delta [intro]:
  "turn_inv xs s \<Longrightarrow> turn_inv xs (observe_provider_output_delta T content now s)"
  unfolding observe_provider_output_delta_def
  by (rule turn_inv_visible_delta, erule turn_inv_same_view)
     (simp add: same_view_def observe_llm_output_delta_def)

lemma turn_inv_content [intro]: "turn_inv xs s \<Longrightarrow> turn_inv xs (observe_content_chunk T content now s)"
  by (auto simp: observe_content_chunk_def intro!: turn_inv_emit)

lemma turn_inv_reasoning [intro]:
  assumes "turn_inv xs s"
  shows "turn_inv xs (observe_reasoning_chunk T content now s)"
proof -
  from assms have s1: "turn_inv xs (mark_llm_output_started now s)" by blast
  let ?s1 = "mark_llm_output_started now s"
  have "turn_inv xs (emit (ReasoningDelta content)
      ((if is_thinking ?s1 then ?s1
        else emit (Thinking True) (?s1\<lparr>is_thinking := True, reasoning_started_at := r\<rparr>))
       \<lparr>reasoning_finished_at := Some now, reasoning_content :=
          reasoning_content ?s1 @ content\<rparr>))" for r
    using s1 by (auto simp: turn_inv_def alternating_snoc)
  then show ?thesis
    using assms by (auto simp: observe_reasoning_chunk_def Let_def)
qed

lemma turn_inv_call_started [intro]: "turn_inv xs s \<Longrightarrow> turn_inv xs (observe_tool_call_started index cid s)"
  by (erule turn_inv_same_view) (simp add: same_view_def observe_tool_call_started_def Let_def split: option.splits)

lemma turn_inv_maps:
  assumes "turn_inv xs s"
  shows "turn_inv xs (s\<lparr>tool_call_ids_by_index := a\<rparr>)" and "turn_inv xs (s\<lparr>argument_output_by_index := b\<rparr>)"
    and "turn_inv xs (s\<lparr>argument_output_by_id := c\<rparr>)"
    and "turn_inv xs (s\<lparr>argument_output_by_index := b, argument_output_by_id := c\<rparr>)"
    and "turn_inv xs (s\<lparr>terminal_output_by_id := c\<rparr>)"
  by (rule turn_inv_same_view[OF assms], simp add: same_view_def)+

lemma turn_inv_arguments [intro]:
  assumes "turn_inv xs s"
  shows "turn_inv xs (observe_tool_call_arguments_delta T index delta now s)"
  using assms
  by (auto simp: observe_tool_call_arguments_delta_def Let_def split: option.splits
      intro!: turn_inv_provider_delta turn_inv_maps turn_inv_generated)

lemma turn_inv_call_completed [intro]:
  assumes "turn_inv xs s"
  shows "turn_inv xs (observe_tool_call_completed T index call now s)"
  using assms
  by (auto simp: observe_tool_call_completed_def Let_def split: option.splits
      intro!: turn_inv_provider_delta turn_inv_maps turn_inv_completed_generated)

lemma turn_inv_response_calls [intro]:
  assumes "turn_inv xs s"
  shows "turn_inv xs (observe_response_tool_calls_completed T c now s)"
proof -
  have "turn_inv xs (foldl (\<lambda>s (index, call). observe_tool_call_completed T index call now s) t cs)"
    if "turn_inv xs t" for t cs
    using that by (induction cs arbitrary: t) auto
  with assms show ?thesis by (simp add: observe_response_tool_calls_completed_def Let_def)
qed

lemma turn_inv_tool_input [intro]:
  assumes inv: "turn_inv xs s"
  shows "turn_inv xs (observe_tool_result_input T item now s)"
proof (cases "observe_token_count (estimate_provider_item_input_tokens T (model_id s) item) now (input_progress s)")
  case (Pair r q)
  have "total_tokens (input_progress s) \<le> usize_max" using inv by (simp add: turn_inv_def counts_up_def)
  note total = observe_token_count_total[OF Pair this]
  with inv counts_up_mono counts_up_snoc show ?thesis
    by (cases r) (auto simp: observe_tool_result_input_def Pair turn_inv_def)
qed

lemma turn_inv_activity_output [intro]:
  "turn_inv xs s \<Longrightarrow> turn_inv xs (observe_tool_activity_output T activity content suppress now s)"
  by (auto simp: observe_tool_activity_output_def split: option.splits)

lemma turn_inv_terminal [intro]:
  assumes "turn_inv xs s"
  shows "turn_inv xs (observe_terminal_snapshot_output T snap now s)"
  using assms
  by (auto simp: observe_terminal_snapshot_output_def Let_def intro!: turn_inv_output_total turn_inv_maps)

section \<open>Output of a terminal is counted once\<close>

lemma overlap_fold:
  "foldl (\<lambda>overlap index. if P index then index else overlap) n0 xs =
     (case last_opt (filter P xs) of Some i \<Rightarrow> i | None \<Rightarrow> n0)"
  by (induction xs arbitrary: n0) (auto simp: last_opt_eq)

lemma sorted_le_last: "sorted xs \<Longrightarrow> x \<in> set xs \<Longrightarrow> x \<le> last xs"
  by (induction xs) (auto split: if_splits)

lemma overlap_length_max:
  assumes "ends_with previous (take k current)" and "k < length current"
  shows "k \<le> overlap_length previous current"
proof -
  let ?P = "\<lambda>i. ends_with previous (take i current)"
  let ?xs = "filter ?P [1..<length current]"
  show ?thesis
  proof (cases "k = 0")
    case False
    with assms have k: "k \<in> set ?xs" by auto
    have "sorted ?xs" by (intro sorted_wrt_filter) simp
    from this k have "k \<le> last ?xs"
      by (rule sorted_le_last)
    moreover from k have "?xs \<noteq> []" by (metis empty_iff list.set(1))
    then have "overlap_length previous current = last ?xs"
      by (simp add: overlap_length_def overlap_fold last_opt_eq)
    ultimately show ?thesis by simp
  qed simp
qed

lemma overlap_length_overlaps:
  "ends_with previous (take (overlap_length previous current) current)"
proof -
  let ?xs = "filter (\<lambda>i. ends_with previous (take i current)) [1..<length current]"
  have "?xs \<noteq> [] \<Longrightarrow> ends_with previous (take (last ?xs) current)"
    using last_in_set[of ?xs] by auto
  then show ?thesis
    by (auto simp: overlap_length_def overlap_fold last_opt_eq ends_with_suffix)
qed

text \<open>
  The delta is what is left of the current output behind the longest beginning of it that the
  previous output ends with.
\<close>

lemma terminal_output_delta_spec:
  assumes "previous \<noteq> []" and "strip_prefix current previous = None"
  shows "\<exists>k\<le>length current. terminal_output_delta previous current = drop k current \<and>
    suffix (take k current) previous \<and>
    (\<forall>j\<le>length current. suffix (take j current) previous \<longrightarrow> j \<le> k)"
proof (cases "ends_with previous current")
  case True
  with assms show ?thesis
    by (intro exI[of _ "length current"]) (auto simp: terminal_output_delta_def ends_with_suffix)
next
  case False
  have bound: "overlap_length previous current \<le> length current"
  proof -
    let ?xs = "filter (\<lambda>i. ends_with previous (take i current)) [1..<length current]"
    have "?xs \<noteq> [] \<Longrightarrow> last ?xs \<le> length current" using last_in_set[of ?xs] by auto
    then show ?thesis by (auto simp: overlap_length_def overlap_fold last_opt_eq)
  qed
  have "j \<le> overlap_length previous current" if "j \<le> length current" "suffix (take j current) previous" for j
  proof (cases "j = length current")
    case True
    with that False show ?thesis by (simp add: ends_with_suffix)
  next
    case False
    with that overlap_length_max[of previous j current] show ?thesis by (simp add: ends_with_suffix)
  qed
  with assms False bound overlap_length_overlaps[of previous current] show ?thesis
    by (intro exI[of _ "overlap_length previous current"])
       (auto simp: terminal_output_delta_def ends_with_suffix)
qed

end
