(* ===== verification/Loop_Runs.thy ===== *)
theory Loop_Runs
  imports Tool_Loop Turn_View
begin

text \<open>
  Properties of whole runs of the tool loop: every call is answered by one result, in order; what is
  returned is what was reported and sent; a limit on tool turns ends the loop; the code of a tool
  that is never approved does not matter; cancellation.
\<close>

section \<open>Every call is answered\<close>

fun answers :: "tool_call \<Rightarrow> conversation_item \<Rightarrow> bool" where
  "answers call (ToolResult cid _ _) \<longleftrightarrow> cid = call_id call"
| "answers call _ \<longleftrightarrow> False"

text \<open>A context made of rounds: what the provider sent, then one result per call, in order.\<close>

inductive answered :: "conversation_item list \<Rightarrow> bool" where
  answered_Nil: "answered []"
| answered_round: "answered xs \<Longrightarrow> list_all2 answers (extract_tool_calls out_items) results \<Longrightarrow>
     answered (xs @ out_items @ results)"

lemma execution_call_id:
  "pres_call_id (provider_result (fst (execute_tool_call E defs call s w))) = call_id call"
  by (auto simp: execute_tool_call_def invalid_arguments_tool_execution_def finish_execution_def Let_def
      split: sum.splits prod.splits option.splits)

lemma run_call_answers: "answers call (fst (fst (run_call E defs call s w)))"
  using execution_call_id[of E defs call]
  by (auto simp: run_call_def Let_def tool_result_item_def interrupted_tool_execution_def
      split: prod.splits if_splits) (metis fst_conv)+

lemma run_calls_answer: "list_all2 answers calls (map fst (fst (run_calls E defs calls s w)))"
proof (induction calls arbitrary: s w)
  case (Cons call calls)
  obtain r s1 w1 where r: "run_call E defs call s w = (r, s1, w1)" by (cases "run_call E defs call s w")
  obtain rs s2 w2 where rs: "run_calls E defs calls s1 w1 = (rs, s2, w2)"
    by (cases "run_calls E defs calls s1 w1")
  from run_call_answers[of call E defs s w] Cons[of s1 w1] r rs show ?case by simp
qed simp

section \<open>What the loop appends is what it reports and what it sends\<close>

lemma turn_inv_at_now:
  assumes "turn_inv xs (fst sw)" and "\<And>now s. turn_inv xs s \<Longrightarrow> turn_inv xs (f now s)"
  shows "turn_inv xs (fst (at_now E f sw))"
  using assms by (cases sw) (auto simp: at_now_def split: prod.splits)

lemma turn_inv_sink:
  assumes "turn_inv xs (fst (snd csw))"
  shows "turn_inv xs (fst (snd (sink_emit E ev csw)))"
proof -
  obtain c s w where csw: "csw = (c, s, w)" by (cases csw)
  with assms have s: "turn_inv xs s" by simp
  show ?thesis
    by (cases ev) (use s in \<open>auto simp: csw intro!: turn_inv_at_now\<close>)
qed

lemma turn_inv_drive_stream:
  "turn_inv xs s \<Longrightarrow> drive_stream E run c s = (r, c', s', w') \<Longrightarrow> turn_inv xs s'"
proof (induction run arbitrary: c s)
  case (StreamEmits ev w k)
  obtain c1 s1 w1 where e: "sink_emit E ev (c, s, w) = (c1, s1, w1)"
    by (cases "sink_emit E ev (c, s, w)")
  from turn_inv_sink[of xs "(c, s, w)" E ev] StreamEmits.prems(1) e have "turn_inv xs s1" by simp
  from StreamEmits.IH[OF rangeI this] StreamEmits.prems(2) e show ?case by simp
qed auto

lemma turn_inv_stream_provider_turn:
  assumes "turn_inv xs s" and "stream_provider_turn E q s w = (r, s', w')"
  shows "turn_inv xs s'"
proof -
  have start: "turn_inv xs s1" if "at_now E (start_provider_turn T) (emit ProviderTurnStarted s, w1) = (s1, w2)"
    for T w1 s1 w2
    using turn_inv_at_now[of xs "(emit ProviderTurnStarted s, w1)" "start_provider_turn T" E]
      turn_inv_emit[OF assms(1), of ProviderTurnStarted] that by auto
  have complete: "turn_inv xs s3"
    if "turn_inv xs s2" "at_now E (\<lambda>now s. complete_provider_turn T c now
          (observe_response_tool_calls_completed T c now s)) (s2, w3) = (s3, w4)" for s2 s3 w3 w4 T c
    using turn_inv_at_now[of xs "(s2, w3)" "\<lambda>now s. complete_provider_turn T c now
          (observe_response_tool_calls_completed T c now s)" E] that by auto
  from assms show ?thesis
    unfolding stream_provider_turn_def Let_def
    by (auto split: prod.splits if_splits option.splits sum.splits provider_error.splits
        dest: start turn_inv_drive_stream) (metis complete start turn_inv_drive_stream)+
qed

lemma turn_inv_drive_tool:
  "turn_inv xs s \<Longrightarrow> drive_tool E run s = (r, s', w') \<Longrightarrow> turn_inv xs s'"
proof (induction run arbitrary: s)
  case (ToolEmits p w k)
  obtain s1 w1 where e: "emit_tool_progress E p (s, w) = (s1, w1)" by (cases "emit_tool_progress E p (s, w)")
  have "turn_inv xs (fst (emit_tool_progress E p (s, w)))"
    by (cases p) (use ToolEmits.prems(1) in \<open>auto intro!: turn_inv_at_now turn_inv_emit\<close>)
  with e have "turn_inv xs s1" by simp
  from ToolEmits.IH[OF rangeI this] ToolEmits.prems(2) e show ?case by simp
qed auto

lemma turn_inv_execute:
  assumes "turn_inv xs s" and "execute_tool_call E defs call s w = (x, s', w')"
  shows "turn_inv xs s'"
  using assms
  by (auto simp: execute_tool_call_def execute_tool_with_progress_def Let_def
      split: sum.splits prod.splits option.splits dest: turn_inv_drive_tool)

lemma turn_inv_run_call:
  assumes inv: "turn_inv xs s" and run: "run_call E defs call s w = (r, s', w')"
  shows "turn_inv xs s'"
proof -
  let ?s1 = "emit (ToolActivityStarted (activity_from_call (env_json E) (env_parse_error E) call defs)) s"
  have s1: "turn_inv xs ?s1" by (rule turn_inv_emit[OF inv]) simp_all
  obtain c w1 where c: "env_cancelled E w = (c, w1)" by (cases "env_cancelled E w")
  obtain x s2 w2 where x: "(if c then (interrupted_tool_execution call, ?s1, w1)
      else execute_tool_call E defs call ?s1 w1) = (x, s2, w2)"
    by (cases "if c then (interrupted_tool_execution call, ?s1, w1)
      else execute_tool_call E defs call ?s1 w1")
  with s1 have s2: "turn_inv xs s2" by (auto split: if_splits dest: turn_inv_execute)
  let ?u = "update_from_result (env_json E) (env_parse_error E) call (raw_result x) (processed_error x) defs"
  have "turn_inv xs (emit (ToolActivityUpdated ?u) s2)" by (rule turn_inv_emit[OF s2]) simp_all
  with turn_inv_at_now[of xs "(emit (ToolActivityUpdated ?u) s2, w2)"
      "observe_tool_activity_output (env_tokenizer E) (upd_id ?u) (update_token_text (env_json E) ?u)
        (update_duplicates_tool_arguments ?u)" E]
  have "turn_inv xs (fst (at_now E (observe_tool_activity_output (env_tokenizer E) (upd_id ?u)
      (update_token_text (env_json E) ?u) (update_duplicates_tool_arguments ?u))
      (emit (ToolActivityUpdated ?u) s2, w2)))" by auto
  with run show ?thesis
    by (auto simp: run_call_def Let_def c x simp del: update_id split: prod.splits)
qed

lemma turn_inv_run_calls:
  "turn_inv xs s \<Longrightarrow> run_calls E defs calls s w = (rs, s', w') \<Longrightarrow> turn_inv xs s'"
  by (induction calls arbitrary: s w rs s' w')
     (auto split: prod.splits dest: turn_inv_run_call)

lemma turn_inv_append: "turn_inv xs s \<Longrightarrow> turn_inv (xs @ ys) (append_provider_context_items ys s)"
proof (induction ys arbitrary: xs s)
  case (Cons y ys)
  from Cons.IH[OF turn_inv_context[OF Cons.prems, of y]] show ?case
    by (simp add: append_provider_context_items_def)
qed (simp add: append_provider_context_items_def)

lemma turn_inv_return_results:
  "turn_inv xs (fst sw) \<Longrightarrow> turn_inv (xs @ ys) (fst (return_results E ys sw))"
proof (induction ys arbitrary: xs sw)
  case (Cons y ys)
  obtain s w where sw: "at_now E (observe_tool_result_input (env_tokenizer E) y) sw = (s, w)"
    by (cases "at_now E (observe_tool_result_input (env_tokenizer E) y) sw")
  from turn_inv_at_now[OF Cons.prems, of "observe_tool_result_input (env_tokenizer E) y" E] sw
  have "turn_inv xs s" by auto
  from Cons.IH[of "xs @ [y]" "(append_provider_context_items [y] s, w)"] turn_inv_append[OF this, of "[y]"]
  show ?case by (simp add: sw)
qed simp

section \<open>Rounds of the loop\<close>

text \<open>What holds between two rounds of a loop that was started for the request \<open>q\<close>.\<close>

definition loop_inv :: "('w, 'o) loop_env \<Rightarrow> 'o prompt_request \<Rightarrow> ('w, 'o) loop_state \<Rightarrow> bool" where
  "loop_inv E q L \<longleftrightarrow>
     turn_inv (loop_appended L) (loop_turn L) \<and>
     answered (loop_appended L) \<and>
     req_items (loop_request L) = req_items q @ loop_appended L \<and>
     (case env_max_turns E of Some m \<Rightarrow> loop_turns L \<le> m | None \<Rightarrow> True)"

text \<open>The completions a stream can deliver, as an event or as its answer.\<close>

inductive delivers :: "'w stream_run \<Rightarrow> prompt_completion \<Rightarrow> bool" where
  delivers_answer: "delivers (StreamEnds (Inr c) w) c"
| delivers_event: "delivers (StreamEmits (TurnCompleted c) w k) c"
| delivers_later: "delivers (k w') c \<Longrightarrow> delivers (StreamEmits ev w k) c"

definition provider_delivers :: "('w, 'o) loop_env \<Rightarrow> prompt_completion \<Rightarrow> bool" where
  "provider_delivers E c \<longleftrightarrow> (\<exists>q w. delivers (env_stream E q w) c)"

lemma sink_completion:
  "fst (sink_emit E ev (c, s, w)) = (case ev of TurnCompleted d \<Rightarrow> Some d | _ \<Rightarrow> c)"
  by (cases ev) simp_all

lemma drive_stream_delivers:
  assumes "drive_stream E run c s = (r, c', s', w')" and "c' = Some d" and "c \<noteq> Some d"
  shows "delivers run d"
  using assms
proof (induction run arbitrary: c s)
  case (StreamEmits ev w k)
  obtain c1 s1 w1 where e: "sink_emit E ev (c, s, w) = (c1, s1, w1)"
    by (cases "sink_emit E ev (c, s, w)")
  show ?case
  proof (cases "c1 = Some d")
    case True
    with e sink_completion[of E ev c s w] StreamEmits.prems have "ev = TurnCompleted d"
      by (cases ev) auto
    then show ?thesis by (auto intro: delivers_event)
  next
    case False
    with StreamEmits.IH[OF rangeI _ StreamEmits.prems(2) False] StreamEmits.prems(1) e
    have "delivers (k w1) d" by auto
    then show ?thesis by (rule delivers_later)
  qed
qed auto

lemma drive_stream_answer:
  "drive_stream E run c s = (Some (Inr d), c', s', w') \<Longrightarrow> delivers run d"
proof (induction run arbitrary: c s)
  case (StreamEmits ev w k)
  obtain c1 s1 w1 where e: "sink_emit E ev (c, s, w) = (c1, s1, w1)"
    by (cases "sink_emit E ev (c, s, w)")
  with StreamEmits.IH[OF rangeI, of w1 c1 s1] StreamEmits.prems show ?case
    by (auto intro: delivers_later)
qed (auto intro: delivers_answer)

lemma provider_turn_delivers:
  assumes "stream_provider_turn E q s w = (Inr completion, s', w')"
  shows "provider_delivers E completion"
  using assms
  by (auto simp: stream_provider_turn_def Let_def provider_delivers_def
      split: prod.splits if_splits option.splits sum.splits provider_error.splits
      dest: drive_stream_answer drive_stream_delivers)

text \<open>
  How a loop ends: with a completion, whose items were all reported, or with an error, after which
  what was reported may end in a round whose results are missing.
\<close>

definition loop_done :: "('w, 'o) loop_env \<Rightarrow> 'w loop_result \<Rightarrow> bool" where
  "loop_done E R \<longleftrightarrow>
     (case R of
        (Inr c, s, w) \<Rightarrow>
          turn_inv (response_items (response c)) s \<and>
          (\<exists>rounds final. response_items (response c) = rounds @ final \<and> answered rounds \<and>
             (final = [] \<or> (\<exists>completion. provider_delivers E completion \<and> completion_items completion = final \<and>
                (\<not> is_tool_call (finish_reason completion) \<or> extract_tool_calls final = []))))
      | (Inl err, s, w) \<Rightarrow> (\<exists>xs. turn_inv xs s \<and> answered xs))"

lemma finish_at_items [simp]: "response_items (response (finish_at s xs)) = xs"
  by (simp add: finish_at_def)

lemma loop_done_completion:
  assumes "turn_inv (rounds @ final) s" and "answered rounds"
    and "final = [] \<or> (\<exists>completion. provider_delivers E completion \<and> completion_items completion = final \<and>
      (\<not> is_tool_call (finish_reason completion) \<or> extract_tool_calls final = []))"
  shows "loop_done E (finish_loop E' (rounds @ final) s w)"
  using assms by (auto simp: loop_done_def finish_loop_def split: prod.splits)

lemma return_results_append:
  assumes "turn_inv xs s"
    and "(if stop then (append_provider_context_items results s, w) else return_results E results (s, w)) = (s', w')"
  shows "turn_inv (xs @ results) s'"
  using assms turn_inv_append[of xs s results] turn_inv_return_results[of xs "(s, w)" results E]
  by (auto split: if_splits)

lemma loop_step_cases:
  assumes step: "loop_step E defs L = R"
    and inv: "turn_inv (loop_appended L) (loop_turn L)"
  obtains (error) err s w where "R = Inl (Err err, s, w)" "turn_inv (loop_appended L) s"
    | (finished) completion s w where
        "R = Inl (finish_loop E (loop_appended L @ completion_items completion) s w)"
        "turn_inv (loop_appended L @ completion_items completion) s"
        "provider_delivers E completion"
        "\<not> is_tool_call (finish_reason completion) \<or> extract_tool_calls (completion_items completion) = []"
    | (round) out_items results s w where
        "turn_inv (loop_appended L @ out_items @ results) s"
        "list_all2 answers (extract_tool_calls out_items) results"
        "extract_tool_calls out_items \<noteq> []"
        "\<And>m. env_max_turns E = Some m \<Longrightarrow> loop_turns L < m"
        "R = Inl (Err LoopCancelled, s, w) \<or>
         R = Inl (finish_loop E (loop_appended L @ out_items @ results) s w) \<or>
         R = Inr \<lparr>loop_request = request_with_items (out_items @ results) (loop_request L),
                  loop_turns = sat_add_usize (loop_turns L) 1,
                  loop_appended = loop_appended L @ out_items @ results,
                  loop_turn = s, loop_world = w\<rparr>"
proof -
  obtain r s0 w0 where p: "stream_provider_turn E (loop_request L) (loop_turn L) (loop_world L) = (r, s0, w0)"
    by (cases "stream_provider_turn E (loop_request L) (loop_turn L) (loop_world L)")
  have s0: "turn_inv (loop_appended L) s0" by (rule turn_inv_stream_provider_turn[OF inv p])
  show thesis
  proof (cases r)
    case (Inl err)
    with step p have "R = Inl (Err err, s0, w0)" by (simp add: loop_step_def)
    from error[OF this s0] show thesis .
  next
    case (Inr completion)
    let ?out = "completion_items completion"
    let ?calls = "extract_tool_calls ?out"
    let ?s0 = "append_provider_context_items ?out s0"
    have s0': "turn_inv (loop_appended L @ ?out) ?s0" by (rule turn_inv_append[OF s0])
    show thesis
    proof (cases "\<not> is_tool_call (finish_reason completion) \<or> ?calls = []")
      case True
      with step p Inr s0' finished[OF _ _ provider_turn_delivers] show thesis by (auto simp: loop_step_def Let_def)
    next
      case False
      show thesis
      proof (cases "\<exists>m. env_max_turns E = Some m \<and> m \<le> loop_turns L")
        case True
        with step p Inr False s0 error show thesis by (auto simp: loop_step_def Let_def)
      next
        case limit: False
        obtain batch s1 w1 where b: "run_calls E defs ?calls ?s0 w0 = (batch, s1, w1)"
          by (cases "run_calls E defs ?calls ?s0 w0")
        have s1: "turn_inv (loop_appended L @ ?out) s1" by (rule turn_inv_run_calls[OF s0' b])
        let ?stop = "list_all snd batch" let ?results = "map fst batch"
        obtain s2 w2 where e: "(if ?stop then (append_provider_context_items ?results s1, w1)
            else return_results E ?results (s1, w1)) = (s2, w2)"
          by (cases "if ?stop then (append_provider_context_items ?results s1, w1)
            else return_results E ?results (s1, w1)")
        have s2: "turn_inv (loop_appended L @ ?out @ ?results) s2"
          using return_results_append[OF s1 e] by simp
        obtain c w3 where c: "env_cancelled E w2 = (c, w3)" by (cases "env_cancelled E w2")
        have all: "list_all2 answers ?calls ?results" using run_calls_answer[of ?calls E defs ?s0 w0] b by simp
        have lim: "loop_turns L < m" if "env_max_turns E = Some m" for m
          using limit that by (meson not_le)
        have calls: "?calls \<noteq> []" using False by simp
        have "R = (if c then Inl (Err LoopCancelled, s2, w3)
            else if ?stop then Inl (finish_loop E (loop_appended L @ ?out @ ?results) s2 w3)
            else Inr \<lparr>loop_request = request_with_items (?out @ ?results) (loop_request L),
                  loop_turns = sat_add_usize (loop_turns L) 1,
                  loop_appended = loop_appended L @ ?out @ ?results, loop_turn = s2, loop_world = w3\<rparr>)"
          using step False limit p Inr b e c by (auto simp: loop_step_def Let_def split: option.splits)
        then show thesis
          by (intro round[OF s2 all calls lim, of w3]) (simp_all split: if_splits)
      qed
    qed
  qed
qed

lemma loop_inv_step:
  assumes inv: "loop_inv E q L" and step: "loop_step E defs L = Inr L'"
  shows "loop_inv E q L'"
proof -
  from inv have t: "turn_inv (loop_appended L) (loop_turn L)" by (simp add: loop_inv_def)
  from step t show ?thesis
  proof (cases rule: loop_step_cases)
    case (round out_items results s w)
    from inv have "answered (loop_appended L)" by (simp add: loop_inv_def)
    from answered_round[OF this round(2)] have "answered (loop_appended L @ out_items @ results)" .
    with inv round show ?thesis
      by (auto simp: loop_inv_def request_with_items_def sat_add_usize_def Suc_le_eq
          split: option.splits)
  qed simp_all
qed

lemma loop_done_step:
  assumes inv: "loop_inv E q L" and step: "loop_step E defs L = Inl R"
  shows "loop_done E R"
proof -
  from inv have t: "turn_inv (loop_appended L) (loop_turn L)" and a: "answered (loop_appended L)"
    by (simp_all add: loop_inv_def)
  from step t show ?thesis
  proof (cases rule: loop_step_cases)
    case (error err s w)
    with a show ?thesis by (auto simp: loop_done_def)
  next
    case (finished completion s w)
    with a show ?thesis by (auto intro!: loop_done_completion)
  next
    case (round out_items results s w)
    from answered_round[OF a round(2)] have "answered (loop_appended L @ out_items @ results)" .
    moreover from this round(1) have "loop_done E (Err LoopCancelled, s, w)"
      by (auto simp: loop_done_def)
    ultimately show ?thesis
      using round(1,5) loop_done_completion[of "loop_appended L @ out_items @ results" "[]" s E E w] by auto
  qed
qed

lemma iterate_loop_done:
  assumes "iterate_loop E defs L = Some R" and "loop_inv E q L"
  shows "loop_done E R"
proof -
  have "loop_inv E q L \<longrightarrow> loop_done E R"
  proof (rule iterate_loop.raw_induct[where P = "\<lambda>E defs L R. loop_inv E q L \<longrightarrow> loop_done E R", OF _ assms(1)])
    fix rec :: "('a, 'b) loop_env \<Rightarrow> tool_registry \<Rightarrow> ('a, 'b) loop_state \<Rightarrow> 'a loop_result option"
      and E :: "('a, 'b) loop_env" and defs L R
    assume IH: "\<And>E defs L R. rec E defs L = Some R \<Longrightarrow> loop_inv E q L \<longrightarrow> loop_done E R"
      and step: "(case loop_step E defs L of Inl r \<Rightarrow> Some r | Inr L' \<Rightarrow> rec E defs L') = Some R"
    show "loop_inv E q L \<longrightarrow> loop_done E R"
    proof
      assume inv: "loop_inv E q L"
      show "loop_done E R"
      proof (cases "loop_step E defs L")
        case (Inl r)
        with step loop_done_step[OF inv Inl] show ?thesis by simp
      next
        case (Inr L')
        with step IH[of E defs L' R] loop_inv_step[OF inv Inr] show ?thesis by simp
      qed
    qed
  qed
  with assms(2) show ?thesis by simp
qed

lemma start_loop_inv: "loop_inv E q (start_loop E q w)"
  by (auto simp: loop_inv_def start_loop_def turn_inv_new answered_Nil split: option.splits)

theorem run_tool_loop_done:
  assumes "run_tool_loop E q w = Some R"
  shows "loop_done E R"
proof -
  have "loop_done E (Err err, new_turn_state T m, w')" for err T m w'
    using turn_inv_new[of T m] answered_Nil by (auto simp: loop_done_def)
  with assms show ?thesis
    by (auto simp: run_tool_loop_def Let_def split: if_splits prod.splits
        intro: iterate_loop_done[OF _ start_loop_inv])
qed

section \<open>The loop ends\<close>

lemma iterate_loop_step:
  "iterate_loop E defs L = (case loop_step E defs L of Inl r \<Rightarrow> Some r | Inr L' \<Rightarrow> iterate_loop E defs L')"
  by (rule iterate_loop.simps)

lemma iterate_loop_terminates:
  assumes "env_max_turns E = Some m" and "m \<le> usize_max" and "loop_inv E q L"
  shows "iterate_loop E defs L \<noteq> None"
  using assms(3)
proof (induction "m - loop_turns L" arbitrary: L rule: less_induct)
  case less
  show ?case
  proof (cases "loop_step E defs L")
    case (Inl r)
    then show ?thesis by (subst iterate_loop_step) simp
  next
    case (Inr L')
    from less.prems have t: "turn_inv (loop_appended L) (loop_turn L)" by (simp add: loop_inv_def)
    from Inr t have "loop_turns L' = Suc (loop_turns L) \<and> loop_turns L < m"
      using assms(1,2) by (cases rule: loop_step_cases) (auto simp: sat_add_usize_def)
    then have "m - loop_turns L' < m - loop_turns L" by (metis diff_less_mono2 lessI)
    from less.hyps[OF this loop_inv_step[OF less.prems Inr]] Inr show ?thesis
      by (subst iterate_loop_step) simp
  qed
qed

theorem run_tool_loop_terminates:
  assumes "env_max_turns E = Some m" and "m \<le> usize_max"
  shows "run_tool_loop E q w \<noteq> None"
  using iterate_loop_terminates[OF assms start_loop_inv]
  by (auto simp: run_tool_loop_def Let_def split: prod.splits)

section \<open>A tool that is not approved does not run\<close>

text \<open>
  The loop cannot tell what code a tool has that it may never run: a tool of the policy \<open>Never\<close>, or
  one that must ask when nobody answers or the answer is always no.
\<close>

definition never_approved :: "('w, 'o) loop_env \<Rightarrow> 'w tool \<Rightarrow> bool" where
  "never_approved E t \<longleftrightarrow>
     (case def_policy (tool_spec t) of
        Always \<Rightarrow> False
      | Never \<Rightarrow> True
      | Ask \<Rightarrow> (case env_handler E of
                  None \<Rightarrow> True
                | Some ask \<Rightarrow> \<forall>q w. req_definition q = tool_spec t \<longrightarrow> fst (ask q w) \<noteq> Allow))"

definition rearm ::
    "('w, 'o) loop_env \<Rightarrow> (ustring \<Rightarrow> invocation \<Rightarrow> 'w execution_context \<Rightarrow> 'w \<Rightarrow> 'w tool_run)
      \<Rightarrow> ('w, 'o) loop_env" where
  "rearm E code =
     E\<lparr>env_executor :=
         map (\<lambda>(n, t). (n, if never_approved E t then t\<lparr>tool_execute := code n\<rparr> else t)) (env_executor E)\<rparr>"

lemma rearm_fields [simp]:
  "env_cancelled (rearm E code) = env_cancelled E" "env_now (rearm E code) = env_now E"
  "env_stream (rearm E code) = env_stream E" "env_handler (rearm E code) = env_handler E"
  "env_formatter (rearm E code) = env_formatter E" "env_max_turns (rearm E code) = env_max_turns E"
  "env_json (rearm E code) = env_json E" "env_parse_error (rearm E code) = env_parse_error E"
  "env_join_error (rearm E code) = env_join_error E" "env_numbers (rearm E code) = env_numbers E"
  "env_tokenizer (rearm E code) = env_tokenizer E"
  by (simp_all add: rearm_def)

lemma rearm_lookup:
  "map_of (env_executor (rearm E code)) n =
     map_option (\<lambda>t. if never_approved E t then t\<lparr>tool_execute := code n\<rparr> else t)
       (map_of (env_executor E) n)"
proof -
  have "map_of (map (\<lambda>(n, t). (n, f n t)) ex) n = map_option (f n) (map_of ex n)" for f :: "ustring \<Rightarrow> 'a tool \<Rightarrow> 'a tool" and ex
    by (induction ex) auto
  from this[of "\<lambda>n t. if never_approved E t then t\<lparr>tool_execute := code n\<rparr> else t"] show ?thesis
    by (simp add: rearm_def)
qed

lemma rearm_definitions [simp]:
  "executor_definitions (env_executor (rearm E code)) = executor_definitions (env_executor E)"
proof -
  have "foldl (\<lambda>r t. registry_insert (tool_spec t) r) r0 (map snd (map (\<lambda>(n, t). (n, f n t)) ex)) =
      foldl (\<lambda>r t. registry_insert (tool_spec t) r) r0 (map snd ex)"
    if "\<And>n t. tool_spec (f n t) = tool_spec t" for f :: "ustring \<Rightarrow> 'a tool \<Rightarrow> 'a tool" and ex r0
    by (induction ex arbitrary: r0) (auto simp: that)
  from this[of "\<lambda>n t. if never_approved E t then t\<lparr>tool_execute := code n\<rparr> else t"] show ?thesis
    by (simp add: executor_definitions_def rearm_def)
qed

lemma rearm_at_now [simp]: "at_now (rearm E code) = at_now E"
  by (simp add: at_now_def fun_eq_iff)

lemma rearm_sink [simp]: "sink_emit (rearm E code) ev csw = sink_emit E ev csw"
  by (cases ev; cases csw) auto

lemma rearm_drive_stream [simp]: "drive_stream (rearm E code) run c s = drive_stream E run c s"
  by (induction run arbitrary: c s) (auto split: prod.splits)

lemma rearm_provider_turn [simp]: "stream_provider_turn (rearm E code) = stream_provider_turn E"
  unfolding stream_provider_turn_def[abs_def] rearm_fields rearm_at_now rearm_drive_stream ..

lemma rearm_emit_progress [simp]: "emit_tool_progress (rearm E code) p sw = emit_tool_progress E p sw"
  by (cases p; cases sw) auto

lemma rearm_drive_tool [simp]: "drive_tool (rearm E code) run s = drive_tool E run s"
  by (induction run arbitrary: s) (auto split: prod.splits)

lemma rearm_finish [simp]: "finish_execution (rearm E code) = finish_execution E"
  by (simp add: finish_execution_def fun_eq_iff)

lemma rearm_return [simp]: "return_results (rearm E code) xs sw = return_results E xs sw"
  by (induction xs arbitrary: sw) (auto split: prod.splits)

lemma rearm_finish_loop [simp]: "finish_loop (rearm E code) = finish_loop E"
  by (simp add: finish_loop_def fun_eq_iff)

lemma rearm_preview [simp]: "preview_from_executor (rearm E code) call w = preview_from_executor E call w"
  by (auto simp: preview_from_executor_def executor_preview_def rearm_lookup split: option.splits prod.splits)

lemma rearm_authorize [simp]: "authorize_tool_call (rearm E code) = authorize_tool_call E"
  unfolding authorize_tool_call_def[abs_def] rearm_fields rearm_preview ..

text \<open>What an authorization without denial stands for.\<close>

lemma authorized_cases:
  assumes "authorize_tool_call E defs call w = (auth, w')" and "denial_message auth = None"
  obtains (unknown) "registry_definition defs (inv_name call) = None" "permission_snapshot auth = None" "w' = w"
  | (always) d where "registry_definition defs (inv_name call) = Some d" "def_policy d = Always"
      "permission_snapshot auth = None" "w' = w"
  | (granted) d ask preview w1 where "registry_definition defs (inv_name call) = Some d" "def_policy d = Ask"
      "env_handler E = Some ask" "preview_from_executor E call w = (Ok preview, w1)"
      "def_kind d = Write \<or> def_kind d = Edit \<Longrightarrow> preview \<noteq> None"
      "ask \<lparr>req_call = call, req_definition = d, req_preview = preview\<rparr> w1 = (Allow, w')"
      "permission_snapshot auth = Option.bind preview prev_snapshot"
proof (cases "registry_definition defs (inv_name call)")
  case None
  with assms(1) have "auth = authorization_allow None" "w' = w" by (simp_all add: authorize_tool_call_def)
  with None unknown show thesis by (simp add: authorization_allow_def)
next
  case (Some d)
  show thesis
  proof (cases "def_policy d")
    case Always
    with assms(1) Some have "auth = authorization_allow None" "w' = w" by (simp_all add: authorize_tool_call_def)
    with Some Always always show thesis by (simp add: authorization_allow_def)
  next
    case Never
    with assms Some show thesis by (auto simp: authorize_tool_call_def authorization_deny_def)
  next
    case Ask
    obtain r w1 where p: "preview_from_executor E call w = (r, w1)" by (cases "preview_from_executor E call w")
    from assms Some Ask p obtain ask preview where h: "env_handler E = Some ask" "r = Ok preview"
      "\<not> ((def_kind d = Write \<or> def_kind d = Edit) \<and> preview = None)"
      by (auto simp: authorize_tool_call_def authorization_deny_def split: option.splits sum.splits if_splits)
    obtain dec w2 where a: "ask ((new_request call d)\<lparr>req_preview := preview\<rparr>) w1 = (dec, w2)"
      by (cases "ask ((new_request call d)\<lparr>req_preview := preview\<rparr>) w1")
    from assms Some Ask p h a have "dec = Allow" "w2 = w'" "permission_snapshot auth = Option.bind preview prev_snapshot"
      by (auto simp: authorize_tool_call_def authorization_deny_def authorization_allow_def
          split: permission_decision.splits)
    with granted[OF Some Ask h(1), of preview w1] p h a show thesis by (auto simp: new_request_def)
  qed
qed

lemma authorized_is_approved:
  assumes "executor_wf (env_executor E)"
    and "authorize_tool_call E (executor_definitions (env_executor E)) call w = (auth, w')"
    and "denial_message auth = None" and "map_of (env_executor E) (inv_name call) = Some t"
  shows "\<not> never_approved E t"
proof -
  have d: "registry_definition (executor_definitions (env_executor E)) (inv_name call) = Some (tool_spec t)"
    by (simp add: executor_definitions_lookup[OF assms(1)] assms(4))
  from assms(2,3) show ?thesis
  proof (cases rule: authorized_cases)
    case (granted d' ask preview w1)
    then have "fst (ask \<lparr>req_call = call, req_definition = d', req_preview = preview\<rparr> w1) = Allow"
      and "d' = tool_spec t" using d by auto
    with granted(2,3) show ?thesis
      by (auto simp: never_approved_def
          intro!: exI[of _ "\<lparr>req_call = call, req_definition = d', req_preview = preview\<rparr>"] exI[of _ w1])
  qed (use d in \<open>auto simp: never_approved_def\<close>)
qed

lemma rearm_execute:
  assumes "executor_wf (env_executor E)"
  shows "execute_tool_call (rearm E code) (executor_definitions (env_executor E)) call s w =
    execute_tool_call E (executor_definitions (env_executor E)) call s w"
proof -
  let ?defs = "executor_definitions (env_executor E)"
  have run: "execute_tool_with_progress (rearm E code) c snap s w1 = execute_tool_with_progress E c snap s w1"
    if "authorize_tool_call E ?defs c w = (auth, w1)" "denial_message auth = None" for c snap auth w1
  proof (cases "map_of (env_executor E) (inv_name c)")
    case None
    then show ?thesis by (simp add: execute_tool_with_progress_def execute_with_context_def rearm_lookup)
  next
    case (Some t)
    with authorized_is_approved[OF assms that Some] show ?thesis
      by (simp add: execute_tool_with_progress_def execute_with_context_def rearm_lookup)
  qed
  show ?thesis
    unfolding execute_tool_call_def Let_def using run
    by (auto split: sum.splits prod.splits option.splits)
qed

lemma rearm_run_call:
  assumes "executor_wf (env_executor E)"
  shows "run_call (rearm E code) (executor_definitions (env_executor E)) call s w =
    run_call E (executor_definitions (env_executor E)) call s w"
  unfolding run_call_def rearm_fields rearm_at_now rearm_execute[OF assms] ..

lemma rearm_run_calls:
  assumes "executor_wf (env_executor E)"
  shows "run_calls (rearm E code) (executor_definitions (env_executor E)) calls s w =
    run_calls E (executor_definitions (env_executor E)) calls s w"
  by (induction calls arbitrary: s w) (auto simp: rearm_run_call[OF assms] split: prod.splits)

lemma rearm_step:
  assumes "executor_wf (env_executor E)"
  shows "loop_step (rearm E code) (executor_definitions (env_executor E)) L =
    loop_step E (executor_definitions (env_executor E)) L"
  unfolding loop_step_def rearm_fields rearm_provider_turn rearm_return rearm_finish_loop
    rearm_run_calls[OF assms] ..

lemma iterate_loop_cong:
  assumes "\<And>L. loop_step E defs L = loop_step E' defs L"
  shows "iterate_loop E defs L = iterate_loop E' defs L"
proof -
  have half: "iterate_loop E2 defs L = Some R"
    if "iterate_loop E1 defs L = Some R" and same: "\<And>L. loop_step E1 defs L = loop_step E2 defs L"
    for E1 E2 :: "('a, 'b) loop_env" and L R
  proof -
    let ?P = "\<lambda>F d L R. (\<forall>L. loop_step F d L = loop_step E2 d L) \<longrightarrow> iterate_loop E2 d L = Some R"
    have "?P E1 defs L R"
    proof (rule iterate_loop.raw_induct[of ?P, OF _ that(1)])
      fix rec F d L R
      assume IH: "\<And>F d L R. rec F d L = Some R \<Longrightarrow> ?P F d L R"
        and step: "(case loop_step F d L of Inl r \<Rightarrow> Some r | Inr L' \<Rightarrow> rec F d L') = Some R"
      show "?P F d L R"
      proof
        assume eq: "\<forall>L. loop_step F d L = loop_step E2 d L"
        show "iterate_loop E2 d L = Some R"
        proof (cases "loop_step E2 d L")
          case (Inl r)
          with step eq show ?thesis by (subst iterate_loop_step) simp
        next
          case (Inr L')
          with step eq have "rec F d L' = Some R" by simp
          from IH[OF this] eq Inr show ?thesis by (subst iterate_loop_step) simp
        qed
      qed
    qed
    with same show ?thesis by simp
  qed
  show ?thesis
  proof (cases "iterate_loop E defs L")
    case None
    then show ?thesis using half[of E' L _ E] assms by (cases "iterate_loop E' defs L") auto
  next
    case (Some R)
    then show ?thesis using half[of E L R E'] assms by simp
  qed
qed

theorem unapproved_code_is_irrelevant:
  assumes "executor_wf (env_executor E)"
  shows "run_tool_loop (rearm E code) q w = run_tool_loop E q w"
proof -
  have start: "start_loop (rearm E code) q w' = start_loop E q w'" for w'
    by (simp add: start_loop_def)
  show ?thesis
    unfolding run_tool_loop_def rearm_fields rearm_definitions start
    unfolding iterate_loop_cong[OF rearm_step[OF assms]] ..
qed

section \<open>What the user approved is what runs\<close>

text \<open>
  A tool that must ask runs after the handler has allowed exactly this call, with this definition
  and this preview, and it is handed the fingerprint of the file the preview was made from.
\<close>

lemma asked_tool_runs_as_approved:
  assumes "authorize_tool_call E defs call w = (auth, w')" and "denial_message auth = None"
    and "registry_definition defs (inv_name call) = Some d" and "def_policy d = Ask"
  shows "\<exists>ask q w1. env_handler E = Some ask \<and> ask q w1 = (Allow, w') \<and>
    req_call q = call \<and> req_definition q = d \<and>
    (def_kind d = Write \<or> def_kind d = Edit \<longrightarrow> req_preview q \<noteq> None) \<and>
    permission_snapshot auth = Option.bind (req_preview q) prev_snapshot"
  using assms(1,2)
proof (cases rule: authorized_cases)
  case (granted d' ask preview w1)
  with assms(3) show ?thesis
    by (intro exI[of _ ask] exI[of _ "\<lparr>req_call = call, req_definition = d', req_preview = preview\<rparr>"]
        exI[of _ w1]) auto
qed (use assms in auto)

section \<open>After a cancellation\<close>

lemma cancelled_batch:
  assumes "\<And>w. fst (env_cancelled E w)"
  shows "map fst (fst (run_calls E defs calls s w)) =
    map (\<lambda>c. ToolResult (call_id c) [Text tool_execution_interrupted] True) calls"
proof (induction calls arbitrary: s w)
  case (Cons call calls)
  obtain r s1 w1 where r: "run_call E defs call s w = (r, s1, w1)" by (cases "run_call E defs call s w")
  obtain c w0 where c: "env_cancelled E w = (c, w0)" by (cases "env_cancelled E w")
  with assms[of w] have "c" by simp
  with r c have "fst r = ToolResult (call_id call) [Text tool_execution_interrupted] True"
    by (auto simp: run_call_def Let_def tool_result_item_def interrupted_tool_execution_def
        split: prod.splits)
  with Cons[of s1 w1] r show ?case by (auto split: prod.splits)
qed simp

lemma cancelled_before_start:
  assumes "fst (env_cancelled E w)" and "req_items q \<noteq> []"
  shows "\<exists>s w'. run_tool_loop E q w = Some (Err LoopCancelled, s, w')"
  using assms by (auto simp: run_tool_loop_def Let_def split: prod.splits)

text \<open>A completion is only returned when the last look at the token found it alive.\<close>

lemma cancelled_round_fails:
  assumes "\<And>w. fst (env_cancelled E w)"
  shows "\<exists>s w. loop_step E defs L = Inl (Err LoopCancelled, s, w)"
proof -
  obtain c w1 where c: "env_cancelled E (loop_world L) = (c, w1)" by (cases "env_cancelled E (loop_world L)")
  with assms[of "loop_world L"] have c by simp
  with c have "stream_provider_turn E (loop_request L) (loop_turn L) (loop_world L) =
      (Err LoopCancelled, loop_turn L, w1)"
    by (simp add: stream_provider_turn_def)
  then show ?thesis by (simp add: loop_step_def)
qed

end
