(* ===== verification/Stream_Runs.thy ===== *)
theory Stream_Runs
  imports Provider_Stream Loop_Runs
begin

text \<open>
  Properties of reading a provider's stream: the way a body is cut does not matter, what was streamed
  is what is kept, a body read to its end gives an honest completion, and the tool loop over such a
  provider leaves no call without its result.
\<close>

section \<open>Cutting the body differently\<close>

lemma position_append_Some: "position P xs = Some i \<Longrightarrow> position P (xs @ ys) = Some i"
  by (auto simp: position_Some nth_append)

lemma apply_line_pending:
  "apply_line W line (D\<lparr>sse_pending := p\<rparr>) =
     and_then (apply_line W line D) (\<lambda>(fs, D'). Ok (fs, D'\<lparr>sse_pending := p\<rparr>))"
  by (auto simp: apply_line_def emit_event_if_complete_def split: option.splits)

lemma push_lines_frames:
  "push_lines W D frames = and_then (push_lines W D []) (\<lambda>(fs, D'). Ok (frames @ fs, D'))"
proof (induction "length (sse_pending D)" arbitrary: D frames rule: less_induct)
  case less
  show ?case
  proof (cases "position (\<lambda>b. b = 10) (sse_pending D)")
    case None
    then show ?thesis by (simp add: push_lines.simps[of W D])
  next
    case (Some i)
    then have i: "i < length (sse_pending D)" by (simp add: position_Some)
    let ?line = "trim_line_end (take (Suc i) (sse_pending D))"
    show ?thesis
    proof (cases "apply_line W ?line (D\<lparr>sse_pending := drop (Suc i) (sse_pending D)\<rparr>)")
      case (Inl e)
      with Some show ?thesis by (simp add: push_lines.simps[of W D])
    next
      case (Inr r)
      obtain new D' where r: "r = (new, D')" by (cases r)
      let ?D = "D'\<lparr>sse_pending := drop (Suc i) (sse_pending D)\<rparr>"
      have "push_lines W ?D (fs @ new) = and_then (push_lines W ?D []) (\<lambda>(gs, D''). Ok (fs @ new @ gs, D''))" for fs
        using less(1)[of ?D "fs @ new"] i by simp
      from this[of frames] this[of "[]"] show ?thesis
        using Some Inr r by (cases "push_lines W ?D []") (auto simp: push_lines.simps[of W D])
    qed
  qed
qed

lemma push_lines_more:
  "push_lines W (D\<lparr>sse_pending := sse_pending D @ extra\<rparr>) [] =
     and_then (push_lines W D []) (\<lambda>(fs, D').
       push_lines W (D'\<lparr>sse_pending := sse_pending D' @ extra\<rparr>) fs)"
proof (induction "length (sse_pending D)" arbitrary: D rule: less_induct)
  case less
  let ?ext = "\<lambda>D. D\<lparr>sse_pending := sse_pending D @ extra\<rparr>"
  show ?case
  proof (cases "position (\<lambda>b. b = 10) (sse_pending D)")
    case None
    then show ?thesis by (simp add: push_lines.simps[of W D])
  next
    case (Some i)
    then have i: "i < length (sse_pending D)" by (simp add: position_Some)
    let ?line = "trim_line_end (take (Suc i) (sse_pending D))"
    let ?rest = "drop (Suc i) (sse_pending D)"
    have some: "position (\<lambda>b. b = 10) (sse_pending D @ extra) = Some i"
      by (rule position_append_Some[OF Some])
    have len: "Suc i \<le> length (sse_pending D)" using i by simp
    show ?thesis
    proof (cases "apply_line W ?line D")
      case (Inl e)
      with Some some len show ?thesis
        by (simp add: push_lines.simps[of W D] push_lines.simps[of W "?ext D"] apply_line_pending)
    next
      case (Inr r)
      obtain new D' where r: "r = (new, D')" by (cases r)
      let ?D = "D'\<lparr>sse_pending := ?rest\<rparr>"
      have lhs: "push_lines W (?ext D) [] = push_lines W (?ext ?D) new"
        using some len Inr r by (simp add: push_lines.simps[of W "?ext D"] apply_line_pending)
      have rhs: "push_lines W D [] = push_lines W ?D new"
        using Some Inr r by (simp add: push_lines.simps[of W D] apply_line_pending)
      have IH: "push_lines W (?ext ?D) [] = and_then (push_lines W ?D []) (\<lambda>(fs, D'). push_lines W (?ext D') fs)"
        using less(1)[of ?D] i by simp
      have frames: "push_lines W (?ext E) (new @ fs) = and_then (push_lines W (?ext E) fs) (\<lambda>(gs, E'). Ok (new @ gs, E'))"
        for fs E
        using push_lines_frames[of W "?ext E" "new @ fs"] push_lines_frames[of W "?ext E" fs]
        by (cases "push_lines W (?ext E) []") auto
      have ext: "push_lines W (?ext ?D) new = and_then (push_lines W (?ext ?D) []) (\<lambda>(fs, D'). Ok (new @ fs, D'))"
        by (rule push_lines_frames)
      have plain: "push_lines W ?D new = and_then (push_lines W ?D []) (\<lambda>(fs, D'). Ok (new @ fs, D'))"
        by (rule push_lines_frames)
      show ?thesis
      proof (cases "push_lines W ?D []")
        case (Inl e)
        then show ?thesis unfolding lhs rhs ext plain IH by simp
      next
        case (Inr q)
        obtain fs D2 where q: "q = (fs, D2)" by (cases q)
        have left: "push_lines W (?ext ?D) new = and_then (push_lines W (?ext D2) fs) (\<lambda>(gs, E'). Ok (new @ gs, E'))"
          unfolding ext IH by (simp add: Inr q)
        have right: "push_lines W ?D new = Ok (new @ fs, D2)" unfolding plain by (simp add: Inr q)
        show ?thesis unfolding lhs rhs left right by (simp add: frames[of D2 fs])
      qed
    qed
  qed
qed

lemma sse_push_append:
  "sse_push W (a @ b) D =
     and_then (sse_push W a D) (\<lambda>(fs, D1). and_then (sse_push W b D1) (\<lambda>(gs, D2). Ok (fs @ gs, D2)))"
proof -
  let ?D = "D\<lparr>sse_pending := sse_pending D @ a\<rparr>"
  have "sse_push W (a @ b) D = push_lines W (?D\<lparr>sse_pending := sse_pending ?D @ b\<rparr>) []"
    by (simp add: sse_push_def)
  also have "\<dots> = and_then (sse_push W a D) (\<lambda>(fs, D1). push_lines W (D1\<lparr>sse_pending := sse_pending D1 @ b\<rparr>) fs)"
    unfolding push_lines_more sse_push_def ..
  also have "\<dots> = and_then (sse_push W a D) (\<lambda>(fs, D1). and_then (sse_push W b D1) (\<lambda>(gs, D2). Ok (fs @ gs, D2)))"
  proof (cases "sse_push W a D")
    case (Inr r)
    then show ?thesis
      using push_lines_frames[of W "(snd r)\<lparr>sse_pending := sse_pending (snd r) @ b\<rparr>" "fst r"]
      by (simp add: case_prod_beta sse_push_def)
  qed simp
  finally show ?thesis .
qed

lemma emits_then_assoc: "emits_then (emits_then m f) g = emits_then m (\<lambda>a. emits_then (f a) g)"
  by (auto simp: emits_then_def split: prod.splits sum.splits)

lemma emits_then_value [simp]: "emits_then (emits_value a) f = f a" "emits_then ([], Ok a) f = f a"
  by (auto simp: emits_then_def emits_value_def split: prod.splits)

lemma emits_then_error [simp]: "emits_then ([], Err e) f = ([], Err e)" "emits_then (emits_error e) f = emits_error e"
  by (simp_all add: emits_then_def emits_error_def)

lemma apply_frames_append:
  "apply_frames af fin (xs @ ys) S =
     emits_then (apply_frames af fin xs S) (\<lambda>r. case r of
        Inl S' \<Rightarrow> apply_frames af fin ys S' | Inr c \<Rightarrow> emits_value (Inr c))"
proof (induction xs arbitrary: S)
  case (Cons x xs)
  have "apply_frames af fin (xs @ ys) = (\<lambda>S. emits_then (apply_frames af fin xs S) (\<lambda>r. case r of
        Inl S' \<Rightarrow> apply_frames af fin ys S' | Inr c \<Rightarrow> emits_value (Inr c)))"
    by (rule ext) (rule Cons.IH)
  then show ?case by (cases "x = done_frame") (simp_all add: emits_then_assoc)
qed simp

lemma read_body_two:
  assumes "sse_push W (a @ b) D = Ok r"
  shows "read_body W af fin (Inr a # Inr b # chunks) D S = read_body W af fin (Inr (a @ b) # chunks) D S"
proof -
  from assms obtain fs D1 gs D2 where 1: "sse_push W a D = Ok (fs, D1)" and 2: "sse_push W b D1 = Ok (gs, D2)"
    by (auto simp: sse_push_append result_iffs)
  then have 3: "sse_push W (a @ b) D = Ok (fs @ gs, D2)" by (simp add: sse_push_append)
  show ?thesis
    by (simp add: 1 2 3 apply_frames_append emits_then_assoc)
       (rule arg_cong[where f = "emits_then _"], auto simp: fun_eq_iff 2 split: sum.splits)
qed

text \<open>A body without an invalid line gives the same events and the same result in any cut.\<close>

lemma read_body_cut:
  assumes "sse_push W (a @ concat bs) D = Ok r"
  shows "read_body W af fin (Inr a # map Inr bs) D S = read_body W af fin [Inr (a @ concat bs)] D S"
  using assms
proof (induction bs arbitrary: a)
  case (Cons b bs)
  from Cons.prems have "sse_push W ((a @ b) @ concat bs) D = Ok r" by simp
  then obtain r1 where "sse_push W (a @ b) D = Ok r1"
    by (subst (asm) sse_push_append) (auto simp: result_iffs)
  from read_body_two[OF this]
  have "read_body W af fin (Inr a # map Inr (b # bs)) D S = read_body W af fin (Inr (a @ b) # map Inr bs) D S"
    by (simp only: list.map)
  also have "\<dots> = read_body W af fin [Inr ((a @ b) @ concat bs)] D S"
    by (rule Cons.IH) (use Cons.prems in simp)
  finally show ?case by (simp only: concat.simps append_assoc)
qed (simp only: list.map concat.simps append_Nil2)

section \<open>What was streamed is what is kept\<close>

fun text_event :: "stream_event \<Rightarrow> ustring option" where
  "text_event (TextDelta t) = Some t" | "text_event _ = None"

fun reasoning_event :: "stream_event \<Rightarrow> ustring option" where
  "reasoning_event (StreamReasoning t) = Some t" | "reasoning_event _ = None"

fun arguments_event :: "nat \<Rightarrow> stream_event \<Rightarrow> ustring option" where
  "arguments_event i (ToolCallArgumentsDelta j t) = (if i = j then Some t else None)"
| "arguments_event i _ = None"

fun completed_event :: "stream_event \<Rightarrow> (nat \<times> tool_call) option" where
  "completed_event (ToolCallCompleted i c) = Some (i, c)" | "completed_event _ = None"

fun completion_event :: "stream_event \<Rightarrow> prompt_completion option" where
  "completion_event (TurnCompleted c) = Some c" | "completion_event _ = None"

definition streamed_text :: "stream_event list \<Rightarrow> ustring" where
  "streamed_text es = concat (filter_map text_event es)"

definition streamed_reasoning :: "stream_event list \<Rightarrow> ustring" where
  "streamed_reasoning es = concat (filter_map reasoning_event es)"

definition streamed_arguments :: "nat \<Rightarrow> stream_event list \<Rightarrow> ustring" where
  "streamed_arguments i es = concat (filter_map (arguments_event i) es)"

lemma streamed_append [simp]:
  "streamed_text (es @ fs) = streamed_text es @ streamed_text fs"
  "streamed_reasoning (es @ fs) = streamed_reasoning es @ streamed_reasoning fs"
  "streamed_arguments i (es @ fs) = streamed_arguments i es @ streamed_arguments i fs"
  by (simp_all add: streamed_text_def streamed_reasoning_def streamed_arguments_def)

lemma streamed_Nil [simp]:
  "streamed_text [] = []" "streamed_reasoning [] = []" "streamed_arguments i [] = []"
  by (simp_all add: streamed_text_def streamed_reasoning_def streamed_arguments_def)

lemma streamed_one [simp]:
  "streamed_text [e] = (case text_event e of Some t \<Rightarrow> t | None \<Rightarrow> [])"
  "streamed_reasoning [e] = (case reasoning_event e of Some t \<Rightarrow> t | None \<Rightarrow> [])"
  "streamed_arguments i [e] = (case arguments_event i e of Some t \<Rightarrow> t | None \<Rightarrow> [])"
  by (simp_all add: streamed_text_def streamed_reasoning_def streamed_arguments_def split: option.splits)

text \<open>A function that emits, started after the events \<open>es0\<close>, ends in a value with \<open>Q\<close> or in an error.\<close>

definition emits_ok :: "stream_event list \<Rightarrow> 'a emits \<Rightarrow> (stream_event list \<Rightarrow> 'a \<Rightarrow> bool) \<Rightarrow> bool" where
  "emits_ok es0 m Q \<longleftrightarrow> (\<forall>es a. m = (es, Inr a) \<longrightarrow> Q (es0 @ es) a)"

named_theorems emits_rules \<open>postconditions of the emitting functions\<close>

lemma emits_ok_value [emits_rules]: "Q es0 a \<Longrightarrow> emits_ok es0 (emits_value a) Q"
  by (simp add: emits_ok_def emits_value_def)

lemma emits_ok_emitting [emits_rules]: "Q (es0 @ es) a \<Longrightarrow> emits_ok es0 (emitting es a) Q"
  by (simp add: emits_ok_def emitting_def)

lemma emits_ok_error [emits_rules]: "emits_ok es0 (emits_error e) Q"
  by (simp add: emits_ok_def emits_error_def)

lemma emits_ok_result [emits_rules]: "(\<And>a. r = Ok a \<Longrightarrow> Q es0 a) \<Longrightarrow> emits_ok es0 ([], r) Q"
  by (simp add: emits_ok_def)

lemma emits_ok_then:
  "emits_ok es0 m P \<Longrightarrow> (\<And>es a. P es a \<Longrightarrow> emits_ok es (f a) Q) \<Longrightarrow> emits_ok es0 (emits_then m f) Q"
  by (fastforce simp: emits_ok_def emits_then_def split: prod.splits sum.splits)

lemma emits_okD: "emits_ok es0 m Q \<Longrightarrow> m = (es, Inr a) \<Longrightarrow> Q (es0 @ es) a"
  by (simp add: emits_ok_def)

subsection \<open>Tool calls\<close>

text \<open>Nothing but text, reasoning and the parts of tool calls has been emitted.\<close>

definition still_open :: "ustring \<Rightarrow> ustring \<Rightarrow> stream_event list \<Rightarrow> bool" where
  "still_open t r es \<longleftrightarrow> streamed_text es = t \<and> streamed_reasoning es = r \<and>
     filter_map completed_event es = [] \<and> filter_map completion_event es = []"

text \<open>
  The entry \<open>p\<close> of a call after the events \<open>es\<close>: its arguments are what was streamed, and it keeps
  the id and the name it was announced with.
\<close>

definition part_ok :: "stream_event list \<Rightarrow> nat set \<Rightarrow> nat \<Rightarrow> partial_call \<Rightarrow> bool" where
  "part_ok es st i p \<longleftrightarrow>
     part_arguments p = streamed_arguments i es \<and>
     (\<forall>cid n. ToolCallStarted i cid n \<in> set es \<longrightarrow> part_id p = Some cid \<and> part_name p = Some n) \<and>
     (i \<in> st \<longleftrightarrow> (\<exists>cid n. ToolCallStarted i cid n \<in> set es))"

definition ready_ok :: "nat set \<Rightarrow> nat \<Rightarrow> partial_call \<Rightarrow> bool" where
  "ready_ok st i p \<longleftrightarrow> (part_id p \<noteq> None \<longrightarrow> part_name p \<noteq> None \<longrightarrow> i \<in> st)"

definition calls_inv :: "ustring \<Rightarrow> ustring \<Rightarrow> stream_event list \<Rightarrow> call_accumulator \<Rightarrow> bool" where
  "calls_inv t r es A \<longleftrightarrow> still_open t r es \<and> bt_map (partials A) \<and>
     (\<forall>i. part_ok es (started_calls A) i (partial_at i A) \<and> ready_ok (started_calls A) i (partial_at i A))"

text \<open>The same while the entry of \<open>index\<close> is being changed and is \<open>p\<close> for the time being.\<close>

definition calls_mid ::
    "ustring \<Rightarrow> ustring \<Rightarrow> stream_event list \<Rightarrow> call_accumulator \<Rightarrow> nat \<Rightarrow> partial_call \<Rightarrow> bool" where
  "calls_mid t r es A index p \<longleftrightarrow> still_open t r es \<and> bt_map (partials A) \<and>
     (\<forall>i. i \<noteq> index \<longrightarrow> part_ok es (started_calls A) i (partial_at i A) \<and>
                         ready_ok (started_calls A) i (partial_at i A)) \<and>
     part_ok es (started_calls A) index p"

lemma partial_at_set_partial [simp]:
  "partial_at i (set_partial j p A) = (if i = j then p else partial_at i A)"
  by (simp add: partial_at_def set_partial_def map_of_bt_insert)

lemma set_partial_fields [simp]:
  "started_calls (set_partial j p A) = started_calls A"
  "bt_map (partials A) \<Longrightarrow> bt_map (partials (set_partial j p A))"
  by (auto simp: set_partial_def)

lemma partial_at_started [simp]: "partial_at i (A\<lparr>started_calls := st\<rparr>) = partial_at i A"
  by (simp add: partial_at_def)

lemma calls_inv_new: "calls_inv [] [] [] new_accumulator"
  by (simp add: calls_inv_def still_open_def part_ok_def ready_ok_def new_accumulator_def
      partial_at_def new_partial_def)

lemma calls_mid_start: "calls_inv t r es A \<Longrightarrow> calls_mid t r es A index (partial_at index A)"
  by (simp add: calls_inv_def calls_mid_def)

lemma part_ok_started:
  "part_ok es st i p \<Longrightarrow> i \<in> st \<Longrightarrow> \<exists>cid n. part_id p = Some cid \<and> part_name p = Some n"
  by (auto simp: part_ok_def)

lemma part_ok_fresh: "part_ok es st i p \<Longrightarrow> i \<notin> st \<Longrightarrow> part_arguments q = part_arguments p \<Longrightarrow> part_ok es st i q"
  by (auto simp: part_ok_def)

lemma part_ok_call_id:
  assumes p: "part_ok es st i p" and q: "apply_call_id i (i \<in> st) cid p = Ok q"
  shows "part_ok es st i q"
proof (cases "cid = None \<or> i \<in> st")
  case True
  with part_ok_started[OF p] q have "q = p"
    by (cases p) (auto simp: apply_call_id_def split: option.splits if_splits)
  with p show ?thesis by simp
next
  case False
  with q show ?thesis
    by (intro part_ok_fresh[OF p]) (auto simp: apply_call_id_def split: option.splits if_splits)
qed

lemma part_ok_name:
  assumes p: "part_ok es st i p" and q: "apply_name i (i \<in> st) n p = Ok q"
  shows "part_ok es st i q"
proof (cases "n = None \<or> i \<in> st")
  case True
  with part_ok_started[OF p] q have "q = p"
    by (cases p) (auto simp: apply_name_def split: option.splits if_splits)
  with p show ?thesis by simp
next
  case False
  with q show ?thesis
    by (intro part_ok_fresh[OF p]) (auto simp: apply_name_def split: option.splits if_splits)
qed

lemma calls_mid_call_id:
  "calls_mid t r es A index p \<Longrightarrow> apply_call_id index (index \<in> started_calls A) cid p = Ok q \<Longrightarrow>
     calls_mid t r es A index q"
  unfolding calls_mid_def by (blast intro: part_ok_call_id)

lemma calls_mid_name:
  "calls_mid t r es A index p \<Longrightarrow> apply_name index (index \<in> started_calls A) n p = Ok q \<Longrightarrow>
     calls_mid t r es A index q"
  unfolding calls_mid_def by (blast intro: part_ok_name)

lemma calls_mid_more:
  assumes "calls_mid t r es A index p"
  shows "calls_mid t r (es @ [ToolCallArgumentsDelta index delta]) A index
    (p\<lparr>part_arguments := part_arguments p @ delta\<rparr>)"
  using assms by (auto simp: calls_mid_def part_ok_def still_open_def)

lemma calls_mid_append:
  "calls_mid t r es A index p \<Longrightarrow>
     emits_ok es (append_partial_arguments index delta p) (\<lambda>es' q. calls_mid t r es' A index q \<and>
       part_id q = part_id p \<and> part_name q = part_name p)"
  unfolding append_partial_arguments_def by (rule emits_ok_emitting) (simp add: calls_mid_more)

lemma calls_mid_replace:
  assumes "calls_mid t r es A index p"
  shows "emits_ok es (replace_arguments index args p) (\<lambda>es' q. calls_mid t r es' A index q \<and>
    part_id q = part_id p \<and> part_name q = part_name p)"
proof (cases "strip_prefix args (part_arguments p)")
  case None
  then show ?thesis by (simp add: replace_arguments_def emits_rules)
next
  case (Some delta)
  then have "args = part_arguments p @ delta" by (simp add: strip_prefix_Some)
  with Some calls_mid_more[OF assms, of delta] assms show ?thesis
    by (auto simp: replace_arguments_def emits_ok_def emitting_def)
qed

lemma calls_inv_set:
  assumes "calls_mid t r es A index p" and "ready_ok (started_calls A) index p"
  shows "calls_inv t r es (set_partial index p A)"
  using assms by (auto simp: calls_inv_def calls_mid_def)

lemma calls_inv_started:
  assumes "calls_mid t r es A index p"
  shows "emits_ok es (emit_started_if_ready index (set_partial index p A)) (calls_inv t r)"
proof -
  have lookup: "map_of (partials (set_partial index p A)) index = Some p"
    by (simp add: set_partial_def map_of_bt_insert)
  show ?thesis
  proof (cases "part_id p \<noteq> None \<and> part_name p \<noteq> None \<and> index \<notin> started_calls A")
    case False
    then have "ready_ok (started_calls A) index p" by (auto simp: ready_ok_def)
    from calls_inv_set[OF assms this] False lookup show ?thesis
      by (auto simp: emit_started_if_ready_def emits_rules split: option.splits)
  next
    case True
    then obtain cid n where p: "part_id p = Some cid" "part_name p = Some n" "index \<notin> started_calls A" by auto
    from assms p(3) have new: "\<And>c m. ToolCallStarted index c m \<notin> set es" by (auto simp: calls_mid_def part_ok_def)
    have "calls_inv t r (es @ [ToolCallStarted index cid n])
        ((set_partial index p A)\<lparr>started_calls := insert index (started_calls A)\<rparr>)"
      using assms p new by (auto simp: calls_inv_def calls_mid_def part_ok_def ready_ok_def still_open_def)
    with p lookup show ?thesis by (simp add: emit_started_if_ready_def emits_ok_emitting)
  qed
qed

lemma calls_inv_chat_delta:
  assumes "calls_inv t r es A"
  shows "emits_ok es (apply_chat_delta d A) (calls_inv t r)"
  unfolding apply_chat_delta_def Let_def
proof (rule emits_ok_then[where P = "\<lambda>es. calls_mid t r es A (delta_index d)"], goal_cases)
  case 1
  show ?case
    by (rule emits_ok_result) (rule calls_mid_call_id[OF calls_mid_start[OF assms]])
next
  case (2 es1 p1)
  show ?case
  proof (rule emits_ok_then[where P = "\<lambda>es. calls_mid t r es A (delta_index d)"], goal_cases)
    case 1
    show ?case
    proof (cases "delta_function d")
      case None
      with 2 show ?thesis by (simp add: emits_ok_value)
    next
      case (Some f)
      show ?thesis
        unfolding Some option.case
      proof (rule emits_ok_then[where P = "\<lambda>es. calls_mid t r es A (delta_index d)"], goal_cases)
        case 1
        show ?case by (rule emits_ok_result) (rule calls_mid_name[OF 2])
      next
        case (2 es2 p2)
        then show ?case
          using calls_mid_append[OF 2] by (auto simp: emits_ok_def emits_value_def split: option.splits)
      qed
    qed
  next
    case (2 es2 p3)
    then show ?case by (rule calls_inv_started)
  qed
qed

lemma calls_inv_responses_item:
  assumes "calls_inv t r es A"
  shows "emits_ok es (apply_responses_item index i mode A) (calls_inv t r)"
  unfolding apply_responses_item_def Let_def
proof (rule emits_ok_then[where P = "\<lambda>es. calls_mid t r es A index"], goal_cases)
  case 1
  show ?case
    by (rule emits_ok_result) (rule calls_mid_call_id[OF calls_mid_start[OF assms]])
next
  case (2 es1 p1)
  show ?case
  proof (rule emits_ok_then[where P = "\<lambda>es. calls_mid t r es A index"], goal_cases)
    case 1
    show ?case by (rule emits_ok_result) (rule calls_mid_name[OF 2])
  next
    case (2 es2 p2)
    show ?case
    proof (rule emits_ok_then[where P = "\<lambda>es. calls_mid t r es A index"], goal_cases)
      case 1
      show ?case
        using 2 calls_mid_append[OF 2] calls_mid_replace[OF 2]
        by (auto simp: emits_ok_def emits_value_def split: option.splits arguments_mode.splits)
    next
      case (2 es3 p3)
      then show ?case by (rule calls_inv_started)
    qed
  qed
qed

lemma calls_inv_same_ids:
  assumes inv: "calls_inv t r es A"
    and m: "emits_ok es m (\<lambda>es' q. calls_mid t r es' A index q \<and>
       part_id q = part_id (partial_at index A) \<and> part_name q = part_name (partial_at index A))"
  shows "emits_ok es (emits_then m (\<lambda>p. emits_value (set_partial index p A))) (calls_inv t r)"
proof (rule emits_ok_then[OF m], rule emits_ok_value)
  fix es' q
  assume q: "calls_mid t r es' A index q \<and> part_id q = part_id (partial_at index A) \<and>
    part_name q = part_name (partial_at index A)"
  with inv have "ready_ok (started_calls A) index q" by (auto simp: calls_inv_def ready_ok_def)
  with q show "calls_inv t r es' (set_partial index q A)" by (blast intro: calls_inv_set)
qed

lemma calls_inv_append_delta:
  "calls_inv t r es A \<Longrightarrow> emits_ok es (append_arguments_delta index delta A) (calls_inv t r)"
  unfolding append_arguments_delta_def
  by (rule calls_inv_same_ids, assumption, rule calls_mid_append, rule calls_mid_start)

lemma calls_inv_replace_delta:
  assumes "calls_inv t r es A"
  shows "emits_ok es (replace_arguments_emitting_missing_delta index args A) (calls_inv t r)"
  unfolding replace_arguments_emitting_missing_delta_def
  using calls_inv_same_ids[OF assms calls_mid_replace[OF calls_mid_start[OF assms]]] assms
  by (auto simp: emits_ok_value split: option.splits)

text \<open>The calls a stream ends with, each announced before and put together from what was streamed.\<close>

definition finished_calls :: "stream_event list \<Rightarrow> (nat \<times> tool_call) list \<Rightarrow> bool" where
  "finished_calls es calls \<longleftrightarrow>
     (\<forall>(i, c)\<in>set calls. ToolCallStarted i (call_id c) (tool_name c) \<in> set es \<and>
        arguments c = (if utrim (streamed_arguments i es) = [] then lit ''{}'' else streamed_arguments i es))"

lemma finalized_calls_ok:
  assumes inv: "calls_inv t r es A" and ok: "finalized_calls A = Ok calls"
  shows "finished_calls es calls" and "map fst calls = map fst (partials A)"
proof -
  have all: "list_all2 (\<lambda>(i, p) (j, c). j = i \<and> to_tool_call p i = Ok c) (partials A) calls"
    using ok unfolding finalized_calls_def try_map_eq_Ok_iff
    by (rule list_all2_mono) (auto simp: result_iffs)
  then show "map fst calls = map fst (partials A)"
    by (induction rule: list_all2_induct) auto
  from all have "\<exists>p. (i, p) \<in> set (partials A) \<and> to_tool_call p i = Ok c" if "(i, c) \<in> set calls" for i c
    using that by (induction rule: list_all2_induct) auto
  moreover have "partial_at i A = p" if "(i, p) \<in> set (partials A)" for i p
    using that inv bt_map_distinct[of "partials A"] by (auto simp: partial_at_def calls_inv_def)
  ultimately have part: "to_tool_call (partial_at i A) i = Ok c" if "(i, c) \<in> set calls" for i c
    using that by blast
  have "ToolCallStarted i (call_id c) (tool_name c) \<in> set es \<and>
      arguments c = (if utrim (streamed_arguments i es) = [] then lit ''{}'' else streamed_arguments i es)"
    if "(i, c) \<in> set calls" for i c
  proof -
    from part[OF that] have c: "part_name (partial_at i A) = Some (tool_name c)"
      "part_id (partial_at i A) = Some (call_id c)"
      "arguments c = (if utrim (part_arguments (partial_at i A)) = [] then lit ''{}'' else part_arguments (partial_at i A))"
      by (auto simp: to_tool_call_def result_iffs)
    from inv have ok: "part_ok es (started_calls A) i (partial_at i A)"
      and ready: "ready_ok (started_calls A) i (partial_at i A)" by (auto simp: calls_inv_def)
    from ready c have "i \<in> started_calls A" by (simp add: ready_ok_def)
    with ok obtain cid n where ev: "ToolCallStarted i cid n \<in> set es" unfolding part_ok_def by blast
    with ok have "part_id (partial_at i A) = Some cid \<and> part_name (partial_at i A) = Some n"
      unfolding part_ok_def by blast
    with c have ids: "cid = call_id c" "n = tool_name c" by simp_all
    from ok have "part_arguments (partial_at i A) = streamed_arguments i es" by (simp add: part_ok_def)
    with ev ids c(3) show ?thesis by simp
  qed
  then show "finished_calls es calls" by (auto simp: finished_calls_def)
qed

subsection \<open>Whole streams\<close>

definition chat_inv :: "stream_event list \<Rightarrow> chat_state \<Rightarrow> bool" where
  "chat_inv es S \<longleftrightarrow> calls_inv (chat_content S) (chat_reasoning S) es (chat_calls S)"

definition responses_inv :: "stream_event list \<Rightarrow> responses_state \<Rightarrow> bool" where
  "responses_inv es S \<longleftrightarrow> (\<exists>t r. calls_inv t r es (resp_calls S))"

text \<open>Events that are no part of a call, and end nothing, extend what was streamed.\<close>

lemma calls_inv_text:
  assumes "calls_inv t r es A" and "\<And>i. arguments_event i e = None"
    and "completed_event e = None" "completion_event e = None"
    and "\<And>i cid n. ToolCallStarted i cid n \<noteq> e"
  shows "calls_inv (t @ streamed_text [e]) (r @ streamed_reasoning [e]) (es @ [e]) A"
proof -
  have "part_ok (es @ [e]) st i p \<longleftrightarrow> part_ok es st i p" for st i p
    using assms(2,5) by (simp add: part_ok_def)
  with assms(1,3,4) show ?thesis
    by (simp add: calls_inv_def still_open_def del: streamed_one(1,2))
qed

lemma chat_inv_new: "chat_inv [] new_chat_state"
  using calls_inv_new by (simp add: chat_inv_def new_chat_state_def)

lemma filter_non_empty_Some [simp]: "filter_non_empty x = Some t \<longleftrightarrow> x = Some t \<and> t \<noteq> []"
  by (auto simp: filter_non_empty_def non_empty_def bind_eq_Some_conv)

lemma chat_inv_text: "chat_inv es S \<Longrightarrow> emits_ok es (chat_text delta S) chat_inv"
  using calls_inv_text[of "chat_content S" "chat_reasoning S" es "chat_calls S" "TextDelta (the delta)"]
  by (auto simp: chat_text_def chat_inv_def split: option.splits intro!: emits_rules)

lemma chat_inv_reason: "chat_inv es S \<Longrightarrow> emits_ok es (chat_reason delta S) chat_inv"
  using calls_inv_text[of "chat_content S" "chat_reasoning S" es "chat_calls S" "StreamReasoning (the delta)"]
  by (auto simp: chat_reason_def chat_inv_def split: option.splits intro!: emits_rules)

lemma chat_inv_call_deltas: "chat_inv es S \<Longrightarrow> emits_ok es (chat_call_deltas ds S) chat_inv"
proof (induction ds arbitrary: es S)
  case (Cons d ds)
  show ?case
    unfolding chat_call_deltas.simps
  proof (rule emits_ok_then)
    show "emits_ok es (apply_chat_delta d (chat_calls S)) (calls_inv (chat_content S) (chat_reasoning S))"
      using Cons.prems by (intro calls_inv_chat_delta) (simp add: chat_inv_def)
    show "emits_ok es' (chat_call_deltas ds (S\<lparr>chat_calls := A\<rparr>)) chat_inv"
      if "calls_inv (chat_content S) (chat_reasoning S) es' A" for es' A
      using that by (intro Cons.IH) (simp add: chat_inv_def)
  qed
qed (simp add: emits_ok_value)

lemma chat_inv_choice: "chat_inv es S \<Longrightarrow> emits_ok es (apply_choice c S) chat_inv"
  unfolding apply_choice_def Let_def
  by (intro emits_ok_then[OF chat_inv_text] emits_ok_then[OF chat_inv_reason]
      emits_ok_then[OF chat_inv_call_deltas] emits_ok_value)
     (auto simp: chat_inv_def split: option.splits)

lemma chat_inv_choices: "chat_inv es S \<Longrightarrow> emits_ok es (apply_choices cs S) chat_inv"
proof (induction cs arbitrary: es S)
  case (Cons c cs)
  then show ?case by (auto intro: emits_ok_then[OF chat_inv_choice])
qed (simp add: emits_ok_value)

lemma chat_inv_event:
  assumes "chat_inv es S" and "e = TurnStarted \<or> e = UsageUpdated u"
  shows "chat_inv (es @ [e]) S"
  using calls_inv_text[of "chat_content S" "chat_reasoning S" es "chat_calls S" e] assms
  by (auto simp: chat_inv_def)

lemma chat_inv_frame:
  assumes "chat_inv es S"
  shows "emits_ok es (chat_apply_frame W data S) chat_inv"
  unfolding chat_apply_frame_def
proof (rule emits_ok_then[where P = chat_inv], goal_cases)
  case 1
  then show ?case using assms chat_inv_event[OF assms, of TurnStarted]
    by (auto simp: chat_inv_def intro!: emits_ok_emitting)
next
  case (2 es1 S1)
  show ?case
  proof (cases "decode_chunk W data")
    case (Inr chunk)
    have "emits_ok es1 (case chunk_usage chunk of None \<Rightarrow> emits_value S1
        | Some u \<Rightarrow> emitting [UsageUpdated u] (S1\<lparr>chat_usage := Some u\<rparr>)) chat_inv"
      using 2 chat_inv_event[OF 2] by (auto simp: chat_inv_def split: option.splits intro!: emits_rules)
    with Inr show ?thesis by (auto intro: emits_ok_then chat_inv_choices)
  qed (simp add: emits_ok_error)
qed

text \<open>What a reader of the events knows of the completion.\<close>

definition completed_calls :: "stream_event list \<Rightarrow> (nat \<times> tool_call) list" where
  "completed_calls es = filter_map completed_event es"

definition honest_end :: "stream_event list \<Rightarrow> prompt_completion \<Rightarrow> bool" where
  "honest_end es c \<longleftrightarrow>
     filter_map completion_event es = [c] \<and>
     extract_tool_calls (completion_items c) = map snd (completed_calls es) \<and>
     (extract_tool_calls (completion_items c) \<noteq> [] \<longrightarrow> is_tool_call (finish_reason c)) \<and>
     finished_calls es (completed_calls es)"

definition chat_end :: "stream_event list \<Rightarrow> prompt_completion \<Rightarrow> bool" where
  "chat_end es c \<longleftrightarrow> honest_end es c \<and>
     completion_items c =
       (if streamed_reasoning es = [] then [] else [Reasoning (streamed_reasoning es) None None])
       @ assistant_items (streamed_text es) (map snd (completed_calls es))"

lemma extract_append [simp]:
  "extract_tool_calls (xs @ ys) = extract_tool_calls xs @ extract_tool_calls ys"
  "extract_tool_calls [Reasoning a b c] = []" "extract_tool_calls [] = []"
  by (simp_all add: extract_tool_calls_def)

lemma extract_assistant_items [simp]: "extract_tool_calls (assistant_items t calls) = calls"
  by (auto simp: assistant_items_def extract_tool_calls_def assistant_with_parts_def Let_def)

lemma emit_completed_events [simp]:
  "streamed_text (emit_completed calls) = []" "streamed_reasoning (emit_completed calls) = []"
  "streamed_arguments i (emit_completed calls) = []"
  "filter_map completed_event (emit_completed calls) = calls"
  "filter_map completion_event (emit_completed calls) = []"
  by (induction calls) (auto simp: emit_completed_def streamed_text_def streamed_reasoning_def streamed_arguments_def)

lemma finished_calls_append:
  "finished_calls es calls \<Longrightarrow> (\<And>i. streamed_arguments i fs = []) \<Longrightarrow> finished_calls (es @ fs) calls"
  by (fastforce simp: finished_calls_def)

lemma chat_finish_ok:
  assumes "chat_inv es0 S"
  shows "emits_ok es0 (chat_finish_stream S) chat_end"
  unfolding chat_finish_stream_def Let_def
proof (rule emits_ok_then[where P = "\<lambda>es _. chat_inv es S"], goal_cases)
  case 1
  then show ?case using assms chat_inv_event[OF assms, of TurnStarted] by (auto intro!: emits_ok_emitting)
next
  case (2 es u)
  then have inv: "calls_inv (chat_content S) (chat_reasoning S) es (chat_calls S)" by (simp add: chat_inv_def)
  then have seen: "streamed_text es = chat_content S" "streamed_reasoning es = chat_reasoning S"
    "filter_map completed_event es = []" "filter_map completion_event es = []"
    by (simp_all add: calls_inv_def still_open_def)
  show ?case
  proof (rule emits_ok_then[where P = "\<lambda>es' calls. es' = es \<and> finished_calls es calls \<and>
      (calls \<noteq> [] \<longrightarrow> chat_finish S \<in> {None, Some StopReason, Some ToolCallsReason})"], goal_cases)
    case 1
    then show ?case
    proof (rule emits_ok_result)
      fix calls
      assume "(if (case chat_finish S of None \<Rightarrow> partials (chat_calls S) \<noteq> [] | Some StopReason \<Rightarrow> partials (chat_calls S) \<noteq> []
            | Some ToolCallsReason \<Rightarrow> True | Some _ \<Rightarrow> False) then finalized_calls (chat_calls S) else Ok []) = Ok calls"
      then show "es = es \<and> finished_calls es calls \<and>
          (calls \<noteq> [] \<longrightarrow> chat_finish S \<in> {None, Some StopReason, Some ToolCallsReason})"
        using finalized_calls_ok(1)[OF inv]
        by (auto simp: finished_calls_def split: if_splits option.splits finish_reason.splits)
    qed
  next
    case (2 es' calls)
    then have calls: "finished_calls es calls" and "es' = es"
      and reason: "calls \<noteq> [] \<longrightarrow> chat_finish S \<in> {None, Some StopReason, Some ToolCallsReason}" by auto
    let ?es = "es @ emit_completed calls"
    have fin: "finished_calls (?es @ [e]) calls" if "\<And>i. arguments_event i e = None" for e
      using finished_calls_append[OF calls, of "emit_completed calls @ [e]"] that by simp
    show ?case
      unfolding \<open>es' = es\<close>
    proof (rule emits_ok_then[OF emits_ok_emitting[where Q = "\<lambda>es' _. es' = ?es"]], goal_cases)
      case (2 es2 u2)
      show ?case
        unfolding 2
        by (rule emits_ok_emitting)
           (use seen reason fin in \<open>auto simp: chat_end_def honest_end_def completed_calls_def is_tool_call_def
             split: option.splits\<close>)
    qed simp
  qed
qed

lemma responses_inv_new: "responses_inv [] new_responses_state"
  using calls_inv_new by (auto simp: responses_inv_def new_responses_state_def)

lemma responses_inv_event:
  assumes "responses_inv es S" and "resp_calls S' = resp_calls S" and "\<And>i. arguments_event i e = None"
    and "completed_event e = None" "completion_event e = None" "\<And>i cid n. ToolCallStarted i cid n \<noteq> e"
  shows "responses_inv (es @ [e]) S'"
  using assms calls_inv_text[of _ _ es "resp_calls S" e] unfolding responses_inv_def by metis

lemma responses_inv_same: "responses_inv es S \<Longrightarrow> resp_calls S' = resp_calls S \<Longrightarrow> responses_inv es S'"
  by (simp add: responses_inv_def)

lemma responses_inv_with_calls:
  assumes "responses_inv es S"
    and "\<And>t r. calls_inv t r es (resp_calls S) \<Longrightarrow> emits_ok es m (calls_inv t r)"
  shows "emits_ok es (with_calls m S) responses_inv"
proof -
  from assms(1) obtain t r where inv: "calls_inv t r es (resp_calls S)" by (auto simp: responses_inv_def)
  show ?thesis
    unfolding with_calls_def
    by (rule emits_ok_then[OF assms(2)[OF inv]], rule emits_ok_value, simp add: responses_inv_def, blast)
qed

lemma responses_inv_final_text:
  "responses_inv es S \<Longrightarrow> emits_ok es (apply_final_text_output index final S) responses_inv"
  by (auto simp: apply_final_text_output_def split: option.splits
      intro!: emits_rules responses_inv_event[of es S] intro: responses_inv_same)

lemma responses_inv_final_reasoning:
  "responses_inv es S \<Longrightarrow> emits_ok es (apply_final_reasoning_output index final S) responses_inv"
  by (auto simp: apply_final_reasoning_output_def split: option.splits
      intro!: emits_rules responses_inv_event[of es S] intro: responses_inv_same)

lemma responses_inv_apply:
  assumes "responses_inv es S"
  shows "emits_ok es (apply_responses_event ev S) responses_inv"
proof (cases ev)
  case (OutputItemAdded index i)
  with assms show ?thesis
    by (auto simp: apply_output_item_added_def intro: emits_ok_value responses_inv_with_calls
        calls_inv_responses_item)
next
  case (OutputItemDone index i)
  with assms show ?thesis
    by (auto simp: apply_output_item_done_def split: output_kind.splits option.splits
        intro: emits_ok_value responses_inv_with_calls calls_inv_responses_item
          responses_inv_final_text responses_inv_final_reasoning)
next
  case (FunctionCallArgumentsDelta index delta)
  with assms show ?thesis by (auto intro: responses_inv_with_calls calls_inv_append_delta)
next
  case (FunctionCallArgumentsDone index args)
  with assms show ?thesis by (auto intro: responses_inv_with_calls calls_inv_replace_delta)
qed (use assms in \<open>auto simp: resp_text_delta_def resp_reasoning_delta_def resp_terminal_def Let_def
      split: option.splits intro!: emits_rules responses_inv_event[of es S] intro: responses_inv_same\<close>)

lemma responses_inv_frame:
  assumes "responses_inv es S"
  shows "emits_ok es (responses_apply_frame W data S) responses_inv"
  unfolding responses_apply_frame_def
proof (rule emits_ok_then[where P = responses_inv], goal_cases)
  case 1
  show ?case
    by (rule emits_ok_emitting)
       (use assms in \<open>auto intro: responses_inv_same intro!: responses_inv_event[of es S]\<close>)
next
  case (2 es1 S1)
  then show ?case by (auto split: sum.splits intro: emits_ok_error responses_inv_apply)
qed

lemma extract_tool_calls_ex: "list_ex (\<lambda>i. tool_calls i \<noteq> []) xs \<longleftrightarrow> extract_tool_calls xs \<noteq> []"
  by (induction xs) (auto simp: extract_tool_calls_def)

lemma responses_finish_ok:
  assumes "responses_inv es0 S"
  shows "emits_ok es0 (responses_finish_stream S) honest_end"
  unfolding responses_finish_stream_def Let_def
proof (rule emits_ok_then[where P = "\<lambda>es _. responses_inv es S"], goal_cases)
  case 1
  then show ?case
    by (intro emits_ok_emitting) (use assms in \<open>auto intro!: responses_inv_event[of es0 S]\<close>)
next
  case (2 es u)
  then obtain t r where inv: "calls_inv t r es (resp_calls S)" by (auto simp: responses_inv_def)
  then have seen: "filter_map completed_event es = []" "filter_map completion_event es = []"
    by (simp_all add: calls_inv_def still_open_def)
  let ?reason = "case resp_finish S of Some r \<Rightarrow> r | None \<Rightarrow> StopReason"
  show ?case
  proof (cases "saw_terminal S")
    case True
    then have saw: "saw_terminal S = True" by simp
    show ?thesis
      unfolding saw
    proof (simp only: not_True_eq_False if_False,
        rule emits_ok_then[where P = "\<lambda>es' calls. es' = es \<and> finished_calls es calls \<and>
          (calls \<noteq> [] \<longrightarrow> ?reason = StopReason)"], goal_cases)
      case 1
      show ?case
        by (rule emits_ok_result)
           (use finalized_calls_ok(1)[OF inv] in \<open>auto simp: finished_calls_def split: if_splits\<close>)
    next
      case (2 es' calls)
      then have calls: "finished_calls es calls" and "es' = es"
        and reason: "calls \<noteq> [] \<longrightarrow> ?reason = StopReason" by auto
      let ?es = "es @ emit_completed calls"
      have fin: "finished_calls (?es @ [e]) calls" if "\<And>i. arguments_event i e = None" for e
        using finished_calls_append[OF calls, of "emit_completed calls @ [e]"] that by simp
      show ?case
        unfolding \<open>es' = es\<close>
      proof (rule emits_ok_then[OF emits_ok_emitting[where Q = "\<lambda>es' _. es' = ?es"]], goal_cases)
        case (2 es2 u2)
        show ?case
          unfolding 2
          by (rule emits_ok_emitting)
             (use seen reason fin in \<open>auto simp: honest_end_def completed_calls_def is_tool_call_def
               extract_tool_calls_ex\<close>)
      qed simp
    qed
  qed (simp add: emits_ok_error)
qed

section \<open>Whole bodies\<close>

lemma apply_frames_ok:
  assumes step: "\<And>es S frame. I es S \<Longrightarrow> emits_ok es (af frame S) I"
    and finish: "\<And>es S. I es S \<Longrightarrow> emits_ok es (fin S) Q"
    and "I es0 S"
  shows "emits_ok es0 (apply_frames af fin frames S) (\<lambda>es r. case r of Inl S' \<Rightarrow> I es S' | Inr c \<Rightarrow> Q es c)"
  using assms(3)
proof (induction frames arbitrary: es0 S)
  case (Cons frame frames)
  show ?case
  proof (cases "frame = done_frame")
    case True
    then show ?thesis
      by (simp, intro emits_ok_then[OF finish[OF Cons.prems]] emits_ok_value, simp)
  next
    case False
    then show ?thesis
      by (simp, intro emits_ok_then[OF step[OF Cons.prems]] Cons.IH)
  qed
qed (simp add: emits_ok_value)

lemma read_body_ok:
  assumes step: "\<And>es S frame. I es S \<Longrightarrow> emits_ok es (af frame S) I"
    and finish: "\<And>es S. I es S \<Longrightarrow> emits_ok es (fin S) Q"
    and "I es0 S"
  shows "emits_ok es0 (read_body W af fin chunks D S) Q"
  using assms(3)
proof (induction chunks arbitrary: es0 D S)
  case Nil
  show ?case
    by (simp, rule emits_ok_then[where P = "\<lambda>es _. es = es0"], rule emits_ok_result, simp,
        rule emits_ok_then[OF apply_frames_ok[where I = I and Q = Q, OF step finish]])
       (use Nil in \<open>auto intro: finish emits_ok_value split: sum.splits\<close>)
next
  case (Cons chunk chunks)
  show ?case
  proof (cases chunk)
    case (Inr bs)
    show ?thesis
      unfolding Inr read_body.simps sum.case
      by (rule emits_ok_then[where P = "\<lambda>es _. es = es0"], rule emits_ok_result, simp, clarify,
          rule emits_ok_then[OF apply_frames_ok[where I = I and Q = Q, OF step finish]])
         (use Cons in \<open>auto intro: emits_ok_value split: sum.splits\<close>)
  qed (simp add: emits_ok_error)
qed

text \<open>A chat body that is read to its end gives what was streamed.\<close>

lemma chat_body_end: "read_chat_body W chunks = (es, Inr c) \<Longrightarrow> chat_end es c"
  using emits_okD[OF read_body_ok[OF chat_inv_frame chat_finish_ok chat_inv_new]]
  by (auto simp: read_chat_body_def)

lemma responses_body_end: "read_responses_body W chunks = (es, Inr c) \<Longrightarrow> honest_end es c"
  using emits_okD[OF read_body_ok[OF responses_inv_frame responses_finish_ok responses_inv_new]]
  by (auto simp: read_responses_body_def)

section \<open>A failed body reports no completion\<close>

definition quiet :: "'a emits \<Rightarrow> bool" where
  "quiet m \<longleftrightarrow> (\<forall>e. snd m = Inl e \<longrightarrow> filter_map completion_event (fst m) = [])"

definition silent :: "'a emits \<Rightarrow> bool" where
  "silent m \<longleftrightarrow> filter_map completion_event (fst m) = []"

lemma silent_rules:
  "silent (emits_value a)" "silent (emits_error e)" "silent ([], r)"
  "filter_map completion_event es = [] \<Longrightarrow> silent (emitting es a)"
  "silent m \<Longrightarrow> (\<And>a. silent (f a)) \<Longrightarrow> silent (emits_then m f)"
  by (auto simp: silent_def emits_value_def emits_error_def emitting_def emits_then_def
      split: prod.splits sum.splits) (metis fst_conv)

lemma quiet_rules:
  "quiet (emits_value a)" "quiet (emits_error e)" "quiet ([], r)" "quiet (emitting es a)"
  "silent m \<Longrightarrow> quiet m"
  by (auto simp: quiet_def silent_def emits_value_def emits_error_def emitting_def)

lemma quiet_then: "silent m \<Longrightarrow> (\<And>a. quiet (f a)) \<Longrightarrow> quiet (emits_then m f)"
  by (auto simp: quiet_def silent_def emits_then_def split: prod.splits sum.splits)
     (metis fst_conv snd_conv)

lemma quiet_then_value: "quiet m \<Longrightarrow> quiet (emits_then m (\<lambda>a. emits_value (f a)))"
  by (auto simp: quiet_def emits_then_def emits_value_def split: prod.splits sum.splits)

lemma silent_accumulator:
  "silent (apply_chat_delta d A)" "silent (apply_responses_item i it mode A)"
  "silent (append_arguments_delta i delta A)" "silent (replace_arguments_emitting_missing_delta i args A)"
  by (auto simp: apply_chat_delta_def apply_responses_item_def append_arguments_delta_def
      replace_arguments_emitting_missing_delta_def append_partial_arguments_def replace_arguments_def
      emit_started_if_ready_def Let_def split: option.splits arguments_mode.splits intro!: silent_rules)

lemma silent_chat_call_deltas: "silent (chat_call_deltas ds S)"
  by (induction ds arbitrary: S) (auto intro!: silent_rules silent_accumulator)

lemma silent_apply_choices: "silent (apply_choices cs S)"
  by (induction cs arbitrary: S)
     (auto simp: apply_choice_def chat_text_def chat_reason_def Let_def split: option.splits
       intro!: silent_rules silent_chat_call_deltas)

lemma silent_chat_frame: "silent (chat_apply_frame W data S)"
  by (auto simp: chat_apply_frame_def split: sum.splits option.splits
      intro!: silent_rules silent_apply_choices)

lemma silent_responses_event: "silent (apply_responses_event ev S)"
  by (cases ev)
     (auto simp: apply_output_item_added_def apply_output_item_done_def with_calls_def
       apply_final_text_output_def apply_final_reasoning_output_def resp_text_delta_def
       resp_reasoning_delta_def resp_terminal_def Let_def
       split: output_kind.splits option.splits intro!: silent_rules silent_accumulator)

lemma silent_responses_frame: "silent (responses_apply_frame W data S)"
  by (auto simp: responses_apply_frame_def split: sum.splits intro!: silent_rules silent_responses_event)

lemma quiet_finish: "quiet (chat_finish_stream S)" "quiet (responses_finish_stream R)"
  by (auto simp: chat_finish_stream_def responses_finish_stream_def Let_def
      intro!: quiet_then quiet_rules(1-4) silent_rules(1-4) split: option.splits)

lemma quiet_apply_frames:
  assumes "\<And>frame S. silent (af frame S)" and "\<And>S. quiet (fin S)"
  shows "quiet (apply_frames af fin frames S)"
  by (induction frames arbitrary: S)
     (auto intro!: quiet_rules(1) quiet_then[OF assms(1)] quiet_then_value assms(2))

text \<open>While no frame ended the stream, nothing was completed.\<close>

lemma silent_apply_frames_open:
  assumes "\<And>frame S. silent (af frame S)"
    and "apply_frames af fin frames S = (es, Inr (Inl S'))"
  shows "filter_map completion_event es = []"
  using assms(2)
proof (induction frames arbitrary: S es)
  case (Cons frame frames)
  obtain es1 r1 where 1: "af frame S = (es1, r1)" by (cases "af frame S")
  with assms(1)[of frame S] have "filter_map completion_event es1 = []" by (simp add: silent_def)
  with Cons 1 show ?case
    by (cases r1) (fastforce simp: emits_then_def emits_value_def split: prod.splits sum.splits if_splits)+
qed (simp add: emits_value_def)

lemma quiet_frames_then:
  assumes "\<And>frame S. silent (af frame S)" and "\<And>S. quiet (fin S)" and "\<And>S. quiet (k S)"
  shows "quiet (emits_then (apply_frames af fin frames S)
    (\<lambda>r. case r of Inl S' \<Rightarrow> k S' | Inr c \<Rightarrow> emits_value c))"
proof -
  obtain es r where r: "apply_frames af fin frames S = (es, r)" by (cases "apply_frames af fin frames S")
  show ?thesis
  proof (cases r)
    case (Inl e)
    with r quiet_apply_frames[of af fin frames S] assms(1,2) show ?thesis
      by (auto simp: quiet_def emits_then_def)
  next
    case (Inr x)
    show ?thesis
    proof (cases x)
      case (Inl S')
      with r Inr silent_apply_frames_open[of af fin frames S es S'] assms(1) assms(3)[of S'] show ?thesis
        by (auto simp: quiet_def emits_then_def split: prod.splits)
    next
      case (Inr c)
      with r \<open>r = Inr x\<close> show ?thesis by (auto simp: quiet_def emits_then_def emits_value_def)
    qed
  qed
qed

lemma quiet_read_body:
  assumes "\<And>frame S. silent (af frame S)" and "\<And>S. quiet (fin S)"
  shows "quiet (read_body W af fin chunks D S)"
proof (induction chunks arbitrary: D S)
  case (Cons chunk chunks)
  show ?case
  proof (cases chunk)
    case (Inr bs)
    show ?thesis
      unfolding Inr read_body.simps sum.case
      by (rule quiet_then, rule silent_rules, clarify, rule quiet_frames_then) (rule assms Cons)+
  qed (simp add: quiet_rules)
next
  case Nil
  show ?case
    unfolding read_body.simps
    by (rule quiet_then, rule silent_rules, rule quiet_frames_then) (rule assms)+
qed

lemma quiet_bodies: "quiet (read_chat_body W chunks)" "quiet (read_responses_body W chunks)"
  unfolding read_chat_body_def read_responses_body_def
  by (rule quiet_read_body silent_chat_frame silent_responses_frame quiet_finish)+

section \<open>The loop over such a provider\<close>

text \<open>A stream plays \<open>m\<close>: its events, then its result, unless a cancellation cuts it.\<close>

inductive plays :: "prompt_completion emits \<Rightarrow> 'w stream_run \<Rightarrow> bool" where
  plays_end: "plays ([], r) (StreamEnds r w)"
| plays_cut: "plays m (StreamCancelled w)"
| plays_event: "(\<And>w'. plays (es, r) (k w')) \<Longrightarrow> plays (e # es, r) (StreamEmits e w k)"

lemma plays_delivers:
  assumes "delivers run c" and "plays (es, r) run"
  shows "c \<in> set (filter_map completion_event es) \<or> r = Inr c"
  using assms
proof (induction arbitrary: es r rule: delivers.induct)
  case (delivers_later k w' c ev w)
  from delivers_later.prems obtain es' where "es = ev # es'" "plays (es', r) (k w')"
    by (auto elim: plays.cases)
  with delivers_later.IH[of es' r] show ?case by (auto split: option.splits)
qed (auto elim!: plays.cases)

definition reads_a_body :: "wire_api \<Rightarrow> ('w, 'o) loop_env \<Rightarrow> bool" where
  "reads_a_body W E \<longleftrightarrow>
     (\<forall>q w. \<exists>chunks. plays (read_chat_body W chunks) (env_stream E q w) \<or>
                    plays (read_responses_body W chunks) (env_stream E q w))"

lemma plays_quiet_delivers:
  assumes "delivers run c" and "plays m run" and "quiet m" and ends: "\<And>es d. m = (es, Inr d) \<Longrightarrow> honest_end es d"
  shows "\<exists>es. honest_end es c"
proof -
  obtain es r where m: "m = (es, r)" by (cases m)
  with plays_delivers[of run c es r] assms(1,2) have c: "c \<in> set (filter_map completion_event es) \<or> r = Inr c" by simp
  show ?thesis
  proof (cases r)
    case (Inl e)
    with c m assms(3) show ?thesis by (simp add: quiet_def)
  next
    case (Inr d)
    with ends m have "honest_end es d" by simp
    moreover from this c Inr have "c = d" by (auto simp: honest_end_def)
    ultimately show ?thesis by auto
  qed
qed

lemma body_delivers:
  assumes "reads_a_body W E" and "provider_delivers E c"
  shows "\<exists>es. honest_end es c"
  using assms unfolding reads_a_body_def provider_delivers_def
  by (metis plays_quiet_delivers quiet_bodies chat_body_end responses_body_end chat_end_def)

text \<open>With such a provider no call of a completed loop is left without its result.\<close>

lemma loop_over_body:
  assumes "reads_a_body W E" and "run_tool_loop E q w = Some (Inr c, s, w')"
  shows "answered (response_items (response c))"
proof -
  from run_tool_loop_done[OF assms(2)] obtain rounds final where
    items: "response_items (response c) = rounds @ final" "answered rounds" and
    final: "final = [] \<or> (\<exists>d. provider_delivers E d \<and> completion_items d = final \<and>
              (\<not> is_tool_call (finish_reason d) \<or> extract_tool_calls final = []))"
    by (auto simp: loop_done_def)
  from final body_delivers[OF assms(1)] have "extract_tool_calls final = []"
    by (auto simp: honest_end_def)
  with answered_round[OF items(2), of final "[]"] items(1) show ?thesis by simp
qed

end
