(* ===== verification/Turn_Samples.thy ===== *)
theory Turn_Samples
  imports Samples Broker_Runs Edit_Regions Stream_Runs
begin

text \<open>
  A concrete turn, on which the properties of \<^verbatim>\<open>Turn_Properties\<close> are evaluated: a request that has
  been shown to the user, a provider that reads a body of two frames, a registry with one tool.
\<close>

text \<open>Evaluation of an edit, by rewriting.\<close>

lemma count_matches_eval:
  "count_matches [] needle = 0"
  "count_matches (c # cs) needle =
     (if needle = [] then 0
      else if starts_with (c # cs) needle then Suc (count_matches (drop (length needle) (c # cs)) needle)
      else count_matches cs needle)"
  by (subst count_matches.simps, simp)+

lemmas edit_eval =
  apply_edit_def apply_unique_edits_def first_empty_def edit_base_def uses_fuzzy_base_def
  locate_edit_def find_text_def count_replacement_occurrences_def count_fuzzy_occurrences_def
  count_exact_occurrences_def normalize_for_fuzzy_match_def normalize_fuzzy_char_def utrim_end_def
  is_whitespace_def count_matches_eval replace_from_back_def replace_range_def
  strip_utf8_bom_def utf8_bom_def normalize_line_endings_def detect_line_ending_def
  restore_line_endings_def normalized_edit_def lit_def

section \<open>Edits of a line\<close>

definition edits0 :: "text_edit list" where
  "edits0 = [\<lparr>old_string = lit ''two'', new_string = lit ''2''\<rparr>, \<lparr>old_string = lit ''one'', new_string = lit ''1''\<rparr>]"

definition text0 :: ustring where "text0 = lit ''one two'' @ [10]"

lemma edits0_applied:
  "apply_unique_edits (\<lambda>s. s) text0 edits0 [] = Ok \<lparr>final_content = lit ''1 2'' @ [10], replacements = 2\<rparr>"
  "apply_edit (\<lambda>s. s) text0 edits0 [] = Ok \<lparr>final_content = lit ''1 2'' @ [10], replacements = 2\<rparr>"
  "edit_base (\<lambda>s. s) text0 edits0 = text0"
  by (simp_all add: edit_eval edits0_def text0_def upt_rec del: count_matches.simps)

section \<open>A request that waits for its answer\<close>

definition fetch_definition :: tool_definition where
  "fetch_definition = (new_definition (lit ''fetch''))\<lparr>def_kind := Fetch, def_policy := Ask\<rparr>"

definition fetch_call :: invocation where
  "fetch_call = \<lparr>inv_id = lit ''c1'', inv_name = lit ''fetch'', inv_arguments = JObject []\<rparr>"

definition request0 :: permission_request where
  "request0 = new_request fetch_call fetch_definition"

lemma request0_rule:
  "session_rule request0 = Some \<lparr>rule_behavior = RuleAllow, rule_tool = lit ''fetch'', rule_kind = Fetch,
     rule_matcher = ExactArguments (JObject [])\<rparr>"
  by (simp add: session_rule_def rule_from_request_def request0_def new_request_def fetch_call_def
      fetch_definition_def new_definition_def matcher_from_request_def)
     (simp add: lit_def utrim_def is_whitespace_def)

text \<open>After the permission context was cleared, the first request runs until it waits.\<close>

definition asked0 :: broker where
  "asked0 = (handler_step 0 ^^ 8) (start_request request0 1 (clear_permission_context new_broker))"

lemma asked0_eq:
  "asked0 = (clear_permission_context new_broker)\<lparr>
     next_request_id := 1, pending := [(request_id_text 1, 0)],
     handlers := [(new_handler request0 1)\<lparr>h_pc := PollCancelled, h_generation := 1,
                     h_request_id := request_id_text 1\<rparr>],
     events := [(request_id_text 1, handler_options request0)]\<rparr>"
  by (simp add: asked0_def numeral_eq_Suc handler_step_def start_request_def new_handler_def
      clear_permission_context_def invalidate_pending_def new_broker_def update_handler_def goto_pc_def
      rules_clear_def evaluate_rules_def insert_pending_def remove_pending_def)

lemma asked0_steps: "broker_steps (clear_permission_context new_broker) asked0"
proof -
  let ?s = "start_request request0 1 (clear_permission_context new_broker)"
  have len: "length (handlers ((handler_step 0 ^^ n) ?s)) = 1" for n
    by (induction n) (simp_all add: start_request_def clear_permission_context_def
        invalidate_pending_def new_broker_def)
  have "broker_steps ?s ((handler_step 0 ^^ n) ?s)" for n
  proof (induction n)
    case (Suc n)
    have "broker_step ((handler_step 0 ^^ n) ?s) (handler_step 0 ((handler_step 0 ^^ n) ?s))"
      using len[of n] by (intro step_handler) simp
    with Suc show ?case by (simp add: broker_steps_def)
  qed (simp add: broker_steps_def)
  from this[of 8] have "broker_steps ?s asked0" by (simp add: asked0_def)
  moreover have "broker_step (clear_permission_context new_broker) ?s" by (rule step_start)
  ultimately show ?thesis by (simp add: broker_steps_def converse_rtranclp_into_rtranclp)
qed

lemma asked0_reachable: "broker_reachable asked0"
  using asked0_steps step_clear[of new_broker] unfolding broker_reachable_def broker_steps_def
  by (rule converse_rtranclp_into_rtranclp[rotated])

text \<open>Requests are never dropped.\<close>

lemma requests_stay: "broker_steps s t \<Longrightarrow> length (handlers s) \<le> length (handlers t)"
proof (unfold broker_steps_def, induction rule: rtranclp_induct)
  case (step u v)
  from step.hyps(2) have "length (handlers u) \<le> length (handlers v)"
  proof (cases rule: broker_step.cases)
    case (step_send k)
    then show ?thesis
      by (auto simp: send_answer_def Let_def split: prod.splits)
  qed (auto simp: start_request_def take_sender_def cancel_all_def clear_permission_context_def
      invalidate_pending_def cancel_token_def split: option.splits)
  with step.IH show ?case by simp
qed simp

section \<open>A provider, a body and a registry\<close>

definition tokenizer0 :: tokenizer where
  "tokenizer0 = \<lparr>model_to_encoding = (\<lambda>_. None), encoding_count = (\<lambda>_. Some length)\<rparr>"

definition numbers0 :: number_api where
  "numbers0 = \<lparr>num_is_integer = (\<lambda>_. True), num_less = (\<lambda>_ _. False), num_show = (\<lambda>n. n)\<rparr>"

definition chunk0 :: chat_chunk where
  "chunk0 = \<lparr>chunk_choices =
      [\<lparr>choice_delta = \<lparr>d_content = Some (lit ''hi''), d_reasoning_content = None, d_reasoning = None,
         d_tool_calls = None\<rparr>, choice_finish = Some (lit ''stop'')\<rparr>],
     chunk_usage = None\<rparr>"

definition wire0 :: wire_api where
  "wire0 = \<lparr>decode_chunk = (\<lambda>_. Ok chunk0), decode_event = (\<lambda>_. Err []), utf8_error = (\<lambda>_. [])\<rparr>"

definition body0 :: bytes where
  "body0 = lit ''data: {}'' @ [10, 10] @ lit ''data: [DONE]'' @ [10, 10]"

definition completion0 :: prompt_completion where
  "completion0 = \<lparr>completion_items = [assistant_with_parts [Text (lit ''hi'')] []],
     finish_reason = StopReason, usage = None\<rparr>"

lemma body0_read:
  "read_chat_body wire0 [Inr body0] = ([TurnStarted, TextDelta (lit ''hi''), TurnCompleted completion0], Ok completion0)"
  by code_simp

primrec play :: "stream_event list \<Rightarrow> provider_error + prompt_completion \<Rightarrow> 'w \<Rightarrow> 'w stream_run" where
  "play [] r w = StreamEnds r w"
| "play (e # es) r w = StreamEmits e w (play es r)"

lemma plays_play: "plays (es, r) (play es r w)"
  by (induction es arbitrary: w) (auto intro: plays.intros)

definition tool0 :: "unit tool" where
  "tool0 = \<lparr>tool_spec = (new_definition (lit ''rm''))\<lparr>def_policy := Never\<rparr>,
     tool_execute = (\<lambda>c C w. ToolReturns (result_success (inv_id c) (lit ''ok'')) w),
     tool_preview = (\<lambda>c w. (Some None, w))\<rparr>"

definition env0 :: "(unit, unit) loop_env" where
  "env0 = \<lparr>env_cancelled = (\<lambda>w. (False, w)), env_now = (\<lambda>w. (0, w)),
     env_stream = (\<lambda>q. play (fst (read_chat_body wire0 [Inr body0])) (snd (read_chat_body wire0 [Inr body0]))),
     env_executor = executor_insert tool0 [], env_handler = None, env_formatter = default_error_formatter,
     env_max_turns = Some 3, env_json = json0, env_parse_error = (\<lambda>t. t), env_join_error = [],
     env_numbers = numbers0, env_tokenizer = tokenizer0\<rparr>"

definition prompt0 :: "unit prompt_request" where
  "prompt0 = \<lparr>req_model = lit ''m0'', req_items = [item_text User (lit ''hello'')], req_tools = [], req_options = ()\<rparr>"

lemma env0_reads: "reads_a_body wire0 env0"
  unfolding reads_a_body_def env0_def loop_env.select_convs
  using plays_play by (metis prod.collapse)

lemma env0_registry: "executor_wf (env_executor env0)"
  unfolding env0_def loop_env.select_convs by (rule executor_wf_insert) simp

definition result0 :: "unit loop_result" where
  "result0 = the (run_tool_loop env0 prompt0 ())"

lemma env0_run: "run_tool_loop env0 prompt0 () = Some result0"
  "\<exists>c s. result0 = (Inr c, s, ()) \<and> response_items (response c) = completion_items completion0"
proof -
  have "\<exists>c s. run_tool_loop env0 prompt0 () = Some (Inr c, s, ()) \<and>
     response_items (response c) = completion_items completion0"
    unfolding run_tool_loop_def
    by (subst iterate_loop_step)
       (simp add: env0_def prompt0_def body0_read loop_step_def start_loop_def stream_provider_turn_def
         at_now_def completion0_def is_tool_call_def Let_def finish_loop_def split: prod.splits)
  then show "run_tool_loop env0 prompt0 () = Some result0"
    "\<exists>c s. result0 = (Inr c, s, ()) \<and> response_items (response c) = completion_items completion0"
    by (auto simp: result0_def)
qed

end
