(* ===== verification/Turn_Properties.thy ===== *)
theory Turn_Properties
  imports Turn_Samples
begin

text \<open>
  The properties of a turn: asking the user, editing files, the loop between provider and tools,
  the check of arguments, token counts and the provider's stream.  Each is evaluated on the
  concrete turn of \<^verbatim>\<open>Turn_Samples\<close>.
\<close>

section \<open>Permissions\<close>

text \<open>C1: In every interleaving of the running requests with answers, cancellations and resets, a call
  that was allowed has an answer of the user behind it: to its own request, or an ``allow
  always'' to a request in whose scope it lies.\<close>

lemma allowed_calls_were_granted:
  assumes "broker_reachable s" and "i < length (handlers s)" and "h_pc (handlers s ! i) = Finished Allow"
  shows "\<exists>j<length (handlers s). \<exists>v. (h_request_id (handlers s ! j), Some v, Ok ()) \<in> set (responses s) \<and>
    (j = i \<and> v = allow_once_id \<or>
     v = allow_always_id \<and> (j = i \<or> in_scope (h_request (handlers s ! j)) (h_request (handlers s ! i))))"
  using allowed_was_granted[OF assms] unfolding answered_ok_def .

lemma allowed_calls_were_granted_witness:
  "\<exists>t. broker_reachable t \<and> h_pc (handlers t ! 0) = Finished Allow \<and>
     (\<exists>j<length (handlers t). \<exists>v. (h_request_id (handlers t ! j), Some v, Ok ()) \<in> set (responses t))"
proof -
  obtain t where t: "broker_steps (take_sender (request_id_text 1) (Some allow_once_id) asked0) t"
    "h_pc (handlers t ! 0) = Finished (answer_decision request0 (Some allow_once_id))"
    using answer_is_delivered[OF asked0_reachable, of "request_id_text 1" 0 "Some allow_once_id"]
    by (auto simp: asked0_eq new_handler_def new_broker_def clear_permission_context_def invalidate_pending_def)
  have "answer_decision request0 (Some allow_once_id) = Allow"
    using selected_kind_iffs(1)[of "session_rule request0 \<noteq> None" "Some allow_once_id"]
    by (simp add: answer_decision_def handler_options_def)
  with t have allow: "h_pc (handlers t ! 0) = Finished Allow" by simp
  have "broker_steps asked0 t"
    using t(1) step_take unfolding broker_steps_def by (rule converse_rtranclp_into_rtranclp[rotated])
  with asked0_reachable have reach: "broker_reachable t"
    unfolding broker_reachable_def broker_steps_def by (rule rtranclp_trans)
  have len: "0 < length (handlers t)"
    using requests_stay[OF \<open>broker_steps asked0 t\<close>] by (cases "handlers t") (simp_all add: asked0_eq)
  from allowed_calls_were_granted[OF reach len allow] reach allow show ?thesis by blast
qed

text \<open>C13: After the permission context was cleared, every rule that is there at any later moment comes
  from the answer to a request that looked at the context after the clearing.\<close>

lemma cleared_rules_are_gone:
  assumes "broker_steps (clear_permission_context s) t" and "r \<in> set (broker_rules t)"
  shows "\<exists>j<length (handlers t). is_finished (handlers t ! j) \<and> r \<in> new_rules (handlers t ! j)
    \<and> context_generation s < h_generation (handlers t ! j)"
  using assms by (rule rules_after_clear)

text \<open>C12: A request whose context has been reset, or whose token has been cancelled, before its last
  look at them ends in a denial, whatever the user answers and whatever the rules say.\<close>

lemma stale_or_cancelled_requests_are_denied:
  assumes "broker_steps s t" and "i < length (handlers s)"
    and "doomed s i" and "h_pc (handlers t ! i) = Finished d"
  shows "\<exists>reason. d = deny_permission (def_name (req_definition (h_request (handlers s ! i)))) reason"
  using assms by (rule doomed_is_denied)

lemma stale_or_cancelled_requests_are_denied_witness:
  "\<exists>reason. h_pc (handlers ((handler_step 0 ^^ 3) (cancel_token 1 asked0)) ! 0) =
     Finished (deny_permission (lit ''fetch'') reason)"
proof -
  let ?s = "cancel_token 1 asked0"
  let ?t = "(handler_step 0 ^^ 3) ?s"
  have len: "length (handlers ((handler_step 0 ^^ n) ?s)) = 1" for n
    by (induction n) (simp_all add: asked0_eq cancel_token_def)
  have steps: "broker_steps ?s ((handler_step 0 ^^ n) ?s)" for n
  proof (induction n)
    case (Suc n)
    have "broker_step ((handler_step 0 ^^ n) ?s) (handler_step 0 ((handler_step 0 ^^ n) ?s))"
      using len[of n] by (intro step_handler) simp
    with Suc show ?case by (simp add: broker_steps_def)
  qed (simp add: broker_steps_def)
  have doomed: "doomed ?s 0"
    by (simp add: doomed_def before_cancel_check_def asked0_eq cancel_token_def new_handler_def)
  obtain d where d: "h_pc (handlers ?t ! 0) = Finished d"
    by (simp add: numeral_eq_Suc asked0_eq cancel_token_def new_handler_def handler_step_def goto_pc_def
        finish_with_def update_handler_def remove_pending_def clear_permission_context_def
        invalidate_pending_def new_broker_def)
  have "h_request (handlers ?s ! 0) = request0" by (simp add: asked0_eq cancel_token_def new_handler_def)
  moreover have "0 < length (handlers ?s)" using len[of 0] by simp
  ultimately show ?thesis
    using stale_or_cancelled_requests_are_denied[OF steps[of 3] _ doomed d] d
    by (simp only:) (simp add: request0_def new_request_def fetch_definition_def new_definition_def)
qed



lemma cleared_rules_are_gone_witness:
  "\<exists>t. broker_steps (clear_permission_context new_broker) t \<and>
     (\<exists>j<length (handlers t). the (session_rule request0) \<in> new_rules (handlers t ! j))"
proof -
  have rule: "session_rule request0 \<noteq> None" by (simp add: request0_rule)
  then have "selected_kind (handler_options request0) (Some allow_always_id) = Some AllowAlways"
    using selected_kind_iffs(2)[of True "Some allow_always_id"] by (simp add: handler_options_def)
  with rule have answer: "the (session_rule request0) \<in> set (answer_rules request0 (Some allow_always_id) rs)" for rs
    by (auto simp: answer_rules_def)
  obtain t where t: "broker_steps (take_sender (request_id_text 1) (Some allow_always_id) asked0) t"
    "broker_rules t = answer_rules request0 (Some allow_always_id) (broker_rules asked0)"
    using answer_is_delivered[OF asked0_reachable, of "request_id_text 1" 0 "Some allow_always_id"]
    by (auto simp: asked0_eq new_handler_def new_broker_def clear_permission_context_def invalidate_pending_def)
  have "broker_steps (clear_permission_context new_broker) t"
    using asked0_steps t(1) step_take[of asked0] unfolding broker_steps_def
    by (meson converse_rtranclp_into_rtranclp rtranclp_trans)
  from cleared_rules_are_gone[OF this, of "the (session_rule request0)"] this t(2) answer show ?thesis by auto
qed



text \<open>No request is told twice that its answer was taken.\<close>

lemma requests_are_answered_once:
  assumes "broker_reachable s"
  shows "distinct (map fst (filter (\<lambda>r. snd (snd r) = Ok ()) (responses s)))"
  using once_inv_reachable[OF assms] by (simp add: once_inv_def ok_answers_def)

lemma requests_are_answered_once_witness:
  "distinct (map fst (filter (\<lambda>r. snd (snd r) = Ok ()) (responses asked0)))"
  using requests_are_answered_once[OF asked0_reachable] .

section \<open>Edits, loop, arguments, tokens and streams\<close>



text \<open>The edits of a call may come in any order: the result is the same.\<close>

lemma order_of_edits_is_irrelevant:
  assumes "fuzzy_stable nfkc" and "apply_edit nfkc original edits path = Ok a" and "mset edits' = mset edits"
  shows "apply_edit nfkc original edits' path = Ok a"
  using assms by (rule apply_edit_perm)

lemma order_of_edits_is_irrelevant_witness:
  "apply_edit (\<lambda>s. s) text0 (rev edits0) [] = Ok \<lparr>final_content = lit ''1 2'' @ [10], replacements = 2\<rparr>"
  by (rule order_of_edits_is_irrelevant[OF fuzzy_stable_id edits0_applied(2)]) simp

text \<open>Editing a text with CR LF line endings is editing the same text with LF line endings and
  restoring the endings, errors included.\<close>

lemma edits_keep_crlf:
  assumes "13 \<notin> set t" and "10 \<in> set t" and "hd t \<noteq> utf8_bom"
  shows "apply_edit nfkc (restore_line_endings t CrLf) edits path =
    and_then (apply_edit nfkc t edits path) (\<lambda>a.
      Ok (a\<lparr>final_content := restore_line_endings (final_content a) CrLf\<rparr>))"
  using assms by (rule edit_crlf_eq)

lemma edits_keep_crlf_witness:
  "apply_edit (\<lambda>s. s) (lit ''one two'' @ [13, 10]) edits0 [] = Ok \<lparr>final_content = lit ''1 2'' @ [13, 10], replacements = 2\<rparr>"
proof -
  have "restore_line_endings text0 CrLf = lit ''one two'' @ [13, 10]"
    "restore_line_endings (lit ''1 2'' @ [10]) CrLf = lit ''1 2'' @ [13, 10]" by (simp_all add: restore_line_endings_def text0_def lit_def)
  moreover have "13 \<notin> set text0" "10 \<in> set text0" "hd text0 \<noteq> utf8_bom"
    by (simp_all add: text0_def utf8_bom_def lit_def)
  ultimately show ?thesis using edits_keep_crlf[of text0 "\<lambda>s. s" edits0 "[]"] by (simp add: edits0_applied)
qed

lemma overlapping_occurrences_pass_as_unique:
  "apply_unique_edits (\<lambda>s. s) (lit ''aaa'') [\<lparr>old_string = lit ''aa'', new_string = lit ''b''\<rparr>] [] =
     Ok \<lparr>final_content = lit ''ba'', replacements = 1\<rparr>
   \<and> occurs_at (lit ''aaa'') (lit ''aa'') 0 \<and> occurs_at (lit ''aaa'') (lit ''aa'') 1"
proof (intro conjI)
  show "apply_unique_edits (\<lambda>s. s) (lit ''aaa'') [\<lparr>old_string = lit ''aa'', new_string = lit ''b''\<rparr>] [] =
     Ok \<lparr>final_content = lit ''ba'', replacements = 1\<rparr>"
    by (simp add: edit_eval upt_rec del: count_matches.simps)
qed (simp_all add: occurs_at_def lit_def)

text \<open>C2: Over a provider whose stream is a chat or a Responses body, whenever a turn completes, what
  it returns is made of rounds in which every tool call has one result with its id, in the order
  of the calls, and it ends without an open call.\<close>

lemma completed_loop_answers_every_call:
  assumes "reads_a_body W E" and "run_tool_loop E q w = Some (Inr c, s, w')"
  shows "answered (response_items (response c))"
  using assms by (rule loop_over_body)

lemma completed_loop_answers_every_call_witness:
  "\<exists>c s. result0 = (Inr c, s, ()) \<and> answered (response_items (response c))"
proof -
  obtain c s where r: "result0 = (Inr c, s, ())" using env0_run(2) by blast
  from completed_loop_answers_every_call[OF env0_reads, of prompt0 "()" c s "()"] env0_run(1) r
  have "answered (response_items (response c))" by simp
  with r show ?thesis by blast
qed

text \<open>C23: Whatever provider, tools and user do, a turn that completes returns exactly the items it
  reported while it ran, in rounds of answered calls and a final part; a turn that fails has
  reported such rounds as well.\<close>

lemma loop_reports_what_it_returns:
  assumes "run_tool_loop E q w = Some R"
  shows "loop_done E R"
  using assms by (rule run_tool_loop_done)

lemma loop_reports_what_it_returns_witness: "loop_done env0 result0"
  using loop_reports_what_it_returns[OF env0_run(1)] .

text \<open>C24: With a limit on tool turns the loop returns, whatever provider and tools do.\<close>

lemma limited_loop_ends:
  assumes "env_max_turns E = Some m" and "m \<le> usize_max"
  shows "run_tool_loop E q w \<noteq> None"
  using assms by (rule run_tool_loop_terminates)

lemma limited_loop_ends_witness: "run_tool_loop env0 prompt0 () \<noteq> None"
  by (rule limited_loop_ends[of _ 3]) (simp_all add: env0_def usize_max_def)






text \<open>However a text arrives in pieces and times, the final estimate is the sum over chunks that
  put together are the text: nothing is counted twice or left out.\<close>

lemma streamed_text_is_counted_once:
  "\<exists>chunks. concat chunks = concat (map fst ds) \<and>
     total_tokens (snd (flush_progress T now (observe_deltas T ds (new_progress T model start)))) =
       min usize_max (\<Sum>c\<leftarrow>chunks. estimate_text_tokens T model c)"
  by (rule stream_is_counted_once)



text \<open>C22: A body without an invalid line gives the same events and the same result wherever the
  network cuts it into chunks, inside a line or a character too.\<close>

lemma cuts_of_the_body_do_not_matter:
  assumes "sse_push W (concat (a # bs)) new_decoder = Ok r"
  shows "read_chat_body W (map Inr (a # bs)) = read_chat_body W [Inr (concat (a # bs))]
    \<and> read_responses_body W (map Inr (a # bs)) = read_responses_body W [Inr (concat (a # bs))]"
  unfolding read_chat_body_def read_responses_body_def concat.simps list.map
  by (intro conjI read_body_cut[where r = r]) (use assms in simp_all)

lemma cuts_of_the_body_do_not_matter_witness:
  "read_chat_body wire0 [Inr (take 5 body0), Inr (drop 5 body0)] =
     ([TurnStarted, TextDelta (lit ''hi''), TurnCompleted completion0], Ok completion0)"
proof -
  have "sse_push wire0 body0 new_decoder = Ok ([lit ''{}'', done_frame], new_decoder)" by code_simp
  with cuts_of_the_body_do_not_matter[of wire0 "take 5 body0" "[drop 5 body0]"] body0_read show ?thesis
    by (simp only: concat.simps list.map append_Nil2 append_take_drop_id)
qed

text \<open>A chat body that ends before anything was said is a completion, with nothing in it.\<close>

lemma empty_chat_body_completes:
  "\<exists>es. read_chat_body W [] = (es, Ok \<lparr>completion_items = [], finish_reason = StopReason, usage = None\<rparr>)"
  "\<exists>es e. read_responses_body W [] = (es, Err e)"
  by (simp_all add: read_chat_body_def read_responses_body_def sse_finish_def new_decoder_def
      emit_event_if_complete_def chat_finish_stream_def responses_finish_stream_def new_chat_state_def
      new_responses_state_def new_accumulator_def emitting_def emits_then_def assistant_items_def
      emit_completed_def emits_error_def emits_value_def Let_def)

end
