(* ===== verification/Session_Backend.thy ===== *)
theory Session_Backend
  imports Memory_Store Local_Runs
begin

text \<open>
  The store as the conversation runtime sees it: the trait object \<^verbatim>\<open>dyn SessionStore\<close>
  (\<^verbatim>\<open>session-store/src/store/mod.rs\<close>) is a record of operations, filled by either store.  The laws the
  runtime relies on are the locale \<open>session_backend\<close>: an append adds the entries it was given, in
  order and chained onto the log, all of them when it answers with their ids and the first few of
  them when it fails.  Both stores keep these laws.
\<close>

section \<open>The operations\<close>

type_synonym ('s, 'r) store_call = "'s \<Rightarrow> cursor \<Rightarrow> ((store_error + 'r) \<times> 's \<times> cursor) option"

record 's session_vtable =
  vt_create_session :: "session_header \<Rightarrow> ('s, session_id) store_call"
  vt_append :: "session_id \<Rightarrow> conversation_item \<Rightarrow> ('s, ustring) store_call"
  vt_append_many :: "session_id \<Rightarrow> conversation_item list \<Rightarrow> ('s, ustring list) store_call"
  vt_append_config_change :: "session_id \<Rightarrow> config_snapshot \<Rightarrow> ('s, unit) store_call"
  vt_append_transcript_replay :: "session_id \<Rightarrow> replay_item \<Rightarrow> ('s, ustring) store_call"
  vt_set_leaf :: "session_id \<Rightarrow> ustring option \<Rightarrow> ('s, unit) store_call"
  vt_flush :: "session_id \<Rightarrow> ('s, unit) store_call"

definition memory_vtable :: "platform \<Rightarrow> memory_store session_vtable" where
  "memory_vtable P =
     \<lparr>vt_create_session = memory_create_session P,
      vt_append = memory_append P,
      vt_append_many = memory_append_many P,
      vt_append_config_change = memory_append_config_change P,
      vt_append_transcript_replay = memory_append_transcript_replay P,
      vt_set_leaf = memory_set_leaf P,
      vt_flush = (\<lambda>sid st c. Some (memory_flush st sid, st, c))\<rparr>"

definition local_vtable :: "local_env \<Rightarrow> local_store session_vtable" where
  "local_vtable E =
     \<lparr>vt_create_session = local_create_session E,
      vt_append = local_append E,
      vt_append_many = local_append_many E,
      vt_append_config_change = local_append_config_change E,
      vt_append_transcript_replay = local_append_transcript_replay E,
      vt_set_leaf = local_set_leaf E,
      vt_flush = (\<lambda>sid st c. case local_flush E sid st of (r, st) \<Rightarrow> Some (r, st, c))\<rparr>"

section \<open>The laws\<close>

text \<open>What an append with these kinds may do to a log, when it answers or fails.\<close>

definition grown :: "session_entry list \<Rightarrow> entry_kind list \<Rightarrow> (store_error + ustring list) \<Rightarrow> session_entry list \<Rightarrow> bool" where
  "grown es kinds r es' \<longleftrightarrow>
     (\<exists>new. es' = es @ new \<and> chained es new \<and> (\<exists>rest. kinds = map kind new @ rest)
        \<and> (\<forall>ids. r = Ok ids \<longrightarrow> map kind new = kinds \<and> map entry_id new = ids))"

definition one_id :: "(store_error + ustring) \<Rightarrow> store_error + ustring list" where
  "one_id r = and_then r (\<lambda>i. Ok [i])"

definition no_id :: "(store_error + unit) \<Rightarrow> (store_error + ustring list) \<Rightarrow> bool" where
  "no_id r ids \<longleftrightarrow> r = and_then ids (\<lambda>_. Ok ())"

locale session_backend =
  fixes V :: "'s session_vtable"
    and holds :: "'s \<Rightarrow> session_id \<Rightarrow> bool"
    and log_of :: "'s \<Rightarrow> session_id \<Rightarrow> session_entry list"
    and settled :: "'s \<Rightarrow> session_id \<Rightarrow> bool"
  assumes holds_log: "holds s sid \<Longrightarrow> session_log (log_of s sid)"
    and append_law: "holds s sid \<Longrightarrow> vt_append V sid x s c = Some (r, s', c') \<Longrightarrow>
      holds s' sid \<and> grown (log_of s sid) [Item x] (one_id r) (log_of s' sid)"
    and append_many_law: "holds s sid \<Longrightarrow> vt_append_many V sid xs s c = Some (ids, s', c') \<Longrightarrow>
      holds s' sid \<and> grown (log_of s sid) (map Item xs) ids (log_of s' sid)"
    and config_law: "holds s sid \<Longrightarrow> vt_append_config_change V sid cfg s c = Some (u, s', c') \<Longrightarrow>
      holds s' sid \<and> (\<exists>ids. no_id u ids \<and> grown (log_of s sid) [ConfigChange cfg] ids (log_of s' sid))"
    and replay_law: "holds s sid \<Longrightarrow> vt_append_transcript_replay V sid rp s c = Some (r, s', c') \<Longrightarrow>
      holds s' sid \<and> grown (log_of s sid) [TranscriptReplay rp] (one_id r) (log_of s' sid)"
    and flush_law: "holds s sid \<Longrightarrow> vt_flush V sid s c = Some (u, s', c') \<Longrightarrow>
      holds s' sid \<and> log_of s' sid = log_of s sid \<and> (u = Ok () \<longrightarrow> settled s' sid)"

locale creating_backend = session_backend +
  fixes ready :: "'s \<Rightarrow> bool"
  assumes holds_ready: "holds s sid \<Longrightarrow> ready s"
    and create_law: "ready s \<Longrightarrow> vt_create_session V h s c = Some (Ok sid, s', c') \<Longrightarrow>
      holds s' sid \<and> query_items (log_of s' sid) None = Ok []"

section \<open>The store in memory\<close>

lemma grown_no_entries: "is_ok r = False \<Longrightarrow> grown es kinds r es"
  by (auto simp: grown_def is_ok_iff intro: exI[of _ "[]"])

lemma grown_one:
  "grown es [k] ids es' \<Longrightarrow> grown es [k] (one_id (and_then ids (\<lambda>ids. ok_or CorruptIndex (last_opt ids)))) es'"
  by (cases ids) (auto simp: grown_def one_id_def and_then_def ok_or_def last_opt_eq)

lemma memory_append_grown:
  assumes "has_session (st, sid)" "\<forall>k\<in>set kinds. \<not> is_leaf_kind k"
    "memory_append_entries P sid kinds st c = Some (r, st', c')"
  shows "has_session (st', sid) \<and> grown (entries_in (st, sid)) kinds r (entries_in (st', sid))"
proof -
  from assms(1) obtain s where s: "map_of (sessions st) sid = Some s" and inv: "memory_inv st"
    by (auto simp: has_session_def)
  from memory_append_entries_inv[OF assms(3) inv assms(2)] have inv': "memory_inv st'" .
  show ?thesis
  proof (cases "kinds = [] \<or> \<not> is_ok (validate_append_kinds kinds)")
    case True
    with assms(1,3) show ?thesis
      by (auto simp: memory_append_entries_def grown_def split: sum.splits if_splits intro!: exI[of _ "[]"])
  next
    case False
    with assms(3) s obtain entries' where
      loop: "append_loop P kinds (entry_ids (session_entries s)) (session_entries s) [] c = Some (r, entries', c')"
      and st': "st' = st\<lparr>sessions := AList.update sid (s\<lparr>session_entries := entries'\<rparr>) (sessions st)\<rparr>"
      by (auto simp: memory_append_entries_def split: sum.splits)
    from append_loop_chained[OF loop] s st' inv' show ?thesis
      by (auto simp: has_session_def entries_in_def AList.update_conv' grown_def)
  qed
qed

lemma memory_entry_grown:
  assumes "has_session (st, sid)" "\<not> is_leaf_kind k" "memory_append_entry P sid k st c = Some (r, st', c')"
  shows "has_session (st', sid) \<and> grown (entries_in (st, sid)) [k] (one_id r) (entries_in (st', sid))"
proof -
  from assms(3) obtain ids where "memory_append_entries P sid [k] st c = Some (ids, st', c')"
    and r: "r = and_then ids (\<lambda>ids. ok_or CorruptIndex (last_opt ids))"
    by (auto simp: memory_append_entry_def)
  from memory_append_grown[OF assms(1) _ this(1)] assms(2) grown_one show ?thesis by (auto simp: r)
qed

lemma query_no_items:
  assumes "session_log es" "\<forall>e\<in>set es. resolved_item_of e = None \<and> compaction_of e = None"
  shows "query_items es None = Ok []"
proof -
  from append_parent_in_log[OF assms(1)] obtain e
    where e: "e \<in> set es" "append_parent_id es = Some (entry_id e)" by blast
  with active_path_eq[OF assms(1) e(2,1)] ancestry_in_log[OF session_log_wf[OF assms(1)] e(1)] assms(2)
  have path: "\<forall>x\<in>set (active_path es). resolved_item_of x = None \<and> compaction_of x = None" by auto
  then have "resolve_state_from_path (active_path es) = Ok (assemble_state (active_path es) [] None 0)"
    by (intro resolve_state_plain) simp
  moreover have "(\<forall>x\<in>set xs. resolved_item_of x = None) \<Longrightarrow> filter_map resolved_item_of xs = []" for xs
    by (induction xs) auto
  from this[of "active_path es"] path have "filter_map resolved_item_of (active_path es) = []" by auto
  ultimately show ?thesis
    by (simp add: query_items_eq query_default[OF assms(1)] assemble_state_def Let_def)
qed

lemma no_id_one: "no_id (and_then r (\<lambda>_. Ok ())) (one_id r)"
  by (cases r) (auto simp: no_id_def one_id_def and_then_def)

interpretation memory_backend: creating_backend "memory_vtable P" "\<lambda>st sid. has_session (st, sid)"
    "\<lambda>st sid. entries_in (st, sid)" "\<lambda>_ _. True" memory_inv for P
proof
  fix st st' sid c c' assume h: "has_session (st, sid)"
  then show "session_log (entries_in (st, sid))" "memory_inv st"
    using memory.invar_session_log by (auto simp: has_session_def)
  show "has_session (st', sid) \<and> grown (entries_in (st, sid)) [Item x] (one_id r) (entries_in (st', sid))"
    if "vt_append (memory_vtable P) sid x st c = Some (r, st', c')" for x r
    using memory_entry_grown[OF h, of "Item x" P c r st' c'] that by (simp add: memory_vtable_def memory_append_def)
  show "has_session (st', sid) \<and> grown (entries_in (st, sid)) (map Item xs) ids (entries_in (st', sid))"
    if "vt_append_many (memory_vtable P) sid xs st c = Some (ids, st', c')" for xs ids
    using memory_append_grown[OF h, of "map Item xs" P c ids st' c'] that
    by (auto simp: memory_vtable_def memory_append_many_def)
  show "has_session (st', sid) \<and> (\<exists>ids. no_id u ids \<and> grown (entries_in (st, sid)) [ConfigChange cfg] ids (entries_in (st', sid)))"
    if step: "vt_append_config_change (memory_vtable P) sid cfg st c = Some (u, st', c')" for cfg u
  proof -
    from step obtain r where "memory_append_entry P sid (ConfigChange cfg) st c = Some (r, st', c')"
      "u = and_then r (\<lambda>_. Ok ())" by (auto simp: memory_vtable_def memory_append_config_change_def)
    with memory_entry_grown[OF h _ this(1)] no_id_one show ?thesis by auto
  qed
  show "has_session (st', sid) \<and> grown (entries_in (st, sid)) [TranscriptReplay rp] (one_id r) (entries_in (st', sid))"
    if "vt_append_transcript_replay (memory_vtable P) sid rp st c = Some (r, st', c')" for rp r
    using memory_entry_grown[OF h, of "TranscriptReplay rp" P c r st' c'] that
    by (simp add: memory_vtable_def memory_append_transcript_replay_def)
  show "has_session (st', sid) \<and> entries_in (st', sid) = entries_in (st, sid) \<and> (u = Ok () \<longrightarrow> True)"
    if "vt_flush (memory_vtable P) sid st c = Some (u, st', c')" for u
    using h that by (simp add: memory_vtable_def)
next
  fix st st' sid c c' h assume inv: "memory_inv st" and step: "vt_create_session (memory_vtable P) h st c = Some (Ok sid, st', c')"
  then have create: "memory_create_session P h st c = Some (Ok sid, st', c')" by (simp add: memory_vtable_def)
  obtain e where e: "entries_in (st', sid) = [e]" "kind e = Header (h\<lparr>header_session_id := sid\<rparr>)"
    "map_of (sessions st') sid \<noteq> None"
    using create by (auto simp: memory_create_session_def entries_in_def AList.update_conv' split: prod.splits sum.splits)
  from memory_create_session_inv[OF create inv] e show "has_session (st', sid) \<and> query_items (entries_in (st', sid)) None = Ok []"
    using query_no_items[of "[e]"] memory.invar_session_log[of "(st', sid)"]
    by (simp add: has_session_def resolved_item_of_def item_of_def compaction_of_def)
qed

section \<open>The store on disk\<close>

definition local_holds :: "local_env \<Rightarrow> local_store \<Rightarrow> session_id \<Rightarrow> bool" where
  "local_holds E st sid \<longleftrightarrow>
     (\<forall>n es. clean_fault (env_codec E) es (io_faults E n)) \<and> local_open (env_codec E) (st, sid)"

text \<open>The recorder has nothing left to write.\<close>

definition local_settled :: "local_store \<Rightarrow> session_id \<Rightarrow> bool" where
  "local_settled st sid \<longleftrightarrow>
     (\<exists>h. map_of (recorders st) sid = Some h \<and> pending_state (handle_state h) = [])"

lemma local_append_grown:
  assumes "local_holds E st sid" "\<forall>k\<in>set kinds. \<not> is_leaf_kind k"
    "local_append_entries E sid kinds st c = Some (r, st', c')"
  shows "local_holds E st' sid \<and> grown (local_entries (st, sid)) kinds r (local_entries (st', sid))"
proof -
  from assms(1) obtain h where h: "open_ok (env_codec E) st sid h"
    and clean: "\<And>n es. clean_fault (env_codec E) es (io_faults E n)"
    by (auto simp: local_holds_def local_open_def)
  have "append_faults_clean E st h kinds" using clean by (simp add: append_faults_clean_def)
  from local_append_open[OF h refl this assms(2,3)] obtain h' new
    where h': "open_ok (env_codec E) st' sid h'" "accepted h' = accepted h @ new" "chained (accepted h) new"
      "map kind new = kinds \<or> new = []" "\<forall>ids. r = Ok ids \<longrightarrow> map kind new = kinds \<and> map entry_id new = ids"
    by blast
  with h clean show ?thesis
    by (auto simp: local_holds_def local_open_def open_entries grown_def intro!: exI[of _ new])
qed

lemma local_entry_grown:
  assumes "local_holds E st sid" "\<not> is_leaf_kind k" "local_append_entry E sid k st c = Some (r, st', c')"
  shows "local_holds E st' sid \<and> grown (local_entries (st, sid)) [k] (one_id r) (local_entries (st', sid))"
proof -
  from assms(3) obtain ids where "local_append_entries E sid [k] st c = Some (ids, st', c')"
    and r: "r = and_then ids (\<lambda>ids. ok_or CorruptIndex (last_opt ids))"
    by (auto simp: local_append_entry_def)
  from local_append_grown[OF assms(1) _ this(1)] assms(2) grown_one show ?thesis by (auto simp: r)
qed

interpretation local_backend: session_backend "local_vtable E" "local_holds E"
    "\<lambda>st sid. local_entries (st, sid)" local_settled for E
proof
  fix st st' sid c c' assume h: "local_holds E st sid"
  then show "session_log (local_entries (st, sid))"
    using local.invar_session_log by (auto simp: local_holds_def)
  show "local_holds E st' sid \<and> grown (local_entries (st, sid)) [Item x] (one_id r) (local_entries (st', sid))"
    if "vt_append (local_vtable E) sid x st c = Some (r, st', c')" for x r
    using local_entry_grown[OF h, of "Item x" c r st' c'] that by (simp add: local_vtable_def local_append_def)
  show "local_holds E st' sid \<and> grown (local_entries (st, sid)) (map Item xs) ids (local_entries (st', sid))"
    if "vt_append_many (local_vtable E) sid xs st c = Some (ids, st', c')" for xs ids
    using local_append_grown[OF h, of "map Item xs" c ids st' c'] that
    by (auto simp: local_vtable_def local_append_many_def)
  show "local_holds E st' sid \<and> (\<exists>ids. no_id u ids \<and> grown (local_entries (st, sid)) [ConfigChange cfg] ids (local_entries (st', sid)))"
    if step: "vt_append_config_change (local_vtable E) sid cfg st c = Some (u, st', c')" for cfg u
  proof -
    from step obtain r where "local_append_entry E sid (ConfigChange cfg) st c = Some (r, st', c')"
      "u = and_then r (\<lambda>_. Ok ())" by (auto simp: local_vtable_def local_append_config_change_def)
    with local_entry_grown[OF h _ this(1)] no_id_one show ?thesis by auto
  qed
  show "local_holds E st' sid \<and> grown (local_entries (st, sid)) [TranscriptReplay rp] (one_id r) (local_entries (st', sid))"
    if "vt_append_transcript_replay (local_vtable E) sid rp st c = Some (r, st', c')" for rp r
    using local_entry_grown[OF h, of "TranscriptReplay rp" c r st' c'] that
    by (simp add: local_vtable_def local_append_transcript_replay_def)
  show "local_holds E st' sid \<and> local_entries (st', sid) = local_entries (st, sid) \<and> (u = Ok () \<longrightarrow> local_settled st' sid)"
    if flush: "vt_flush (local_vtable E) sid st c = Some (u, st', c')" for u
  proof -
    from h obtain hd where hd: "open_ok (env_codec E) st sid hd"
      and clean: "\<And>n es. clean_fault (env_codec E) es (io_faults E n)"
      by (auto simp: local_holds_def local_open_def)
    from flush have "local_flush E sid st = (u, st')" by (auto simp: local_vtable_def split: prod.splits)
    from flush_open[OF hd refl clean this] obtain h' where h': "open_ok (env_codec E) st' sid h'" "accepted h' = accepted hd"
      "u = Ok () \<longrightarrow> pending_state (handle_state h') = []" by blast
    then have "u = Ok () \<longrightarrow> local_settled st' sid" by (auto simp: local_settled_def open_ok_def)
    with h' hd clean show ?thesis by (auto simp: local_holds_def local_open_def open_entries)
  qed
qed

end
