(* ===== verification/User_Message.thy ===== *)
theory User_Message
  imports Domain Text_Search
begin

text \<open>
  The user message of a turn as the transcript shows it, \<^verbatim>\<open>runtime-domain/src/session/transcript_replay.rs\<close>:
  placeholders of images in its text, the text that stands for it, and its content for the provider.
\<close>

definition image_label_prefix :: ustring where
  "image_label_prefix = lit ''[Image #''"

definition is_ascii_digit :: "nat \<Rightarrow> bool" where
  "is_ascii_digit c \<longleftrightarrow> 48 \<le> c \<and> c \<le> 57"

text \<open>
  The loop of \<^verbatim>\<open>transcript_image_label_ranges\<close> over the rest of the text and the characters before it;
  its byte cursor is the rest itself.
\<close>

lemma ufind_label_shrinks: "ufind s image_label_prefix = Some k \<Longrightarrow> s \<noteq> []"
  by (cases s) (auto simp: image_label_prefix_def split: if_splits)

function image_label_loop :: "ustring \<Rightarrow> nat \<Rightarrow> (nat \<times> nat) list" where
  "image_label_loop s cursor =
     (case ufind s image_label_prefix of
        None \<Rightarrow> []
      | Some k \<Rightarrow>
          (let rest = drop (k + 8) s;
               digits = length (takeWhile is_ascii_digit rest)
           in if digits = 0 \<or> \<not> starts_with (drop digits rest) (lit '']'')
              then image_label_loop (drop (Suc k) s) (Suc (cursor + k))
              else (cursor + k, cursor + k + 9 + digits)
                   # image_label_loop (drop (k + 9 + digits) s) (cursor + k + 9 + digits)))"
  by pat_completeness auto
termination
  by (relation "measure (length \<circ> fst)") (auto dest: ufind_label_shrinks)

declare image_label_loop.simps [simp del]

definition transcript_image_label_ranges :: "ustring \<Rightarrow> (nat \<times> nat) list" where
  "transcript_image_label_ranges content = image_label_loop content 0"

definition provider_content_with_text :: "transcript_user_message \<Rightarrow> ustring \<Rightarrow> content_block list" where
  "provider_content_with_text m t = (if t = [] then [] else [Text t]) @ map to_content_block (attachments m)"

definition display_content :: "transcript_user_message \<Rightarrow> ustring" where
  "display_content m =
     (if attachments m = [] then message_content m
      else
        let labeled = min (length (transcript_image_label_ranges (message_content m))) (length (attachments m));
            summary = summary_text_from_blocks (map to_content_block (drop labeled (attachments m)))
        in if utrim (message_content m) = [] then summary
           else if summary = [] then message_content m
           else (if ends_with_newline (message_content m) then message_content m
                 else message_content m @ [10]) @ summary)"

definition requires_bound_replay :: "transcript_user_message \<Rightarrow> bool" where
  "requires_bound_replay m \<longleftrightarrow>
     attachments m \<noteq> [] \<or> skill_bindings m \<noteq> [] \<or> custom_prompt_bindings m \<noteq> []"

lemma provider_content_own_text [simp]:
  "provider_content_with_text m (message_content m) = provider_content m"
  by (simp add: provider_content_with_text_def provider_content_def)

section \<open>The labels that are found\<close>

text \<open>Between two positions stands a label: the prefix, at least one digit, a bracket.\<close>

definition label_at :: "ustring \<Rightarrow> nat \<Rightarrow> nat \<Rightarrow> bool" where
  "label_at s i j \<longleftrightarrow>
     (\<exists>ds. ds \<noteq> [] \<and> list_all is_ascii_digit ds \<and> j = i + 9 + length ds
        \<and> take (9 + length ds) (drop i s) = image_label_prefix @ ds @ lit '']'')"

lemma length_prefix [simp]: "length image_label_prefix = 8"
  by (simp add: image_label_prefix_def lit_def)

lemma label_prefix: "label_at s i j \<Longrightarrow> take 8 (drop i s) = image_label_prefix"
proof -
  assume "label_at s i j"
  then obtain ds where "take (9 + length ds) (drop i s) = image_label_prefix @ ds @ lit '']''"
    by (auto simp: label_at_def)
  then have "take 8 (take (9 + length ds) (drop i s)) = image_label_prefix" by simp
  then show ?thesis by simp
qed

lemma label_drop: "label_at (drop k s) i j \<longleftrightarrow> label_at s (k + i) (k + j)"
  by (simp add: label_at_def add.commute add.left_commute)

text \<open>What follows the prefix decides.\<close>

lemma label_here:
  assumes "take 8 (drop k s) = image_label_prefix"
  shows "label_at s k j \<longleftrightarrow>
     (let rest = drop (k + 8) s; digits = length (takeWhile is_ascii_digit rest)
      in digits \<noteq> 0 \<and> starts_with (drop digits rest) (lit '']'') \<and> j = k + 9 + digits)"
proof -
  let ?rest = "drop (k + 8) s" and ?ds = "takeWhile is_ascii_digit (drop (k + 8) s)"
  from assms have s: "drop k s = image_label_prefix @ ?rest"
    by (metis append_take_drop_id drop_drop add.commute)
  show ?thesis
  proof
    assume "label_at s k j"
    then obtain ds where ds: "ds \<noteq> []" "list_all is_ascii_digit ds" "j = k + 9 + length ds"
      and eq: "take (9 + length ds) (image_label_prefix @ ?rest) = image_label_prefix @ ds @ lit '']''"
      unfolding s[symmetric] by (auto simp: label_at_def)
    from eq have "take (Suc (length ds)) ?rest = ds @ [93]" by (simp add: lit_def)
    then obtain zs where rest: "?rest = ds @ 93 # zs"
      by (metis append.assoc append_Cons append_Nil append_take_drop_id)
    have "?ds = ds" using ds(2) unfolding rest
      by (simp add: takeWhile_append2 list_all_iff is_ascii_digit_def)
    with ds rest show "let rest = ?rest; digits = length (takeWhile is_ascii_digit rest)
      in digits \<noteq> 0 \<and> starts_with (drop digits rest) (lit '']'') \<and> j = k + 9 + digits"
      by (simp add: lit_def)
  next
    assume "let rest = ?rest; digits = length (takeWhile is_ascii_digit rest)
      in digits \<noteq> 0 \<and> starts_with (drop digits rest) (lit '']'') \<and> j = k + 9 + digits"
    then have ds: "?ds \<noteq> []" "j = k + 9 + length ?ds" and "prefix [93] (drop (length ?ds) ?rest)"
      by (simp_all add: Let_def starts_with_prefix lit_def)
    then obtain zs where zs: "drop (length ?ds) ?rest = 93 # zs" by (auto simp: prefix_def)
    then have rest: "?rest = ?ds @ 93 # zs"
      by (metis takeWhile_dropWhile_id dropWhile_eq_drop)
    have "list_all is_ascii_digit ?ds" by (auto simp: list_all_iff dest: set_takeWhileD)
    moreover have "take (9 + length ?ds) (drop k s) = image_label_prefix @ ?ds @ lit '']''"
    proof -
      have "take (9 + length ?ds) (drop k s) = image_label_prefix @ take (Suc (length ?ds)) ?rest"
        unfolding s by simp
      also have "take (Suc (length ?ds)) ?rest = ?ds @ [93]" by (subst rest) simp
      finally show ?thesis by (simp add: lit_def)
    qed
    ultimately show "label_at s k j" using ds unfolding label_at_def by blast
  qed
qed

lemma no_label_inside:
  assumes "label_at s k j" "k < i" "i < j"
  shows "\<not> label_at s i j'"
proof
  assume "label_at s i j'"
  from label_prefix[OF this] have "take 8 (drop i s) ! 0 = 91" by (simp add: image_label_prefix_def lit_def)
  moreover from label_prefix[OF \<open>label_at s i j'\<close>] have "drop i s \<noteq> []"
    by (metis length_prefix list.size(3) take_Nil zero_neq_numeral)
  ultimately have at_i: "s ! i = 91" by (cases "drop i s") (simp_all add: nth_via_drop)
  from assms(1) obtain ds where ds: "list_all is_ascii_digit ds" "j = k + 9 + length ds"
    and eq: "take (9 + length ds) (drop k s) = image_label_prefix @ ds @ lit '']''"
    by (auto simp: label_at_def)
  let ?n = "i - k"
  have n: "0 < ?n" "?n < 9 + length ds" using assms(2,3) ds(2) by auto
  from eq n have "drop k s ! ?n = (image_label_prefix @ ds @ lit '']'') ! ?n" by (metis nth_take)
  moreover have "k \<le> length s" using \<open>drop i s \<noteq> []\<close> assms(2) by simp
  ultimately have "s ! i = (image_label_prefix @ ds @ lit '']'') ! ?n" using assms(2) by simp
  moreover have "\<forall>c \<in> set (tl image_label_prefix) \<union> set ds \<union> set (lit '']''). c \<noteq> 91"
    using ds(1) by (auto simp: image_label_prefix_def lit_def list_all_iff is_ascii_digit_def)
  moreover have "(image_label_prefix @ ds @ lit '']'') ! ?n \<in> set (tl image_label_prefix) \<union> set ds \<union> set (lit '']'')"
  proof -
    obtain m where m: "?n = Suc m" using n(1) by (cases ?n) auto
    have "(image_label_prefix @ ds @ lit '']'') ! Suc m = (tl image_label_prefix @ ds @ lit '']'') ! m"
      by (simp add: image_label_prefix_def lit_def)
    moreover have "m < length (tl image_label_prefix @ ds @ lit '']'')" using n(2) m by (simp add: lit_def)
    ultimately show ?thesis using nth_mem[of m "tl image_label_prefix @ ds @ lit '']''"] m by auto
  qed
  ultimately show False using at_i by metis
qed

lemma label_at_le: "label_at s i j \<Longrightarrow> i < j"
  by (auto simp: label_at_def)

lemma shifted_labels:
  assumes "\<And>i j. label_at s i j \<Longrightarrow> n \<le> i"
  shows "{(c + i, c + j) |i j. label_at s i j} = {((c + n) + i, (c + n) + j) |i j. label_at (drop n s) i j}"
proof -
  have "\<exists>i' j'. i = n + i' \<and> j = n + j' \<and> label_at s (n + i') (n + j')" if "label_at s i j" for i j
    using assms[OF that] label_at_le[OF that] that
    by (intro exI[of _ "i - n"] exI[of _ "j - n"]) simp
  then show ?thesis by (auto simp: label_drop add.assoc)
qed

lemma shifted_labels_insert:
  assumes "\<And>j. label_at s k j \<longleftrightarrow> j = m" and "\<And>i j. label_at s i j \<Longrightarrow> i = k \<or> m \<le> i"
  shows "{(c + i, c + j) |i j. label_at s i j}
     = insert (c + k, c + m) {((c + m) + i, (c + m) + j) |i j. label_at (drop m s) i j}"
proof -
  have "i = k \<and> j = m \<or> (\<exists>i' j'. i = m + i' \<and> j = m + j' \<and> label_at s (m + i') (m + j'))"
    if "label_at s i j" for i j
  proof (cases "i = k")
    case False
    with assms(2)[OF that] label_at_le[OF that] that show ?thesis
      by (intro disjI2 exI[of _ "i - m"] exI[of _ "j - m"]) simp
  qed (use assms(1) that in simp)
  then show ?thesis using assms(1) by (auto simp: label_drop add.assoc)
qed

lemma image_label_loop_set:
  "set (image_label_loop s c) = {(c + i, c + j) |i j. label_at s i j}"
proof (induction s c rule: image_label_loop.induct)
  case (1 s c)
  show ?case
  proof (cases "ufind s image_label_prefix")
    case None
    have "\<not> label_at s i j" for i j
    proof
      assume "label_at s i j"
      from label_prefix[OF this] have "occurs_at s image_label_prefix i"
        by (metis occurs_at_def length_prefix length_take length_drop min.bounded_iff order.refl
            le_diff_conv2 nat_le_linear add.commute drop_all take_Nil length_0_conv zero_neq_numeral)
      with None show False by (auto simp: ufind_None occurs_at_def)
    qed
    with None show ?thesis by (subst image_label_loop.simps) simp
  next
    case (Some k)
    let ?rest = "drop (k + 8) s"
    let ?d = "length (takeWhile is_ascii_digit ?rest)"
    from ufind_Some[OF Some] have here: "take 8 (drop k s) = image_label_prefix" by simp
    have first: "k \<le> i" if "label_at s i j" for i j
      using ufind_first[OF Some, of i] label_prefix[OF that] by (metis length_prefix not_le)
    show ?thesis
    proof (cases "?d = 0 \<or> \<not> starts_with (drop ?d ?rest) (lit '']'')")
      case True
      with label_here[OF here] have no: "\<not> label_at s k j" for j by (auto simp: Let_def)
      have "{(c + i, c + j) |i j. label_at s i j}
          = {(Suc (c + k) + i, Suc (c + k) + j) |i j. label_at (drop (Suc k) s) i j}"
      proof -
        have "Suc k \<le> i" if "label_at s i j" for i j
          using first[OF that] no that by (cases "i = k") auto
        from shifted_labels[of s "Suc k" c, OF this] show ?thesis by simp
      qed
      with 1(1)[OF Some refl refl True] Some True show ?thesis
        by (subst image_label_loop.simps) (simp add: Let_def)
    next
      case False
      let ?m = "k + 9 + ?d"
      from False label_here[OF here] have ends: "label_at s k j \<longleftrightarrow> j = ?m" for j by (auto simp: Let_def)
      have "{(c + i, c + j) |i j. label_at s i j}
          = insert (c + k, c + ?m) {((c + ?m) + i, (c + ?m) + j) |i j. label_at (drop ?m s) i j}"
      proof (rule shifted_labels_insert[of s k ?m c])
        show "label_at s k j \<longleftrightarrow> j = ?m" for j by (rule ends)
        show "i = k \<or> ?m \<le> i" if "label_at s i j" for i j
          using first[OF that] no_label_inside[of s k ?m i j] ends[of ?m] that by (cases "i = k"; cases "i < ?m") auto
      qed
      with 1(2)[OF Some refl refl False] Some False show ?thesis
        by (subst image_label_loop.simps) (simp add: Let_def add.assoc)
    qed
  qed
qed

lemma image_label_loop_sorted: "sorted_wrt (\<lambda>a b. snd a \<le> fst b) (image_label_loop s c)"
proof (induction s c rule: image_label_loop.induct)
  case (1 s c)
  show ?case
  proof (cases "ufind s image_label_prefix")
    case None
    then show ?thesis by (subst image_label_loop.simps) simp
  next
    case (Some k)
    let ?rest = "drop (k + 8) s"
    let ?d = "length (takeWhile is_ascii_digit ?rest)"
    show ?thesis
    proof (cases "?d = 0 \<or> \<not> starts_with (drop ?d ?rest) (lit '']'')")
      case True
      with 1(1)[OF Some refl refl True] Some show ?thesis
        by (subst image_label_loop.simps) (simp add: Let_def)
    next
      case False
      with 1(2)[OF Some refl refl False] Some show ?thesis
        by (subst image_label_loop.simps) (auto simp: Let_def image_label_loop_set)
    qed
  qed
qed

text \<open>Exactly the labels of the text, from left to right.\<close>

lemma transcript_image_label_ranges_labels:
  "set (transcript_image_label_ranges s) = {(i, j). label_at s i j}"
  "sorted_wrt (\<lambda>a b. snd a \<le> fst b) (transcript_image_label_ranges s)"
  by (auto simp: transcript_image_label_ranges_def image_label_loop_set image_label_loop_sorted)

end
