(* ===== verification/Session_Persistence.thy ===== *)
theory Session_Persistence
  imports Session_Backend User_Message Tool_Activity
begin

text \<open>
  The actor that persists a turn, \<^verbatim>\<open>conversation-runtime/src/conversation/session/persistence.rs\<close>: it
  takes commands from a queue, writes them to the store and tells the consumer under which ids.  A
  failing command ends it.  Everything that awaits the store is a function of the store and its
  cursor; \<^const>\<open>None\<close> is a store call that does not return.
\<close>

section \<open>Commands, deltas and errors\<close>

datatype conversation_delta =
    DeltaTurnStarted "session_id option" "ustring option"
  | DeltaContextItem "ustring option" conversation_item

datatype persistence_error =
    PersistConfigChange store_error
  | PersistUserMessage store_error
  | PersistConversationItem store_error
  | PersistTranscriptReplay store_error
  | CreateSession store_error
  | FlushFailed store_error
  | MissingSession
  | WorkerStopped
  | FlushAckDropped

definition persistence_error_text :: "(store_error \<Rightarrow> ustring) \<Rightarrow> persistence_error \<Rightarrow> ustring" where
  "persistence_error_text show e =
     (case e of
        PersistConfigChange s \<Rightarrow> lit ''persist conversation config change failed: '' @ show s
      | PersistUserMessage s \<Rightarrow> lit ''persist conversation user message failed: '' @ show s
      | PersistConversationItem s \<Rightarrow> lit ''persist conversation item failed: '' @ show s
      | PersistTranscriptReplay s \<Rightarrow> lit ''persist transcript replay item failed: '' @ show s
      | CreateSession s \<Rightarrow> lit ''create conversation session failed: '' @ show s
      | FlushFailed s \<Rightarrow> lit ''persist conversation flush failed: '' @ show s
      | MissingSession \<Rightarrow> lit ''conversation session has not started persistence''
      | WorkerStopped \<Rightarrow> lit ''conversation session persistence worker stopped unexpectedly''
      | FlushAckDropped \<Rightarrow> lit ''conversation session persistence worker dropped flush ack'')"

datatype persistence_command =
    CmdTurnStarted
  | CmdContextItem conversation_item
  | CmdActivityStarted tool_activity
  | CmdActivityUpdated activity_update
  | CmdTerminalSnapshot terminal_snapshot
  | CmdFlush

record persistence_state =
  has_persisted_turn_start :: bool
  actor_session_id :: "session_id option"
  actor_user_entry_id :: "ustring option"
  tool_activities :: "(ustring \<times> tool_activity) list"
  final_tool_activity_ids :: "ustring set"

definition new_persistence_state :: persistence_state where
  "new_persistence_state =
     \<lparr>has_persisted_turn_start = False, actor_session_id = None, actor_user_entry_id = None,
      tool_activities = [], final_tool_activity_ids = {}\<rparr>"

text \<open>What a prepared turn carries for the actor (\<^verbatim>\<open>provider_conversation/persistence.rs\<close>), with the store.\<close>

record 's prepared_persistence =
  persist_store :: "'s session_vtable"
  persist_session_id :: "session_id option"
  persist_header :: session_header
  persist_config :: config_snapshot
  persist_user_items :: "conversation_item list"
  persist_user_message :: transcript_user_message
  persist_replay_after_user :: "replay_item list"

section \<open>Store calls in sequence\<close>

type_synonym ('s, 'r) persisting = "'s \<Rightarrow> cursor \<Rightarrow> ((persistence_error + 'r) \<times> 's \<times> cursor) option"

definition persisted :: "'r \<Rightarrow> ('s, 'r) persisting" where
  "persisted r = (\<lambda>s c. Some (Ok r, s, c))"

definition persist_then :: "('s, 'a) persisting \<Rightarrow> ('a \<Rightarrow> ('s, 'b) persisting) \<Rightarrow> ('s, 'b) persisting" where
  "persist_then m f = (\<lambda>s c.
     case m s c of
       None \<Rightarrow> None
     | Some (Inl err, s, c) \<Rightarrow> Some (Err err, s, c)
     | Some (Inr a, s, c) \<Rightarrow> f a s c)"

definition store_call :: "(store_error \<Rightarrow> persistence_error) \<Rightarrow> ('s, 'r) store_call \<Rightarrow> ('s, 'r) persisting" where
  "store_call mk m = (\<lambda>s c. map_option (\<lambda>(r, s, c). (map_err mk r, s, c)) (m s c))"

section \<open>Replay items\<close>

definition append_transcript_replay_item ::
    "'s session_vtable \<Rightarrow> session_id \<Rightarrow> replay_item \<Rightarrow> ('s, unit) persisting" where
  "append_transcript_replay_item V sid rp =
     persist_then (store_call PersistTranscriptReplay (vt_append_transcript_replay V sid rp)) (\<lambda>_. persisted ())"

fun append_transcript_replay_items ::
    "'s session_vtable \<Rightarrow> session_id \<Rightarrow> replay_item list \<Rightarrow> ('s, unit) persisting" where
  "append_transcript_replay_items V sid [] = persisted ()"
| "append_transcript_replay_items V sid (rp # rps) =
     persist_then (append_transcript_replay_item V sid rp) (\<lambda>_. append_transcript_replay_items V sid rps)"

fun transcript_role_from_provider_role :: "role \<Rightarrow> replay_role option" where
  "transcript_role_from_provider_role System = None"
| "transcript_role_from_provider_role User = Some ReplayUser"
| "transcript_role_from_provider_role Assistant = Some ReplayAssistant"

definition transcript_replay_items_from_context_item ::
    "conversation_item \<Rightarrow> persistence_state \<Rightarrow> replay_item list" where
  "transcript_replay_items_from_context_item x ps =
     (let content = summary_text_content x; blank = utrim content = []
      in case x of
           Message r _ \<Rightarrow>
             if blank then []
             else [case transcript_role_from_provider_role r of
                     Some r' \<Rightarrow> ReplayMessage r' content | None \<Rightarrow> ReplaySystem content]
         | Reasoning _ _ _ \<Rightarrow> if blank then [] else [ReplayReasoning content]
         | ToolResult cid _ _ \<Rightarrow>
             if cid \<in> final_tool_activity_ids ps \<or> blank then [] else [ReplayToolResult content])"

definition transcript_replay_items_from_transcript_user_message ::
    "transcript_user_message \<Rightarrow> replay_item list" where
  "transcript_replay_items_from_transcript_user_message m =
     (if utrim (display_content m) = [] then []
      else if \<not> requires_bound_replay m then [ReplayMessage ReplayUser (message_content m)]
      else [ReplayBoundUserMessage m])"

definition apply_tool_activity_update :: "activity_update \<Rightarrow> tool_activity \<Rightarrow> tool_activity" where
  "apply_tool_activity_update u a =
     (let a = (case upd_title u of Some t \<Rightarrow> a\<lparr>activity_title := t\<rparr> | None \<Rightarrow> a);
          a = (case upd_kind u of Some k \<Rightarrow> a\<lparr>activity_kind := k\<rparr> | None \<Rightarrow> a);
          a = (case upd_status u of Some s \<Rightarrow> a\<lparr>activity_status := s\<rparr> | None \<Rightarrow> a);
          a = (case upd_content u of Some c \<Rightarrow> a\<lparr>activity_content := c\<rparr> | None \<Rightarrow> a);
          a = (case upd_locations u of Some l \<Rightarrow> a\<lparr>locations := l\<rparr> | None \<Rightarrow> a);
          a = (case upd_raw_input u of Some v \<Rightarrow> a\<lparr>raw_input := Some v\<rparr> | None \<Rightarrow> a);
          a = (case upd_raw_output u of Some v \<Rightarrow> a\<lparr>raw_output := Some v\<rparr> | None \<Rightarrow> a)
      in a)"

definition runtime_tool_activity_from_update :: "activity_update \<Rightarrow> tool_activity" where
  "runtime_tool_activity_from_update u =
     \<lparr>activity_id = upd_id u,
      activity_title = (case upd_title u of Some t \<Rightarrow> t | None \<Rightarrow> lit ''Tool activity '' @ upd_id u),
      activity_kind = (case upd_kind u of Some k \<Rightarrow> k | None \<Rightarrow> Other),
      activity_status = (case upd_status u of Some s \<Rightarrow> s | None \<Rightarrow> Pending),
      activity_content = (case upd_content u of Some c \<Rightarrow> c | None \<Rightarrow> []),
      locations = (case upd_locations u of Some l \<Rightarrow> l | None \<Rightarrow> []),
      raw_input = upd_raw_input u,
      raw_output = upd_raw_output u\<rparr>"

section \<open>The commands\<close>

definition ensure_persistence_session :: "'s prepared_persistence \<Rightarrow> ('s, session_id) persisting" where
  "ensure_persistence_session p =
     (case persist_session_id p of
        Some sid \<Rightarrow> persisted sid
      | None \<Rightarrow>
          store_call CreateSession
            (vt_create_session (persist_store p)
               ((persist_header p)\<lparr>initial_model := config_model (persist_config p)\<rparr>)))"

definition active_session_id :: "'s prepared_persistence \<Rightarrow> persistence_state \<Rightarrow> persistence_error + session_id" where
  "active_session_id p ps = ok_or MissingSession (or_else (actor_session_id ps) (persist_session_id p))"

definition with_active_session ::
    "'s prepared_persistence \<Rightarrow> persistence_state \<Rightarrow> (session_id \<Rightarrow> ('s, 'r) persisting) \<Rightarrow> ('s, 'r) persisting" where
  "with_active_session p ps f =
     (case active_session_id p ps of
        Inl err \<Rightarrow> (\<lambda>s c. Some (Err err, s, c))
      | Inr sid \<Rightarrow> f sid)"

definition persist_turn_start ::
    "'s prepared_persistence option \<Rightarrow> persistence_state \<Rightarrow> ('s, persistence_state \<times> conversation_delta list) persisting" where
  "persist_turn_start pers ps =
     (if has_persisted_turn_start ps
      then persisted (ps, [DeltaTurnStarted (actor_session_id ps) (actor_user_entry_id ps)])
      else
        persist_then
          (case pers of
             None \<Rightarrow> persisted (None, None)
           | Some p \<Rightarrow>
               persist_then (ensure_persistence_session p) (\<lambda>sid.
               persist_then (store_call PersistConfigChange
                   (vt_append_config_change (persist_store p) sid (persist_config p))) (\<lambda>_.
               persist_then (store_call PersistUserMessage
                   (vt_append_many (persist_store p) sid (persist_user_items p))) (\<lambda>ids.
               persist_then (append_transcript_replay_items (persist_store p) sid
                   (transcript_replay_items_from_transcript_user_message (persist_user_message p))) (\<lambda>_.
               persist_then (append_transcript_replay_items (persist_store p) sid (persist_replay_after_user p)) (\<lambda>_.
               persisted (Some sid, last_opt ids)))))))
          (\<lambda>(sid, i).
             persisted (ps\<lparr>has_persisted_turn_start := True, actor_session_id := sid, actor_user_entry_id := i\<rparr>,
               [DeltaTurnStarted sid i])))"

definition persist_context_item ::
    "'s prepared_persistence option \<Rightarrow> conversation_item \<Rightarrow> persistence_state
      \<Rightarrow> ('s, persistence_state \<times> conversation_delta list) persisting" where
  "persist_context_item pers x ps =
     (case pers of
        None \<Rightarrow> persisted (ps, [DeltaContextItem None x])
      | Some p \<Rightarrow>
          with_active_session p ps (\<lambda>sid.
            persist_then (store_call PersistConversationItem (vt_append (persist_store p) sid x)) (\<lambda>i.
            persist_then (append_transcript_replay_items (persist_store p) sid
                (transcript_replay_items_from_context_item x ps)) (\<lambda>_.
            persisted (ps, [DeltaContextItem (Some i) x])))))"

definition persist_replay ::
    "'s prepared_persistence option \<Rightarrow> replay_item \<Rightarrow> persistence_state
      \<Rightarrow> ('s, persistence_state \<times> conversation_delta list) persisting" where
  "persist_replay pers rp ps =
     (case pers of
        None \<Rightarrow> persisted (ps, [])
      | Some p \<Rightarrow>
          with_active_session p ps (\<lambda>sid.
            persist_then (append_transcript_replay_item (persist_store p) sid rp) (\<lambda>_. persisted (ps, []))))"

definition persist_tool_activity_started ::
    "'s prepared_persistence option \<Rightarrow> tool_activity \<Rightarrow> persistence_state
      \<Rightarrow> ('s, persistence_state \<times> conversation_delta list) persisting" where
  "persist_tool_activity_started pers a ps =
     persist_replay pers (ReplayToolActivity a)
       (ps\<lparr>tool_activities := AList.update (activity_id a) a (tool_activities ps)\<rparr>)"

definition is_final_status :: "activity_status option \<Rightarrow> bool" where
  "is_final_status s \<longleftrightarrow> s = Some Completed \<or> s = Some Failed"

definition persist_tool_activity_update ::
    "'s prepared_persistence option \<Rightarrow> activity_update \<Rightarrow> persistence_state
      \<Rightarrow> ('s, persistence_state \<times> conversation_delta list) persisting" where
  "persist_tool_activity_update pers u ps =
     (let a = (case map_of (tool_activities ps) (upd_id u) of
                 Some a \<Rightarrow> apply_tool_activity_update u a
               | None \<Rightarrow> runtime_tool_activity_from_update u)
      in persist_replay pers (ReplayToolActivity a)
           (ps\<lparr>final_tool_activity_ids :=
                 (if is_final_status (upd_status u) then insert (upd_id u) (final_tool_activity_ids ps)
                  else final_tool_activity_ids ps),
               tool_activities := AList.update (upd_id u) a (tool_activities ps)\<rparr>))"

definition persist_terminal_snapshot ::
    "'s prepared_persistence option \<Rightarrow> terminal_snapshot \<Rightarrow> persistence_state
      \<Rightarrow> ('s, persistence_state \<times> conversation_delta list) persisting" where
  "persist_terminal_snapshot pers snap ps = persist_replay pers (ReplayTerminalSnapshot snap) ps"

definition flush_persistence :: "'s prepared_persistence option \<Rightarrow> persistence_state \<Rightarrow> ('s, unit) persisting" where
  "flush_persistence pers ps =
     (case pers of
        None \<Rightarrow> persisted ()
      | Some p \<Rightarrow>
          (case or_else (actor_session_id ps) (persist_session_id p) of
             None \<Rightarrow> persisted ()
           | Some sid \<Rightarrow> store_call FlushFailed (vt_flush (persist_store p) sid)))"

text \<open>The dispatch of \<^verbatim>\<open>run_session_persistence_actor\<close>; the answer to a flush is its result.\<close>

fun persist_command ::
    "'s prepared_persistence option \<Rightarrow> persistence_command \<Rightarrow> persistence_state
      \<Rightarrow> ('s, persistence_state \<times> conversation_delta list) persisting" where
  "persist_command pers CmdTurnStarted ps = persist_turn_start pers ps"
| "persist_command pers (CmdContextItem x) ps = persist_context_item pers x ps"
| "persist_command pers (CmdActivityStarted a) ps = persist_tool_activity_started pers a ps"
| "persist_command pers (CmdActivityUpdated u) ps = persist_tool_activity_update pers u ps"
| "persist_command pers (CmdTerminalSnapshot snap) ps = persist_terminal_snapshot pers snap ps"
| "persist_command pers CmdFlush ps = persist_then (flush_persistence pers ps) (\<lambda>_. persisted (ps, []))"

end
