(* ===== verification/Context_Repair.thy ===== *)
theory Context_Repair
  imports Loop_Runs "HOL-Library.Multiset"
begin

text \<open>
  The ledger of open tool calls, \<^verbatim>\<open>conversation-runtime/src/conversation/session/context_repair.rs\<close>:
  while a turn reports its items, the worker remembers the calls without a result; when the turn is
  cut off, it closes them with results that say so.  A conversation with an open call would be refused
  by the provider at the next request.
\<close>

section \<open>The ledger\<close>

type_synonym repair_ledger = "tool_call list"

definition resolve_tool_result :: "ustring \<Rightarrow> repair_ledger \<Rightarrow> repair_ledger" where
  "resolve_tool_result cid L =
     (case position (\<lambda>call. call_id call = cid) L of
        None \<Rightarrow> L
      | Some i \<Rightarrow> take i L @ drop (Suc i) L)"

definition ledger_observe :: "conversation_item \<Rightarrow> repair_ledger \<Rightarrow> repair_ledger" where
  "ledger_observe item L =
     (let L' = L @ tool_calls item
      in case item of ToolResult cid _ _ \<Rightarrow> resolve_tool_result cid L' | _ \<Rightarrow> L')"

definition take_repair_items :: "ustring \<Rightarrow> repair_ledger \<Rightarrow> conversation_item list \<times> repair_ledger" where
  "take_repair_items content L = (map (\<lambda>call. ToolResult (call_id call) [Text content] True) L, [])"

section \<open>What it keeps\<close>

definition ledger_of :: "conversation_item list \<Rightarrow> repair_ledger" where
  "ledger_of xs = fold ledger_observe xs []"

fun result_id :: "conversation_item \<Rightarrow> ustring option" where
  "result_id (ToolResult cid _ _) = Some cid"
| "result_id _ = None"

definition call_ids :: "conversation_item list \<Rightarrow> ustring list" where
  "call_ids xs = map call_id (extract_tool_calls xs)"

definition result_ids :: "conversation_item list \<Rightarrow> ustring list" where
  "result_ids xs = filter_map result_id xs"

text \<open>Every call has a result of its own.\<close>

definition closed_context :: "conversation_item list \<Rightarrow> bool" where
  "closed_context xs \<longleftrightarrow> mset (call_ids xs) \<subseteq># mset (result_ids xs)"

lemma resolve_Nil [simp]: "resolve_tool_result cid [] = []"
  by (simp add: resolve_tool_result_def)

lemma resolve_Cons [simp]:
  "resolve_tool_result cid (c # L) = (if call_id c = cid then L else c # resolve_tool_result cid L)"
  by (auto simp: resolve_tool_result_def split: option.splits)

lemma resolve_ids:
  "image_mset call_id (mset (resolve_tool_result cid L)) = image_mset call_id (mset L) - {#cid#}"
  by (induction L) auto

lemma call_ids_Nil [simp]: "call_ids [] = []" "result_ids [] = []"
  by (simp_all add: call_ids_def result_ids_def extract_tool_calls_def)

lemma call_ids_append [simp]:
  "call_ids (xs @ ys) = call_ids xs @ call_ids ys" "result_ids (xs @ ys) = result_ids xs @ result_ids ys"
  by (simp_all add: call_ids_def result_ids_def extract_tool_calls_def filter_map_append)

lemma mset_readd: "A \<subseteq># add_mset x (A - {#x#})"
  using subset_eq_diff_conv[of A "{#x#}" "A - {#x#}"] by simp

lemma observe_ids:
  "mset (map call_id (ledger_observe x L)) + mset (result_ids [x])
     \<supseteq># mset (map call_id L) + mset (call_ids [x])"
  by (cases x) (auto simp: ledger_observe_def resolve_ids call_ids_def result_ids_def extract_tool_calls_def mset_readd)

lemma ledger_snoc [simp]: "ledger_of (xs @ [x]) = ledger_observe x (ledger_of xs)"
  by (simp add: ledger_of_def)

lemma ledger_ids:
  "mset (call_ids xs) \<subseteq># mset (map call_id (ledger_of xs)) + mset (result_ids xs)"
proof (induction xs rule: rev_induct)
  case (snoc x xs)
  have "mset (call_ids (xs @ [x])) \<subseteq># mset (map call_id (ledger_of xs)) + mset (result_ids xs) + mset (call_ids [x])"
    using snoc by simp
  also have "\<dots> = (mset (map call_id (ledger_of xs)) + mset (call_ids [x])) + mset (result_ids xs)" by simp
  also have "\<dots> \<subseteq># (mset (map call_id (ledger_observe x (ledger_of xs))) + mset (result_ids [x])) + mset (result_ids xs)"
    using observe_ids by (rule subset_mset.add_right_mono)
  finally show ?case by (simp add: ac_simps)
qed (simp add: ledger_of_def)

lemma repairs_close: "fold ledger_observe (fst (take_repair_items content L)) L = []"
  by (induction L) (simp_all add: take_repair_items_def ledger_observe_def)

lemma closed_if_resolved: "ledger_of xs = [] \<Longrightarrow> closed_context xs"
  using ledger_ids[of xs] by (simp add: closed_context_def)

section \<open>Complete rounds need no repair\<close>

lemma fold_results:
  "list_all2 answers calls results \<Longrightarrow> mset (map call_id L) \<subseteq># mset (map call_id calls) \<Longrightarrow>
     fold ledger_observe results L = []"
proof (induction calls results arbitrary: L rule: list_all2_induct)
  case (Cons c calls r results)
  then obtain content err where r: "r = ToolResult (call_id c) content err" by (cases r) auto
  have "mset (map call_id (ledger_observe r L)) \<subseteq># mset (map call_id calls)"
    using Cons.prems by (simp add: r ledger_observe_def resolve_ids subset_eq_diff_conv)
  with Cons.IH show ?case by simp
qed simp

lemma observe_bound:
  "mset (map call_id (fold ledger_observe xs L)) \<subseteq># mset (map call_id L) + mset (call_ids xs)"
proof (induction xs arbitrary: L)
  case (Cons x xs)
  have "mset (map call_id (ledger_observe x L)) \<subseteq># mset (map call_id L) + mset (call_ids [x])"
    by (cases x) (auto simp: ledger_observe_def resolve_ids call_ids_def extract_tool_calls_def)
  with Cons.IH[of "ledger_observe x L"] call_ids_append(1)[of "[x]" xs] show ?case
    by (auto intro: subset_mset.order_trans subset_mset.add_right_mono simp: ac_simps)
qed (simp add: call_ids_def extract_tool_calls_def)

lemma answered_ledger: "answered xs \<Longrightarrow> ledger_of xs = []"
proof (induction rule: answered.induct)
  case (answered_round xs out_items results)
  have "mset (map call_id (fold ledger_observe out_items [])) \<subseteq># mset (map call_id (extract_tool_calls out_items))"
    using observe_bound[of out_items "[]"] by (simp add: call_ids_def)
  from fold_results[OF answered_round(2) this] answered_round(3) show ?case by (simp add: ledger_of_def)
qed (simp add: ledger_of_def)

end
