(* ===== verification/Conversation_Worker.thy ===== *)
theory Conversation_Worker
  imports Session_Persistence Context_Repair Permission_Broker
begin

text \<open>
  The background worker of a turn, \<^verbatim>\<open>conversation-runtime/src/conversation/session/mod.rs\<close>: it runs
  attempts of the turn, hands what they report to the persistence actor over a bounded queue and to
  the consumer over a channel, retries an attempt that failed before it produced anything, closes the
  tool calls that are still open, waits until everything is stored and ends with one event.

  The worker, the actor, the cancellation of the user and the permission prompts run side by side; one
  step of \<open>worker_step\<close> is a step of one of them.  What an attempt reports and how it ends are a
  parameter of the relation (\<open>attempt_of_loop\<close> is the tool loop).
\<close>

section \<open>Events\<close>

datatype conversation_event =
    EvSystemMessage ustring
  | EvRetrying ustring
  | EvOutputTokenEstimate nat
  | EvInputTokenEstimate nat
  | EvThinking bool
  | EvAssistantDelta ustring
  | EvReasoningDelta ustring
  | EvToolActivityStarted tool_activity
  | EvToolActivityUpdated activity_update
  | EvTerminalUpdated terminal_snapshot
  | EvPermissionRequested ustring "permission_option list"
  | EvFinished loop_response "request_metrics option"
  | EvFailed ustring
  | EvInterrupted

fun is_terminal :: "conversation_event \<Rightarrow> bool" where
  "is_terminal (EvFinished _ _) = True"
| "is_terminal (EvFailed _) = True"
| "is_terminal EvInterrupted = True"
| "is_terminal _ = False"

datatype worker_event =
    WorkerProgress conversation_event
  | WorkerSession conversation_delta
  | WorkerFinished loop_response "request_metrics option" "nat option"

fun conversation_worker_event_from_progress :: "loop_progress \<Rightarrow> worker_event option" where
  "conversation_worker_event_from_progress (ProgressMessage m) = Some (WorkerProgress (EvSystemMessage m))"
| "conversation_worker_event_from_progress (OutputTokens n) = Some (WorkerProgress (EvOutputTokenEstimate n))"
| "conversation_worker_event_from_progress (InputTokens n) = Some (WorkerProgress (EvInputTokenEstimate n))"
| "conversation_worker_event_from_progress (Thinking b) = Some (WorkerProgress (EvThinking b))"
| "conversation_worker_event_from_progress (AssistantDelta t) = Some (WorkerProgress (EvAssistantDelta t))"
| "conversation_worker_event_from_progress (ReasoningDelta t) = Some (WorkerProgress (EvReasoningDelta t))"
| "conversation_worker_event_from_progress (ToolActivityStarted a) = Some (WorkerProgress (EvToolActivityStarted a))"
| "conversation_worker_event_from_progress (ToolActivityUpdated u) = Some (WorkerProgress (EvToolActivityUpdated u))"
| "conversation_worker_event_from_progress (ProgressTerminal s) = Some (WorkerProgress (EvTerminalUpdated s))"
| "conversation_worker_event_from_progress ProviderTurnStarted = None"
| "conversation_worker_event_from_progress (ProviderContextItem _) = None"

section \<open>The state of a run\<close>

datatype attempt_outcome =
    AttemptCompleted loop_completion
  | AttemptCancelled
  | AttemptFailed ustring
  | CancelledAfterGrace

datatype worker_phase =
    Beginning
  | Attempting nat
  | Sleeping nat
  | Flushing worker_event
  | AwaitingFlush worker_event
  | Ended

record 's worker_env =
  worker_persistence :: "'s prepared_persistence option"
  worker_attempts :: nat
  worker_show_error :: "store_error \<Rightarrow> ustring"

record 's worker_run =
  run_phase :: worker_phase
  run_seen :: "loop_progress list"
  run_ledger :: repair_ledger
  run_items_started :: bool
  run_cancelled :: bool
  attempt_cancelled :: bool
  run_queue :: "persistence_command list"
  run_open :: bool
  run_actor :: persistence_state
  run_ack :: "(persistence_error + unit) option"
  run_outbox :: "worker_event list"
  run_store :: 's
  run_cursor :: cursor

definition new_run :: "'s \<Rightarrow> cursor \<Rightarrow> 's worker_run" where
  "new_run s c =
     \<lparr>run_phase = Beginning, run_seen = [], run_ledger = [], run_items_started = False, run_cancelled = False,
      attempt_cancelled = False, run_queue = [], run_open = True, run_actor = new_persistence_state, run_ack = None, run_outbox = [],
      run_store = s, run_cursor = c\<rparr>"

definition session_persistence_queue_capacity :: nat where
  "session_persistence_queue_capacity = 256"

definition queue_full_text :: ustring where
  "queue_full_text = lit ''conversation session persistence queue is full''"

definition persistence_stopped_text :: ustring where
  "persistence_stopped_text = lit ''conversation session persistence worker stopped''"

definition tell :: "worker_event \<Rightarrow> 's worker_run \<Rightarrow> 's worker_run" where
  "tell ev R = R\<lparr>run_outbox := run_outbox R @ [ev]\<rparr>"

definition tell_failure :: "ustring \<Rightarrow> 's worker_run \<Rightarrow> 's worker_run" where
  "tell_failure m R = tell (WorkerProgress (EvFailed m)) R"

section \<open>The worker\<close>

text \<open>The token of an attempt is a child of the token of the turn.\<close>

definition cancel_turn :: "'s worker_run \<Rightarrow> 's worker_run" where
  "cancel_turn R = R\<lparr>run_cancelled := True, attempt_cancelled := True\<rparr>"

definition cancel_attempt :: "'s worker_run \<Rightarrow> 's worker_run" where
  "cancel_attempt R = R\<lparr>attempt_cancelled := True\<rparr>"

definition try_send_session_persistence ::
    "('s worker_run \<Rightarrow> 's worker_run) \<Rightarrow> persistence_command \<Rightarrow> 's worker_run \<Rightarrow> bool \<times> 's worker_run" where
  "try_send_session_persistence cancel cmd R =
     (if \<not> run_open R then (False, tell_failure persistence_stopped_text (cancel R))
      else if session_persistence_queue_capacity \<le> length (run_queue R)
      then (False, tell_failure queue_full_text (cancel R))
      else (True, R\<lparr>run_queue := run_queue R @ [cmd]\<rparr>))"

definition tell_progress :: "loop_progress \<Rightarrow> 's worker_run \<Rightarrow> 's worker_run" where
  "tell_progress p R =
     (case conversation_worker_event_from_progress p of Some ev \<Rightarrow> tell ev R | None \<Rightarrow> R)"

text \<open>The closure \<^verbatim>\<open>on_progress\<close> of an attempt.\<close>

definition on_progress :: "loop_progress \<Rightarrow> 's worker_run \<Rightarrow> 's worker_run" where
  "on_progress p R =
     (case p of
        ProviderTurnStarted \<Rightarrow> R
      | ProviderContextItem x \<Rightarrow>
          snd (try_send_session_persistence cancel_attempt (CmdContextItem x)
                 (R\<lparr>run_items_started := True, run_ledger := ledger_observe x (run_ledger R)\<rparr>))
      | ToolActivityStarted a \<Rightarrow> tell_progress p (snd (try_send_session_persistence cancel_attempt (CmdActivityStarted a) R))
      | ToolActivityUpdated u \<Rightarrow> tell_progress p (snd (try_send_session_persistence cancel_attempt (CmdActivityUpdated u) R))
      | ProgressTerminal snap \<Rightarrow> tell_progress p (snd (try_send_session_persistence cancel_attempt (CmdTerminalSnapshot snap) R))
      | _ \<Rightarrow> tell_progress p R)"

text \<open>\<^verbatim>\<open>send_repair_items\<close>: the loop stops at the first item that is not taken.\<close>

fun send_each :: "conversation_item list \<Rightarrow> 's worker_run \<Rightarrow> 's worker_run" where
  "send_each [] R = R"
| "send_each (x # xs) R =
     (case try_send_session_persistence cancel_turn (CmdContextItem x) R of
        (True, R') \<Rightarrow> send_each xs R'
      | (False, R') \<Rightarrow> R')"

definition send_repair_items :: "'s worker_run \<Rightarrow> 's worker_run" where
  "send_repair_items R =
     (case take_repair_items tool_execution_interrupted (run_ledger R) of
        (repairs, L) \<Rightarrow> send_each repairs (R\<lparr>run_ledger := L\<rparr>))"

definition retrying_text :: "nat \<Rightarrow> nat \<Rightarrow> ustring" where
  "retrying_text retry attempts = lit ''Reconnecting... '' @ decimal retry @ lit ''/'' @ decimal attempts"

text \<open>The \<^verbatim>\<open>match attempt_result\<close>.\<close>

definition conclude_attempt :: "nat \<Rightarrow> nat \<Rightarrow> attempt_outcome \<Rightarrow> 's worker_run \<Rightarrow> 's worker_run" where
  "conclude_attempt attempts n outcome R =
     (case outcome of
        AttemptCompleted c \<Rightarrow> R\<lparr>run_phase := Flushing (WorkerFinished (response c) (metrics c) (upstream_tokens c))\<rparr>
      | AttemptCancelled \<Rightarrow> (send_repair_items R)\<lparr>run_phase := Flushing (WorkerProgress EvInterrupted)\<rparr>
      | CancelledAfterGrace \<Rightarrow> (send_repair_items R)\<lparr>run_phase := Flushing (WorkerProgress EvInterrupted)\<rparr>
      | AttemptFailed m \<Rightarrow>
          if n < attempts \<and> \<not> run_items_started R
          then (tell (WorkerProgress (EvRetrying (retrying_text (Suc n) attempts))) R)\<lparr>run_phase := Sleeping n\<rparr>
          else (send_repair_items R)\<lparr>run_phase := Flushing (WorkerProgress (EvFailed m))\<rparr>)"

section \<open>The actor\<close>

text \<open>
  A result is told; an error cancels the turn, closes the queue and answers the flushes in it.
\<close>

definition actor_done ::
    "(store_error \<Rightarrow> ustring) \<Rightarrow> persistence_command \<Rightarrow> persistence_command list
      \<Rightarrow> (persistence_error + persistence_state \<times> conversation_delta list) \<Rightarrow> 's worker_run \<Rightarrow> 's worker_run" where
  "actor_done show cmd rest r R =
     (case r of
        Inr (ps, deltas) \<Rightarrow>
          R\<lparr>run_queue := rest, run_actor := ps,
            run_outbox := run_outbox R @ map WorkerSession deltas,
            run_ack := (if cmd = CmdFlush then Some (Ok ()) else run_ack R)\<rparr>
      | Inl err \<Rightarrow>
          tell_failure (persistence_error_text show err)
            ((cancel_turn R)\<lparr>run_queue := [], run_open := False,
               run_ack := (if cmd = CmdFlush \<or> CmdFlush \<in> set rest then Some (Err err) else run_ack R)\<rparr>))"

section \<open>Steps\<close>

inductive worker_step ::
    "'s worker_env \<Rightarrow> (nat \<Rightarrow> loop_progress list \<Rightarrow> attempt_outcome \<Rightarrow> bool) \<Rightarrow> 's worker_run \<Rightarrow> 's worker_run \<Rightarrow> bool"
  for W attempt_can where
  begin_cancelled: "run_phase R = Beginning \<Longrightarrow> run_cancelled R \<Longrightarrow>
    worker_step W attempt_can R ((tell (WorkerProgress EvInterrupted) R)\<lparr>run_phase := Ended\<rparr>)"
| begin_turn: "run_phase R = Beginning \<Longrightarrow> \<not> run_cancelled R \<Longrightarrow>
    worker_step W attempt_can R (R\<lparr>run_queue := run_queue R @ [CmdTurnStarted], run_phase := Attempting 0\<rparr>)"
| progress: "run_phase R = Attempting n \<Longrightarrow>
    worker_step W attempt_can R (on_progress p (R\<lparr>run_seen := run_seen R @ [p]\<rparr>))"
| attempt_ends: "run_phase R = Attempting n \<Longrightarrow> attempt_can n (run_seen R) outcome \<Longrightarrow>
    (outcome = CancelledAfterGrace \<Longrightarrow> run_cancelled R) \<Longrightarrow>
    worker_step W attempt_can R (conclude_attempt (worker_attempts W) n outcome R)"
| wakes: "run_phase R = Sleeping n \<Longrightarrow>
    worker_step W attempt_can R (R\<lparr>run_phase := Attempting (Suc n), run_seen := [], attempt_cancelled := run_cancelled R\<rparr>)"
| sleep_cancelled: "run_phase R = Sleeping n \<Longrightarrow> run_cancelled R \<Longrightarrow>
    worker_step W attempt_can R (R\<lparr>run_phase := Flushing (WorkerProgress EvInterrupted)\<rparr>)"
| flush_sent: "run_phase R = Flushing ev \<Longrightarrow> run_open R \<Longrightarrow>
    length (run_queue R) < session_persistence_queue_capacity \<Longrightarrow>
    worker_step W attempt_can R (R\<lparr>run_queue := run_queue R @ [CmdFlush], run_phase := AwaitingFlush ev\<rparr>)"
| flush_refused: "run_phase R = Flushing ev \<Longrightarrow> \<not> run_open R \<Longrightarrow>
    worker_step W attempt_can R
      ((tell_failure (persistence_error_text (worker_show_error W) WorkerStopped) R)\<lparr>run_phase := Ended\<rparr>)"
| flushed: "run_phase R = AwaitingFlush ev \<Longrightarrow> run_ack R = Some (Ok ()) \<Longrightarrow>
    worker_step W attempt_can R ((tell ev R)\<lparr>run_phase := Ended\<rparr>)"
| flush_failed: "run_phase R = AwaitingFlush ev \<Longrightarrow> run_ack R = Some (Err err) \<Longrightarrow>
    worker_step W attempt_can R
      ((tell_failure (persistence_error_text (worker_show_error W) err) R)\<lparr>run_phase := Ended\<rparr>)"
| actor: "run_open R \<Longrightarrow> run_queue R = cmd # rest \<Longrightarrow>
    persist_command (worker_persistence W) cmd (run_actor R) (run_store R) (run_cursor R) = Some (r, s, c) \<Longrightarrow>
    worker_step W attempt_can R (actor_done (worker_show_error W) cmd rest r (R\<lparr>run_store := s, run_cursor := c\<rparr>))"
| cancel: "worker_step W attempt_can R (cancel_turn R)"
| asks_permission: "worker_step W attempt_can R (tell (WorkerProgress (EvPermissionRequested i opts)) R)"

inductive worker_reachable ::
    "'s worker_env \<Rightarrow> (nat \<Rightarrow> loop_progress list \<Rightarrow> attempt_outcome \<Rightarrow> bool) \<Rightarrow> 's \<times> cursor \<Rightarrow> 's worker_run \<Rightarrow> bool"
  for W attempt_can start where
  start: "worker_reachable W attempt_can start (new_run (fst start) (snd start))"
| step: "worker_reachable W attempt_can start R \<Longrightarrow> worker_step W attempt_can R R' \<Longrightarrow>
    worker_reachable W attempt_can start R'"

text \<open>
  The attempts of a turn of the tool loop (\<^verbatim>\<open>conversation-runtime/src/llm/client.rs\<close>): a loop that returned reported what its state
  says; one that was dropped after the grace period may have reported any part of it.
\<close>

definition provider_error_text :: "provider_error \<Rightarrow> ustring" where
  "provider_error_text e =
     (case e of
        TransportError m \<Rightarrow> lit ''transport error: '' @ m
      | ProtocolError m \<Rightarrow> lit ''protocol error: '' @ m
      | ProviderFailure status m \<Rightarrow>
          lit ''provider error''
          @ (case status of Some n \<Rightarrow> lit '' HTTP '' @ decimal n | None \<Rightarrow> []) @ lit '': '' @ m)"

definition attempt_error_text :: "ustring \<Rightarrow> loop_error \<Rightarrow> ustring" where
  "attempt_error_text provider err =
     (case err of
        LoopProvider e \<Rightarrow> provider_error_text e
      | LoopCancelled \<Rightarrow> lit ''conversation turn cancelled''
      | EmptyPrompt \<Rightarrow> lit ''provider '' @ provider @ lit '' received no prompt items''
      | ToolTurnLimit m \<Rightarrow> lit ''tool turn limit reached ('' @ decimal m @ lit '')'')"

inductive attempt_of_loop ::
    "('w, 'o) loop_env \<Rightarrow> 'o prompt_request \<Rightarrow> ustring \<Rightarrow> nat \<Rightarrow> loop_progress list \<Rightarrow> attempt_outcome \<Rightarrow> bool"
  for E q provider where
  completed: "run_tool_loop E q w = Some (Ok c, s, w') \<Longrightarrow>
    attempt_of_loop E q provider n (emitted s) (AttemptCompleted c)"
| cancelled: "run_tool_loop E q w = Some (Err LoopCancelled, s, w') \<Longrightarrow>
    attempt_of_loop E q provider n (emitted s) AttemptCancelled"
| failed: "run_tool_loop E q w = Some (Err err, s, w') \<Longrightarrow> err \<noteq> LoopCancelled \<Longrightarrow>
    attempt_of_loop E q provider n (emitted s) (AttemptFailed (attempt_error_text provider err))"
| refused: "attempt_of_loop E q provider n [] (AttemptFailed m)"
| cancelled_before: "attempt_of_loop E q provider n [] AttemptCancelled"
| abandoned: "run_tool_loop E q w = Some (r, s, w') \<Longrightarrow> emitted s = ps @ later \<Longrightarrow>
    attempt_of_loop E q provider n ps CancelledAfterGrace"

end
