(* ===== verification/Stored_Turns.thy ===== *)
theory Stored_Turns
  imports Session_Persistence
begin

text \<open>
  What the commands of the persistence actor leave in the store, for any store that keeps the laws of
  \<open>session_backend\<close>: the conversation a session shows grows by exactly the items that the consumer is
  told, under the ids it is told.
\<close>

section \<open>The conversation a log shows\<close>

definition displays :: "session_entry list \<Rightarrow> (ustring \<times> conversation_item) list \<Rightarrow> bool" where
  "displays es xs \<longleftrightarrow>
     (\<exists>st. query_state es None = Ok st \<and> map (\<lambda>r. (resolved_entry_id r, resolved_value r)) (items st) = xs)"

definition entry_items :: "session_entry list \<Rightarrow> (ustring \<times> conversation_item) list" where
  "entry_items es = filter_map (\<lambda>e. map_option (\<lambda>i. (entry_id e, i)) (item_of e)) es"

lemma entry_items_simps [simp]:
  "entry_items [] = []"
  "entry_items (e # es) = (case item_of e of None \<Rightarrow> [] | Some i \<Rightarrow> [(entry_id e, i)]) @ entry_items es"
  by (simp_all add: entry_items_def split: option.splits)

lemma assemble_items_snoc:
  "start \<le> length path \<Longrightarrow> items (assemble_state (path @ [e]) lead summary start) =
     items (assemble_state path lead summary start) @ (case resolved_item_of e of None \<Rightarrow> [] | Some i \<Rightarrow> [i])"
  by (simp add: assemble_state_def Let_def filter_map_append split: option.splits)

lemma resolve_items_snoc:
  assumes "compaction_of e = None" "resolve_state_from_path path = Ok st"
  shows "\<exists>st'. resolve_state_from_path (path @ [e]) = Ok st'
     \<and> items st' = items st @ (case resolved_item_of e of None \<Rightarrow> [] | Some i \<Rightarrow> [i])"
proof (cases "latest_compaction path")
  case None
  with assms show ?thesis
    by (auto simp: resolve_state_from_path_def latest_compaction_snoc assemble_items_snoc)
next
  case (Some c)
  obtain cid summary kept where c: "c = (cid, summary, kept)" by (cases c)
  with Some assms(2) obtain n where n: "item_entry_position path kept = Some n"
    by (auto simp: resolve_state_from_path_def result_iffs)
  then have "item_entry_position (path @ [e]) kept = Some n"
    by (simp add: item_entry_position_def position_snoc)
  with Some c n assms item_entry_position_bound[OF n] show ?thesis
    by (auto simp: resolve_state_from_path_def latest_compaction_snoc assemble_items_snoc)
qed

lemma displays_default:
  assumes "session_log es"
  shows "displays es xs \<longleftrightarrow> (\<exists>st. resolve_state_from_path (active_path es) = Ok st
     \<and> map (\<lambda>r. (resolved_entry_id r, resolved_value r)) (items st) = xs)"
  by (auto simp: displays_def query_default[OF assms] map_err_eq_Ok)

lemma displays_append:
  assumes "session_log (es @ [e])" "session_log es" "parent_id e = append_parent_id es" "appendable (kind e)" "displays es xs"
  shows "displays (es @ [e]) (xs @ entry_items [e])"
proof -
  from assms(4) have e: "compaction_of e = None" "\<not> is_leaf_kind (kind e)"
    by (simp_all add: appendable_kind appendable_not_leaf)
  from assms(5) obtain st where st: "resolve_state_from_path (active_path es) = Ok st"
    "map (\<lambda>r. (resolved_entry_id r, resolved_value r)) (items st) = xs"
    by (auto simp: displays_default[OF assms(2)])
  from resolve_items_snoc[OF e(1) st(1)] st(2) active_path_append[OF assms(1-3) e(2)] show ?thesis
    by (auto simp: displays_default[OF assms(1)] resolved_item_of_def split: option.splits)
qed

lemma displays_chain:
  assumes "session_log es" "chained es new" "\<forall>e\<in>set new. appendable (kind e)" "displays es xs"
  shows "displays (es @ new) (xs @ entry_items new)"
  using assms
proof (induction new arbitrary: es xs)
  case (Cons e new)
  from Cons.prems have leaf: "\<not> is_leaf_kind (kind e)" using appendable_not_leaf by auto
  have log: "session_log (es @ [e])"
    using chained_session_log[OF Cons.prems(1), of "[e]"] Cons.prems(2) leaf by simp
  from Cons.prems displays_append[OF log Cons.prems(1)] have "displays (es @ [e]) (xs @ entry_items [e])" by simp
  from Cons.IH[OF log _ _ this] Cons.prems show ?case by simp
qed simp

text \<open>An append of entries without items shows what was shown; one of items shows them behind it.\<close>

lemma grown_displays:
  assumes "session_log es" "displays es xs" "grown es kinds r es'" "\<forall>k\<in>set kinds. appendable k"
  shows "\<exists>new. displays es' (xs @ entry_items new) \<and> (\<exists>rest. kinds = map kind new @ rest)
     \<and> (\<forall>ids. r = Ok ids \<longrightarrow> map kind new = kinds \<and> map entry_id new = ids)"
proof -
  from assms(3) obtain new rest where new: "es' = es @ new" "chained es new" "kinds = map kind new @ rest"
    "\<forall>ids. r = Ok ids \<longrightarrow> map kind new = kinds \<and> map entry_id new = ids" by (auto simp: grown_def)
  with assms(4) have "\<forall>e\<in>set new. appendable (kind e)" by auto
  from displays_chain[OF assms(1) new(2) this assms(2)] new show ?thesis by auto
qed

lemma entry_items_kinds: "map kind new = map Item xs \<Longrightarrow> entry_items new = zip (map entry_id new) xs"
proof (induction new arbitrary: xs)
  case (Cons e new)
  then obtain x rest where "xs = x # rest" "kind e = Item x" "map kind new = map Item rest" by (cases xs) auto
  with Cons.IH[of rest] show ?case by (simp add: item_of_def)
qed simp

lemma entry_items_none: "\<forall>e\<in>set new. item_of e = None \<Longrightarrow> entry_items new = []"
  by (induction new) auto

section \<open>What the commands leave in the store\<close>

definition stored_in ::
    "('s \<Rightarrow> session_id \<Rightarrow> bool) \<Rightarrow> ('s \<Rightarrow> session_id \<Rightarrow> session_entry list) \<Rightarrow> 's \<Rightarrow> session_id
      \<Rightarrow> (ustring \<times> conversation_item) list \<Rightarrow> bool" where
  "stored_in holds log_of s sid xs \<longleftrightarrow> holds s sid \<and> displays (log_of s sid) xs"

fun delta_item :: "conversation_delta \<Rightarrow> conversation_item option" where
  "delta_item (DeltaContextItem _ x) = Some x"
| "delta_item _ = None"

fun command_item :: "persistence_command \<Rightarrow> conversation_item option" where
  "command_item (CmdContextItem x) = Some x"
| "command_item _ = None"

lemma persist_thenE:
  assumes "persist_then m f s c = Some (r, s', c')"
  obtains (failed) err where "m s c = Some (Err err, s', c')" "r = Err err"
    | (went_on) a s1 c1 where "m s c = Some (Ok a, s1, c1)" "f a s1 c1 = Some (r, s', c')"
  using assms by (auto simp: persist_then_def split: option.splits sum.splits)

lemma persisted_Some [simp]: "persisted x s c = Some (r, s', c') \<longleftrightarrow> r = Ok x \<and> s' = s \<and> c' = c"
  by (auto simp: persisted_def)

lemma store_callE:
  assumes "store_call mk m s c = Some (r, s', c')"
  obtains q where "m s c = Some (q, s', c')" "r = map_err mk q"
  using assms by (auto simp: store_call_def)

lemma store_call_Ok: "store_call mk m s c = Some (Ok a, s', c') \<longleftrightarrow> m s c = Some (Ok a, s', c')"
  by (auto simp: store_call_def map_err_eq_Ok)

lemma persist_then_assoc: "persist_then (persist_then m f) g = persist_then m (\<lambda>a. persist_then (f a) g)"
  by (auto simp: persist_then_def fun_eq_iff split: option.splits sum.splits)

lemma persist_then_unit: "persist_then (persisted a) f = f a"
  by (simp add: persist_then_def persisted_def)

context session_backend
begin

lemma grown_stored:
  assumes "stored_in holds log_of s sid xs" "holds s' sid" "grown (log_of s sid) kinds r (log_of s' sid)"
    "\<forall>k\<in>set kinds. appendable k"
  shows "\<exists>new. stored_in holds log_of s' sid (xs @ entry_items new) \<and> (\<exists>rest. kinds = map kind new @ rest)
     \<and> (\<forall>ids. r = Ok ids \<longrightarrow> map kind new = kinds \<and> map entry_id new = ids)"
  using assms grown_displays[OF holds_log _ assms(3,4)] by (fastforce simp: stored_in_def)

lemma silent_stored:
  assumes "stored_in holds log_of s sid xs" "holds s' sid" "grown (log_of s sid) kinds r (log_of s' sid)"
    "\<forall>k\<in>set kinds. appendable k \<and> (\<forall>x. k \<noteq> Item x)"
  shows "stored_in holds log_of s' sid xs"
proof -
  obtain new rest where new: "stored_in holds log_of s' sid (xs @ entry_items new)" "kinds = map kind new @ rest"
    using grown_stored[OF assms(1-3)] assms(4) by blast
  with assms(4) have "\<forall>e\<in>set new. item_of e = None" by (auto simp: item_of_def split: entry_kind.splits)
  with new(1) show ?thesis by (simp add: entry_items_none)
qed

lemma replay_items_stored:
  "append_transcript_replay_items V sid rps s c = Some (r, s', c') \<Longrightarrow> stored_in holds log_of s sid xs \<Longrightarrow>
     stored_in holds log_of s' sid xs"
proof (induction rps arbitrary: s c)
  case (Cons rp rps)
  from Cons.prems(1) obtain q s1 c1 where step: "vt_append_transcript_replay V sid rp s c = Some (q, s1, c1)"
    and rest: "s' = s1 \<or> append_transcript_replay_items V sid rps s1 c1 = Some (r, s', c')"
    by (auto simp: append_transcript_replay_item_def elim!: persist_thenE store_callE)
  from Cons.prems(2) have "holds s sid" by (simp add: stored_in_def)
  from replay_law[OF this step] silent_stored[OF Cons.prems(2)] have "stored_in holds log_of s1 sid xs"
    by (fastforce simp: appendable_def)
  with rest Cons.IH show ?case by auto
qed simp

lemma replay_item_stored:
  "append_transcript_replay_item V sid rp s c = Some (r, s', c') \<Longrightarrow> stored_in holds log_of s sid xs \<Longrightarrow>
     stored_in holds log_of s' sid xs"
  using replay_items_stored[of sid "[rp]" s c r s' c' xs]
  by (auto simp: persist_then_def persisted_def split: option.splits sum.splits)

lemma append_many_stored:
  assumes "vt_append_many V sid ys s c = Some (r, s', c')" "stored_in holds log_of s sid xs"
  shows "\<exists>zs. stored_in holds log_of s' sid (xs @ zs)"
    "r = Ok ids \<Longrightarrow> length ids = length ys \<and> stored_in holds log_of s' sid (xs @ zip ids ys)"
proof -
  from assms(2) have "holds s sid" by (simp add: stored_in_def)
  from append_many_law[OF this assms(1)] grown_stored[OF assms(2), of s' "map Item ys" r] obtain new where
    new: "stored_in holds log_of s' sid (xs @ entry_items new)"
    "\<forall>ids. r = Ok ids \<longrightarrow> map kind new = map Item ys \<and> map entry_id new = ids"
    by (auto simp: appendable_def)
  then show "\<exists>zs. stored_in holds log_of s' sid (xs @ zs)" by blast
  assume "r = Ok ids"
  with new(2) have ids: "map kind new = map Item ys" "map entry_id new = ids" by auto
  from arg_cong[OF ids(1), of length] arg_cong[OF ids(2), of length] have "length ids = length ys" by simp
  with new(1) entry_items_kinds[OF ids(1)] ids(2)
  show "length ids = length ys \<and> stored_in holds log_of s' sid (xs @ zip ids ys)" by simp
qed

lemma append_stored:
  assumes "vt_append V sid x s c = Some (r, s', c')" "stored_in holds log_of s sid xs"
  shows "\<exists>zs. stored_in holds log_of s' sid (xs @ zs)"
    "r = Ok i \<Longrightarrow> stored_in holds log_of s' sid (xs @ [(i, x)])"
proof -
  from assms(2) have "holds s sid" by (simp add: stored_in_def)
  from append_law[OF this assms(1)] grown_stored[OF assms(2), of s' "[Item x]" "one_id r"] obtain new where
    new: "stored_in holds log_of s' sid (xs @ entry_items new)"
    "\<forall>ids. one_id r = Ok ids \<longrightarrow> map kind new = [Item x] \<and> map entry_id new = ids"
    by (auto simp: appendable_def)
  then show "\<exists>zs. stored_in holds log_of s' sid (xs @ zs)" by blast
  assume "r = Ok i"
  with new(2) have ids: "map kind new = map Item [x]" "map entry_id new = [i]" by (auto simp: one_id_def)
  with new(1) entry_items_kinds[OF ids(1)] show "stored_in holds log_of s' sid (xs @ [(i, x)])" by simp
qed

lemma config_stored:
  assumes "vt_append_config_change V sid cfg s c = Some (r, s', c')" "stored_in holds log_of s sid xs"
  shows "stored_in holds log_of s' sid xs"
proof -
  from assms(2) have "holds s sid" by (simp add: stored_in_def)
  from config_law[OF this assms(1)] silent_stored[OF assms(2)] show ?thesis by (fastforce simp: appendable_def)
qed

lemma flush_stored:
  "vt_flush V sid s c = Some (r, s', c') \<Longrightarrow> stored_in holds log_of s sid xs \<Longrightarrow> stored_in holds log_of s' sid xs"
  using flush_law by (auto simp: stored_in_def)

lemma context_item_stored:
  assumes "persist_store p = V" "actor_session_id ps = Some sid" "stored_in holds log_of s sid xs"
    "persist_context_item (Some p) x ps s c = Some (r, s', c')"
  shows "case r of
      Inl _ \<Rightarrow> \<exists>zs. stored_in holds log_of s' sid (xs @ zs)
    | Inr (ps', ds) \<Rightarrow> ps' = ps \<and> (\<exists>i. ds = [DeltaContextItem (Some i) x] \<and> stored_in holds log_of s' sid (xs @ [(i, x)]))"
proof -
  from assms(1,2,4) have "persist_then (store_call PersistConversationItem (vt_append V sid x)) (\<lambda>i.
      persist_then (append_transcript_replay_items V sid (transcript_replay_items_from_context_item x ps)) (\<lambda>_.
      persisted (ps, [DeltaContextItem (Some i) x]))) s c = Some (r, s', c')"
    by (simp add: persist_context_item_def with_active_session_def active_session_id_def or_else_def ok_or_def)
  then show ?thesis
  proof (cases rule: persist_thenE)
    case (failed err)
    then show ?thesis using append_stored(1)[OF _ assms(3)] by (auto elim!: store_callE)
  next
    case (went_on i s1 c1)
    then have "stored_in holds log_of s1 sid (xs @ [(i, x)])"
      using append_stored(2)[OF _ assms(3)] by (simp add: store_call_Ok)
    with went_on(2) replay_items_stored show ?thesis by (auto elim!: persist_thenE) blast+
  qed
qed

lemma replay_stored:
  assumes "persist_store p = V" "actor_session_id ps = Some sid" "stored_in holds log_of s sid xs"
    "persist_replay (Some p) rp ps s c = Some (r, s', c')"
  shows "stored_in holds log_of s' sid xs \<and> (\<forall>q. r = Ok q \<longrightarrow> q = (ps, []))"
proof -
  from assms(1,2,4) have "persist_then (append_transcript_replay_item V sid rp) (\<lambda>_. persisted (ps, [])) s c = Some (r, s', c')"
    by (simp add: persist_replay_def with_active_session_def active_session_id_def or_else_def ok_or_def)
  then show ?thesis using replay_item_stored[OF _ assms(3)] by (auto elim!: persist_thenE)
qed

text \<open>A command after the turn start.\<close>

lemma command_stored:
  assumes "persist_store p = V" "actor_session_id ps = Some sid" "cmd \<noteq> CmdTurnStarted"
    "stored_in holds log_of s sid xs" "persist_command (Some p) cmd ps s c = Some (r, s', c')"
  shows "case r of
      Inl _ \<Rightarrow> \<exists>zs. stored_in holds log_of s' sid (xs @ zs)
    | Inr (ps', ds) \<Rightarrow> has_persisted_turn_start ps' = has_persisted_turn_start ps \<and> actor_session_id ps' = Some sid
        \<and> (\<exists>cs. ds = map (\<lambda>(i, x). DeltaContextItem (Some i) x) cs
             \<and> map snd cs = (case command_item cmd of None \<Rightarrow> [] | Some x \<Rightarrow> [x])
             \<and> stored_in holds log_of s' sid (xs @ cs))"
proof -
  have silent: ?thesis
    if "stored_in holds log_of s' sid xs" "\<And>q. r = Ok q \<Longrightarrow> q = (ps', [])"
      "has_persisted_turn_start ps' = has_persisted_turn_start ps" "actor_session_id ps' = Some sid"
      "command_item cmd = None" for ps'
    using that by (auto split: sum.splits intro: exI[of _ "[]"])
  show ?thesis
  proof (cases cmd)
    case (CmdContextItem x)
    with assms(5) context_item_stored[OF assms(1,2,4), of x c r s' c'] assms(2) show ?thesis
      by (auto split: sum.splits intro: exI[of _ "[(i, x)]" for i])
  next
    case (CmdActivityStarted a)
    let ?ps = "ps\<lparr>tool_activities := AList.update (activity_id a) a (tool_activities ps)\<rparr>"
    from CmdActivityStarted assms(5) have "persist_replay (Some p) (ReplayToolActivity a) ?ps s c = Some (r, s', c')"
      by (simp add: persist_tool_activity_started_def)
    from replay_stored[OF assms(1) _ assms(4) this] assms(2) CmdActivityStarted show ?thesis
      by (intro silent[of ?ps]) auto
  next
    case (CmdActivityUpdated u)
    then obtain rp ps' where "persist_replay (Some p) rp ps' s c = Some (r, s', c')"
      "has_persisted_turn_start ps' = has_persisted_turn_start ps" "actor_session_id ps' = Some sid"
      using assms(2,5) by (auto simp: persist_tool_activity_update_def Let_def)
    from replay_stored[OF assms(1) this(3) assms(4) this(1)] this(2-) CmdActivityUpdated show ?thesis
      by (intro silent[of ps']) auto
  next
    case (CmdTerminalSnapshot snap)
    with assms(5) replay_stored[OF assms(1,2,4)] assms(2) show ?thesis
      by (intro silent[of ps]) (auto simp: persist_terminal_snapshot_def)
  next
    case CmdFlush
    with assms(1,2,5) have "persist_then (store_call FlushFailed (vt_flush V sid)) (\<lambda>_. persisted (ps, [])) s c = Some (r, s', c')"
      by (simp add: flush_persistence_def or_else_def)
    then have "stored_in holds log_of s' sid xs \<and> (\<forall>q. r = Ok q \<longrightarrow> q = (ps, []))"
      using flush_stored[OF _ assms(4)] by (auto elim!: persist_thenE store_callE)
    with CmdFlush assms(2) show ?thesis by (intro silent[of ps]) auto
  qed (use assms(3) in simp)
qed

text \<open>The turn start in a session that holds a conversation already.\<close>

definition turn_started_in ::
    "'s prepared_persistence \<Rightarrow> persistence_state \<Rightarrow> session_id \<Rightarrow> (ustring \<times> conversation_item) list
      \<Rightarrow> (persistence_error + persistence_state \<times> conversation_delta list) \<Rightarrow> 's \<Rightarrow> bool" where
  "turn_started_in p ps sid xs r s' \<longleftrightarrow>
     (case r of
        Inl _ \<Rightarrow> \<exists>zs. stored_in holds log_of s' sid (xs @ zs)
      | Inr (ps', ds) \<Rightarrow> \<exists>ids. length ids = length (persist_user_items p)
          \<and> ps' = ps\<lparr>has_persisted_turn_start := True, actor_session_id := Some sid, actor_user_entry_id := last_opt ids\<rparr>
          \<and> ds = [DeltaTurnStarted (Some sid) (last_opt ids)]
          \<and> stored_in holds log_of s' sid (xs @ zip ids (persist_user_items p)))"

definition begin_turn_in :: "'s prepared_persistence \<Rightarrow> session_id \<Rightarrow> ('s, ustring list) persisting" where
  "begin_turn_in p sid =
     persist_then (store_call PersistConfigChange (vt_append_config_change V sid (persist_config p))) (\<lambda>_.
     persist_then (store_call PersistUserMessage (vt_append_many V sid (persist_user_items p))) (\<lambda>ids.
     persist_then (append_transcript_replay_items V sid
         (transcript_replay_items_from_transcript_user_message (persist_user_message p))) (\<lambda>_.
     persist_then (append_transcript_replay_items V sid (persist_replay_after_user p)) (\<lambda>_. persisted ids))))"

lemma begin_turn_stored:
  assumes "begin_turn_in p sid s c = Some (r, s', c')" "stored_in holds log_of s sid xs"
  shows "case r of
      Inl _ \<Rightarrow> \<exists>zs. stored_in holds log_of s' sid (xs @ zs)
    | Inr ids \<Rightarrow> length ids = length (persist_user_items p)
        \<and> stored_in holds log_of s' sid (xs @ zip ids (persist_user_items p))"
  using assms(1) unfolding begin_turn_in_def
proof (cases rule: persist_thenE)
  case (failed err)
  with config_stored[OF _ assms(2)] show ?thesis by (auto elim!: store_callE intro: exI[of _ "[]"])
next
  case (went_on _ s1 c1)
  then have s1: "stored_in holds log_of s1 sid xs"
    using config_stored[OF _ assms(2)] by (auto elim!: store_callE)
  from went_on(2) show ?thesis
  proof (cases rule: persist_thenE)
    case (failed err)
    with append_many_stored(1)[OF _ s1] show ?thesis by (auto elim!: store_callE)
  next
    case (went_on ids s2 c2)
    then have "length ids = length (persist_user_items p)"
      "stored_in holds log_of s2 sid (xs @ zip ids (persist_user_items p))"
      using append_many_stored(2)[OF _ s1] by (simp_all add: store_call_Ok)
    with went_on(2) replay_items_stored show ?thesis by (auto elim!: persist_thenE) blast+
  qed
qed

lemma turn_start_begins:
  assumes "persist_store p = V" "\<not> has_persisted_turn_start ps"
  shows "persist_turn_start (Some p) ps =
     persist_then (ensure_persistence_session p) (\<lambda>sid.
     persist_then (begin_turn_in p sid) (\<lambda>ids.
       persisted (ps\<lparr>has_persisted_turn_start := True, actor_session_id := Some sid, actor_user_entry_id := last_opt ids\<rparr>,
         [DeltaTurnStarted (Some sid) (last_opt ids)])))"
  using assms by (simp add: persist_turn_start_def begin_turn_in_def persist_then_assoc persist_then_unit)

lemma turn_start_stored:
  assumes "persist_store p = V" "\<not> has_persisted_turn_start ps" "persist_session_id p = Some sid"
    "stored_in holds log_of s sid xs" "persist_turn_start (Some p) ps s c = Some (r, s', c')"
  shows "turn_started_in p ps sid xs r s'"
proof -
  from assms(3,5) have "persist_then (begin_turn_in p sid) (\<lambda>ids.
       persisted (ps\<lparr>has_persisted_turn_start := True, actor_session_id := Some sid, actor_user_entry_id := last_opt ids\<rparr>,
         [DeltaTurnStarted (Some sid) (last_opt ids)])) s c = Some (r, s', c')"
    by (simp add: turn_start_begins[OF assms(1,2)] ensure_persistence_session_def persist_then_unit)
  then show ?thesis
    using begin_turn_stored[OF _ assms(4)] by (fastforce simp: turn_started_in_def elim!: persist_thenE)
qed

end

context creating_backend
begin

text \<open>The turn start that creates its session; when it fails before, there is none.\<close>

lemma created_stored:
  "ready s \<Longrightarrow> vt_create_session V h s c = Some (Ok sid, s', c') \<Longrightarrow> stored_in holds log_of s' sid []"
  using create_law[of s h c sid s' c']
  by (fastforce simp: stored_in_def displays_def query_items_eq and_then_eq_Ok)

lemma turn_start_creates:
  assumes "persist_store p = V" "\<not> has_persisted_turn_start ps" "persist_session_id p = None"
    "ready s" "persist_turn_start (Some p) ps s c = Some (Ok (ps', ds), s', c')"
  shows "\<exists>sid. turn_started_in p ps sid [] (Ok (ps', ds)) s'"
proof -
  let ?finish = "\<lambda>sid ids. persisted
       (ps\<lparr>has_persisted_turn_start := True, actor_session_id := Some sid, actor_user_entry_id := last_opt ids\<rparr>,
         [DeltaTurnStarted (Some sid) (last_opt ids)])"
  let ?create = "vt_create_session V ((persist_header p)\<lparr>initial_model := config_model (persist_config p)\<rparr>)"
  have "persist_then (store_call CreateSession ?create) (\<lambda>sid. persist_then (begin_turn_in p sid) (?finish sid)) s c
      = Some (Ok (ps', ds), s', c')"
    using assms(3,5) turn_start_begins[OF assms(1,2)] by (simp add: ensure_persistence_session_def assms(1))
  then obtain sid s1 c1 where create: "?create s c = Some (Ok sid, s1, c1)"
    and rest: "persist_then (begin_turn_in p sid) (?finish sid) s1 c1 = Some (Ok (ps', ds), s', c')"
    by (rule persist_thenE) (auto simp: store_call_Ok)
  from rest begin_turn_stored[OF _ created_stored[OF assms(4) create]] have "turn_started_in p ps sid [] (Ok (ps', ds)) s'"
    by (fastforce simp: turn_started_in_def elim!: persist_thenE)
  then show ?thesis by blast
qed

end

end
