(* ===== verification/Worker_Runs.thy ===== *)
theory Worker_Runs
  imports Conversation_Worker Stored_Turns
begin

text \<open>
  Invariants of the runs of a worker: what is queued and what is told, what the actor has stored, and
  how a run ends.
\<close>

section \<open>Handing items to the actor\<close>

fun session_delta :: "worker_event \<Rightarrow> conversation_delta option" where
  "session_delta (WorkerSession d) = Some d"
| "session_delta _ = None"

lemma session_delta_map [simp]: "filter_map session_delta (map WorkerSession ds) = ds"
  by (induction ds) simp_all

lemma no_session_delta: "set evs \<subseteq> range WorkerProgress \<Longrightarrow> filter_map session_delta evs = []"
  by (induction evs) auto

definition told_deltas :: "'s worker_run \<Rightarrow> conversation_delta list" where
  "told_deltas R = filter_map session_delta (run_outbox R)"

definition told_items :: "'s worker_run \<Rightarrow> conversation_item list" where
  "told_items R = filter_map delta_item (told_deltas R)"

definition queued_items :: "'s worker_run \<Rightarrow> conversation_item list" where
  "queued_items R = filter_map command_item (run_queue R)"

definition seen_items :: "'s worker_run \<Rightarrow> conversation_item list" where
  "seen_items R = filter_map context_of (run_seen R)"

definition overflowed :: "'s worker_run \<Rightarrow> bool" where
  "overflowed R \<longleftrightarrow> WorkerProgress (EvFailed queue_full_text) \<in> set (run_outbox R)"

text \<open>From one state to the next the items \<open>xs\<close> were handed over, and nothing else happened.\<close>

definition hands_over :: "'s worker_run \<Rightarrow> conversation_item list \<Rightarrow> 's worker_run \<Rightarrow> bool" where
  "hands_over R xs R' \<longleftrightarrow>
     run_phase R' = run_phase R \<and> run_seen R' = run_seen R \<and> run_open R' = run_open R \<and>
     run_actor R' = run_actor R \<and> run_ack R' = run_ack R \<and> run_store R' = run_store R \<and>
     run_cursor R' = run_cursor R \<and>
     (\<exists>evs. run_outbox R' = run_outbox R @ evs \<and> set evs \<subseteq> range WorkerProgress) \<and>
     (\<exists>cmds. run_queue R' = run_queue R @ cmds \<and> CmdTurnStarted \<notin> set cmds \<and> CmdFlush \<notin> set cmds \<and>
        (\<not> run_open R \<longrightarrow> cmds = []) \<and>
        (run_open R \<longrightarrow> \<not> overflowed R' \<longrightarrow> filter_map command_item cmds = xs))"

lemma hands_over_refl: "hands_over R [] R"
  by (auto simp: hands_over_def)

lemma hands_over_trans: "hands_over R xs R1 \<Longrightarrow> hands_over R1 ys R2 \<Longrightarrow> hands_over R (xs @ ys) R2"
  unfolding hands_over_def overflowed_def
  by (elim conjE exE) (simp add: filter_map_append)

lemma hands_over_tell:
  "ev \<in> range WorkerProgress \<Longrightarrow> hands_over R xs R' \<Longrightarrow> hands_over R xs (tell ev R')"
  unfolding hands_over_def overflowed_def tell_def
  by (elim conjE exE) (simp add: filter_map_append)

lemma hands_over_try_send:
  assumes "cmd \<noteq> CmdTurnStarted" "cmd \<noteq> CmdFlush" "cancel \<in> {cancel_attempt, cancel_turn}"
    "try_send_session_persistence cancel cmd R = (b, R')"
  shows "hands_over R (case command_item cmd of None \<Rightarrow> [] | Some x \<Rightarrow> [x]) R'"
    "\<not> b \<Longrightarrow> run_open R \<Longrightarrow> overflowed R'"
  using assms
  by (auto simp: try_send_session_persistence_def hands_over_def tell_failure_def tell_def overflowed_def
      cancel_attempt_def cancel_turn_def split: if_splits option.splits)

lemma hands_over_progress: "hands_over R xs R' \<Longrightarrow> hands_over R xs (tell_progress p R')"
  by (cases p) (auto simp: tell_progress_def intro: hands_over_tell)

lemma hands_over_start:
  "hands_over (R\<lparr>run_items_started := b, run_ledger := L\<rparr>) xs R' \<Longrightarrow> hands_over R xs R'"
  "hands_over (R\<lparr>run_ledger := L\<rparr>) xs R' \<Longrightarrow> hands_over R xs R'"
  by (simp_all add: hands_over_def overflowed_def)

lemma hands_over_on_progress:
  "hands_over R (case context_of p of None \<Rightarrow> [] | Some x \<Rightarrow> [x]) (on_progress p R)"
proof -
  have send: "hands_over Q (case command_item cmd of None \<Rightarrow> [] | Some x \<Rightarrow> [x]) (snd (try_send_session_persistence cancel_attempt cmd Q))"
    if "cmd \<noteq> CmdTurnStarted" "cmd \<noteq> CmdFlush" for cmd and Q :: "'a worker_run"
    using hands_over_try_send(1)[OF that, of cancel_attempt Q] by (metis insertI1 prod.collapse)
  show ?thesis
  proof (cases p)
    case (ProviderContextItem x)
    with send[of "CmdContextItem x"] show ?thesis
      by (auto simp: on_progress_def intro: hands_over_start(1))
  next
    case (ToolActivityStarted a)
    with send[of "CmdActivityStarted a" R] show ?thesis by (simp add: on_progress_def hands_over_progress)
  next
    case (ToolActivityUpdated u)
    with send[of "CmdActivityUpdated u" R] show ?thesis by (simp add: on_progress_def hands_over_progress)
  next
    case (ProgressTerminal snap)
    with send[of "CmdTerminalSnapshot snap" R] show ?thesis by (simp add: on_progress_def hands_over_progress)
  qed (simp_all add: on_progress_def hands_over_progress hands_over_refl)
qed

lemma hands_over_each: "hands_over R xs (send_each xs R) \<or> (\<exists>ys. hands_over R ys (send_each xs R) \<and> (run_open R \<longrightarrow> overflowed (send_each xs R)))"
proof (induction xs arbitrary: R)
  case (Cons x xs)
  obtain b R1 where t: "try_send_session_persistence cancel_turn (CmdContextItem x) R = (b, R1)" by (rule prod.exhaust)
  from hands_over_try_send[OF _ _ _ t] have h: "hands_over R [x] R1" "\<not> b \<Longrightarrow> run_open R \<Longrightarrow> overflowed R1" by auto
  show ?case
  proof (cases b)
    case True
    from h(1) have "run_open R1 = run_open R" by (simp add: hands_over_def)
    with Cons[of R1] hands_over_trans[OF h(1)] True t show ?thesis by fastforce
  next
    case False
    with t h show ?thesis by (intro disjI2 exI[of _ "[x]"]) simp
  qed
qed (simp add: hands_over_refl)

text \<open>What was dropped shows as an overflow, so that the promise about the items holds trivially.\<close>

lemma hands_over_overflow: "hands_over R ys R' \<Longrightarrow> (run_open R \<longrightarrow> overflowed R') \<Longrightarrow> hands_over R xs R'"
  by (auto simp: hands_over_def)

lemma hands_over_repairs:
  "hands_over R (fst (take_repair_items tool_execution_interrupted (run_ledger R))) (send_repair_items R)"
proof -
  obtain repairs L where t: "take_repair_items tool_execution_interrupted (run_ledger R) = (repairs, L)" by (rule prod.exhaust)
  from hands_over_each[of "R\<lparr>run_ledger := L\<rparr>" repairs] hands_over_overflow
  have "hands_over (R\<lparr>run_ledger := L\<rparr>) repairs (send_each repairs (R\<lparr>run_ledger := L\<rparr>))" by blast
  with t hands_over_start(2) show ?thesis by (simp add: send_repair_items_def)
qed

section \<open>The order of commands\<close>

lemma persist_replay_Ok:
  "persist_replay pers rp ps s c = Some (Ok (ps', ds), s', c') \<Longrightarrow> ps' = ps \<and> ds = []"
  by (auto simp: persist_replay_def with_active_session_def split: option.splits sum.splits elim!: persist_thenE)

lemma persist_turn_start_Ok:
  "persist_turn_start pers ps s c = Some (Ok (ps', ds), s', c') \<Longrightarrow>
     has_persisted_turn_start ps' \<and> filter_map delta_item ds = []"
  by (auto simp: persist_turn_start_def split: if_splits elim!: persist_thenE)

lemma persist_context_item_Ok:
  "persist_context_item pers x ps s c = Some (Ok (ps', ds), s', c') \<Longrightarrow> ps' = ps \<and> filter_map delta_item ds = [x]"
  by (auto simp: persist_context_item_def with_active_session_def split: option.splits sum.splits elim!: persist_thenE)

lemma persist_command_Ok:
  assumes "persist_command pers cmd ps s c = Some (Ok (ps', ds), s', c')"
  shows "has_persisted_turn_start ps' \<longleftrightarrow> has_persisted_turn_start ps \<or> cmd = CmdTurnStarted"
    "filter_map delta_item ds = (case command_item cmd of None \<Rightarrow> [] | Some x \<Rightarrow> [x])"
  using assms
  by (cases cmd; auto dest!: persist_turn_start_Ok persist_context_item_Ok persist_replay_Ok
      simp: persist_tool_activity_started_def persist_tool_activity_update_def persist_terminal_snapshot_def Let_def
      elim!: persist_thenE)+

fun waits_for_flush :: "worker_phase \<Rightarrow> bool" where
  "waits_for_flush (AwaitingFlush _) = True"
| "waits_for_flush _ = False"

fun ends_in_flush :: "persistence_command list \<Rightarrow> bool" where
  "ends_in_flush [] = False"
| "ends_in_flush (cmd # q) = (if cmd = CmdFlush then q = [] else ends_in_flush q)"

lemma ends_in_flush_snoc: "CmdFlush \<notin> set q \<Longrightarrow> ends_in_flush (q @ [CmdFlush])"
  by (induction q) auto

lemma ends_in_flush_in: "ends_in_flush q \<Longrightarrow> CmdFlush \<in> set q"
  by (induction q) (auto split: if_splits)

text \<open>
  The turn start is the first command; a flush is the last one; a closed queue is empty.
\<close>

definition queue_inv :: "'s worker_run \<Rightarrow> bool" where
  "queue_inv R \<longleftrightarrow>
     (run_open R \<longrightarrow>
        (if has_persisted_turn_start (run_actor R) then CmdTurnStarted \<notin> set (run_queue R)
         else (\<exists>rest. run_queue R = CmdTurnStarted # rest \<and> CmdTurnStarted \<notin> set rest)
              \<or> run_queue R = [] \<and> run_phase R \<in> {Beginning, Ended})) \<and>
     (run_phase R = Beginning \<longrightarrow>
        run_open R \<and> run_queue R = [] \<and> \<not> has_persisted_turn_start (run_actor R)) \<and>
     (\<not> run_open R \<longrightarrow> run_queue R = []) \<and>
     (if waits_for_flush (run_phase R)
      then run_ack R = None \<and> run_open R \<and> ends_in_flush (run_queue R)
         \<or> run_ack R = Some (Ok ()) \<and> run_open R \<and> run_queue R = []
         \<or> (\<exists>err. run_ack R = Some (Err err) \<and> \<not> run_open R)
      else run_phase R \<noteq> Ended \<longrightarrow> run_ack R = None \<and> CmdFlush \<notin> set (run_queue R))"

lemma queue_inv_hands_over:
  assumes "hands_over R xs R'" "queue_inv R" "run_phase R \<notin> {Beginning, Ended}" "\<not> waits_for_flush (run_phase R)"
  shows "queue_inv R'"
  using assms unfolding hands_over_def queue_inv_def by (elim conjE exE) (simp split: if_splits, auto)

lemma queue_inv_phase:
  assumes "queue_inv R" "run_phase R \<notin> {Beginning, Ended}" "\<not> waits_for_flush (run_phase R)"
    "ph \<noteq> Beginning" "\<not> waits_for_flush ph"
  shows "queue_inv (R\<lparr>run_phase := ph\<rparr>)"
  using assms unfolding queue_inv_def by auto

lemma queue_inv_cong:
  assumes "queue_inv R" "run_phase R' = run_phase R" "run_open R' = run_open R" "run_queue R' = run_queue R"
    "run_actor R' = run_actor R" "run_ack R' = run_ack R"
  shows "queue_inv R'"
  using assms(1) unfolding queue_inv_def assms(2-) .

lemma queue_inv_conclude:
  assumes "queue_inv R" "run_phase R = Attempting n"
  shows "queue_inv (conclude_attempt attempts n outcome R)"
proof -
  from queue_inv_hands_over[OF hands_over_repairs assms(1)] hands_over_repairs[of R] assms(2)
  have repaired: "queue_inv ((send_repair_items R)\<lparr>run_phase := Flushing ev\<rparr>)" for ev
    by (intro queue_inv_phase) (auto simp: hands_over_def)
  have told: "queue_inv (tell ev R)" for ev
    using assms(1) by (rule queue_inv_cong) (simp_all add: tell_def)
  have phase: "run_phase (tell ev R) = Attempting n" for ev using assms(2) by (simp add: tell_def)
  show ?thesis
    using assms repaired queue_inv_phase[OF told, of _ "Sleeping n"] phase
    by (auto simp: conclude_attempt_def split: attempt_outcome.splits intro: queue_inv_phase)
qed

lemma queue_inv_actor:
  assumes "queue_inv R" "run_open R" "run_queue R = cmd # rest"
    "persist_command pers cmd (run_actor R) (run_store R) (run_cursor R) = Some (r, s, c)"
  shows "queue_inv (actor_done sh cmd rest r (R\<lparr>run_store := s, run_cursor := c\<rparr>))"
proof (cases r)
  case (Inl err)
  have "CmdFlush \<in> set (run_queue R)" if "waits_for_flush (run_phase R)"
  proof -
    from assms(3) have "run_queue R \<noteq> []" by simp
    with assms(1,2) that show ?thesis unfolding queue_inv_def by (auto dest: ends_in_flush_in)
  qed
  with assms Inl show ?thesis
    by (auto simp: queue_inv_def actor_done_def tell_failure_def tell_def cancel_turn_def)
next
  case (Inr q)
  then obtain ps ds where q: "r = Ok (ps, ds)" by (cases q) auto
  from persist_command_Ok(1)[OF assms(4)[unfolded q]] assms(1-3) show ?thesis
    by (auto simp: q queue_inv_def actor_done_def split: if_splits)
qed

lemma queue_inv_step:
  assumes "worker_step W attempt_can R R'" "queue_inv R"
  shows "queue_inv R'"
  using assms(1)
proof (cases rule: worker_step.cases)
  case (progress n p)
  let ?R = "R\<lparr>run_seen := run_seen R @ [p]\<rparr>"
  have "queue_inv ?R" using assms(2) by (rule queue_inv_cong) simp_all
  from queue_inv_hands_over[OF hands_over_on_progress this] progress show ?thesis by simp
next
  case (attempt_ends n outcome)
  with queue_inv_conclude[OF assms(2)] show ?thesis by simp
next
  case (actor cmd rest r s c)
  with queue_inv_actor[OF assms(2)] show ?thesis by simp
next
  case (wakes n)
  have "queue_inv (R\<lparr>run_phase := Attempting (Suc n)\<rparr>)"
    using wakes assms(2) by (intro queue_inv_phase) simp_all
  then show ?thesis unfolding wakes by (rule queue_inv_cong) simp_all
next
  case (flush_sent ev)
  with assms(2) show ?thesis by (auto simp: queue_inv_def ends_in_flush_snoc split: if_splits)
qed (use assms(2) in \<open>auto simp: queue_inv_def tell_failure_def tell_def cancel_turn_def\<close>)

section \<open>What is handed over\<close>

definition handed_items :: "'s worker_run \<Rightarrow> conversation_item list" where
  "handed_items R = told_items R @ queued_items R"

text \<open>As long as the actor lives and the queue has not overflowed.\<close>

definition sound :: "'s worker_run \<Rightarrow> bool" where
  "sound R \<longleftrightarrow> run_open R \<and> \<not> overflowed R"

definition repairs_of :: "conversation_item list \<Rightarrow> conversation_item list" where
  "repairs_of xs = fst (take_repair_items tool_execution_interrupted (ledger_of xs))"

definition settles ::
    "(nat \<Rightarrow> loop_progress list \<Rightarrow> attempt_outcome \<Rightarrow> bool) \<Rightarrow> 's worker_run \<Rightarrow> worker_event \<Rightarrow> bool" where
  "settles attempt_can R ev \<longleftrightarrow>
     (\<exists>n c. ev = WorkerFinished (response c) (metrics c) (upstream_tokens c)
        \<and> attempt_can n (run_seen R) (AttemptCompleted c) \<and> (sound R \<longrightarrow> handed_items R = seen_items R))
     \<or> (\<exists>e. ev = WorkerProgress e) \<and> (sound R \<longrightarrow> handed_items R = seen_items R @ repairs_of (seen_items R))"

definition flow_inv :: "(nat \<Rightarrow> loop_progress list \<Rightarrow> attempt_outcome \<Rightarrow> bool) \<Rightarrow> 's worker_run \<Rightarrow> bool" where
  "flow_inv attempt_can R \<longleftrightarrow>
     (case run_phase R of
        Flushing ev \<Rightarrow> settles attempt_can R ev
      | AwaitingFlush ev \<Rightarrow> settles attempt_can R ev
      | Ended \<Rightarrow> True
      | Sleeping _ \<Rightarrow> run_ledger R = [] \<and> \<not> run_items_started R \<and> seen_items R = []
          \<and> (sound R \<longrightarrow> handed_items R = [])
      | _ \<Rightarrow> run_ledger R = ledger_of (seen_items R) \<and> (run_items_started R \<longleftrightarrow> seen_items R \<noteq> [])
          \<and> (sound R \<longrightarrow> handed_items R = seen_items R))"

lemma sound_before:
  "sound R' \<Longrightarrow> run_open R' = run_open R \<Longrightarrow> set (run_outbox R) \<subseteq> set (run_outbox R') \<Longrightarrow> sound R"
  by (auto simp: sound_def overflowed_def)

lemma handed_over:
  assumes "hands_over R xs R'" "sound R'"
  shows "sound R \<and> handed_items R' = handed_items R @ xs"
  using assms unfolding hands_over_def handed_items_def told_items_def told_deltas_def queued_items_def sound_def overflowed_def
  by (elim conjE exE) (simp add: filter_map_append no_session_delta)

lemma handed_over_seen: "hands_over R xs R' \<Longrightarrow> run_seen R' = run_seen R"
  by (simp add: hands_over_def)

lemma handed_simps [simp]:
  "handed_items (R\<lparr>run_phase := ph\<rparr>) = handed_items R"
  "seen_items (R\<lparr>run_phase := ph\<rparr>) = seen_items R"
  "sound (R\<lparr>run_phase := ph\<rparr>) = sound R"
  "seen_items (tell ev R) = seen_items R" "seen_items (R\<lparr>run_outbox := out\<rparr>) = seen_items R"
  by (simp_all add: handed_items_def told_items_def told_deltas_def queued_items_def seen_items_def sound_def
      overflowed_def tell_def)

lemma handed_tell: "session_delta ev = None \<Longrightarrow> handed_items (tell ev R) = handed_items R"
  by (simp add: handed_items_def told_items_def told_deltas_def queued_items_def tell_def filter_map_append)

lemma sound_tell: "sound (tell ev R) \<Longrightarrow> sound R"
  by (auto simp: sound_def overflowed_def tell_def)

lemma ledger_of_Nil [simp]: "ledger_of [] = []" "repairs_of [] = []"
  by (simp_all add: ledger_of_def repairs_of_def take_repair_items_def)

lemma on_progress_ledger:
  "run_ledger (on_progress p R) = (case context_of p of None \<Rightarrow> run_ledger R | Some x \<Rightarrow> ledger_observe x (run_ledger R))"
  "run_items_started (on_progress p R) \<longleftrightarrow> run_items_started R \<or> context_of p \<noteq> None"
proof -
  have send: "run_ledger (snd (try_send_session_persistence cancel_attempt cmd Q)) = run_ledger Q"
    "run_items_started (snd (try_send_session_persistence cancel_attempt cmd Q)) = run_items_started Q" for cmd and Q :: "'a worker_run"
    by (simp_all add: try_send_session_persistence_def tell_failure_def tell_def cancel_attempt_def)
  have told: "run_ledger (tell_progress q Q) = run_ledger Q" "run_items_started (tell_progress q Q) = run_items_started Q"
    for q and Q :: "'a worker_run"
    by (simp_all add: tell_progress_def tell_def split: option.splits)
  show "run_ledger (on_progress p R) = (case context_of p of None \<Rightarrow> run_ledger R | Some x \<Rightarrow> ledger_observe x (run_ledger R))"
    by (cases p) (simp_all add: on_progress_def send told)
  show "run_items_started (on_progress p R) \<longleftrightarrow> run_items_started R \<or> context_of p \<noteq> None"
    by (cases p) (simp_all add: on_progress_def send told)
qed

lemma flow_inv_progress:
  assumes "run_phase R = Attempting n" "flow_inv attempt_can R"
  shows "flow_inv attempt_can (on_progress p (R\<lparr>run_seen := run_seen R @ [p]\<rparr>))"
proof -
  let ?R = "R\<lparr>run_seen := run_seen R @ [p]\<rparr>"
  let ?new = "case context_of p of None \<Rightarrow> [] | Some x \<Rightarrow> [x]"
  have seen: "seen_items ?R = seen_items R @ ?new" by (cases "context_of p") (simp_all add: seen_items_def filter_map_append)
  have same: "handed_items ?R = handed_items R" "sound ?R = sound R"
    by (simp_all add: handed_items_def told_items_def told_deltas_def queued_items_def sound_def overflowed_def)
  have h: "hands_over ?R ?new (on_progress p ?R)" by (rule hands_over_on_progress)
  from assms have R: "run_ledger R = ledger_of (seen_items R)" "run_items_started R \<longleftrightarrow> seen_items R \<noteq> []"
    "sound R \<Longrightarrow> handed_items R = seen_items R" by (simp_all add: flow_inv_def)
  from h assms(1) have phase: "run_phase (on_progress p ?R) = Attempting n" by (simp add: hands_over_def)
  have "seen_items (on_progress p ?R) = seen_items ?R" by (simp add: seen_items_def handed_over_seen[OF h])
  with seen have seen': "seen_items (on_progress p ?R) = seen_items R @ ?new" by simp
  have "run_ledger (on_progress p ?R) = ledger_of (seen_items R @ ?new)"
    "run_items_started (on_progress p ?R) \<longleftrightarrow> seen_items R @ ?new \<noteq> []"
    using R by (auto simp: on_progress_ledger split: option.splits)
  moreover have "handed_items (on_progress p ?R) = seen_items R @ ?new" if "sound (on_progress p ?R)"
    using handed_over[OF h that] R(3) same by simp
  ultimately show ?thesis by (simp add: flow_inv_def phase seen')
qed

lemma flow_inv_conclude:
  assumes "run_phase R = Attempting n" "flow_inv attempt_can R" "attempt_can n (run_seen R) outcome"
  shows "flow_inv attempt_can (conclude_attempt attempts n outcome R)"
proof -
  from assms have R: "run_ledger R = ledger_of (seen_items R)" "run_items_started R \<longleftrightarrow> seen_items R \<noteq> []"
    "sound R \<Longrightarrow> handed_items R = seen_items R" by (simp_all add: flow_inv_def)
  have h: "hands_over R (repairs_of (seen_items R)) (send_repair_items R)"
    using hands_over_repairs[of R] by (simp add: R(1) repairs_of_def)
  then have seen: "seen_items (send_repair_items R) = seen_items R" by (simp add: seen_items_def hands_over_def)
  have repaired: "flow_inv attempt_can ((send_repair_items R)\<lparr>run_phase := Flushing (WorkerProgress e)\<rparr>)" for e
    using handed_over[OF h] R(3) by (simp add: flow_inv_def settles_def seen)
  show ?thesis
  proof (cases outcome)
    case (AttemptCompleted d)
    with assms(3) R(3) show ?thesis
      by (auto simp: conclude_attempt_def flow_inv_def settles_def seen_items_def) 
  next
    case (AttemptFailed m)
    let ?ev = "WorkerProgress (EvRetrying (retrying_text (Suc n) attempts))"
    have "sound (tell ?ev R) \<Longrightarrow> handed_items (tell ?ev R) = []" if "\<not> run_items_started R"
      using R that sound_tell by (fastforce simp: handed_tell)
    with AttemptFailed R repaired show ?thesis
      by (auto simp: conclude_attempt_def flow_inv_def tell_def)
  qed (simp_all add: conclude_attempt_def repaired)
qed

lemma flow_inv_cong:
  assumes "flow_inv attempt_can R" "run_phase R' = run_phase R" "run_seen R' = run_seen R" "run_ledger R' = run_ledger R"
    "run_items_started R' = run_items_started R" "sound R' \<Longrightarrow> sound R \<and> handed_items R' = handed_items R"
  shows "flow_inv attempt_can R'"
proof -
  have seen: "seen_items R' = seen_items R" by (simp add: seen_items_def assms(3))
  have "settles attempt_can R ev \<Longrightarrow> settles attempt_can R' ev" for ev
    using assms(6) by (auto simp: settles_def seen assms(3)) 
  with assms show ?thesis by (auto simp: flow_inv_def seen split: worker_phase.splits)
qed

lemma flow_inv_actor:
  assumes "flow_inv attempt_can R" "run_open R" "run_queue R = cmd # rest"
    "persist_command pers cmd (run_actor R) (run_store R) (run_cursor R) = Some (r, s, c)"
  shows "flow_inv attempt_can (actor_done sh cmd rest r (R\<lparr>run_store := s, run_cursor := c\<rparr>))"
  using assms(1)
proof (rule flow_inv_cong)
  let ?R = "actor_done sh cmd rest r (R\<lparr>run_store := s, run_cursor := c\<rparr>)"
  show "run_phase ?R = run_phase R" "run_seen ?R = run_seen R" "run_ledger ?R = run_ledger R"
    "run_items_started ?R = run_items_started R"
    by (simp_all add: actor_done_def tell_failure_def tell_def cancel_turn_def split: sum.splits)
  assume "sound ?R"
  show "sound R \<and> handed_items ?R = handed_items R"
  proof (cases r)
    case (Inl err)
    with \<open>sound ?R\<close> show ?thesis by (simp add: sound_def actor_done_def tell_failure_def tell_def)
  next
    case (Inr q)
    then obtain ps ds where q: "r = Ok (ps, ds)" by (cases q) auto
    from \<open>sound ?R\<close> have "sound R" by (auto simp: q sound_def overflowed_def actor_done_def)
    with persist_command_Ok(2)[OF assms(4)[unfolded q]] assms(3) show ?thesis
      by (simp add: q handed_items_def told_items_def told_deltas_def queued_items_def actor_done_def
          filter_map_append split: option.splits)
  qed
qed

lemma flow_inv_step:
  assumes "worker_step W attempt_can R R'" "flow_inv attempt_can R"
  shows "flow_inv attempt_can R'"
  using assms(1)
proof (cases rule: worker_step.cases)
  case (progress n p)
  with flow_inv_progress[OF _ assms(2)] show ?thesis by simp
next
  case (attempt_ends n outcome)
  with flow_inv_conclude[OF _ assms(2)] show ?thesis by simp
next
  case (actor cmd rest r s c)
  with flow_inv_actor[OF assms(2)] show ?thesis by simp
next
  case cancel
  show ?thesis unfolding cancel using assms(2)
    by (rule flow_inv_cong) (simp_all add: cancel_turn_def handed_items_def told_items_def told_deltas_def
        queued_items_def sound_def overflowed_def)
next
  case (asks_permission i opts)
  show ?thesis unfolding asks_permission using assms(2)
    by (rule flow_inv_cong) (auto simp: tell_def handed_tell[unfolded tell_def] dest: sound_tell[unfolded tell_def])
next
  case begin_turn
  with assms(2) show ?thesis
    by (auto simp: flow_inv_def seen_items_def sound_def overflowed_def handed_items_def told_items_def
        told_deltas_def queued_items_def filter_map_append)
next
  case (wakes n)
  with assms(2) show ?thesis
    by (auto simp: flow_inv_def seen_items_def sound_def overflowed_def handed_items_def told_items_def
        told_deltas_def queued_items_def filter_map_append)
next
  case (sleep_cancelled n)
  with assms(2) show ?thesis by (simp add: flow_inv_def settles_def)
next
  case (flush_sent ev)
  let ?R = "R\<lparr>run_queue := run_queue R @ [CmdFlush]\<rparr>"
  have "flow_inv attempt_can ?R" using assms(2)
    by (rule flow_inv_cong) (simp_all add: handed_items_def told_items_def told_deltas_def
        queued_items_def sound_def overflowed_def filter_map_append)
  with flush_sent show ?thesis by (simp add: flow_inv_def settles_def)
qed (simp_all add: flow_inv_def)

end
