(* ===== verification/Worker_Stored.thy ===== *)
theory Worker_Stored
  imports Worker_Runs
begin

text \<open>
  What a run of the worker leaves in the store: as long as the actor lives, the session shows what it
  showed before, the message of the user and the items the consumer was told; it never loses what it
  showed before.
\<close>

section \<open>Who touches the store\<close>

definition same_store :: "'s worker_run \<Rightarrow> 's worker_run \<Rightarrow> bool" where
  "same_store R R' \<longleftrightarrow>
     run_actor R' = run_actor R \<and> run_store R' = run_store R \<and> run_cursor R' = run_cursor R
     \<and> run_open R' = run_open R \<and> run_ack R' = run_ack R \<and> told_deltas R' = told_deltas R"

lemma hands_over_same_store: "hands_over R xs R' \<Longrightarrow> same_store R R'"
  by (auto simp: hands_over_def same_store_def told_deltas_def filter_map_append no_session_delta)

lemma told_deltas_simps [simp]:
  "told_deltas (R\<lparr>run_phase := ph\<rparr>) = told_deltas R"
  "told_deltas (R\<lparr>run_store := s\<rparr>) = told_deltas R" "told_deltas (R\<lparr>run_cursor := c\<rparr>) = told_deltas R"
  "session_delta ev = None \<Longrightarrow> told_deltas (tell ev R) = told_deltas R"
  by (simp_all add: told_deltas_def tell_def filter_map_append)

lemma told_deltas_tell: "session_delta ev = None \<Longrightarrow> told_deltas (R\<lparr>run_outbox := run_outbox R @ [ev]\<rparr>) = told_deltas R"
  by (simp add: told_deltas_def filter_map_append)

lemma same_store_conclude: "same_store R (conclude_attempt attempts n outcome R)"
proof -
  have "same_store R (send_repair_items R)" using hands_over_repairs by (rule hands_over_same_store)
  then show ?thesis
    by (simp add: same_store_def conclude_attempt_def told_deltas_tell tell_def split: attempt_outcome.splits)
qed

lemma settles_delta: "settles attempt_can R ev \<Longrightarrow> session_delta ev = None"
  by (auto simp: settles_def)

text \<open>Every step but one of the actor leaves the store and what was told of it alone.\<close>

lemma step_same_store:
  assumes "worker_step W attempt_can R R'" "flow_inv attempt_can R"
  shows "same_store R R' \<or>
    (\<exists>cmd rest r s c. run_open R \<and> run_queue R = cmd # rest
       \<and> persist_command (worker_persistence W) cmd (run_actor R) (run_store R) (run_cursor R) = Some (r, s, c)
       \<and> R' = actor_done (worker_show_error W) cmd rest r (R\<lparr>run_store := s, run_cursor := c\<rparr>))"
  using assms(1)
proof (cases rule: worker_step.cases)
  case (progress n p)
  let ?R = "R\<lparr>run_seen := run_seen R @ [p]\<rparr>"
  have "same_store ?R R'" unfolding progress by (rule hands_over_same_store[OF hands_over_on_progress])
  then show ?thesis by (simp add: same_store_def told_deltas_def)
next
  case (attempt_ends n outcome)
  then show ?thesis using same_store_conclude by blast
next
  case (flushed ev)
  with assms(2) have "session_delta ev = None" by (auto simp: flow_inv_def dest: settles_delta)
  with flushed show ?thesis by (simp add: same_store_def tell_def told_deltas_tell)
qed (auto simp: same_store_def same_store_conclude tell_failure_def tell_def told_deltas_tell cancel_turn_def told_deltas_def)

section \<open>The turn in the store\<close>

definition item_delta :: "ustring \<times> conversation_item \<Rightarrow> conversation_delta" where
  "item_delta = (\<lambda>(i, x). DeltaContextItem (Some i) x)"

lemma delta_items [simp]: "filter_map delta_item (map item_delta cs) = map snd cs"
  by (induction cs) (auto simp: item_delta_def)

text \<open>The consumer was told of a turn that shows after \<open>xs\<close>.\<close>

definition turn_shown ::
    "('s \<Rightarrow> session_id \<Rightarrow> bool) \<Rightarrow> ('s \<Rightarrow> session_id \<Rightarrow> session_entry list) \<Rightarrow> 's prepared_persistence
      \<Rightarrow> session_id \<Rightarrow> (ustring \<times> conversation_item) list \<Rightarrow> 's \<Rightarrow> conversation_delta list
      \<Rightarrow> conversation_item list \<Rightarrow> bool" where
  "turn_shown holds log_of p sid xs s deltas ys \<longleftrightarrow>
     (\<exists>ids cs. length ids = length (persist_user_items p) \<and> map snd cs = ys
        \<and> deltas = DeltaTurnStarted (Some sid) (last_opt ids) # map item_delta cs
        \<and> stored_in holds log_of s sid (xs @ zip ids (persist_user_items p) @ cs))"

context session_backend
begin

definition turn_inv_in ::
    "'s prepared_persistence \<Rightarrow> session_id \<Rightarrow> (ustring \<times> conversation_item) list \<Rightarrow> 's worker_run \<Rightarrow> bool" where
  "turn_inv_in p sid xs R \<longleftrightarrow>
     (if has_persisted_turn_start (run_actor R)
      then actor_session_id (run_actor R) = Some sid
        \<and> (run_open R \<longrightarrow> turn_shown holds log_of p sid xs (run_store R) (told_deltas R) (told_items R))
      else run_actor R = new_persistence_state
        \<and> (run_open R \<longrightarrow> told_deltas R = [] \<and> stored_in holds log_of (run_store R) sid xs))
     \<and> (\<exists>zs. stored_in holds log_of (run_store R) sid (xs @ zs))
     \<and> (waits_for_flush (run_phase R) \<longrightarrow> run_ack R = Some (Ok ()) \<longrightarrow> settled (run_store R) sid)"

definition turn_in :: "'s worker_env \<Rightarrow> session_id \<Rightarrow> 's prepared_persistence \<Rightarrow> bool" where
  "turn_in W sid p \<longleftrightarrow>
     worker_persistence W = Some p \<and> persist_store p = V \<and> persist_session_id p = Some sid"

lemma turn_inv_same_store:
  assumes "turn_inv_in p sid xs R" "same_store R R'"
    "waits_for_flush (run_phase R') \<Longrightarrow> waits_for_flush (run_phase R) \<or> run_ack R = None"
  shows "turn_inv_in p sid xs R'"
proof -
  from assms(2) have same: "run_actor R' = run_actor R" "run_store R' = run_store R" "run_open R' = run_open R"
    "run_ack R' = run_ack R" "told_deltas R' = told_deltas R" "told_items R' = told_items R"
    by (simp_all add: same_store_def told_items_def)
  from assms(1,3) show ?thesis unfolding turn_inv_in_def same by (cases "run_ack R = None") auto
qed

lemma actor_done_simps:
  "run_store (actor_done sh cmd rest r (R\<lparr>run_store := s, run_cursor := c\<rparr>)) = s"
  "run_phase (actor_done sh cmd rest r (R\<lparr>run_store := s, run_cursor := c\<rparr>)) = run_phase R"
  "run_open (actor_done sh cmd rest r R) \<longleftrightarrow> run_open R \<and> is_ok r"
  "run_actor (actor_done sh cmd rest r R) = (case r of Inl _ \<Rightarrow> run_actor R | Inr (ps, _) \<Rightarrow> ps)"
  "r = Ok (ps, ds) \<Longrightarrow> told_deltas (actor_done sh cmd rest r R) = told_deltas R @ ds"
  "run_ack (actor_done sh cmd rest r R) = Some (Ok ()) \<Longrightarrow> run_ack R = Some (Ok ()) \<or> (cmd = CmdFlush \<and> is_ok r)"
  by (auto simp: actor_done_def told_deltas_def filter_map_append tell_failure_def tell_def cancel_turn_def
      split: sum.splits if_splits)

lemma actor_settles:
  assumes "turn_in W sid p" "actor_session_id ps = Some sid" "stored_in holds log_of s sid xs"
    "persist_command (Some p) CmdFlush ps s c = Some (Ok q, s', c')"
  shows "settled s' sid"
proof -
  from assms(1,2,4) have "persist_then (store_call FlushFailed (vt_flush V sid)) (\<lambda>_. persisted (ps, [])) s c = Some (Ok q, s', c')"
    by (simp add: flush_persistence_def or_else_def turn_in_def)
  then have "vt_flush V sid s c = Some (Ok (), s', c')"
    by (auto elim!: persist_thenE simp: store_call_Ok)
  with flush_law assms(3) show ?thesis by (auto simp: stored_in_def)
qed

lemma turn_shown_stored: "turn_shown holds log_of p sid xs s deltas ys \<Longrightarrow> \<exists>zs. stored_in holds log_of s sid (xs @ zs)"
  unfolding turn_shown_def by blast

text \<open>The first command.\<close>

lemma turn_inv_first:
  assumes "turn_in W sid p" "turn_inv_in p sid xs R" "run_open R" "\<not> has_persisted_turn_start (run_actor R)"
    "persist_command (Some p) CmdTurnStarted (run_actor R) (run_store R) (run_cursor R) = Some (r, s, c)"
    "waits_for_flush (run_phase R) \<Longrightarrow> run_ack R = None"
  shows "turn_inv_in p sid xs (actor_done sh CmdTurnStarted rest r (R\<lparr>run_store := s, run_cursor := c\<rparr>))"
proof -
  let ?R = "actor_done sh CmdTurnStarted rest r (R\<lparr>run_store := s, run_cursor := c\<rparr>)"
  from assms(2-4) have R: "run_actor R = new_persistence_state" "told_deltas R = []" "stored_in holds log_of (run_store R) sid xs"
    by (simp_all add: turn_inv_in_def)
  have ack: "run_ack ?R \<noteq> Some (Ok ())" if "waits_for_flush (run_phase R)"
    using actor_done_simps(6)[of sh CmdTurnStarted rest r] assms(6)[OF that] by force
  from assms(1,5) have started: "turn_started_in p (run_actor R) sid xs r s"
    by (intro turn_start_stored[OF _ assms(4) _ R(3)]) (simp_all add: turn_in_def)
  show ?thesis
  proof (cases r)
    case (Inl err)
    with started R(1) ack assms(4) show ?thesis
      by (simp add: turn_inv_in_def actor_done_simps turn_started_in_def)
  next
    case (Inr q)
    then obtain ps ds where q: "r = Ok (ps, ds)" by (cases q) auto
    with started obtain ids where ids: "length ids = length (persist_user_items p)" "has_persisted_turn_start ps"
      "actor_session_id ps = Some sid" "ds = [DeltaTurnStarted (Some sid) (last_opt ids)]"
      "stored_in holds log_of s sid (xs @ zip ids (persist_user_items p))"
      by (auto simp: turn_started_in_def)
    have told: "told_deltas ?R = ds" using R(2) by (simp add: q actor_done_simps(5))
    have "turn_shown holds log_of p sid xs s ds (filter_map delta_item ds)"
      unfolding turn_shown_def using ids(1,4,5) by (intro exI[of _ ids] exI[of _ "[]"]) simp
    with ids ack assms(4) told show ?thesis
      using turn_shown_stored by (auto simp: turn_inv_in_def actor_done_simps q told_items_def)
  qed
qed

text \<open>A later command.\<close>

lemma turn_inv_later:
  assumes "turn_in W sid p" "turn_inv_in p sid xs R" "run_open R" "has_persisted_turn_start (run_actor R)"
    "cmd \<noteq> CmdTurnStarted"
    "persist_command (Some p) cmd (run_actor R) (run_store R) (run_cursor R) = Some (r, s, c)"
    "waits_for_flush (run_phase R) \<Longrightarrow> run_ack R = None"
  shows "turn_inv_in p sid xs (actor_done sh cmd rest r (R\<lparr>run_store := s, run_cursor := c\<rparr>))"
proof -
  let ?R = "actor_done sh cmd rest r (R\<lparr>run_store := s, run_cursor := c\<rparr>)"
  from assms(2-4) have sid: "actor_session_id (run_actor R) = Some sid"
    and "turn_shown holds log_of p sid xs (run_store R) (told_deltas R) (told_items R)"
    by (simp_all add: turn_inv_in_def)
  then obtain ids ds where shown: "length ids = length (persist_user_items p)" "map snd ds = told_items R"
      "told_deltas R = DeltaTurnStarted (Some sid) (last_opt ids) # map item_delta ds"
      "stored_in holds log_of (run_store R) sid (xs @ zip ids (persist_user_items p) @ ds)"
    unfolding turn_shown_def by blast
  have V: "persist_store p = V" using assms(1) by (simp add: turn_in_def)
  note stored = command_stored[OF V sid assms(5) shown(4) assms(6)]
  show ?thesis
  proof (cases r)
    case (Inl err)
    with stored have "\<exists>zs. stored_in holds log_of s sid (xs @ zs)" by auto
    with Inl sid assms(4,7) actor_done_simps(6)[of sh cmd rest r "R\<lparr>run_store := s, run_cursor := c\<rparr>"] show ?thesis
      by (auto simp: turn_inv_in_def actor_done_simps(1-4))
  next
    case (Inr q)
    then obtain ps new where q: "r = Ok (ps, new)" by (cases q) auto
    with stored obtain cs where cs: "has_persisted_turn_start ps" "actor_session_id ps = Some sid" "new = map item_delta cs"
      "stored_in holds log_of s sid ((xs @ zip ids (persist_user_items p) @ ds) @ cs)"
      using assms(4) by (auto simp: item_delta_def)
    have told: "told_deltas ?R = told_deltas R @ new" by (simp add: q actor_done_simps(5))
    then have "told_items ?R = told_items R @ map snd cs" by (simp add: told_items_def filter_map_append cs(3))
    with told shown cs have now: "turn_shown holds log_of p sid xs s (told_deltas ?R) (told_items ?R)"
      unfolding turn_shown_def by (intro exI[of _ ids] exI[of _ "ds @ cs"]) simp
    have "waits_for_flush (run_phase R) \<Longrightarrow> run_ack ?R = Some (Ok ()) \<Longrightarrow> settled s sid"
      using actor_done_simps(6)[of sh cmd rest r "R\<lparr>run_store := s, run_cursor := c\<rparr>"] assms(6,7)
        actor_settles[OF assms(1) sid shown(4)] by (auto simp: q)
    with now cs turn_shown_stored[OF now] show ?thesis
      by (simp add: turn_inv_in_def actor_done_simps(1-4) q)
  qed
qed

lemma step_waits:
  assumes "worker_step W attempt_can R R'" "waits_for_flush (run_phase R')"
  shows "waits_for_flush (run_phase R) \<or> (\<exists>ev. run_phase R = Flushing ev)"
  using assms(1)
proof (cases rule: worker_step.cases)
  case (progress n p)
  with hands_over_on_progress[of "R\<lparr>run_seen := run_seen R @ [p]\<rparr>" p] assms(2) show ?thesis
    by (simp add: hands_over_def)
next
  case (actor cmd rest r s c)
  with assms(2) show ?thesis by (simp add: actor_done_simps)
qed (use assms(2) in \<open>auto simp: conclude_attempt_def tell_failure_def tell_def cancel_turn_def split: attempt_outcome.splits if_splits\<close>)

lemma turn_inv_step:
  assumes "worker_step W attempt_can R R'" "flow_inv attempt_can R" "queue_inv R" "turn_in W sid p" "turn_inv_in p sid xs R"
  shows "turn_inv_in p sid xs R'"
  using step_same_store[OF assms(1,2)]
proof (elim disjE exE conjE)
  assume "same_store R R'"
  with assms(5) show ?thesis
  proof (rule turn_inv_same_store)
    assume "waits_for_flush (run_phase R')"
    with step_waits[OF assms(1)] assms(3) show "waits_for_flush (run_phase R) \<or> run_ack R = None"
      by (auto simp: queue_inv_def)
  qed
next
  fix cmd rest r s c
  assume actor: "run_open R" "run_queue R = cmd # rest"
    "persist_command (worker_persistence W) cmd (run_actor R) (run_store R) (run_cursor R) = Some (r, s, c)"
    and R': "R' = actor_done (worker_show_error W) cmd rest r (R\<lparr>run_store := s, run_cursor := c\<rparr>)"
  from assms(4) have pers: "worker_persistence W = Some p" by (simp add: turn_in_def)
  have ack: "run_ack R = None" if "waits_for_flush (run_phase R)"
    using assms(3) actor(1,2) that by (auto simp: queue_inv_def)
  show ?thesis
  proof (cases "has_persisted_turn_start (run_actor R)")
    case True
    with assms(3) actor(1,2) have "cmd \<noteq> CmdTurnStarted" by (auto simp: queue_inv_def)
    from turn_inv_later[OF assms(4,5) actor(1) True this actor(3)[unfolded pers] ack] show ?thesis by (simp add: R')
  next
    case False
    with assms(3) actor(1,2) have "cmd = CmdTurnStarted" by (auto simp: queue_inv_def)
    from turn_inv_first[OF assms(4,5) actor(1) False actor(3)[unfolded pers this] ack] show ?thesis by (simp add: R' \<open>cmd = CmdTurnStarted\<close>)
  qed
qed

lemma reachable_turn:
  assumes "worker_reachable W attempt_can start R" "turn_in W sid p" "stored_in holds log_of (fst start) sid xs"
  shows "queue_inv R \<and> flow_inv attempt_can R \<and> turn_inv_in p sid xs R"
  using assms(1)
proof induction
  case start
  have "filter_map delta_item [] = []" by simp
  with assms(3) show ?case
    by (auto simp: queue_inv_def flow_inv_def turn_inv_in_def new_run_def new_persistence_state_def seen_items_def
        handed_items_def told_items_def told_deltas_def queued_items_def intro: exI[of _ "[]"])
next
  case (step R R')
  with queue_inv_step flow_inv_step turn_inv_step[OF step.hyps(2) _ _ assms(2)] show ?case by blast
qed

lemma history_kept:
  assumes "worker_reachable W attempt_can start R" "turn_in W sid p" "stored_in holds log_of (fst start) sid xs"
  shows "\<exists>zs. stored_in holds log_of (run_store R) sid (xs @ zs)"
  using reachable_turn[OF assms] by (simp add: turn_inv_in_def)

text \<open>When the flush is answered, everything handed over is stored and was told.\<close>

lemma concluded_turn:
  assumes "worker_reachable W attempt_can start R" "turn_in W sid p" "stored_in holds log_of (fst start) sid xs"
    "run_phase R = AwaitingFlush ev" "run_ack R = Some (Ok ())" "\<not> overflowed R"
  shows "settled (run_store R) sid \<and> turn_shown holds log_of p sid xs (run_store R) (told_deltas R) (told_items R)"
    "settles attempt_can R ev \<and> handed_items R = told_items R \<and> sound R"
proof -
  from reachable_turn[OF assms(1-3)] have q: "queue_inv R" and f: "flow_inv attempt_can R" and t: "turn_inv_in p sid xs R"
    by auto
  from q assms(4,5) have open_queue: "run_open R" "run_queue R = []" by (auto simp: queue_inv_def)
  with q assms(4) have "has_persisted_turn_start (run_actor R)" by (auto simp: queue_inv_def split: if_splits)
  with t open_queue assms(4,5)
  show "settled (run_store R) sid \<and> turn_shown holds log_of p sid xs (run_store R) (told_deltas R) (told_items R)"
    by (simp add: turn_inv_in_def)
  show "settles attempt_can R ev \<and> handed_items R = told_items R \<and> sound R"
    using f assms(4,6) open_queue by (simp add: flow_inv_def handed_items_def queued_items_def sound_def)
qed

end

section \<open>How a run of the tool loop concludes\<close>

lemma completed_items:
  assumes "attempt_of_loop E q provider n ps (AttemptCompleted c)"
  shows "filter_map context_of ps = response_items (response c)"
  using assms
proof cases
  case (completed w s w')
  with run_tool_loop_done[OF completed(2)] show ?thesis by (simp add: loop_done_def turn_inv_def)
qed

lemma finished_items:
  assumes "settles (attempt_of_loop E q provider) R (WorkerFinished resp m t)" "sound R"
  shows "handed_items R = response_items resp"
  using assms completed_items by (fastforce simp: settles_def seen_items_def)

lemma repaired_closed: "closed_context (xs @ repairs_of xs)"
  using closed_if_resolved repairs_close by (simp add: ledger_of_def repairs_of_def)

lemma cut_off_items:
  assumes "settles attempt_can R (WorkerProgress e)" "sound R"
  shows "handed_items R = seen_items R @ repairs_of (seen_items R)"
  using assms by (auto simp: settles_def)

end
