(* ===== verification/Worker_Samples.thy ===== *)
theory Worker_Samples
  imports Worker_Stored Turn_Samples Local_Samples
begin

text \<open>
  Concrete turns over the store on disk, in the session that has its header alone: a turn that is
  answered, and a turn that is cut off with an open call.
\<close>

section \<open>Appends to the sample session\<close>

definition at_step :: "nat \<Rightarrow> cursor" where
  "at_step n = \<lparr>uuid_at = n, clock_at = n\<rparr>"

definition made :: "nat \<Rightarrow> session_entry list \<Rightarrow> entry_kind \<Rightarrow> session_entry" where
  "made n es k = \<lparr>entry_id = short_entry_id (of_nat (Suc n)), parent_id = append_parent_id es, timestamp = int n, kind = k\<rparr>"

fun made_all :: "nat \<Rightarrow> session_entry list \<Rightarrow> entry_kind list \<Rightarrow> session_entry list" where
  "made_all n es [] = es"
| "made_all n es (k # ks) = made_all (Suc n) (es @ [made n es k]) ks"

definition env_of :: "codec \<Rightarrow> local_env" where
  "env_of C = local_env0\<lparr>local_index_env := (local_index_env local_env0)\<lparr>index_codec := C\<rparr>\<rparr>"

lemma env_of_simps [simp]:
  "env_codec (env_of C) = C" "env_platform (env_of C) = platform0" "io_faults (env_of C) n = NoFault"
  by (simp_all add: env_of_def local_env0_def)

text \<open>The store holds the entries \<open>es\<close>, all of them written.\<close>

definition holds_now :: "codec \<Rightarrow> session_entry list \<Rightarrow> local_store \<Rightarrow> bool" where
  "holds_now C es st \<longleftrightarrow> (\<exists>h. open_ok C st 7 h \<and> accepted h = es \<and> pending_state (handle_state h) = [])"

definition counts_nothing :: "codec \<Rightarrow> local_store \<Rightarrow> bool" where
  "counts_nothing C st \<longleftrightarrow> (\<exists>h. open_ok C st 7 h \<and> meta_total_tokens (state_meta (handle_state h)) = 0)"

definition may_append :: "codec \<Rightarrow> nat \<Rightarrow> session_entry list \<Rightarrow> entry_kind \<Rightarrow> bool" where
  "may_append C n es k \<longleftrightarrow>
     short_entry_id (of_nat (Suc n)) \<notin> entry_ids es \<and> validate_append_kinds [k] = Ok () \<and> \<not> is_leaf_kind k
     \<and> to_json C (made n es k) \<noteq> None"

lemma append_now:
  assumes "holds_now C es st" "may_append C n es k"
  shows "\<exists>st'. local_append_entries (env_of C) 7 [k] st (at_step n)
       = Some (Ok [short_entry_id (of_nat (Suc n))], st', at_step (Suc n))
     \<and> holds_now C (es @ [made n es k]) st' \<and> counts_nothing C st'"
proof -
  from assms(1) obtain h where h: "open_ok C st 7 h" "accepted h = es" "pending_state (handle_state h) = []"
    by (auto simp: holds_now_def)
  have "generate_entry_id platform0 (entry_ids es) (at_step n) = Some (short_entry_id (of_nat (Suc n)), \<lparr>uuid_at = Suc n, clock_at = n\<rparr>)"
    using assms(2) by (simp add: may_append_def generate_entry_id_def generate_entry_id_with_def entry_id_retry_limit_def platform0_def
        at_step_def numeral_eq_Suc)
  then have "unused_id_loop platform0 (entry_ids es) {} (at_step n) = Some (short_entry_id (of_nat (Suc n)), \<lparr>uuid_at = Suc n, clock_at = n\<rparr>)"
    by (subst unused_id_loop.simps) simp
  then have "build_batch platform0 (entry_ids es) {} (append_parent_id es, latest_non_leaf_id es) [k] [] (at_step n)
      = Some (Ok [made n es k], at_step (Suc n))"
    by (simp add: current_timestamp_ms_def platform0_def made_def at_step_def)
  with append_writes[OF h(1) env_of_simps(1), of "[k]" "at_step n" "[made n es k]" "at_step (Suc n)"] h(2,3) assms(2)
  show ?thesis by (auto simp: may_append_def holds_now_def counts_nothing_def made_def)
qed

lemma entry_now:
  assumes "holds_now C es st" "may_append C n es k"
  shows "\<exists>st'. local_append_entry (env_of C) 7 k st (at_step n)
       = Some (Ok (short_entry_id (of_nat (Suc n))), st', at_step (Suc n))
     \<and> holds_now C (es @ [made n es k]) st' \<and> counts_nothing C st'"
  using append_now[OF assms] by (auto simp: local_append_entry_def)

lemma flush_now:
  assumes "holds_now C es st" "counts_nothing C st"
  shows "\<exists>st'. local_flush (env_of C) 7 st = (Ok (), st')"
proof -
  from assms obtain h where "open_ok C st 7 h" "pending_state (handle_state h) = []" "meta_total_tokens (state_meta (handle_state h)) = 0"
    by (auto simp: holds_now_def counts_nothing_def open_ok_def)
  then show ?thesis by (intro flush_succeeds[of C st 7 h]) simp_all
qed

section \<open>The sample turns\<close>

definition store_of :: "codec \<Rightarrow> local_store" where
  "store_of C = put_handle 7 (handle_of C) \<lparr>recorders = [], index = empty_index, store_disk = [], faults_used = 0\<rparr>"

lemma store_of_holds: "to_json C e_header \<noteq> None \<Longrightarrow> holds_now C [e_header] (store_of C)"
  using handle_of_inv[of C] put_handle_open[of C "handle_of C" 7] by (auto simp: holds_now_def store_of_def)

definition config0 :: config_snapshot where
  "config0 = \<lparr>provider_id = lit ''p'', config_model = lit ''m0'', system_prompt = None, prompt_prelude_snapshot = None,
     denv_config = None, denv_observations = []\<rparr>"

definition user0 :: conversation_item where "user0 = item_text User (lit ''hello'')"
definition reply0 :: conversation_item where "reply0 = assistant_with_parts [Text (lit ''hi'')] []"
definition asks0 :: conversation_item where "asks0 = assistant_with_tool_calls [] [call0]"
definition repair0 :: conversation_item where "repair0 = ToolResult (lit ''c1'') [Text tool_execution_interrupted] True"

definition persistence_of :: "codec \<Rightarrow> local_store prepared_persistence" where
  "persistence_of C = \<lparr>persist_store = local_vtable (env_of C), persist_session_id = Some 7, persist_header = header0,
     persist_config = config0, persist_user_items = [user0],
     persist_user_message = \<lparr>message_content = [], attachments = [], skill_bindings = [], custom_prompt_bindings = []\<rparr>,
     persist_replay_after_user = []\<rparr>"

definition worker_of :: "codec \<Rightarrow> local_store worker_env" where
  "worker_of C = \<lparr>worker_persistence = Some (persistence_of C), worker_attempts = 1, worker_show_error = (\<lambda>_. [])\<rparr>"

lemma worker_of_fields [simp]:
  "worker_persistence (worker_of C) = Some (persistence_of C)" "worker_attempts (worker_of C) = Suc 0"
  by (simp_all add: worker_of_def)

lemma persistence_of_fields [simp]:
  "persist_store (persistence_of C) = local_vtable (env_of C)" "persist_session_id (persistence_of C) = Some 7"
  "persist_config (persistence_of C) = config0" "persist_user_items (persistence_of C) = [user0]"
  "persist_replay_after_user (persistence_of C) = []" "message_content (persist_user_message (persistence_of C)) = []"
  "skill_bindings (persist_user_message (persistence_of C)) = []"
  "custom_prompt_bindings (persist_user_message (persistence_of C)) = []"
  "attachments (persist_user_message (persistence_of C)) = []"
  by (simp_all add: persistence_of_def)

lemma vtable_simps [simp]:
  "vt_append (local_vtable E) = local_append E" "vt_append_many (local_vtable E) = local_append_many E"
  "vt_append_config_change (local_vtable E) = local_append_config_change E"
  "vt_append_transcript_replay (local_vtable E) = local_append_transcript_replay E"
  "vt_flush (local_vtable E) = (\<lambda>sid st c. case local_flush E sid st of (r, st) \<Rightarrow> Some (r, st, c))"
  by (simp_all add: local_vtable_def)

definition started0 :: persistence_state where
  "started0 = new_persistence_state\<lparr>has_persisted_turn_start := True, actor_session_id := Some 7,
     actor_user_entry_id := Some (short_entry_id 2)\<rparr>"

definition start_kinds :: "entry_kind list" where "start_kinds = [ConfigChange config0, Item user0]"

definition "es2 = made_all 0 [e_header] start_kinds"

lemma turn_start_now:
  assumes "holds_now C [e_header] st" "may_append C 0 [e_header] (ConfigChange config0)"
    "may_append C 1 (made_all 0 [e_header] [ConfigChange config0]) (Item user0)"
  shows "\<exists>st'. persist_command (Some (persistence_of C)) CmdTurnStarted new_persistence_state st (at_step 0)
      = Some (Ok (started0, [DeltaTurnStarted (Some 7) (Some (short_entry_id 2))]), st', at_step 2)
    \<and> holds_now C es2 st' \<and> counts_nothing C st'"
proof -
  from entry_now[OF assms(1,2)] obtain st1 where s1: "local_append_entry (env_of C) 7 (ConfigChange config0) st (at_step 0)
       = Some (Ok (short_entry_id (of_nat (Suc 0))), st1, at_step (Suc 0))"
     "holds_now C (made_all 0 [e_header] [ConfigChange config0]) st1" by auto
  from append_now[OF s1(2) assms(3)] obtain st2 where s2: "local_append_entries (env_of C) 7 [Item user0] st1 (at_step 1)
       = Some (Ok [short_entry_id 2], st2, at_step 2)"
     "holds_now C es2 st2" "counts_nothing C st2" by (auto simp: es2_def start_kinds_def numeral_2_eq_2)
  have "persist_turn_start (Some (persistence_of C)) new_persistence_state st (at_step 0)
      = Some (Ok (started0, [DeltaTurnStarted (Some 7) (Some (short_entry_id 2))]), st2, at_step 2)"
    using s1(1) s2(1)
    by (simp add: persist_turn_start_def new_persistence_state_def ensure_persistence_session_def persist_then_def store_call_def
        persisted_def local_append_config_change_def local_append_many_def started0_def
        transcript_replay_items_from_transcript_user_message_def display_content_def)
  with s2 show ?thesis by auto
qed

text \<open>A context item, with one replay item or none.\<close>

lemma item_now:
  assumes "holds_now C es st" "may_append C n es (Item x)" "actor_session_id ps = Some 7"
    "transcript_replay_items_from_context_item x ps = []"
  shows "\<exists>st'. persist_command (Some (persistence_of C)) (CmdContextItem x) ps st (at_step n)
      = Some (Ok (ps, [DeltaContextItem (Some (short_entry_id (of_nat (Suc n)))) x]), st', at_step (Suc n))
    \<and> holds_now C (es @ [made n es (Item x)]) st' \<and> counts_nothing C st'"
proof -
  from entry_now[OF assms(1,2)] obtain st1 where s1: "local_append_entry (env_of C) 7 (Item x) st (at_step n)
       = Some (Ok (short_entry_id (of_nat (Suc n))), st1, at_step (Suc n))"
     "holds_now C (es @ [made n es (Item x)]) st1" "counts_nothing C st1" by auto
  with assms(3,4) show ?thesis
    by (simp add: persist_context_item_def with_active_session_def active_session_id_def or_else_def ok_or_def
        persist_then_def store_call_def persisted_def local_append_def)
qed

lemma item_replay_now:
  assumes "holds_now C es st" "may_append C n es (Item x)" "actor_session_id ps = Some 7"
    "transcript_replay_items_from_context_item x ps = [rp]"
    "may_append C (Suc n) (es @ [made n es (Item x)]) (TranscriptReplay rp)"
  shows "\<exists>st'. persist_command (Some (persistence_of C)) (CmdContextItem x) ps st (at_step n)
      = Some (Ok (ps, [DeltaContextItem (Some (short_entry_id (of_nat (Suc n)))) x]), st', at_step (Suc (Suc n)))
    \<and> holds_now C (made_all n es [Item x, TranscriptReplay rp]) st' \<and> counts_nothing C st'"
proof -
  from entry_now[OF assms(1,2)] obtain st1 where s1: "local_append_entry (env_of C) 7 (Item x) st (at_step n)
       = Some (Ok (short_entry_id (of_nat (Suc n))), st1, at_step (Suc n))"
     "holds_now C (es @ [made n es (Item x)]) st1" by auto
  from entry_now[OF s1(2) assms(5)] obtain st2 where s2: "local_append_entry (env_of C) 7 (TranscriptReplay rp) st1 (at_step (Suc n))
       = Some (Ok (short_entry_id (of_nat (Suc (Suc n)))), st2, at_step (Suc (Suc n)))"
     "holds_now C (made_all n es [Item x, TranscriptReplay rp]) st2" "counts_nothing C st2" by auto
  with assms(3,4) s1 show ?thesis
    by (simp add: persist_context_item_def with_active_session_def active_session_id_def or_else_def ok_or_def
        persist_then_def store_call_def persisted_def local_append_def append_transcript_replay_item_def
        local_append_transcript_replay_def)
qed

lemma flush_command_now:
  assumes "holds_now C es st" "counts_nothing C st" "actor_session_id ps = Some 7"
  shows "\<exists>st'. persist_command (Some (persistence_of C)) CmdFlush ps st c = Some (Ok (ps, []), st', c)"
  using flush_now[OF assms(1,2)] assms(3)
  by (auto simp: flush_persistence_def or_else_def persist_then_def store_call_def persisted_def)

section \<open>Running the worker\<close>

definition observe_all :: "loop_progress list \<Rightarrow> 's worker_run \<Rightarrow> 's worker_run" where
  "observe_all = fold (\<lambda>p R. on_progress p (R\<lparr>run_seen := run_seen R @ [p]\<rparr>))"

text \<open>A number of steps of the worker and its actor.\<close>

definition worker_steps ::
    "'s worker_env \<Rightarrow> (nat \<Rightarrow> loop_progress list \<Rightarrow> attempt_outcome \<Rightarrow> bool) \<Rightarrow> 's worker_run \<Rightarrow> 's worker_run \<Rightarrow> bool" where
  "worker_steps W A = (worker_step W A)\<^sup>*\<^sup>*"

lemma worker_steps_more: "worker_steps W A R R' \<Longrightarrow> worker_step W A R' R'' \<Longrightarrow> worker_steps W A R R''"
  by (simp add: worker_steps_def)

lemma worker_steps_reachable:
  assumes "worker_steps W A R R'" "worker_reachable W A start R"
  shows "worker_reachable W A start R'"
  using assms unfolding worker_steps_def
  by (induction rule: rtranclp_induct) (auto intro: worker_reachable.step)

lemma observe_all_steps:
  "run_phase R = Attempting n \<Longrightarrow> worker_steps W A R (observe_all ps R) \<and> run_phase (observe_all ps R) = Attempting n"
proof (induction ps arbitrary: R)
  case (Cons p ps)
  let ?R = "on_progress p (R\<lparr>run_seen := run_seen R @ [p]\<rparr>)"
  have "worker_step W A R ?R" by (rule progress[OF Cons.prems])
  moreover have "run_phase ?R = Attempting n"
    using hands_over_on_progress[of "R\<lparr>run_seen := run_seen R @ [p]\<rparr>" p] Cons.prems by (simp add: hands_over_def)
  ultimately show ?case using Cons.IH[of ?R]
    by (auto simp: observe_all_def worker_steps_def intro: converse_rtranclp_into_rtranclp)
qed (simp add: observe_all_def worker_steps_def)

text \<open>The actor serves all commands of the queue without an error.\<close>

fun serve_all ::
    "'s prepared_persistence option \<Rightarrow> persistence_command list \<Rightarrow> persistence_state \<Rightarrow> 's \<Rightarrow> cursor
      \<Rightarrow> (conversation_delta list \<times> 's) option" where
  "serve_all pers [] ps s c = Some ([], s)"
| "serve_all pers (cmd # cmds) ps s c =
     (case persist_command pers cmd ps s c of
        Some (Inr (ps, ds), s, c) \<Rightarrow> map_option (\<lambda>(es, s). (ds @ es, s)) (serve_all pers cmds ps s c)
      | _ \<Rightarrow> None)"

lemma serve_all_steps:
  "run_open R \<Longrightarrow> run_queue R = cmds \<Longrightarrow>
   serve_all (worker_persistence W) cmds (run_actor R) (run_store R) (run_cursor R) = Some (ds, s) \<Longrightarrow>
     \<exists>R'. worker_steps W A R R' \<and> run_phase R' = run_phase R \<and> run_seen R' = run_seen R \<and> run_store R' = s
       \<and> run_outbox R' = run_outbox R @ map WorkerSession ds
       \<and> run_ack R' = (if CmdFlush \<in> set cmds then Some (Ok ()) else run_ack R)"
proof (induction cmds arbitrary: R ds)
  case (Cons cmd cmds)
  from Cons.prems(3) obtain ps ds1 s1 c1 ds2 where
    cmd: "persist_command (worker_persistence W) cmd (run_actor R) (run_store R) (run_cursor R) = Some (Ok (ps, ds1), s1, c1)"
    and rest: "serve_all (worker_persistence W) cmds ps s1 c1 = Some (ds2, s)" and ds: "ds = ds1 @ ds2"
    by (auto split: option.splits sum.splits)
  let ?R = "actor_done (worker_show_error W) cmd cmds (Ok (ps, ds1)) (R\<lparr>run_store := s1, run_cursor := c1\<rparr>)"
  have step: "worker_step W A R ?R" by (rule actor[OF Cons.prems(1,2) cmd])
  have IH: "run_open ?R" "run_queue ?R = cmds" "serve_all (worker_persistence W) cmds (run_actor ?R) (run_store ?R) (run_cursor ?R) = Some (ds2, s)"
    using Cons.prems(1) rest by (simp_all add: actor_done_def)
  from Cons.IH[OF IH] obtain R' where "worker_steps W A ?R R'" "run_phase R' = run_phase ?R"
    "run_seen R' = run_seen ?R" "run_store R' = s" "run_outbox R' = run_outbox ?R @ map WorkerSession ds2"
    "run_ack R' = (if CmdFlush \<in> set cmds then Some (Ok ()) else run_ack ?R)"
    by blast
  with step show ?case
    by (intro exI[of _ R']) (auto simp: actor_done_def ds worker_steps_def intro: converse_rtranclp_into_rtranclp)
qed (auto simp: worker_steps_def)

text \<open>A turn that starts, reports \<open>ps\<close>, ends with \<open>outcome\<close> and is flushed.\<close>

definition turn_up_to_flush :: "'s \<Rightarrow> cursor \<Rightarrow> loop_progress list \<Rightarrow> nat \<Rightarrow> attempt_outcome \<Rightarrow> 's worker_run" where
  "turn_up_to_flush s c ps attempts outcome =
     conclude_attempt attempts 0 outcome
       (observe_all ps ((new_run s c)\<lparr>run_queue := [CmdTurnStarted], run_phase := Attempting 0\<rparr>))"

lemma turn_up_to_flush_steps:
  assumes "turn_up_to_flush s c ps (worker_attempts W) outcome = R" "A 0 ps outcome" "outcome \<noteq> CancelledAfterGrace"
    "run_seen (observe_all ps ((new_run s c)\<lparr>run_queue := [CmdTurnStarted], run_phase := Attempting 0\<rparr>)) = ps"
    "run_phase R = Flushing ev" "run_open R" "length (run_queue R) < session_persistence_queue_capacity"
  shows "worker_steps W A (new_run s c) (R\<lparr>run_queue := run_queue R @ [CmdFlush], run_phase := AwaitingFlush ev\<rparr>)"
proof -
  let ?R1 = "(new_run s c)\<lparr>run_queue := [CmdTurnStarted], run_phase := Attempting 0\<rparr>"
  have "worker_step W A (new_run s c) ?R1"
    using begin_turn[of "new_run s c" W A] by (simp add: new_run_def)
  with observe_all_steps[of ?R1 0 W A ps] have r2: "worker_steps W A (new_run s c) (observe_all ps ?R1)"
    "run_phase (observe_all ps ?R1) = Attempting 0"
    by (auto simp: worker_steps_def intro: converse_rtranclp_into_rtranclp)
  from worker_steps_more[OF r2(1) attempt_ends[OF r2(2), of A outcome W]] assms(1-4)
  have "worker_steps W A (new_run s c) R" by (auto simp: turn_up_to_flush_def)
  from worker_steps_more[OF this flush_sent[OF assms(5-7)]] show ?thesis .
qed

lemma turn_up_to_flush_reachable:
  assumes "turn_up_to_flush s c ps (worker_attempts W) outcome = R" "A 0 ps outcome" "outcome \<noteq> CancelledAfterGrace"
    "run_seen (observe_all ps ((new_run s c)\<lparr>run_queue := [CmdTurnStarted], run_phase := Attempting 0\<rparr>)) = ps"
    "run_phase R = Flushing ev" "run_open R" "length (run_queue R) < session_persistence_queue_capacity"
    "run_actor R = new_persistence_state" "run_store R = s" "run_cursor R = c"
    "serve_all (worker_persistence W) (run_queue R @ [CmdFlush]) new_persistence_state s c = Some (ds, s')"
  shows "\<exists>R'. worker_reachable W A (s, c) R' \<and> run_phase R' = AwaitingFlush ev \<and> run_ack R' = Some (Ok ())
     \<and> run_seen R' = run_seen R \<and> run_outbox R' = run_outbox R @ map WorkerSession ds \<and> run_store R' = s'"
proof -
  let ?R = "R\<lparr>run_queue := run_queue R @ [CmdFlush], run_phase := AwaitingFlush ev\<rparr>"
  have "worker_reachable W A (s, c) (new_run s c)" using worker_reachable.start[of W A "(s, c)"] by simp
  from worker_steps_reachable[OF turn_up_to_flush_steps[of s c ps W outcome R A ev, OF assms(1-7)] this]
  have reach: "worker_reachable W A (s, c) ?R" .
  have "run_open ?R" "run_queue ?R = run_queue R @ [CmdFlush]"
    "serve_all (worker_persistence W) (run_queue R @ [CmdFlush]) (run_actor ?R) (run_store ?R) (run_cursor ?R) = Some (ds, s')"
    using assms(6-) by simp_all
  from serve_all_steps[OF this, of A] obtain R' where "worker_steps W A ?R R'" "run_phase R' = run_phase ?R"
    "run_seen R' = run_seen ?R" "run_store R' = s'" "run_outbox R' = run_outbox ?R @ map WorkerSession ds"
    "run_ack R' = (if CmdFlush \<in> set (run_queue R @ [CmdFlush]) then Some (Ok ()) else run_ack ?R)" by blast
  with worker_steps_reachable[OF _ reach] show ?thesis by auto
qed

section \<open>Codecs for the sample turns\<close>

lemma made_id [simp]: "entry_id (made n es k) = short_entry_id (of_nat (Suc n))"
  by (simp add: made_def)

definition codec_of :: "entry_kind list \<Rightarrow> codec" where
  "codec_of kinds = codec_for (made_all 0 [e_header] kinds)"

lemma made_all_ids:
  "e \<in> set (made_all n es kinds) \<Longrightarrow> (\<forall>d\<in>set es. (\<forall>c\<in>set (entry_id d). is_scalar c \<and> 32 \<le> c \<and> c \<noteq> 125)) \<Longrightarrow>
     c \<in> set (entry_id e) \<Longrightarrow> is_scalar c \<and> 32 \<le> c \<and> c \<noteq> 125"
proof (induction kinds arbitrary: n es)
  case (Cons k ks)
  from short_entry_id_char have "\<forall>c\<in>set (short_entry_id u). is_scalar c \<and> 32 \<le> c \<and> c \<noteq> 125" for u
    by (fastforce simp: is_scalar_def)
  with Cons.IH[of "Suc n" "es @ [made n es k]"] Cons.prems show ?case by auto
qed auto

lemma codec_of_ok:
  assumes "distinct (map entry_id (made_all 0 [e_header] kinds))"
  shows "codec_ok (codec_of kinds)"
proof -
  have "\<forall>c\<in>set (entry_id e_header). is_scalar c \<and> 32 \<le> c \<and> c \<noteq> 125"
    by (simp add: sample_entries lit_def is_scalar_def)
  with made_all_ids[of _ 0 "[e_header]" kinds] have "encodes (codec_of kinds) e" if "e \<in> set (made_all 0 [e_header] kinds)" for e
    unfolding codec_of_def using that assms by (intro codec_for_encodes) auto
  then show ?thesis by (auto simp: codec_ok_def) (auto simp: codec_of_def codec_for_def split: if_splits)
qed

lemma codec_of_to_json: "e \<in> set (made_all 0 [e_header] kinds) \<Longrightarrow> to_json (codec_of kinds) e \<noteq> None"
  by (simp add: codec_of_def codec_for_def)

lemma sample_ids:
  "entry_id e_header = lit ''header''" "short_entry_id u \<noteq> lit ''header''" "lit ''header'' \<noteq> short_entry_id u"
  "distinct [short_entry_id 1, short_entry_id 2, short_entry_id 3, short_entry_id 4, short_entry_id 5]"
proof -
  show "entry_id e_header = lit ''header''" by (simp add: sample_entries)
  show "short_entry_id u \<noteq> lit ''header''" "lit ''header'' \<noteq> short_entry_id u"
    using short_ids_fresh(1) by (fast, metis)
  show "distinct [short_entry_id 1, short_entry_id 2, short_entry_id 3, short_entry_id 4, short_entry_id 5]"
    by (simp add: short_entry_id_eq_iff)
qed

definition kinds_answered :: "entry_kind list" where
  "kinds_answered = start_kinds @ [Item reply0, TranscriptReplay (ReplayMessage ReplayAssistant (lit ''hi''))]"

definition kinds_cut :: "entry_kind list" where
  "kinds_cut = start_kinds
     @ [Item asks0, Item repair0, TranscriptReplay (ReplayToolResult tool_execution_interrupted)]"

lemma codecs_ok: "codec_ok (codec_of kinds_answered)" "codec_ok (codec_of kinds_cut)"
  using sample_ids by (auto intro!: codec_of_ok simp: kinds_answered_def kinds_cut_def start_kinds_def)

lemma header_show: "displays [e_header] []"
  using query_no_items[OF header_log]
  by (fastforce simp: displays_def query_items_eq and_then_eq_Ok resolved_item_of_def item_of_def compaction_of_def sample_entries)

lemma header_in_made: "e_header \<in> set (made_all 0 [e_header] kinds)"
proof -
  have "set es \<subseteq> set (made_all n es kinds)" for n es
    by (induction kinds arbitrary: n es) fastforce+
  from this[of "[e_header]" 0] show ?thesis by simp
qed

lemma store_of_shows:
  "stored_in (local_holds (env_of (codec_of kinds))) (\<lambda>st sid. local_entries (st, sid)) (store_of (codec_of kinds)) 7 []"
proof -
  from store_of_holds[of "codec_of kinds"] codec_of_to_json[OF header_in_made] obtain h
    where "open_ok (codec_of kinds) (store_of (codec_of kinds)) 7 h" "accepted h = [e_header]" by (auto simp: holds_now_def)
  then show ?thesis using header_show
    by (auto simp: stored_in_def local_holds_def local_open_def open_entries clean_fault_def)
qed

section \<open>The two runs\<close>

definition seen_answered :: "loop_progress list" where
  "seen_answered = [ProviderTurnStarted, ProviderContextItem reply0]"

definition seen_cut :: "loop_progress list" where
  "seen_cut = [ProviderTurnStarted, ProviderContextItem asks0]"

lemma start_now:
  assumes "set (made_all 0 [e_header] start_kinds) \<subseteq> set (made_all 0 [e_header] kinds)"
  shows "\<exists>st'. persist_command (Some (persistence_of (codec_of kinds))) CmdTurnStarted new_persistence_state
      (store_of (codec_of kinds)) (at_step 0)
      = Some (Ok (started0, [DeltaTurnStarted (Some 7) (Some (short_entry_id 2))]), st', at_step 2)
    \<and> holds_now (codec_of kinds) es2 st' \<and> counts_nothing (codec_of kinds) st'"
proof (rule turn_start_now)
  show "holds_now (codec_of kinds) [e_header] (store_of (codec_of kinds))"
    using codec_of_to_json header_in_made by (intro store_of_holds) auto
  show "may_append (codec_of kinds) 0 [e_header] (ConfigChange config0)"
    "may_append (codec_of kinds) 1 (made_all 0 [e_header] [ConfigChange config0]) (Item user0)"
    using assms sample_ids codec_of_to_json
    by (auto simp: may_append_def entry_ids_def start_kinds_def user0_def item_text_def has_tool_call_def)
qed

lemma asks_replay:
  "transcript_replay_items_from_context_item asks0 started0 = []"
  "transcript_replay_items_from_context_item repair0 started0 = [ReplayToolResult tool_execution_interrupted]"
  "transcript_replay_items_from_context_item reply0 started0 = [ReplayMessage ReplayAssistant (lit ''hi'')]"
  by (simp_all add: transcript_replay_items_from_context_item_def asks0_def repair0_def reply0_def Let_def
      assistant_with_tool_calls_def assistant_with_parts_def started0_def new_persistence_state_def
      tool_execution_interrupted_def summary_text_from_blocks_def)
    (simp_all add: lit_def utrim_def is_whitespace_def)

lemma serve_answered:
  "\<exists>st'. serve_all (Some (persistence_of (codec_of kinds_answered)))
     [CmdTurnStarted, CmdContextItem reply0, CmdFlush] new_persistence_state (store_of (codec_of kinds_answered)) (at_step 0)
     = Some ([DeltaTurnStarted (Some 7) (Some (short_entry_id 2)), DeltaContextItem (Some (short_entry_id 3)) reply0], st')"
proof -
  let ?C = "codec_of kinds_answered"
  from start_now[of kinds_answered] obtain st1 where s1:
    "persist_command (Some (persistence_of ?C)) CmdTurnStarted new_persistence_state (store_of ?C) (at_step 0)
      = Some (Ok (started0, [DeltaTurnStarted (Some 7) (Some (short_entry_id 2))]), st1, at_step 2)"
    "holds_now ?C es2 st1" by (auto simp: kinds_answered_def start_kinds_def)
  have "may_append ?C 2 es2 (Item reply0)" "may_append ?C (Suc 2) (es2 @ [made 2 es2 (Item reply0)]) (TranscriptReplay (ReplayMessage ReplayAssistant (lit ''hi'')))"
    using sample_ids codec_of_to_json[of _ kinds_answered]
    by (auto simp: may_append_def entry_ids_def start_kinds_def es2_def kinds_answered_def reply0_def assistant_with_parts_def has_tool_call_def numeral_2_eq_2)
  from item_replay_now[OF s1(2) this(1) _ asks_replay(3) this(2)] obtain st2 where s2:
    "persist_command (Some (persistence_of ?C)) (CmdContextItem reply0) started0 st1 (at_step 2)
      = Some (Ok (started0, [DeltaContextItem (Some (short_entry_id (of_nat (Suc 2)))) reply0]), st2, at_step (Suc (Suc 2)))"
    "\<exists>es. holds_now ?C es st2" "counts_nothing ?C st2" by (auto simp: started0_def)
  then obtain es where "holds_now ?C es st2" by blast
  from flush_command_now[OF this s2(3), of started0 "at_step (Suc (Suc 2))"] obtain st3 where
    "persist_command (Some (persistence_of ?C)) CmdFlush started0 st2 (at_step (Suc (Suc 2))) = Some (Ok (started0, []), st3, at_step (Suc (Suc 2)))"
    by (auto simp: started0_def)
  with s1(1) s2(1) show ?thesis by (simp del: persist_command.simps)
qed

lemma serve_cut:
  "\<exists>ds st'. serve_all (Some (persistence_of (codec_of kinds_cut)))
     [CmdTurnStarted, CmdContextItem asks0, CmdContextItem repair0, CmdFlush] new_persistence_state
     (store_of (codec_of kinds_cut)) (at_step 0) = Some (ds, st')"
proof -
  let ?C = "codec_of kinds_cut" and ?rp = "ReplayToolResult tool_execution_interrupted"
  let ?es3 = "es2 @ [made 2 es2 (Item asks0)]"
  from start_now[of kinds_cut] obtain st1 where s1:
    "persist_command (Some (persistence_of ?C)) CmdTurnStarted new_persistence_state (store_of ?C) (at_step 0)
      = Some (Ok (started0, [DeltaTurnStarted (Some 7) (Some (short_entry_id 2))]), st1, at_step 2)"
    "holds_now ?C es2 st1" by (auto simp: kinds_cut_def start_kinds_def)
  have may: "may_append ?C 2 es2 (Item asks0)" "may_append ?C (Suc 2) ?es3 (Item repair0)"
    "may_append ?C (Suc (Suc 2)) (?es3 @ [made (Suc 2) ?es3 (Item repair0)]) (TranscriptReplay ?rp)"
    using sample_ids codec_of_to_json[of _ kinds_cut]
    by (auto simp: may_append_def entry_ids_def start_kinds_def es2_def kinds_cut_def asks0_def repair0_def
        assistant_with_tool_calls_def assistant_with_parts_def has_tool_call_def numeral_2_eq_2)
  have sid: "actor_session_id started0 = Some 7" by (simp add: started0_def)
  from item_now[OF s1(2) may(1) sid asks_replay(1)] obtain st2 where s2:
    "persist_command (Some (persistence_of ?C)) (CmdContextItem asks0) started0 st1 (at_step 2)
      = Some (Ok (started0, [DeltaContextItem (Some (short_entry_id (of_nat (Suc 2)))) asks0]), st2, at_step (Suc 2))"
    "holds_now ?C ?es3 st2" by auto
  from item_replay_now[OF s2(2) may(2) sid asks_replay(2) may(3)] obtain st3 where s3:
    "persist_command (Some (persistence_of ?C)) (CmdContextItem repair0) started0 st2 (at_step (Suc 2))
      = Some (Ok (started0, [DeltaContextItem (Some (short_entry_id (of_nat (Suc (Suc 2))))) repair0]), st3, at_step (Suc (Suc (Suc 2))))"
    "\<exists>es. holds_now ?C es st3" "counts_nothing ?C st3" by auto
  then obtain es where "holds_now ?C es st3" by blast
  from flush_command_now[OF this s3(3) sid, of "at_step (Suc (Suc (Suc 2)))"] obtain st4 where
    "persist_command (Some (persistence_of ?C)) CmdFlush started0 st3 (at_step (Suc (Suc (Suc 2))))
      = Some (Ok (started0, []), st4, at_step (Suc (Suc (Suc 2))))" by blast
  with s1(1) s2(1) s3(1) show ?thesis by (simp del: persist_command.simps)
qed

text \<open>The loop of the answered turn.\<close>

definition env_answers :: "(unit, unit) loop_env" where
  "env_answers = env0\<lparr>env_stream := \<lambda>_ w. StreamEnds (Ok completion0) w\<rparr>"

lemma env_answers_run:
  "\<exists>c s. run_tool_loop env_answers prompt0 () = Some (Inr c, s, ())
     \<and> emitted s = seen_answered \<and> response_items (response c) = [reply0]"
  unfolding run_tool_loop_def
  apply (subst iterate_loop_step)
  apply (simp add: env_answers_def env0_def prompt0_def loop_step_def start_loop_def stream_provider_turn_def
      at_now_def completion0_def is_tool_call_def Let_def finish_loop_def split: prod.splits)
  apply (simp add: append_provider_context_items_def start_provider_turn_def complete_provider_turn_def Let_def
      emit_def new_turn_state_def mark_request_started_def observe_response_tool_calls_completed_def
      assistant_with_parts_def extract_tool_calls_def seen_answered_def reply0_def)
  done

lemmas run_eval =
  turn_up_to_flush_def observe_all_def conclude_attempt_def on_progress_def try_send_session_persistence_def
  new_run_def session_persistence_queue_capacity_def tell_progress_def tell_def

text \<open>The answered turn, up to the moment when the actor has everything still to do.\<close>

lemma answered_steps:
  "\<exists>R resp m t. worker_steps (worker_of (codec_of kinds_answered)) (attempt_of_loop env_answers prompt0 [])
       (new_run (store_of (codec_of kinds_answered)) (at_step 0)) R
     \<and> run_phase R = AwaitingFlush (WorkerFinished resp m t) \<and> run_open R \<and> run_outbox R = []
     \<and> run_queue R = [CmdTurnStarted, CmdContextItem reply0, CmdFlush] \<and> run_actor R = new_persistence_state
     \<and> run_store R = store_of (codec_of kinds_answered) \<and> run_cursor R = at_step 0 \<and> response_items resp = [reply0]"
proof -
  from env_answers_run obtain c s where run: "run_tool_loop env_answers prompt0 () = Some (Inr c, s, ())"
    "emitted s = seen_answered" "response_items (response c) = [reply0]" by blast
  then have attempt: "attempt_of_loop env_answers prompt0 [] 0 seen_answered (AttemptCompleted c)"
    using attempt_of_loop.completed by metis
  let ?C = "codec_of kinds_answered" and ?ev = "WorkerFinished (response c) (metrics c) (upstream_tokens c)"
  let ?R = "turn_up_to_flush (store_of ?C) (at_step 0) seen_answered 1 (AttemptCompleted c)"
  have queue: "run_queue ?R = [CmdTurnStarted, CmdContextItem reply0]" "run_outbox ?R = []"
    "run_phase ?R = Flushing ?ev" "run_open ?R" "run_actor ?R = new_persistence_state" "run_store ?R = store_of ?C"
    "run_cursor ?R = at_step 0" "run_seen (observe_all seen_answered ((new_run (store_of ?C) (at_step 0))
       \<lparr>run_queue := [CmdTurnStarted], run_phase := Attempting 0\<rparr>)) = seen_answered"
    by (simp_all add: run_eval seen_answered_def)
  have room: "length (run_queue ?R) < session_persistence_queue_capacity"
    unfolding queue(1) by (simp add: session_persistence_queue_capacity_def)
  have "worker_steps (worker_of ?C) (attempt_of_loop env_answers prompt0 []) (new_run (store_of ?C) (at_step 0))
      (?R\<lparr>run_queue := run_queue ?R @ [CmdFlush], run_phase := AwaitingFlush ?ev\<rparr>)"
    by (rule turn_up_to_flush_steps[where A = "attempt_of_loop env_answers prompt0 []", OF _ attempt _ queue(8,3,4) room])
       simp_all
  with queue run(3) show ?thesis
    by (intro exI[of _ "?R\<lparr>run_queue := run_queue ?R @ [CmdFlush], run_phase := AwaitingFlush ?ev\<rparr>"]
        exI[of _ "response c"] exI[of _ "metrics c"] exI[of _ "upstream_tokens c"]) simp
qed

lemma answered_run:
  "\<exists>R resp m t. worker_reachable (worker_of (codec_of kinds_answered)) (attempt_of_loop env_answers prompt0 [])
       (store_of (codec_of kinds_answered), at_step 0) R
     \<and> run_phase R = AwaitingFlush (WorkerFinished resp m t) \<and> run_ack R = Some (Ok ()) \<and> \<not> overflowed R
     \<and> response_items resp = [reply0]"
proof -
  let ?W = "worker_of (codec_of kinds_answered)" and ?A = "attempt_of_loop env_answers prompt0 []"
    and ?start = "(store_of (codec_of kinds_answered), at_step 0)"
  from answered_steps obtain R resp m t where R: "worker_steps ?W ?A (new_run (fst ?start) (snd ?start)) R"
    "run_phase R = AwaitingFlush (WorkerFinished resp m t)" "run_open R" "run_outbox R = []"
    "run_queue R = [CmdTurnStarted, CmdContextItem reply0, CmdFlush]" "run_actor R = new_persistence_state"
    "run_store R = fst ?start" "run_cursor R = snd ?start" "response_items resp = [reply0]"
    by auto
  from serve_answered obtain ds st' where "serve_all (worker_persistence ?W) [CmdTurnStarted, CmdContextItem reply0, CmdFlush]
      (run_actor R) (run_store R) (run_cursor R) = Some (ds, st')" by (simp only: R(6-8) worker_of_fields fst_conv snd_conv) blast
  from serve_all_steps[OF R(3,5) this, of ?A] obtain R' where "worker_steps ?W ?A R R'" "run_phase R' = run_phase R"
    "run_outbox R' = run_outbox R @ map WorkerSession ds" "run_ack R' = Some (Ok ())" by auto
  with R worker_steps_reachable[OF _ worker_steps_reachable[OF R(1) worker_reachable.start]]
  have "worker_reachable ?W ?A ?start R'" "run_phase R' = AwaitingFlush (WorkerFinished resp m t)"
    "run_ack R' = Some (Ok ())" "\<not> overflowed R'" by (auto simp: overflowed_def)
  with R(9) show ?thesis by blast
qed

lemma cut_run:
  "\<exists>R. worker_reachable (worker_of (codec_of kinds_cut)) (\<lambda>_ _ _. True) (store_of (codec_of kinds_cut), at_step 0) R
     \<and> run_phase R = AwaitingFlush (WorkerProgress EvInterrupted) \<and> run_ack R = Some (Ok ()) \<and> \<not> overflowed R
     \<and> seen_items R = [asks0]"
proof -
  let ?C = "codec_of kinds_cut" and ?ev = "WorkerProgress EvInterrupted"
  let ?R = "turn_up_to_flush (store_of ?C) (at_step 0) seen_cut 1 AttemptCancelled"
  have queue: "run_queue ?R = [CmdTurnStarted, CmdContextItem asks0, CmdContextItem repair0]" "run_outbox ?R = []"
    "run_phase ?R = Flushing ?ev" "run_open ?R" "run_actor ?R = new_persistence_state" "run_store ?R = store_of ?C"
    "run_cursor ?R = at_step 0" "run_seen ?R = seen_cut" "run_seen (observe_all seen_cut ((new_run (store_of ?C) (at_step 0))
       \<lparr>run_queue := [CmdTurnStarted], run_phase := Attempting 0\<rparr>)) = seen_cut"
    by (simp_all add: run_eval seen_cut_def send_repair_items_def take_repair_items_def ledger_observe_def
        asks0_def repair0_def assistant_with_tool_calls_def assistant_with_parts_def call0_def)
  from serve_cut obtain ds st' where "serve_all (Some (persistence_of ?C))
     [CmdTurnStarted, CmdContextItem asks0, CmdContextItem repair0, CmdFlush] new_persistence_state (store_of ?C) (at_step 0)
     = Some (ds, st')" by blast
  with turn_up_to_flush_reachable[of "store_of ?C" "at_step 0" seen_cut "worker_of ?C" AttemptCancelled ?R
      "\<lambda>_ _ _. True" ?ev ds st'] queue
  obtain R' where R': "worker_reachable (worker_of ?C) (\<lambda>_ _ _. True) (store_of ?C, at_step 0) R'"
    "run_phase R' = AwaitingFlush ?ev" "run_ack R' = Some (Ok ())" "run_outbox R' = map WorkerSession ds" "run_seen R' = seen_cut"
    by (auto simp: session_persistence_queue_capacity_def simp del: serve_all.simps)
  from R'(4) have "\<not> overflowed R'" by (auto simp: overflowed_def)
  moreover have "seen_items R' = [asks0]" by (simp add: seen_items_def R'(5) seen_cut_def)
  ultimately show ?thesis using R' by blast
qed

end
