(* ===== verification/Worker_Properties.thy ===== *)
theory Worker_Properties
  imports Worker_Samples
begin

text \<open>
  The properties of a turn that is persisted by the worker over the store on disk.
\<close>

section \<open>What is on disk\<close>

text \<open>The open session shows these items under these ids.\<close>

definition session_shows :: "local_env \<Rightarrow> local_store \<Rightarrow> session_id \<Rightarrow> (ustring \<times> conversation_item) list \<Rightarrow> bool" where
  "session_shows E = stored_in (local_holds E) (\<lambda>st sid. local_entries (st, sid))"

text \<open>Reading the file of the session, as the next start of the program would, shows them.\<close>

definition file_shows :: "local_env \<Rightarrow> local_store \<Rightarrow> session_id \<Rightarrow> (ustring \<times> conversation_item) list \<Rightarrow> bool" where
  "file_shows E st sid xs \<longleftrightarrow>
     (\<exists>h es. map_of (recorders st) sid = Some h
        \<and> load_file (env_codec E) (map_of (store_disk st) (handle_path h)) = Ok es \<and> displays es xs)"

definition persists_turn :: "local_env \<Rightarrow> local_store worker_env \<Rightarrow> session_id \<Rightarrow> local_store prepared_persistence \<Rightarrow> bool" where
  "persists_turn E W sid p \<longleftrightarrow>
     worker_persistence W = Some p \<and> persist_store p = local_vtable E \<and> persist_session_id p = Some sid"

text \<open>The flush behind an event was answered, and no command was dropped.\<close>

definition concludes :: "'s worker_run \<Rightarrow> worker_event \<Rightarrow> bool" where
  "concludes R ev \<longleftrightarrow> run_phase R = AwaitingFlush ev \<and> run_ack R = Some (Ok ()) \<and> \<not> overflowed R"

text \<open>The turn that was told to the consumer, with the items \<open>ys\<close>, follows \<open>xs\<close> on disk.\<close>

definition turn_on_disk ::
    "local_env \<Rightarrow> local_store prepared_persistence \<Rightarrow> session_id \<Rightarrow> (ustring \<times> conversation_item) list
      \<Rightarrow> local_store worker_run \<Rightarrow> conversation_item list \<Rightarrow> bool" where
  "turn_on_disk E p sid xs R ys \<longleftrightarrow>
     (\<exists>ids cs. length ids = length (persist_user_items p) \<and> map snd cs = ys
        \<and> told_deltas R = DeltaTurnStarted (Some sid) (last_opt ids) # map item_delta cs
        \<and> file_shows E (run_store R) sid (xs @ zip ids (persist_user_items p) @ cs))"

lemma settled_file_shows:
  assumes "local_settled st sid" "session_shows E st sid xs" "codec_ok (env_codec E)"
  shows "file_shows E st sid xs"
proof -
  from assms(2) obtain h where h: "open_ok (env_codec E) st sid h" "displays (local_entries (st, sid)) xs"
    by (auto simp: session_shows_def stored_in_def local_holds_def local_open_def)
  with assms(1) open_loads[OF h(1) assms(3)] show ?thesis
    by (auto simp: file_shows_def open_entries local_settled_def open_ok_def)
qed

lemma turn_in_local: "persists_turn E W sid p \<Longrightarrow> local_backend.turn_in E W sid p"
  by (simp add: persists_turn_def local_backend.turn_in_def)

lemma concluded_on_disk:
  assumes "worker_reachable W attempt_can (st0, c0) R" "persists_turn E W sid p" "session_shows E st0 sid xs"
    "concludes R ev" "codec_ok (env_codec E)"
  shows "turn_on_disk E p sid xs R (handed_items R) \<and> settles attempt_can R ev \<and> sound R"
proof -
  note run = assms(1) turn_in_local[OF assms(2)] assms(3)[unfolded session_shows_def]
  from assms(4) have c: "run_phase R = AwaitingFlush ev" "run_ack R = Some (Ok ())" "\<not> overflowed R"
    by (simp_all add: concludes_def)
  from local_backend.concluded_turn[OF run(1,2) _ c] run(3)
  have settled: "local_settled (run_store R) sid"
    and shown: "turn_shown (local_holds E) (\<lambda>st sid. local_entries (st, sid)) p sid xs (run_store R) (told_deltas R) (told_items R)"
    and more: "settles attempt_can R ev" "handed_items R = told_items R" "sound R" by auto
  from settled_file_shows[OF settled _ assms(5)] shown more show ?thesis
    by (auto simp: turn_shown_def turn_on_disk_def session_shows_def)
qed

section \<open>The properties\<close>

lemma sample_turn: "persists_turn (env_of C) (worker_of C) 7 (persistence_of C)"
  by (simp add: persists_turn_def)

lemma sample_shows: "session_shows (env_of (codec_of kinds)) (store_of (codec_of kinds)) 7 []"
  using store_of_shows by (simp add: session_shows_def)

text \<open>Only the last step of a run tells that the turn has finished.\<close>

lemma finish_told_last:
  assumes "worker_step W attempt_can R R'" "WorkerFinished resp m t \<in> set (run_outbox R')"
  shows "WorkerFinished resp m t \<in> set (run_outbox R)
    \<or> run_phase R = AwaitingFlush (WorkerFinished resp m t) \<and> run_ack R = Some (Ok ())
      \<and> R' = (tell (WorkerFinished resp m t) R)\<lparr>run_phase := Ended\<rparr>"
  using assms(1)
proof (cases rule: worker_step.cases)
  case (progress n p)
  with hands_over_on_progress[of "R\<lparr>run_seen := run_seen R @ [p]\<rparr>" p] assms(2) show ?thesis
    by (auto simp: hands_over_def)
next
  case (attempt_ends n outcome)
  with hands_over_repairs[of R] assms(2) show ?thesis
    by (auto simp: hands_over_def conclude_attempt_def tell_def split: attempt_outcome.splits if_splits)
next
  case (actor cmd rest r s c)
  with assms(2) show ?thesis by (auto simp: actor_done_def tell_failure_def tell_def cancel_turn_def split: sum.splits)
qed (use assms(2) in \<open>auto simp: tell_failure_def tell_def cancel_turn_def\<close>)

definition finished_inv ::
    "local_env \<Rightarrow> local_store prepared_persistence \<Rightarrow> session_id \<Rightarrow> (ustring \<times> conversation_item) list
      \<Rightarrow> local_store worker_run \<Rightarrow> bool" where
  "finished_inv E p sid xs R \<longleftrightarrow>
     (\<forall>resp m t. WorkerFinished resp m t \<in> set (run_outbox R) \<longrightarrow>
        run_phase R = Ended \<and> run_queue R = []
        \<and> (\<not> overflowed R \<longrightarrow> turn_on_disk E p sid xs R (response_items resp)))"

lemma turn_on_disk_cong:
  "turn_on_disk E p sid xs R ys \<Longrightarrow> told_deltas R' = told_deltas R \<Longrightarrow> run_store R' = run_store R \<Longrightarrow>
     turn_on_disk E p sid xs R' ys"
  by (simp add: turn_on_disk_def)

lemma finished_inv_after:
  assumes "worker_step W attempt_can R R'" "finished_inv E p sid xs R"
    "WorkerFinished resp m t \<in> set (run_outbox R)"
  shows "run_phase R' = Ended \<and> run_queue R' = []
    \<and> (\<not> overflowed R' \<longrightarrow> turn_on_disk E p sid xs R' (response_items resp))"
proof -
  from assms(2,3) have R: "run_phase R = Ended" "run_queue R = []"
    "\<not> overflowed R \<longrightarrow> turn_on_disk E p sid xs R (response_items resp)" by (auto simp: finished_inv_def)
  from assms(1) R(1,2) have "R' = cancel_turn R \<or> (\<exists>e. R' = tell (WorkerProgress e) R)"
    by (cases rule: worker_step.cases) auto
  then have "run_phase R' = run_phase R" "run_queue R' = run_queue R" "run_store R' = run_store R"
    "told_deltas R' = told_deltas R" "overflowed R \<Longrightarrow> overflowed R'"
    by (auto simp: cancel_turn_def tell_def told_deltas_def filter_map_append overflowed_def)
  with R turn_on_disk_cong show ?thesis by metis
qed

lemma finished_inv_reachable:
  assumes "worker_reachable W (attempt_of_loop L q provider) (st0, c0) R" "persists_turn E W sid p"
    "session_shows E st0 sid xs" "codec_ok (env_codec E)"
  shows "finished_inv E p sid xs R"
  using assms(1)
proof induction
  case start
  then show ?case by (simp add: finished_inv_def new_run_def)
next
  case (step R R')
  show ?case
    unfolding finished_inv_def
  proof (intro allI impI)
    fix resp m t assume told: "WorkerFinished resp m t \<in> set (run_outbox R')"
    from finish_told_last[OF step.hyps(2) told]
    show "run_phase R' = Ended \<and> run_queue R' = []
        \<and> (\<not> overflowed R' \<longrightarrow> turn_on_disk E p sid xs R' (response_items resp))"
    proof (elim disjE conjE)
      assume "WorkerFinished resp m t \<in> set (run_outbox R)"
      with finished_inv_after[OF step.hyps(2) step.IH] show ?thesis by blast
    next
      assume R: "run_phase R = AwaitingFlush (WorkerFinished resp m t)" "run_ack R = Some (Ok ())"
        and R': "R' = (tell (WorkerFinished resp m t) R)\<lparr>run_phase := Ended\<rparr>"
      from local_backend.reachable_turn[OF step.hyps(1) turn_in_local[OF assms(2)], of xs] assms(3) R
      have queue: "run_queue R = []" by (auto simp: session_shows_def queue_inv_def)
      have "turn_on_disk E p sid xs R (response_items resp)" if "\<not> overflowed R'"
      proof -
        from that R R' have "concludes R (WorkerFinished resp m t)" by (simp add: concludes_def overflowed_def tell_def)
        from concluded_on_disk[OF step.hyps(1) assms(2,3) this assms(4)] finished_items show ?thesis by metis
      qed
      with queue turn_on_disk_cong show ?thesis by (auto simp: R' tell_def told_deltas_def filter_map_append)
    qed
  qed
qed

text \<open>C4: Once the worker has told that the turn is finished, the file of the session holds the
  conversation from before, the message of the user and exactly the items of the response, under the
  ids that were told: reading the file back shows them.  (A command dropped from the full queue is
  told as an error first.)\<close>

lemma finished_turn_is_on_disk:
  assumes "worker_reachable W (attempt_of_loop L q provider) (st0, c0) R" "persists_turn E W sid p"
    "session_shows E st0 sid xs" "codec_ok (env_codec E)"
    "WorkerFinished resp m t \<in> set (run_outbox R)" "\<not> overflowed R"
  shows "turn_on_disk E p sid xs R (response_items resp)"
  using finished_inv_reachable[OF assms(1-4)] assms(5,6) by (auto simp: finished_inv_def)

lemma finished_turn_is_on_disk_witness:
  "\<exists>R. turn_on_disk (env_of (codec_of kinds_answered)) (persistence_of (codec_of kinds_answered)) 7 [] R [reply0]"
proof -
  from answered_run obtain R resp m t where R:
    "worker_reachable (worker_of (codec_of kinds_answered)) (attempt_of_loop env_answers prompt0 [])
       (store_of (codec_of kinds_answered), at_step 0) R"
    "run_phase R = AwaitingFlush (WorkerFinished resp m t)" "run_ack R = Some (Ok ())" "\<not> overflowed R"
    "response_items resp = [reply0]" by blast
  let ?R = "(tell (WorkerFinished resp m t) R)\<lparr>run_phase := Ended\<rparr>"
  have "WorkerFinished resp m t \<in> set (run_outbox ?R)" "\<not> overflowed ?R"
    using R(4) by (simp_all add: tell_def overflowed_def)
  moreover have "codec_ok (env_codec (env_of (codec_of kinds_answered)))" by (simp add: codecs_ok(1))
  ultimately have "turn_on_disk (env_of (codec_of kinds_answered)) (persistence_of (codec_of kinds_answered)) 7 [] ?R (response_items resp)"
    using finished_turn_is_on_disk[OF worker_reachable.step[OF R(1) flushed[OF R(2,3)]] sample_turn sample_shows] by blast
  with R(5) show ?thesis by auto
qed





end
