(* ===== verification/Conversation.thy ===== *)
theory Conversation
  imports Conversation_Worker
begin

text \<open>
  The conversation as the provider sees it, kept in memory
  (\<^verbatim>\<open>conversation-runtime/src/conversation/provider_conversation\<close>), the side of the worker that the
  coordinator polls (\<^verbatim>\<open>session/event_apply.rs\<close> and the methods of \<open>ConversationWorker\<close>), and the loop
  that drains the worker's events into the conversation (\<^verbatim>\<open>terminal-app/src/runtime/mod.rs\<close>).
\<close>

section \<open>Data\<close>

datatype provider_kind =
    OpenAiCompatible | OpenAiResponses | OpenAi | Anthropic | Gemini | DeepSeek | Together | Groq
  | Fireworks | Xai | Ollama | OllamaCloud | Cohere | Zai | BigModel | Aliyun | Mimo | Nebius | Vertex
  | GithubCopilot

record provider_endpoint =
  endpoint_kind :: provider_kind
  endpoint_base_url :: "ustring option"
  endpoint_api_key :: "ustring option"
  endpoint_api_key_env :: "ustring option"

record turn_request =
  turn_provider_id :: ustring
  turn_model_id :: ustring
  turn_endpoint :: provider_endpoint
  turn_message :: conversation_item
  turn_transcript_message :: "transcript_user_message option"

record turn_options =
  appended_user_texts :: "ustring list"
  option_transcript_message :: "transcript_user_message option"
  option_replay_after_user :: "replay_item list"
  option_observations :: "denv_observation list option"

record persisted_item =
  persisted_id :: "ustring option"
  persisted_value :: conversation_item

record 's conversation_persistence =
  conv_store :: "'s session_vtable"
  conv_session_id :: "session_id option"
  conv_header :: session_header

record 's provider_conversation =
  conv_system_prompt :: "ustring option"
  conv_prelude :: "prompt_prelude option"
  conv_denv_config :: "denv_session_config option"
  conv_observations :: "denv_observation list"
  persisted_history :: "persisted_item list"
  pending_user_items :: "conversation_item list"
  pending_observations :: "denv_observation list option"
  conv_upstream_tokens :: "nat option"
  conv_cache_key :: "ustring option"
  conv_persistence :: "'s conversation_persistence option"

record 's prepared_request =
  prepared_provider_id :: ustring
  prepared_model_id :: ustring
  prepared_endpoint :: provider_endpoint
  prepared_items :: "conversation_item list"
  prepared_cache_key :: "ustring option"
  prepared_prelude :: "prompt_prelude option"
  prepared_persistence :: "'s prepared_persistence option"

datatype conversation_error =
    NonUserTurnMessage
  | PendingTurnAlreadyActive
  | ConversationStoreError store_error
  | MissingSessionId

section \<open>The conversation\<close>

definition normalize_system_prompt :: "ustring \<Rightarrow> ustring option" where
  "normalize_system_prompt prompt = (let p = utrim prompt in if p = [] then None else Some p)"

definition restored_effective_system_prompt :: "resolved_state \<Rightarrow> ustring option" where
  "restored_effective_system_prompt st =
     Option.bind (latest_config st) (\<lambda>cfg.
       Option.bind (or_else (Option.bind (prompt_prelude_snapshot cfg) effective_system_prompt) (system_prompt cfg))
         normalize_system_prompt)"

definition from_resolved_session_store ::
    "(session_id \<Rightarrow> ustring) \<Rightarrow> 's session_vtable \<Rightarrow> session_header \<Rightarrow> session_id option \<Rightarrow> resolved_state
      \<Rightarrow> 's provider_conversation" where
  "from_resolved_session_store show_id V h sid st =
     \<lparr>conv_system_prompt = restored_effective_system_prompt st,
      conv_prelude = Option.bind (latest_config st) prompt_prelude_snapshot,
      conv_denv_config = Option.bind (latest_config st) denv_config,
      conv_observations = (case latest_config st of Some cfg \<Rightarrow> denv_observations cfg | None \<Rightarrow> []),
      persisted_history =
        map (\<lambda>r. \<lparr>persisted_id = Some (resolved_entry_id r), persisted_value = resolved_value r\<rparr>) (items st),
      pending_user_items = [], pending_observations = None, conv_upstream_tokens = None,
      conv_cache_key = Some (show_id (case sid of Some i \<Rightarrow> i | None \<Rightarrow> header_session_id h)),
      conv_persistence = Some \<lparr>conv_store = V, conv_session_id = sid, conv_header = h\<rparr>\<rparr>"

definition clear_conversation ::
    "(session_id \<Rightarrow> ustring) \<Rightarrow> session_id \<Rightarrow> 's provider_conversation \<Rightarrow> 's provider_conversation" where
  "clear_conversation show_id fresh V =
     \<lparr>conv_system_prompt = None, conv_prelude = None, conv_denv_config = None, conv_observations = [],
      persisted_history = [], pending_user_items = [], pending_observations = None, conv_upstream_tokens = None,
      conv_cache_key = (case conv_persistence V of None \<Rightarrow> None | Some _ \<Rightarrow> Some (show_id fresh)),
      conv_persistence =
        map_option (\<lambda>p. p\<lparr>conv_header := (conv_header p)\<lparr>header_session_id := fresh\<rparr>, conv_session_id := None\<rparr>)
          (conv_persistence V)\<rparr>"

definition set_system_prompt :: "ustring option \<Rightarrow> 's provider_conversation \<Rightarrow> 's provider_conversation" where
  "set_system_prompt prompt V =
     V\<lparr>conv_system_prompt := Option.bind prompt normalize_system_prompt, conv_prelude := None,
       conv_upstream_tokens := None\<rparr>"

definition set_prompt_prelude :: "prompt_prelude option \<Rightarrow> 's provider_conversation \<Rightarrow> 's provider_conversation" where
  "set_prompt_prelude prelude V =
     V\<lparr>conv_system_prompt := Option.bind (Option.bind prelude effective_system_prompt) normalize_system_prompt,
       conv_prelude := prelude, conv_upstream_tokens := None\<rparr>"

definition set_denv_config :: "denv_session_config option \<Rightarrow> 's provider_conversation \<Rightarrow> 's provider_conversation" where
  "set_denv_config cfg V = V\<lparr>conv_denv_config := cfg, conv_upstream_tokens := None\<rparr>"

definition set_session_id :: "session_id \<Rightarrow> 's provider_conversation \<Rightarrow> 's provider_conversation" where
  "set_session_id sid V =
     V\<lparr>conv_persistence := map_option (\<lambda>p. p\<lparr>conv_session_id := Some sid\<rparr>) (conv_persistence V)\<rparr>"

definition conversation_session_id :: "'s provider_conversation \<Rightarrow> session_id option" where
  "conversation_session_id V = Option.bind (conv_persistence V) conv_session_id"

definition history :: "'s provider_conversation \<Rightarrow> conversation_item list" where
  "history V = map persisted_value (persisted_history V)"

definition provider_items :: "'s provider_conversation \<Rightarrow> conversation_item list" where
  "provider_items V =
     (case conv_system_prompt V of Some p \<Rightarrow> [item_text System p] | None \<Rightarrow> []) @ history V"

definition provider_items_with_pending :: "'s provider_conversation \<Rightarrow> conversation_item list \<Rightarrow> conversation_item list" where
  "provider_items_with_pending V us = provider_items V @ us"

definition context_budget_probe_items :: "'s provider_conversation \<Rightarrow> conversation_item list" where
  "context_budget_probe_items V =
     (case conv_system_prompt V of Some p \<Rightarrow> [item_text System p] | None \<Rightarrow> [])
     @ map persisted_value (persisted_history V) @ pending_user_items V"

section \<open>A turn\<close>

fun message_blocks :: "conversation_item \<Rightarrow> content_block list" where
  "message_blocks (Message _ content) = content"
| "message_blocks _ = []"

definition is_text_block :: "content_block \<Rightarrow> bool" where
  "is_text_block b = (case b of Text _ \<Rightarrow> True | _ \<Rightarrow> False)"

definition prepare_provider_user_message ::
    "conversation_item \<Rightarrow> transcript_user_message \<Rightarrow> ustring list \<Rightarrow> conversation_item" where
  "prepare_provider_user_message x m appended =
     (let content =
            (if attachments m = [] \<and> skill_bindings m = [] \<and> custom_prompt_bindings m = []
                \<and> message_content m = text_content x
             then message_blocks x
             else provider_content_with_text m (text_content x));
          texts = takeWhile is_text_block content
      in Message User (texts @ map Text appended @ drop (length texts) content))"

definition prepare_turn_with_options ::
    "turn_request \<Rightarrow> turn_options \<Rightarrow> 's provider_conversation
      \<Rightarrow> (conversation_error + 's prepared_request) \<times> 's provider_conversation" where
  "prepare_turn_with_options t opts V =
     (if item_role (turn_message t) \<noteq> Some User then (Err NonUserTurnMessage, V)
      else if pending_user_items V \<noteq> [] then (Err PendingTurnAlreadyActive, V)
      else
        (let observations =
               (case option_observations opts of Some os \<Rightarrow> os | None \<Rightarrow> conv_observations V);
             m = (case or_else (option_transcript_message opts) (turn_transcript_message t) of
                    Some m \<Rightarrow> m
                  | None \<Rightarrow> \<lparr>message_content = text_content (turn_message t), attachments = [],
                            skill_bindings = [], custom_prompt_bindings = []\<rparr>);
             user = prepare_provider_user_message (turn_message t) m (appended_user_texts opts);
             V' = V\<lparr>pending_user_items := [user], pending_observations := Some observations,
                    conv_upstream_tokens := None\<rparr>
         in (Ok \<lparr>prepared_provider_id = turn_provider_id t, prepared_model_id = turn_model_id t,
                 prepared_endpoint = turn_endpoint t,
                 prepared_items = provider_items_with_pending V' (pending_user_items V'),
                 prepared_cache_key = conv_cache_key V', prepared_prelude = conv_prelude V',
                 prepared_persistence =
                   map_option (\<lambda>p.
                     \<lparr>persist_store = conv_store p, persist_session_id = conv_session_id p,
                      persist_header = conv_header p,
                      persist_config =
                        \<lparr>provider_id = turn_provider_id t, config_model = turn_model_id t,
                         system_prompt = conv_system_prompt V', prompt_prelude_snapshot = conv_prelude V',
                         denv_config = conv_denv_config V', denv_observations = observations\<rparr>,
                      persist_user_items = pending_user_items V',
                      persist_user_message = m,
                      persist_replay_after_user = option_replay_after_user opts\<rparr>)
                     (conv_persistence V')\<rparr>, V')))"

definition prepare_turn ::
    "turn_request \<Rightarrow> 's provider_conversation
      \<Rightarrow> (conversation_error + 's prepared_request) \<times> 's provider_conversation" where
  "prepare_turn t V =
     prepare_turn_with_options t
       \<lparr>appended_user_texts = [], option_transcript_message = None, option_replay_after_user = [],
        option_observations = None\<rparr> V"

fun with_last_id :: "ustring option \<Rightarrow> conversation_item list \<Rightarrow> persisted_item list" where
  "with_last_id i [] = []"
| "with_last_id i [x] = [\<lparr>persisted_id = i, persisted_value = x\<rparr>]"
| "with_last_id i (x # xs) = \<lparr>persisted_id = None, persisted_value = x\<rparr> # with_last_id i xs"

definition commit_pending_user ::
    "ustring option \<Rightarrow> session_id option \<Rightarrow> 's provider_conversation \<Rightarrow> bool \<times> 's provider_conversation" where
  "commit_pending_user i sid V =
     (let V = (case sid of Some s \<Rightarrow> set_session_id s V | None \<Rightarrow> V)
      in if pending_user_items V = [] then (False, V)
         else (True, V\<lparr>persisted_history := persisted_history V @ with_last_id i (pending_user_items V),
                       pending_user_items := [],
                       conv_observations :=
                         (case pending_observations V of Some os \<Rightarrow> os | None \<Rightarrow> conv_observations V),
                       pending_observations := None\<rparr>))"

definition rollback_pending_user :: "'s provider_conversation \<Rightarrow> bool \<times> 's provider_conversation" where
  "rollback_pending_user V =
     (if pending_user_items V = [] then (False, V)
      else (True, V\<lparr>pending_user_items := [], pending_observations := None, conv_upstream_tokens := None\<rparr>))"

definition commit_turn_items :: "persisted_item list \<Rightarrow> 's provider_conversation \<Rightarrow> 's provider_conversation" where
  "commit_turn_items xs V =
     V\<lparr>persisted_history := persisted_history V @ xs,
       conv_upstream_tokens := (if xs = [] then conv_upstream_tokens V else None)\<rparr>"

definition append_items :: "conversation_item list \<Rightarrow> 's provider_conversation \<Rightarrow> 's provider_conversation" where
  "append_items xs V =
     (if xs = [] then V
      else commit_turn_items (map (\<lambda>x. \<lparr>persisted_id = None, persisted_value = x\<rparr>) xs) (V\<lparr>conv_upstream_tokens := None\<rparr>))"

text \<open>The index of the first user message after the retained ones.\<close>

fun truncate_index :: "nat \<Rightarrow> nat \<Rightarrow> persisted_item list \<Rightarrow> nat" where
  "truncate_index retained seen [] = 0"
| "truncate_index retained seen (x # xs) =
     (if item_role (persisted_value x) \<noteq> Some User then Suc (truncate_index retained seen xs)
      else (let seen = sat_add_usize seen 1
            in if retained < seen then 0 else Suc (truncate_index retained seen xs)))"

definition truncate_after_user_turns ::
    "nat \<Rightarrow> 's provider_conversation \<Rightarrow> (session_id \<times> ustring) option \<times> 's provider_conversation" where
  "truncate_after_user_turns retained V =
     (let hist = take (truncate_index retained 0 (persisted_history V)) (persisted_history V);
          leaf = (case Option.bind (last_opt hist) persisted_id of Some i \<Rightarrow> i | None \<Rightarrow> lit ''header'')
      in (map_option (\<lambda>sid. (sid, leaf)) (conversation_session_id V),
          V\<lparr>pending_user_items := [], pending_observations := None, conv_upstream_tokens := None,
            persisted_history := hist\<rparr>))"

section \<open>The worker, seen by the coordinator\<close>

type_synonym target = "ustring \<times> ustring"

text \<open>\<open>consumer_running\<close>: there is a receiver.  What is in it is an argument of the functions below.\<close>

record consumer =
  consumer_running :: bool
  consumer_token :: bool
  consumer_target :: "target option"
  consumer_broker :: broker
  pending_session_id :: "session_id option"
  pending_user_entry_id :: "ustring option"
  session_items :: "persisted_item list"
  consumer_upstream :: "nat option"

definition new_consumer :: consumer where
  "new_consumer =
     \<lparr>consumer_running = False, consumer_token = False, consumer_target = None, consumer_broker = new_broker,
      pending_session_id = None, pending_user_entry_id = None, session_items = [], consumer_upstream = None\<rparr>"

definition start_consumer :: "'s prepared_request \<Rightarrow> consumer \<Rightarrow> consumer" where
  "start_consumer q C =
     C\<lparr>consumer_running := True, consumer_token := True,
       consumer_target := Some (prepared_provider_id q, prepared_model_id q), pending_session_id := None,
       pending_user_entry_id := None, session_items := [], consumer_upstream := None\<rparr>"

text \<open>The first component says whether the token of the turn is cancelled.\<close>

definition reset_after_clear :: "consumer \<Rightarrow> bool \<times> consumer" where
  "reset_after_clear C =
     (consumer_token C,
      C\<lparr>consumer_token := False, consumer_broker := cancel_all (consumer_broker C), consumer_running := False,
        consumer_target := None, pending_session_id := None, pending_user_entry_id := None,
        session_items := [], consumer_upstream := None\<rparr>)"

definition reset_for_context_change :: "consumer \<Rightarrow> bool \<times> consumer" where
  "reset_for_context_change C =
     (case reset_after_clear C of
        (cancels, C) \<Rightarrow> (cancels, C\<lparr>consumer_broker := clear_permission_context (consumer_broker C)\<rparr>))"

definition interrupt_turn :: "consumer \<Rightarrow> (bool \<times> bool) \<times> consumer" where
  "interrupt_turn C =
     (if \<not> consumer_running C then ((False, False), C)
      else ((True, consumer_token C),
            C\<lparr>consumer_token := False, consumer_broker := cancel_all (consumer_broker C)\<rparr>))"

definition clear_runtime_state :: "consumer \<Rightarrow> consumer" where
  "clear_runtime_state C =
     C\<lparr>consumer_running := False, consumer_token := False, consumer_target := None, pending_session_id := None,
       pending_user_entry_id := None, consumer_broker := cancel_all (consumer_broker C)\<rparr>"

fun apply_session_event :: "conversation_delta \<Rightarrow> consumer \<Rightarrow> consumer" where
  "apply_session_event (DeltaTurnStarted sid i) C =
     C\<lparr>pending_session_id := or_else sid (pending_session_id C),
       pending_user_entry_id := or_else i (pending_user_entry_id C)\<rparr>"
| "apply_session_event (DeltaContextItem i x) C =
     C\<lparr>session_items := session_items C @ [\<lparr>persisted_id = i, persisted_value = x\<rparr>]\<rparr>"

definition stopped_text :: ustring where
  "stopped_text = lit ''conversation request stopped before completion''"

text \<open>The events in the receiver, and whether the other end is gone.\<close>

fun receive_event ::
    "bool \<Rightarrow> worker_event list \<Rightarrow> consumer \<Rightarrow> conversation_event option \<times> worker_event list \<times> consumer" where
  "receive_event gone [] C =
     (if gone then (Some (EvFailed stopped_text), [], clear_runtime_state C) else (None, [], C))"
| "receive_event gone (WorkerProgress e # evs) C =
     (Some e, evs, if is_terminal e then clear_runtime_state C else C)"
| "receive_event gone (WorkerSession d # evs) C = receive_event gone evs (apply_session_event d C)"
| "receive_event gone (WorkerFinished r m t # evs) C =
     (Some (EvFinished r m), evs, clear_runtime_state (C\<lparr>consumer_upstream := t\<rparr>))"

definition try_recv_event ::
    "bool \<Rightarrow> worker_event list \<Rightarrow> consumer \<Rightarrow> conversation_event option \<times> worker_event list \<times> consumer" where
  "try_recv_event gone evs C =
     (if consumer_running C then receive_event gone evs C else (None, evs, C))"

section \<open>Draining the worker\<close>

definition reconcile_conversation_updates ::
    "consumer \<Rightarrow> 's provider_conversation \<Rightarrow> consumer \<times> 's provider_conversation" where
  "reconcile_conversation_updates C V =
     (let sid = pending_session_id C; i = pending_user_entry_id C;
          V = (case i of
                 Some entry \<Rightarrow> snd (commit_pending_user (Some entry) sid V)
               | None \<Rightarrow> (case sid of Some s \<Rightarrow> set_session_id s V | None \<Rightarrow> V))
      in (C\<lparr>pending_session_id := None, pending_user_entry_id := None, session_items := []\<rparr>,
          if session_items C = [] then V else commit_turn_items (session_items C) V))"

text \<open>One round of the loop of \<^verbatim>\<open>drain_runtime_events\<close>, up to the mapping of the event.\<close>

definition poll_conversation ::
    "bool \<Rightarrow> worker_event list \<Rightarrow> consumer \<Rightarrow> 's provider_conversation
      \<Rightarrow> (conversation_event \<times> nat option) option \<times> worker_event list \<times> consumer \<times> 's provider_conversation" where
  "poll_conversation gone evs C V =
     (case try_recv_event gone evs C of
        (None, evs, C) \<Rightarrow>
          (case reconcile_conversation_updates C V of (C, V) \<Rightarrow> (None, evs, C, V))
      | (Some e, evs, C) \<Rightarrow>
          (let (tokens, C) = (case e of
                 EvFinished _ _ \<Rightarrow> (consumer_upstream C, C\<lparr>consumer_upstream := None\<rparr>) | _ \<Rightarrow> (None, C));
               (C, V) = reconcile_conversation_updates C V;
               V = (if tokens \<noteq> None then V\<lparr>conv_upstream_tokens := tokens\<rparr> else V);
               V = (if is_terminal e then snd (rollback_pending_user V) else V)
           in (Some (e, tokens), evs, C, V)))"

record 'l context_usage =
  usage_limit :: 'l
  usage_used :: nat

datatype 'l runtime_event =
    RtSystemMessage "target option" ustring
  | RtRetrying "target option" ustring
  | RtOutputTokenEstimate "target option" nat
  | RtInputTokenEstimate "target option" nat
  | RtThinking "target option" bool
  | RtAssistantDelta target ustring
  | RtReasoningDelta target ustring
  | RtToolActivityStarted target tool_activity
  | RtToolActivityUpdated target activity_update
  | RtTerminalUpdated target terminal_snapshot
  | RtPermissionRequested target ustring "permission_option list"
  | RtMessageFinished "target option" loop_response "request_metrics option" "'l context_usage option"
  | RtFailed "target option" ustring
  | RtInterrupted "target option"
  | RtOther

definition missing_target_event :: "ustring \<Rightarrow> 'l runtime_event" where
  "missing_target_event name = RtFailed None (lit ''Conversation target is missing for '' @ name)"

fun runtime_event_from_conversation_event ::
    "target option \<Rightarrow> 'l context_usage option \<Rightarrow> conversation_event \<Rightarrow> 'l runtime_event" where
  "runtime_event_from_conversation_event t u (EvSystemMessage m) = RtSystemMessage t m"
| "runtime_event_from_conversation_event t u (EvRetrying m) = RtRetrying t m"
| "runtime_event_from_conversation_event t u (EvOutputTokenEstimate n) = RtOutputTokenEstimate t n"
| "runtime_event_from_conversation_event t u (EvInputTokenEstimate n) = RtInputTokenEstimate t n"
| "runtime_event_from_conversation_event t u (EvThinking b) = RtThinking t b"
| "runtime_event_from_conversation_event t u (EvAssistantDelta s) =
     (case t of Some t \<Rightarrow> RtAssistantDelta t s | None \<Rightarrow> missing_target_event (lit ''assistant delta''))"
| "runtime_event_from_conversation_event t u (EvReasoningDelta s) =
     (case t of Some t \<Rightarrow> RtReasoningDelta t s | None \<Rightarrow> missing_target_event (lit ''reasoning delta''))"
| "runtime_event_from_conversation_event t u (EvToolActivityStarted a) =
     (case t of Some t \<Rightarrow> RtToolActivityStarted t a | None \<Rightarrow> missing_target_event (lit ''tool activity start''))"
| "runtime_event_from_conversation_event t u (EvToolActivityUpdated a) =
     (case t of Some t \<Rightarrow> RtToolActivityUpdated t a | None \<Rightarrow> missing_target_event (lit ''tool activity update''))"
| "runtime_event_from_conversation_event t u (EvTerminalUpdated s) =
     (case t of Some t \<Rightarrow> RtTerminalUpdated t s | None \<Rightarrow> missing_target_event (lit ''terminal update''))"
| "runtime_event_from_conversation_event t u (EvPermissionRequested i opts) =
     (case t of Some t \<Rightarrow> RtPermissionRequested t i opts | None \<Rightarrow> missing_target_event (lit ''permission request''))"
| "runtime_event_from_conversation_event t u (EvFinished r m) = RtMessageFinished t r m u"
| "runtime_event_from_conversation_event t u (EvFailed m) = RtFailed t m"
| "runtime_event_from_conversation_event t u EvInterrupted = RtInterrupted t"

fun is_runtime_token_estimate :: "'l runtime_event \<Rightarrow> bool" where
  "is_runtime_token_estimate (RtOutputTokenEstimate _ _) = True"
| "is_runtime_token_estimate (RtInputTokenEstimate _ _) = True"
| "is_runtime_token_estimate _ = False"

definition should_defer_for_render_barrier :: "'l runtime_event list \<Rightarrow> 'l runtime_event \<Rightarrow> bool" where
  "should_defer_for_render_barrier batch next_event \<longleftrightarrow>
     (case next_event of RtPermissionRequested _ _ _ \<Rightarrow> True | _ \<Rightarrow> False) \<and> list_ex is_runtime_token_estimate batch"

definition context_usage_for_finished_turn ::
    "(target \<Rightarrow> 'l) \<Rightarrow> target option \<Rightarrow> nat option \<Rightarrow> 'l context_usage option" where
  "context_usage_for_finished_turn limit_for t tokens =
     Option.bind tokens (\<lambda>used. map_option (\<lambda>t. \<lparr>usage_limit = limit_for t, usage_used = used\<rparr>) t)"

record ('s, 'l) drained =
  drained_events :: "'l runtime_event list"
  drained_deferred :: "'l runtime_event list"
  drained_rest :: "worker_event list"
  drained_consumer :: consumer
  drained_conversation :: "'s provider_conversation"

lemma receive_event_length:
  "receive_event gone evs C = (Some e, evs', C') \<Longrightarrow> length evs' < length evs \<or> \<not> consumer_running C' \<and> evs' = []"
proof (induction gone evs C rule: receive_event.induct)
  case (1 gone C)
  then show ?case by (auto simp: clear_runtime_state_def split: if_splits)
qed auto

lemma poll_conversation_less:
  assumes "poll_conversation gone evs C V = (Some x, evs', C', V')"
  shows "length evs' + of_bool (consumer_running C') < length evs + of_bool (consumer_running C)"
proof -
  obtain r rest C1 where t: "try_recv_event gone evs C = (r, rest, C1)" by (rule prod_cases3)
  with assms obtain e where e: "r = Some e" "evs' = rest" "consumer_running C' = consumer_running C1"
    by (auto simp: poll_conversation_def reconcile_conversation_updates_def Let_def
        split: option.splits prod.splits conversation_event.splits)
  from t e(1) have running: "consumer_running C" and "receive_event gone evs C = (Some e, rest, C1)"
    by (auto simp: try_recv_event_def split: if_splits)
  from receive_event_length[OF this(2)] show ?thesis
    using running e by (auto simp: of_bool_def)
qed

text \<open>The loop; \<open>batch\<close> are the events collected before, of this and of the other producers.\<close>

function drain_conversation ::
    "(target \<Rightarrow> 'l) \<Rightarrow> bool \<Rightarrow> 'l runtime_event list \<Rightarrow> worker_event list \<Rightarrow> consumer \<Rightarrow> 's provider_conversation
      \<Rightarrow> ('s, 'l) drained" where
  "drain_conversation limit_for gone batch evs C V =
     (case poll_conversation gone evs C V of
        (None, evs', C', V') \<Rightarrow>
          \<lparr>drained_events = batch, drained_deferred = [], drained_rest = evs', drained_consumer = C',
           drained_conversation = V'\<rparr>
      | (Some (e, tokens), evs', C', V') \<Rightarrow>
          (let ev = runtime_event_from_conversation_event (consumer_target C)
                      (context_usage_for_finished_turn limit_for (consumer_target C) tokens) e
           in if should_defer_for_render_barrier batch ev
              then \<lparr>drained_events = batch, drained_deferred = [ev], drained_rest = evs', drained_consumer = C',
                    drained_conversation = V'\<rparr>
              else drain_conversation limit_for gone (batch @ [ev]) evs' C' V'))"
  by pat_completeness auto
termination
  by (relation "measure (\<lambda>(_, _, _, evs, C, _). length evs + of_bool (consumer_running C))")
     (auto simp only: in_measure prod.case wf_measure dest: poll_conversation_less[OF sym])

end
