(* ===== verification/Turn_System.thy ===== *)
theory Turn_System
  imports Conversation Worker_Stored
begin

text \<open>
  A turn as a whole: the conversation in memory, the coordinator that polls, the worker, its actor and
  the store, side by side.  The conversation in memory is compared with what the worker told and
  with what the store holds.
\<close>

section \<open>The system\<close>

record 's turn_system =
  sys_run :: "'s worker_run"
  sys_read :: nat
  sys_consumer :: consumer
  sys_conversation :: "'s provider_conversation"

definition unread :: "'s turn_system \<Rightarrow> worker_event list" where
  "unread S = drop (sys_read S) (run_outbox (sys_run S))"

text \<open>Worker and actor have dropped their senders.\<close>

definition senders_gone :: "'s turn_system \<Rightarrow> bool" where
  "senders_gone S \<longleftrightarrow>
     run_phase (sys_run S) = Ended \<and> (run_open (sys_run S) \<longrightarrow> run_queue (sys_run S) = [])"

inductive system_step ::
    "'s worker_env \<Rightarrow> (nat \<Rightarrow> loop_progress list \<Rightarrow> attempt_outcome \<Rightarrow> bool) \<Rightarrow> 's turn_system \<Rightarrow> 's turn_system \<Rightarrow> bool"
  for W attempt_can where
  acts: "worker_step W attempt_can (sys_run S) R \<Longrightarrow> system_step W attempt_can S (S\<lparr>sys_run := R\<rparr>)"
| polls: "poll_conversation (senders_gone S) (unread S) (sys_consumer S) (sys_conversation S) = (r, rest, C, V) \<Longrightarrow>
    system_step W attempt_can S
      (S\<lparr>sys_read := length (run_outbox (sys_run S)) - length rest, sys_consumer := C, sys_conversation := V\<rparr>)"
| interrupts: "interrupt_turn (sys_consumer S) = ((b, cancels), C) \<Longrightarrow>
    system_step W attempt_can S
      (S\<lparr>sys_consumer := C, sys_run := (if cancels then cancel_turn (sys_run S) else sys_run S)\<rparr>)"

inductive system_reachable ::
    "'s worker_env \<Rightarrow> (nat \<Rightarrow> loop_progress list \<Rightarrow> attempt_outcome \<Rightarrow> bool) \<Rightarrow> 's turn_system \<Rightarrow> 's turn_system \<Rightarrow> bool"
  for W attempt_can S0 where
  start: "system_reachable W attempt_can S0 S0"
| step: "system_reachable W attempt_can S0 S \<Longrightarrow> system_step W attempt_can S S' \<Longrightarrow> system_reachable W attempt_can S0 S'"

text \<open>The moment after the coordinator has submitted a turn.\<close>

definition submitted ::
    "turn_request \<Rightarrow> turn_options \<Rightarrow> 's provider_conversation \<Rightarrow> consumer \<Rightarrow> 's \<times> cursor
      \<Rightarrow> 's worker_env \<Rightarrow> 's turn_system \<Rightarrow> bool" where
  "submitted t opts V C start W S \<longleftrightarrow>
     (\<exists>q V'. prepare_turn_with_options t opts V = (Ok q, V') \<and> worker_persistence W = prepared_persistence q
        \<and> S = \<lparr>sys_run = new_run (fst start) (snd start), sys_read = 0, sys_consumer = start_consumer q C,
               sys_conversation = V'\<rparr>)"

lemma system_worker_reachable:
  assumes "system_reachable W attempt_can S0 S" "sys_run S0 = new_run (fst start) (snd start)"
  shows "worker_reachable W attempt_can start (sys_run S)"
  using assms(1)
proof induction
  case start
  then show ?case by (simp add: assms(2) worker_reachable.start)
next
  case (step S S')
  from step.hyps(2) show ?case
  proof cases
    case (acts R)
    with step.IH show ?thesis by (auto intro: worker_reachable.step)
  next
    case (interrupts b cancels C)
    with step.IH worker_step.cancel show ?thesis by (auto intro: worker_reachable.step)
  qed (use step.IH in simp)
qed

section \<open>What the worker tells\<close>

definition is_item :: "conversation_delta \<Rightarrow> bool" where
  "is_item d \<longleftrightarrow> delta_item d \<noteq> None"

text \<open>The start of the turn comes first, and once.\<close>

fun well_told :: "conversation_delta list \<Rightarrow> bool" where
  "well_told [] = True"
| "well_told (DeltaTurnStarted sid i # ds) = list_all is_item ds"
| "well_told (DeltaContextItem i x # ds) = False"

lemma well_told_snoc: "well_told ds \<Longrightarrow> ds \<noteq> [] \<Longrightarrow> list_all is_item es \<Longrightarrow> well_told (ds @ es)"
  by (cases ds rule: well_told.cases) auto

definition told_inv :: "'s worker_run \<Rightarrow> bool" where
  "told_inv R \<longleftrightarrow> well_told (told_deltas R) \<and> (has_persisted_turn_start (run_actor R) \<longleftrightarrow> told_deltas R \<noteq> [])"

lemma persist_command_told:
  assumes "persist_command pers cmd ps s c = Some (Ok (ps', ds), s', c')" "has_persisted_turn_start ps \<longleftrightarrow> cmd \<noteq> CmdTurnStarted"
  shows "if cmd = CmdTurnStarted then \<exists>sid i. ds = [DeltaTurnStarted sid i] else list_all is_item ds"
  using assms
  by (cases cmd; auto dest!: persist_replay_Ok
      simp: persist_turn_start_def persist_context_item_def with_active_session_def is_item_def
        persist_tool_activity_started_def persist_tool_activity_update_def persist_terminal_snapshot_def Let_def
      split: option.splits sum.splits if_splits elim!: persist_thenE)

lemma told_inv_step:
  assumes "worker_step W attempt_can R R'" "flow_inv attempt_can R" "queue_inv R" "told_inv R"
  shows "told_inv R'"
  using step_same_store[OF assms(1,2)]
proof (elim disjE exE conjE)
  assume "same_store R R'"
  with assms(4) show ?thesis by (simp add: told_inv_def same_store_def)
next
  fix cmd rest r s c
  assume actor: "run_open R" "run_queue R = cmd # rest"
    "persist_command (worker_persistence W) cmd (run_actor R) (run_store R) (run_cursor R) = Some (r, s, c)"
    and R': "R' = actor_done (worker_show_error W) cmd rest r (R\<lparr>run_store := s, run_cursor := c\<rparr>)"
  have first: "has_persisted_turn_start (run_actor R) \<longleftrightarrow> cmd \<noteq> CmdTurnStarted"
    using assms(3) actor(1,2) by (auto simp: queue_inv_def split: if_splits)
  show ?thesis
  proof (cases r)
    case (Inl err)
    with assms(4) show ?thesis
      by (simp add: R' told_inv_def actor_done_def tell_failure_def tell_def cancel_turn_def told_deltas_def filter_map_append)
  next
    case (Inr q)
    then obtain ps ds where q: "r = Ok (ps, ds)" by (cases q) auto
    from persist_command_told[OF actor(3)[unfolded q] first] persist_command_Ok(1)[OF actor(3)[unfolded q]] assms(4) first
    show ?thesis
      by (auto simp: R' q told_inv_def told_deltas_def actor_done_def filter_map_append well_told_snoc split: if_splits) 
  qed
qed

section \<open>What the coordinator reads\<close>

fun delta_persisted :: "conversation_delta \<Rightarrow> persisted_item option" where
  "delta_persisted (DeltaContextItem i x) = Some \<lparr>persisted_id = i, persisted_value = x\<rparr>"
| "delta_persisted _ = None"

definition started_id :: "conversation_delta list \<Rightarrow> ustring option" where
  "started_id ds = (case ds of DeltaTurnStarted _ i # _ \<Rightarrow> i | _ \<Rightarrow> None)"

definition read_deltas :: "'s turn_system \<Rightarrow> conversation_delta list" where
  "read_deltas S = filter_map session_delta (take (sys_read S) (run_outbox (sys_run S)))"

lemma apply_items:
  assumes "list_all is_item ds"
  shows "fold apply_session_event ds C = C\<lparr>session_items := session_items C @ filter_map delta_persisted ds\<rparr>"
  using assms
proof (induction ds arbitrary: C)
  case (Cons d ds)
  then show ?case by (cases d) (auto simp: is_item_def)
qed simp

lemma receive_effect:
  "receive_event gone evs C = (r, rest, C') \<Longrightarrow>
     \<exists>read. evs = read @ rest \<and>
       (r = None \<and> C' = fold apply_session_event (filter_map session_delta read) C
        \<or> (\<exists>e. r = Some e \<and> \<not> is_terminal e \<and> C' = fold apply_session_event (filter_map session_delta read) C)
        \<or> (\<exists>e t. r = Some e \<and> is_terminal e
             \<and> C' = clear_runtime_state ((fold apply_session_event (filter_map session_delta read) C)\<lparr>consumer_upstream := t\<rparr>)))"
proof (induction gone evs C rule: receive_event.induct)
  case (1 gone C)
  then show ?case by (auto split: if_splits intro!: exI[of _ "consumer_upstream C"])
next
  case (2 gone e evs C)
  then show ?case
    by (auto split: if_splits intro!: exI[of _ "[WorkerProgress e]"] exI[of _ "consumer_upstream C"])
next
  case (3 gone d evs C)
  then obtain read where "evs = read @ rest" and
    "r = None \<and> C' = fold apply_session_event (filter_map session_delta read) (apply_session_event d C)
     \<or> (\<exists>e. r = Some e \<and> \<not> is_terminal e \<and> C' = fold apply_session_event (filter_map session_delta read) (apply_session_event d C))
     \<or> (\<exists>e t. r = Some e \<and> is_terminal e
          \<and> C' = clear_runtime_state ((fold apply_session_event (filter_map session_delta read) (apply_session_event d C))\<lparr>consumer_upstream := t\<rparr>))"
    by fastforce
  then show ?case by (intro exI[of _ "WorkerSession d # read"]) simp
next
  case (4 gone r' m t evs C)
  then show ?case by (auto intro!: exI[of _ "[WorkerFinished r' m t]"])
qed

text \<open>What the turn has added to the conversation in memory.\<close>

definition user_part :: "conversation_item \<Rightarrow> conversation_delta list \<Rightarrow> persisted_item list" where
  "user_part u ds =
     (case started_id ds of None \<Rightarrow> [] | Some i \<Rightarrow> [\<lparr>persisted_id = Some i, persisted_value = u\<rparr>])"

definition added :: "conversation_item \<Rightarrow> conversation_delta list \<Rightarrow> persisted_item list" where
  "added u ds = user_part u ds @ filter_map delta_persisted ds"

lemma well_told_prefix: "well_told (ds @ es) \<Longrightarrow> well_told ds"
  by (cases ds rule: well_told.cases) auto

lemma well_told_rest: "well_told (ds @ es) \<Longrightarrow> ds \<noteq> [] \<Longrightarrow> list_all is_item es"
  by (cases ds rule: well_told.cases) auto

lemma started_id_append: "started_id (ds @ es) = (if ds = [] then started_id es else started_id ds)"
  by (cases ds) (simp_all add: started_id_def)

lemma added_Nil [simp]: "added u [] = []" "started_id [] = None"
  by (simp_all add: added_def user_part_def started_id_def)

lemma added_append: "ds \<noteq> [] \<Longrightarrow> added u (ds @ es) = added u ds @ filter_map delta_persisted es"
  by (simp add: added_def user_part_def started_id_append filter_map_append)

lemma added_started:
  "added u (DeltaTurnStarted sid i # ds) =
     (case i of None \<Rightarrow> [] | Some i \<Rightarrow> [\<lparr>persisted_id = Some i, persisted_value = u\<rparr>]) @ filter_map delta_persisted ds"
  by (simp add: added_def user_part_def started_id_def)

definition clean_consumer :: "consumer \<Rightarrow> bool" where
  "clean_consumer C \<longleftrightarrow> pending_session_id C = None \<and> pending_user_entry_id C = None \<and> session_items C = []"

definition memory_now ::
    "conversation_item \<Rightarrow> persisted_item list \<Rightarrow> conversation_delta list \<Rightarrow> 's provider_conversation \<Rightarrow> bool" where
  "memory_now u h ds V \<longleftrightarrow>
     persisted_history V = h @ added u ds \<and> pending_user_items V = (if started_id ds = None then [u] else [])"

lemma session_id_fields [simp]:
  "persisted_history (set_session_id s V) = persisted_history V"
  "pending_user_items (set_session_id s V) = pending_user_items V"
  by (simp_all add: set_session_id_def)

lemma reconcile_cleans:
  "reconcile_conversation_updates C V = (C', V') \<Longrightarrow>
     clean_consumer C' \<and> consumer_running C' = consumer_running C \<and> consumer_upstream C' = consumer_upstream C"
  by (auto simp: reconcile_conversation_updates_def clean_consumer_def Let_def)

text \<open>Reconciling after a block of events without an end.\<close>

lemma reconcile_goes_on:
  assumes "clean_consumer C" "memory_now u h ds V" "well_told (ds @ new)"
    "reconcile_conversation_updates (fold apply_session_event new C) V = (C', V')"
  shows "memory_now u h (ds @ new) V'"
proof (cases "ds = []")
  case True
  show ?thesis
  proof (cases new rule: well_told.cases)
    case 1
    with assms True show ?thesis
      by (auto simp: reconcile_conversation_updates_def clean_consumer_def memory_now_def Let_def)
  next
    case (2 sid i rest)
    with assms(3) True have "list_all is_item rest" by simp
    with assms(1,2,4) 2 True show ?thesis
      by (auto simp: reconcile_conversation_updates_def clean_consumer_def memory_now_def Let_def apply_items
          commit_pending_user_def commit_turn_items_def or_else_def added_started started_id_def
          split: option.splits if_splits)
  next
    case (3 i x rest)
    with assms(3) True show ?thesis by simp
  qed
next
  case False
  with assms(3) have "list_all is_item new" by (rule well_told_rest)
  with assms(1,2,4) False show ?thesis
    by (auto simp: reconcile_conversation_updates_def clean_consumer_def memory_now_def Let_def apply_items
        commit_turn_items_def added_append started_id_append split: if_splits)
qed

lemma apply_session_items:
  "session_items (fold apply_session_event ds C) = session_items C @ filter_map delta_persisted ds"
proof (induction ds arbitrary: C)
  case (Cons d ds)
  then show ?case by (cases d) simp_all
qed simp

text \<open>Reconciling and rolling back when the block has ended the turn.\<close>

lemma reconcile_ends:
  assumes "clean_consumer C" "memory_now u h ds V"
    "reconcile_conversation_updates (clear_runtime_state ((fold apply_session_event new C)\<lparr>consumer_upstream := t\<rparr>)) V = (C', V')"
  shows "persisted_history V' = h @ added u ds @ filter_map delta_persisted new"
  using assms
  by (auto simp: reconcile_conversation_updates_def clean_consumer_def memory_now_def Let_def apply_session_items
      clear_runtime_state_def commit_turn_items_def)

lemma apply_session_running [simp]:
  "consumer_running (fold apply_session_event ds C) = consumer_running C"
proof (induction ds arbitrary: C)
  case (Cons d ds)
  then show ?case by (cases d) simp_all
qed simp

lemma rollback_fields:
  "pending_user_items (snd (rollback_pending_user V)) = []"
  "persisted_history (snd (rollback_pending_user V)) = persisted_history V"
  by (auto simp: rollback_pending_user_def)

lemma memory_now_tokens [simp]: "memory_now u h ds (V\<lparr>conv_upstream_tokens := t\<rparr>) = memory_now u h ds V"
  by (simp add: memory_now_def)

lemma reconcile_upstream:
  "reconcile_conversation_updates (C\<lparr>consumer_upstream := t\<rparr>) V =
     (case reconcile_conversation_updates C V of (C, V) \<Rightarrow> (C\<lparr>consumer_upstream := t\<rparr>, V))"
  by (simp add: reconcile_conversation_updates_def Let_def)

lemma taken_tokens:
  "\<exists>tokens q. (case e of EvFinished _ _ \<Rightarrow> (consumer_upstream C, C\<lparr>consumer_upstream := None\<rparr>) | _ \<Rightarrow> (None, C))
     = (tokens, C\<lparr>consumer_upstream := q\<rparr>)"
proof (cases "\<exists>r m. e = EvFinished r m")
  case False
  then show ?thesis by (cases e) (auto intro!: exI[of _ "consumer_upstream C"])
qed auto

text \<open>One poll of a running worker.\<close>

lemma poll_running:
  assumes "poll_conversation gone evs C V = (r, rest, C', V')" "consumer_running C" "clean_consumer C"
    "memory_now u h ds V" "well_told (ds @ filter_map session_delta evs)"
  shows "\<exists>read. evs = read @ rest \<and>
     (consumer_running C' \<and> clean_consumer C' \<and> memory_now u h (ds @ filter_map session_delta read) V'
      \<or> \<not> consumer_running C' \<and> clean_consumer C' \<and> pending_user_items V' = []
        \<and> persisted_history V' = h @ added u ds @ filter_map delta_persisted (filter_map session_delta read))"
proof -
  obtain ev rest1 C1 where t: "receive_event gone evs C = (ev, rest1, C1)" by (rule prod_cases3)
  from receive_effect[OF t] obtain read where read: "evs = read @ rest1"
    and eff: "ev = None \<and> C1 = fold apply_session_event (filter_map session_delta read) C
        \<or> (\<exists>e. ev = Some e \<and> \<not> is_terminal e \<and> C1 = fold apply_session_event (filter_map session_delta read) C)
        \<or> (\<exists>e t. ev = Some e \<and> is_terminal e
             \<and> C1 = clear_runtime_state ((fold apply_session_event (filter_map session_delta read) C)\<lparr>consumer_upstream := t\<rparr>))"
    by blast
  let ?new = "filter_map session_delta read"
  from assms(5) have told: "well_told (ds @ ?new)"
    unfolding read filter_map_append append_assoc[symmetric] by (rule well_told_prefix)
  obtain C2 V2 where rec: "reconcile_conversation_updates C1 V = (C2, V2)" by (rule prod.exhaust)
  note cleans = reconcile_cleans[OF rec]
  from eff show ?thesis
  proof (elim disjE exE conjE)
    assume ev: "ev = None" and C1: "C1 = fold apply_session_event ?new C"
    with assms(1,2) t rec have "rest = rest1" "C' = C2" "V' = V2"
      by (simp_all add: poll_conversation_def try_recv_event_def)
    with read cleans reconcile_goes_on[OF assms(3,4) told rec[unfolded C1]] assms(2) show ?thesis
      by (intro exI[of _ read]) (simp add: C1)
  next
    fix e assume ev: "ev = Some e" "\<not> is_terminal e" and C1: "C1 = fold apply_session_event ?new C"
    from ev(2) have "(case e of EvFinished _ _ \<Rightarrow> (consumer_upstream C1, C1\<lparr>consumer_upstream := None\<rparr>) | _ \<Rightarrow> (None, C1)) = (None, C1)"
      by (cases e) simp_all
    with ev assms(1,2) t rec have "rest = rest1" "C' = C2" "V' = V2"
      by (simp_all add: poll_conversation_def try_recv_event_def)
    with read cleans reconcile_goes_on[OF assms(3,4) told rec[unfolded C1]] assms(2) show ?thesis
      by (intro exI[of _ read]) (simp add: C1)
  next
    fix e t' assume ev: "ev = Some e" "is_terminal e"
      and C1: "C1 = clear_runtime_state ((fold apply_session_event ?new C)\<lparr>consumer_upstream := t'\<rparr>)"
    obtain tokens q where tok: "(case e of EvFinished _ _ \<Rightarrow> (consumer_upstream C1, C1\<lparr>consumer_upstream := None\<rparr>) | _ \<Rightarrow> (None, C1))
        = (tokens, C1\<lparr>consumer_upstream := q\<rparr>)"
      using taken_tokens by blast
    from reconcile_ends[OF assms(3,4) rec[unfolded C1]] have hist: "persisted_history V2 = h @ added u ds @ filter_map delta_persisted ?new" .
    from ev tok assms(1,2) t rec have out: "rest = rest1" "C' = C2\<lparr>consumer_upstream := q\<rparr>"
      "V' = snd (rollback_pending_user (if tokens \<noteq> None then V2\<lparr>conv_upstream_tokens := tokens\<rparr> else V2))"
      by (simp_all add: poll_conversation_def try_recv_event_def reconcile_upstream)
    have "\<not> consumer_running C2" using cleans by (simp add: C1 clear_runtime_state_def)
    with out hist cleans read show ?thesis
      by (intro exI[of _ read]) (simp add: rollback_fields clean_consumer_def)
  qed
qed

lemma poll_idle:
  assumes "poll_conversation gone evs C V = (r, rest, C', V')" "\<not> consumer_running C" "clean_consumer C"
  shows "rest = evs \<and> \<not> consumer_running C' \<and> clean_consumer C' \<and> V' = V"
  using assms
  by (auto simp: poll_conversation_def try_recv_event_def reconcile_conversation_updates_def clean_consumer_def Let_def)

section \<open>The conversation in memory follows\<close>

lemma outbox_grows:
  assumes "worker_step W attempt_can R R'"
  shows "\<exists>evs. run_outbox R' = run_outbox R @ evs"
  using assms
proof (cases rule: worker_step.cases)
  case (progress n p)
  with hands_over_on_progress[of "R\<lparr>run_seen := run_seen R @ [p]\<rparr>" p] show ?thesis by (auto simp: hands_over_def)
next
  case (attempt_ends n outcome)
  with hands_over_repairs[of R] show ?thesis
    by (auto simp: hands_over_def conclude_attempt_def tell_def split: attempt_outcome.splits)
next
  case (actor cmd rest r s c)
  then show ?thesis by (auto simp: actor_done_def tell_failure_def tell_def cancel_turn_def split: sum.splits)
qed (auto simp: tell_failure_def tell_def cancel_turn_def)

definition memory_inv_of ::
    "conversation_item \<Rightarrow> persisted_item list \<Rightarrow> bool \<Rightarrow> 's turn_system \<Rightarrow> bool" where
  "memory_inv_of u h committed S \<longleftrightarrow>
     (let V = sys_conversation S; C = sys_consumer S; ds = read_deltas S
      in sys_read S \<le> length (run_outbox (sys_run S)) \<and> clean_consumer C
         \<and> (committed \<longrightarrow> started_id ds \<noteq> None)
         \<and> (if consumer_running C then memory_now u h ds V
            else pending_user_items V = []
              \<and> (persisted_history V = h @ added u ds
                 \<or> \<not> committed \<and> persisted_history V = h @ filter_map delta_persisted ds)))"

lemma read_deltas_grow: "\<exists>later. told_deltas (sys_run S) = read_deltas S @ later"
  unfolding read_deltas_def told_deltas_def
  by (rule exI[of _ "filter_map session_delta (unread S)"]) (simp add: unread_def flip: filter_map_append)

lemma memory_inv_step:
  assumes "system_step W attempt_can S S'" "memory_inv_of u h committed S" "well_told (told_deltas (sys_run S))"
  shows "memory_inv_of u h committed S'"
  using assms(1)
proof cases
  case (acts R)
  from outbox_grows[OF acts(2)] obtain evs where "run_outbox R = run_outbox (sys_run S) @ evs" by blast
  with assms(2) acts(1) show ?thesis by (simp add: memory_inv_of_def read_deltas_def Let_def)
next
  case (interrupts b cancels C)
  with assms(2) show ?thesis
    by (auto simp: memory_inv_of_def read_deltas_def Let_def interrupt_turn_def clean_consumer_def cancel_turn_def
        split: if_splits)
next
  case (polls r rest C V)
  let ?out = "run_outbox (sys_run S)" and ?ds = "read_deltas S"
  from assms(2) have k: "sys_read S \<le> length ?out" and clean: "clean_consumer (sys_consumer S)"
    and com: "committed \<Longrightarrow> started_id ?ds \<noteq> None" by (simp_all add: memory_inv_of_def Let_def)
  show ?thesis
  proof (cases "consumer_running (sys_consumer S)")
    case True
    with assms(2) have now: "memory_now u h ?ds (sys_conversation S)" by (simp add: memory_inv_of_def Let_def)
    have "well_told (?ds @ filter_map session_delta (unread S))"
      using assms(3) by (simp add: read_deltas_def told_deltas_def unread_def flip: filter_map_append)
    from poll_running[OF polls(2) True clean now this] obtain read where read: "unread S = read @ rest"
      and eff: "consumer_running C \<and> clean_consumer C \<and> memory_now u h (?ds @ filter_map session_delta read) V
      \<or> \<not> consumer_running C \<and> clean_consumer C \<and> pending_user_items V = []
        \<and> persisted_history V = h @ added u ?ds @ filter_map delta_persisted (filter_map session_delta read)"
      by blast
    from arg_cong[OF read, of length] have "length ?out - sys_read S = length read + length rest" by (simp add: unread_def)
    with k have len: "length ?out - length rest = sys_read S + length read" by arith
    have "take (length ?out - length rest) ?out = take (sys_read S) ?out @ read"
      using read by (simp add: len take_add unread_def)
    then have ds: "read_deltas S' = ?ds @ filter_map session_delta read"
      by (simp add: polls(1) read_deltas_def filter_map_append)
    have com': "committed \<Longrightarrow> ?ds \<noteq> []" using com by auto
    have old: "added u ?ds @ filter_map delta_persisted es = added u (?ds @ es)
        \<or> \<not> committed \<and> added u ?ds @ filter_map delta_persisted es = filter_map delta_persisted (?ds @ es)" for es
      using com' by (cases "?ds = []") (auto simp: added_append)
    show ?thesis
      using eff old[of "filter_map session_delta read"] com com'
      by (auto simp: memory_inv_of_def Let_def ds) (auto simp: polls(1) started_id_append)
  next
    case False
    from poll_idle[OF polls(2) False clean] assms(2) False k polls(1) show ?thesis
      by (simp add: memory_inv_of_def Let_def read_deltas_def unread_def)
  qed
qed

lemma worker_told:
  assumes "worker_reachable W attempt_can start R"
  shows "queue_inv R \<and> flow_inv attempt_can R \<and> told_inv R"
  using assms
proof induction
  case start
  show ?case
    by (auto simp: queue_inv_def flow_inv_def told_inv_def new_run_def new_persistence_state_def seen_items_def
        handed_items_def told_items_def told_deltas_def queued_items_def)
next
  case (step R R')
  with queue_inv_step flow_inv_step told_inv_step show ?case by blast
qed

lemma submitted_run: "submitted t opts V C start W S \<Longrightarrow> sys_run S = new_run (fst start) (snd start)"
  by (auto simp: submitted_def)

lemma submitted_told:
  assumes "submitted t opts V C start W S0" "system_reachable W attempt_can S0 S"
  shows "well_told (told_deltas (sys_run S))"
  using worker_told[OF system_worker_reachable[OF assms(2) submitted_run[OF assms(1)]]] by (simp add: told_inv_def)

lemma submitted_memory:
  assumes "submitted t opts V C start W S" "pending_user_items (sys_conversation S) = [u]"
  shows "memory_inv_of u (persisted_history V) False S"
proof -
  from assms(1) obtain q V' where q: "prepare_turn_with_options t opts V = (Ok q, V')"
    and S: "S = \<lparr>sys_run = new_run (fst start) (snd start), sys_read = 0, sys_consumer = start_consumer q C,
               sys_conversation = V'\<rparr>" by (auto simp: submitted_def)
  from q have "persisted_history V' = persisted_history V"
    by (auto simp: prepare_turn_with_options_def Let_def split: if_splits)
  with assms(2) show ?thesis
    by (auto simp: S memory_inv_of_def read_deltas_def new_run_def start_consumer_def clean_consumer_def memory_now_def)
qed

lemma system_reachable_trans:
  assumes "system_reachable W attempt_can S' S''" "system_reachable W attempt_can S S'"
  shows "system_reachable W attempt_can S S''"
  using assms by induction (auto intro: system_reachable.step)

lemma memory_inv_stays:
  assumes "system_reachable W attempt_can S S'" "memory_inv_of u h committed S"
    "\<And>T. system_reachable W attempt_can S T \<Longrightarrow> well_told (told_deltas (sys_run T))"
  shows "memory_inv_of u h committed S'"
  using assms(1)
proof induction
  case (step T T')
  with memory_inv_step assms(3) show ?case by blast
qed (rule assms(2))

lemma memory_follows:
  assumes "submitted t opts V C start W S0" "pending_user_items (sys_conversation S0) = [u]"
    "system_reachable W attempt_can S0 S"
  shows "memory_inv_of u (persisted_history V) False S"
  using memory_inv_stays[OF assms(3) submitted_memory[OF assms(1,2)] submitted_told[OF assms(1)]] .

lemma committed_memory:
  assumes "submitted t opts V C start W S0" "pending_user_items (sys_conversation S0) = [u]"
    "system_reachable W attempt_can S0 S" "consumer_running (sys_consumer S)" "started_id (read_deltas S) \<noteq> None"
    "system_reachable W attempt_can S S'"
  shows "memory_inv_of u (persisted_history V) True S'"
proof (rule memory_inv_stays[OF assms(6)])
  show "memory_inv_of u (persisted_history V) True S"
    using memory_follows[OF assms(1-3)] assms(4,5) by (simp add: memory_inv_of_def Let_def)
  show "well_told (told_deltas (sys_run T))" if "system_reachable W attempt_can S T" for T
    using submitted_told[OF assms(1) system_reachable_trans[OF that assms(3)]] .
qed

lemma committed_history:
  assumes "memory_inv_of u h True S"
  shows "persisted_history (sys_conversation S) = h @ added u (read_deltas S)"
  using assms by (auto simp: memory_inv_of_def Let_def memory_now_def split: if_splits)

end
