(* ===== verification/Rewound_History.thy ===== *)
theory Rewound_History
  imports Conversation Stored_Turns
begin

text \<open>
  Truncating the conversation in memory and moving the leaf of the session keep memory and store in
  step.
\<close>

definition remembered :: "persisted_item \<Rightarrow> ustring \<times> conversation_item" where
  "remembered p = (case persisted_id p of Some i \<Rightarrow> i | None \<Rightarrow> [], persisted_value p)"

text \<open>The conversation in memory is the one the log shows, entry by entry.\<close>

definition in_step :: "session_entry list \<Rightarrow> 's provider_conversation \<Rightarrow> bool" where
  "in_step es V \<longleftrightarrow>
     (\<forall>p\<in>set (persisted_history V). persisted_id p \<noteq> None) \<and> displays es (map remembered (persisted_history V))"

lemma restored_in_step:
  assumes "query_state es None = Ok st"
  shows "in_step es (from_resolved_session_store show_id B h sid st)"
  using assms by (auto simp: in_step_def displays_def from_resolved_session_store_def remembered_def o_def)

lemma displays_plain:
  assumes "session_log es" "\<forall>e\<in>set es. compaction_of e = None"
  shows "displays es xs \<longleftrightarrow> xs = entry_items (active_path es)"
proof -
  from append_parent_in_log[OF assms(1)] obtain e where e: "e \<in> set es" "append_parent_id es = Some (entry_id e)" by blast
  with active_path_eq[OF assms(1) e(2,1)] ancestry_in_log[OF session_log_wf[OF assms(1)] e(1)] assms(2)
  have "\<forall>x\<in>set (active_path es). compaction_of x = None" by auto
  moreover have "map (\<lambda>r. (resolved_entry_id r, resolved_value r)) (filter_map resolved_item_of path) = entry_items path" for path
    by (induction path) (auto simp: resolved_item_of_def split: option.splits)
  ultimately show ?thesis
    by (auto simp: displays_default[OF assms(1)] resolve_state_plain assemble_state_def Let_def)
qed

lemma displays_at:
  assumes "session_log (es @ [l])" "session_log es" "\<forall>e\<in>set es. compaction_of e = None"
    "kind l = Leaf (Some (entry_id t))" "t \<in> set es" "\<not> is_leaf_kind (kind t)"
  shows "displays (es @ [l]) (entry_items (ancestry (index_of es) t))"
proof -
  from append_parent_id_snoc assms(4) have "append_parent_id (es @ [l]) = Some (entry_id t)" by simp
  from active_path_eq[OF assms(1) this] assms(5) ancestry_snoc_log[OF session_log_wf[OF assms(1)] assms(5)]
  have "active_path (es @ [l]) = ancestry (index_of es) t" by simp
  moreover have "compaction_of l = None" by (simp add: compaction_of_def assms(4))
  ultimately show ?thesis using assms(3) by (simp add: displays_plain[OF assms(1)])
qed

lemma same_split:
  "distinct (map fst (as @ a # bs)) \<Longrightarrow> as @ a # bs = cs @ c # ds \<Longrightarrow> fst c = fst a \<Longrightarrow> as = cs \<and> a = c"
proof (induction as arbitrary: cs)
  case Nil
  then show ?case by (cases cs) (auto simp: image_iff)
next
  case step: (Cons x as)
  show ?case
  proof (cases cs)
    case Nil
    with step.prems show ?thesis by auto
  next
    case (Cons y ys)
    with step.prems(2) have rest: "as @ a # bs = ys @ c # ds" by simp
    have "distinct (map fst (as @ a # bs))" using step.prems(1) by simp
    from step.IH[OF this rest step.prems(3)] Cons step.prems(2) show ?thesis by simp
  qed
qed

lemma take_to_id:
  assumes "distinct (map fst (as @ a # bs))" "take k (as @ a # bs) = cs @ [c]" "fst c = fst a"
  shows "take k (as @ a # bs) = as @ [a]"
proof -
  have "take k (as @ a # bs) @ drop k (as @ a # bs) = as @ a # bs" by (rule append_take_drop_id)
  then have "as @ a # bs = cs @ c # drop k (as @ a # bs)" unfolding assms(2) by simp
  from same_split[OF assms(1) this assms(3)] show ?thesis unfolding assms(2) by simp
qed

lemma path_ids_distinct:
  assumes "session_log es"
  shows "distinct (map entry_id (active_path es))"
proof -
  from append_parent_in_log[OF assms] obtain e where e: "e \<in> set es" "append_parent_id es = Some (entry_id e)" by blast
  note wf = session_log_wf[OF assms]
  from active_path_eq[OF assms e(2,1)] groundedD(3)[OF log_wf_grounded[OF wf] log_wf_lookup[OF wf e(1)]]
  show ?thesis by simp
qed

lemma entry_items_append: "entry_items (es @ es') = entry_items es @ entry_items es'"
  by (simp add: entry_items_def filter_map_append)

lemma entry_items_distinct: "distinct (map entry_id es) \<Longrightarrow> distinct (map fst (entry_items es))"
proof (induction es)
  case (Cons e es)
  have "fst ` set (entry_items es) \<subseteq> entry_id ` set es" by (induction es) (auto split: option.splits)
  with Cons show ?case by (auto split: option.splits)
qed simp

lemma entry_items_split:
  assumes "(i, x) \<in> set (entry_items es)"
  shows "\<exists>pre e post. es = pre @ e # post \<and> entry_id e = i \<and> item_of e = Some x"
  using assms
proof (induction es)
  case (Cons e es)
  show ?case
  proof (cases "item_of e = Some x \<and> entry_id e = i")
    case True
    then show ?thesis by (intro exI[of _ "[]"]) auto
  next
    case False
    with Cons.prems have "(i, x) \<in> set (entry_items es)" by (auto split: option.splits)
    with Cons.IH obtain pre d post where "es = pre @ d # post" "entry_id d = i" "item_of d = Some x" by blast
    then show ?thesis by (intro exI[of _ "e # pre"]) auto
  qed
qed simp

lemma root_of_log:
  assumes "session_log es"
  shows "ancestry (index_of es) (hd es) = [hd es]" "hd es \<in> set es" "entry_items [hd es] = []" "\<not> is_leaf_kind (kind (hd es))"
proof -
  from assms obtain e rest where es: "es = e # rest" "is_header_kind (kind e)"
    by (cases es) (auto simp: session_log_def)
  note wf = session_log_wf[OF assms]
  from wf es have "parent_id e = None" by (auto split: option.splits)
  then have root: "root_path (index_of es) e [e]" by (rule root_path.root)
  have e: "e \<in> set es" by (simp add: es)
  from root_path_unique[OF groundedD(2)[OF log_wf_grounded[OF wf] log_wf_lookup[OF wf e]] root] es e
  show "ancestry (index_of es) (hd es) = [hd es]" "hd es \<in> set es" by simp_all
  from es show "entry_items [hd es] = []" "\<not> is_leaf_kind (kind (hd es))"
    by (auto simp: is_header_kind_def item_of_def is_leaf_kind_def split: entry_kind.splits)
qed

end
