(* ===== verification/Conversation_Properties.thy ===== *)
theory Conversation_Properties
  imports Worker_Properties Turn_System Rewound_History
begin

text \<open>
  The conversation in memory against the store on disk: over whole turns, when the coordinator misses
  the start of a turn, and when the conversation is truncated.
\<close>

section \<open>A sample turn\<close>

definition conversation_of :: "codec \<Rightarrow> resolved_item list \<Rightarrow> local_store provider_conversation" where
  "conversation_of C xs =
     from_resolved_session_store (\<lambda>_. []) (local_vtable (env_of C)) header0 (Some 7)
       \<lparr>items = xs, transcript = [], latest_config = None\<rparr>"

definition turn0 :: turn_request where
  "turn0 = \<lparr>turn_provider_id = lit ''p'', turn_model_id = lit ''m0'',
     turn_endpoint = \<lparr>endpoint_kind = Ollama, endpoint_base_url = None, endpoint_api_key = None, endpoint_api_key_env = None\<rparr>,
     turn_message = user0, turn_transcript_message = None\<rparr>"

definition opts0 :: turn_options where
  "opts0 = \<lparr>appended_user_texts = [], option_transcript_message =
       Some \<lparr>message_content = [], attachments = [], skill_bindings = [], custom_prompt_bindings = []\<rparr>,
     option_replay_after_user = [], option_observations = None\<rparr>"

lemma prepare_turn0:
  "\<exists>q V'. prepare_turn_with_options turn0 opts0 (conversation_of C []) = (Ok q, V')
     \<and> prepared_persistence q = Some (persistence_of C) \<and> pending_user_items V' = [user0]"
  by (simp add: prepare_turn_with_options_def turn0_def opts0_def conversation_of_def from_resolved_session_store_def
      user0_def item_text_def prepare_provider_user_message_def provider_content_with_text_def
      visible_text_from_blocks_def is_text_block_def or_else_def restored_effective_system_prompt_def persistence_of_def config0_def Let_def)

section \<open>A turn that both have seen\<close>

lemma submitted_items:
  assumes "submitted t opts V C start W S0" "worker_persistence W = Some p"
  shows "\<exists>u. pending_user_items (sys_conversation S0) = [u] \<and> persist_user_items p = [u]"
proof -
  from assms obtain q V' where "prepare_turn_with_options t opts V = (Ok q, V')" "prepared_persistence q = Some p"
    "sys_conversation S0 = V'" by (auto simp: submitted_def)
  moreover from this(1,2) have "\<exists>u. pending_user_items V' = [u] \<and> persist_user_items p = [u]"
    by (auto simp: prepare_turn_with_options_def Let_def split: if_splits)
  ultimately show ?thesis by simp
qed

lemma remembered_added:
  assumes "told = DeltaTurnStarted (Some sid) (Some i) # map item_delta cs"
  shows "map remembered (added u told) = (i, u) # cs"
proof -
  have "map remembered (filter_map delta_persisted (map item_delta cs)) = cs"
    by (induction cs) (auto simp: item_delta_def remembered_def)
  then show ?thesis by (simp add: assms added_started remembered_def)
qed

text \<open>C3: Whatever the interleaving of coordinator, worker and actor: if the user's message was
  committed while the turn was running, then after the turn has finished and the coordinator has read
  what was told of the session, the conversation in memory is, entry by entry, what the file of the
  session shows.\<close>

lemma memory_is_what_the_file_shows:
  assumes "submitted t opts V C (st0, c0) W S0" "persists_turn E W sid p" "codec_ok (env_codec E)"
    "session_shows E st0 sid (map remembered (persisted_history V))"
    "system_reachable W (attempt_of_loop L q provider) S0 S"
    "consumer_running (sys_consumer S)" "started_id (read_deltas S) \<noteq> None"
    "system_reachable W (attempt_of_loop L q provider) S S'"
    "WorkerFinished resp m tokens \<in> set (run_outbox (sys_run S'))" "\<not> overflowed (sys_run S')"
    "read_deltas S' = told_deltas (sys_run S')"
  shows "file_shows E (run_store (sys_run S')) sid (map remembered (persisted_history (sys_conversation S')))"
proof -
  from assms(2) have "worker_persistence W = Some p" by (simp add: persists_turn_def)
  from submitted_items[OF assms(1) this] obtain u where u: "pending_user_items (sys_conversation S0) = [u]"
    "persist_user_items p = [u]" by blast
  from committed_history[OF committed_memory[OF assms(1) u(1) assms(5-8)]] assms(11)
  have hist: "persisted_history (sys_conversation S') = persisted_history V @ added u (told_deltas (sys_run S'))" by simp
  have "worker_reachable W (attempt_of_loop L q provider) (st0, c0) (sys_run S')"
    using system_worker_reachable[OF system_reachable_trans[OF assms(8,5)] submitted_run[OF assms(1)]] .
  from finished_inv_reachable[OF this assms(2,4,3)] assms(9,10)
  have "turn_on_disk E p sid (map remembered (persisted_history V)) (sys_run S') (response_items resp)"
    by (auto simp: finished_inv_def)
  then obtain ids cs where disk: "length ids = Suc 0"
    "told_deltas (sys_run S') = DeltaTurnStarted (Some sid) (last_opt ids) # map item_delta cs"
    "file_shows E (run_store (sys_run S')) sid (map remembered (persisted_history V) @ zip ids [u] @ cs)"
    by (auto simp: turn_on_disk_def u(2))
  from disk(1) obtain i where ids: "ids = [i]" by (auto simp: length_Suc_conv)
  with disk(2) have told: "told_deltas (sys_run S') = DeltaTurnStarted (Some sid) (Some i) # map item_delta cs"
    by (simp add: last_opt_eq)
  from remembered_added[OF this, of u] disk(3) show ?thesis by (simp add: hist ids)
qed

text \<open>The answered turn: the coordinator looks once after the start was stored, and again after the end.\<close>

lemma steps_in_system:
  assumes "worker_steps W A R R'" "system_reachable W A S0 (S\<lparr>sys_run := R\<rparr>)"
  shows "system_reachable W A S0 (S\<lparr>sys_run := R'\<rparr>)"
  using assms unfolding worker_steps_def
proof (induction rule: rtranclp_induct)
  case (step R1 R2)
  from step.hyps(2) have "worker_step W A (sys_run (S\<lparr>sys_run := R1\<rparr>)) R2" by simp
  from system_reachable.step[OF step.IH[OF step.prems] acts[OF this]] show ?case by simp
qed

lemma answered_in_parts:
  "\<exists>R1 R2 resp m t. worker_steps (worker_of (codec_of kinds_answered)) (attempt_of_loop env_answers prompt0 [])
       (new_run (store_of (codec_of kinds_answered)) (at_step 0)) R1
     \<and> run_outbox R1 = [WorkerSession (DeltaTurnStarted (Some 7) (Some (short_entry_id 2)))] \<and> run_phase R1 \<noteq> Ended
     \<and> worker_steps (worker_of (codec_of kinds_answered)) (attempt_of_loop env_answers prompt0 []) R1 R2
     \<and> run_outbox R2 = run_outbox R1 @ [WorkerSession (DeltaContextItem (Some (short_entry_id 3)) reply0), WorkerFinished resp m t]"
proof -
  let ?C = "codec_of kinds_answered" and ?A = "attempt_of_loop env_answers prompt0 []"
  let ?W = "worker_of ?C" and ?rest = "[CmdContextItem reply0, CmdFlush]"
  let ?start = "DeltaTurnStarted (Some 7) (Some (short_entry_id 2))"
  from answered_steps obtain R resp m t where R: "worker_steps ?W ?A (new_run (store_of ?C) (at_step 0)) R"
    "run_phase R = AwaitingFlush (WorkerFinished resp m t)" "run_open R" "run_outbox R = []"
    "run_queue R = CmdTurnStarted # ?rest" "run_actor R = new_persistence_state"
    "run_store R = store_of ?C" "run_cursor R = at_step 0" by auto
  from start_now[of kinds_answered] obtain st1 where s1:
    "persist_command (Some (persistence_of ?C)) CmdTurnStarted new_persistence_state (store_of ?C) (at_step 0)
      = Some (Ok (started0, [?start]), st1, at_step 2)" by (auto simp: kinds_answered_def start_kinds_def)
  let ?R1 = "actor_done (worker_show_error ?W) CmdTurnStarted ?rest (Ok (started0, [?start]))
      (R\<lparr>run_store := st1, run_cursor := at_step 2\<rparr>)"
  have "worker_step ?W ?A R ?R1" by (rule actor[OF R(3,5)]) (simp only: R(6-8) worker_of_fields s1)
  with R(1) have r1: "worker_steps ?W ?A (new_run (store_of ?C) (at_step 0)) ?R1" by (rule worker_steps_more)
  have f1: "run_outbox ?R1 = [WorkerSession ?start]" "run_phase ?R1 = run_phase R" "run_open ?R1" "run_queue ?R1 = ?rest"
    "run_actor ?R1 = started0" "run_store ?R1 = st1" "run_cursor ?R1 = at_step 2"
    using R(3,4) by (simp_all add: actor_done_def)
  from serve_answered s1 obtain st' where "serve_all (worker_persistence ?W) ?rest (run_actor ?R1) (run_store ?R1) (run_cursor ?R1)
      = Some ([DeltaContextItem (Some (short_entry_id 3)) reply0], st')"
    by (auto simp: f1 simp del: persist_command.simps serve_all.simps(2) simp: serve_all.simps(2)[where cmd = CmdTurnStarted])
  from serve_all_steps[OF f1(3,4) this, of ?A] obtain R3 where R3: "worker_steps ?W ?A ?R1 R3" "run_phase R3 = run_phase R"
    "run_outbox R3 = [WorkerSession ?start, WorkerSession (DeltaContextItem (Some (short_entry_id 3)) reply0)]"
    "run_ack R3 = Some (Ok ())" by (auto simp: f1)
  from worker_steps_more[OF R3(1) flushed] R3(2,4) R(2)
  have "worker_steps ?W ?A ?R1 ((tell (WorkerFinished resp m t) R3)\<lparr>run_phase := Ended\<rparr>)" by simp
  with r1 f1(1,2) R3(3) R(2) show ?thesis
    by (intro exI[of _ ?R1] exI[of _ "(tell (WorkerFinished resp m t) R3)\<lparr>run_phase := Ended\<rparr>"]
        exI[of _ resp] exI[of _ m] exI[of _ t]) (simp add: tell_def)
qed

lemma memory_is_what_the_file_shows_witness:
  "\<exists>S :: (local_store) turn_system. persisted_history (sys_conversation S) \<noteq> []
     \<and> file_shows (env_of (codec_of kinds_answered)) (run_store (sys_run S)) 7 (map remembered (persisted_history (sys_conversation S)))"
proof -
  let ?C = "codec_of kinds_answered" and ?A = "attempt_of_loop env_answers prompt0 []"
  let ?W = "worker_of ?C" and ?V = "conversation_of (codec_of kinds_answered) []"
  let ?start = "DeltaTurnStarted (Some 7) (Some (short_entry_id 2))"
    and ?item = "DeltaContextItem (Some (short_entry_id 3)) reply0"
  from prepare_turn0 obtain q V' where q: "prepare_turn_with_options turn0 opts0 ?V = (Ok q, V')"
    "prepared_persistence q = Some (persistence_of ?C)" "pending_user_items V' = [user0]" by blast
  let ?S0 = "\<lparr>sys_run = new_run (store_of ?C) (at_step 0), sys_read = 0, sys_consumer = start_consumer q new_consumer,
      sys_conversation = V'\<rparr>"
  have sub: "submitted turn0 opts0 ?V new_consumer (store_of ?C, at_step 0) ?W ?S0" using q by (auto simp: submitted_def)
  from answered_in_parts obtain R1 R2 resp m t where parts: "worker_steps ?W ?A (new_run (store_of ?C) (at_step 0)) R1"
    "run_outbox R1 = [WorkerSession ?start]" "run_phase R1 \<noteq> Ended" "worker_steps ?W ?A R1 R2"
    "run_outbox R2 = run_outbox R1 @ [WorkerSession ?item, WorkerFinished resp m t]" by blast
  let ?S1 = "?S0\<lparr>sys_run := R1\<rparr>"
  have reach1: "system_reachable ?W ?A ?S0 ?S1"
    using steps_in_system[OF parts(1), of ?S0 ?S0] system_reachable.start[of ?W ?A ?S0] by simp
  obtain C2 V2 where poll1: "poll_conversation (senders_gone ?S1) (unread ?S1) (sys_consumer ?S1) (sys_conversation ?S1)
      = (None, [], C2, V2)" and C2: "consumer_running C2"
    using parts(2,3)
    by (auto simp: poll_conversation_def try_recv_event_def start_consumer_def unread_def senders_gone_def
        reconcile_conversation_updates_def Let_def)
  let ?S2 = "?S1\<lparr>sys_read := 1, sys_consumer := C2, sys_conversation := V2\<rparr>"
  have reach2: "system_reachable ?W ?A ?S0 ?S2"
    using system_reachable.step[OF reach1 polls[OF poll1]] parts(2) by simp
  let ?S3 = "?S2\<lparr>sys_run := R2\<rparr>"
  have reach3: "system_reachable ?W ?A ?S2 ?S3"
    using steps_in_system[OF parts(4), of ?S2 ?S2] system_reachable.start[of ?W ?A ?S2] by simp
  have "fst (snd (poll_conversation (senders_gone ?S3) (unread ?S3) (sys_consumer ?S3) (sys_conversation ?S3))) = []"
    using parts(2,5) C2 by (simp add: poll_conversation_def try_recv_event_def unread_def split: prod.split)
  then obtain r C4 V4 where poll2: "poll_conversation (senders_gone ?S3) (unread ?S3) (sys_consumer ?S3) (sys_conversation ?S3)
      = (r, [], C4, V4)"
    by (metis prod.collapse)
  let ?S4 = "?S3\<lparr>sys_read := 3, sys_consumer := C4, sys_conversation := V4\<rparr>"
  have reach4: "system_reachable ?W ?A ?S2 ?S4"
    using system_reachable.step[OF reach3 polls[OF poll2]] parts(2,5) by (simp add: numeral_3_eq_3)
  have started: "started_id (read_deltas ?S2) \<noteq> None" using parts(2) by (simp add: read_deltas_def started_id_def)
  have told: "read_deltas ?S4 = told_deltas (sys_run ?S4)" "read_deltas ?S4 = [?start, ?item]" "\<not> overflowed (sys_run ?S4)"
    "WorkerFinished resp m t \<in> set (run_outbox (sys_run ?S4))"
    using parts(2,5) by (simp_all add: read_deltas_def told_deltas_def overflowed_def)
  have "session_shows (env_of ?C) (store_of ?C) 7 (map remembered (persisted_history ?V))"
    using sample_shows by (simp add: conversation_of_def from_resolved_session_store_def)
  with memory_is_what_the_file_shows[OF sub sample_turn _ _ reach2 _ started reach4 told(4,3,1)] C2 codecs_ok(1)
  have "file_shows (env_of ?C) (run_store (sys_run ?S4)) 7 (map remembered (persisted_history (sys_conversation ?S4)))" by simp
  moreover have "persisted_history (sys_conversation ?S4) \<noteq> []"
    using committed_history[OF committed_memory[OF sub _ reach2 _ started reach4, of user0]] C2 q(3) told(2)
    by (simp add: added_def)
  ultimately show ?thesis by blast
qed

section \<open>The start that comes with the end\<close>

text \<open>C9: When the coordinator finds the start of the turn and its end in one read, it forgets the
  start: the items of the turn enter the conversation in memory, the message of the user does not, and
  a session that was created for the turn is not remembered.\<close>

lemma late_turn_start_is_lost:
  assumes "prepare_turn_with_options t opts V = (Ok q, V')"
  shows "\<exists>C2 V2. poll_conversation gone
      (WorkerSession (DeltaTurnStarted sid i) # map WorkerSession (map item_delta cs) @ WorkerFinished r m tokens # rest)
      (start_consumer q C) V' = (Some (EvFinished r m, tokens), rest, C2, V2)
    \<and> map remembered (persisted_history V2) = map remembered (persisted_history V) @ cs
    \<and> pending_user_items V2 = [] \<and> conversation_session_id V2 = conversation_session_id V"
proof -
  have items: "list_all is_item (map item_delta cs)" by (induction cs) (auto simp: is_item_def item_delta_def)
  have session: "receive_event gone (map WorkerSession ds @ evs) C' = receive_event gone evs (fold apply_session_event ds C')"
    for ds evs C' by (induction ds arbitrary: C') simp_all
  have rem: "map remembered (filter_map delta_persisted (map item_delta cs)) = cs"
    by (induction cs) (auto simp: item_delta_def remembered_def)
  from assms have V': "persisted_history V' = persisted_history V" "conversation_session_id V' = conversation_session_id V"
    by (auto simp: prepare_turn_with_options_def Let_def conversation_session_id_def split: if_splits)
  have "conversation_session_id (snd (rollback_pending_user V0)) = conversation_session_id V0"
    "persisted_history (snd (rollback_pending_user V0)) = persisted_history V0"
    "pending_user_items (snd (rollback_pending_user V0)) = []" for V0 :: "'a provider_conversation"
    by (auto simp: rollback_pending_user_def conversation_session_id_def)
  then show ?thesis
    using V' rem
    by (auto simp: poll_conversation_def try_recv_event_def start_consumer_def session apply_items[OF items]
        reconcile_conversation_updates_def clear_runtime_state_def commit_turn_items_def conversation_session_id_def
        Let_def simp del: map_map)
qed

lemma late_turn_start_is_lost_witness:
  "\<exists>(C2 :: consumer) (V2 :: local_store provider_conversation). map remembered (persisted_history V2) = [(lit ''b'', reply0)] \<and> pending_user_items V2 = []"
proof -
  from prepare_turn0 obtain q V' where q: "prepare_turn_with_options turn0 opts0 (conversation_of codec0 []) = (Ok q, V')" by blast
  have "persisted_history (conversation_of codec0 []) = []" by (simp add: conversation_of_def from_resolved_session_store_def)
  with late_turn_start_is_lost[OF q, of False "Some 7" "Some (lit ''a'')" "[(lit ''b'', reply0)]" undefined undefined undefined
      "[]" new_consumer]
  show ?thesis by (metis append_Nil list.simps(8))
qed

section \<open>Truncation\<close>







end
