(* ===== verification/Spec2Isabelle.thy ===== *)
theory Spec2Isabelle
  imports Local_Samples Turn_Properties Conversation_Properties
begin

text \<open>
  \<^bold>\<open>Sessions and turns of hunea.\<close>

  hunea is a terminal assistant.  A turn sends the conversation to a model, reads the streamed
  answer, runs the tools the model calls (asking the user where a permission is needed) and goes
  on until the model stops; the conversation is kept in a session.  This development models
  both halves and what joins them: the session store (\<^verbatim>\<open>crates/session-store\<close>); the turn, that is the
  tool loop (\<^verbatim>\<open>crates/tool-loop-runtime\<close>), the permission broker and the file edits
  (\<^verbatim>\<open>crates/tool-runtime\<close>), and the provider streams (\<^verbatim>\<open>crates/openai-compat-provider\<close>); and the
  worker that runs a turn, writes it to the session and tells the conversation in memory
  (\<^verbatim>\<open>crates/conversation-runtime\<close>), over the data types of \<^verbatim>\<open>crates/provider-protocol\<close> and
  \<^verbatim>\<open>crates/runtime-domain\<close>.

  \<^bold>\<open>The store, in the order of the code's layers.\<close>  A session is an append-only log of entries
  that name their parents, hence a tree; a leaf marker moves the point where the conversation
  goes on.
  \<^item> \<^verbatim>\<open>Prelude\<close>: text as code points, results, fallible loops, hash maps, truncation
    (\<^verbatim>\<open>util.rs\<close>).
  \<^item> \<^verbatim>\<open>Protocol\<close>, \<^verbatim>\<open>Domain\<close>, \<^verbatim>\<open>Session_Entry\<close>: conversation items, tool activities and replay
    items, entries, errors, entry ids (\<^verbatim>\<open>message/mod.rs\<close>, \<^verbatim>\<open>activity.rs\<close>,
    \<^verbatim>\<open>transcript_replay.rs\<close>, \<^verbatim>\<open>lib.rs\<close>).
  \<^item> \<^verbatim>\<open>Topology\<close>, \<^verbatim>\<open>Entry_Log\<close>: index, parent walks, subtrees (\<^verbatim>\<open>session_tree/topology.rs\<close>); the
    well-formed logs \<open>log_wf\<close> and the interface \<open>entry_log\<close> of whoever owns one.
  \<^item> \<^verbatim>\<open>Resolve\<close>, \<^verbatim>\<open>Preview\<close>, \<^verbatim>\<open>Rewind\<close>, \<^verbatim>\<open>Branch\<close>, \<^verbatim>\<open>Projection\<close>: the files of the same names under
    \<^verbatim>\<open>session_tree\<close>, which turn a log into conversation items, previews, rewind targets, a
    branch tree and the rows of the tree view.
  \<^item> \<^verbatim>\<open>Message_History\<close>: the list of recent prompts in its three representations (domain list,
    in-memory table, SQL table) and the interface \<open>history_store\<close> they share.
  \<^item> \<^verbatim>\<open>Meta_Derive\<close>, \<^verbatim>\<open>Session_Files\<close>: catalogue rows (\<^verbatim>\<open>meta_derive.rs\<close>) and file names (\<^verbatim>\<open>lib.rs\<close>).
  \<^item> \<^verbatim>\<open>Store_Common\<close>, \<^verbatim>\<open>Memory_Store\<close>: the functions both stores share (\<^verbatim>\<open>store/mod.rs\<close>), the
    interface \<open>session_owner\<close>, and the in-memory store (\<^verbatim>\<open>store/memory.rs\<close>).
  \<^item> \<^verbatim>\<open>Utf8\<close>, \<^verbatim>\<open>Jsonl\<close>, \<^verbatim>\<open>Recorder\<close>: bytes, log files (\<^verbatim>\<open>jsonl.rs\<close>) and the recorder task
    (\<^verbatim>\<open>recorder.rs\<close>) as a step relation of clients, channel, worker and outside world.
  \<^item> \<^verbatim>\<open>Metadata_Index\<close>: the catalogue and its repair from the log files (\<^verbatim>\<open>metadata.rs\<close>,
    \<^verbatim>\<open>metadata/repair.rs\<close>); SQL tables are association lists under their primary keys.
  \<^item> \<^verbatim>\<open>Local_Store\<close>, \<^verbatim>\<open>Local_Runs\<close>: the store on disk (\<^verbatim>\<open>store/local.rs\<close>,
    \<^verbatim>\<open>store/local/commands.rs\<close>) with a handle per open session, over recorder, loader and
    catalogue; the stores its operations reach, and what they guarantee.

  \<^bold>\<open>The turn.\<close>
  \<^item> \<^verbatim>\<open>Text_Search\<close>, \<^verbatim>\<open>Edit_Apply\<close>, \<^verbatim>\<open>Edit_Regions\<close>: substring search, the edit tool's exact and fuzzy
    matching and its replacement from the back (\<^verbatim>\<open>workspace_file/edit_apply.rs\<close>), and
    the regions of the file it replaces.
  \<^item> \<^verbatim>\<open>Paths\<close>, \<^verbatim>\<open>Tools\<close>, \<^verbatim>\<open>Tool_Registry\<close>: path prefixes, tool definitions, calls and results, the
    registry and the check of arguments against a schema (\<^verbatim>\<open>tool.rs\<close>, \<^verbatim>\<open>registry.rs\<close>,
    \<^verbatim>\<open>schema.rs\<close>).
  \<^item> \<^verbatim>\<open>Permission_Rules\<close>, \<^verbatim>\<open>Permission_Broker\<close>, \<^verbatim>\<open>Broker_Runs\<close>: session permission rules, the
    broker that asks the user, and its runs with the invariant that every permitted call was
    granted.
  \<^item> \<^verbatim>\<open>Token_Count\<close>: token counts and the progress meter of a turn.
  \<^item> \<^verbatim>\<open>Tool_Activity\<close>, \<^verbatim>\<open>Turn_State\<close>, \<^verbatim>\<open>Turn_View\<close>: what a turn shows of its tools, the permissions it
    asks for, the calls it has open, and what an observer of its events sees.
  \<^item> \<^verbatim>\<open>Tool_Loop\<close>, \<^verbatim>\<open>Loop_Runs\<close>: the loop of requests and tool calls as a partial function over an
    environment of model, tools and user, and the invariants of its rounds.
  \<^item> \<^verbatim>\<open>Provider_Stream\<close>, \<^verbatim>\<open>Stream_Runs\<close>: server-sent events, the chat and responses streams, the
    events they give; the loop over a stream.
  \<^item> \<^verbatim>\<open>Turn_Properties\<close>: the properties of the turn.

  \<^bold>\<open>The turn in its session\<close> (\<^verbatim>\<open>crates/conversation-runtime\<close>).
  \<^item> \<^verbatim>\<open>User_Message\<close>: image labels, provider and display content of a user message
    (\<^verbatim>\<open>transcript_replay.rs\<close>).
  \<^item> \<^verbatim>\<open>Session_Backend\<close>: the trait object of the store as a record of operations, the interface
    \<open>session_backend\<close> with the laws the runtime relies on, kept by both stores.
  \<^item> \<^verbatim>\<open>Session_Persistence\<close>, \<^verbatim>\<open>Stored_Turns\<close>: the commands of the persistence actor
    (\<^verbatim>\<open>session/persistence.rs\<close>) as sequences of store calls, and what each leaves in a session of a
    lawful store.
  \<^item> \<^verbatim>\<open>Context_Repair\<close>: the ledger of open calls (\<^verbatim>\<open>session/context_repair.rs\<close>).
  \<^item> \<^verbatim>\<open>Conversation_Worker\<close>, \<^verbatim>\<open>Worker_Runs\<close>, \<^verbatim>\<open>Worker_Stored\<close>: worker and actor of a turn with their
    queue as a step relation (\<^verbatim>\<open>session/mod.rs\<close>), the invariants of the queue and of the items on
    their way, and the session at every step.
  \<^item> \<^verbatim>\<open>Conversation\<close>: the conversation in memory (\<^verbatim>\<open>provider_conversation\<close>), the side of the worker
    that the coordinator polls (\<^verbatim>\<open>session/event_apply.rs\<close>) and the drain of its events
    (\<^verbatim>\<open>terminal-app/src/runtime/mod.rs\<close>).
  \<^item> \<^verbatim>\<open>Turn_System\<close>, \<^verbatim>\<open>Rewound_History\<close>: all of them side by side; memory against file while a turn
    runs, and after a truncation.
  \<^item> \<^verbatim>\<open>Worker_Properties\<close>, \<^verbatim>\<open>Conversation_Properties\<close>: the properties of a persisted turn.

  \<^bold>\<open>Samples.\<close>  \<^verbatim>\<open>Samples\<close>, \<^verbatim>\<open>File_Samples\<close>, \<^verbatim>\<open>Local_Samples\<close>, \<^verbatim>\<open>Turn_Samples\<close> and \<^verbatim>\<open>Worker_Samples\<close> are
  concrete logs, codecs, stores, tools, edits, streams and turns, on which the properties are evaluated.

  \<^bold>\<open>Conventions.\<close>  A \<^verbatim>\<open>Result\<close> is a sum, a loop that may not end is an option whose
  \<^const>\<open>None\<close> is ``does not return''.  UUIDs, the clock, path canonicalisation and file sizes
  are the record \<open>platform\<close>; \<^verbatim>\<open>serde_json\<close> is the records \<open>json_api\<close> and \<open>codec\<close>; the hypotheses
  on it (\<open>encodes\<close>) are what its documentation says of compact JSON objects.  Failures of the
  file system are the values of \<open>io_fault\<close>, chosen freely at every write.  The model, its
  transport, the bodies of the tools and the user are parameters of the loop, about which
  nothing is assumed but what a property names.  The fuel of the few bounded searches is a
  measure the code has as well (number of entries, retry limit).

  \<^bold>\<open>What the lemmas show of the turn.\<close>  A call runs only when a rule allows it, the user granted it,
  or its tool needs no permission (C1); it runs on the arguments that were shown (C15), rules
  apply in their scope (C26) and are gone after clearing (C13), stale answers change nothing
  (C12), and an answer reaches the request it was given for (C25).  A loop that completes has
  answered every call of the model (C2), returns what it reported (C23), stays within its limit
  (C24), and a refused tool's code never runs (C14).  Edits replace disjoint regions and leave
  the rest alone (C11); arguments pass exactly when they conform to their schema (C27).  The
  completed answer is what was streamed (C21), however the body is cut into chunks (C22).

  \<^bold>\<open>What the lemmas show of a persisted turn.\<close>  While a turn runs, the session keeps showing what it
  showed before (C17).  When its end is told, its items are in the file and nothing else (C4),
  and when it was cut off, every open call has got a result (C5).  The conversation in memory is
  then what the file shows (C3), also after a truncation (C18), unless the coordinator reads the
  start of the turn together with its end (C9).

  \<^bold>\<open>What the lemmas show of the store.\<close>  Every walk over a well-formed log returns, and what it
  returns is described by the path to the leaf: the rewind (C6), compaction (C16), the query
  without a leaf (C28), the path itself (C29), the transcript (C31), indents (C32), the tree
  view (C33) and branches (C34, C35); C30 shows the one walk that need not return on logs the
  loader accepts.  Acknowledged entries survive later failures (C7), a failed append is
  recovered as a whole or not at all (C8), a cut batch loses only its tail (C19), appends
  succeed when nothing fails (C37) and are linked like single appends (C40), but an append
  behind a torn line is lost (C36).  All sessions of a reachable store can be shown (C10), and
  both stores show the same conversation after the same appends (C20).  The catalogue settles
  after a repair (C38), but a rebuild that meets an unreadable file leaves a truncated
  catalogue (C39).

  \<^bold>\<open>Not modelled.\<close>  The engine errors of SQLite, panics, thread creation and time limits; the
  prompt assembly tables; of the tools everything but the matching and replacing of the edit
  tool; HTTP requests and their bodies; the commands of the coordinator; configuration, the
  terminal interface, the command line and packaging.  They are drawing, tables, or calls of
  libraries whose behaviour is not in the repository.
\<close>

section \<open>Resolving a leaf\<close>



text \<open>C29: The path to a leaf is found exactly when the leaf, after following the target of a leaf
  marker, is an entry with an unbroken chain of parents up to a root, and then it is that
  chain, root first.\<close>

lemma resolve_path_is_parent_chain:
  assumes "distinct (map entry_id entries)"
  shows "resolve_path (index_of entries) leaf = Ok path \<longleftrightarrow>
     (\<exists>e\<in>set entries. entry_id e = effective_leaf_id (index_of entries) leaf
        \<and> root_path (index_of entries) e path)"
  using resolve_path_Ok_iff[OF keyed_index_of[OF assms], of leaf path] map_of_index_of[OF assms] by auto

lemma resolve_path_is_parent_chain_witness:
  "resolve_path (index_of sample_log) (lit ''l1'') = Ok [e_header, e_u1, e_a1, e_t1, e_a2]"
proof -
  have "\<exists>e\<in>set sample_log. entry_id e = effective_leaf_id (index_of sample_log) (lit ''l1'')
        \<and> root_path (index_of sample_log) e [e_header, e_u1, e_a1, e_t1, e_a2]"
  proof (intro bexI[of _ e_a2] conjI)
    show "entry_id e_a2 = effective_leaf_id (index_of sample_log) (lit ''l1'')"
      by (simp add: effective_leaf_id_def index_of_def sample_log_def sample_entries)
    show "root_path (index_of sample_log) e_a2 [e_header, e_u1, e_a1, e_t1, e_a2]"
      using groundedD(2)[OF log_wf_grounded[OF sample_log_wf] log_wf_lookup[OF sample_log_wf sample_mem(5)]]
      by (simp add: sample_ancestry_a2)
  qed (rule sample_mem)
  then show ?thesis
    using resolve_path_is_parent_chain[of sample_log "lit ''l1''"] log_wf_distinct[OF sample_log_wf] by blast
qed

text \<open>The walk to the root reports a cycle exactly when the chain of parents of the leaf runs
  into one.\<close>

lemma resolve_path_cycle_iff:
  assumes "distinct (map entry_id entries)" "e \<in> set entries"
    "entry_id e = effective_leaf_id (index_of entries) leaf"
  shows "resolve_path (index_of entries) leaf = Err CycleDetected \<longleftrightarrow>
     (\<exists>i. (entry_id e, i) \<in> (parent_rel (index_of entries))\<^sup>* \<and> (i, i) \<in> (parent_rel (index_of entries))\<^sup>+)"
proof -
  have look: "map_of (index_of entries) (entry_id e) = Some e"
    using assms(1,2) by (simp add: map_of_index_of)
  have "resolve_path (index_of entries) leaf = Err CycleDetected \<longleftrightarrow>
      path_loop (index_of entries) {} e [] = Err CycleDetected"
    by (simp add: resolve_path_def Let_def look flip: assms(3)) (auto simp: result_iffs)
  with path_loop_cycle_iff[OF keyed_index_of[OF assms(1)] look] show ?thesis by simp
qed

lemma resolve_path_cycle_iff_witness:
  "resolve_path (index_of loop_log) (lit ''z'') = Err CycleDetected"
proof -
  have xy: "(lit ''x'', lit ''y'') \<in> parent_rel (index_of loop_log)"
    and yx: "(lit ''y'', lit ''x'') \<in> parent_rel (index_of loop_log)"
    and zy: "(lit ''z'', lit ''y'') \<in> parent_rel (index_of loop_log)"
    by (simp_all add: parent_rel_def index_of_def loop_log_def loop_entries)
  then have "\<exists>i. (entry_id e_loop3, i) \<in> (parent_rel (index_of loop_log))\<^sup>*
      \<and> (i, i) \<in> (parent_rel (index_of loop_log))\<^sup>+"
    by (intro exI[of _ "lit ''y''"]) (auto simp: loop_entries intro: trancl_into_trancl)
  with resolve_path_cycle_iff[of loop_log e_loop3 "lit ''z''"] show ?thesis
    by (simp add: loop_log_def loop_entries effective_leaf_id_def index_of_def)
qed

text \<open>C30: The search for the nearest visible ancestor has no visited set.  It does not return on an
  entry whose parent lies in a set of hidden entries closed under taking parents.  The
  witness is a log with unique ids and existing parents, so the loader accepts it, whose
  newest entry is a root of its own: the tree snapshot of that log does not return.\<close>

lemma nearest_visible_parent_diverges:
  assumes "parent_id e = Some p" "p \<in> S"
    "\<forall>q\<in>S. q \<notin> visible \<and> (\<exists>d r. map_of by_id q = Some d \<and> parent_id d = Some r \<and> r \<in> S)"
  shows "nearest_visible_parent_id e by_id visible = None"
  using nearest_visible_loop_diverges[OF assms(3,2)] assms(1) by (simp add: nearest_visible_parent_id_def)

lemma nearest_visible_parent_diverges_witness:
  "build_entry_index loop_log = Ok (index_of loop_log)
   \<and> validate_entry_parents loop_log (index_of loop_log) = Ok ()
   \<and> resolve_path (index_of loop_log) (lit ''w'') = Ok [e_loop4]
   \<and> session_tree_snapshot json0 loop_log = None"
proof -
  have visible: "visible_ids loop_log = {lit ''z'', lit ''w''}"
    by (simp add: visible_ids_def loop_log_def loop_entries session_tree_row_kind_def item_row_kind_def
        item_text_def)
  have index: "build_entry_index loop_log = Ok (index_of loop_log)"
    by (simp add: build_entry_index_Ok_iff loop_log_def loop_entries)
  have parents: "validate_entry_parents loop_log (index_of loop_log) = Ok ()"
    by (simp add: loop_log_def loop_entries index_of_def)
  have look: "map_of (index_of loop_log) (lit ''w'') = Some e_loop4"
    by (simp add: loop_log_def loop_entries index_of_def)
  then have path: "resolve_path (index_of loop_log) (lit ''w'') = Ok [e_loop4]"
    by (simp add: resolve_path_def effective_leaf_id_def path_loop.simps Let_def)
       (simp add: loop_entries)
  have "nearest_visible_parent_id e_loop3 (index_of loop_log) (visible_ids loop_log) = None"
    unfolding visible
    by (rule nearest_visible_parent_diverges[where p = "lit ''y''" and S = "{lit ''x'', lit ''y''}"])
       (simp_all add: index_of_def loop_log_def loop_entries)
  moreover have "filter (\<lambda>e. entry_id e \<in> visible_ids loop_log) loop_log = [e_loop3, e_loop4]"
    by (simp add: visible) (simp add: loop_log_def loop_entries)
  ultimately have "session_tree_branch_choices_by_parent json0 loop_log (index_of loop_log)
      (visible_ids loop_log) active children = None" for active children
    by (simp add: session_tree_branch_choices_by_parent_def)
  moreover have newest: "map_option entry_id (last_opt loop_log) = Some (lit ''w'')"
    by (simp add: loop_log_def) (simp add: loop_entries)
  ultimately have "session_tree_snapshot json0 loop_log = None"
    unfolding session_tree_snapshot_def newest snapshot_from_start_def index parents Let_def
    by (simp add: path parents)
  with index parents path show ?thesis by blast
qed

text \<open>The index is built exactly when all ids differ, and otherwise the error names the first
  entry whose id was seen before.\<close>

lemma build_entry_index_reports_first_duplicate:
  "build_entry_index entries =
     (if distinct (map entry_id entries) then Ok (index_of entries)
      else Err (DuplicateId (entry_id (entries !
        (LEAST n. n < length entries \<and> entry_id (entries ! n) \<in> entry_id ` set (take n entries))))))"
proof (cases "distinct (map entry_id entries)")
  case True
  then show ?thesis by (simp add: build_entry_index_Ok_iff)
next
  case False
  then obtain err where err: "build_entry_index entries = Err err"
    using build_entry_index_Ok_iff by (cases "build_entry_index entries") blast+
  from build_index_loop_Err_first[OF err[unfolded build_entry_index_def]] obtain xs e ys
    where split: "entries = xs @ e # ys" "err = DuplicateId (entry_id e)" "entry_id e \<in> entry_id ` set xs"
      and first: "distinct (map entry_id xs)" by auto
  have "(LEAST n. n < length entries \<and> entry_id (entries ! n) \<in> entry_id ` set (take n entries)) = length xs"
  proof (rule Least_equality)
    fix n assume n: "n < length entries \<and> entry_id (entries ! n) \<in> entry_id ` set (take n entries)"
    show "length xs \<le> n"
    proof (rule ccontr)
      assume "\<not> length xs \<le> n"
      then have "n < length xs" by simp
      with n have "entry_id (xs ! n) \<in> entry_id ` set (take n xs)" by (simp add: split nth_append)
      moreover have "map entry_id xs ! n \<notin> set (take n (map entry_id xs))"
        using first \<open>n < length xs\<close> by (metis distinct_take id_take_nth_drop length_map distinct_append
            not_distinct_conv_prefix distinct.simps(2) Int_iff empty_iff list.set_intros(1))
      ultimately show False using \<open>n < length xs\<close> by (simp add: take_map)
    qed
  qed (simp add: split)
  with False err split show ?thesis by simp
qed

section \<open>What a resolved session holds\<close>

text \<open>C16: A session whose newest compaction on the path keeps the entry \<open>k\<close> resolves to the
  compaction summary as a system item, followed by exactly the items from \<open>k\<close> on; the
  configuration is the last one of the whole path, compacted or not.\<close>

lemma compaction_keeps_suffix:
  assumes "path = pre @ c # post" "kind c = Compaction summary (entry_id k) n"
    "\<forall>e\<in>set post. compaction_of e = None"
    "path = as @ k # bs" "item_of k \<noteq> None" "distinct (map entry_id path)"
  shows "\<exists>st. resolve_state_from_path path = Ok st
    \<and> items st = \<lparr>resolved_entry_id = entry_id c, resolved_value = Message System [Text summary]\<rparr>
        # filter_map resolved_item_of (k # bs)
    \<and> latest_config st = last_opt (filter_map (\<lambda>e. case kind e of ConfigChange s \<Rightarrow> Some s | _ \<Rightarrow> None) path)"
proof -
  have "\<forall>a\<in>set as. \<not> (entry_id a = entry_id k \<and> item_of a \<noteq> None)"
    using assms(4,6) by (auto simp: image_iff)
  from resolve_state_compacted[OF assms(1-4) refl assms(5) this] assms(4) latest_config_last[of None path]
  show ?thesis by (auto simp: assemble_state_def Let_def item_system_def split: option.splits)
qed

lemma compaction_keeps_suffix_witness:
  "\<exists>st. resolve_state_from_path [e_header, e_u1, e_a1, e_t1, e_a2, e_u3, e_k1] = Ok st
    \<and> items st = \<lparr>resolved_entry_id = entry_id e_k1, resolved_value = Message System [Text (lit ''so far'')]\<rparr>
        # filter_map resolved_item_of [e_a2, e_u3, e_k1]
    \<and> latest_config st = last_opt (filter_map (\<lambda>e. case kind e of ConfigChange s \<Rightarrow> Some s | _ \<Rightarrow> None)
        [e_header, e_u1, e_a1, e_t1, e_a2, e_u3, e_k1])"
  by (rule compaction_keeps_suffix[where pre = "[e_header, e_u1, e_a1, e_t1, e_a2, e_u3]" and post = "[]"
        and as = "[e_header, e_u1, e_a1, e_t1]" and n = 99])
     (simp_all add: sample_entries item_of_def)

text \<open>C31: The transcript of a path holds, for every tool activity and every terminal, one snapshot,
  the last one of the path, and keeps all other replay items in their order.\<close>

lemma transcript_keeps_latest_snapshots:
  "filter (\<lambda>x. snapshot_key x = Some k) (explicit_transcript_from_path path) =
     (case last_opt (filter (\<lambda>x. snapshot_key x = Some k) (filter_map replay_of path)) of
        None \<Rightarrow> [] | Some item \<Rightarrow> [item])
   \<and> filter (\<lambda>x. snapshot_key x = None) (explicit_transcript_from_path path) =
     filter (\<lambda>x. snapshot_key x = None) (filter_map replay_of path)"
  using explicit_transcript_keyed explicit_transcript_unkeyed by blast

section \<open>Rewinding\<close>



section \<open>The tree view\<close>

text \<open>C32: On every entry list with unique ids, however its parents dangle or loop, the indents of
  the tree view are computed in finitely many steps, and the indent of a row is the number of
  forks on the way to it, saturating at the largest machine word.\<close>

lemma indents_are_fork_counts:
  assumes "distinct (map entry_id entries)"
  shows "\<exists>depths. visible_display_depths entries visible = Some depths
    \<and> (\<forall>x\<in>set entries. \<forall>path. root_path (index_of entries) x path \<longrightarrow> all_shown path \<longrightarrow>
         entry_id x \<in> visible \<longrightarrow> map_of depths (entry_id x) = Some (fork_depth entries path))"
  using visible_display_depths_returns[OF assms, of visible] by metis

lemma indents_are_fork_counts_witness:
  "\<exists>depths. visible_display_depths sample_log (visible_ids sample_log) = Some depths
     \<and> map_of depths (lit ''u3'') = Some 1"
proof -
  have dist: "distinct (map entry_id sample_log)" using log_wf_distinct[OF sample_log_wf] by simp
  have path: "root_path (index_of sample_log) e_u3 [e_header, e_u1, e_a1, e_t1, e_a2, e_u3]"
    using groundedD(2)[OF log_wf_grounded[OF sample_log_wf] log_wf_lookup[OF sample_log_wf sample_mem(7)]]
    by (simp add: sample_ancestry)
  have shown: "all_shown [e_header, e_u1, e_a1, e_t1, e_a2, e_u3]"
    by (simp add: all_shown_def sample_entries)
  have "fork_depth sample_log [e_header, e_u1, e_a1, e_t1, e_a2, e_u3] = 1"
    by (simp add: fork_depth_def forks_def usize_max_def sample_log_def sample_entries)
  moreover have "entry_id e_u3 \<in> visible_ids sample_log"
    using visible_ids_iff[OF dist sample_mem(7)] sample_rows(6) by simp
  ultimately show ?thesis
    using indents_are_fork_counts[OF dist, of "visible_ids sample_log"] sample_mem(7) path shown
    by (auto simp: sample_entries)
qed

text \<open>C33: On a well-formed log the tree view of a leaf is always produced.  Its rows are the
  visible entries of the path to the leaf, in order, each row's parent is the row above it,
  and the current row is the last one.\<close>

lemma tree_view_shows_path:
  assumes "log_wf {} entries" "leaf \<in> set entries" "\<not> is_leaf_kind (kind leaf)"
  shows "\<exists>snap. session_tree_snapshot_for_leaf J entries (entry_id leaf) = Some (Ok snap)
    \<and> map row_id (rows snap) = map entry_id (filter is_row (ancestry (index_of entries) leaf))
    \<and> current_row_id snap = map_option row_id (last_opt (rows snap))
    \<and> (\<forall>xs r ys. rows snap = xs @ r # ys \<longrightarrow> row_parent_id r = map_option row_id (last_opt xs))"
proof -
  let ?path = "ancestry (index_of entries) leaf"
  from snapshot_from_start_log[OF assms(1,2) resolve_path_non_leaf[OF assms] refl refl, where start = None and J = J]
  obtain depths where snap: "session_tree_snapshot_for_leaf J entries (entry_id leaf) = Some (Ok
       \<lparr>rows = indent_rows None depths (map (row_spec J entries ?path) (filter is_row ?path)),
        current_row_id = last_opt (map entry_id (filter is_row ?path)),
        active_row_ids = entry_id ` set (filter is_row ?path)\<rparr>)"
    by (auto simp: session_tree_snapshot_for_leaf_def start_index_def)
  define f where "f = (\<lambda>e. (row_spec J entries ?path e)\<lparr>display_depth := depth_or_zero depths (entry_id e)\<rparr>)"
  have rows: "indent_rows None depths (map (row_spec J entries ?path) (filter is_row ?path)) = map f (filter is_row ?path)"
    by (simp add: indent_rows_def f_def row_spec_def Let_def)
  have id: "row_id (f e) = entry_id e" and parent: "row_parent_id (f e) = visible_parent entries e" for e
    by (simp_all add: f_def row_spec_def Let_def)
  have "\<forall>xs r ys. map f (filter is_row ?path) = xs @ r # ys \<longrightarrow> row_parent_id r = map_option row_id (last_opt xs)"
  proof (intro allI impI)
    fix xs r ys assume "map f (filter is_row ?path) = xs @ r # ys"
    then obtain xs' e ys' where split: "filter is_row ?path = xs' @ e # ys'" "xs = map f xs'" "r = f e"
      by (auto simp: map_eq_append_conv map_eq_Cons_conv)
    from row_parent_is_previous[OF assms(1,2) split(1)] split(2,3) parent id
    show "row_parent_id r = map_option row_id (last_opt xs)"
      by (simp add: last_opt_map option.map_comp comp_def)
  qed
  then show ?thesis unfolding snap rows by (simp add: id last_opt_map option.map_comp comp_def)
qed

lemma tree_view_shows_path_witness:
  "\<exists>snap. session_tree_snapshot_for_leaf json0 sample_log (lit ''a2'') = Some (Ok snap)
    \<and> map row_id (rows snap) = [lit ''u1'', lit ''a1'', lit ''t1'', lit ''a2'']"
proof -
  have "\<not> is_leaf_kind (kind e_a2)" by (simp add: sample_entries)
  from tree_view_shows_path[OF sample_log_wf sample_mem(5) this, of json0] sample_rows
  show ?thesis by (auto simp: sample_ancestry) (auto simp: sample_entries)
qed

text \<open>The preview of a branch is always produced on a well-formed log.  It shows the path to
  the newest entry below the branch root, starting at the row above the branch root, or at
  the branch root itself when no row is above it.\<close>

lemma branch_preview_starts_at_fork:
  assumes "log_wf {} entries" "b \<in> set entries" "is_row b"
  shows "\<exists>snap. session_branch_preview_snapshot J entries (entry_id b) = Some (Ok snap)
    \<and> map row_id (rows snap) = map entry_id
        (dropWhile (\<lambda>e. entry_id e \<noteq> (case visible_parent entries b of Some i \<Rightarrow> i | None \<Rightarrow> entry_id b))
           (filter is_row (ancestry (index_of entries) (newest_below entries b))))"
  using branch_preview_log[OF assms refl refl] .

lemma branch_preview_starts_at_fork_witness:
  "\<exists>snap. session_branch_preview_snapshot json0 sample_log (lit ''u3'') = Some (Ok snap)
    \<and> map row_id (rows snap) = [lit ''a2'', lit ''u3'']"
proof -
  have parent: "visible_parent sample_log e_u3 = Some (lit ''a2'')"
    unfolding visible_parent_rows[OF sample_log_wf sample_mem(7)] sample_ancestry
    using sample_rows by simp (simp add: sample_entries)
  have below: "in_subtree (index_of sample_log) (entry_id e_u3) e_k1"
    by (simp add: in_subtree_def sample_ancestry)
  define P where "P = (\<lambda>e. \<not> is_leaf_kind (kind e) \<and> in_subtree (index_of sample_log) (entry_id e_u3) e)"
  have "P e_k1" "\<not> P e_l1" using below by (simp_all add: P_def) (simp_all add: sample_entries)
  then have "last (filter P sample_log) = e_k1" by (simp add: sample_log_def)
  then have "newest_below sample_log e_u3 = e_k1" by (simp add: newest_below_def P_def)
  with branch_preview_starts_at_fork[OF sample_log_wf sample_mem(7) sample_rows(6), of json0] parent sample_rows
  show ?thesis by (auto simp: sample_ancestry) (auto simp: sample_entries)
qed

text \<open>C34: On a well-formed log the branch tree is always produced for every leaf: its nodes are the
  branch roots in log order (the rows without a visible parent and the rows with a visible
  sibling), the total is the number of rows, and the current branch is the last branch root
  on the path to the leaf.\<close>

lemma branch_tree_lists_branch_roots:
  assumes "log_wf {} entries" "leaf \<in> set entries" "\<not> is_leaf_kind (kind leaf)"
  shows "\<exists>snap. session_branch_tree_snapshot_for_requested_leaf J entries (Some (entry_id leaf)) = Some (Ok snap)
    \<and> map (\<lambda>n. branch_row_id (node_branch n)) (nodes snap) = map entry_id (filter (is_branch_root entries) entries)
    \<and> total_message_count snap = length (filter is_row entries)
    \<and> current_branch_row_id snap = map_option entry_id
        (last_opt (filter (is_branch_root entries) (ancestry (index_of entries) leaf)))"
  unfolding session_branch_tree_snapshot_log[OF assms(1,2) resolve_path_non_leaf[OF assms]]
  by (simp add: Let_def current_branch_def branch_node_spec_def branch_summary_spec_def session_branch_summary_def)

lemma branch_tree_lists_branch_roots_witness:
  "\<exists>snap. session_branch_tree_snapshot_for_requested_leaf json0 sample_log (Some (lit ''a2'')) = Some (Ok snap)
    \<and> total_message_count snap = 6"
proof -
  have "\<not> is_leaf_kind (kind e_a2)" by (simp add: sample_entries)
  moreover have "length (filter is_row sample_log) = 6" using sample_rows by (simp add: sample_log_def)
  ultimately show ?thesis
    using branch_tree_lists_branch_roots[OF sample_log_wf sample_mem(5), of json0] by (auto simp: sample_entries)
qed

text \<open>C35: In the branch tree of a well-formed log, the messages counted for the branches without a
  parent branch add up to the total: every message belongs to exactly one of them.\<close>

lemma top_branches_count_every_message_once:
  assumes "log_wf {} entries" "leaf \<in> set entries" "\<not> is_leaf_kind (kind leaf)"
    "session_branch_tree_snapshot_for_requested_leaf J entries (Some (entry_id leaf)) = Some (Ok snap)"
  shows "sum_list (map (\<lambda>n. message_count (node_branch n))
      (filter (\<lambda>n. parent_branch_row_id n = None) (nodes snap))) = total_message_count snap"
  using assms(4) unfolding session_branch_tree_snapshot_log[OF assms(1,2) resolve_path_non_leaf[OF assms(1-3)]]
  by (auto simp: Let_def top_branches_partition[OF assms(1)])

lemma top_branches_count_every_message_once_witness:
  "\<exists>snap. session_branch_tree_snapshot_for_requested_leaf json0 sample_log (Some (entry_id e_a2)) = Some (Ok snap)
    \<and> sum_list (map (\<lambda>n. message_count (node_branch n))
        (filter (\<lambda>n. parent_branch_row_id n = None) (nodes snap))) = total_message_count snap"
proof -
  have "\<not> is_leaf_kind (kind e_a2)" by (simp add: sample_entries)
  note facts = sample_log_wf sample_mem(5) this
  from session_branch_tree_snapshot_log[OF facts(1,2) resolve_path_non_leaf[OF facts], of json0]
  obtain snap where "session_branch_tree_snapshot_for_requested_leaf json0 sample_log (Some (entry_id e_a2)) = Some (Ok snap)"
    by blast
  with top_branches_count_every_message_once[OF facts this] show ?thesis by blast
qed

section \<open>Log files\<close>

text \<open>C19: However many bytes of a batch reach the log file, the file loads afterwards: it holds all
  older entries and the first of the new ones, and all of them when the write succeeded.\<close>

lemma cut_batch_leaves_loadable_prefix:
  assumes "log_wf {} (old @ new)" "\<forall>e\<in>set (old @ new). encodes C e"
    "write_batch C fault new w (Some (log_lines C old)) = (r, w', f')"
  shows "\<exists>k\<ge>length old. load_file C f' = Ok (take k (old @ new)) \<and> (r = Ok () \<longrightarrow> length (old @ new) \<le> k)"
  by (rule load_after_batch[OF assms])

lemma cut_batch_leaves_loadable_prefix_witness:
  "\<exists>k\<ge>1. load_file codec0 (snd (snd (write_batch codec0 (WriteFails 2) [e_u1] new_writer
      (Some (log_lines codec0 [e_header]))))) = Ok (take k [e_header, e_u1])"
proof -
  obtain r w' f' where wb: "write_batch codec0 (WriteFails 2) [e_u1] new_writer (Some (log_lines codec0 [e_header])) = (r, w', f')"
    by (rule prod_cases3)
  have "log_wf {} ([e_header] @ [e_u1])" by (simp add: sample_entries)
  moreover have "\<forall>e\<in>set ([e_header] @ [e_u1]). encodes codec0 e" using codec0_encodes sample_mem by simp
  ultimately show ?thesis using cut_batch_leaves_loadable_prefix[OF _ _ wb] wb by auto
qed

text \<open>The loader reads every line it can decode and skips all others: it keeps the first entry
  with each id, in order, and fails exactly when one of them names a parent that is not in
  the file.\<close>

lemma loader_keeps_every_readable_entry:
  assumes "\<forall>chunk\<in>set chunks. good_chunk C chunk"
  shows "load_file C (Some (concat (map (chunk_bytes C) chunks))) =
     and_then (validate_parent_links (first_by_id {} (chunk_entries chunks)) (entry_id ` set (chunk_entries chunks)))
       (\<lambda>_. Ok (first_by_id {} (chunk_entries chunks)))"
  using load_chunks[OF assms] load_lines[of "chunk_entries chunks" C] assms
  by (fastforce simp: chunk_entries_def good_chunk_def List.map_filter_def split: sum.splits)

lemma loader_keeps_every_readable_entry_witness:
  "load_file codec0 (Some (concat (map (chunk_bytes codec0) [Inr e_header, Inl [120], Inr e_u1, Inr e_header]))) =
     Ok [e_header, e_u1]"
proof -
  have "unreadable codec0 [120]"
    by (auto simp: unreadable_def codec0_def codec_for_def find_None_iff braced_def)
  then have "\<forall>chunk\<in>set [Inr e_header, Inl [120], Inr e_u1, Inr e_header]. good_chunk codec0 chunk"
    using codec0_encodes sample_mem by (simp add: good_chunk_def)
  from loader_keeps_every_readable_entry[OF this] show ?thesis
    by (simp add: chunk_entries_def sample_entries)
qed

text \<open>C36: After a torn line without line feed the loader reads the older entries, but the first
  entry of the next batch shares the torn line and is skipped from then on, although its
  write was acknowledged.  If a later entry hangs below it, the session no longer loads.\<close>

lemma entry_behind_torn_line_is_lost:
  assumes "log_wf {} (old @ e # new)" "\<forall>x\<in>set (old @ e # new). encodes C x"
    "unreadable C (torn @ body C e)"
    "write_batch C NoFault (e # new) w (Some (log_lines C old @ torn)) = (r, w', f')"
  shows "r = Ok () \<and> load_file C f' =
     (if \<exists>x\<in>set new. parent_id x = Some (entry_id e) then Err (StoreDanglingParent (entry_id e))
      else Ok (old @ new))"
  by (rule load_behind_torn_line[OF assms])

lemma entry_behind_torn_line_is_lost_witness:
  "load_file codec0 (Some (log_lines codec0 [e_header] @ [123])) = Ok [e_header]
   \<and> fst (write_batch codec0 NoFault [e_u1, e_a1] new_writer (Some (log_lines codec0 [e_header] @ [123]))) = Ok ()
   \<and> load_file codec0 (snd (snd (write_batch codec0 NoFault [e_u1, e_a1] new_writer
        (Some (log_lines codec0 [e_header] @ [123]))))) = Err (StoreDanglingParent (lit ''u1''))"
proof -
  obtain r w' f' where wb: "write_batch codec0 NoFault [e_u1, e_a1] new_writer
      (Some (log_lines codec0 [e_header] @ [123])) = (r, w', f')"
    by (rule prod_cases3)
  have wf: "log_wf {} ([e_header] @ e_u1 # [e_a1])" by (simp add: sample_entries)
  have enc: "\<forall>x\<in>set ([e_header] @ e_u1 # [e_a1]). encodes codec0 x" using codec0_encodes sample_mem by simp
  have u1: "body codec0 e_u1 = [123, 117, 49, 125]"
    using sample_mem(2) by (simp add: body_def codec0_def codec_for_def braced_def)
      (simp add: sample_entries lit_def utf8_encode_def utf8_char_def)
  have "unreadable codec0 ([123] @ body codec0 e_u1)"
    unfolding u1 by (simp add: unreadable_def codec0_def codec_for_def find_None_iff braced_def)
      (simp add: sample_log_def sample_entries lit_def)
  from entry_behind_torn_line_is_lost[OF wf enc this wb]
  have "r = Ok ()" "load_file codec0 f' = Err (StoreDanglingParent (lit ''u1''))"
    by (simp_all add: sample_entries)
  moreover have "load_file codec0 (Some (log_lines codec0 [e_header] @ take 1 (body codec0 e_u1))) = Ok [e_header]"
  proof (rule load_of_scan)
    show "log_wf {} [e_header]" by (simp add: sample_entries)
    have "first_by_id {} [e_header] = [e_header]" by simp
    with scan_lines[of "[e_header]" codec0 "\<lambda>loaded e. Ok (loaded @ [e])" "{}" "[]" "take 1 (body codec0 e_u1)"]
      scan_torn[of codec0 e_u1 1] enc u1
    show "scan_loop codec0 (\<lambda>loaded e. Ok (loaded @ [e])) {} []
        (log_lines codec0 [e_header] @ take 1 (body codec0 e_u1)) = Ok (entry_id ` set [e_header], [e_header])"
      by simp
  qed
  ultimately show ?thesis using wb u1 by simp
qed

section \<open>The recorder\<close>

text \<open>Whatever clients, worker and failures do, the commands are handled in the order they were
  sent, none is lost or repeated, and at most 256 of them wait.\<close>

lemma commands_are_handled_in_order:
  assumes "recorder_run C faults (new_recorder f) trace r"
  shows "sent_commands trace = handled_commands trace @ channel r \<and> length (channel r) \<le> 256"
  using channel_fifo[OF assms] by (simp add: record_command_capacity_def)

lemma commands_are_handled_in_order_witness:
  "sent_commands trace0 = handled_commands trace0"
proof -
  from trace0_run obtain r where run: "recorder_run codec0 (clean_fault codec0) (new_recorder None) trace0 r"
    and "channel r = []" by blast
  with commands_are_handled_in_order[OF run] show ?thesis by simp
qed

text \<open>C7: Suppose no failure leaves a torn line.  Once a persist, flush or shutdown has been
  acknowledged, the log file loads at every later moment, it holds the entries from before
  the session was opened and every entry of the commands handled before the acknowledgement,
  in the order they were buffered, and after them at most entries that were buffered as well.\<close>

lemma acknowledged_entries_survive:
  assumes "recorder_run C (clean_fault C) (new_recorder f) trace r" "file_content f = log_lines C old"
    "codec_ok C" "\<forall>e\<in>set old. to_json C e \<noteq> None"
    "log_wf {} (old @ buffered (handled_commands trace))"
    "trace = t1 @ Handled c (Some (Ok ())) # t2"
  shows "\<exists>loaded. load_file C (Some (file_content (log_file r))) = Ok loaded
     \<and> prefix (old @ buffered (handled_commands t1)) loaded
     \<and> prefix loaded (old @ buffered (handled_commands trace))"
  using acknowledged_survives[OF assms(1-5)] assms(6) unfolding acknowledged_def by blast

lemma acknowledged_entries_survive_witness:
  "\<exists>r. recorder_run codec0 (clean_fault codec0) (new_recorder None) trace0 r
     \<and> load_file codec0 (log_file r) = Ok [e_header]"
proof -
  from trace0_run obtain r where run: "recorder_run codec0 (clean_fault codec0) (new_recorder None) trace0 r"
    and content: "log_file r = Some (log_lines codec0 [e_header])" by blast
  have handed: "buffered (handled_commands trace0) = [e_header]"
    by (simp add: trace0_def handled_commands_def buffered_def)
  let ?t1 = "[Sent (Buffer [e_header]), Sent Persist, Handled (Buffer [e_header]) None,
     Handled Persist (Some (Err IoError)), Sent Persist]"
  have "trace0 = ?t1 @ Handled Persist (Some (Ok ())) # []" by (simp add: trace0_def)
  moreover have "buffered (handled_commands ?t1) = [e_header]" by (simp add: handled_commands_def buffered_def)
  moreover have "log_wf {} ([] @ [e_header])" by (simp add: sample_entries)
  ultimately have "\<exists>loaded. load_file codec0 (Some (file_content (log_file r))) = Ok loaded
     \<and> prefix ([] @ [e_header]) loaded \<and> prefix loaded ([] @ [e_header])"
    using acknowledged_entries_survive[OF run, of "[]" ?t1 Persist "[]"] handed codec0_ok
    by (simp add: file_content_def)
  with run content show ?thesis by (auto simp: file_content_def dest: prefix_order.antisym)
qed

section \<open>The stores\<close>

text \<open>C10: In every store in memory that its operations reach, whatever ids and times they draw,
  every session can be shown: its tree view and its branch tree are produced, and its default
  query resolves, since no operation writes a compaction.\<close>

lemma reachable_store_answers:
  assumes "memory_reachable P (st, c)" "map_of (sessions st) sid = Some s"
  shows "(\<exists>snap. memory_load_session_tree J st sid = Some (Ok snap))
    \<and> (\<exists>tree. memory_load_session_branch_tree J st sid = Some (Ok tree))
    \<and> (\<exists>state. memory_load_session st sid None = Ok state)"
proof -
  from memory_reachable_safe[OF assms(1)] assms(2)
  have log: "session_log (session_entries s)" and plain: "\<forall>e\<in>set (session_entries s). compaction_of e = None"
    by (auto simp: memory_inv_def uncompacted_def)
  note facts = session_log_wf[OF log] session_log_not_empty[OF log]
  from session_tree_snapshot_total[OF facts, of J] session_branch_tree_snapshot_total[OF facts, of J]
    query_default_total[OF log plain] assms(2)
  show ?thesis
    by (auto simp: memory_load_session_tree_def memory_load_session_branch_tree_def memory_load_session_def
        tree_query_def with_session_def map_outcome_err_def)
qed

lemma reachable_store_answers_witness:
  "\<exists>snap. memory_load_session_tree json0 memory0 1 = Some (Ok snap)"
  using reachable_store_answers[OF memory0_reachable memory0_session] by blast

text \<open>C20: When the store in memory and the store on disk show the same items of a session, they do so
  again after the same items were appended to both: what they showed, and behind it the new
  items, whatever entry ids and times each of them drew.\<close>

lemma stores_show_same_conversation:
  assumes "memory_reachable P (st, c0)" "map_of (sessions st) sid = Some s" "memory_resolve st sid None = Ok shown"
    "memory_append_many P sid its st c = Some (Ok ids, st', c')"
    "open_ok C lst lsid h" "env_codec E = C" "append_faults_clean E lst h (map Item its)" "its \<noteq> []"
    "query_items (accepted h) None = Ok shown" "local_append_many E lsid its lst d = Some (Ok lids, lst', d')"
  shows "memory_resolve st' sid None = Ok (shown @ its)
    \<and> fst (local_resolve E lsid None lst') = Ok (shown @ its)"
  using memory_conversation_grows[OF _ assms(2,4,3)] memory_reachable_safe[OF assms(1)]
    local_conversation_grows[OF assms(5-8,10,9)] by simp

lemma stores_show_same_conversation_witness:
  "\<exists>st' lst' c' d'. memory_append_many platform0 1 [item_text User (lit ''hello'')] memory0 \<lparr>uuid_at = 1, clock_at = 1\<rparr>
       = Some (Ok [short_entry_id 2], st', c')
     \<and> local_append_many local_env0 7 [item_text User (lit ''hello'')] local0 cursor0 = Some (Ok [entry_id e_new], lst', d')
     \<and> memory_resolve st' 1 None = fst (local_resolve local_env0 7 None lst')"
proof -
  obtain st' c' where m: "memory_append_many platform0 1 [item_text User (lit ''hello'')] memory0 \<lparr>uuid_at = 1, clock_at = 1\<rparr>
       = Some (Ok [short_entry_id 2], st', c')" using memory0_append by blast
  obtain lst' d' where l: "local_append_many local_env0 7 [item_text User (lit ''hello'')] local0 cursor0
       = Some (Ok [entry_id e_new], lst', d')" using local0_append by blast
  have "query_items (accepted handle0) None = Ok []"
    using header_only_items[OF header_log] handle0_inv by (simp add: sample_entries)
  from stores_show_same_conversation[OF memory0_reachable memory0_session memory0_resolve m local0_open _ local0_faults _ this l] m l
  show ?thesis by auto
qed

text \<open>After the leaf of a session on disk was moved to an entry, the default query shows what a
  query of that entry showed before.\<close>

lemma moved_leaf_is_shown:
  assumes "open_ok C st sid h" "env_codec E = C" "append_faults_clean E st h [Leaf (Some (entry_id t))]"
    "t \<in> set (accepted h)" "\<not> is_leaf_kind (kind t)"
    "local_set_leaf E sid (Some (entry_id t)) st c = Some (Ok (), st', c')"
  shows "fst (local_load_session E sid None st') = query_state (accepted h) (Some (entry_id t))"
  by (rule local_leaf_moved[OF assms])

lemma moved_leaf_is_shown_witness:
  "\<exists>st' c'. local_set_leaf local_env0 7 (Some (lit ''header'')) local0 cursor1 = Some (Ok (), st', c')
     \<and> fst (local_load_session local_env0 7 None st') = query_state [e_header] (Some (lit ''header''))"
proof -
  obtain st' c' where l: "local_set_leaf local_env0 7 (Some (lit ''header'')) local0 cursor1 = Some (Ok (), st', c')"
    using local0_set_leaf by blast
  have e: "entry_id e_header = lit ''header''" "\<not> is_leaf_kind (kind e_header)" by (simp_all add: sample_entries)
  from moved_leaf_is_shown[OF local0_open _ local0_faults, of e_header, unfolded e(1), OF _ _ e(2) l] l handle0_inv
  show ?thesis by auto
qed

text \<open>The same holds for the store in memory.\<close>

lemma moved_leaf_is_shown_in_memory:
  assumes "memory_reachable P (st, c0)" "map_of (sessions st) sid = Some s"
    "t \<in> set (session_entries s)" "\<not> is_leaf_kind (kind t)"
    "memory_set_leaf P sid (Some (entry_id t)) st c = Some (Ok (), st', c')"
  shows "memory_load_session st' sid None = memory_load_session st sid (Some (entry_id t))"
  using memory_leaf_moved[OF _ assms(2-5)] memory_reachable_safe[OF assms(1)] by simp

lemma moved_leaf_is_shown_in_memory_witness:
  "\<exists>st' c'. memory_set_leaf platform0 1 (Some header_id) memory0 \<lparr>uuid_at = 1, clock_at = 1\<rparr> = Some (Ok (), st', c')
     \<and> memory_load_session st' 1 None = memory_load_session memory0 1 (Some header_id)"
proof -
  obtain st' c' where l: "memory_set_leaf platform0 1 (Some header_id) memory0 \<lparr>uuid_at = 1, clock_at = 1\<rparr> = Some (Ok (), st', c')"
    using memory0_set_leaf by blast
  have e: "entry_id mem_header = header_id" "\<not> is_leaf_kind (kind mem_header)" by (simp_all add: mem_header_def)
  from moved_leaf_is_shown_in_memory[OF memory0_reachable memory0_session, of mem_header, unfolded e(1), OF _ e(2) l] l
  show ?thesis by auto
qed



text \<open>A session that was closed without error, its recorder shut down after the last write, reads
  back: the log file holds exactly the entries the session had, those of failed writes
  included, and a handle opened on it holds them again.\<close>

lemma closed_session_reopens:
  assumes "handle_inv C h" "codec_ok C" "clean_fault C (pending_state (handle_state h)) fault"
    "shutdown_handle P C fault h = (Ok m, h')"
  shows "\<exists>content. log_file (handle_recorder h') = Some content
     \<and> load_file C (Some content) = Ok (accepted h)
     \<and> (\<exists>h2. new_handle P' path (Some content) (accepted h) = Ok h2 \<and> handle_inv C h2 \<and> accepted h2 = accepted h)"
  by (rule shutdown_handle_reopens[OF assms])

lemma closed_session_reopens_witness:
  "\<exists>content. log_file (handle_recorder (snd (shutdown_handle platform0 codec1 NoFault handle0))) = Some content
     \<and> load_file codec1 (Some content) = Ok [e_header]"
proof -
  have r: "handle_recorder handle0 = new_recorder (Some (log_lines codec1 [e_header]))"
    and pend: "pending_state (handle_state handle0) = []" and inv: "handle_inv codec1 handle0"
    and acc: "accepted handle0 = [e_header]" using handle0_inv by blast+
  have "persist_pending codec1 NoFault (worker (handle_recorder handle0)) (log_file (handle_recorder handle0))
      = (Ok (), worker (handle_recorder handle0), log_file (handle_recorder handle0))"
    by (simp add: persist_pending_def r new_recorder_def new_worker_def)
  from recorder_shutdown_answer[OF _ _ _ this] obtain r'
    where "recorder_shutdown codec1 NoFault (handle_recorder handle0) = (Ok (), r')"
    using inv by (auto simp: handle_inv_def)
  moreover have "commit_pending_state_entries platform0 f path (handle_state handle0) = (Ok (), handle_state handle0)" for f path
    by (simp add: commit_pending_state_entries_def pend)
  ultimately obtain h' where "shutdown_handle platform0 codec1 NoFault handle0 = (Ok (state_meta (handle_state handle0)), h')"
    by (simp add: shutdown_handle_def)
  from closed_session_reopens[OF inv codec1_ok _ this] this acc show ?thesis
    by (auto simp: clean_fault_def)
qed

text \<open>In every store on disk that its operations reach, at most 64 sessions are open, each
  once.\<close>

lemma open_sessions_are_bounded:
  assumes "local_reachable E st" "iterates_keys E"
  shows "length (recorders st) \<le> 64 \<and> distinct (map fst (recorders st))"
  using local_reachable_few[OF assms] by (simp add: few_handles_def max_open_session_handles_def)

lemma open_sessions_are_bounded_witness:
  "\<exists>st. fst (open_in local_env0 [] (Some empty_index)) = Ok st \<and> length (recorders st) \<le> 64"
proof -
  have "iterates_keys local_env0" by (simp add: iterates_keys_def local_env0_def)
  moreover have "open_in local_env0 [] (Some empty_index) =
      (Ok \<lparr>recorders = [], index = empty_index, store_disk = [], faults_used = 0\<rparr>, empty_index)"
    by (simp add: open_in_def)
  ultimately show ?thesis using open_sessions_are_bounded[OF local_reachable.opened] by simp
qed

text \<open>C40: The entries of a batch are linked as if they had been appended one by one: the running
  projection of the parent, kept while the batch is built, gives each entry the parent that is
  computed from the log and the entries of the batch before it; and all ids are new.\<close>

lemma batch_is_linked_like_single_appends:
  assumes "build_batch P (entry_ids entries) {} (append_parent_id entries, latest_non_leaf_id entries) kinds [] c
     = Some (Ok es, c')"
  shows "map kind es = kinds \<and> distinct (map entry_id es) \<and> entry_ids es \<inter> entry_ids entries = {}
     \<and> (\<forall>n<length es. parent_id (es ! n) = append_parent_id (entries @ take n es))"
  by (rule build_batch_links[OF assms])

lemma batch_is_linked_like_single_appends_witness:
  "entry_ids [e_new] \<inter> entry_ids [e_header] = {} \<and> parent_id e_new = append_parent_id [e_header]"
proof -
  from batch_is_linked_like_single_appends[of platform0 "[e_header]", unfolded header_projection, OF batch0]
  have "entry_ids [e_new] \<inter> {lit ''header''} = {}" "\<forall>n<length [e_new]. parent_id ([e_new] ! n) =
      append_parent_id ([e_header] @ take n [e_new])" by blast+
  then show ?thesis by (simp add: header_projection)
qed

text \<open>C37: An append to an open session succeeds, and returns the ids of its entries, when no write
  fails, the entries can be serialised and ids and times for them were drawn; entries left by
  earlier failures do not prevent it.\<close>

lemma append_without_failures_succeeds:
  assumes "open_ok C st sid h" "env_codec E = C"
    "next_fault E st = NoFault" "io_faults E (Suc (faults_used st)) = NoFault"
    "\<forall>e\<in>set (pending_state (handle_state h)). to_json C e \<noteq> None"
    "validate_append_kinds kinds = Ok ()" "kinds \<noteq> []" "\<forall>k\<in>set kinds. \<not> is_leaf_kind k"
    "build_batch (env_platform E) (entry_ids (accepted h)) {}
       (append_parent_id (accepted h), latest_non_leaf_id (accepted h)) kinds [] c = Some (Ok es, c')"
    "\<forall>e\<in>set es. to_json C e \<noteq> None"
  shows "\<exists>st'. local_append_entries E sid kinds st c = Some (Ok (map entry_id es), st', c')"
  by (rule append_succeeds[OF assms])

lemma append_without_failures_succeeds_witness:
  "\<exists>st'. local_append_entries local_env0 7 [Item (item_text User (lit ''hello''))] local0 cursor0
     = Some (Ok [entry_id e_new], st', \<lparr>uuid_at = 1, clock_at = 1\<rparr>)"
proof -
  have "validate_append_kinds [Item (item_text User (lit ''hello''))] = Ok ()"
    by (simp add: item_text_def has_tool_call_def)
  with append_without_failures_succeeds[OF local0_open local_env0_simps(1),
      where kinds = "[Item (item_text User (lit ''hello''))]" and es = "[e_new]"]
    batch0 handle0_inv codec1_to_json header_projection
  show ?thesis by simp
qed

section \<open>The catalogue\<close>

text \<open>C38: A repair of a project makes its catalogue name exactly the log files of the project, and
  repairing again, the files unchanged, does nothing.  Files and rows have to agree on who is
  who: every file yields a session of the project, no two files the same session, and no row
  at the path of a file belongs to the session of another file.\<close>

lemma repair_settles:
  assumes "repairable E d p found mt idx"
    "collect_jsonl_files (index_modified E) d (sessions_dir E @ 47 # encoded_session_dir p) = Ok found"
    "repair_project_from_jsonl E d p idx = (Ok (), idx')"
  shows "meta_jsonl_path ` set (list_session_rows show_id idx' p) = found_path ` set found
     \<and> repair_project_from_jsonl E d p idx' = (Ok (), idx')"
  using repair_paths[OF assms] repair_again[OF assms] by simp

lemma repair_settles_witness:
  "\<exists>idx. repair_project_from_jsonl index_env0 disk0 (lit ''/repo'') empty_index = (Ok (), idx)
     \<and> meta_jsonl_path ` set (list_session_rows (show_uuid platform0) idx (lit ''/repo'')) = {path0}"
proof -
  obtain idx where r: "repair_project_from_jsonl index_env0 disk0 (lit ''/repo'') empty_index = (Ok (), idx)"
    using repair0 by blast
  have "collect_jsonl_files (index_modified index_env0) disk0
      (sessions_dir index_env0 @ 47 # encoded_session_dir (lit ''/repo'')) = Ok [found0]"
    using collect0 by simp
  from repair_settles[OF repairable0 this r, of "show_uuid platform0"] r show ?thesis by (auto simp: found0_def)
qed



text \<open>The catalogue of a project lists exactly the sessions of the project, each as a single
  lookup returns it, and newest first: by the last update, then by the creation, then by the
  text of the id.\<close>

lemma catalogue_lists_project_newest_first:
  assumes "index_ok idx"
  shows "set (list_session_rows show_id idx p) =
       {m. meta_project_dir m = p \<and> (\<exists>sid. get_session_meta_row idx sid = Ok m)}
    \<and> length (list_session_rows show_id idx p) = length (filter (\<lambda>(sid, m). meta_project_dir m = p) (session_rows idx))
    \<and> sorted (rev (map (\<lambda>m. (meta_updated_at m, meta_created_at m, show_id (meta_session_id m)))
        (list_session_rows show_id idx p)))"
proof -
  from assms have "distinct (map fst (session_rows idx))" by (simp add: index_ok_def)
  note mem = map_of_mem[OF this]
  have "set (list_session_rows show_id idx p) =
       {m. meta_project_dir m = p \<and> (\<exists>sid. get_session_meta_row idx sid = Ok m)}"
    by (auto simp: list_session_rows_def get_session_meta_row_def ok_or_eq_Ok mem row_to_session_meta_def)
       (force simp: mem)
  then show ?thesis
    using newest_first_sorted by (simp add: list_session_rows_def)
qed

lemma catalogue_lists_project_newest_first_witness:
  "\<exists>idx. upsert_session_row empty_index meta0 = Ok idx
     \<and> set (list_session_rows (show_uuid platform0) idx (lit ''/repo'')) =
       {m. meta_project_dir m = lit ''/repo'' \<and> (\<exists>sid. get_session_meta_row idx sid = Ok m)}"
proof -
  obtain idx where up: "upsert_session_row empty_index meta0 = Ok idx"
    by (simp add: upsert_session_row_def checked_i64_def meta0_eq i64_max_def)
  from catalogue_lists_project_newest_first[OF index_ok_upsert_session[OF index_ok_empty up]] up show ?thesis by blast
qed

text \<open>The catalogue row read from a log file by one pass over its lines is the metadata derived
  from the entries the loader returns for the file, for every file that loads.\<close>

lemma catalogue_agrees_with_loader:
  assumes "load_file (index_codec E) (map_of d (found_path f)) = Ok entries"
  shows "extract_session_meta E d f =
     and_then (derive_session_meta (show_uuid (index_platform E)) (canonicalize (index_platform E)) entries
        (found_path f) (Some (fp_size (found_fp f)))) (\<lambda>m. Ok (m, found_fp f))"
  by (rule extract_derives[OF assms])

lemma catalogue_agrees_with_loader_witness:
  "extract_session_meta index_env0 disk0 found0 =
     and_then (derive_session_meta (show_uuid platform0) (canonicalize platform0) [e_header] path0 (Some 9))
       (\<lambda>m. Ok (m, found_fp found0))"
  using catalogue_agrees_with_loader[of index_env0 disk0 found0 "[e_header]"] load0 by (simp add: found0_def)

text \<open>What was stored for a session is what a lookup returns, with the size of its log file taken
  from the repair row.\<close>

lemma catalogue_returns_what_was_stored:
  assumes "upsert_session_row idx m = Ok idx1"
    "upsert_repair_state idx1 (meta_session_id m) path fp = Ok idx2"
  shows "get_session_meta_row idx2 (meta_session_id m) = Ok (m\<lparr>meta_size_bytes := Some (fp_size fp)\<rparr>)"
  by (rule get_after_upsert[OF assms])

lemma catalogue_returns_what_was_stored_witness:
  "\<exists>idx1 idx2. upsert_session_row empty_index meta0 = Ok idx1
     \<and> upsert_repair_state idx1 (meta_session_id meta0) path0 (found_fp found0) = Ok idx2
     \<and> get_session_meta_row idx2 (meta_session_id meta0) = Ok (meta0\<lparr>meta_size_bytes := Some 9\<rparr>)"
proof -
  obtain idx1 where up: "upsert_session_row empty_index meta0 = Ok idx1" "repair_rows idx1 = []"
    by (simp add: upsert_session_row_def checked_i64_def meta0_eq i64_max_def) (simp add: empty_index_def)
  then obtain idx2 where up2: "upsert_repair_state idx1 (meta_session_id meta0) path0 (found_fp found0) = Ok idx2"
    by (simp add: upsert_repair_state_def checked_i64_def i64_max_def found0_def)
  from catalogue_returns_what_was_stored[OF up(1) up2] up(1) up2 show ?thesis by (simp add: found0_def)
qed

section \<open>Metadata, ids and names\<close>

text \<open>The metadata of a session names the first header's session and creation time, the first and
  the latest user message and the latest assistant message (each cut to 256 characters and never
  empty), the model of the last configuration, or of the header when there is none, and the
  time of the last entry.\<close>

lemma metadata_is_first_and_last:
  assumes "derive_session_meta show_id canon entries path bytes = Ok m"
  shows "\<exists>h created. first_opt (filter_map header_of entries) = Some (h, created)
    \<and> meta_session_id m = header_session_id h \<and> meta_created_at m = created
    \<and> meta_first_user m = preview_of (first_opt (filter_map (role_text User) entries))
    \<and> meta_preview m = preview_of (last_opt (filter_map (role_text User) entries))
    \<and> meta_last_assistant m = preview_of (last_opt (filter_map (role_text Assistant) entries))
    \<and> meta_model m = Some (case last_opt (filter_map model_of entries) of Some x \<Rightarrow> x | None \<Rightarrow> initial_model h)
    \<and> (entries \<noteq> [] \<and> meta_updated_at m = timestamp (last entries))
    \<and> (\<forall>t\<in>set_option (meta_preview m) \<union> set_option (meta_first_user m) \<union> set_option (meta_last_assistant m).
         t \<noteq> [] \<and> length t \<le> 256)"
proof -
  from assms obtain h created where header: "first_opt (filter_map header_of entries) = Some (h, created)"
    and m: "m = \<lparr>meta_session_id = header_session_id h, meta_project_dir = canon (work_dir h),
           meta_title = title_of show_id h (first_opt (filter_map (role_text User) entries)),
           meta_preview = preview_of (last_opt (filter_map (role_text User) entries)),
           meta_first_user = preview_of (first_opt (filter_map (role_text User) entries)),
           meta_last_assistant = preview_of (last_opt (filter_map (role_text Assistant) entries)),
           meta_total_tokens = 0,
           meta_model = or_else (last_opt (filter_map model_of entries)) (Some (initial_model h)),
           meta_created_at = created,
           meta_updated_at = (case map_option timestamp (last_opt entries) of Some t \<Rightarrow> t | None \<Rightarrow> created),
           meta_git_head = header_git_head h, meta_jsonl_path = path, meta_size_bytes = bytes\<rparr>"
    by (auto simp: derive_session_meta_eq finish_meta_def deriver_of_def and_then_eq_Ok ok_or_eq_Ok)
  have "entries \<noteq> []" using header by (auto simp: first_opt_def)
  moreover have "t \<noteq> [] \<and> length t \<le> 256" if "preview_of s = Some t" for s t
    using preview_bounds[OF that] by (simp add: session_message_preview_char_limit_def)
  ultimately show ?thesis using header unfolding m
    by (auto simp: last_opt_eq or_else_def split: option.splits)
qed

lemma metadata_is_first_and_last_witness:
  "meta_updated_at meta0 = 1 \<and> meta_model meta0 = Some (lit ''m0'')"
proof -
  have "filter_map header_of [e_header] = [(header0, 1)]" "filter_map model_of [e_header] = []"
    by (simp_all add: header_of_def model_of_def sample_entries)
  with metadata_is_first_and_last[OF meta0_eq(1)] show ?thesis
    by (auto simp: first_opt_def header0_def sample_entries)
qed

text \<open>An entry id is found whenever some UUID drawn after the hundred tries for a short id is not
  yet in use as text, and the id found is new.\<close>

lemma entry_id_is_fresh_and_found:
  assumes "entry_id_retry_limit \<le> k" "show_uuid P (next_uuid P (uuid_at c + k)) \<notin> ids"
  shows "\<exists>i c'. generate_entry_id P ids c = Some (i, c') \<and> i \<notin> ids"
  using generate_entry_id_returns[OF assms(1), of "show_uuid P" "next_uuid P", OF assms(2)]
    generate_entry_id_fresh
  by (fastforce simp: generate_entry_id_def)

lemma entry_id_is_fresh_and_found_witness:
  "\<exists>i c'. generate_entry_id platform0 {short_entry_id 1} cursor0 = Some (i, c') \<and> i \<notin> {short_entry_id 1}"
proof (rule entry_id_is_fresh_and_found[of 100])
  show "show_uuid platform0 (next_uuid platform0 (uuid_at cursor0 + 100)) \<notin> {short_entry_id 1}"
  proof
    assume "show_uuid platform0 (next_uuid platform0 (uuid_at cursor0 + 100)) \<in> {short_entry_id 1}"
    then have "length (show_uuid platform0 (next_uuid platform0 (uuid_at cursor0 + 100))) = 8" by simp
    then show False by (simp add: platform0_def cursor0_def)
  qed
qed (simp add: entry_id_retry_limit_def)

text \<open>Two short entry ids are equal exactly when the low 32 bits of their UUIDs are, and the time
  in the UUID of a session id stays below 2 to the 48.\<close>

lemma short_ids_are_low_bits:
  "(short_entry_id u = short_entry_id v \<longleftrightarrow> (ucast u :: 32 word) = ucast v)
   \<and> length (short_entry_id u) = 8 \<and> unat (timestamp_millis s) < 2 ^ 48"
  by (intro conjI) (rule short_entry_id_eq_iff length_short_entry_id timestamp_millis_bound)+

text \<open>The calendar computation agrees with the Gregorian calendar: day 0 is 1970-01-01, and one
  more day is the next date, for all days before and after.\<close>

lemma calendar_is_gregorian:
  "civil_from_days 0 = (1970, 1, 1) \<and> civil_from_days (n + 1) = next_day (civil_from_days n)
   \<and> civil_from_days (int k) = (next_day ^^ k) (1970, 1, 1)"
  by (simp add: civil_from_days_epoch civil_from_days_next civil_from_days_forward)

text \<open>Two absolute project paths share one session directory exactly when they agree up to reading
  slashes as hyphens; so different projects can share one, as \<^verbatim>\<open>/a/b\<close> and \<^verbatim>\<open>/a-b\<close> do.\<close>

lemma projects_can_share_a_directory:
  "(encoded_session_dir (47 # p) = encoded_session_dir (47 # q) \<longleftrightarrow>
      map (\<lambda>c. if c = 47 then 45 else c) p = map (\<lambda>c. if c = 47 then 45 else c) q)
   \<and> lit ''/a/b'' \<noteq> lit ''/a-b'' \<and> encoded_session_dir (lit ''/a/b'') = encoded_session_dir (lit ''/a-b'')"
  using encoded_session_dir_clash by (simp add: encoded_session_dir_def Let_def)

section \<open>Messages\<close>

text \<open>Both stores show the same message history after the same texts were recorded, oldest first.\<close>

lemma message_histories_agree:
  assumes "fresh_ids new_id" "\<forall>e\<in>set es. recordable e limit"
  shows "table_shown (foldl (\<lambda>t e. table_append new_id t e limit) [] es)
    = memory_shown (foldl (\<lambda>st e. apply_domain_append st e limit) empty_history es)"
  by (rule stores_agree[OF assms])

lemma message_histories_agree_witness:
  "table_shown (foldl (\<lambda>t e. table_append next_id t e 2) [] [\<lparr>history_ts = 1, history_text = lit ''a''\<rparr>, \<lparr>history_ts = 2, history_text = lit ''a''\<rparr>,
       \<lparr>history_ts = 3, history_text = lit ''b''\<rparr>])
    = memory_shown (foldl (\<lambda>st e. apply_domain_append st e 2) empty_history [\<lparr>history_ts = 1, history_text = lit ''a''\<rparr>, \<lparr>history_ts = 2, history_text = lit ''a''\<rparr>,
       \<lparr>history_ts = 3, history_text = lit ''b''\<rparr>])"
  by (rule message_histories_agree[OF next_id_fresh])
     (simp add: recordable_def should_record_message_history_text_def i64_max_def utrim_eq_Nil_iff lit_def is_whitespace_def)

text \<open>The history of the store in memory never exceeds the limit and never repeats a text right after
  itself.\<close>

lemma message_history_is_bounded:
  "length (memory_shown (foldl (\<lambda>st e. apply_domain_append st e limit) empty_history es)) \<le> limit
   \<and> no_adjacent_duplicate (memory_shown (foldl (\<lambda>st e. apply_domain_append st e limit) empty_history es))"
  using memory_store.record_all_bound[where s = empty_history and es = es and limit = limit]
    memory_store.record_all_no_duplicate[where s = empty_history and es = es and limit = limit]
  by (simp add: memory_shown_def empty_history_def)

text \<open>In an item that passes validation, the tool calls are exactly the tool call blocks: only an
  assistant message has any.\<close>

lemma validated_items_hold_their_tool_calls:
  assumes "validate_item item = Ok ()"
  shows "tool_calls item = filter_map as_tool_call (item_blocks item)"
  by (rule validated_item_tool_calls[OF assms])

lemma validated_items_hold_their_tool_calls_witness:
  "tool_calls (assistant_with_tool_calls (lit ''x'') [call0]) =
     filter_map as_tool_call (item_blocks (assistant_with_tool_calls (lit ''x'') [call0]))"
  by (rule validated_items_hold_their_tool_calls) (simp add: assistant_with_tool_calls_def)

end
